(* ===== verification/Prelude.thy ===== *)
theory Prelude
  imports Main "HOL-Library.Word"
begin

unbundle bit_operations_syntax

text \<open>
  Shared vocabulary of the development: the result of a Go call that can panic or loop
  forever, reads and writes of Go slices with their bounds checks, powers of two and
  bit masks, and the collections of rewrite rules the component theories extend.
\<close>

named_theorems outcome_simps \<open>case analysis of calls that may panic\<close>

section \<open>Calls that may panic or never return\<close>

datatype 'a outcome = Ret 'a | Panic string | Diverge

fun obind :: "'a outcome \<Rightarrow> ('a \<Rightarrow> 'b outcome) \<Rightarrow> 'b outcome" where
  "obind (Ret x) f = f x"
| "obind (Panic m) f = Panic m"
| "obind Diverge f = Diverge"

fun of_loop :: "'a option \<Rightarrow> 'a outcome" where
  "of_loop (Some x) = Ret x"
| "of_loop None = Diverge"

lemma obind_Ret_iff [outcome_simps]:
  "obind m f = Ret y \<longleftrightarrow> (\<exists>x. m = Ret x \<and> f x = Ret y)"
  by (cases m) auto

lemma obind_cong [fundef_cong]:
  "m = m' \<Longrightarrow> (\<And>x. m' = Ret x \<Longrightarrow> f x = g x) \<Longrightarrow> obind m f = obind m' g"
  by (cases m') auto

lemma obind_assoc: "obind (obind m f) g = obind m (\<lambda>x. obind (f x) g)"
  by (cases m) auto

text \<open>\<open>returns m P\<close>: the call ends normally with a result that satisfies \<open>P\<close>.\<close>

fun returns :: "'a outcome \<Rightarrow> ('a \<Rightarrow> bool) \<Rightarrow> bool" where
  "returns (Ret x) P = P x"
| "returns (Panic m) P = False"
| "returns Diverge P = False"

text \<open>\<open>ends m\<close>: the call ends normally.\<close>

fun ends :: "'a outcome \<Rightarrow> bool" where
  "ends (Ret x) = True"
| "ends (Panic m) = False"
| "ends Diverge = False"

lemma ends_iff: "ends m \<longleftrightarrow> (\<exists>x. m = Ret x)"
  by (cases m) auto

lemma ends_obind: "ends m \<Longrightarrow> (\<And>x. m = Ret x \<Longrightarrow> ends (f x)) \<Longrightarrow> ends (obind m f)"
  by (cases m) auto

lemma returns_iff: "returns m P \<longleftrightarrow> (\<exists>x. m = Ret x \<and> P x)"
  by (cases m) auto

lemma returns_obind [simp]: "returns (obind m f) P \<longleftrightarrow> returns m (\<lambda>x. returns (f x) P)"
  by (cases m) auto

lemma returns_mono: "returns m Q \<Longrightarrow> (\<And>x. Q x \<Longrightarrow> P x) \<Longrightarrow> returns m P"
  by (cases m) auto

section \<open>Slices\<close>

definition get_at :: "'a list \<Rightarrow> int \<Rightarrow> 'a outcome" where
  "get_at b i = (if 0 \<le> i \<and> i < int (length b) then Ret (b ! nat i)
                 else Panic ''index out of range'')"

definition put_at :: "'a list \<Rightarrow> int \<Rightarrow> 'a \<Rightarrow> 'a list outcome" where
  "put_at b i x = (if 0 \<le> i \<and> i < int (length b) then Ret (b[nat i := x])
                   else Panic ''index out of range'')"

definition slice_of :: "'a list \<Rightarrow> int \<Rightarrow> int \<Rightarrow> 'a list outcome" where
  "slice_of b lo hi = (if 0 \<le> lo \<and> lo \<le> hi \<and> hi \<le> int (length b)
                       then Ret (take (nat (hi - lo)) (drop (nat lo) b))
                       else Panic ''slice bounds out of range'')"

text \<open>The effect of Go's \<open>copy(dst[k:], src)\<close> on \<open>dst\<close>; \<open>copy\<close> returns the number of
  elements it wrote.\<close>

definition copy_at :: "'a list \<Rightarrow> nat \<Rightarrow> 'a list \<Rightarrow> 'a list" where
  "copy_at dst k src = take k dst @ take (length dst - k) src @ drop (k + length src) dst"

definition copied :: "'a list \<Rightarrow> nat \<Rightarrow> 'a list \<Rightarrow> nat" where
  "copied dst k src = min (length dst - k) (length src)"

lemma get_at_int [simp]: "i < length b \<Longrightarrow> get_at b (int i) = Ret (b ! i)"
  by (simp add: get_at_def)

lemma put_at_int [simp]: "i < length b \<Longrightarrow> put_at b (int i) x = Ret (b[i := x])"
  by (simp add: put_at_def)

lemma slice_of_int [simp]:
  "lo \<le> hi \<Longrightarrow> hi \<le> length b \<Longrightarrow>
     slice_of b (int lo) (int hi) = Ret (take (hi - lo) (drop lo b))"
  by (simp add: slice_of_def nat_diff_distrib')

lemma length_copy_at [simp]: "k \<le> length dst \<Longrightarrow> length (copy_at dst k src) = length dst"
  by (simp add: copy_at_def)

lemma copy_at_0: "length src \<le> length dst \<Longrightarrow> copy_at dst 0 src = src @ drop (length src) dst"
  by (simp add: copy_at_def)

section \<open>Powers of two and masks\<close>

definition is_pow2 :: "nat \<Rightarrow> bool" where
  "is_pow2 n \<longleftrightarrow> (\<exists>k \<in> {..n}. n = 2 ^ k)"

lemma is_pow2_iff: "is_pow2 n \<longleftrightarrow> (\<exists>k. n = 2 ^ k)"
proof
  assume "\<exists>k. n = 2 ^ k"
  then obtain k where k: "n = 2 ^ k" ..
  have "k < 2 ^ k" by (rule less_exp)
  with k show "is_pow2 n" by (auto simp: is_pow2_def intro!: bexI[of _ k])
qed (auto simp: is_pow2_def)

lemma is_pow2_pos: "is_pow2 n \<Longrightarrow> 0 < n"
  by (auto simp: is_pow2_iff)

lemma is_pow2_double: "is_pow2 n \<Longrightarrow> is_pow2 (2 * n)"
  by (auto simp: is_pow2_iff intro: exI[of _ "Suc _"])

lemma is_pow2_half:
  assumes "is_pow2 (2 * n)" shows "is_pow2 n"
proof -
  from assms obtain k where k: "2 * n = 2 ^ k" by (auto simp: is_pow2_iff)
  then have "k \<noteq> 0" by (cases k) auto
  then obtain j where "k = Suc j" by (cases k) auto
  with k show ?thesis by (auto simp: is_pow2_iff)
qed

lemma is_pow2_8: "is_pow2 8"
  unfolding is_pow2_iff by (rule exI[of _ 3]) simp

text \<open>Masking with \<open>len - 1\<close> is reduction modulo a length that is a power of two.\<close>

lemma and_mask_mod:
  assumes "is_pow2 n" shows "(x::int) AND (int n - 1) = x mod int n"
proof -
  from assms obtain k where k: "n = 2 ^ k" by (auto simp: is_pow2_iff)
  have "x AND (2 ^ k - 1) = take_bit k x"
    by (simp add: take_bit_eq_mask mask_eq_exp_minus_1)
  with k show ?thesis by (simp add: take_bit_eq_mod)
qed

end
