(* ===== verification/Deque.thy ===== *)
theory Deque
  imports Prelude "HOL-Library.While_Combinator"
begin

text \<open>
  The generic double-ended queue of \<open>common/deque/deque.go\<close>: a ring buffer whose length
  is a power of two, indexed with bit masks, which doubles when full and halves when a
  quarter full. Every method is a definition that may panic (a slice access out of range
  or an explicit \<open>panic\<close>) or, for the capacity loops, diverge. The zero value that the
  code writes into vacated slots is \<open>0\<close> of the element type.
\<close>

section \<open>State\<close>

record 'a deque =
  dq_buf :: "'a list"
  dq_head :: int
  dq_tail :: int
  dq_count :: int
  dq_minCap :: int

definition minCapacity :: int where
  "minCapacity = 8"

definition dq_zero :: "'a deque" where
  "dq_zero = \<lparr>dq_buf = [], dq_head = 0, dq_tail = 0, dq_count = 0, dq_minCap = 0\<rparr>"

definition dq_Cap :: "'a deque \<Rightarrow> int" where
  "dq_Cap q = int (length (dq_buf q))"

definition dq_Len :: "'a deque \<Rightarrow> int" where
  "dq_Len q = dq_count q"

section \<open>Index arithmetic and capacity\<close>

definition dq_prev :: "'a deque \<Rightarrow> int \<Rightarrow> int" where
  "dq_prev q i = (i - 1) AND (dq_Cap q - 1)"

definition dq_next :: "'a deque \<Rightarrow> int \<Rightarrow> int" where
  "dq_next q i = (i + 1) AND (dq_Cap q - 1)"

definition dq_make :: "int \<Rightarrow> 'a::zero list outcome" where
  "dq_make n = (if n < 0 then Panic ''makeslice: len out of range''
                else Ret (replicate (nat n) 0))"

definition dq_resize :: "int \<Rightarrow> 'a::zero deque \<Rightarrow> 'a deque outcome" where
  "dq_resize newSize q =
     obind (dq_make newSize) (\<lambda>newBuf.
     obind (if dq_head q < dq_tail q
            then obind (slice_of (dq_buf q) (dq_head q) (dq_tail q))
                   (\<lambda>s. Ret (copy_at newBuf 0 s))
            else obind (slice_of (dq_buf q) (dq_head q) (dq_Cap q)) (\<lambda>s1.
                 obind (slice_of (dq_buf q) 0 (dq_tail q)) (\<lambda>s2.
                   Ret (copy_at (copy_at newBuf 0 s1) (copied newBuf 0 s1) s2))))
       (\<lambda>b. Ret (q\<lparr>dq_buf := b, dq_head := 0, dq_tail := dq_count q\<rparr>)))"

text \<open>The loop \<open>for c < n { c <<= 1 }\<close>; \<open>None\<close> when it never ends.\<close>

definition dq_shl_until :: "int \<Rightarrow> int \<Rightarrow> int outcome" where
  "dq_shl_until c n = of_loop (while_option (\<lambda>c. c < n) (\<lambda>c. c * 2) c)"

definition dq_growIfFull :: "'a::zero deque \<Rightarrow> 'a deque outcome" where
  "dq_growIfFull q =
     (if dq_count q \<noteq> dq_Cap q then Ret q
      else if dq_Cap q = 0 then
        (let m = (if dq_minCap q = 0 then minCapacity else dq_minCap q)
         in obind (dq_make m) (\<lambda>b. Ret (q\<lparr>dq_buf := b, dq_minCap := m\<rparr>)))
      else dq_resize (dq_count q * 2) q)"

definition dq_shrinkIfExcess :: "'a::zero deque \<Rightarrow> 'a deque outcome" where
  "dq_shrinkIfExcess q =
     (if dq_Cap q > dq_minCap q \<and> dq_count q * 4 = dq_Cap q
      then dq_resize (dq_count q * 2) q else Ret q)"

definition dq_shrinkToFit :: "'a::zero deque \<Rightarrow> 'a deque outcome" where
  "dq_shrinkToFit q =
     (if dq_Cap q > dq_minCap q \<and> dq_count q * 4 \<le> dq_Cap q then
        (if dq_count q = 0 then
           obind (dq_make (dq_minCap q))
             (\<lambda>b. Ret (q\<lparr>dq_head := 0, dq_tail := 0, dq_buf := b\<rparr>))
         else obind (dq_shl_until (dq_minCap q) (dq_count q)) (\<lambda>c. dq_resize c q))
      else Ret q)"

definition dq_checkRange :: "'a deque \<Rightarrow> int \<Rightarrow> unit outcome" where
  "dq_checkRange q i =
     (if i < 0 \<or> i \<ge> dq_count q then Panic ''deque: index out of range'' else Ret ())"

section \<open>Adding and removing at the ends\<close>

definition dq_PushBack :: "'a::zero \<Rightarrow> 'a deque \<Rightarrow> 'a deque outcome" where
  "dq_PushBack x q =
     obind (dq_growIfFull q) (\<lambda>q.
     obind (put_at (dq_buf q) (dq_tail q) x) (\<lambda>b.
       Ret (q\<lparr>dq_buf := b, dq_tail := dq_next q (dq_tail q), dq_count := dq_count q + 1\<rparr>)))"

definition dq_PushFront :: "'a::zero \<Rightarrow> 'a deque \<Rightarrow> 'a deque outcome" where
  "dq_PushFront x q =
     obind (dq_growIfFull q) (\<lambda>q.
       let h = dq_prev q (dq_head q) in
       obind (put_at (dq_buf q) h x) (\<lambda>b.
         Ret (q\<lparr>dq_head := h, dq_buf := b, dq_count := dq_count q + 1\<rparr>)))"

text \<open>One removal from the front or the back, without the resizing that ends it.\<close>

definition dq_take_front :: "'a::zero deque \<Rightarrow> ('a \<times> 'a deque) outcome" where
  "dq_take_front q =
     obind (get_at (dq_buf q) (dq_head q)) (\<lambda>ret.
     obind (put_at (dq_buf q) (dq_head q) 0) (\<lambda>b.
       Ret (ret, q\<lparr>dq_buf := b, dq_head := dq_next q (dq_head q),
                   dq_count := dq_count q - 1\<rparr>)))"

definition dq_take_back :: "'a::zero deque \<Rightarrow> ('a \<times> 'a deque) outcome" where
  "dq_take_back q =
     (let t = dq_prev q (dq_tail q) in
      obind (get_at (dq_buf q) t) (\<lambda>ret.
      obind (put_at (dq_buf q) t 0) (\<lambda>b.
        Ret (ret, q\<lparr>dq_tail := t, dq_buf := b, dq_count := dq_count q - 1\<rparr>))))"

definition dq_PopFront :: "'a::zero deque \<Rightarrow> ('a \<times> 'a deque) outcome" where
  "dq_PopFront q =
     (if dq_count q \<le> 0 then Panic ''deque: PopFront() called on empty queue''
      else obind (dq_take_front q) (\<lambda>(ret, q).
           obind (dq_shrinkIfExcess q) (\<lambda>q. Ret (ret, q))))"

definition dq_PopBack :: "'a::zero deque \<Rightarrow> ('a \<times> 'a deque) outcome" where
  "dq_PopBack q =
     (if dq_count q \<le> 0 then Panic ''deque: PopBack() called on empty queue''
      else obind (dq_take_back q) (\<lambda>(ret, q).
           obind (dq_shrinkIfExcess q) (\<lambda>q. Ret (ret, q))))"

text \<open>The popping iterators, for a consumer whose answers are the predicate \<open>yield\<close>:
  the items handed to it, in order, and the queue that is left. The first argument of the
  loops counts the iterations left, \<open>q.count\<close> at the start.\<close>

fun dq_drain_front :: "nat \<Rightarrow> ('a::zero \<Rightarrow> bool) \<Rightarrow> 'a deque \<Rightarrow> ('a list \<times> 'a deque) outcome" where
  "dq_drain_front 0 yield q = Ret ([], q)"
| "dq_drain_front (Suc n) yield q =
     obind (dq_take_front q) (\<lambda>(ret, q).
       if yield ret
       then obind (dq_drain_front n yield q) (\<lambda>(xs, q). Ret (ret # xs, q))
       else Ret ([ret], q))"

fun dq_drain_back :: "nat \<Rightarrow> ('a::zero \<Rightarrow> bool) \<Rightarrow> 'a deque \<Rightarrow> ('a list \<times> 'a deque) outcome" where
  "dq_drain_back 0 yield q = Ret ([], q)"
| "dq_drain_back (Suc n) yield q =
     obind (dq_take_back q) (\<lambda>(ret, q).
       if yield ret
       then obind (dq_drain_back n yield q) (\<lambda>(xs, q). Ret (ret # xs, q))
       else Ret ([ret], q))"

definition dq_IterPopFront ::
  "('a::zero \<Rightarrow> bool) \<Rightarrow> 'a deque \<Rightarrow> ('a list \<times> 'a deque) outcome" where
  "dq_IterPopFront yield q =
     (if dq_Len q = 0 then Ret ([], q)
      else obind (dq_drain_front (nat (dq_count q)) yield q) (\<lambda>(xs, q).
           obind (dq_shrinkToFit q) (\<lambda>q. Ret (xs, q))))"

definition dq_IterPopBack ::
  "('a::zero \<Rightarrow> bool) \<Rightarrow> 'a deque \<Rightarrow> ('a list \<times> 'a deque) outcome" where
  "dq_IterPopBack yield q =
     (if dq_Len q = 0 then Ret ([], q)
      else obind (dq_drain_back (nat (dq_count q)) yield q) (\<lambda>(xs, q).
           obind (dq_shrinkToFit q) (\<lambda>q. Ret (xs, q))))"

section \<open>Reading\<close>

definition dq_Front :: "'a deque \<Rightarrow> 'a outcome" where
  "dq_Front q = (if dq_count q \<le> 0 then Panic ''deque: Front() called when empty''
                 else get_at (dq_buf q) (dq_head q))"

definition dq_Back :: "'a deque \<Rightarrow> 'a outcome" where
  "dq_Back q = (if dq_count q \<le> 0 then Panic ''deque: Back() called when empty''
                else get_at (dq_buf q) (dq_prev q (dq_tail q)))"

definition dq_real :: "'a deque \<Rightarrow> int \<Rightarrow> int" where
  "dq_real q i = (dq_head q + i) AND (dq_Cap q - 1)"

definition dq_At :: "int \<Rightarrow> 'a deque \<Rightarrow> 'a outcome" where
  "dq_At i q = obind (dq_checkRange q i) (\<lambda>_. get_at (dq_buf q) (dq_real q i))"

definition dq_Set :: "int \<Rightarrow> 'a \<Rightarrow> 'a deque \<Rightarrow> 'a deque outcome" where
  "dq_Set i x q =
     obind (dq_checkRange q i) (\<lambda>_.
     obind (put_at (dq_buf q) (dq_real q i) x) (\<lambda>b. Ret (q\<lparr>dq_buf := b\<rparr>)))"

text \<open>\<open>Iter\<close> and \<open>RIter\<close> for a consumer that does not touch the queue (one that does
  makes them panic): the items handed over until it declines one.\<close>

fun dq_iter_loop :: "nat \<Rightarrow> ('a \<Rightarrow> bool) \<Rightarrow> int \<Rightarrow> 'a deque \<Rightarrow> 'a list outcome" where
  "dq_iter_loop 0 yield h q = Ret []"
| "dq_iter_loop (Suc n) yield h q =
     obind (get_at (dq_buf q) h) (\<lambda>x.
       if yield x then obind (dq_iter_loop n yield (dq_next q h) q) (\<lambda>xs. Ret (x # xs))
       else Ret [x])"

fun dq_riter_loop :: "nat \<Rightarrow> ('a \<Rightarrow> bool) \<Rightarrow> int \<Rightarrow> 'a deque \<Rightarrow> 'a list outcome" where
  "dq_riter_loop 0 yield t q = Ret []"
| "dq_riter_loop (Suc n) yield t q =
     (let t = dq_prev q t in
      obind (get_at (dq_buf q) t) (\<lambda>x.
        if yield x then obind (dq_riter_loop n yield t q) (\<lambda>xs. Ret (x # xs))
        else Ret [x]))"

definition dq_Iter :: "('a \<Rightarrow> bool) \<Rightarrow> 'a deque \<Rightarrow> 'a list outcome" where
  "dq_Iter yield q = dq_iter_loop (nat (dq_Len q)) yield (dq_head q) q"

definition dq_RIter :: "('a \<Rightarrow> bool) \<Rightarrow> 'a deque \<Rightarrow> 'a list outcome" where
  "dq_RIter yield q = dq_riter_loop (nat (dq_Len q)) yield (dq_tail q) q"

fun dq_index_loop :: "nat \<Rightarrow> ('a \<Rightarrow> bool) \<Rightarrow> int \<Rightarrow> 'a deque \<Rightarrow> int outcome" where
  "dq_index_loop 0 f i q = Ret (-1)"
| "dq_index_loop (Suc n) f i q =
     obind (get_at (dq_buf q) (dq_real q i)) (\<lambda>x.
       if f x then Ret i else dq_index_loop n f (i + 1) q)"

fun dq_rindex_loop :: "nat \<Rightarrow> ('a \<Rightarrow> bool) \<Rightarrow> 'a deque \<Rightarrow> int outcome" where
  "dq_rindex_loop 0 f q = Ret (-1)"
| "dq_rindex_loop (Suc i) f q =
     obind (get_at (dq_buf q) (dq_real q (int i))) (\<lambda>x.
       if f x then Ret (int i) else dq_rindex_loop i f q)"

definition dq_Index :: "('a \<Rightarrow> bool) \<Rightarrow> 'a deque \<Rightarrow> int outcome" where
  "dq_Index f q = (if dq_Len q > 0 then dq_index_loop (nat (dq_count q)) f 0 q else Ret (-1))"

definition dq_RIndex :: "('a \<Rightarrow> bool) \<Rightarrow> 'a deque \<Rightarrow> int outcome" where
  "dq_RIndex f q = (if dq_Len q > 0 then dq_rindex_loop (nat (dq_count q)) f q else Ret (-1))"

section \<open>Whole-queue operations\<close>

definition dq_clear_slice :: "'a::zero list \<Rightarrow> int \<Rightarrow> int \<Rightarrow> 'a list outcome" where
  "dq_clear_slice b lo hi =
     obind (slice_of b lo hi) (\<lambda>s.
       Ret (take (nat lo) b @ replicate (length s) 0 @ drop (nat hi) b))"

definition dq_Clear :: "'a::zero deque \<Rightarrow> 'a deque outcome" where
  "dq_Clear q =
     (if dq_Len q = 0 then Ret q
      else obind (if dq_head q \<ge> dq_tail q
                  then obind (dq_clear_slice (dq_buf q) (dq_head q) (dq_Cap q))
                         (\<lambda>b. dq_clear_slice b 0 (dq_tail q))
                  else dq_clear_slice (dq_buf q) (dq_head q) (dq_tail q))
             (\<lambda>b. Ret (q\<lparr>dq_buf := b, dq_count := 0, dq_head := 0, dq_tail := 0\<rparr>)))"

definition dq_Grow :: "int \<Rightarrow> 'a::zero deque \<Rightarrow> 'a deque outcome" where
  "dq_Grow n q =
     (if n < 0 then Panic ''deque.Grow: negative count''
      else let c = dq_Cap q; l = dq_Len q in
        if n \<le> c - l then Ret q
        else obind (dq_shl_until (if c = 0 then minCapacity else c) (l + n)) (\<lambda>c.
          if l = 0 then obind (dq_make c)
            (\<lambda>b. Ret (q\<lparr>dq_buf := b, dq_head := 0, dq_tail := 0\<rparr>))
          else dq_resize c q))"

definition dq_CopyOutSlice :: "'a list \<Rightarrow> 'a deque \<Rightarrow> (nat \<times> 'a list) outcome" where
  "dq_CopyOutSlice out q =
     (if dq_count q = 0 \<or> out = [] then Ret (0, out)
      else if dq_head q \<ge> dq_tail q then
        obind (slice_of (dq_buf q) (dq_head q) (dq_Cap q)) (\<lambda>s.
          let n = copied out 0 s; out' = copy_at out 0 s in
          if n = length out then Ret (n, out')
          else obind (slice_of (dq_buf q) 0 (dq_tail q)) (\<lambda>s2.
                 Ret (n + copied out' n s2, copy_at out' n s2)))
      else obind (slice_of (dq_buf q) (dq_head q) (dq_tail q)) (\<lambda>s.
             Ret (copied out 0 s, copy_at out 0 s)))"

definition dq_copyin_room :: "'a::zero list \<Rightarrow> 'a deque \<Rightarrow> 'a deque outcome" where
  "dq_copyin_room xs q =
     (if length (dq_buf q) < length xs then
        (let q1 = (if dq_Cap q = 0 then q\<lparr>dq_minCap := minCapacity\<rparr> else q);
             c0 = (if dq_Cap q = 0 then minCapacity else dq_Cap q) in
         obind (dq_shl_until c0 (int (length xs))) (\<lambda>c.
         obind (dq_make c) (\<lambda>b. Ret (q1\<lparr>dq_buf := b\<rparr>))))
      else if length (dq_buf q) > length xs then dq_Clear q
      else Ret q)"

definition dq_CopyInSlice :: "'a::zero list \<Rightarrow> 'a deque \<Rightarrow> 'a deque outcome" where
  "dq_CopyInSlice xs q =
     obind (dq_copyin_room xs q)
       (\<lambda>q. let n = int (copied (dq_buf q) 0 xs) in
            Ret (q\<lparr>dq_buf := copy_at (dq_buf q) 0 xs, dq_count := n, dq_tail := n,
                   dq_head := 0\<rparr>))"

definition dq_Copy :: "'a::zero deque \<Rightarrow> 'a deque \<Rightarrow> (int \<times> 'a deque) outcome" where
  "dq_Copy src q =
     obind (dq_Clear q) (\<lambda>q.
     obind (dq_Grow (dq_Len src) q) (\<lambda>q.
     obind (dq_CopyOutSlice (dq_buf q) src) (\<lambda>(n, b).
       Ret (int n, q\<lparr>dq_buf := b, dq_count := int n, dq_tail := int n, dq_head := 0\<rparr>))))"

definition dq_AppendToSlice :: "'a list \<Rightarrow> 'a deque \<Rightarrow> 'a list outcome" where
  "dq_AppendToSlice out q =
     (if dq_count q = 0 then Ret out
      else if dq_head q \<ge> dq_tail q then
        obind (slice_of (dq_buf q) (dq_head q) (dq_Cap q)) (\<lambda>s.
        obind (slice_of (dq_buf q) 0 (dq_tail q)) (\<lambda>s2. Ret ((out @ s) @ s2)))
      else obind (slice_of (dq_buf q) (dq_head q) (dq_tail q)) (\<lambda>s. Ret (out @ s)))"

definition dq_SetBaseCap :: "int \<Rightarrow> 'a deque \<Rightarrow> 'a deque outcome" where
  "dq_SetBaseCap baseCap q =
     obind (dq_shl_until minCapacity baseCap) (\<lambda>m. Ret (q\<lparr>dq_minCap := m\<rparr>))"

section \<open>Moving elements\<close>

text \<open>Go's \<open>%\<close> truncates towards zero.\<close>

definition go_rem :: "int \<Rightarrow> int \<Rightarrow> int" where
  "go_rem a b = sgn a * (\<bar>a\<bar> mod \<bar>b\<bar>)"

fun dq_rot_back :: "nat \<Rightarrow> 'a::zero deque \<Rightarrow> 'a deque outcome" where
  "dq_rot_back 0 q = Ret q"
| "dq_rot_back (Suc n) q =
     (let h = (dq_head q - 1) AND (dq_Cap q - 1); t = (dq_tail q - 1) AND (dq_Cap q - 1) in
      obind (get_at (dq_buf q) t) (\<lambda>x.
      obind (put_at (dq_buf q) h x) (\<lambda>b.
      obind (put_at b t 0) (\<lambda>b.
        dq_rot_back n (q\<lparr>dq_head := h, dq_tail := t, dq_buf := b\<rparr>)))))"

fun dq_rot_front :: "nat \<Rightarrow> 'a::zero deque \<Rightarrow> 'a deque outcome" where
  "dq_rot_front 0 q = Ret q"
| "dq_rot_front (Suc n) q =
     obind (get_at (dq_buf q) (dq_head q)) (\<lambda>x.
     obind (put_at (dq_buf q) (dq_tail q) x) (\<lambda>b.
     obind (put_at b (dq_head q) 0) (\<lambda>b.
       dq_rot_front n (q\<lparr>dq_buf := b, dq_head := (dq_head q + 1) AND (dq_Cap q - 1),
                         dq_tail := (dq_tail q + 1) AND (dq_Cap q - 1)\<rparr>))))"

definition dq_Rotate :: "int \<Rightarrow> 'a::zero deque \<Rightarrow> 'a deque outcome" where
  "dq_Rotate n q =
     (if dq_Len q \<le> 1 then Ret q
      else let n = go_rem n (dq_count q) in
        if n = 0 then Ret q
        else if dq_head q = dq_tail q then
          (let h = (dq_head q + n) AND (dq_Cap q - 1) in
           Ret (q\<lparr>dq_head := h, dq_tail := h\<rparr>))
        else if n < 0 then dq_rot_back (nat (- n)) q
        else dq_rot_front (nat n) q)"

text \<open>The exchange of two slots that \<open>Insert\<close>, \<open>Remove\<close> and \<open>Swap\<close> perform.\<close>

definition dq_swap_slots :: "int \<Rightarrow> int \<Rightarrow> 'a deque \<Rightarrow> 'a deque outcome" where
  "dq_swap_slots i j q =
     obind (get_at (dq_buf q) i) (\<lambda>x.
     obind (get_at (dq_buf q) j) (\<lambda>y.
     obind (put_at (dq_buf q) i y) (\<lambda>b.
     obind (put_at b j x) (\<lambda>b. Ret (q\<lparr>dq_buf := b\<rparr>)))))"

fun dq_bubble_next :: "nat \<Rightarrow> int \<Rightarrow> 'a deque \<Rightarrow> 'a deque outcome" where
  "dq_bubble_next 0 i q = Ret q"
| "dq_bubble_next (Suc n) i q =
     obind (dq_swap_slots i (dq_next q i) q) (\<lambda>q'. dq_bubble_next n (dq_next q i) q')"

fun dq_bubble_prev :: "nat \<Rightarrow> int \<Rightarrow> 'a deque \<Rightarrow> 'a deque outcome" where
  "dq_bubble_prev 0 i q = Ret q"
| "dq_bubble_prev (Suc n) i q =
     obind (dq_swap_slots i (dq_prev q i) q) (\<lambda>q'. dq_bubble_prev n (dq_prev q i) q')"

definition dq_Insert :: "int \<Rightarrow> 'a::zero \<Rightarrow> 'a deque \<Rightarrow> 'a deque outcome" where
  "dq_Insert at x q =
     (if at \<le> 0 then dq_PushFront x q
      else if at \<ge> dq_Len q then dq_PushBack x q
      else if at * 2 < dq_count q then
        obind (dq_PushFront x q) (\<lambda>q. dq_bubble_next (nat at) (dq_head q) q)
      else
        obind (dq_PushBack x q)
          (\<lambda>q'. dq_bubble_prev (nat (dq_count q - at)) (dq_prev q' (dq_tail q')) q'))"

definition dq_Remove :: "int \<Rightarrow> 'a::zero deque \<Rightarrow> ('a \<times> 'a deque) outcome" where
  "dq_Remove at q =
     obind (dq_checkRange q at) (\<lambda>_.
       if at * 2 < dq_count q then
         obind (dq_bubble_prev (nat at) (dq_real q at) q) dq_PopFront
       else
         obind (dq_bubble_next (nat (dq_count q - at - 1)) (dq_real q at) q) dq_PopBack)"

definition dq_Swap :: "int \<Rightarrow> int \<Rightarrow> 'a deque \<Rightarrow> 'a deque outcome" where
  "dq_Swap idxA idxB q =
     obind (dq_checkRange q idxA) (\<lambda>_.
     obind (dq_checkRange q idxB) (\<lambda>_.
       if idxA = idxB then Ret q
       else dq_swap_slots (dq_real q idxA) (dq_real q idxB) q))"

section \<open>The contents of the ring\<close>

text \<open>The \<open>c\<close> elements of the buffer \<open>b\<close> that start at slot \<open>h\<close> and wrap around.\<close>

definition ring :: "'a list \<Rightarrow> nat \<Rightarrow> nat \<Rightarrow> 'a list" where
  "ring b h c = map (\<lambda>i. b ! ((h + i) mod length b)) [0..<c]"

lemma length_ring [simp]: "length (ring b h c) = c"
  by (simp add: ring_def)

lemma nth_ring [simp]: "i < c \<Longrightarrow> ring b h c ! i = b ! ((h + i) mod length b)"
  by (simp add: ring_def)

lemma ring_0 [simp]: "ring b h 0 = []"
  by (simp add: ring_def)

lemma mod_add_cancel_nat:
  fixes h :: nat
  shows "(h + i) mod n = (h + j) mod n \<longleftrightarrow> i mod n = j mod n"
proof -
  have "int ((h + i) mod n) = int ((h + j) mod n) \<longleftrightarrow> int (i mod n) = int (j mod n)"
    by (simp add: zmod_int mod_eq_dvd_iff)
  then show ?thesis by simp
qed

lemma ring_slot_eq:
  fixes h :: nat
  shows "i < n \<Longrightarrow> j < n \<Longrightarrow> (h + i) mod n = (h + j) mod n \<longleftrightarrow> i = j"
  by (simp add: mod_add_cancel_nat)

lemma slot_less: "c < length b \<Longrightarrow> (h + c) mod length b < length b"
  by (intro mod_less_divisor) linarith

lemma ring_push_back:
  assumes "c < length b"
  shows "ring (b[(h + c) mod length b := x]) h (Suc c) = ring b h c @ [x]"
  using assms slot_less[OF assms, of h]
  by (intro nth_equalityI) (auto simp: nth_append nth_list_update ring_slot_eq less_Suc_eq)

lemma ring_pop_back:
  assumes "c < length b"
  shows "ring b h (Suc c) = ring (b[(h + c) mod length b := z]) h c @ [b ! ((h + c) mod length b)]"
  using assms by (intro nth_equalityI) (auto simp: nth_append nth_list_update ring_slot_eq less_Suc_eq)

lemma prev_slot:
  fixes h :: nat assumes "0 < n"
  shows "((h + n - 1) mod n + Suc i) mod n = (h + i) mod n"
proof -
  have "((h + n - 1) mod n + Suc i) mod n = ((h + n - 1) + Suc i) mod n"
    by (rule mod_add_left_eq)
  also have "(h + n - 1) + Suc i = (h + i) + n" using assms by simp
  finally show ?thesis by simp
qed

lemma ring_push_front:
  assumes "c < length b" "h' = (h + length b - 1) mod length b"
  shows "ring (b[h' := x]) h' (Suc c) = x # ring b h c"
proof (rule nth_equalityI)
  let ?n = "length b"
  fix i assume i: "i < length (ring (b[h' := x]) h' (Suc c))"
  have n: "0 < ?n" using assms by linarith
  then have h': "h' < ?n" using assms(2) by simp
  show "ring (b[h' := x]) h' (Suc c) ! i = (x # ring b h c) ! i"
  proof (cases i)
    case 0
    with h' show ?thesis by simp
  next
    case (Suc j)
    have "(h' + 0) mod ?n \<noteq> (h' + Suc j) mod ?n"
      using i Suc assms(1) by (subst ring_slot_eq) auto
    moreover have "(h' + Suc j) mod ?n = (h + j) mod ?n"
      using prev_slot[OF n, of h j] assms(2) by simp
    ultimately show ?thesis using i Suc h' by simp
  qed
qed simp

lemma next_slot: "((h + 1) mod n + i) mod n = (h + Suc i) mod (n::nat)"
  by (simp add: mod_add_left_eq)

lemma ring_pop_front:
  assumes "c < length b" "h < length b"
  shows "ring b h (Suc c) = b ! h # ring (b[h := z]) ((h + 1) mod length b) c"
proof (rule nth_equalityI)
  let ?n = "length b"
  fix i assume i: "i < length (ring b h (Suc c))"
  show "ring b h (Suc c) ! i = (b ! h # ring (b[h := z]) ((h + 1) mod ?n) c) ! i"
  proof (cases i)
    case 0
    with assms show ?thesis by simp
  next
    case (Suc j)
    have "(h + 0) mod ?n \<noteq> (h + Suc j) mod ?n"
      using i Suc assms(1) by (subst ring_slot_eq) auto
    then have "h \<noteq> (h + Suc j) mod ?n" using assms(2) by simp
    with i Suc next_slot[of h ?n j] show ?thesis by simp
  qed
qed simp

lemma ring_at_0: "c \<le> length b \<Longrightarrow> ring b 0 c = take c b"
  by (rule nth_equalityI) auto

lemma ring_wrap:
  assumes "c \<le> length b" "h < length b" "length b \<le> h + c"
  shows "ring b h c = drop h b @ take (h + c - length b) b"
proof (rule nth_equalityI)
  fix i assume "i < length (ring b h c)"
  then have i: "i < c" by simp
  show "ring b h c ! i = (drop h b @ take (h + c - length b) b) ! i"
  proof (cases "h + i < length b")
    case True
    then have "i < length b - h" by linarith
    with True i show ?thesis by (simp add: nth_append)
  next
    case False
    then have "(h + i) mod length b = h + i - length b"
      using i assms by (simp add: mod_if)
    moreover have "i - (length b - h) = h + i - length b" "\<not> i < length b - h"
      using assms(2) False by linarith+
    ultimately show ?thesis using i False assms by (simp add: nth_append)
  qed
qed (use assms in simp)

lemma ring_nowrap:
  assumes "h + c \<le> length b"
  shows "ring b h c = take c (drop h b)"
  using assms by (intro nth_equalityI) auto

section \<open>Well-formed queues and their abstraction\<close>

definition dq_mk :: "'a list \<Rightarrow> nat \<Rightarrow> nat \<Rightarrow> nat \<Rightarrow> 'a deque" where
  "dq_mk b h c m = \<lparr>dq_buf = b, dq_head = int h, dq_tail = int ((h + c) mod length b),
                    dq_count = int c, dq_minCap = int m\<rparr>"

definition dq_ok :: "'a list \<Rightarrow> nat \<Rightarrow> nat \<Rightarrow> nat \<Rightarrow> bool" where
  "dq_ok b h c m \<longleftrightarrow> (m = 0 \<or> is_pow2 m) \<and>
     (if b = [] then h = 0 \<and> c = 0
      else is_pow2 (length b) \<and> h < length b \<and> c \<le> length b)"

definition dq_wf :: "'a deque \<Rightarrow> bool" where
  "dq_wf q \<longleftrightarrow> 0 \<le> dq_head q \<and> 0 \<le> dq_count q \<and> 0 \<le> dq_minCap q \<and>
     dq_tail q = int ((nat (dq_head q) + nat (dq_count q)) mod length (dq_buf q)) \<and>
     dq_ok (dq_buf q) (nat (dq_head q)) (nat (dq_count q)) (nat (dq_minCap q))"

definition dq_list :: "'a deque \<Rightarrow> 'a list" where
  "dq_list q = ring (dq_buf q) (nat (dq_head q)) (nat (dq_count q))"

lemma dq_mk_sel [simp]:
  "dq_buf (dq_mk b h c m) = b" "dq_head (dq_mk b h c m) = int h"
  "dq_tail (dq_mk b h c m) = int ((h + c) mod length b)"
  "dq_count (dq_mk b h c m) = int c" "dq_minCap (dq_mk b h c m) = int m"
  "dq_Cap (dq_mk b h c m) = int (length b)" "dq_Len (dq_mk b h c m) = int c"
  by (simp_all add: dq_mk_def dq_Cap_def dq_Len_def)

lemma dq_mk_inject [simp]:
  "dq_mk b h c m = dq_mk b' h' c' m' \<longleftrightarrow> b = b' \<and> h = h' \<and> c = c' \<and> m = m'"
  by (auto simp: dq_mk_def)

lemma dq_wf_mk [simp]: "dq_wf (dq_mk b h c m) \<longleftrightarrow> dq_ok b h c m"
  by (simp add: dq_wf_def)

lemma dq_list_mk [simp]: "dq_list (dq_mk b h c m) = ring b h c"
  by (simp add: dq_list_def)

lemma dq_wfE:
  assumes "dq_wf q"
  obtains b h c m where "q = dq_mk b h c m" "dq_ok b h c m"
proof
  show "q = dq_mk (dq_buf q) (nat (dq_head q)) (nat (dq_count q)) (nat (dq_minCap q))"
    using assms by (simp add: dq_wf_def dq_mk_def)
  show "dq_ok (dq_buf q) (nat (dq_head q)) (nat (dq_count q)) (nat (dq_minCap q))"
    using assms by (simp add: dq_wf_def)
qed

lemma dq_okD:
  assumes "dq_ok b h c m" "b \<noteq> []"
  shows "is_pow2 (length b)" "h < length b" "c \<le> length b" "0 < length b" "m = 0 \<or> is_pow2 m"
  using assms by (auto simp: dq_ok_def)

lemma dq_ok_upd [simp]: "dq_ok (b[i := x]) h c m = dq_ok b h c m"
  by (simp add: dq_ok_def)

lemma dq_next_int:
  "is_pow2 (length (dq_buf q)) \<Longrightarrow> dq_next q (int i) = int ((i + 1) mod length (dq_buf q))"
  by (simp add: dq_next_def dq_Cap_def and_mask_mod zmod_int add.commute)

lemma dq_prev_int:
  assumes "is_pow2 (length (dq_buf q))"
  shows "dq_prev q (int i) = int ((i + length (dq_buf q) - 1) mod length (dq_buf q))"
proof -
  let ?n = "length (dq_buf q)"
  have "0 < ?n" using assms by (rule is_pow2_pos)
  then have "int (i + ?n - 1) = (int i - 1) + int ?n" by arith
  then show ?thesis using assms by (simp add: dq_prev_def dq_Cap_def and_mask_mod zmod_int)
qed

lemma dq_real_int:
  "is_pow2 (length b) \<Longrightarrow> dq_real (dq_mk b h c m) (int i) = int ((h + i) mod length b)"
  by (simp add: dq_real_def and_mask_mod zmod_int)

section \<open>Resizing\<close>

lemma dq_resize_mk:
  assumes ok: "dq_ok b h c m" and c: "0 < c" "c \<le> N"
  shows "dq_resize (int N) (dq_mk b h c m) =
    Ret \<lparr>dq_buf = ring b h c @ replicate (N - c) 0, dq_head = 0, dq_tail = int c,
         dq_count = int c, dq_minCap = int m\<rparr>"
proof -
  have b: "b \<noteq> []" using ok c by (auto simp: dq_ok_def)
  note d = dq_okD[OF ok b]
  let ?t = "(h + c) mod length b" and ?z = "replicate N (0::'a)"
  have rep: "dq_make (int N) = Ret ?z" by (simp add: dq_make_def)
  show ?thesis
  proof (cases "h + c < length b")
    case True
    then have t: "?t = h + c" by simp
    have "slice_of b (int h) (int (h + c)) = Ret (take c (drop h b))"
      using True by (subst slice_of_int) auto
    moreover have "copy_at ?z 0 (take c (drop h b)) = take c (drop h b) @ replicate (N - c) 0"
      using True c by (subst copy_at_0) auto
    ultimately show ?thesis
      using True c rep ring_nowrap[of h c b] by (simp add: dq_resize_def t dq_mk_def)
  next
    case False
    then have t: "?t = h + c - length b" using d c by (simp add: mod_if)
    then have tle: "?t \<le> h" "?t \<le> length b" using d by auto
    let ?s1 = "drop h b" and ?s2 = "take ?t b"
    have sl: "slice_of b (int h) (int (length b)) = Ret ?s1" "slice_of b 0 (int ?t) = Ret ?s2"
      using d tle slice_of_int[of h "length b" b] slice_of_int[of 0 ?t b] by simp_all
    have n: "length ?s1 + length ?s2 = c" using False d c t by simp
    then have cp: "copied ?z 0 ?s1 = length ?s1" using c by (simp add: copied_def)
    have "copy_at ?z 0 ?s1 = ?s1 @ replicate (N - length ?s1) 0"
      using n c by (subst copy_at_0) auto
    moreover have "?t \<le> N - length ?s1" "length ?s2 = ?t" using n c tle by auto
    ultimately have "copy_at (copy_at ?z 0 ?s1) (length ?s1) ?s2 = ?s1 @ ?s2 @ replicate (N - c) 0"
      using n by (simp add: copy_at_def)
    moreover have "ring b h c = ?s1 @ ?s2" using ring_wrap[of c b h] False d t by simp
    ultimately show ?thesis
      using rep sl cp tle by (simp add: dq_resize_def dq_mk_def dq_Cap_def)
  qed
qed

lemma dq_resize_ok:
  assumes "dq_ok b h c m" "0 < c" "c < N" "is_pow2 N"
  shows "returns (dq_resize (int N) (dq_mk b h c m))
     (\<lambda>q. \<exists>b'. q = dq_mk b' 0 c m \<and> dq_ok b' 0 c m \<and> length b' = N \<and> ring b' 0 c = ring b h c)"
proof -
  let ?b = "ring b h c @ replicate (N - c) 0"
  have "m = 0 \<or> is_pow2 m" using assms(1) by (simp add: dq_ok_def)
  then have "dq_ok ?b 0 c m" "length ?b = N" "ring ?b 0 c = ring b h c"
    using assms by (auto simp: dq_ok_def ring_at_0)
  moreover have "dq_resize (int N) (dq_mk b h c m) = Ret (dq_mk ?b 0 c m)"
    using assms(3) dq_resize_mk[OF assms(1,2), of N] by (simp add: dq_mk_def)
  ultimately show ?thesis by auto
qed

lemma dq_growIfFull_ok:
  assumes ok: "dq_ok b h c m"
  shows "returns (dq_growIfFull (dq_mk b h c m))
     (\<lambda>q. \<exists>b' h' m'. q = dq_mk b' h' c m' \<and> dq_ok b' h' c m' \<and> c < length b' \<and>
        ring b' h' c = ring b h c)"
proof (cases "b = []")
  case True
  then have z: "h = 0" "c = 0" "m = 0 \<or> is_pow2 m" using ok by (auto simp: dq_ok_def)
  define m' where "m' = (if m = 0 then 8 else m)"
  have m': "is_pow2 m'" using z is_pow2_8 by (auto simp: m'_def)
  have "dq_growIfFull (dq_mk b h c m) = Ret (dq_mk (replicate m' 0) 0 0 m')"
    using True z by (simp add: dq_growIfFull_def dq_make_def Let_def m'_def minCapacity_def dq_mk_def dq_Cap_def)
  moreover have "dq_ok (replicate m' (0::'a)) 0 0 m'" "0 < length (replicate m' (0::'a))"
    using m' is_pow2_pos[OF m'] by (auto simp: dq_ok_def)
  ultimately show ?thesis unfolding z(2) by fastforce
next
  case False
  note d = dq_okD[OF ok False]
  show ?thesis
  proof (cases "c = length b")
    case True
    have "returns (dq_resize (int (2 * c)) (dq_mk b h c m))
      (\<lambda>q. \<exists>b'. q = dq_mk b' 0 c m \<and> dq_ok b' 0 c m \<and> length b' = 2 * c \<and> ring b' 0 c = ring b h c)"
      using d True ok is_pow2_double by (intro dq_resize_ok) auto
    then have "returns (dq_resize (int (2 * c)) (dq_mk b h c m))
      (\<lambda>q. \<exists>b' h' m'. q = dq_mk b' h' c m' \<and> dq_ok b' h' c m' \<and> c < length b' \<and>
        ring b' h' c = ring b h c)"
      by (rule returns_mono) (use d True in auto)
    then show ?thesis using True False by (simp add: dq_growIfFull_def mult.commute)
  next
    case ne: False
    then have "c < length b" using d by simp
    with ne ok show ?thesis by (auto simp: dq_growIfFull_def)
  qed
qed

lemma dq_shrinkIfExcess_ok:
  assumes ok: "dq_ok b h c m"
  shows "returns (dq_shrinkIfExcess (dq_mk b h c m))
     (\<lambda>q. \<exists>b' h'. q = dq_mk b' h' c m \<and> dq_ok b' h' c m \<and> ring b' h' c = ring b h c)"
proof (cases "length b > m \<and> c * 4 = length b")
  case True
  then have b: "b \<noteq> []" "0 < c" using ok by (auto simp: dq_ok_def)
  have "is_pow2 (2 * (2 * c))" using dq_okD(1)[OF ok b(1)] True by (simp add: mult.commute)
  then have "is_pow2 (2 * c)" by (rule is_pow2_half)
  then have "returns (dq_resize (int (2 * c)) (dq_mk b h c m))
      (\<lambda>q. \<exists>b'. q = dq_mk b' 0 c m \<and> dq_ok b' 0 c m \<and> length b' = 2 * c \<and> ring b' 0 c = ring b h c)"
    using ok b by (intro dq_resize_ok) auto
  then have "returns (dq_resize (int (2 * c)) (dq_mk b h c m))
     (\<lambda>q. \<exists>b' h'. q = dq_mk b' h' c m \<and> dq_ok b' h' c m \<and> ring b' h' c = ring b h c)"
    by (rule returns_mono) auto
  moreover have "int c * 4 = int (length b)" "m < length b" using True by auto
  ultimately show ?thesis by (simp add: dq_shrinkIfExcess_def mult.commute)
next
  case False
  then have "\<not> (int (length b) > int m \<and> int c * 4 = int (length b))" by auto
  with ok show ?thesis by (auto simp: dq_shrinkIfExcess_def)
qed

section \<open>Every operation refines the list operation\<close>

abbreviation dq_step :: "'a deque \<Rightarrow> 'a list \<Rightarrow> bool" where
  "dq_step q xs \<equiv> dq_wf q \<and> dq_list q = xs"

lemma dq_PushBack_step:
  assumes "dq_wf q"
  shows "returns (dq_PushBack x q) (\<lambda>q'. dq_step q' (dq_list q @ [x]))"
proof -
  obtain b h c m where q: "q = dq_mk b h c m" and ok: "dq_ok b h c m"
    using assms by (rule dq_wfE)
  show ?thesis
    unfolding dq_PushBack_def q returns_obind
  proof (rule returns_mono[OF dq_growIfFull_ok[OF ok]])
    fix q'
    assume "\<exists>b' h' m'. q' = dq_mk b' h' c m' \<and> dq_ok b' h' c m' \<and> c < length b' \<and>
        ring b' h' c = ring b h c"
    then obtain b' h' m' where q': "q' = dq_mk b' h' c m'" and ok': "dq_ok b' h' c m'"
      and c: "c < length b'" and r: "ring b' h' c = ring b h c" by blast
    have ne: "b' \<noteq> []" using c by auto
    note d = dq_okD[OF ok' ne]
    let ?t = "(h' + c) mod length b'"
    have t: "?t < length b'" by (rule slot_less[OF c])
    have nx: "dq_next q' (int ?t) = int ((h' + Suc c) mod length b')"
      using d(1) q' by (subst dq_next_int) (simp_all add: mod_add_left_eq mod_Suc_eq)
    let ?b = "b'[?t := x]"
    have "dq_mk ?b h' (Suc c) m' =
      q'\<lparr>dq_buf := ?b, dq_tail := dq_next q' (int ?t), dq_count := dq_count q' + 1\<rparr>"
      unfolding nx by (simp add: q' dq_mk_def)
    moreover have "dq_ok ?b h' (Suc c) m'" using ok' c ne by (simp add: dq_ok_def)
    moreover have "ring ?b h' (Suc c) = ring b h c @ [x]" using ring_push_back[OF c] r by simp
    ultimately have "dq_step (q'\<lparr>dq_buf := ?b, dq_tail := dq_next q' (int ?t), dq_count := dq_count q' + 1\<rparr>)
      (ring b h c @ [x])"
      by (metis dq_list_mk dq_wf_mk)
    then show "returns (put_at (dq_buf q') (dq_tail q') x)
      (\<lambda>ba. returns (Ret (q'\<lparr>dq_buf := ba, dq_tail := dq_next q' (dq_tail q'), dq_count := dq_count q' + 1\<rparr>))
         (\<lambda>q''. dq_step q'' (dq_list (dq_mk b h c m) @ [x])))"
      using t by (simp add: q')
  qed
qed

lemma dq_PushFront_step:
  assumes "dq_wf q"
  shows "returns (dq_PushFront x q) (\<lambda>q'. dq_step q' (x # dq_list q))"
proof -
  obtain b h c m where q: "q = dq_mk b h c m" and ok: "dq_ok b h c m"
    using assms by (rule dq_wfE)
  show ?thesis
    unfolding dq_PushFront_def q returns_obind
  proof (rule returns_mono[OF dq_growIfFull_ok[OF ok]])
    fix q'
    assume "\<exists>b' h' m'. q' = dq_mk b' h' c m' \<and> dq_ok b' h' c m' \<and> c < length b' \<and>
        ring b' h' c = ring b h c"
    then obtain b' h' m' where q': "q' = dq_mk b' h' c m'" and ok': "dq_ok b' h' c m'"
      and c: "c < length b'" and r: "ring b' h' c = ring b h c" by blast
    have ne: "b' \<noteq> []" using c by auto
    note d = dq_okD[OF ok' ne]
    let ?h = "(h' + length b' - 1) mod length b'"
    have h: "?h < length b'" using d by simp
    have pv: "dq_prev q' (int h') = int ?h"
      using d(1) q' by (subst dq_prev_int) simp_all
    let ?b = "b'[?h := x]"
    have "dq_mk ?b ?h (Suc c) m' =
      q'\<lparr>dq_head := int ?h, dq_buf := ?b, dq_count := dq_count q' + 1\<rparr>"
      using prev_slot[OF d(4), of h' c] by (simp add: q' dq_mk_def)
    moreover have "dq_ok ?b ?h (Suc c) m'" using ok' c ne h by (simp add: dq_ok_def)
    moreover have "ring ?b ?h (Suc c) = x # ring b h c"
      using ring_push_front[OF c refl] r by simp
    ultimately have "dq_step (q'\<lparr>dq_head := int ?h, dq_buf := ?b, dq_count := dq_count q' + 1\<rparr>)
      (x # ring b h c)"
      by (metis dq_list_mk dq_wf_mk)
    then show "returns (let h = dq_prev q' (dq_head q')
         in obind (put_at (dq_buf q') h x)
           (\<lambda>b. Ret (q'\<lparr>dq_head := h, dq_buf := b, dq_count := dq_count q' + 1\<rparr>)))
       (\<lambda>q''. dq_step q'' (x # dq_list (dq_mk b h c m)))"
      using h by (simp add: q' Let_def pv[unfolded q'])
  qed
qed

lemma dq_shrinkIfExcess_step:
  assumes "dq_wf q"
  shows "returns (dq_shrinkIfExcess q) (\<lambda>q'. dq_step q' (dq_list q))"
proof -
  obtain b h c m where q: "q = dq_mk b h c m" and ok: "dq_ok b h c m"
    using assms by (rule dq_wfE)
  show ?thesis
    unfolding q by (rule returns_mono[OF dq_shrinkIfExcess_ok[OF ok]]) auto
qed

lemma dq_take_front_mk:
  assumes ok: "dq_ok b h c m" and c: "0 < c"
  obtains b' h' where "dq_take_front (dq_mk b h c m) = Ret (hd (ring b h c), dq_mk b' h' (c - 1) m)"
    "dq_ok b' h' (c - 1) m" "ring b' h' (c - 1) = tl (ring b h c)"
proof -
  obtain k where k: "c = Suc k" using c by (cases c) auto
  have ne: "b \<noteq> []" using ok c by (auto simp: dq_ok_def)
  note d = dq_okD[OF ok ne]
  let ?h = "(h + 1) mod length b" and ?b = "b[h := 0]"
  have r: "ring b h (Suc k) = b ! h # ring ?b ?h k"
    using d k by (intro ring_pop_front) auto
  have "dq_next (dq_mk b h c m) (int h) = int ?h" using d by (subst dq_next_int) simp_all
  then have "dq_take_front (dq_mk b h c m) = Ret (b ! h, dq_mk ?b ?h k m)"
    using d k by (simp add: dq_take_front_def) (simp add: dq_mk_def next_slot[simplified])
  moreover have "dq_ok ?b ?h k m" using ok ne k by (simp add: dq_ok_def)
  ultimately show ?thesis using that r k by simp
qed

lemma last_slot:
  fixes h :: nat assumes "0 < n"
  shows "((h + Suc k) mod n + n - 1) mod n = (h + k) mod n"
proof -
  have "((h + Suc k) mod n + (n - 1)) mod n = (h + Suc k + (n - 1)) mod n"
    by (rule mod_add_left_eq)
  also have "h + Suc k + (n - 1) = h + k + n" using assms by simp
  finally show ?thesis using assms by (simp add: Nat.add_diff_assoc)
qed

lemma dq_prev_last:
  "is_pow2 (length b) \<Longrightarrow>
   dq_prev (dq_mk b h' c' m) (int ((h + Suc k) mod length b)) = int ((h + k) mod length b)"
  using last_slot[of "length b" h k] is_pow2_pos[of "length b"] by (subst dq_prev_int) simp_all

lemma dq_mk_buf_upd [simp]:
  "(dq_mk b h c m)\<lparr>dq_buf := b[i := x]\<rparr> = dq_mk (b[i := x]) h c m"
  by (simp add: dq_mk_def)

lemma dq_take_back_mk:
  assumes ok: "dq_ok b h c m" and c: "0 < c"
  obtains b' where "dq_take_back (dq_mk b h c m) = Ret (last (ring b h c), dq_mk b' h (c - 1) m)"
    "dq_ok b' h (c - 1) m" "ring b' h (c - 1) = butlast (ring b h c)"
proof -
  obtain k where k: "c = Suc k" using c by (cases c) auto
  have ne: "b \<noteq> []" using ok c by (auto simp: dq_ok_def)
  note d = dq_okD[OF ok ne]
  let ?t = "(h + k) mod length b"
  let ?b = "b[?t := 0]"
  have t: "?t < length b" using d by simp
  have r: "ring b h (Suc k) = ring ?b h k @ [b ! ?t]"
    using d k by (intro ring_pop_back) auto
  have "dq_prev (dq_mk b h c m) (int ((h + c) mod length b)) = int ?t"
    unfolding k using d(1) by (rule dq_prev_last)
  then have "dq_take_back (dq_mk b h c m) = Ret (b ! ?t, dq_mk ?b h k m)"
    using t k by (simp add: dq_take_back_def Let_def)
  moreover have "dq_ok ?b h k m" using ok ne k by (simp add: dq_ok_def)
  ultimately show ?thesis using that r k by simp
qed

lemma dq_PopFront_step:
  assumes "dq_wf q" "dq_list q \<noteq> []"
  shows "returns (dq_PopFront q) (\<lambda>(x, q'). x = hd (dq_list q) \<and> dq_step q' (tl (dq_list q)))"
proof -
  obtain b h c m where q: "q = dq_mk b h c m" and ok: "dq_ok b h c m"
    using assms(1) by (rule dq_wfE)
  have c: "0 < c" using assms(2) q by (cases c) auto
  obtain b' h' where t: "dq_take_front (dq_mk b h c m) = Ret (hd (ring b h c), dq_mk b' h' (c - 1) m)"
    and ok': "dq_ok b' h' (c - 1) m" and r: "ring b' h' (c - 1) = tl (ring b h c)"
    using ok c by (rule dq_take_front_mk)
  show ?thesis
    using c t r ok' dq_shrinkIfExcess_step[of "dq_mk b' h' (c - 1) m"]
    by (simp add: dq_PopFront_def q)
qed

lemma dq_PopBack_step:
  assumes "dq_wf q" "dq_list q \<noteq> []"
  shows "returns (dq_PopBack q) (\<lambda>(x, q'). x = last (dq_list q) \<and> dq_step q' (butlast (dq_list q)))"
proof -
  obtain b h c m where q: "q = dq_mk b h c m" and ok: "dq_ok b h c m"
    using assms(1) by (rule dq_wfE)
  have c: "0 < c" using assms(2) q by (cases c) auto
  obtain b' where t: "dq_take_back (dq_mk b h c m) = Ret (last (ring b h c), dq_mk b' h (c - 1) m)"
    and ok': "dq_ok b' h (c - 1) m" and r: "ring b' h (c - 1) = butlast (ring b h c)"
    using ok c by (rule dq_take_back_mk)
  show ?thesis
    using c t r ok' dq_shrinkIfExcess_step[of "dq_mk b' h (c - 1) m"]
    by (simp add: dq_PopBack_def q)
qed

section \<open>Reading and writing by index\<close>

lemma dq_checkRange_mk [simp]:
  "i < c \<Longrightarrow> dq_checkRange (dq_mk b h c m) (int i) = Ret ()"
  by (simp add: dq_checkRange_def)

lemma dq_At_step:
  assumes "dq_wf q" "i < length (dq_list q)"
  shows "dq_At (int i) q = Ret (dq_list q ! i)"
proof -
  obtain b h c m where q: "q = dq_mk b h c m" and ok: "dq_ok b h c m"
    using assms(1) by (rule dq_wfE)
  have i: "i < c" using assms(2) q by simp
  have ne: "b \<noteq> []" using ok i by (auto simp: dq_ok_def)
  note d = dq_okD[OF ok ne]
  show ?thesis
    using i d slot_less[of i b h] by (simp add: dq_At_def q dq_real_int)
qed

lemma dq_Set_step:
  assumes "dq_wf q" "i < length (dq_list q)"
  shows "returns (dq_Set (int i) x q) (\<lambda>q'. dq_step q' ((dq_list q)[i := x]))"
proof -
  obtain b h c m where q: "q = dq_mk b h c m" and ok: "dq_ok b h c m"
    using assms(1) by (rule dq_wfE)
  have i: "i < c" using assms(2) q by simp
  have ne: "b \<noteq> []" using ok i by (auto simp: dq_ok_def)
  note d = dq_okD[OF ok ne]
  let ?s = "(h + i) mod length b"
  have s: "?s < length b" using d by simp
  have "ring (b[?s := x]) h c = (ring b h c)[i := x]"
    using i d s by (intro nth_equalityI) (auto simp: nth_list_update ring_slot_eq)
  then show ?thesis
    using i d s ok by (simp add: dq_Set_def q dq_real_int)
qed

lemma dq_Front_step:
  assumes "dq_wf q" "dq_list q \<noteq> []"
  shows "dq_Front q = Ret (hd (dq_list q))"
proof -
  obtain b h c m where q: "q = dq_mk b h c m" and ok: "dq_ok b h c m"
    using assms(1) by (rule dq_wfE)
  have c: "0 < c" using assms(2) q by (cases c) auto
  have ne: "b \<noteq> []" using ok c by (auto simp: dq_ok_def)
  have "dq_list q \<noteq> []" "h < length b" using assms(2) dq_okD[OF ok ne] by auto
  moreover have "ring b h c ! 0 = b ! h" using c \<open>h < length b\<close> by simp
  ultimately show ?thesis using c by (simp add: dq_Front_def q hd_conv_nth)
qed

lemma dq_Back_step:
  assumes "dq_wf q" "dq_list q \<noteq> []"
  shows "dq_Back q = Ret (last (dq_list q))"
proof -
  obtain b h c m where q: "q = dq_mk b h c m" and ok: "dq_ok b h c m"
    using assms(1) by (rule dq_wfE)
  have c: "0 < c" using assms(2) q by (cases c) auto
  obtain k where k: "c = Suc k" using c by (cases c) auto
  have ne: "b \<noteq> []" using ok c by (auto simp: dq_ok_def)
  note d = dq_okD[OF ok ne]
  have "ring b h (Suc k) = ring b h k @ [b ! ((h + k) mod length b)]" by (simp add: ring_def)
  then show ?thesis
    using d dq_prev_last[OF d(1), of h c m h k] k by (simp add: dq_Back_def q)
qed

text \<open>What a consumer that may stop early receives: the items up to and including the first
  one it declines.\<close>

fun until_no :: "('a \<Rightarrow> bool) \<Rightarrow> 'a list \<Rightarrow> 'a list" where
  "until_no P [] = []"
| "until_no P (x # xs) = (if P x then x # until_no P xs else [x])"

lemma dq_iter_loop_mk:
  assumes "is_pow2 (length b)" "h < length b"
  shows "dq_iter_loop n yield (int h) (dq_mk b h0 c m) = Ret (until_no yield (ring b h n))"
  using assms
proof (induction n arbitrary: h)
  case (Suc n)
  let ?h = "(h + 1) mod length b"
  have r: "ring b h (Suc n) = b ! h # ring b ?h n"
  proof (rule nth_equalityI)
    fix i assume "i < length (ring b h (Suc n))"
    then show "ring b h (Suc n) ! i = (b ! h # ring b ?h n) ! i"
      using Suc.prems next_slot[of h "length b"] by (cases i) auto
  qed simp
  have nx: "dq_next (dq_mk b h0 c m) (int h) = int ?h"
    using Suc.prems by (subst dq_next_int) simp_all
  have "?h < length b" using Suc.prems(2) by (intro mod_less_divisor) linarith
  from Suc.IH[OF Suc.prems(1) this] r nx Suc.prems(2) show ?case by simp
qed simp

lemma dq_Iter_step:
  assumes "dq_wf q"
  shows "dq_Iter yield q = Ret (until_no yield (dq_list q))"
proof -
  obtain b h c m where q: "q = dq_mk b h c m" and ok: "dq_ok b h c m"
    using assms(1) by (rule dq_wfE)
  show ?thesis
  proof (cases "b = []")
    case True
    with ok show ?thesis by (auto simp: dq_Iter_def q dq_ok_def)
  next
    case False
    with dq_okD[OF ok False] show ?thesis by (simp add: dq_Iter_def q dq_iter_loop_mk)
  qed
qed

lemma dq_riter_loop_mk:
  assumes ok: "dq_ok b h c m"
  shows "dq_riter_loop c yield (int ((h + c) mod length b)) (dq_mk b h c' m) =
     Ret (until_no yield (rev (ring b h c)))"
  using ok
proof (induction c)
  case (Suc k)
  have ne: "b \<noteq> []" using Suc.prems by (auto simp: dq_ok_def)
  note d = dq_okD[OF Suc.prems ne]
  let ?t = "(h + k) mod length b"
  note pv = dq_prev_last[OF d(1), of h c' m h k]
  have t: "?t < length b" using d by simp
  have "dq_ok b h k m" using Suc.prems ne by (simp add: dq_ok_def)
  note IH = Suc.IH[OF this]
  have "ring b h (Suc k) = ring b h k @ [b ! ?t]" by (simp add: ring_def)
  with IH pv t show ?case by (simp add: Let_def)
qed simp

lemma dq_RIter_step:
  assumes "dq_wf q"
  shows "dq_RIter yield q = Ret (until_no yield (rev (dq_list q)))"
proof -
  obtain b h c m where q: "q = dq_mk b h c m" and ok: "dq_ok b h c m"
    using assms(1) by (rule dq_wfE)
  show ?thesis using dq_riter_loop_mk[OF ok] by (simp add: dq_RIter_def q)
qed

text \<open>\<open>Index\<close> answers the position of the first item that satisfies \<open>f\<close>.\<close>

fun first_idx :: "('a \<Rightarrow> bool) \<Rightarrow> int \<Rightarrow> 'a list \<Rightarrow> int" where
  "first_idx f i [] = -1"
| "first_idx f i (x # xs) = (if f x then i else first_idx f (i + 1) xs)"

lemma dq_index_loop_mk:
  assumes ok: "dq_ok b h c m" and "i \<le> c"
  shows "dq_index_loop (c - i) f (int i) (dq_mk b h c m) =
     Ret (first_idx f (int i) (drop i (ring b h c)))"
  using \<open>i \<le> c\<close>
proof (induction "c - i" arbitrary: i)
  case (Suc k)
  then have i: "i < c" and ki: "c - Suc i = k" by linarith+
  have ne: "b \<noteq> []" using ok i by (auto simp: dq_ok_def)
  note d = dq_okD[OF ok ne]
  have "drop i (ring b h c) = b ! ((h + i) mod length b) # drop (Suc i) (ring b h c)"
    using i by (simp add: Cons_nth_drop_Suc[symmetric])
  moreover have "c - i = Suc (c - Suc i)" using i by linarith
  moreover have "(h + i) mod length b < length b" using d by simp
  ultimately show ?case
    using Suc.hyps(1)[of "Suc i"] ki i d by (simp add: dq_real_int add.commute)
qed simp

lemma dq_Index_step:
  assumes "dq_wf q"
  shows "dq_Index f q = Ret (first_idx f 0 (dq_list q))"
proof -
  obtain b h c m where q: "q = dq_mk b h c m" and ok: "dq_ok b h c m"
    using assms(1) by (rule dq_wfE)
  show ?thesis using dq_index_loop_mk[OF ok, of 0] by (auto simp: dq_Index_def q)
qed

end
