(* ===== verification/DequeOps.thy ===== *)
theory DequeOps
  imports Deque
begin

text \<open>
  The operations of \<open>common/deque/deque.go\<close> that move elements inside the queue or work on
  the whole of it: exchanges, insertion, removal, rotation, capacity, clearing, draining and
  copying, each against the list operation it stands for.
\<close>

section \<open>Exchanging and moving items\<close>

lemma dq_swap_slots_mk:
  assumes ok: "dq_ok b h c m" and ij: "i < c" "j < c"
  obtains b' where
    "dq_swap_slots (int ((h + i) mod length b)) (int ((h + j) mod length b)) (dq_mk b h c m)
       = Ret (dq_mk b' h c m)"
    "dq_ok b' h c m" "length b' = length b"
    "ring b' h c = (ring b h c)[i := ring b h c ! j, j := ring b h c ! i]"
proof -
  have ne: "b \<noteq> []" using ok ij by (auto simp: dq_ok_def)
  note d = dq_okD[OF ok ne]
  let ?i = "(h + i) mod length b" and ?j = "(h + j) mod length b"
  let ?b = "b[?i := b ! ?j, ?j := b ! ?i]"
  have s: "?i < length b" "?j < length b" using d by simp_all
  have "dq_swap_slots (int ?i) (int ?j) (dq_mk b h c m) = Ret (dq_mk ?b h c m)"
    using s by (simp add: dq_swap_slots_def)
  moreover have "ring ?b h c = (ring b h c)[i := ring b h c ! j, j := ring b h c ! i]"
    using ij d s by (intro nth_equalityI) (auto simp: nth_list_update ring_slot_eq)
  ultimately show ?thesis using that ok by simp
qed

lemma swap_adjacent:
  "(pre @ x # y # post)[length pre := y, Suc (length pre) := x] = pre @ y # x # post"
  by (simp add: list_update_append)

lemma dq_bubble_next_mk:
  assumes "dq_ok b h c m" "ring b h c = pre @ x # mid @ post"
  shows "returns (dq_bubble_next (length mid) (int ((h + length pre) mod length b)) (dq_mk b h c m))
     (\<lambda>q. \<exists>b'. q = dq_mk b' h c m \<and> dq_ok b' h c m \<and> ring b' h c = pre @ mid @ x # post)"
  using assms
proof (induction mid arbitrary: b pre)
  case (Cons y mid)
  let ?i = "length pre"
  have c: "c = length (pre @ x # y # mid @ post)" using Cons.prems(2) by (metis length_ring append_Cons)
  then have ij: "?i < c" "Suc ?i < c" by simp_all
  have ne: "b \<noteq> []" using Cons.prems(1) ij by (auto simp: dq_ok_def)
  note d = dq_okD[OF Cons.prems(1) ne]
  have nx: "dq_next (dq_mk b h c m) (int ((h + ?i) mod length b)) = int ((h + Suc ?i) mod length b)"
    using d by (subst dq_next_int) (simp_all add: mod_Suc_eq)
  obtain b' where sw: "dq_swap_slots (int ((h + ?i) mod length b)) (int ((h + Suc ?i) mod length b))
      (dq_mk b h c m) = Ret (dq_mk b' h c m)" and ok': "dq_ok b' h c m" "length b' = length b"
    and r: "ring b' h c = (ring b h c)[?i := ring b h c ! Suc ?i, Suc ?i := ring b h c ! ?i]"
    using dq_swap_slots_mk[OF Cons.prems(1) ij] .
  have "ring b' h c = (pre @ [y]) @ x # mid @ post"
    unfolding r Cons.prems(2) using swap_adjacent[of pre x y "mid @ post"] by (simp add: nth_append)
  from Cons.IH[OF ok'(1) this] show ?case using sw nx ok'(2) by simp
qed simp

lemma dq_bubble_prev_mk:
  assumes "dq_ok b h c m" "ring b h c = pre @ mid @ x # post"
  shows "returns (dq_bubble_prev (length mid) (int ((h + length (pre @ mid)) mod length b)) (dq_mk b h c m))
     (\<lambda>q. \<exists>b'. q = dq_mk b' h c m \<and> dq_ok b' h c m \<and> ring b' h c = pre @ x # mid @ post)"
  using assms
proof (induction mid arbitrary: b post rule: rev_induct)
  case (snoc y mid)
  let ?j = "length (pre @ mid)"
  have c: "c = length (pre @ mid @ y # x # post)" using snoc.prems(2) by (metis length_ring append.assoc append_Cons append_Nil)
  then have ij: "Suc ?j < c" "?j < c" by simp_all
  have ne: "b \<noteq> []" using snoc.prems(1) ij by (auto simp: dq_ok_def)
  note d = dq_okD[OF snoc.prems(1) ne]
  note pv = dq_prev_last[OF d(1), of h c m h ?j]
  obtain b' where sw: "dq_swap_slots (int ((h + Suc ?j) mod length b)) (int ((h + ?j) mod length b))
      (dq_mk b h c m) = Ret (dq_mk b' h c m)" and ok': "dq_ok b' h c m" "length b' = length b"
    and r: "ring b' h c = (ring b h c)[Suc ?j := ring b h c ! ?j, ?j := ring b h c ! Suc ?j]"
    using dq_swap_slots_mk[OF snoc.prems(1) ij] .
  have xs: "ring b h c = (pre @ mid) @ y # x # post" using snoc.prems(2) by simp
  have "ring b' h c = (ring b h c)[?j := ring b h c ! Suc ?j, Suc ?j := ring b h c ! ?j]"
    unfolding r by (rule list_update_swap) simp
  also have "\<dots> = pre @ mid @ x # (y # post)"
    unfolding xs using swap_adjacent[of "pre @ mid" y x post] by (simp add: nth_append)
  finally have "ring b' h c = pre @ mid @ x # (y # post)" .
  from snoc.IH[OF ok'(1) this] show ?case using sw pv ok'(2) by simp
qed simp

text \<open>Insertion before the element at \<open>i\<close>, positions out of range clamped to the ends.\<close>

definition insert_at :: "int \<Rightarrow> 'a \<Rightarrow> 'a list \<Rightarrow> 'a list" where
  "insert_at i x xs = take (nat i) xs @ x # drop (nat i) xs"

lemma dq_Insert_step:
  assumes wf: "dq_wf q"
  shows "returns (dq_Insert i x q) (\<lambda>q'. dq_step q' (insert_at i x (dq_list q)))"
proof -
  have len: "dq_count q = int (length (dq_list q))"
    using wf by (auto elim!: dq_wfE)
  let ?xs = "dq_list q"
  consider "i \<le> 0" | "0 < i" "int (length ?xs) \<le> i"
    | "0 < i" "i < int (length ?xs)" "i * 2 < int (length ?xs)"
    | "0 < i" "i < int (length ?xs)" "\<not> i * 2 < int (length ?xs)" by linarith
  then show ?thesis
  proof cases
    case 1
    then show ?thesis using dq_PushFront_step[OF wf, of x] by (simp add: dq_Insert_def insert_at_def)
  next
    case 2
    then show ?thesis using dq_PushBack_step[OF wf, of x] len
      by (simp add: dq_Insert_def insert_at_def dq_Len_def)
  next
    case 3
    have "returns (dq_PushFront x q) (\<lambda>q'. returns (dq_bubble_next (nat i) (dq_head q') q')
        (\<lambda>q''. dq_step q'' (insert_at i x ?xs)))"
    proof (rule returns_mono[OF dq_PushFront_step[OF wf]])
      fix q' assume a: "dq_step q' (x # ?xs)"
      then obtain b h c m where q': "q' = dq_mk b h c m" "dq_ok b h c m" by (auto elim: dq_wfE)
      have r: "ring b h c = [] @ x # take (nat i) ?xs @ drop (nat i) ?xs" using a q' by simp
      have l: "length (take (nat i) ?xs) = nat i" using 3 by simp
      have "h < length b" using dq_okD(2)[OF q'(2)] q'(2) r by (cases "b = []") (auto simp: dq_ok_def)
      with dq_bubble_next_mk[OF q'(2) r] l q'
      have "returns (dq_bubble_next (nat i) (dq_head q') q') (\<lambda>q. \<exists>b'. q = dq_mk b' h c m \<and> dq_ok b' h c m
         \<and> ring b' h c = [] @ take (nat i) ?xs @ x # drop (nat i) ?xs)" by simp
      then show "returns (dq_bubble_next (nat i) (dq_head q') q')
        (\<lambda>q''. dq_step q'' (insert_at i x ?xs))"
        by (rule returns_mono) (auto simp: insert_at_def)
    qed
    with 3 len show ?thesis by (simp add: dq_Insert_def dq_Len_def)
  next
    case 4
    have "returns (dq_PushBack x q) (\<lambda>q'. returns
        (dq_bubble_prev (nat (dq_count q - i)) (dq_prev q' (dq_tail q')) q')
        (\<lambda>q''. dq_step q'' (insert_at i x ?xs)))"
    proof (rule returns_mono[OF dq_PushBack_step[OF wf]])
      fix q' assume a: "dq_step q' (?xs @ [x])"
      then obtain b h c m where q': "q' = dq_mk b h c m" "dq_ok b h c m" by (auto elim: dq_wfE)
      have r: "ring b h c = take (nat i) ?xs @ drop (nat i) ?xs @ x # []" using a q' by simp
      have l: "length (drop (nat i) ?xs) = nat (dq_count q - i)" using 4 len by simp
      have c: "c = Suc (length ?xs)" using r by (metis length_ring append.assoc append_take_drop_id length_append_singleton)
      have ne: "b \<noteq> []" using q'(2) c by (auto simp: dq_ok_def)
      have "dq_prev q' (dq_tail q') = int ((h + length (take (nat i) ?xs @ drop (nat i) ?xs)) mod length b)"
        using dq_prev_last[OF dq_okD(1)[OF q'(2) ne], of h c m h "length ?xs"] q' c by simp
      with dq_bubble_prev_mk[OF q'(2) r] l q'
      have "returns (dq_bubble_prev (nat (dq_count q - i)) (dq_prev q' (dq_tail q')) q')
         (\<lambda>q. \<exists>b'. q = dq_mk b' h c m \<and> dq_ok b' h c m
         \<and> ring b' h c = take (nat i) ?xs @ x # drop (nat i) ?xs @ [])" by simp
      then show "returns (dq_bubble_prev (nat (dq_count q - i)) (dq_prev q' (dq_tail q')) q')
        (\<lambda>q''. dq_step q'' (insert_at i x ?xs))"
        by (rule returns_mono) (auto simp: insert_at_def)
    qed
    with 4 len show ?thesis by (simp add: dq_Insert_def dq_Len_def)
  qed
qed

lemma dq_Remove_step:
  assumes wf: "dq_wf q" and i: "i < length (dq_list q)"
  shows "returns (dq_Remove (int i) q)
    (\<lambda>(x, q'). x = dq_list q ! i \<and> dq_step q' (take i (dq_list q) @ drop (Suc i) (dq_list q)))"
proof -
  obtain b h c m where q: "q = dq_mk b h c m" and ok: "dq_ok b h c m"
    using wf by (rule dq_wfE)
  let ?xs = "ring b h c"
  have ic: "i < c" using i q by simp
  have ne: "b \<noteq> []" using ok ic by (auto simp: dq_ok_def)
  note d = dq_okD[OF ok ne]
  have rm: "dq_real q (int i) = int ((h + i) mod length b)" using d q by (simp add: dq_real_int)
  have sp: "?xs = take i ?xs @ ?xs ! i # drop (Suc i) ?xs"
    using ic by (intro id_take_nth_drop) simp
  have l: "length (take i ?xs) = i" "length (drop (Suc i) ?xs) = c - Suc i" using ic by auto
  have sp1: "?xs = [] @ take i ?xs @ ?xs ! i # drop (Suc i) ?xs"
    unfolding append_Nil by (rule sp)
  have sp2: "?xs = take i ?xs @ ?xs ! i # drop (Suc i) ?xs @ []"
    unfolding append_Nil2 by (rule sp)
  show ?thesis
  proof (cases "int i * 2 < int c")
    case True
    have "returns (dq_bubble_prev i (int ((h + i) mod length b)) (dq_mk b h c m))
      (\<lambda>q'. returns (dq_PopFront q') (\<lambda>(x, q'). x = ?xs ! i \<and> dq_step q' (take i ?xs @ drop (Suc i) ?xs)))"
    proof (rule returns_mono)
      show "returns (dq_bubble_prev i (int ((h + i) mod length b)) (dq_mk b h c m))
        (\<lambda>q. dq_step q (?xs ! i # take i ?xs @ drop (Suc i) ?xs))"
        by (rule returns_mono[OF dq_bubble_prev_mk[OF ok sp1, unfolded append_Nil l]]) auto
    next
      fix q' assume "dq_step q' (?xs ! i # take i ?xs @ drop (Suc i) ?xs)"
      then show "returns (dq_PopFront q') (\<lambda>(x, q'). x = ?xs ! i \<and> dq_step q' (take i ?xs @ drop (Suc i) ?xs))"
        using dq_PopFront_step[of q'] by simp
    qed
    with True ic rm q show ?thesis by (simp add: dq_Remove_def)
  next
    case False
    have n: "nat (int c - int i - 1) = c - Suc i" using ic by simp
    have "returns (dq_bubble_next (c - Suc i) (int ((h + i) mod length b)) (dq_mk b h c m))
      (\<lambda>q'. returns (dq_PopBack q') (\<lambda>(x, q'). x = ?xs ! i \<and> dq_step q' (take i ?xs @ drop (Suc i) ?xs)))"
    proof (rule returns_mono)
      show "returns (dq_bubble_next (c - Suc i) (int ((h + i) mod length b)) (dq_mk b h c m))
        (\<lambda>q. dq_step q ((take i ?xs @ drop (Suc i) ?xs) @ [?xs ! i]))"
        by (rule returns_mono[OF dq_bubble_next_mk[OF ok sp2, unfolded l]]) auto
    next
      fix q' assume a: "dq_step q' ((take i ?xs @ drop (Suc i) ?xs) @ [?xs ! i])"
      then have "butlast (dq_list q') = take i ?xs @ drop (Suc i) ?xs" "last (dq_list q') = ?xs ! i"
        using butlast_snoc[of "take i ?xs @ drop (Suc i) ?xs" "?xs ! i"] by (auto simp del: nth_ring)
      with a show "returns (dq_PopBack q') (\<lambda>(x, q'). x = ?xs ! i \<and> dq_step q' (take i ?xs @ drop (Suc i) ?xs))"
        using dq_PopBack_step[of q'] by simp
    qed
    with False ic rm q n show ?thesis by (simp add: dq_Remove_def)
  qed
qed

lemma dq_Swap_step:
  assumes wf: "dq_wf q" and ij: "i < length (dq_list q)" "j < length (dq_list q)"
  shows "returns (dq_Swap (int i) (int j) q)
    (\<lambda>q'. dq_step q' ((dq_list q)[i := dq_list q ! j, j := dq_list q ! i]))"
proof -
  obtain b h c m where q: "q = dq_mk b h c m" and ok: "dq_ok b h c m"
    using wf by (rule dq_wfE)
  have ne: "b \<noteq> []" using ok ij q by (auto simp: dq_ok_def)
  note d = dq_okD[OF ok ne]
  have ij': "i < c" "j < c" using ij q by simp_all
  obtain b' where "dq_swap_slots (int ((h + i) mod length b)) (int ((h + j) mod length b)) (dq_mk b h c m)
       = Ret (dq_mk b' h c m)" "dq_ok b' h c m"
    "ring b' h c = (ring b h c)[i := ring b h c ! j, j := ring b h c ! i]"
    using dq_swap_slots_mk[OF ok ij'] by metis
  moreover have "(ring b h c)[j := b ! ((h + j) mod length b)] = ring b h c"
    using list_update_id[of "ring b h c" j] ij' by simp
  ultimately show ?thesis
    using ij' ok d by (cases "i = j") (auto simp: dq_Swap_def q dq_real_int)
qed


section \<open>Rotation\<close>

lemma dq_rot_front_mk:
  assumes "dq_ok b h c m" "0 < c" "c < length b"
  shows "returns (dq_rot_front n (dq_mk b h c m)) (\<lambda>q. dq_step q (rotate n (ring b h c)))"
  using assms
proof (induction n arbitrary: b h)
  case (Suc n)
  have ne: "b \<noteq> []" using Suc.prems by auto
  note d = dq_okD[OF Suc.prems(1) ne]
  obtain k where k: "c = Suc k" using Suc.prems(2) by (cases c) auto
  let ?t = "(h + c) mod length b" and ?h = "(h + 1) mod length b"
  let ?b = "b[?t := b ! h, h := 0]"
  have t: "?t < length b" using d by simp
  have th: "?t \<noteq> h"
    using ring_slot_eq[of c "length b" 0 h] Suc.prems d by simp
  have "ring b h c = b ! h # ring (b[h := 0]) ?h k"
    unfolding k using d Suc.prems k by (intro ring_pop_front) auto
  moreover have "ring ((b[h := 0])[(?h + k) mod length b := b ! h]) ?h (Suc k) = ring (b[h := 0]) ?h k @ [b ! h]"
    using ring_push_back[of k "b[h := 0]" ?h "b ! h"] Suc.prems k by simp
  moreover have "(?h + k) mod length b = ?t" using next_slot[of h "length b" k] k by simp
  moreover have "(b[h := 0])[?t := b ! h] = ?b" using th by (intro list_update_swap) simp
  ultimately have r: "ring ?b ?h c = rotate1 (ring b h c)" using k by simp
  have hd: "(int h + 1) AND (int (length b) - 1) = int ?h"
    "(int ?t + 1) AND (int (length b) - 1) = int ((?h + c) mod length b)"
    using d by (simp_all add: and_mask_mod zmod_int mod_simps add.commute add.left_commute)
  have ok: "dq_ok ?b ?h c m" using Suc.prems ne by (simp add: dq_ok_def)
  have "dq_rot_front (Suc n) (dq_mk b h c m) = dq_rot_front n (dq_mk ?b ?h c m)"
    using t d hd by (simp add: dq_mk_def dq_Cap_def)
  moreover have "returns (dq_rot_front n (dq_mk ?b ?h c m)) (\<lambda>q. dq_step q (rotate n (ring ?b ?h c)))"
    using Suc.IH[OF ok] Suc.prems by simp
  moreover have "rotate n (rotate1 (ring b h c)) = rotate (Suc n) (ring b h c)"
    by (simp add: rotate1_rotate_swap)
  ultimately show ?case using r by (metis (no_types))
qed simp

lemma dq_rot_back_mk:
  assumes "dq_ok b h c m" "0 < c" "c < length b"
  shows "returns (dq_rot_back n (dq_mk b h c m))
     (\<lambda>q. dq_wf q \<and> rotate n (dq_list q) = ring b h c)"
  using assms
proof (induction n arbitrary: b h)
  case (Suc n)
  have ne: "b \<noteq> []" using Suc.prems by auto
  note d = dq_okD[OF Suc.prems(1) ne]
  obtain k where k: "c = Suc k" using Suc.prems(2) by (cases c) auto
  let ?t = "(h + k) mod length b" and ?h = "(h + length b - 1) mod length b"
  let ?x = "b ! ?t"
  let ?b = "b[?h := ?x, ?t := 0]"
  have t: "?t < length b" "?h < length b" using d by simp_all
  have th: "?t \<noteq> ?h"
  proof
    assume "?t = ?h"
    then have "(?h + Suc k) mod length b = (?h + 0) mod length b"
      using prev_slot[OF d(4), of h k] by simp
    then show False using ring_slot_eq[of "Suc k" "length b" 0 ?h] Suc.prems k ne by simp
  qed
  have "ring b h c = ring (b[?t := 0]) h k @ [?x]"
    unfolding k using d Suc.prems k by (intro ring_pop_back) auto
  moreover have "ring ((b[?t := 0])[?h := ?x]) ?h (Suc k) = ?x # ring (b[?t := 0]) h k"
    using Suc.prems k by (intro ring_push_front) auto
  moreover have "(b[?t := 0])[?h := ?x] = ?b" using th by (intro list_update_swap) simp
  ultimately have r: "rotate1 (ring ?b ?h c) = ring b h c" using k by simp
  have hd: "(int h - 1) AND (int (length b) - 1) = int ?h"
    "(int ((h + c) mod length b) - 1) AND (int (length b) - 1) = int ?t"
    using dq_prev_int[of "dq_mk b h c m" h] dq_prev_last[OF d(1), of h c m h k] d k
    by (simp_all add: dq_prev_def)
  have tl: "?t = (?h + c) mod length b" using prev_slot[OF d(4), of h k] k by simp
  have ok: "dq_ok ?b ?h c m" using Suc.prems ne t by (simp add: dq_ok_def)
  have "dq_rot_back (Suc n) (dq_mk b h c m) = dq_rot_back n (dq_mk ?b ?h c m)"
    using t d hd tl by (simp add: dq_mk_def dq_Cap_def Let_def)
  moreover have "returns (dq_rot_back n (dq_mk ?b ?h c m))
      (\<lambda>q. dq_wf q \<and> rotate n (dq_list q) = ring ?b ?h c)"
    using Suc.IH[OF ok] Suc.prems by simp
  then have "returns (dq_rot_back n (dq_mk ?b ?h c m))
      (\<lambda>q. dq_wf q \<and> rotate (Suc n) (dq_list q) = ring b h c)"
    by (rule returns_mono) (use r in auto)
  ultimately show ?case by simp
qed simp

lemma go_rem_small: "0 < c \<Longrightarrow> \<bar>go_rem n c\<bar> < c"
  by (auto simp: go_rem_def abs_mult sgn_if)

lemma go_rem_mod: "0 < c \<Longrightarrow> go_rem n c mod c = n mod c"
  by (cases "0 \<le> n") (auto simp: go_rem_def sgn_if mod_minus_eq)

text \<open>Rotating by \<open>n\<close> moves the front to the back \<open>n mod Len\<close> times, for a negative \<open>n\<close>
  too.\<close>

lemma dq_Rotate_step:
  assumes wf: "dq_wf q"
  shows "returns (dq_Rotate n q)
    (\<lambda>q'. dq_step q' (rotate (nat (n mod int (length (dq_list q)))) (dq_list q)))"
proof -
  obtain b h c m where q: "q = dq_mk b h c m" and ok: "dq_ok b h c m"
    using wf by (rule dq_wfE)
  let ?r = "go_rem n (int c)" and ?xs = "ring b h c"
  show ?thesis
  proof (cases "c \<le> 1")
    case True
    then have "rotate k ?xs = ?xs" for k by (intro rotate_length01) simp
    with True ok show ?thesis by (simp add: dq_Rotate_def q)
  next
    case False
    then have ne: "b \<noteq> []" and c: "0 < c" using ok by (auto simp: dq_ok_def)
    note d = dq_okD[OF ok ne]
    have sm: "\<bar>?r\<bar> < int c" and md: "?r mod int c = n mod int c"
      using go_rem_small[of "int c" n] go_rem_mod[of "int c" n] c by auto
    have full: "int h = int ((h + c) mod length b) \<longleftrightarrow> c = length b"
      using ring_slot_eq[of c "length b" 0 h] d c by (cases "c = length b") auto
    consider "?r = 0" | "?r \<noteq> 0" "c = length b" | "0 < ?r" "c \<noteq> length b" | "?r < 0" "c \<noteq> length b"
      by linarith
    then show ?thesis
    proof cases
      case 1
      then have "n mod int c = 0" using md by simp
      with 1 False ok show ?thesis by (simp add: dq_Rotate_def q)
    next
      case 2
      let ?n = "nat (n mod int c)" and ?h = "(int h + ?r) AND (int (length b) - 1)"
      have nn: "int ?n = n mod int c" using c by simp
      have "?h = (int h + ?r) mod int c" using d 2 by (simp add: and_mask_mod)
      also have "\<dots> = (int h + n) mod int c" using md by (metis mod_add_right_eq)
      also have "\<dots> = int ((h + ?n) mod length b)"
        using nn 2(2) by (simp add: zmod_int mod_add_right_eq)
      finally have h': "?h = int ((h + ?n) mod length b)" .
      let ?h' = "(h + ?n) mod length b"
      have "ring b ?h' c = rotate ?n ?xs"
      proof (rule nth_equalityI)
        fix i assume "i < length (ring b ?h' c)"
        then have i: "i < c" by simp
        have "rotate ?n ?xs ! i = ?xs ! ((?n + i) mod c)" using i by (simp add: nth_rotate)
        also have "\<dots> = b ! ((h + (?n + i) mod c) mod length b)" using c by simp
        also have "\<dots> = b ! ((?h' + i) mod length b)"
          using 2(2) by (simp add: mod_simps add.assoc)
        finally show "ring b ?h' c ! i = rotate ?n ?xs ! i" using i by simp
      qed simp
      moreover have "(dq_mk b h c m)\<lparr>dq_head := ?h, dq_tail := ?h\<rparr> = dq_mk b ?h' c m"
        unfolding h' using 2(2) by (simp add: dq_mk_def mod_simps)
      moreover have "dq_ok b ?h' c m" using ok ne by (simp add: dq_ok_def)
      ultimately show ?thesis using False 2 full by (simp add: dq_Rotate_def q Let_def)
    next
      case 3
      then have "n mod int c = ?r" using md sm by simp
      moreover have "c < length b" using 3 d by simp
      ultimately show ?thesis
        using dq_rot_front_mk[OF ok c, of "nat ?r"] False 3 full by (simp add: dq_Rotate_def q Let_def)
    next
      case 4
      have "n mod int c = int c + ?r"
        using md sm 4 mod_add_self1[of "int c" ?r] mod_pos_pos_trivial[of "int c + ?r" "int c"] by simp
      then have k: "nat (n mod int c) + nat (- ?r) = c" using sm 4 by simp
      have "c < length b" using 4 d by simp
      have "returns (dq_rot_back (nat (- ?r)) (dq_mk b h c m)) (\<lambda>q'. dq_step q' (rotate (nat (n mod int c)) ?xs))"
      proof (rule returns_mono[OF dq_rot_back_mk[OF ok c \<open>c < length b\<close>]])
        fix q' assume a: "dq_wf q' \<and> rotate (nat (- ?r)) (dq_list q') = ?xs"
        then have l: "length (dq_list q') = c" by (metis length_ring length_rotate)
        have "rotate (nat (n mod int c)) ?xs = rotate (nat (n mod int c) + nat (- ?r)) (dq_list q')"
          using a by (metis rotate_rotate)
        also have "\<dots> = dq_list q'" using k l by (simp add: rotate_id)
        finally show "dq_step q' (rotate (nat (n mod int c)) ?xs)" using a by simp
      qed
      then show ?thesis using False 4 full by (simp add: dq_Rotate_def q Let_def)
    qed
  qed
qed


lemma dq_mk_upds [simp]:
  "(dq_mk b h c m)\<lparr>dq_minCap := int N\<rparr> = dq_mk b h c N"
  "(dq_mk b h c m)\<lparr>dq_buf := b', dq_count := 0, dq_head := 0, dq_tail := 0\<rparr> = dq_mk b' 0 0 m"
  "(dq_mk b h 0 m)\<lparr>dq_buf := b', dq_head := 0, dq_tail := 0\<rparr> = dq_mk b' 0 0 m"
  "(dq_mk b h 0 m)\<lparr>dq_head := 0, dq_tail := 0, dq_buf := b'\<rparr> = dq_mk b' 0 0 m"
  by (simp_all add: dq_mk_def)

section \<open>Capacity loops\<close>

lemma dq_shl_until_unfold:
  "dq_shl_until c n = (if c < n then dq_shl_until (c * 2) n else Ret c)"
  unfolding dq_shl_until_def by (subst while_option_unfold) simp

lemma dq_shl_until_pos:
  assumes "0 < c"
  shows "\<exists>k. dq_shl_until c n = Ret (c * 2 ^ k) \<and> n \<le> c * 2 ^ k"
  using assms
proof (induction "nat (n - c)" arbitrary: c rule: less_induct)
  case less
  show ?case
  proof (cases "c < n")
    case True
    then have "nat (n - c * 2) < nat (n - c)" using less.prems by simp
    from less.hyps[OF this] less.prems obtain k
      where "dq_shl_until (c * 2) n = Ret (c * 2 * 2 ^ k)" "n \<le> c * 2 * 2 ^ k" by auto
    then show ?thesis using True by (subst dq_shl_until_unfold) (auto intro!: exI[of _ "Suc k"] simp: mult.assoc)
  next
    case False
    then show ?thesis by (subst dq_shl_until_unfold) (auto intro: exI[of _ 0])
  qed
qed

text \<open>Doubling never leaves 0.\<close>

lemma dq_shl_until_zero:
  assumes "0 < n" shows "dq_shl_until 0 n = Diverge"
proof -
  have "while_option (\<lambda>c. c < n) (\<lambda>c. c * 2) (0::int) = None"
  proof (rule ccontr)
    assume "while_option (\<lambda>c. c < n) (\<lambda>c. c * 2) (0::int) \<noteq> None"
    then obtain r where r: "while_option (\<lambda>c. c < n) (\<lambda>c. c * 2) (0::int) = Some r" by auto
    have "r = 0" by (rule while_option_rule[OF _ r]) simp_all
    moreover have "\<not> r < n" by (rule while_option_stop[OF r])
    ultimately show False using assms by simp
  qed
  then show ?thesis by (simp add: dq_shl_until_def)
qed

lemma is_pow2_mult_power: "is_pow2 m \<Longrightarrow> is_pow2 (m * 2 ^ k)"
  by (auto simp: is_pow2_iff power_add[symmetric])

lemma dq_shl_until_pow2:
  assumes "is_pow2 m"
  shows "\<exists>N. dq_shl_until (int m) n = Ret (int N) \<and> n \<le> int N \<and> is_pow2 N \<and> m \<le> N"
proof -
  obtain k where k: "dq_shl_until (int m) n = Ret (int m * 2 ^ k)" "n \<le> int m * 2 ^ k"
    using dq_shl_until_pos[of "int m" n] is_pow2_pos[OF assms] by auto
  have "int m * 2 ^ k = int (m * 2 ^ k)" by simp
  moreover have "m \<le> m * 2 ^ k" by simp
  ultimately show ?thesis using k is_pow2_mult_power[OF assms, of k] by metis
qed

section \<open>Grow, SetBaseCap and Clear\<close>

lemma dq_Grow_step:
  assumes wf: "dq_wf q"
  shows "returns (dq_Grow (int n) q)
    (\<lambda>q'. dq_step q' (dq_list q) \<and> int (length (dq_list q) + n) \<le> dq_Cap q')"
proof -
  obtain b h c m where q: "q = dq_mk b h c m" and ok: "dq_ok b h c m"
    using wf by (rule dq_wfE)
  show ?thesis
  proof (cases "int n \<le> int (length b) - int c")
    case True
    with ok show ?thesis by (auto simp: dq_Grow_def q)
  next
    case big: False
    define s where "s = (if b = [] then 8 else length b)"
    have s: "is_pow2 s" using ok is_pow2_8 by (auto simp: s_def dq_ok_def)
    obtain N where N: "dq_shl_until (int s) (int c + int n) = Ret (int N)"
      "int c + int n \<le> int N" "is_pow2 N" "s \<le> N"
      using dq_shl_until_pow2[OF s] by blast
    have st: "(if int (length b) = 0 then minCapacity else int (length b)) = int s"
      by (simp add: s_def minCapacity_def)
    have m: "m = 0 \<or> is_pow2 m" using ok by (simp add: dq_ok_def)
    show ?thesis
    proof (cases "c = 0")
      case True
      have "dq_ok (replicate N 0) 0 0 m"
        using m N is_pow2_pos[OF N(3)] by (simp add: dq_ok_def)
      then show ?thesis
        using True big N st by (simp add: dq_Grow_def q Let_def dq_make_def)
    next
      case False
      then have "b \<noteq> []" using ok by (auto simp: dq_ok_def)
      then have "c < N" using N(2,4) big dq_okD(3)[OF ok] by (simp add: s_def)
      have "returns (dq_resize (int N) (dq_mk b h c m))
        (\<lambda>q'. dq_step q' (ring b h c) \<and> int (c + n) \<le> dq_Cap q')"
        by (rule returns_mono[OF dq_resize_ok[OF ok _ \<open>c < N\<close> N(3)]]) (use False N in auto)
      then show ?thesis using False big N st by (simp add: dq_Grow_def q Let_def)
    qed
  qed
qed

lemma dq_SetBaseCap_step:
  assumes wf: "dq_wf q"
  shows "returns (dq_SetBaseCap baseCap q)
    (\<lambda>q'. dq_step q' (dq_list q) \<and> baseCap \<le> dq_minCap q' \<and> 8 \<le> dq_minCap q')"
proof -
  obtain b h c m where q: "q = dq_mk b h c m" and ok: "dq_ok b h c m"
    using wf by (rule dq_wfE)
  obtain N where N: "dq_shl_until 8 baseCap = Ret (int N)" "baseCap \<le> int N" "is_pow2 N" "8 \<le> N"
    using dq_shl_until_pow2[OF is_pow2_8] by auto
  have "dq_ok b h c N" using ok N by (auto simp: dq_ok_def)
  then show ?thesis using N by (simp add: dq_SetBaseCap_def q minCapacity_def)
qed

lemma dq_clear_slice_int:
  assumes "lo \<le> hi" "hi \<le> length b"
  shows "dq_clear_slice b (int lo) (int hi) = Ret (take lo b @ replicate (hi - lo) 0 @ drop hi b)"
  using assms by (simp add: dq_clear_slice_def)

text \<open>After \<open>Clear\<close> the queue is empty and keeps its capacity.\<close>

lemma dq_Clear_step:
  assumes wf: "dq_wf q"
  shows "returns (dq_Clear q) (\<lambda>q'. dq_step q' [] \<and> dq_Cap q' = dq_Cap q)"
proof -
  obtain b h c m where q: "q = dq_mk b h c m" and ok: "dq_ok b h c m"
    using wf by (rule dq_wfE)
  show ?thesis
  proof (cases "c = 0")
    case True
    with ok show ?thesis by (simp add: dq_Clear_def q)
  next
    case False
    then have ne: "b \<noteq> []" using ok by (auto simp: dq_ok_def)
    note d = dq_okD[OF ok ne]
    let ?t = "(h + c) mod length b"
    have t: "?t \<le> length b" using d by simp
    have "returns (if int h \<ge> int ?t
        then obind (dq_clear_slice b (int h) (int (length b))) (\<lambda>b. dq_clear_slice b 0 (int ?t))
        else dq_clear_slice b (int h) (int ?t)) (\<lambda>b'. length b' = length b)"
      using d t dq_clear_slice_int[of h "length b" b] dq_clear_slice_int[of h ?t b]
        dq_clear_slice_int[of 0 ?t "take h b @ replicate (length b - h) 0"] by simp
    moreover have "dq_ok b' 0 0 m" if "length b' = length b" for b'
      using that ok ne by (auto simp: dq_ok_def)
    ultimately show ?thesis
      using False by (auto simp: dq_Clear_def q returns_iff)
  qed
qed

section \<open>Draining\<close>

lemma dq_drain_front_mk:
  assumes "dq_ok b h c m"
  shows "\<exists>b' h' c'. dq_drain_front c yield (dq_mk b h c m) =
       Ret (until_no yield (ring b h c), dq_mk b' h' c' m) \<and> dq_ok b' h' c' m \<and>
       length b' = length b \<and> ring b' h' c' = drop (length (until_no yield (ring b h c))) (ring b h c)"
  using assms
proof (induction c arbitrary: b h)
  case (Suc k)
  have ne: "b \<noteq> []" using Suc.prems by (auto simp: dq_ok_def)
  note d = dq_okD[OF Suc.prems ne]
  let ?b = "b[h := 0]" and ?h = "(h + 1) mod length b"
  have nx: "dq_next (dq_mk b h (Suc k) m) (int h) = int ?h" using d by (subst dq_next_int) simp_all
  have tf: "dq_take_front (dq_mk b h (Suc k) m) = Ret (b ! h, dq_mk ?b ?h k m)"
    using d nx by (simp add: dq_take_front_def) (simp add: dq_mk_def next_slot[simplified])
  have r: "ring b h (Suc k) = b ! h # ring ?b ?h k"
    using d by (intro ring_pop_front) auto
  have ok: "dq_ok ?b ?h k m" using Suc.prems ne by (simp add: dq_ok_def)
  from Suc.IH[OF ok] tf r ok show ?case by (auto simp del: One_nat_def)
qed simp

section \<open>Copying\<close>

text \<open>The elements of a non-empty queue lie in one run of slots, or in two that the end of the
  buffer separates.\<close>

lemma dq_runs:
  assumes ok: "dq_ok b h c m" and c: "0 < c"
  defines "t \<equiv> (h + c) mod length b"
  shows "h < t \<Longrightarrow> take (t - h) (drop h b) = ring b h c"
    and "t \<le> h \<Longrightarrow> drop h b @ take t b = ring b h c"
    and "h \<le> length b" "t \<le> length b"
proof -
  have ne: "b \<noteq> []" using ok c by (auto simp: dq_ok_def)
  note d = dq_okD[OF ok ne]
  show "h \<le> length b" "t \<le> length b" using d by (simp_all add: t_def less_imp_le)
  { assume ht: "h < t"
    have "h + c < length b"
    proof (rule ccontr)
      assume "\<not> h + c < length b"
      then have "t = h + c - length b" using d by (simp add: t_def mod_if)
      with ht d show False by simp
    qed
    then have "t = h + c" by (simp add: t_def)
    with \<open>h + c < length b\<close> show "take (t - h) (drop h b) = ring b h c"
      by (simp add: ring_nowrap) }
  { assume th: "t \<le> h"
    have "length b \<le> h + c"
    proof (rule ccontr)
      assume "\<not> length b \<le> h + c"
      then have "t = h + c" by (simp add: t_def)
      with th c show False by simp
    qed
    then have "t = h + c - length b" using d by (simp add: t_def mod_if)
    with \<open>length b \<le> h + c\<close> d show "drop h b @ take t b = ring b h c"
      by (simp add: ring_wrap) }
qed

lemma dq_AppendToSlice_step:
  assumes "dq_wf q"
  shows "dq_AppendToSlice out q = Ret (out @ dq_list q)"
proof -
  obtain b h c m where q: "q = dq_mk b h c m" and ok: "dq_ok b h c m"
    using assms by (rule dq_wfE)
  show ?thesis
  proof (cases "c = 0")
    case False
    note r = dq_runs[OF ok, simplified, OF False[unfolded neq0_conv]]
    show ?thesis
      using False r slice_of_int[of 0 "(h + c) mod length b" b]
      by (auto simp: dq_AppendToSlice_def q not_le)
  qed (simp add: dq_AppendToSlice_def q)
qed

lemma copy_at_split:
  assumes "length xs < length out"
  shows "copy_at (copy_at out 0 xs) (length xs) ys = copy_at out 0 (xs @ ys)"
  using assms by (simp add: copy_at_def min_def add.commute)

text \<open>\<open>CopyOutSlice\<close> fills the front of the slice with as many elements as fit.\<close>

lemma dq_CopyOutSlice_step:
  assumes "dq_wf q"
  shows "dq_CopyOutSlice out q = Ret (min (length out) (length (dq_list q)), copy_at out 0 (dq_list q))"
proof -
  obtain b h c m where q: "q = dq_mk b h c m" and ok: "dq_ok b h c m"
    using assms by (rule dq_wfE)
  let ?t = "(h + c) mod length b"
  consider "c = 0 \<or> out = []" | "0 < c" "out \<noteq> []" "h < ?t" | "0 < c" "out \<noteq> []" "?t \<le> h"
    by linarith
  then show ?thesis
  proof cases
    case 1
    then show ?thesis by (auto simp: dq_CopyOutSlice_def q copy_at_def)
  next
    case 2
    then show ?thesis using dq_runs[OF ok 2(1)]
      by (simp add: dq_CopyOutSlice_def q copied_def)
  next
    case 3
    note r = dq_runs[OF ok 3(1)]
    have s: "slice_of b (int h) (int (length b)) = Ret (drop h b)" "slice_of b 0 (int ?t) = Ret (take ?t b)"
      using r slice_of_int[of 0 ?t b] by simp_all
    have l: "length b - h + ?t = c"
      using arg_cong[OF r(2)[OF 3(3)], of length] r(3,4) by (simp add: min_absorb1 min_absorb2)
    have lc: "length b - h + min (length out - (length b - h)) ?t = min (length out) c"
      if "length b - h < length out"
      using that l by linarith
    show ?thesis
    proof (cases "length b - h < length out")
      case True
      then show ?thesis using 3 s r(2) copy_at_split[of "drop h b" out "take ?t b"]
        by (auto simp: dq_CopyOutSlice_def q copied_def Let_def lc min_absorb2[OF r(4)])
    next
      case False
      then have f: "length out \<le> length (drop h b)" by simp
      then have "copy_at out 0 (drop h b) = copy_at out 0 (drop h b @ take ?t b)"
        by (simp add: copy_at_def)
      moreover have "length out \<le> c" using arg_cong[OF r(2)[OF 3(3)], of length] f by simp
      ultimately show ?thesis using 3 s f r(2)
        by (simp add: dq_CopyOutSlice_def q copied_def Let_def min_absorb1)
    qed
  qed
qed

text \<open>\<open>CopyInSlice\<close> replaces the contents, as long as the buffer has a slot to spare.\<close>

lemma dq_copyin_room_mk:
  assumes ok: "dq_ok b h c m"
  obtains q m' where "dq_copyin_room xs (dq_mk b h c m) = Ret q" "dq_minCap q = int m'"
    "length xs \<le> length (dq_buf q)" "dq_buf q = [] \<or> is_pow2 (length (dq_buf q))"
    "m' = 0 \<or> is_pow2 m'"
proof -
  have m: "m = 0 \<or> is_pow2 m" using ok by (simp add: dq_ok_def)
  consider "length b < length xs" "b = []" | "length b < length xs" "b \<noteq> []"
    | "length xs < length b" | "length xs = length b" by linarith
  then show thesis
  proof cases
    case 1
    obtain N where N: "dq_shl_until 8 (int (length xs)) = Ret (int N)" "int (length xs) \<le> int N"
      "is_pow2 N" using dq_shl_until_pow2[OF is_pow2_8, of "int (length xs)"] by auto
    show thesis
      by (rule that[of "(dq_mk b h c 8)\<lparr>dq_buf := replicate N 0\<rparr>" 8])
         (use 1 N is_pow2_8 dq_mk_upds(1)[of 8 b h c m] in
          \<open>auto simp: dq_copyin_room_def minCapacity_def dq_make_def\<close>)
  next
    case 2
    obtain N where N: "dq_shl_until (int (length b)) (int (length xs)) = Ret (int N)"
        "int (length xs) \<le> int N" "is_pow2 N"
      using dq_shl_until_pow2[OF dq_okD(1)[OF ok 2(2)]] by blast
    show thesis
      by (rule that[of "(dq_mk b h c m)\<lparr>dq_buf := replicate N 0\<rparr>" m])
         (use 2 N m in \<open>auto simp: dq_copyin_room_def dq_make_def\<close>)
  next
    case 3
    then have "b \<noteq> []" by auto
    obtain q1 where q1: "dq_Clear (dq_mk b h c m) = Ret q1" "dq_wf q1" "dq_Cap q1 = int (length b)"
      using dq_Clear_step[of "dq_mk b h c m"] ok by (auto simp: returns_iff)
    obtain b1 h1 c1 m1 where "q1 = dq_mk b1 h1 c1 m1" "dq_ok b1 h1 c1 m1"
      using q1(2) by (rule dq_wfE)
    with q1 3 show thesis
      by (intro that[of q1 m1]) (auto simp: dq_copyin_room_def dq_ok_def split: if_splits)
  next
    case 4
    with ok show thesis
      by (intro that[of "dq_mk b h c m" m])
         (auto simp: dq_copyin_room_def dq_ok_def split: if_splits)
  qed
qed

lemma dq_CopyInSlice_step:
  assumes wf: "dq_wf q"
  shows "returns (dq_CopyInSlice xs q)
    (\<lambda>q'. dq_Len q' = int (length xs) \<and> (dq_Len q' < dq_Cap q' \<longrightarrow> dq_step q' xs))"
proof -
  obtain b h c m where q: "q = dq_mk b h c m" and ok: "dq_ok b h c m"
    using wf by (rule dq_wfE)
  obtain q1 m' where room: "dq_copyin_room xs (dq_mk b h c m) = Ret q1"
    and *: "dq_minCap q1 = int m'" "length xs \<le> length (dq_buf q1)"
      "dq_buf q1 = [] \<or> is_pow2 (length (dq_buf q1))" "m' = 0 \<or> is_pow2 m'"
    using dq_copyin_room_mk[OF ok, of xs] .
  let ?b = "copy_at (dq_buf q1) 0 xs"
  have n: "copied (dq_buf q1) 0 xs = length xs" using * by (simp add: copied_def)
  show ?thesis
  proof (cases "length xs < length (dq_buf q1)")
    case True
    have "q1\<lparr>dq_buf := ?b, dq_count := int (length xs), dq_tail := int (length xs), dq_head := 0\<rparr>
       = dq_mk ?b 0 (length xs) m'"
      using True * by (cases q1) (simp add: dq_mk_def)
    moreover have "dq_ok ?b 0 (length xs) m'" using True * by (auto simp: dq_ok_def copy_at_def)
    moreover have "ring ?b 0 (length xs) = xs"
      using True by (simp add: ring_at_0 copy_at_0)
    ultimately show ?thesis using room * n by (simp add: dq_CopyInSlice_def q Let_def)
  next
    case False
    then show ?thesis using room * n by (simp add: dq_CopyInSlice_def q Let_def dq_Len_def dq_Cap_def)
  qed
qed

end
