(* ===== verification/DequeSpec.thy ===== *)
theory DequeSpec
  imports DequeOps
begin

text \<open>
  The contract of \<open>common/deque/deque.go\<close>: every sequence of its calls against the same calls on
  a list, the interface that its client \<open>dns/dot.go\<close> relies on, and the two histories in which
  the code leaves the contract.
\<close>

section \<open>Draining the whole queue\<close>

lemma until_no_all: "(\<And>x. x \<in> set xs \<Longrightarrow> P x) \<Longrightarrow> until_no P xs = xs"
  by (induction xs) auto

lemma dq_drain_back_mk:
  assumes "dq_ok b h c m"
  shows "\<exists>b' c'. dq_drain_back c yield (dq_mk b h c m) =
       Ret (until_no yield (rev (ring b h c)), dq_mk b' h c' m) \<and> dq_ok b' h c' m \<and>
       length b' = length b \<and>
       rev (ring b' h c') = drop (length (until_no yield (rev (ring b h c)))) (rev (ring b h c))"
  using assms
proof (induction c arbitrary: b)
  case (Suc k)
  have ne: "b \<noteq> []" using Suc.prems by (auto simp: dq_ok_def)
  note d = dq_okD[OF Suc.prems ne]
  let ?t = "(h + k) mod length b"
  let ?b = "b[?t := 0]"
  have tb: "dq_take_back (dq_mk b h (Suc k) m) = Ret (b ! ?t, dq_mk ?b h k m)"
    using d dq_prev_last[OF d(1), of h "Suc k" m h k]
    by (simp add: dq_take_back_def)
  have r: "ring b h (Suc k) = ring ?b h k @ [b ! ?t]"
    using d by (intro ring_pop_back) auto
  have ok: "dq_ok ?b h k m" using Suc.prems ne by (simp add: dq_ok_def)
  from Suc.IH[OF ok] tb r ok show ?case by (auto simp del: One_nat_def)
qed simp

lemma dq_shrinkToFit_empty:
  assumes "dq_ok b h 0 m"
  shows "returns (dq_shrinkToFit (dq_mk b h 0 m)) (\<lambda>q. dq_step q [])"
proof (cases "m < length b")
  case True
  have "dq_ok (replicate m 0) 0 0 m" using assms by (auto simp: dq_ok_def)
  with True show ?thesis by (simp add: dq_shrinkToFit_def dq_make_def)
next
  case False
  with assms show ?thesis by (simp add: dq_shrinkToFit_def)
qed

lemma dq_IterPop_all:
  assumes wf: "dq_wf q"
  shows "returns (dq_IterPopFront (\<lambda>_. True) q) (\<lambda>(xs, q'). xs = dq_list q \<and> dq_step q' [])"
    and "returns (dq_IterPopBack (\<lambda>_. True) q) (\<lambda>(xs, q'). xs = rev (dq_list q) \<and> dq_step q' [])"
proof -
  obtain b h c m where q: "q = dq_mk b h c m" and ok: "dq_ok b h c m"
    using wf by (rule dq_wfE)
  have all: "until_no (\<lambda>_. True) xs = xs" for xs :: "'a list" by (rule until_no_all) simp
  obtain b' h' c' where f: "dq_drain_front c (\<lambda>_. True) (dq_mk b h c m) =
      Ret (ring b h c, dq_mk b' h' c' m)" "dq_ok b' h' c' m" "ring b' h' c' = []"
    using dq_drain_front_mk[OF ok, of "\<lambda>_. True"] unfolding all by auto
  have "c' = 0" using arg_cong[OF f(3), of length] by simp
  with f dq_shrinkToFit_empty[of b' h' m] wf
  show "returns (dq_IterPopFront (\<lambda>_. True) q) (\<lambda>(xs, q'). xs = dq_list q \<and> dq_step q' [])"
    by (cases "c = 0") (auto simp: dq_IterPopFront_def q returns_iff)
  obtain b' c' where g: "dq_drain_back c (\<lambda>_. True) (dq_mk b h c m) =
      Ret (rev (ring b h c), dq_mk b' h c' m)" "dq_ok b' h c' m" "rev (ring b' h c') = []"
    using dq_drain_back_mk[OF ok, of "\<lambda>_. True"] unfolding all by auto
  have "c' = 0" using arg_cong[OF g(3), of length] by simp
  with g dq_shrinkToFit_empty[of b' h m] wf
  show "returns (dq_IterPopBack (\<lambda>_. True) q) (\<lambda>(xs, q'). xs = rev (dq_list q) \<and> dq_step q' [])"
    by (cases "c = 0") (auto simp: dq_IterPopBack_def q returns_iff)
qed

section \<open>Any sequence of calls against the list specification\<close>

datatype 'a dq_call =
  CPushBack 'a | CPushFront 'a | CPopFront | CPopBack | CFront | CBack | CAt int | CSetAt int 'a
| CInsert int 'a | CRemove int | CRotate int | CSwap int int | CIndex "'a \<Rightarrow> bool"
| CClear | CGrow nat | CSetBaseCap int

datatype 'a dq_answer = Done | Item 'a | Pos int

text \<open>A call on the implementation: its answer and the queue it leaves.\<close>

fun dq_do :: "'a::zero dq_call \<Rightarrow> 'a deque \<Rightarrow> ('a dq_answer \<times> 'a deque) outcome" where
  "dq_do (CPushBack x) q = obind (dq_PushBack x q) (\<lambda>q. Ret (Done, q))"
| "dq_do (CPushFront x) q = obind (dq_PushFront x q) (\<lambda>q. Ret (Done, q))"
| "dq_do CPopFront q = obind (dq_PopFront q) (\<lambda>(x, q). Ret (Item x, q))"
| "dq_do CPopBack q = obind (dq_PopBack q) (\<lambda>(x, q). Ret (Item x, q))"
| "dq_do CFront q = obind (dq_Front q) (\<lambda>x. Ret (Item x, q))"
| "dq_do CBack q = obind (dq_Back q) (\<lambda>x. Ret (Item x, q))"
| "dq_do (CAt i) q = obind (dq_At i q) (\<lambda>x. Ret (Item x, q))"
| "dq_do (CSetAt i x) q = obind (dq_Set i x q) (\<lambda>q. Ret (Done, q))"
| "dq_do (CInsert i x) q = obind (dq_Insert i x q) (\<lambda>q. Ret (Done, q))"
| "dq_do (CRemove i) q = obind (dq_Remove i q) (\<lambda>(x, q). Ret (Item x, q))"
| "dq_do (CRotate n) q = obind (dq_Rotate n q) (\<lambda>q. Ret (Done, q))"
| "dq_do (CSwap i j) q = obind (dq_Swap i j q) (\<lambda>q. Ret (Done, q))"
| "dq_do (CIndex f) q = obind (dq_Index f q) (\<lambda>i. Ret (Pos i, q))"
| "dq_do CClear q = obind (dq_Clear q) (\<lambda>q. Ret (Done, q))"
| "dq_do (CGrow n) q = obind (dq_Grow (int n) q) (\<lambda>q. Ret (Done, q))"
| "dq_do (CSetBaseCap c) q = obind (dq_SetBaseCap c q) (\<lambda>q. Ret (Done, q))"

text \<open>The same call on a list; \<open>None\<close> where the documentation says that it panics.\<close>

definition in_range :: "int \<Rightarrow> 'a list \<Rightarrow> bool" where
  "in_range i xs \<longleftrightarrow> 0 \<le> i \<and> i < int (length xs)"

fun list_do :: "'a dq_call \<Rightarrow> 'a list \<Rightarrow> ('a dq_answer \<times> 'a list) option" where
  "list_do (CPushBack x) xs = Some (Done, xs @ [x])"
| "list_do (CPushFront x) xs = Some (Done, x # xs)"
| "list_do CPopFront xs = (if xs = [] then None else Some (Item (hd xs), tl xs))"
| "list_do CPopBack xs = (if xs = [] then None else Some (Item (last xs), butlast xs))"
| "list_do CFront xs = (if xs = [] then None else Some (Item (hd xs), xs))"
| "list_do CBack xs = (if xs = [] then None else Some (Item (last xs), xs))"
| "list_do (CAt i) xs = (if in_range i xs then Some (Item (xs ! nat i), xs) else None)"
| "list_do (CSetAt i x) xs = (if in_range i xs then Some (Done, xs[nat i := x]) else None)"
| "list_do (CInsert i x) xs = Some (Done, insert_at i x xs)"
| "list_do (CRemove i) xs =
     (if in_range i xs then Some (Item (xs ! nat i), take (nat i) xs @ drop (Suc (nat i)) xs)
      else None)"
| "list_do (CRotate n) xs = Some (Done, rotate (nat (n mod int (length xs))) xs)"
| "list_do (CSwap i j) xs =
     (if in_range i xs \<and> in_range j xs
      then Some (Done, xs[nat i := xs ! nat j, nat j := xs ! nat i]) else None)"
| "list_do (CIndex f) xs = Some (Pos (first_idx f 0 xs), xs)"
| "list_do CClear xs = Some (Done, [])"
| "list_do (CGrow n) xs = Some (Done, xs)"
| "list_do (CSetBaseCap c) xs = Some (Done, xs)"

text \<open>\<open>agrees r s\<close>: the call returned what the list call returned and left a well-formed
  queue with that list, or both panicked.\<close>

fun agrees :: "('a dq_answer \<times> 'a deque) outcome \<Rightarrow> ('a dq_answer \<times> 'a list) option \<Rightarrow> bool" where
  "agrees r (Some (a, ys)) = returns r (\<lambda>(a', q'). a' = a \<and> dq_step q' ys)"
| "agrees r None = (\<exists>m. r = Panic m)"

lemma dq_count_length: "dq_wf q \<Longrightarrow> dq_count q = int (length (dq_list q))"
  by (auto elim!: dq_wfE)

lemma in_range_nat: "in_range i xs \<Longrightarrow> nat i < length xs \<and> int (nat i) = i"
  by (auto simp: in_range_def)

lemma dq_checkRange_list:
  "dq_wf q \<Longrightarrow> dq_checkRange q i = (if in_range i (dq_list q) then Ret ()
     else Panic ''deque: index out of range'')"
  by (auto simp: dq_checkRange_def in_range_def dq_count_length)

lemma dq_do_agrees:
  assumes wf: "dq_wf q"
  shows "agrees (dq_do c q) (list_do c (dq_list q))"
proof (cases c)
  case (CPushBack x)
  with dq_PushBack_step[OF wf, of x] show ?thesis by simp
next
  case (CPushFront x)
  with dq_PushFront_step[OF wf, of x] show ?thesis by simp
next
  case CPopFront
  with dq_PopFront_step[OF wf] dq_count_length[OF wf] show ?thesis
    by (cases "dq_list q = []") (auto simp: dq_PopFront_def returns_iff)
next
  case CPopBack
  with dq_PopBack_step[OF wf] dq_count_length[OF wf] show ?thesis
    by (cases "dq_list q = []") (auto simp: dq_PopBack_def returns_iff)
next
  case CFront
  with dq_Front_step[OF wf] dq_count_length[OF wf] wf show ?thesis
    by (cases "dq_list q = []") (auto simp: dq_Front_def)
next
  case CBack
  with dq_Back_step[OF wf] dq_count_length[OF wf] wf show ?thesis
    by (cases "dq_list q = []") (auto simp: dq_Back_def)
next
  case (CAt i)
  with dq_At_step[OF wf, of "nat i"] dq_checkRange_list[OF wf, of i] wf in_range_nat[of i "dq_list q"]
  show ?thesis by (cases "in_range i (dq_list q)") (auto simp: dq_At_def)
next
  case (CSetAt i x)
  with dq_Set_step[OF wf, of "nat i" x] dq_checkRange_list[OF wf, of i] in_range_nat[of i "dq_list q"]
  show ?thesis by (cases "in_range i (dq_list q)") (auto simp: dq_Set_def)
next
  case (CInsert i x)
  with dq_Insert_step[OF wf, of i x] show ?thesis by simp
next
  case (CRemove i)
  with dq_Remove_step[OF wf, of "nat i"] dq_checkRange_list[OF wf, of i] in_range_nat[of i "dq_list q"]
  show ?thesis by (cases "in_range i (dq_list q)") (auto simp: dq_Remove_def returns_iff)
next
  case (CRotate n)
  with dq_Rotate_step[OF wf, of n] show ?thesis by simp
next
  case (CSwap i j)
  with dq_Swap_step[OF wf, of "nat i" "nat j"] dq_checkRange_list[OF wf] in_range_nat[of i "dq_list q"]
    in_range_nat[of j "dq_list q"]
  show ?thesis
    by (cases "in_range i (dq_list q)"; cases "in_range j (dq_list q)") (auto simp: dq_Swap_def)
next
  case (CIndex f)
  with dq_Index_step[OF wf] wf show ?thesis by simp
next
  case CClear
  with dq_Clear_step[OF wf] show ?thesis by (auto simp: returns_iff)
next
  case (CGrow n)
  with dq_Grow_step[OF wf, of n] show ?thesis by (auto simp: returns_iff)
next
  case (CSetBaseCap c)
  with dq_SetBaseCap_step[OF wf, of c] show ?thesis by (auto simp: returns_iff)
qed

fun dq_trace :: "'a::zero dq_call list \<Rightarrow> 'a deque \<Rightarrow> 'a dq_answer option list" where
  "dq_trace [] q = []"
| "dq_trace (c # cs) q =
     (case dq_do c q of Ret (a, q') \<Rightarrow> Some a # dq_trace cs q' | _ \<Rightarrow> [None])"

fun list_trace :: "'a dq_call list \<Rightarrow> 'a list \<Rightarrow> 'a dq_answer option list" where
  "list_trace [] xs = []"
| "list_trace (c # cs) xs =
     (case list_do c xs of Some (a, ys) \<Rightarrow> Some a # list_trace cs ys | None \<Rightarrow> [None])"

lemma dq_trace_list:
  assumes "dq_wf q" shows "dq_trace cs q = list_trace cs (dq_list q)"
  using assms
proof (induction cs arbitrary: q)
  case (Cons c cs)
  show ?case
  proof (cases "list_do c (dq_list q)")
    case None
    with dq_do_agrees[OF Cons.prems, of c] show ?thesis by auto
  next
    case (Some r)
    then obtain a ys where r: "list_do c (dq_list q) = Some (a, ys)" by (cases r) auto
    with dq_do_agrees[OF Cons.prems, of c] obtain q'
      where "dq_do c q = Ret (a, q')" "dq_wf q'" "dq_list q' = ys" by (auto simp: returns_iff)
    with r Cons.IH[of q'] show ?thesis by simp
  qed
qed simp

lemma dq_zero_wf [simp]: "dq_wf dq_zero" "dq_list dq_zero = []"
  by (simp_all add: dq_zero_def dq_wf_def dq_ok_def dq_list_def)


section \<open>Where the code leaves the specification\<close>

text \<open>
  \<open>CopyInSlice\<close> with a slice that fills the buffer exactly leaves \<open>tail\<close> one past the end
  instead of wrapped to 0, and a \<open>PopFront\<close> followed by a \<open>PushBack\<close> panics with an index
  out of range, whatever the elements.
\<close>

theorem deque_copyin_full_panics:
  "obind (dq_CopyInSlice [a, b, c, d, e, f, g, h] dq_zero) (\<lambda>q.
   obind (dq_PopFront q) (\<lambda>(x, q). dq_PushBack y q)) = Panic ''index out of range''"
proof -
  have shl: "dq_shl_until 8 8 = Ret 8" by (subst dq_shl_until_unfold) simp
  show ?thesis
    by (simp add: dq_CopyInSlice_def dq_copyin_room_def dq_zero_def dq_Cap_def minCapacity_def
      shl dq_make_def copied_def copy_at_0 dq_PopFront_def dq_take_front_def dq_next_def
      get_at_def put_at_def dq_shrinkIfExcess_def dq_PushBack_def dq_growIfFull_def Let_def)
qed

text \<open>
  \<open>IterPopFront\<close> never returns when its consumer stops after the first of at least two
  items, the base capacity was never set and at most a quarter of the buffer is still in use:
  the loop of \<open>shrinkToFit\<close> doubles a \<open>minCap\<close> of 0 for ever. \<open>Grow\<close> on a fresh queue brings it
  into that state.
\<close>

theorem deque_iter_pop_front_diverges:
  assumes "dq_wf q" "dq_minCap q = 0" "2 \<le> length (dq_list q)"
    and "4 * (int (length (dq_list q)) - 1) \<le> dq_Cap q"
  shows "dq_IterPopFront (\<lambda>_. False) q = Diverge"
proof -
  obtain b h c m where q: "q = dq_mk b h c m" and ok: "dq_ok b h c m"
    using assms(1) by (rule dq_wfE)
  have c: "2 \<le> c" "m = 0" "4 * (c - 1) \<le> length b" using assms q by auto
  have "dq_drain_front c (\<lambda>_. False) (dq_mk b h c m) = obind (dq_take_front (dq_mk b h c m))
      (\<lambda>(ret, q). Ret ([ret], q))" using c by (cases c) auto
  moreover obtain b' h' where t: "dq_take_front (dq_mk b h c m) = Ret (hd (ring b h c), dq_mk b' h' (c - 1) m)"
    and "dq_ok b' h' (c - 1) m"
    by (rule dq_take_front_mk[OF ok]) (use c in auto)
  moreover have "length b' = length b"
  proof -
    have "dq_buf (dq_mk b' h' (c - 1) m) = b[h := 0]"
      using t c dq_okD(2)[OF ok] by (cases "b = []") (auto simp: dq_take_front_def get_at_def put_at_def split: if_splits dest: arg_cong[of _ _ dq_buf])
    then show ?thesis by simp
  qed
  moreover have "b \<noteq> []" using ok c by (auto simp: dq_ok_def)
  moreover have "int c * 4 - 4 \<le> int (length b)" using c by linarith
  ultimately show ?thesis using c dq_shl_until_zero[of "int c - 1"]
    by (simp add: dq_IterPopFront_def q dq_shrinkToFit_def of_nat_diff)
qed

theorem deque_iter_pop_front_diverges_witness:
  "dq_IterPopFront (\<lambda>_. False)
     \<lparr>dq_buf = [5, 6, 0, 0 :: int], dq_head = 0, dq_tail = 2, dq_count = 2, dq_minCap = 0\<rparr> = Diverge"
proof -
  have "is_pow2 (Suc (Suc (Suc (Suc 0))))" unfolding is_pow2_iff by (rule exI[of _ 2]) simp
  then show ?thesis
    by (intro deque_iter_pop_front_diverges)
       (simp_all add: dq_wf_def dq_ok_def dq_list_def ring_def dq_Cap_def)
qed

section \<open>The interface of the queue\<close>

text \<open>What a client that keeps a bounded queue of recently used items relies on.\<close>

locale recent_queue =
  fixes wf :: "'q \<Rightarrow> bool" and elems :: "'q \<Rightarrow> 'a list" and len :: "'q \<Rightarrow> int"
    and push_back :: "'a \<Rightarrow> 'q \<Rightarrow> 'q outcome"
    and pop_front pop_back :: "'q \<Rightarrow> ('a \<times> 'q) outcome"
  assumes len_elems: "wf q \<Longrightarrow> len q = int (length (elems q))"
    and push_back_elems:
      "wf q \<Longrightarrow> returns (push_back x q) (\<lambda>q'. wf q' \<and> elems q' = elems q @ [x])"
    and pop_front_elems:
      "wf q \<Longrightarrow> elems q \<noteq> [] \<Longrightarrow>
         returns (pop_front q) (\<lambda>(x, q'). x = hd (elems q) \<and> wf q' \<and> elems q' = tl (elems q))"
    and pop_back_elems:
      "wf q \<Longrightarrow> elems q \<noteq> [] \<Longrightarrow>
         returns (pop_back q) (\<lambda>(x, q'). x = last (elems q) \<and> wf q' \<and> elems q' = butlast (elems q))"
begin

text \<open>Pushing onto a queue that may hold \<open>k\<close> items evicts its oldest item.\<close>

lemma push_evicting:
  assumes "wf q" "0 < k"
  shows "returns (if k \<le> len q
      then obind (pop_front q) (\<lambda>(old, q). obind (push_back x q) (\<lambda>q. Ret ([old], q)))
      else obind (push_back x q) (\<lambda>q. Ret ([], q)))
    (\<lambda>(out, q'). wf q' \<and> out @ elems q' = elems q @ [x] \<and> len q' \<le> max (len q) k)"
proof (cases "k \<le> len q")
  case True
  then have ne: "elems q \<noteq> []" using assms len_elems[of q] by auto
  obtain q1 where q1: "pop_front q = Ret (hd (elems q), q1)" "wf q1" "elems q1 = tl (elems q)"
    using pop_front_elems[OF assms(1) ne] by (auto simp: returns_iff)
  obtain q2 where q2: "push_back x q1 = Ret q2" "wf q2" "elems q2 = tl (elems q) @ [x]"
    using push_back_elems[OF q1(2), of x] q1(3) by (auto simp: returns_iff)
  have "len q2 = len q" using ne len_elems[OF q2(2)] len_elems[OF assms(1)] q2(3)
    by (cases "elems q") simp_all
  moreover have "hd (elems q) # elems q2 = elems q @ [x]" using ne q2(3) by (cases "elems q") simp_all
  ultimately show ?thesis using True q1 q2 by simp
next
  case False
  obtain q1 where "push_back x q = Ret q1" "wf q1" "elems q1 = elems q @ [x]"
    using push_back_elems[OF assms(1), of x] by (auto simp: returns_iff)
  then show ?thesis using False len_elems[of q] len_elems[of q1] assms(1) by simp
qed

text \<open>What was pushed last comes out first at the back; what was pushed first, at the front.\<close>

lemma push_pop_back:
  assumes "wf q"
  shows "returns (obind (push_back x q) pop_back) (\<lambda>(y, q'). y = x \<and> wf q' \<and> elems q' = elems q)"
  unfolding returns_obind
  by (rule returns_mono[OF push_back_elems[OF assms]])
     (use pop_back_elems in \<open>fastforce simp: returns_iff\<close>)

lemma pop_front_push:
  assumes "wf q" "elems q \<noteq> []"
  shows "returns (obind (pop_front q) (\<lambda>(x, q). push_back x q))
    (\<lambda>q'. wf q' \<and> elems q' = rotate1 (elems q))"
  unfolding returns_obind
  by (rule returns_mono[OF pop_front_elems[OF assms]])
     (use push_back_elems assms(2) in \<open>fastforce simp: rotate1_hd_tl returns_iff\<close>)

end

interpretation dqi: recent_queue dq_wf dq_list dq_Len dq_PushBack dq_PopFront dq_PopBack
  by unfold_locales
     (simp_all add: dq_Len_def dq_count_length dq_PushBack_step dq_PopFront_step dq_PopBack_step)

end
