(* ===== verification/DotPool.thy ===== *)
theory DotPool
  imports DequeSpec "HOL-Library.Multiset"
begin

text \<open>
  The DNS-over-TLS client of \<open>dns/dot.go\<close>: a pool of at most eight idle connections kept in a
  deque, reused newest first, and the loop of \<open>ExchangeContext\<close> that retries on another
  connection only when an old one failed. Connections are natural numbers, 0 being \<open>nil\<close>.
  The network (context errors, dialling, the TLS handshake, one DNS exchange) is a record of
  functions that thread a state of the world; two fields of the client's state, \<open>dot_dialed\<close>
  and \<open>dot_closed\<close>, record which connections were opened and closed.
\<close>

section \<open>State and environment\<close>

definition maxOldDotConns :: int where
  "maxOldDotConns = 8"

record dot =
  dot_conns :: "nat deque"
  dot_disableReuse :: bool
  dot_dialed :: "nat list"
  dot_closed :: "nat list"

record ('w, 'm) dot_env =
  ctx_err :: "'w \<Rightarrow> string option \<times> 'w"
  tcp_dial :: "'w \<Rightarrow> (string + nat) \<times> 'w"
  tls_config :: "'w \<Rightarrow> string option \<times> 'w"
  tls_handshake :: "nat \<Rightarrow> 'w \<Rightarrow> string option \<times> 'w"
  dns_exchange :: "nat \<Rightarrow> 'w \<Rightarrow> (string + 'm) \<times> 'w"

definition newDoTClient :: "bool \<Rightarrow> dot outcome" where
  "newDoTClient disableReuse =
     obind (dq_SetBaseCap maxOldDotConns dq_zero) (\<lambda>q.
       Ret \<lparr>dot_conns = q, dot_disableReuse = disableReuse, dot_dialed = [], dot_closed = []\<rparr>)"

definition dot_close :: "nat \<Rightarrow> dot \<Rightarrow> dot" where
  "dot_close conn t = t\<lparr>dot_closed := dot_closed t @ [conn]\<rparr>"

section \<open>Operations\<close>

definition dot_dialContext ::
  "('w, 'm) dot_env \<Rightarrow> dot \<Rightarrow> 'w \<Rightarrow> (string + nat) \<times> dot \<times> 'w" where
  "dot_dialContext E t w =
     (case tcp_dial E w of
        (Inl e, w) \<Rightarrow> (Inl e, t, w)
      | (Inr conn, w) \<Rightarrow>
          let t = t\<lparr>dot_dialed := dot_dialed t @ [conn]\<rparr> in
          (case tls_config E w of
             (Some e, w) \<Rightarrow> (Inl e, dot_close conn t, w)
           | (None, w) \<Rightarrow>
               (case tls_handshake E conn w of
                  (Some e, w) \<Rightarrow> (Inl e, dot_close conn t, w)
                | (None, w) \<Rightarrow> (Inr conn, t, w))))"

text \<open>The locked section that takes the most recently used idle connection, 0 if there is none.\<close>

definition dot_take :: "dot \<Rightarrow> (nat \<times> dot) outcome" where
  "dot_take t =
     (if \<not> dot_disableReuse t \<and> dq_Len (dot_conns t) > 0
      then obind (dq_PopBack (dot_conns t)) (\<lambda>(c, q). Ret (c, t\<lparr>dot_conns := q\<rparr>))
      else Ret (0, t))"

text \<open>The locked section that keeps a connection, closing the oldest one when eight are kept.\<close>

definition dot_put :: "nat \<Rightarrow> dot \<Rightarrow> dot outcome" where
  "dot_put conn t =
     (if \<not> dot_disableReuse t then
        obind (if dq_Len (dot_conns t) \<ge> maxOldDotConns
               then obind (dq_PopFront (dot_conns t)) (\<lambda>(old, q).
                    obind (dq_PushBack conn q) (\<lambda>q. Ret ([old], q)))
               else obind (dq_PushBack conn (dot_conns t)) (\<lambda>q. Ret ([], q)))
          (\<lambda>(out, q). Ret (t\<lparr>dot_conns := q, dot_closed := dot_closed t @ out\<rparr>))
      else Ret (dot_close conn t))"

text \<open>The retry loop of \<open>ExchangeContext\<close>. The first argument bounds the iterations: running out
  of it is the value \<open>Diverge\<close>.\<close>

fun dot_loop ::
  "nat \<Rightarrow> ('w, 'm) dot_env \<Rightarrow> dot \<Rightarrow> 'w \<Rightarrow> ((string + 'm) \<times> dot \<times> 'w) outcome" where
  "dot_loop 0 E t w = Diverge"
| "dot_loop (Suc n) E t w =
     (case ctx_err E w of
        (Some e, w) \<Rightarrow> Ret (Inl e, t, w)
      | (None, w) \<Rightarrow>
          obind (dot_take t) (\<lambda>(c, t).
            let isOldConn = (c \<noteq> 0) in
            case (if c = 0 then dot_dialContext E t w else (Inr c, t, w)) of
              (Inl e, t, w) \<Rightarrow> Ret (Inl e, t, w)
            | (Inr conn, t, w) \<Rightarrow>
                (case dns_exchange E conn w of
                   (Inl e, w) \<Rightarrow>
                     (if isOldConn then dot_loop n E (dot_close conn t) w
                      else Ret (Inl e, dot_close conn t, w))
                 | (Inr msg, w) \<Rightarrow> obind (dot_put conn t) (\<lambda>t. Ret (Inr msg, t, w)))))"

definition dot_ExchangeContext ::
  "('w, 'm) dot_env \<Rightarrow> dot \<Rightarrow> 'w \<Rightarrow> ((string + 'm) \<times> dot \<times> 'w) outcome" where
  "dot_ExchangeContext E t w = dot_loop (nat (dq_Len (dot_conns t)) + 1) E t w"

text \<open>The loop of \<open>ResetConnection\<close>, which \<open>Close\<close> calls too.\<close>

fun dot_reset_loop :: "nat \<Rightarrow> dot \<Rightarrow> dot outcome" where
  "dot_reset_loop n t =
     (if dq_Len (dot_conns t) > 0
      then (case n of 0 \<Rightarrow> Diverge
            | Suc n \<Rightarrow> obind (dq_PopFront (dot_conns t)) (\<lambda>(old, q).
                dot_reset_loop n (dot_close old (t\<lparr>dot_conns := q\<rparr>))))
      else Ret t)"

definition dot_ResetConnection :: "dot \<Rightarrow> dot outcome" where
  "dot_ResetConnection t =
     (if \<not> dot_disableReuse t then dot_reset_loop (nat (dq_Len (dot_conns t))) t else Ret t)"

section \<open>Invariant\<close>

text \<open>The pool is well formed, holds at most eight connections and no \<open>nil\<close>, nothing when reuse
  is off; and every connection ever opened is either idle in the pool or closed, once.\<close>

definition dot_inv :: "dot \<Rightarrow> bool" where
  "dot_inv t \<longleftrightarrow> dq_wf (dot_conns t) \<and> dq_Len (dot_conns t) \<le> maxOldDotConns \<and>
     0 \<notin> set (dq_list (dot_conns t)) \<and> (dot_disableReuse t \<longrightarrow> dq_list (dot_conns t) = []) \<and>
     mset (dot_dialed t) = mset (dot_closed t) + mset (dq_list (dot_conns t))"

text \<open>The same, with the connections \<open>cs\<close> in the hands of a caller.\<close>

definition dot_inv_held :: "nat list \<Rightarrow> dot \<Rightarrow> bool" where
  "dot_inv_held cs t \<longleftrightarrow> dq_wf (dot_conns t) \<and> dq_Len (dot_conns t) \<le> maxOldDotConns \<and>
     0 \<notin> set (dq_list (dot_conns t)) \<and> (dot_disableReuse t \<longrightarrow> dq_list (dot_conns t) = []) \<and>
     mset (dot_dialed t) = mset (dot_closed t) + mset (dq_list (dot_conns t)) + mset cs"

lemma dot_inv_held_Nil: "dot_inv_held [] t = dot_inv t"
  by (simp add: dot_inv_held_def dot_inv_def)

lemma dot_close_held: "dot_inv_held (c # cs) t \<Longrightarrow> dot_inv_held cs (dot_close c t)"
  by (simp add: dot_inv_held_def dot_close_def)

lemma dot_close_conns [simp]: "dot_conns (dot_close c t) = dot_conns t"
  "dot_disableReuse (dot_close c t) = dot_disableReuse t"
  by (simp_all add: dot_close_def)

lemma newDoTClient_inv: "returns (newDoTClient b) dot_inv"
  using dq_SetBaseCap_step[of "dq_zero :: nat deque" maxOldDotConns]
  by (auto simp: newDoTClient_def returns_iff dot_inv_def dqi.len_elems maxOldDotConns_def)

lemma dot_take_inv:
  assumes "dot_inv t"
  shows "returns (dot_take t) (\<lambda>(c, t').
    if c = 0 then t' = t \<and> (dot_disableReuse t \<or> dq_list (dot_conns t) = [])
    else dot_inv_held [c] t' \<and> dq_Len (dot_conns t') = dq_Len (dot_conns t) - 1 \<and>
         dq_Len (dot_conns t) > 0 \<and> c = last (dq_list (dot_conns t)))"
proof (cases "\<not> dot_disableReuse t \<and> dq_Len (dot_conns t) > 0")
  case True
  have wf: "dq_wf (dot_conns t)" using assms by (simp add: dot_inv_def)
  have ne: "dq_list (dot_conns t) \<noteq> []" using True dqi.len_elems[OF wf] by auto
  obtain q where q: "dq_PopBack (dot_conns t) = Ret (last (dq_list (dot_conns t)), q)"
      "dq_wf q" "dq_list q = butlast (dq_list (dot_conns t))"
    using dqi.pop_back_elems[OF wf ne] by (auto simp: returns_iff)
  have split: "dq_list (dot_conns t) = dq_list q @ [last (dq_list (dot_conns t))]"
    using ne q(3) by simp
  have "last (dq_list (dot_conns t)) \<noteq> 0" using assms ne by (metis dot_inv_def last_in_set)
  moreover have "mset (dq_list (dot_conns t)) = add_mset (last (dq_list (dot_conns t))) (mset (dq_list q))"
    by (subst split) simp
  moreover have "set (dq_list q) \<subseteq> set (dq_list (dot_conns t))" by (subst split) auto
  moreover have "length (dq_list (dot_conns t)) = Suc (length (dq_list q))" by (subst split) simp
  ultimately show ?thesis using True q assms dqi.len_elems[OF wf] dqi.len_elems[OF q(2)]
    by (auto simp: dot_take_def dot_inv_held_def dot_inv_def)
next
  case False
  with assms have "dot_disableReuse t \<or> dq_list (dot_conns t) = []"
    by (auto simp: dot_inv_def dqi.len_elems)
  with False show ?thesis by (auto simp: dot_take_def)
qed

lemma dot_put_inv:
  assumes "dot_inv_held [c] t" "c \<noteq> 0"
  shows "returns (dot_put c t) dot_inv"
proof (cases "dot_disableReuse t")
  case True
  with dot_close_held[OF assms(1)] show ?thesis by (simp add: dot_put_def dot_inv_held_Nil)
next
  case False
  have wf: "dq_wf (dot_conns t)" using assms by (simp add: dot_inv_held_def)
  have "dot_inv (t\<lparr>dot_conns := q, dot_closed := dot_closed t @ out\<rparr>)"
    if q: "dq_wf q" "out @ dq_list q = dq_list (dot_conns t) @ [c]"
      "dq_Len q \<le> max (dq_Len (dot_conns t)) maxOldDotConns" for out q
  proof -
    have "mset out + mset (dq_list q) = mset (dq_list (dot_conns t)) + mset [c]"
      using arg_cong[OF q(2), of mset] by simp
    moreover have "set (dq_list q) \<subseteq> insert c (set (dq_list (dot_conns t)))"
      using arg_cong[OF q(2), of set] by auto
    ultimately show ?thesis using q assms False
      by (auto simp: dot_inv_def dot_inv_held_def ac_simps)
  qed
  with False dqi.push_evicting[OF wf, of maxOldDotConns c] show ?thesis
    by (auto simp: dot_put_def returns_iff maxOldDotConns_def)
qed

lemma dot_dialContext_inv:
  assumes "dot_inv t" "dot_dialContext E t w = (r, t', w')"
  shows "case r of Inl e \<Rightarrow> dot_inv t' | Inr c \<Rightarrow> dot_inv_held [c] t'"
  using assms
  by (auto simp: dot_dialContext_def dot_inv_def dot_inv_held_def dot_close_def Let_def
      split: prod.splits sum.splits option.splits)

text \<open>A dialler that reports success delivers a connection.\<close>

definition dials_conns :: "('w, 'm) dot_env \<Rightarrow> bool" where
  "dials_conns E \<longleftrightarrow> (\<forall>w. fst (tcp_dial E w) \<noteq> Inr 0)"

lemma dot_dialContext_conn:
  assumes "dials_conns E" "dot_dialContext E t w = (Inr c, t', w')"
  shows "c \<noteq> 0"
proof
  assume "c = 0"
  with assms(2) have "fst (tcp_dial E w) = Inr 0"
    by (auto simp: dot_dialContext_def Let_def split: prod.splits sum.splits option.splits)
  with assms(1) show False by (simp add: dials_conns_def)
qed

lemma dot_dialContext_dialed:
  "dot_dialContext E t w = (r, t', w') \<Longrightarrow> length (dot_dialed t') \<le> Suc (length (dot_dialed t))"
  by (auto simp: dot_dialContext_def dot_close_def Let_def
      split: prod.splits sum.splits option.splits)

lemma dot_take_dialed: "dot_take t = Ret (c, t') \<Longrightarrow> dot_dialed t' = dot_dialed t"
  by (auto simp: dot_take_def outcome_simps split: if_splits)

lemma dot_put_dialed: "dot_put c t = Ret t' \<Longrightarrow> dot_dialed t' = dot_dialed t"
  by (auto simp: dot_put_def dot_close_def outcome_simps split: if_splits)

text \<open>One request: it returns, keeps the invariant and opens at most one connection.\<close>

definition dot_after :: "dot \<Rightarrow> (string + 'm) \<times> dot \<times> 'w \<Rightarrow> bool" where
  "dot_after t = (\<lambda>(r, t', w'). dot_inv t' \<and> length (dot_dialed t') \<le> Suc (length (dot_dialed t)))"

lemma dot_put_after:
  assumes "dot_inv_held [c] t" "c \<noteq> 0" "length (dot_dialed t) \<le> Suc (length (dot_dialed t0))"
  shows "returns (obind (dot_put c t) (\<lambda>t. Ret (r, t, w))) (dot_after t0)"
  using dot_put_inv[OF assms(1,2)] assms(3) dot_put_dialed[of c t]
  by (auto simp: returns_iff dot_after_def)

lemma dot_loop_inv:
  assumes "dials_conns E" "dot_inv t" "nat (dq_Len (dot_conns t)) < n"
  shows "returns (dot_loop n E t w) (dot_after t)"
  using assms(2,3)
proof (induction n arbitrary: t w)
  case (Suc n)
  obtain e w1 where ce: "ctx_err E w = (e, w1)" by (cases "ctx_err E w")
  show ?case
  proof (cases e)
    case (Some m)
    with ce Suc.prems show ?thesis by (simp add: dot_after_def)
  next
    case None
    obtain c t1 where t1: "dot_take t = Ret (c, t1)"
      and new: "c = 0 \<Longrightarrow> t1 = t"
      and old: "c \<noteq> 0 \<Longrightarrow> dot_inv_held [c] t1 \<and> dq_Len (dot_conns t1) = dq_Len (dot_conns t) - 1 \<and>
           dq_Len (dot_conns t) > 0"
      using dot_take_inv[OF Suc.prems(1)] by (auto simp: returns_iff split: if_splits)
    show ?thesis
    proof (cases "c = 0")
      case True
      obtain r t2 w2 where d: "dot_dialContext E t w1 = (r, t2, w2)" by (cases "dot_dialContext E t w1")
      note inv = dot_dialContext_inv[OF Suc.prems(1) d] and len = dot_dialContext_dialed[OF d]
      show ?thesis
      proof (cases r)
        case (Inl m)
        with inv len True new t1 ce None d show ?thesis by (simp add: dot_after_def)
      next
        case (Inr conn)
        note c0 = dot_dialContext_conn[OF assms(1) d[unfolded Inr]]
        obtain x w3 where x: "dns_exchange E conn w2 = (x, w3)" by (cases "dns_exchange E conn w2")
        have held: "dot_inv_held [conn] t2" using inv Inr by simp
        have "dot_after t (Inl m, dot_close conn t2, w3)" for m :: string
          using dot_close_held[OF held] len by (simp add: dot_after_def dot_inv_held_Nil dot_close_def)
        with Inr held len True new t1 ce None d x dot_put_after[OF held c0 len] show ?thesis
          by (cases x) simp_all
      qed
    next
      case False
      obtain x w3 where x: "dns_exchange E c w1 = (x, w3)" by (cases "dns_exchange E c w1")
      have held: "dot_inv_held [c] t1" using old False by simp
      have dl: "dot_dialed t1 = dot_dialed t" using dot_take_dialed[OF t1] .
      have "returns (dot_loop n E (dot_close c t1) w3) (dot_after (dot_close c t1))"
      proof (rule Suc.IH)
        show "dot_inv (dot_close c t1)" using dot_close_held[OF held] by (simp add: dot_inv_held_Nil)
        show "nat (dq_Len (dot_conns (dot_close c t1))) < n" using old[OF False] Suc.prems(2) by auto
      qed
      then have "returns (dot_loop n E (dot_close c t1) w3) (dot_after t)"
        by (rule returns_mono) (use dl in \<open>auto simp: dot_after_def dot_close_def\<close>)
      with False t1 ce None x dot_put_after[OF held False, of t] dl show ?thesis
        by (cases x) simp_all
    qed
  qed
qed simp

lemma dot_reset_loop_inv:
  assumes "dot_inv t" "nat (dq_Len (dot_conns t)) \<le> n"
  shows "returns (dot_reset_loop n t) (\<lambda>t'. dot_inv t' \<and> dq_list (dot_conns t') = [] \<and>
           dot_disableReuse t' = dot_disableReuse t)"
  using assms
proof (induction n arbitrary: t)
  case 0
  then show ?case by (auto simp: dot_inv_def dqi.len_elems)
next
  case (Suc n)
  have wf: "dq_wf (dot_conns t)" using Suc.prems(1) by (simp add: dot_inv_def)
  show ?case
  proof (cases "dq_Len (dot_conns t) > 0")
    case True
    then have ne: "dq_list (dot_conns t) \<noteq> []" using dqi.len_elems[OF wf] by auto
    then obtain x xs where xs: "dq_list (dot_conns t) = x # xs" by (cases "dq_list (dot_conns t)") auto
    obtain q where q: "dq_PopFront (dot_conns t) = Ret (x, q)" "dq_wf q" "dq_list q = xs"
      using dqi.pop_front_elems[OF wf ne] xs by (auto simp: returns_iff)
    let ?t = "dot_close x (t\<lparr>dot_conns := q\<rparr>)"
    have "dot_inv ?t" using Suc.prems(1) q xs dqi.len_elems[OF wf] dqi.len_elems[OF q(2)]
      by (auto simp: dot_inv_def dot_close_def)
    moreover have "nat (dq_Len (dot_conns ?t)) \<le> n"
      using Suc.prems(2) q xs dqi.len_elems[OF wf] dqi.len_elems[OF q(2)] by simp
    ultimately show ?thesis using Suc.IH[of ?t] True q(1) by simp
  next
    case False
    with Suc.prems show ?thesis by (auto simp: dot_inv_def dqi.len_elems)
  qed
qed

section \<open>Sessions\<close>

datatype dot_op = Exchange | Reset

fun dot_run :: "('w, 'm) dot_env \<Rightarrow> dot_op list \<Rightarrow> dot \<Rightarrow> 'w \<Rightarrow> (dot \<times> 'w) outcome" where
  "dot_run E [] t w = Ret (t, w)"
| "dot_run E (Exchange # ops) t w =
     obind (dot_ExchangeContext E t w) (\<lambda>(r, t, w). dot_run E ops t w)"
| "dot_run E (Reset # ops) t w = obind (dot_ResetConnection t) (\<lambda>t. dot_run E ops t w)"

lemma dot_run_inv:
  assumes "dials_conns E" "dot_inv t"
  shows "returns (dot_run E ops t w) (\<lambda>(t', w'). dot_inv t')"
  using assms(2)
proof (induction ops arbitrary: t w)
  case (Cons op ops)
  show ?case
  proof (cases op)
    case Exchange
    have "returns (dot_ExchangeContext E t w) (dot_after t)"
      unfolding dot_ExchangeContext_def by (rule dot_loop_inv[OF assms(1) Cons.prems]) simp
    with Cons.IH Exchange show ?thesis by (auto simp: returns_iff dot_after_def)
  next
    case Reset
    have "returns (dot_ResetConnection t) dot_inv"
      using dot_reset_loop_inv[OF Cons.prems order.refl] Cons.prems
      by (auto simp: dot_ResetConnection_def returns_iff)
    with Cons.IH Reset show ?thesis by (auto simp: returns_iff)
  qed
qed simp

text \<open>
  C39. A DNS-over-TLS client leaks no connection: after any sequence of requests and resets, over
  a network that answers in any way, the call returns, at most eight connections are kept,
  none twice, and the connections opened so far are exactly those kept and those closed, each
  closed once.
\<close>

theorem dot_no_leak:
  assumes "dials_conns E"
  shows "returns (obind (newDoTClient disableReuse) (\<lambda>t. dot_run E ops t w))
    (\<lambda>(t', w'). length (dq_list (dot_conns t')) \<le> 8 \<and>
       mset (dot_dialed t') = mset (dot_closed t') + mset (dq_list (dot_conns t')))"
proof -
  have "returns (newDoTClient disableReuse) (\<lambda>t. returns (dot_run E ops t w) (\<lambda>(t', w'). dot_inv t'))"
    by (rule returns_mono[OF newDoTClient_inv dot_run_inv[OF assms]])
  then show ?thesis
    by (auto simp: returns_iff dot_inv_def dqi.len_elems maxOldDotConns_def)
qed

definition echo_env :: "(nat, nat) dot_env" where
  "echo_env = \<lparr>ctx_err = \<lambda>w. (None, w), tcp_dial = \<lambda>w. (Inr (Suc w), Suc w), tls_config = \<lambda>w. (None, w),
     tls_handshake = \<lambda>c w. (None, w), dns_exchange = \<lambda>c w. (Inr c, w)\<rparr>"

theorem dot_no_leak_witness:
  "returns (obind (newDoTClient False) (\<lambda>t. dot_run echo_env [Exchange, Exchange, Reset, Exchange] t 0))
    (\<lambda>(t', w'). length (dq_list (dot_conns t')) \<le> 8 \<and>
       mset (dot_dialed t') = mset (dot_closed t') + mset (dq_list (dot_conns t')))"
  by (rule dot_no_leak) (simp add: dials_conns_def echo_env_def)

text \<open>
  One request over the client's pool always ends, opens at most one connection, and leaves a
  pool that again satisfies the invariant: old connections that fail are closed and the next one
  is tried, a failing fresh connection ends the request.
\<close>

theorem dot_exchange_returns:
  assumes "dials_conns E" "dot_inv t"
  shows "returns (dot_ExchangeContext E t w)
    (\<lambda>(r, t', w'). dot_inv t' \<and> length (dot_dialed t') \<le> length (dot_dialed t) + 1)"
proof -
  have "returns (dot_ExchangeContext E t w) (dot_after t)"
    unfolding dot_ExchangeContext_def by (rule dot_loop_inv[OF assms]) simp
  then show ?thesis by (rule returns_mono) (auto simp: dot_after_def)
qed

theorem dot_exchange_returns_witness:
  "returns (dot_ExchangeContext echo_env
      \<lparr>dot_conns = dq_zero, dot_disableReuse = False, dot_dialed = [], dot_closed = []\<rparr> 0)
    (\<lambda>(r, t', w'). dot_inv t' \<and> length (dot_dialed t') \<le> 0 + 1)"
  using dot_exchange_returns[of echo_env
      "\<lparr>dot_conns = dq_zero, dot_disableReuse = False, dot_dialed = [], dot_closed = []\<rparr>" 0]
  by (simp add: dials_conns_def echo_env_def dot_inv_def dqi.len_elems maxOldDotConns_def)

end
