(* ===== verification/GoStrings.thy ===== *)
theory GoStrings
  imports Prelude "HOL-Library.Sublist"
begin

text \<open>
  The parts of Go's \<open>strings\<close> and \<open>strconv\<close> packages that the modelled code calls. A Go
  string is a list of bytes, which is what a HOL \<open>char list\<close> is. \<open>ToLower\<close> and \<open>ToUpper\<close> are
  given for ASCII: bytes from 128 on are left as they are.
\<close>

section \<open>Splitting and joining\<close>

text \<open>\<open>strings.Split\<close> and \<open>strings.Join\<close> for a separator of one byte.\<close>

fun go_split :: "'c \<Rightarrow> 'c list \<Rightarrow> 'c list list" where
  "go_split c [] = [[]]"
| "go_split c (x # xs) =
     (case go_split c xs of
        [] \<Rightarrow> []
      | p # ps \<Rightarrow> if x = c then [] # p # ps else (x # p) # ps)"

fun go_join :: "'c \<Rightarrow> 'c list list \<Rightarrow> 'c list" where
  "go_join c [] = []"
| "go_join c [s] = s"
| "go_join c (s # t # ts) = s @ c # go_join c (t # ts)"

lemma go_split_nonempty [simp]: "go_split c s \<noteq> []"
  by (induction s) (auto split: list.split)

lemma go_split_Cons [simp]:
  "go_split c (x # xs) =
     (if x = c then [] # go_split c xs
      else (x # hd (go_split c xs)) # tl (go_split c xs))"
  by (cases "go_split c xs") (use go_split_nonempty[of c xs] in auto)

declare go_split.simps(2) [simp del]

lemma go_split_pieces: "p \<in> set (go_split c s) \<Longrightarrow> c \<notin> set p"
proof (induction s arbitrary: p)
  case (Cons x xs)
  have "c \<notin> set (hd (go_split c xs))" using Cons.IH[of "hd (go_split c xs)"] by simp
  moreover have "set (tl (go_split c xs)) \<subseteq> set (go_split c xs)" by (cases "go_split c xs") auto
  ultimately show ?case using Cons by (auto split: if_splits)
qed simp

lemma go_split_notin [simp]: "c \<notin> set s \<Longrightarrow> go_split c s = [s]"
  by (induction s) auto

lemma go_split_append: "c \<notin> set p \<Longrightarrow> go_split c (p @ c # s) = p # go_split c s"
  by (induction p) auto

lemma go_split_join:
  assumes "ps \<noteq> []" "\<And>p. p \<in> set ps \<Longrightarrow> c \<notin> set p"
  shows "go_split c (go_join c ps) = ps"
  using assms by (induction c ps rule: go_join.induct) (auto simp: go_split_append)

lemma go_join_Cons: "ts \<noteq> [] \<Longrightarrow> go_join c (s # ts) = s @ c # go_join c ts"
  by (cases ts) auto

lemma go_join_split [simp]: "go_join c (go_split c s) = s"
proof (induction s)
  case (Cons x xs)
  obtain p ps where s: "go_split c xs = p # ps" by (cases "go_split c xs") auto
  have "go_join c ((x # p) # ps) = x # go_join c (p # ps)" by (cases ps) auto
  with Cons s show ?case by (auto simp: go_join_Cons)
qed simp

lemma go_join_set: "set (go_join c ps) \<subseteq> insert c (\<Union> (set ` set ps))"
  by (induction c ps rule: go_join.induct) auto

lemma length_go_split: "length (go_split c s) = Suc (count_list s c)"
proof (induction s)
  case (Cons x xs)
  then show ?case by (cases "go_split c xs") auto
qed simp

section \<open>Trimming\<close>

text \<open>\<open>strings.Trim\<close> with a cutset of ASCII bytes.\<close>

definition trim_set :: "char set \<Rightarrow> string \<Rightarrow> string" where
  "trim_set C s = rev (dropWhile (\<lambda>c. c \<in> C) (rev (dropWhile (\<lambda>c. c \<in> C) s)))"

text \<open>The UTF-8 encodings of the runes that \<open>unicode.IsSpace\<close> accepts; \<open>strings.TrimSpace\<close>
  removes them at both ends.\<close>

definition space_runes :: "string list" where
  "space_runes =
     [[CHR 0x09], [CHR 0x0A], [CHR 0x0B], [CHR 0x0C], [CHR 0x0D], [CHR 0x20],
      [CHR 0xC2, CHR 0x85], [CHR 0xC2, CHR 0xA0], [CHR 0xE1, CHR 0x9A, CHR 0x80],
      [CHR 0xE2, CHR 0x80, CHR 0x80], [CHR 0xE2, CHR 0x80, CHR 0x81], [CHR 0xE2, CHR 0x80, CHR 0x82],
      [CHR 0xE2, CHR 0x80, CHR 0x83], [CHR 0xE2, CHR 0x80, CHR 0x84], [CHR 0xE2, CHR 0x80, CHR 0x85],
      [CHR 0xE2, CHR 0x80, CHR 0x86], [CHR 0xE2, CHR 0x80, CHR 0x87], [CHR 0xE2, CHR 0x80, CHR 0x88],
      [CHR 0xE2, CHR 0x80, CHR 0x89], [CHR 0xE2, CHR 0x80, CHR 0x8A], [CHR 0xE2, CHR 0x80, CHR 0xA8],
      [CHR 0xE2, CHR 0x80, CHR 0xA9], [CHR 0xE2, CHR 0x80, CHR 0xAF], [CHR 0xE2, CHR 0x81, CHR 0x9F],
      [CHR 0xE3, CHR 0x80, CHR 0x80]]"

fun trim_prefixes :: "string list \<Rightarrow> nat \<Rightarrow> string \<Rightarrow> string" where
  "trim_prefixes ps 0 s = s"
| "trim_prefixes ps (Suc n) s =
     (case find (\<lambda>p. prefix p s) ps of
        None \<Rightarrow> s
      | Some p \<Rightarrow> trim_prefixes ps n (drop (length p) s))"

definition trim_left_space :: "string \<Rightarrow> string" where
  "trim_left_space s = trim_prefixes space_runes (length s) s"

definition trim_right_space :: "string \<Rightarrow> string" where
  "trim_right_space s = rev (trim_prefixes (map rev space_runes) (length s) (rev s))"

definition TrimSpace :: "string \<Rightarrow> string" where
  "TrimSpace s = trim_right_space (trim_left_space s)"

text \<open>A string that neither starts with a possible first byte of a space nor ends with a
  possible last byte of one is left alone.\<close>

definition plain_char :: "char \<Rightarrow> bool" where
  "plain_char c \<longleftrightarrow> 0x20 < (of_char c :: nat) \<and> (of_char c :: nat) < 0x80"

lemma space_runes_ends:
  "p \<in> set space_runes \<Longrightarrow> p \<noteq> [] \<and> \<not> plain_char (hd p) \<and> \<not> plain_char (last p)"
  by (auto simp: space_runes_def plain_char_def)

lemma trim_prefixes_id:
  assumes "\<And>p. p \<in> set ps \<Longrightarrow> \<not> prefix p s"
  shows "trim_prefixes ps n s = s"
proof (cases n)
  case (Suc m)
  have "find (\<lambda>p. prefix p s) ps = None" using assms by (auto simp: find_None_iff)
  with Suc show ?thesis by simp
qed simp

lemma TrimSpace_plain:
  assumes "s = [] \<or> plain_char (hd s) \<and> plain_char (last s)"
  shows "TrimSpace s = s"
proof -
  have "\<not> prefix p s" if p: "p \<in> set space_runes" for p
  proof
    assume "prefix p s"
    then have "hd p = hd s \<and> s \<noteq> []" using space_runes_ends[OF p]
      by (auto simp: prefix_def)
    with assms space_runes_ends[OF p] show False by auto
  qed
  then have "trim_left_space s = s" by (simp add: trim_left_space_def trim_prefixes_id)
  moreover have "\<not> prefix p (rev s)" if "p \<in> set (map rev space_runes)" for p
  proof
    assume pre: "prefix p (rev s)"
    from that obtain r where r: "r \<in> set space_runes" "p = rev r" by auto
    note e = space_runes_ends[OF r(1)]
    have "p \<noteq> []" using e r(2) by simp
    then obtain x xs where p: "p = x # xs" by (meson neq_Nil_conv)
    with pre obtain ys where s: "rev s = x # ys" by (cases "rev s") auto
    then have "last s = x" "s \<noteq> []" by (metis last_rev list.sel(1) rev_rev_ident, metis list.distinct(1) rev.simps(1))
    moreover have "last r = x" using r(2) p by (metis last_rev list.sel(1) rev_rev_ident)
    ultimately show False using e assms by auto
  qed
  then have "trim_prefixes (map rev space_runes) (length s) (rev s) = rev s"
    by (rule trim_prefixes_id)
  then have "trim_right_space s = s" by (simp add: trim_right_space_def)
  ultimately show ?thesis by (simp add: TrimSpace_def)
qed

lemma trim_set_id:
  assumes "s = [] \<or> hd s \<notin> C \<and> last s \<notin> C"
  shows "trim_set C s = s"
proof -
  have "dropWhile (\<lambda>c. c \<in> C) s = s" using assms by (cases s) auto
  moreover have "dropWhile (\<lambda>c. c \<in> C) (rev s) = rev s"
    using assms by (cases "rev s") (auto simp flip: hd_rev)
  ultimately show ?thesis by (simp add: trim_set_def)
qed

section \<open>Prefixes, suffixes, substrings, case\<close>

definition HasPrefix :: "string \<Rightarrow> string \<Rightarrow> bool" where
  "HasPrefix s p \<longleftrightarrow> take (length p) s = p"

definition HasSuffix :: "string \<Rightarrow> string \<Rightarrow> bool" where
  "HasSuffix s p \<longleftrightarrow> drop (length s - length p) s = p"

fun Contains :: "string \<Rightarrow> string \<Rightarrow> bool" where
  "Contains [] p = (p = [])"
| "Contains (x # xs) p = (HasPrefix (x # xs) p \<or> Contains xs p)"

lemma HasPrefix_iff: "HasPrefix s p \<longleftrightarrow> prefix p s"
  by (auto simp: HasPrefix_def prefix_def take_add intro!: exI[of _ "drop (length p) s"])
     (metis append_take_drop_id)

lemma HasSuffix_iff: "HasSuffix s p \<longleftrightarrow> suffix p s"
  by (auto simp: HasSuffix_def suffix_def) (metis append_take_drop_id)

lemma Contains_iff: "Contains s p \<longleftrightarrow> sublist p s"
proof (induction s)
  case (Cons x xs)
  then show ?case by (simp add: HasPrefix_iff sublist_Cons_right)
qed simp

definition lower_char :: "char \<Rightarrow> char" where
  "lower_char c = (let n = (of_char c :: nat) in
     if 65 \<le> n \<and> n \<le> 90 then char_of (n + 32) else c)"

definition upper_char :: "char \<Rightarrow> char" where
  "upper_char c = (let n = (of_char c :: nat) in
     if 97 \<le> n \<and> n \<le> 122 then char_of (n - 32) else c)"

definition ToLower :: "string \<Rightarrow> string" where
  "ToLower s = map lower_char s"

definition ToUpper :: "string \<Rightarrow> string" where
  "ToUpper s = map upper_char s"

lemma of_char_of_nat: "n < 256 \<Longrightarrow> of_char (char_of n :: char) = (n :: nat)"
  by simp

lemma lower_char_idem [simp]: "lower_char (lower_char c) = lower_char c"
  by (auto simp: lower_char_def Let_def)

lemma ToLower_idem [simp]: "ToLower (ToLower s) = ToLower s"
  by (simp add: ToLower_def)

section \<open>Decimal numbers\<close>

definition digit_char :: "nat \<Rightarrow> char" where
  "digit_char d = char_of (48 + d)"

definition digit_val :: "char \<Rightarrow> nat option" where
  "digit_val c = (let n = (of_char c :: nat) in if 48 \<le> n \<and> n \<le> 57 then Some (n - 48) else None)"

fun dec :: "nat \<Rightarrow> string" where
  "dec n = (if n < 10 then [digit_char n] else dec (n div 10) @ [digit_char (n mod 10)])"

declare dec.simps [simp del]

fun parse_digits :: "nat \<Rightarrow> string \<Rightarrow> nat option" where
  "parse_digits acc [] = Some acc"
| "parse_digits acc (c # cs) =
     (case digit_val c of None \<Rightarrow> None | Some d \<Rightarrow> parse_digits (acc * 10 + d) cs)"

text \<open>\<open>strconv.ParseUint(s, 10, 64)\<close> and \<open>strconv.ParseInt(s, 10, 64)\<close>; \<open>None\<close> is an error.\<close>

definition ParseUint :: "string \<Rightarrow> nat option" where
  "ParseUint s = (if s = [] then None
     else case parse_digits 0 s of
       None \<Rightarrow> None | Some n \<Rightarrow> if n < 2 ^ 64 then Some n else None)"

definition ParseInt :: "string \<Rightarrow> int option" where
  "ParseInt s =
     (case s of [] \<Rightarrow> None
      | c # cs \<Rightarrow>
          let neg = (c = CHR ''-'');
              body = (if c = CHR ''-'' \<or> c = CHR ''+'' then cs else s) in
          (case ParseUint body of
             None \<Rightarrow> None
           | Some n \<Rightarrow> if \<not> neg \<and> n < 2 ^ 63 then Some (int n)
                      else if neg \<and> n \<le> 2 ^ 63 then Some (- int n) else None))"

lemma digit_val_char [simp]: "d < 10 \<Longrightarrow> digit_val (digit_char d) = Some d"
  by (simp add: digit_val_def digit_char_def)

lemma digit_char_range:
  "d < 10 \<Longrightarrow> 48 \<le> (of_char (digit_char d) :: nat) \<and> (of_char (digit_char d) :: nat) \<le> 57"
  by (simp add: digit_char_def)

lemma parse_digits_append:
  "parse_digits acc (s @ t) =
     (case parse_digits acc s of None \<Rightarrow> None | Some a \<Rightarrow> parse_digits a t)"
  by (induction s arbitrary: acc) (auto split: option.splits)

lemma parse_digits_dec: "parse_digits 0 (dec n) = Some n"
proof (induction n rule: dec.induct)
  case (1 n)
  show ?case
  proof (cases "n < 10")
    case False
    then show ?thesis using 1[OF False] by (subst dec.simps) (simp add: parse_digits_append)
  qed (subst dec.simps, simp)
qed

lemma dec_nonempty [simp]: "dec n \<noteq> []"
  by (subst dec.simps) simp

lemma dec_digits: "c \<in> set (dec n) \<Longrightarrow> 48 \<le> (of_char c :: nat) \<and> (of_char c :: nat) \<le> 57"
proof (induction n rule: dec.induct)
  case (1 n)
  from "1.prems" show ?case
    by (subst (asm) dec.simps) (use "1.IH" digit_char_range in \<open>auto split: if_splits\<close>)
qed

lemma ParseUint_dec: "n < 2 ^ 64 \<Longrightarrow> ParseUint (dec n) = Some n"
  by (simp add: ParseUint_def parse_digits_dec)

lemma ParseUint_bound: "ParseUint s = Some n \<Longrightarrow> n < 2 ^ 64"
  by (auto simp: ParseUint_def split: option.splits if_splits)

end
