(* ===== verification/DomainTrie.thy ===== *)
theory DomainTrie
  imports GoStrings "HOL-Library.AList"
begin

text \<open>
  The domain trie of \<open>component/trie/domain.go\<close> and \<open>node.go\<close>: patterns such as
  \<open>www.example.com\<close>, \<open>*.example.com\<close>, \<open>.example.com\<close> and \<open>+.example.com\<close> stored label by label
  from the right, searched with the priority exact label, \<open>*\<close>, dot wildcard. A node keeps one
  child in two fields and only switches to a map for a second child. Nodes are values here: the
  code never shares one, and each is reached from one parent only. \<open>nd_data\<close> is the pair of
  the fields \<open>inited\<close> and \<open>data\<close>; a child map is an association list with distinct keys.
\<close>

section \<open>Domains\<close>

definition wildcard :: string where "wildcard = ''*''"
definition dotWildcard :: string where "dotWildcard = []"
definition complexWildcard :: string where "complexWildcard = ''+''"

definition starts_with_space :: "string \<Rightarrow> bool" where
  "starts_with_space s = list_ex (\<lambda>p. prefix p s) space_runes"

definition ends_with_space :: "string \<Rightarrow> bool" where
  "ends_with_space s = list_ex (\<lambda>p. suffix p s) space_runes"

fun placed_ok :: "nat \<Rightarrow> nat \<Rightarrow> string list \<Rightarrow> bool" where
  "placed_ok n i [] = True"
| "placed_ok n i (part # parts) =
     (if Contains part complexWildcard \<and> (part \<noteq> complexWildcard \<or> i \<noteq> 0 \<or> n = 1) then False
      else if Contains part wildcard \<and> part \<noteq> wildcard then False
      else placed_ok n (i + 1) parts)"

definition ValidAndSplitDomain :: "string \<Rightarrow> string list option" where
  "ValidAndSplitDomain domain =
     (if domain \<noteq> [] \<and> last domain = CHR ''.'' then None
      else if domain \<noteq> [] \<and> (starts_with_space domain \<or> ends_with_space domain) then None
      else let parts = go_split (CHR ''.'') (ToLower domain) in
        if length parts = 1 \<and> hd parts = [] then None
        else if length parts \<noteq> 1 \<and> list_ex (\<lambda>part. part = []) (tl parts) then None
        else if placed_ok (length parts) 0 parts then Some parts else None)"

section \<open>Nodes\<close>

datatype 'a node = Node
  (nd_childMap: "(string \<times> 'a node) list option")
  (nd_childNode: "'a node option")
  (nd_childStr: string)
  (nd_data: "'a option")

definition newNode :: "'a node" where
  "newNode = Node None None [] None"

definition nd_isEmpty :: "'a node option \<Rightarrow> bool" where
  "nd_isEmpty n = (case n of None \<Rightarrow> True | Some n \<Rightarrow> nd_data n = None)"

definition nd_getChild :: "string \<Rightarrow> 'a node \<Rightarrow> 'a node option" where
  "nd_getChild s n =
     (case nd_childMap n of
        None \<Rightarrow> (case nd_childNode n of
                   Some c \<Rightarrow> if nd_childStr n = s then Some c else None
                 | None \<Rightarrow> None)
      | Some m \<Rightarrow> map_of m s)"

definition nd_hasChild :: "string \<Rightarrow> 'a node \<Rightarrow> bool" where
  "nd_hasChild s n \<longleftrightarrow> nd_getChild s n \<noteq> None"

definition nd_addChild :: "string \<Rightarrow> 'a node \<Rightarrow> 'a node \<Rightarrow> 'a node" where
  "nd_addChild s child n =
     (case nd_childMap n of
        None \<Rightarrow> (case nd_childNode n of
                   None \<Rightarrow> Node None (Some child) s (nd_data n)
                 | Some c \<Rightarrow> Node (Some (AList.update s child [(nd_childStr n, c)])) None [] (nd_data n))
      | Some m \<Rightarrow> Node (Some (AList.update s child m)) (nd_childNode n) (nd_childStr n) (nd_data n))"

text \<open>What a change inside the child under \<open>s\<close> does to its parent, which holds a pointer to it.\<close>

definition nd_putChild :: "string \<Rightarrow> 'a node \<Rightarrow> 'a node \<Rightarrow> 'a node" where
  "nd_putChild s child n =
     (case nd_childMap n of
        None \<Rightarrow> Node None (Some child) (nd_childStr n) (nd_data n)
      | Some m \<Rightarrow> Node (Some (AList.update s child m)) (nd_childNode n) (nd_childStr n) (nd_data n))"

definition nd_getOrNewChild :: "string \<Rightarrow> 'a node \<Rightarrow> 'a node \<times> 'a node" where
  "nd_getOrNewChild s n =
     (case nd_getChild s n of
        Some c \<Rightarrow> (c, n)
      | None \<Rightarrow> (newNode, nd_addChild s newNode n))"

definition nd_setData :: "'a \<Rightarrow> 'a node \<Rightarrow> 'a node" where
  "nd_setData d n = Node (nd_childMap n) (nd_childNode n) (nd_childStr n) (Some d)"

definition nd_getChildren :: "'a node \<Rightarrow> (string \<times> 'a node) list" where
  "nd_getChildren n =
     (case nd_childMap n of
        None \<Rightarrow> (case nd_childNode n of Some c \<Rightarrow> [(nd_childStr n, c)] | None \<Rightarrow> [])
      | Some m \<Rightarrow> m)"

text \<open>\<open>strClone\<close> copies a string, which is the identity on values.\<close>

fun nd_optimize :: "'a node \<Rightarrow> 'a node" where
  "nd_optimize (Node cm cn cs d) =
     (let cn' = map_option nd_optimize cn in
      case cm of
        None \<Rightarrow> Node None cn' cs d
      | Some [] \<Rightarrow> Node None cn' cs d
      | Some [(key, c)] \<Rightarrow> Node None (Some (nd_optimize c)) key d
      | Some m \<Rightarrow> Node (Some (map (\<lambda>(key, c). (key, nd_optimize c)) m)) cn' cs d)"

section \<open>The trie\<close>

text \<open>\<open>insert\<close> walks the labels from the last to the first: the list is reversed already.\<close>

fun nd_insert :: "string list \<Rightarrow> 'a \<Rightarrow> 'a node \<Rightarrow> 'a node" where
  "nd_insert [] d n = nd_setData d n"
| "nd_insert (part # parts) d n =
     (let (c, n') = nd_getOrNewChild part n in nd_putChild part (nd_insert parts d c) n')"

definition dt_New :: "'a node" where
  "dt_New = newNode"

definition dt_Insert :: "string \<Rightarrow> 'a \<Rightarrow> 'a node \<Rightarrow> 'a node option" where
  "dt_Insert domain d t =
     (case ValidAndSplitDomain domain of
        None \<Rightarrow> None
      | Some parts \<Rightarrow>
          if hd parts = complexWildcard
          then Some (nd_insert (rev (dotWildcard # tl parts)) d (nd_insert (rev (tl parts)) d t))
          else Some (nd_insert (rev parts) d t))"

fun nd_search :: "string list \<Rightarrow> 'a node \<Rightarrow> 'a node option" where
  "nd_search [] n = Some n"
| "nd_search (part # parts) n =
     (let try = (\<lambda>s. case nd_getChild s n of None \<Rightarrow> None | Some c \<Rightarrow> nd_search parts c);
          static = try part in
      if \<not> nd_isEmpty static then static
      else let wild = try wildcard in
        if \<not> nd_isEmpty wild then wild else nd_getChild dotWildcard n)"

definition dt_Search :: "string \<Rightarrow> 'a node \<Rightarrow> 'a node option" where
  "dt_Search domain t =
     (case ValidAndSplitDomain domain of
        None \<Rightarrow> None
      | Some parts \<Rightarrow>
          if hd parts = [] then None
          else let n = nd_search (rev parts) t in if nd_isEmpty n then None else n)"

definition dt_Optimize :: "'a node \<Rightarrow> 'a node" where
  "dt_Optimize t = nd_optimize t"

definition dt_IsEmpty :: "'a node \<Rightarrow> bool" where
  "dt_IsEmpty t \<longleftrightarrow> length (nd_getChildren t) = 0"

text \<open>\<open>Foreach\<close>: the pairs handed to a callback that answers \<open>fn\<close>, in the order of the children,
  and whether it was never told to stop.\<close>

definition joinDomain :: "string list \<Rightarrow> string" where
  "joinDomain items = go_join (CHR ''.'') items"

definition dt_emit :: "string \<Rightarrow> string" where
  "dt_emit domain = (if hd domain = CHR ''.'' then complexWildcard @ domain else domain)"

lemma size_list_pair:
  "size_list (size_prod f g) xs \<ge> (\<Sum>(k, c)\<leftarrow>xs. Suc (g c))"
  by (induction xs) auto

lemma nd_getChildren_size: "(\<Sum>(k, c)\<leftarrow>nd_getChildren n. Suc (size c)) \<le> size n"
proof (cases n)
  case (Node cm cn cs d)
  show ?thesis
  proof (cases cm)
    case None
    with Node show ?thesis by (cases cn) (simp_all add: nd_getChildren_def)
  next
    case (Some m)
    have "(\<Sum>(k, c)\<leftarrow>m. Suc (size c)) \<le> size_list (size_prod (\<lambda>x. 0) size) m"
      by (rule size_list_pair)
    with Node Some show ?thesis by (simp add: nd_getChildren_def)
  qed
qed

function dt_recursion ::
  "(string \<Rightarrow> 'a \<Rightarrow> bool) \<Rightarrow> string list \<Rightarrow> (string \<times> 'a node) list \<Rightarrow> (string \<times> 'a) list \<times> bool" where
  "dt_recursion fn items [] = ([], True)"
| "dt_recursion fn items ((key, c) # rest) =
     (let newItems = key # items;
          here = (case nd_data c of None \<Rightarrow> [] | Some x \<Rightarrow> [(dt_emit (joinDomain newItems), x)]) in
      if \<not> list_all (\<lambda>(k, x). fn k x) here then (here, False)
      else let (out, go) = dt_recursion fn newItems (nd_getChildren c) in
        if \<not> go then (here @ out, False)
        else let (out', go') = dt_recursion fn items rest in (here @ out @ out', go'))"
  by pat_completeness auto
termination
proof (relation "measure (\<lambda>(fn, items, kcs). \<Sum>(k, c)\<leftarrow>kcs. Suc (size c))", goal_cases)
  case (2 fn items key c rest)
  show ?case using nd_getChildren_size[of c] by simp
next
  case 3
  then show ?case by simp
qed simp

definition dt_Foreach :: "(string \<Rightarrow> 'a \<Rightarrow> bool) \<Rightarrow> 'a node \<Rightarrow> (string \<times> 'a) list" where
  "dt_Foreach fn t =
     fst (foldr (\<lambda>(key, c) rest.
        let below = fst (dt_recursion fn [key] (nd_getChildren c));
            here = (case nd_data c of None \<Rightarrow> [] | Some x \<Rightarrow> [(joinDomain [key], x)]) in
        if list_all (\<lambda>(k, x). fn k x) here then (below @ here @ fst rest, snd rest)
        else (below @ here, False))
      (nd_getChildren t) ([], True))"

section \<open>Nodes as maps\<close>

text \<open>What a node stores under the path of labels \<open>ps\<close> below it.\<close>

fun nd_get :: "'a node \<Rightarrow> string list \<Rightarrow> 'a option" where
  "nd_get n [] = nd_data n"
| "nd_get n (p # ps) = (case nd_getChild p n of None \<Rightarrow> None | Some c \<Rightarrow> nd_get c ps)"

text \<open>A node uses one of its two representations, and the keys of a child map differ.\<close>

fun nd_wf :: "'a node \<Rightarrow> bool" where
  "nd_wf (Node cm cn cs d) =
     ((case cm of None \<Rightarrow> True
       | Some m \<Rightarrow> cn = None \<and> distinct (map fst m) \<and> list_all (\<lambda>(k, c). nd_wf c) m) \<and>
      (case cn of None \<Rightarrow> True | Some c \<Rightarrow> nd_wf c))"

lemma newNode_wf [simp]: "nd_wf newNode"
  by (simp add: newNode_def)

lemma newNode_get [simp]: "nd_get newNode ps = None"
  by (cases ps) (simp_all add: newNode_def nd_getChild_def)

lemma newNode_child [simp]: "nd_getChild s newNode = None"
  by (simp add: newNode_def nd_getChild_def)

lemma nd_getChild_wf: "nd_wf n \<Longrightarrow> nd_getChild s n = Some c \<Longrightarrow> nd_wf c"
proof -
  assume wf: "nd_wf n" and c: "nd_getChild s n = Some c"
  obtain cm cn cs d where n: "n = Node cm cn cs d" by (cases n)
  show "nd_wf c"
  proof (cases cm)
    case None
    with wf c n show ?thesis by (cases cn) (simp_all add: nd_getChild_def split: if_splits)
  next
    case (Some m)
    then have "(s, c) \<in> set m" "list_all (\<lambda>(k, c). nd_wf c) m"
      using wf c n by (auto simp: nd_getChild_def dest: map_of_SomeD)
    then show ?thesis by (auto simp: list_all_iff)
  qed
qed

lemma nd_setData_simps [simp]:
  "nd_data (nd_setData d n) = Some d" "nd_getChild s (nd_setData d n) = nd_getChild s n"
  by (simp_all add: nd_setData_def nd_getChild_def split: option.split)

lemma nd_setData_wf [simp]: "nd_wf (nd_setData d n) = nd_wf n"
  by (cases n) (simp add: nd_setData_def)

lemma update_wf:
  "distinct (map fst m) \<Longrightarrow> list_all (\<lambda>(k, c). P c) m \<Longrightarrow> P c \<Longrightarrow>
     distinct (map fst (AList.update s c m)) \<and> list_all (\<lambda>(k, c). P c) (AList.update s c m)"
proof (rule conjI)
  assume "list_all (\<lambda>(k, c). P c) m" "P c"
  then show "list_all (\<lambda>(k, c). P c) (AList.update s c m)" by (induction m) auto
qed (rule distinct_update)

text \<open>Storing a child under \<open>s\<close>: the step that \<open>insert\<close> takes at every label.\<close>

definition nd_store :: "string \<Rightarrow> 'a node \<Rightarrow> 'a node \<Rightarrow> 'a node" where
  "nd_store s c n = nd_putChild s c (snd (nd_getOrNewChild s n))"

lemma nd_store_simps:
  assumes "nd_wf n"
  shows "nd_data (nd_store s c n) = nd_data n"
    and "nd_getChild s' (nd_store s c n) = (if s' = s then Some c else nd_getChild s' n)"
    and "nd_wf c \<Longrightarrow> nd_wf (nd_store s c n)"
proof -
  obtain cm cn cs d where n: "n = Node cm cn cs d" by (cases n)
  have "nd_data (nd_store s c n) = nd_data n \<and>
     nd_getChild s' (nd_store s c n) = (if s' = s then Some c else nd_getChild s' n) \<and>
     (nd_wf c \<longrightarrow> nd_wf (nd_store s c n))"
  proof (cases cm)
    case None
    then show ?thesis using assms n
      by (cases cn) (auto simp: nd_store_def nd_getOrNewChild_def nd_putChild_def nd_addChild_def
        nd_getChild_def)
  next
    case (Some m)
    then show ?thesis using assms n update_wf[of m nd_wf c s] update_wf[of m nd_wf newNode s]
      by (auto simp: nd_store_def nd_getOrNewChild_def nd_putChild_def nd_addChild_def
        nd_getChild_def update_conv' distinct_update update_wf split: option.splits)
  qed
  then show "nd_data (nd_store s c n) = nd_data n"
    "nd_getChild s' (nd_store s c n) = (if s' = s then Some c else nd_getChild s' n)"
    "nd_wf c \<Longrightarrow> nd_wf (nd_store s c n)" by blast+
qed

lemma nd_insert_Cons:
  "nd_insert (p # ps) d n =
     nd_store p (nd_insert ps d (case nd_getChild p n of None \<Rightarrow> newNode | Some c \<Rightarrow> c)) n"
  by (simp add: nd_store_def nd_getOrNewChild_def case_prod_beta split: option.split)

lemma nd_insert_get:
  assumes "nd_wf n"
  shows "nd_wf (nd_insert ps d n) \<and> nd_get (nd_insert ps d n) qs = (if qs = ps then Some d else nd_get n qs)"
  using assms
proof (induction ps arbitrary: n qs)
  case Nil
  then show ?case by (cases qs) simp_all
next
  case (Cons p ps)
  let ?c = "case nd_getChild p n of None \<Rightarrow> newNode | Some c \<Rightarrow> c"
  have c: "nd_wf ?c" using nd_getChild_wf[OF Cons.prems] by (simp split: option.split)
  have g: "nd_get ?c qs' = nd_get n (p # qs')" for qs' by (simp split: option.split)
  have "nd_get (nd_insert (p # ps) d n) qs = (if qs = p # ps then Some d else nd_get n qs)"
  proof (cases qs)
    case Nil
    then show ?thesis using nd_store_simps(1)[OF Cons.prems]
      by (simp add: nd_insert_Cons del: nd_insert.simps)
  next
    case (Cons q qs')
    then show ?thesis using nd_store_simps(2)[OF Cons.prems] Cons.IH[OF c, of qs'] g[of qs']
      by (auto simp add: nd_insert_Cons simp del: nd_insert.simps)
  qed
  moreover have "nd_wf (nd_insert (p # ps) d n)"
    using nd_store_simps(3)[OF Cons.prems] Cons.IH[OF c]
    by (simp add: nd_insert_Cons del: nd_insert.simps)
  ultimately show ?case by blast
qed

section \<open>Optimising\<close>

lemma map_of_second: "map_of (map (\<lambda>(k, c). (k, f c)) m) s = map_option f (map_of m s)"
  by (induction m) auto

lemma nd_optimize_many:
  "nd_optimize (Node (Some (x # y # m)) cn cs d) =
     Node (Some (map (\<lambda>(k, c). (k, nd_optimize c)) (x # y # m))) (map_option nd_optimize cn) cs d"
  by (cases x) (simp add: Let_def)

declare nd_optimize.simps [simp del]

lemma nd_optimize_wf_get:
  "nd_wf n \<Longrightarrow> nd_wf (nd_optimize n) \<and> nd_data (nd_optimize n) = nd_data n \<and>
     (\<forall>s. nd_getChild s (nd_optimize n) = map_option nd_optimize (nd_getChild s n))"
proof (induction "size n" arbitrary: n rule: less_induct)
  case less
  obtain cm cn cs d where n: "n = Node cm cn cs d" by (cases n)
  have sub: "nd_wf (nd_optimize c)" if "(k, c) \<in> set (nd_getChildren n)" "nd_wf c" for k c
  proof -
    have "Suc (size c) \<le> (\<Sum>(k, c)\<leftarrow>nd_getChildren n. Suc (size c))"
      using that(1) by (intro member_le_sum_list) (auto simp: image_iff intro!: bexI[of _ "(k, c)"])
    then show ?thesis using less.hyps[of c] that(2) nd_getChildren_size[of n] by simp
  qed
  have wf: "nd_wf (Node cm cn cs d)" using less.prems n by simp
  consider c where "cm = None" "cn = Some c" | "cm = None" "cn = None" | "cm = Some []"
    | k c where "cm = Some [(k, c)]" | x y m where "cm = Some (x # y # m)"
    by (cases cm; cases cn) (auto, (metis list.exhaust surj_pair)+)
  then show ?case
  proof cases
    case 1
    with sub[of cs c] wf n show ?thesis
      by (simp add: nd_optimize.simps nd_getChild_def nd_getChildren_def)
  next
    case 2
    with n show ?thesis by (simp add: nd_optimize.simps nd_getChild_def)
  next
    case 3
    with wf n show ?thesis by (simp add: nd_optimize.simps nd_getChild_def)
  next
    case 4
    with sub[of k c] wf n show ?thesis
      by (simp add: nd_optimize.simps nd_getChild_def nd_getChildren_def)
  next
    case 5
    let ?m = "x # y # m"
    have w: "cn = None" "distinct (map fst ?m)" "list_all (\<lambda>(k, c). nd_wf c) ?m"
      using wf 5 by simp_all
    have fst: "map fst (map (\<lambda>(k, c). (k, nd_optimize c)) ?m) = map fst ?m" by (auto simp: case_prod_beta)
    have kids: "nd_getChildren n = ?m" using n 5 by (simp add: nd_getChildren_def)
    have "nd_wf (nd_optimize c)" if "(k, c) \<in> set ?m" for k c
    proof (rule sub)
      show "(k, c) \<in> set (nd_getChildren n)" unfolding kids by (rule that)
      show "nd_wf c" using w(3) that unfolding list_all_iff by (auto dest: bspec)
    qed
    then have all: "list_all (\<lambda>(k, c). nd_wf c) (map (\<lambda>(k, c). (k, nd_optimize c)) ?m)"
      unfolding list_all_iff set_map by (auto simp del: list.set)
    have opt: "nd_optimize n = Node (Some (map (\<lambda>(k, c). (k, nd_optimize c)) ?m)) None cs d"
      unfolding n 5 w(1) nd_optimize_many by simp
    have "nd_wf (nd_optimize n)"
      unfolding opt nd_wf.simps option.case fst using w(2) all by simp
    moreover have "nd_getChild s (nd_optimize n) = map_option nd_optimize (nd_getChild s n)" for s
      unfolding opt unfolding n 5 nd_getChild_def node.sel option.case by (rule map_of_second)
    moreover have "nd_data (nd_optimize n) = nd_data n" unfolding opt by (simp add: n)
    ultimately show ?thesis by blast
  qed
qed

lemma nd_optimize_get: "nd_wf n \<Longrightarrow> nd_get (nd_optimize n) ps = nd_get n ps"
proof (induction ps arbitrary: n)
  case (Cons p ps)
  then show ?case using nd_optimize_wf_get[OF Cons.prems] nd_getChild_wf[OF Cons.prems]
    by (auto split: option.split)
next
  case Nil
  with nd_optimize_wf_get[OF Nil] show ?case by simp
qed

section \<open>What a search finds\<close>

text \<open>A stored pattern against the labels of a domain, both from the right. An empty last label is
  the dot wildcard, which stands for one or more labels.\<close>

fun dom_match :: "string list \<Rightarrow> string list \<Rightarrow> bool" where
  "dom_match [] ds = (ds = [])"
| "dom_match (q # qs) [] = False"
| "dom_match (q # qs) (d # ds) =
     (((q = d \<or> q = wildcard) \<and> dom_match qs ds) \<or> (q = dotWildcard \<and> qs = []))"

text \<open>The priority of the documentation, label by label from the right: the same label, then
  \<open>*\<close>, then the dot wildcard.\<close>

definition label_rank :: "string \<Rightarrow> string \<Rightarrow> nat" where
  "label_rank d q = (if q = d then 0 else if q = wildcard then 1 else 2)"

fun at_least :: "string list \<Rightarrow> string list \<Rightarrow> string list \<Rightarrow> bool" where
  "at_least (d # ds) (q # qs) (r # rs) =
     (label_rank d q < label_rank d r \<or> (label_rank d q = label_rank d r \<and> at_least ds qs rs))"
| "at_least ds qs rs = True"

text \<open>The search on a map from patterns to data.\<close>

fun best :: "(string list \<Rightarrow> 'a option) \<Rightarrow> string list \<Rightarrow> 'a option" where
  "best M [] = M []"
| "best M (d # ds) =
     (case best (\<lambda>q. M (d # q)) ds of
        Some x \<Rightarrow> Some x
      | None \<Rightarrow> (case best (\<lambda>q. M (wildcard # q)) ds of
                  Some x \<Rightarrow> Some x | None \<Rightarrow> M [dotWildcard]))"

lemma best_empty [simp]: "best (\<lambda>q. None) ds = None"
  by (induction ds) simp_all

definition data_of :: "'a node option \<Rightarrow> 'a option" where
  "data_of n = (case n of None \<Rightarrow> None | Some n \<Rightarrow> nd_data n)"

lemma isEmpty_data: "nd_isEmpty n \<longleftrightarrow> data_of n = None"
  by (simp add: nd_isEmpty_def data_of_def split: option.split)

lemma search_best: "data_of (nd_search ds n) = best (nd_get n) ds"
proof (induction ds arbitrary: n)
  case Nil
  then show ?case by (simp add: data_of_def)
next
  case (Cons d ds)
  have step: "data_of (case nd_getChild s n of None \<Rightarrow> None | Some c \<Rightarrow> nd_search ds c)
      = best (\<lambda>q. nd_get n (s # q)) ds" for s
    using Cons.IH by (cases "nd_getChild s n") (simp_all add: data_of_def)
  have dot: "data_of (nd_getChild dotWildcard n) = nd_get n [dotWildcard]"
    by (simp add: data_of_def split: option.split)
  show ?case
    unfolding nd_search.simps Let_def isEmpty_data best.simps
    using step[of d] step[of wildcard] dot by (simp split: option.split)
qed

text \<open>A domain that is searched has no empty label.\<close>

lemma best_None:
  assumes "[] \<notin> set ds"
  shows "best M ds = None \<longleftrightarrow> (\<forall>q. dom_match q ds \<longrightarrow> M q = None)"
  using assms
proof (induction ds arbitrary: M)
  case Nil
  show ?case by (metis best.simps(1) dom_match.elims(2) dom_match.simps(1) list.distinct(1))
next
  case (Cons d ds)
  have "(\<forall>q. dom_match q (d # ds) \<longrightarrow> M q = None) \<longleftrightarrow>
     (\<forall>q. dom_match q ds \<longrightarrow> M (d # q) = None) \<and>
     (\<forall>q. dom_match q ds \<longrightarrow> M (wildcard # q) = None) \<and> M [dotWildcard] = None" (is "?l = ?r")
  proof
    show "?l \<Longrightarrow> ?r" by auto
    assume r: ?r
    show ?l
    proof (intro allI impI)
      fix q assume "dom_match q (d # ds)"
      with r show "M q = None" by (cases q) auto
    qed
  qed
  moreover have "best M (d # ds) = None \<longleftrightarrow> best (\<lambda>q. M (d # q)) ds = None \<and>
      best (\<lambda>q. M (wildcard # q)) ds = None \<and> M [dotWildcard] = None"
    by (auto split: option.splits)
  ultimately show ?case using Cons.IH Cons.prems by simp
qed

lemma best_Some:
  assumes "[] \<notin> set ds" "best M ds = Some x"
  shows "\<exists>q. dom_match q ds \<and> M q = Some x \<and>
     (\<forall>r. dom_match r ds \<and> M r \<noteq> None \<longrightarrow> at_least ds q r)"
  using assms
proof (induction ds arbitrary: M)
  case Nil
  then show ?case by (intro exI[of _ "[]"]) simp
next
  case (Cons d ds)
  have ds: "[] \<notin> set ds" "d \<noteq> []" using Cons.prems by auto
  consider "best (\<lambda>q. M (d # q)) ds = Some x"
    | "best (\<lambda>q. M (d # q)) ds = None" "best (\<lambda>q. M (wildcard # q)) ds = Some x"
    | "best (\<lambda>q. M (d # q)) ds = None" "best (\<lambda>q. M (wildcard # q)) ds = None" "M [dotWildcard] = Some x"
    using Cons.prems(2) by (auto split: option.splits)
  then show ?case
  proof cases
    case 1
    from Cons.IH[OF ds(1) 1] obtain q where q: "dom_match q ds" "M (d # q) = Some x"
      "\<forall>r. dom_match r ds \<and> M (d # r) \<noteq> None \<longrightarrow> at_least ds q r" by blast
    have "at_least (d # ds) (d # q) r" if r: "dom_match r (d # ds)" "M r \<noteq> None" for r
      using q(3) r ds(2) by (cases r) (auto simp: label_rank_def dotWildcard_def)
    with q show ?thesis by (intro exI[of _ "d # q"]) auto
  next
    case 2
    from Cons.IH[OF ds(1) 2(2)] obtain q where q: "dom_match q ds" "M (wildcard # q) = Some x"
      "\<forall>r. dom_match r ds \<and> M (wildcard # r) \<noteq> None \<longrightarrow> at_least ds q r" by blast
    have none: "M (d # r) = None" if "dom_match r ds" for r
      using 2(1) that unfolding best_None[OF ds(1)] by blast
    have "at_least (d # ds) (wildcard # q) r" if r: "dom_match r (d # ds)" "M r \<noteq> None" for r
      using q(3) r ds(2) none by (cases r) (auto simp: label_rank_def dotWildcard_def)
    with q show ?thesis by (intro exI[of _ "wildcard # q"]) auto
  next
    case 3
    have none: "M (d # r) = None" "M (wildcard # r) = None" if "dom_match r ds" for r
      using 3(1,2) that unfolding best_None[OF ds(1)] by blast+
    have "at_least (d # ds) [dotWildcard] r" if r: "dom_match r (d # ds)" "M r \<noteq> None" for r
      using r none by (cases r) auto
    with 3 show ?thesis by (intro exI[of _ "[dotWildcard]"]) auto
  qed
qed

section \<open>Insertion and search together\<close>

text \<open>The patterns that a sequence of insertions stands for, a later one replacing an earlier one;
  \<open>+.example.com\<close> is both \<open>example.com\<close> and \<open>.example.com\<close>.\<close>

definition add_pattern :: "string \<Rightarrow> 'a \<Rightarrow> (string list \<Rightarrow> 'a option) \<Rightarrow> string list \<Rightarrow> 'a option" where
  "add_pattern domain x M =
     (case ValidAndSplitDomain domain of
        None \<Rightarrow> M
      | Some parts \<Rightarrow>
          if hd parts = complexWildcard
          then M(rev (tl parts) := Some x, rev (dotWildcard # tl parts) := Some x)
          else M(rev parts := Some x))"

definition patterns :: "(string \<times> 'a) list \<Rightarrow> string list \<Rightarrow> 'a option" where
  "patterns kvs = fold (\<lambda>(k, x). add_pattern k x) kvs (\<lambda>q. None)"

definition dt_build :: "(string \<times> 'a) list \<Rightarrow> 'a node" where
  "dt_build kvs = fold (\<lambda>(k, x) t. case dt_Insert k x t of None \<Rightarrow> t | Some t' \<Rightarrow> t') kvs dt_New"

lemma dt_Insert_get:
  assumes "nd_wf t"
  shows "nd_wf (case dt_Insert k x t of None \<Rightarrow> t | Some t' \<Rightarrow> t') \<and>
    nd_get (case dt_Insert k x t of None \<Rightarrow> t | Some t' \<Rightarrow> t') = add_pattern k x (nd_get t)"
proof -
  have up: "nd_get (nd_insert ps d n) = (nd_get n)(ps := Some d)" "nd_wf (nd_insert ps d n)"
    if "nd_wf n" for ps d and n :: "'a node"
    using nd_insert_get[OF that] by (auto simp: fun_eq_iff)
  show ?thesis
    using up[OF assms] up(1)[OF up(2)[OF assms]] up(2)[OF up(2)[OF assms]] assms
    by (simp add: dt_Insert_def add_pattern_def split: option.split)
qed

lemma dt_build_get: "nd_wf (dt_build kvs) \<and> nd_get (dt_build kvs) = patterns kvs"
proof -
  have "nd_wf (fold (\<lambda>(k, x) t. case dt_Insert k x t of None \<Rightarrow> t | Some t' \<Rightarrow> t') kvs t) \<and>
     nd_get (fold (\<lambda>(k, x) t. case dt_Insert k x t of None \<Rightarrow> t | Some t' \<Rightarrow> t') kvs t)
       = fold (\<lambda>(k, x). add_pattern k x) kvs (nd_get t)" if "nd_wf t" for t :: "'a node"
    using that
  proof (induction kvs arbitrary: t)
    case (Cons kv kvs)
    obtain k x where kv: "kv = (k, x)" by (cases kv)
    from dt_Insert_get[OF Cons.prems, of k x] Cons.IH show ?case by (simp add: kv)
  qed simp
  from this[of dt_New] show ?thesis
    by (simp add: dt_build_def patterns_def dt_New_def newNode_get[abs_def])
qed

lemma valid_labels:
  assumes "ValidAndSplitDomain s = Some parts" "hd parts \<noteq> []"
  shows "[] \<notin> set (rev parts)"
proof -
  let ?p = "go_split (CHR ''.'') (ToLower s)"
  have p: "parts = ?p" "\<not> (length ?p \<noteq> 1 \<and> list_ex (\<lambda>part. part = []) (tl ?p))"
    using assms(1) by (auto simp: ValidAndSplitDomain_def Let_def split: if_splits)
  obtain h t where ht: "?p = h # t" by (cases ?p) auto
  then have "[] \<notin> set t" using p(2) by (auto simp: list_ex_iff)
  with ht assms(2) p(1) show ?thesis by auto
qed

definition dt_lookup :: "string \<Rightarrow> 'a node \<Rightarrow> 'a option" where
  "dt_lookup domain t = data_of (dt_Search domain t)"

lemma dt_lookup_best:
  "dt_lookup domain t =
     (case ValidAndSplitDomain domain of
        None \<Rightarrow> None
      | Some parts \<Rightarrow> if hd parts = [] then None else best (nd_get t) (rev parts))"
proof -
  have "data_of (if data_of n = None then None else n) = data_of n" for n :: "'a node option"
    by (simp add: data_of_def split: option.split)
  then show ?thesis
    by (simp add: dt_lookup_def dt_Search_def Let_def isEmpty_data search_best[symmetric]
      data_of_def[of None] split: option.split)
qed

text \<open>
  C11. After any insertions into an empty trie, a search fails only for a domain that is malformed or
  that no inserted pattern matches; otherwise it answers the data of a matching pattern that,
  label by label from the right, no other matching pattern beats in the documented priority.
\<close>

theorem trie_search_best:
  assumes "ValidAndSplitDomain domain = Some parts" "hd parts \<noteq> []"
  shows "(case dt_lookup domain (dt_build kvs) of
      None \<Rightarrow> \<forall>q. dom_match q (rev parts) \<longrightarrow> patterns kvs q = None
    | Some x \<Rightarrow> \<exists>q. dom_match q (rev parts) \<and> patterns kvs q = Some x \<and>
        (\<forall>r. dom_match r (rev parts) \<and> patterns kvs r \<noteq> None \<longrightarrow> at_least (rev parts) q r))"
proof -
  have "dt_lookup domain (dt_build kvs) = best (patterns kvs) (rev parts)"
    using assms dt_build_get[of kvs] by (simp add: dt_lookup_best)
  then show ?thesis
    using best_None[OF valid_labels[OF assms], of "patterns kvs"]
      best_Some[OF valid_labels[OF assms], of "patterns kvs"] by (simp split: option.split)
qed

theorem trie_search_best_witness:
  "case dt_lookup ''a.b'' (dt_build [(''+.b'', 1 :: nat), (''*.b'', 2)]) of
      None \<Rightarrow> \<forall>q. dom_match q (rev [''a'', ''b'']) \<longrightarrow> patterns [(''+.b'', 1 :: nat), (''*.b'', 2)] q = None
    | Some x \<Rightarrow> \<exists>q. dom_match q (rev [''a'', ''b'']) \<and> patterns [(''+.b'', 1), (''*.b'', 2)] q = Some x \<and>
        (\<forall>r. dom_match r (rev [''a'', ''b'']) \<and> patterns [(''+.b'', 1 :: nat), (''*.b'', 2)] r \<noteq> None
             \<longrightarrow> at_least (rev [''a'', ''b'']) q r)"
  by (rule trie_search_best) (code_simp, simp)

text \<open>
  C37. \<open>Optimize\<close> changes no search result, whatever was inserted before.
\<close>

theorem trie_optimize_search:
  "dt_lookup domain (dt_Optimize (dt_build kvs)) = dt_lookup domain (dt_build kvs)"
proof -
  have "nd_get (nd_optimize (dt_build kvs)) = nd_get (dt_build kvs)"
    using nd_optimize_get[of "dt_build kvs"] dt_build_get[of kvs] by blast
  then show ?thesis unfolding dt_lookup_best dt_Optimize_def by (rule ssubst) (rule refl)
qed

text \<open>
  \<open>Foreach\<close> reports the pattern \<open>.b.c\<close> as \<open>+.b.c\<close>, so that a trie rebuilt from what it reports
  (as a domain set is) matches \<open>b.c\<close>, which the trie itself does not.
\<close>

theorem trie_foreach_widens:
  "dt_lookup ''b.c'' (dt_build [(''.b.c'', x :: nat)]) = None \<and>
   dt_lookup ''b.c'' (dt_build (dt_Foreach (\<lambda>k x. True) (dt_build [(''.b.c'', x)]))) = Some x"
  by code_simp

text \<open>
  A callback that answers false at the first pattern is still called for the rest of the
  subtree of a later top-level label: \<open>Foreach\<close> drops the answer of the recursion.
\<close>

theorem trie_foreach_not_stopped:
  "length (dt_Foreach (\<lambda>k x. False) (dt_build [(''a.b'', x :: nat), (''a.c'', y)])) = 2"
  by code_simp

end
