(* ===== verification/DomainSet.thy ===== *)
theory DomainSet
  imports DomainTrie "HOL-Library.List_Lexorder" "HOL-Library.Char_ord"
begin

text \<open>
  The succinct domain set of \<open>component/trie/domain_set.go\<close>, which domain rule providers build
  from a domain trie: the nodes of the byte trie of the reversed patterns in breadth-first
  order, one bitmap that marks the end of each node's labels and one that marks the leaves.
  Rank and select on a bitmap come from \<open>github.com/openacid/low/bitmap\<close> and are a parameter,
  with the index structures that library builds. Keys are ASCII: the branch of \<open>Has\<close> that
  normalises other keys is not modelled.
\<close>

section \<open>Bitmaps\<close>

record 'x bitmap_lib =
  IndexSelect32R64 :: "64 word list \<Rightarrow> 'x"
  Rank64 :: "64 word list \<Rightarrow> 'x \<Rightarrow> nat \<Rightarrow> nat"
  Select32R64 :: "64 word list \<Rightarrow> 'x \<Rightarrow> nat \<Rightarrow> nat"

definition setBit :: "64 word list \<Rightarrow> nat \<Rightarrow> bool \<Rightarrow> 64 word list" where
  "setBit bm i v =
     (let k = i div 64; bm' = bm @ replicate (Suc k - length bm) 0 in
      bm'[k := bm' ! k OR push_bit (i mod 64) (of_bool v)])"

definition getBit :: "64 word list \<Rightarrow> nat \<Rightarrow> bool outcome" where
  "getBit bm i = obind (get_at bm (int (i div 64))) (\<lambda>w. Ret (bit w (i mod 64)))"

record 'x domain_set =
  ds_leaves :: "64 word list"
  ds_labelBitmap :: "64 word list"
  ds_labels :: "char list"
  ds_index :: 'x

definition countZeros :: "'x bitmap_lib \<Rightarrow> 'x domain_set \<Rightarrow> nat \<Rightarrow> nat" where
  "countZeros B ss i = i - Rank64 B (ds_labelBitmap ss) (ds_index ss) i"

definition selectIthOne :: "'x bitmap_lib \<Rightarrow> 'x domain_set \<Rightarrow> nat \<Rightarrow> nat" where
  "selectIthOne B ss i = Select32R64 B (ds_labelBitmap ss) (ds_index ss) i"

section \<open>Construction\<close>

text \<open>The inner loops over the keys of one queue element: runs of keys with the same byte at
  \<open>col\<close>, as index ranges with that byte.\<close>

fun same_run :: "nat \<Rightarrow> char \<Rightarrow> string list \<Rightarrow> nat outcome" where
  "same_run col c [] = Ret 0"
| "same_run col c (k # ks) =
     obind (get_at k (int col)) (\<lambda>d.
       if d = c then obind (same_run col c ks) (\<lambda>n. Ret (Suc n)) else Ret 0)"

function ds_children :: "nat \<Rightarrow> nat \<Rightarrow> string list \<Rightarrow> (nat \<times> nat \<times> char) list outcome" where
  "ds_children col j [] = Ret []"
| "ds_children col j (k # ks) =
     obind (get_at k (int col)) (\<lambda>c.
     obind (same_run col c ks) (\<lambda>n.
     obind (ds_children col (j + Suc n) (drop n ks)) (\<lambda>rest. Ret ((j, j + Suc n, c) # rest))))"
  by pat_completeness auto
termination by (relation "measure (\<lambda>(col, j, ks). length ks)") auto

text \<open>The bits and labels that one node adds, from label index \<open>lIdx\<close> on.\<close>

definition add_node :: "(nat \<times> nat \<times> char) list \<Rightarrow> nat \<Rightarrow> 'x domain_set \<Rightarrow> nat \<times> 'x domain_set" where
  "add_node cs lIdx ss =
     (let (l, bm) = foldl (\<lambda>(l, bm) c. (Suc l, setBit bm l False)) (lIdx, ds_labelBitmap ss) cs in
      (Suc l, ss\<lparr>ds_labels := ds_labels ss @ map (\<lambda>(f, j, c). c) cs,
                ds_labelBitmap := setBit bm l True\<rparr>))"

text \<open>The loop over the queue; \<open>todo\<close> is what is left of it and \<open>i\<close> the index of its first
  element. The first argument bounds the iterations: every element has its own prefix of a key.\<close>

fun ds_bfs :: "nat \<Rightarrow> string list \<Rightarrow> (nat \<times> nat \<times> nat) list \<Rightarrow> nat \<Rightarrow> nat \<Rightarrow> 'x domain_set
    \<Rightarrow> 'x domain_set outcome" where
  "ds_bfs fuel keys [] i lIdx ss = Ret ss"
| "ds_bfs 0 keys (elt # todo) i lIdx ss = Diverge"
| "ds_bfs (Suc fuel) keys ((s, e, col) # todo) i lIdx ss =
     obind (get_at keys (int s)) (\<lambda>k.
       let leaf = (col = length k);
           s' = (if leaf then Suc s else s);
           ss1 = (if leaf then ss\<lparr>ds_leaves := setBit (ds_leaves ss) i True\<rparr> else ss) in
       obind (ds_children col s' (drop s' (take e keys))) (\<lambda>cs.
         let (lIdx', ss2) = add_node cs lIdx ss1 in
         ds_bfs fuel keys (todo @ map (\<lambda>(f, j, c). (f, j, Suc col)) cs) (Suc i) lIdx' ss2))"

definition ds_of_keys :: "'x bitmap_lib \<Rightarrow> string list \<Rightarrow> 'x domain_set outcome" where
  "ds_of_keys B keys =
     obind (ds_bfs (Suc (sum_list (map length keys))) keys [(0, length keys, 0)] 0 0
        \<lparr>ds_leaves = [], ds_labelBitmap = [], ds_labels = [], ds_index = IndexSelect32R64 B []\<rparr>)
       (\<lambda>ss. Ret (ss\<lparr>ds_index := IndexSelect32R64 B (ds_labelBitmap ss)\<rparr>))"

definition NewDomainSet :: "'x bitmap_lib \<Rightarrow> 'a node \<Rightarrow> 'x domain_set option outcome" where
  "NewDomainSet B t =
     (let keys = sort (map (\<lambda>(domain, data). rev domain) (dt_Foreach (\<lambda>domain data. True) t)) in
      if length keys = 0 then Ret None
      else obind (ds_of_keys B keys) (\<lambda>ss. Ret (Some ss)))"

section \<open>Queries\<close>

definition revLowerAt :: "string \<Rightarrow> nat \<Rightarrow> char" where
  "revLowerAt key i = lower_char (key ! (length key - 1 - i))"

text \<open>The end of the label that starts at \<open>index\<close> of the reversed key.\<close>

fun label_end :: "nat \<Rightarrow> string \<Rightarrow> nat \<Rightarrow> nat" where
  "label_end 0 key j = j"
| "label_end (Suc n) key j =
     (if j < length key \<and> revLowerAt key j \<noteq> CHR ''.'' then label_end n key (Suc j) else j)"

text \<open>The search for a dot among the labels from \<open>k\<close> on: its index.\<close>

fun find_dot :: "char list \<Rightarrow> nat \<Rightarrow> nat option" where
  "find_dot [] k = None"
| "find_dot (l # ls) k = (if l = CHR ''.'' then Some k else find_dot ls (Suc k))"

text \<open>The loops of \<open>Has\<close> from the label \<open>RESTART\<close>: byte \<open>i\<close> of the reversed key at the label
  position \<open>bmIdx\<close> of node \<open>nodeId\<close>, with the stack of wildcard cursors.\<close>

fun ds_scan :: "nat \<Rightarrow> 'x bitmap_lib \<Rightarrow> 'x domain_set \<Rightarrow> string \<Rightarrow> nat \<Rightarrow> nat \<Rightarrow> nat
    \<Rightarrow> (nat \<times> nat) list \<Rightarrow> bool outcome" where
  "ds_scan 0 B ss key i nodeId bmIdx stack = Diverge"
| "ds_scan (Suc fuel) B ss key i nodeId bmIdx stack =
     obind (getBit (ds_labelBitmap ss) bmIdx) (\<lambda>b.
       if b then
         (case stack of
            [] \<Rightarrow> Ret False
          | (cBmIdx, cIndex) # stack \<Rightarrow>
              let nextNodeId = countZeros B ss (cBmIdx + 1);
                  nextBmIdx = selectIthOne B ss (nextNodeId - 1) + 1;
                  j = label_end (length key) key cIndex in
              if j = length key then
                obind (getBit (ds_leaves ss) nextNodeId) (\<lambda>leaf.
                  if leaf then Ret True else ds_scan fuel B ss key i nodeId bmIdx stack)
              else
                (case find_dot (drop (nextBmIdx - nextNodeId) (ds_labels ss)) (nextBmIdx - nextNodeId) of
                   Some k \<Rightarrow> ds_scan fuel B ss key j nextNodeId (k + nextNodeId) stack
                 | None \<Rightarrow> Ret False))
       else
         obind (get_at (ds_labels ss) (int bmIdx - int nodeId)) (\<lambda>l.
           if l = CHR ''+'' then Ret True
           else if l = CHR ''*'' then ds_scan fuel B ss key i nodeId (bmIdx + 1) ((bmIdx, i) # stack)
           else if l = revLowerAt key i then
             (let nodeId = countZeros B ss (bmIdx + 1);
                  bmIdx = selectIthOne B ss (nodeId - 1) + 1 in
              if i + 1 < length key then ds_scan fuel B ss key (i + 1) nodeId bmIdx stack
              else getBit (ds_leaves ss) nodeId)
           else ds_scan fuel B ss key i nodeId (bmIdx + 1) stack))"

definition ds_Has :: "nat \<Rightarrow> 'x bitmap_lib \<Rightarrow> string \<Rightarrow> 'x domain_set option \<Rightarrow> bool outcome" where
  "ds_Has fuel B key ss =
     (case ss of
        None \<Rightarrow> Ret False
      | Some ss \<Rightarrow> if length key = 0 then getBit (ds_leaves ss) 0 else ds_scan fuel B ss key 0 0 0 [])"

text \<open>\<open>keys\<close> and \<open>Foreach\<close>: the stored keys, for a callback that never stops.\<close>

fun ds_traverse :: "nat \<Rightarrow> 'x bitmap_lib \<Rightarrow> 'x domain_set \<Rightarrow> string \<Rightarrow> nat \<Rightarrow> nat \<Rightarrow> string list outcome"
  and ds_siblings :: "nat \<Rightarrow> 'x bitmap_lib \<Rightarrow> 'x domain_set \<Rightarrow> string \<Rightarrow> nat \<Rightarrow> nat \<Rightarrow> string list outcome" where
  "ds_traverse 0 B ss currentKey nodeId bmIdx = Diverge"
| "ds_traverse (Suc fuel) B ss currentKey nodeId bmIdx =
     obind (getBit (ds_leaves ss) nodeId) (\<lambda>leaf.
     obind (ds_siblings fuel B ss currentKey nodeId bmIdx) (\<lambda>rest.
       Ret ((if leaf then [currentKey] else []) @ rest)))"
| "ds_siblings 0 B ss currentKey nodeId bmIdx = Diverge"
| "ds_siblings (Suc fuel) B ss currentKey nodeId bmIdx =
     obind (getBit (ds_labelBitmap ss) bmIdx) (\<lambda>b.
       if b then Ret []
       else
         obind (get_at (ds_labels ss) (int bmIdx - int nodeId)) (\<lambda>nextLabel.
           let nextNodeId = countZeros B ss (bmIdx + 1);
               nextBmIdx = selectIthOne B ss (nextNodeId - 1) + 1 in
           obind (ds_traverse fuel B ss (currentKey @ [nextLabel]) nextNodeId nextBmIdx) (\<lambda>below.
           obind (ds_siblings fuel B ss currentKey nodeId (bmIdx + 1)) (\<lambda>rest. Ret (below @ rest)))))"

definition ds_Foreach :: "nat \<Rightarrow> 'x bitmap_lib \<Rightarrow> 'x domain_set \<Rightarrow> string list outcome" where
  "ds_Foreach fuel B ss = obind (ds_traverse fuel B ss [] 0 0) (\<lambda>ks. Ret (map rev ks))"

section \<open>A bitmap library\<close>

text \<open>Rank and select as their documentation defines them, counted bit by bit.\<close>

definition bit_at :: "64 word list \<Rightarrow> nat \<Rightarrow> bool" where
  "bit_at bm i \<longleftrightarrow> i div 64 < length bm \<and> bit (bm ! (i div 64)) (i mod 64)"

definition ones_before :: "64 word list \<Rightarrow> nat \<Rightarrow> nat" where
  "ones_before bm i = length (filter (bit_at bm) [0..<i])"

definition ith_one :: "64 word list \<Rightarrow> nat \<Rightarrow> nat" where
  "ith_one bm i = filter (bit_at bm) [0..<64 * length bm] ! i"

definition plain_bitmaps :: "unit bitmap_lib" where
  "plain_bitmaps = \<lparr>IndexSelect32R64 = (\<lambda>bm. ()),
     Rank64 = (\<lambda>bm _ i. ones_before bm i), Select32R64 = (\<lambda>bm _ i. ith_one bm i)\<rparr>"

definition set_of_patterns :: "string list \<Rightarrow> unit domain_set option outcome" where
  "set_of_patterns ps = NewDomainSet plain_bitmaps (dt_build (map (\<lambda>p. (p, ())) ps))"

definition set_has :: "string list \<Rightarrow> string \<Rightarrow> bool outcome" where
  "set_has ps key = obind (set_of_patterns ps) (ds_Has 50 plain_bitmaps key)"

definition trie_has :: "string list \<Rightarrow> string \<Rightarrow> bool" where
  "trie_has ps key \<longleftrightarrow> dt_lookup key (dt_build (map (\<lambda>p. (p, ())) ps)) \<noteq> None"

section \<open>Where the set and the trie disagree\<close>

lemma narrow_set: "set_of_patterns [''x.z.*.com'', ''*.b.com''] =
   Ret (Some \<lparr>ds_leaves = [5120], ds_labelBitmap = [28660906], ds_labels = ''moc.*b..z*.x'', ds_index = ()\<rparr>)"
  by code_simp

lemma narrow_has: "ds_Has 50 plain_bitmaps ''x.z.b.com''
   (Some \<lparr>ds_leaves = [5120], ds_labelBitmap = [28660906], ds_labels = ''moc.*b..z*.x'', ds_index = ()\<rparr>) = Ret False"
  by code_simp

text \<open>
  With the patterns \<open>x.z.*.com\<close> and \<open>*.b.com\<close> the trie matches \<open>x.z.b.com\<close> and the set built
  from it does not: when the innermost wildcard leads nowhere, \<open>Has\<close> gives up although an outer
  one is still on its stack.
\<close>

theorem domain_set_misses:
  "trie_has [''x.z.*.com'', ''*.b.com''] ''x.z.b.com'' \<and>
   set_has [''x.z.*.com'', ''*.b.com''] ''x.z.b.com'' = Ret False"
proof
  show "trie_has [''x.z.*.com'', ''*.b.com''] ''x.z.b.com''" by code_simp
  show "set_has [''x.z.*.com'', ''*.b.com''] ''x.z.b.com'' = Ret False"
    by (simp only: set_has_def narrow_set narrow_has obind.simps)
qed

lemma wide_set: "set_of_patterns [''*.com'', ''xde.com'', ''z.f.com''] =
   Ret (Some \<lparr>ds_leaves = [3104], ds_labelBitmap = [7690410], ds_labels = ''moc.*efd.xz'', ds_index = ()\<rparr>)"
  by code_simp

lemma wide_has: "ds_Has 50 plain_bitmaps ''x.y.com''
   (Some \<lparr>ds_leaves = [3104], ds_labelBitmap = [7690410], ds_labels = ''moc.*efd.xz'', ds_index = ()\<rparr>) = Ret True"
  by code_simp

text \<open>
  With the patterns \<open>*.com\<close>, \<open>xde.com\<close> and \<open>z.f.com\<close> the set matches \<open>x.y.com\<close>, which no pattern
  matches: looking for the dot after a wildcard, \<open>Has\<close> runs past the labels of the node and
  takes a dot that belongs to another one.
\<close>

theorem domain_set_overmatches:
  "\<not> trie_has [''*.com'', ''xde.com'', ''z.f.com''] ''x.y.com'' \<and>
   set_has [''*.com'', ''xde.com'', ''z.f.com''] ''x.y.com'' = Ret True"
proof
  show "\<not> trie_has [''*.com'', ''xde.com'', ''z.f.com''] ''x.y.com''" by code_simp
  show "set_has [''*.com'', ''xde.com'', ''z.f.com''] ''x.y.com'' = Ret True"
    by (simp only: set_has_def wide_set wide_has obind.simps)
qed

end
