(* ===== verification/Bytes.thy ===== *)
theory Bytes
  imports Prelude
begin

text \<open>
  Bytes and fixed-width integers on the wire: what Go's \<open>encoding/binary\<close> does with
  \<open>BigEndian\<close> and \<open>LittleEndian\<close>, shared by the codecs of the development.
\<close>

type_synonym byte = "8 word"

text \<open>The low \<open>k\<close> bytes of \<open>n\<close>, most significant first.\<close>

fun be_put :: "nat \<Rightarrow> int \<Rightarrow> byte list" where
  "be_put 0 n = []"
| "be_put (Suc k) n = be_put k (n div 256) @ [word_of_int n]"

definition be_get :: "byte list \<Rightarrow> int" where
  "be_get bs = foldl (\<lambda>a b. a * 256 + uint b) 0 bs"

definition le_put :: "nat \<Rightarrow> int \<Rightarrow> byte list" where
  "le_put k n = rev (be_put k n)"

definition le_get :: "byte list \<Rightarrow> int" where
  "le_get bs = be_get (rev bs)"

lemma length_be_put [simp]: "length (be_put k n) = k"
  by (induction k arbitrary: n) auto

lemma length_le_put [simp]: "length (le_put k n) = k"
  by (simp add: le_put_def)

lemma be_get_put: "be_get (be_put k n) = n mod 256 ^ k"
proof (induction k arbitrary: n)
  case (Suc k)
  have "be_get (be_put (Suc k) n) = (n div 256 mod 256 ^ k) * 256 + n mod 256"
    using Suc[of "n div 256"] by (simp add: be_get_def unsigned_of_int take_bit_eq_mod)
  also have "\<dots> = n mod (256 * 256 ^ k)"
    by (subst zmod_zmult2_eq) (simp_all add: ac_simps)
  finally show ?case by simp
qed (simp add: be_get_def)

lemma be_get_put_word:
  fixes w :: "'w::len word"
  assumes "2 ^ LENGTH('w) = (256 :: int) ^ k"
  shows "be_get (be_put k (uint w)) = uint w"
  using unsigned_less[of w, where ?'a = int] assms by (simp add: be_get_put)

lemma be_16 [simp]: "be_get (be_put 2 (uint (w :: 16 word))) = uint w"
  by (rule be_get_put_word) simp

lemma be_32 [simp]: "be_get (be_put 4 (uint (w :: 32 word))) = uint w"
  by (rule be_get_put_word) simp

lemma be_64 [simp]: "be_get (be_put 8 (uint (w :: 64 word))) = uint w"
  by (rule be_get_put_word) simp

lemma be_128 [simp]: "be_get (be_put 16 (uint (w :: 128 word))) = uint w"
  by (rule be_get_put_word) simp

lemma le_get_put: "le_get (le_put k n) = n mod 256 ^ k"
  by (simp add: le_get_def le_put_def be_get_put)

lemma le_16 [simp]: "le_get (le_put 2 (uint (w :: 16 word))) = uint w"
  using be_16[of w] by (simp add: le_get_def le_put_def)

lemma le_32 [simp]: "le_get (le_put 4 (uint (w :: 32 word))) = uint w"
  using be_32[of w] by (simp add: le_get_def le_put_def)

lemma take_be [simp]: "take k (be_put k n @ xs) = be_put k n"
  and drop_be [simp]: "drop k (be_put k n @ xs) = xs"
  and take_le [simp]: "take k (le_put k n @ xs) = le_put k n"
  and drop_le [simp]: "drop k (le_put k n @ xs) = xs"
  by simp_all

text \<open>Bytes of a string.\<close>

definition byte_of :: "char \<Rightarrow> byte" where
  "byte_of c = word_of_nat (of_char c)"

definition char_of_byte :: "byte \<Rightarrow> char" where
  "char_of_byte b = char_of (unat b)"

lemma char_byte [simp]: "char_of_byte (byte_of c) = c"
  by (simp add: char_of_byte_def byte_of_def unsigned_of_nat char_of_take_bit_eq)

text \<open>\<open>io.ReadFull\<close>: exactly \<open>n\<close> bytes, or an error.\<close>

definition read_full :: "nat \<Rightarrow> byte list \<Rightarrow> (byte list \<times> byte list) option" where
  "read_full n s = (if length s < n then None else Some (take n s, drop n s))"

lemma read_full_append [simp]: "length xs = n \<Longrightarrow> read_full n (xs @ ys) = Some (xs, ys)"
  by (simp add: read_full_def)

end
