(* ===== verification/DomainSetBin.thy ===== *)
theory DomainSetBin
  imports DomainSet Bytes
begin

text \<open>
  The binary form of a domain set, \<open>component/trie/domain_set_bin.go\<close>: a version byte, then the
  leaves, the label bitmap and the labels, each behind its length in 64 bits, big endian. The
  reader is a byte list, an error is \<open>None\<close>; writing to memory does not fail.
\<close>

section \<open>Writing and reading\<close>

definition put_words :: "64 word list \<Rightarrow> byte list" where
  "put_words ws = be_put 8 (int (length ws)) @ concat (map (\<lambda>d. be_put 8 (uint d)) ws)"

definition ds_WriteBin :: "'x domain_set \<Rightarrow> byte list" where
  "ds_WriteBin ss =
     [1] @ put_words (ds_leaves ss) @ put_words (ds_labelBitmap ss) @
     be_put 8 (int (length (ds_labels ss))) @ map byte_of (ds_labels ss)"

text \<open>An \<open>int64\<close> in big endian; the length must be at least 1.\<close>

definition read_length :: "byte list \<Rightarrow> (nat \<times> byte list) option" where
  "read_length r =
     (case read_full 8 r of
        None \<Rightarrow> None
      | Some (bs, r) \<Rightarrow>
          let n = sint (word_of_int (be_get bs) :: 64 word) in
          if n < 1 then None else Some (nat n, r))"

fun read_words :: "nat \<Rightarrow> byte list \<Rightarrow> (64 word list \<times> byte list) option" where
  "read_words 0 r = Some ([], r)"
| "read_words (Suc n) r =
     (case read_full 8 r of
        None \<Rightarrow> None
      | Some (bs, r) \<Rightarrow>
          (case read_words n r of
             None \<Rightarrow> None
           | Some (ws, r) \<Rightarrow> Some (word_of_int (be_get bs) # ws, r)))"

definition ReadDomainSetBin :: "'x bitmap_lib \<Rightarrow> byte list \<Rightarrow> 'x domain_set option" where
  "ReadDomainSetBin B r =
     (case read_full 1 r of
        None \<Rightarrow> None
      | Some (version, r) \<Rightarrow>
          if version ! 0 \<noteq> 1 then None
          else case read_length r of None \<Rightarrow> None | Some (n, r) \<Rightarrow>
            (case read_words n r of None \<Rightarrow> None | Some (leaves, r) \<Rightarrow>
              (case read_length r of None \<Rightarrow> None | Some (n, r) \<Rightarrow>
                (case read_words n r of None \<Rightarrow> None | Some (labelBitmap, r) \<Rightarrow>
                  (case read_length r of None \<Rightarrow> None | Some (n, r) \<Rightarrow>
                    (case read_full n r of None \<Rightarrow> None | Some (labels, r) \<Rightarrow>
                       Some \<lparr>ds_leaves = leaves, ds_labelBitmap = labelBitmap,
                             ds_labels = map char_of_byte labels,
                             ds_index = IndexSelect32R64 B labelBitmap\<rparr>))))))"

section \<open>Round trip\<close>

lemma read_length_put:
  assumes "0 < n" "n < 2 ^ 63"
  shows "read_length (be_put 8 (int n) @ r) = Some (n, r)"
proof -
  have n: "int n < 2 ^ 63" using assms(2) by (metis of_nat_less_numeral_power_cancel_iff)
  have b: "be_get (be_put 8 (int n)) = int n" using n by (simp add: be_get_put)
  have "sint (word_of_int (int n) :: 64 word) = int n"
    using n by (simp add: signed_of_int signed_take_bit_int_eq_self signed_of_nat)
  then show ?thesis using assms b by (simp add: read_length_def)
qed

lemma read_words_put:
  "read_words (length ws) (concat (map (\<lambda>d. be_put 8 (uint d)) ws) @ r) = Some (ws, r)"
  by (induction ws) simp_all

text \<open>
  C40. Reading back what \<open>WriteBin\<close> wrote gives the same domain set with freshly built indexes, for
  every set whose three parts are not empty and shorter than 2 to the 63.
\<close>

theorem domain_set_bin_roundtrip:
  assumes "ds_leaves ss \<noteq> []" "ds_labelBitmap ss \<noteq> []" "ds_labels ss \<noteq> []"
    and "length (ds_leaves ss) < 2 ^ 63" "length (ds_labelBitmap ss) < 2 ^ 63" "length (ds_labels ss) < 2 ^ 63"
  shows "ReadDomainSetBin B (ds_WriteBin ss) =
    Some (ss\<lparr>ds_index := IndexSelect32R64 B (ds_labelBitmap ss)\<rparr>)"
proof -
  have len: "0 < length (ds_leaves ss)" "0 < length (ds_labelBitmap ss)" "0 < length (ds_labels ss)"
    using assms by simp_all
  have one: "read_full 1 ([1] @ r) = Some ([1], r)" for r :: "byte list" by (simp add: read_full_def)
  have ids: "map (char_of_byte \<circ> byte_of) cs = cs" for cs by (simp add: map_idI)
  have labels: "read_full (length (ds_labels ss)) (map byte_of (ds_labels ss))
      = Some (map byte_of (ds_labels ss), [])" by (simp add: read_full_def)
  show ?thesis
    unfolding ReadDomainSetBin_def ds_WriteBin_def put_words_def one option.case prod.case
      append_assoc
    using labels
    by (simp add: read_length_put[OF len(1) assms(4)] read_length_put[OF len(2) assms(5)]
      read_length_put[OF len(3) assms(6)] read_words_put ids)
qed

theorem domain_set_bin_roundtrip_witness:
  "ReadDomainSetBin plain_bitmaps (ds_WriteBin
      \<lparr>ds_leaves = [4], ds_labelBitmap = [26], ds_labels = ''ab'', ds_index = ()\<rparr>)
   = Some \<lparr>ds_leaves = [4], ds_labelBitmap = [26], ds_labels = ''ab'', ds_index = ()\<rparr>"
  using domain_set_bin_roundtrip
    [of "\<lparr>ds_leaves = [4], ds_labelBitmap = [26], ds_labels = ''ab'', ds_index = ()\<rparr>" plain_bitmaps]
  by (simp add: plain_bitmaps_def)

end
