(* ===== verification/NetIP.thy ===== *)
theory NetIP
  imports GoStrings Bytes
begin

text \<open>
  The parts of Go's \<open>net\<close> and \<open>net/netip\<close> packages that the modelled code calls: addresses,
  prefixes, their textual forms, and host:port strings. An error is \<open>None\<close>.
\<close>

section \<open>Addresses\<close>

datatype addr = NoAddr | V4 "32 word" | V6 "128 word" string

definition addr_IsValid :: "addr \<Rightarrow> bool" where
  "addr_IsValid a \<longleftrightarrow> a \<noteq> NoAddr"

fun addr_Is4 :: "addr \<Rightarrow> bool" where
  "addr_Is4 (V4 w) = True"
| "addr_Is4 _ = False"

fun addr_Is6 :: "addr \<Rightarrow> bool" where
  "addr_Is6 (V6 w z) = True"
| "addr_Is6 _ = False"

fun addr_BitLen :: "addr \<Rightarrow> nat" where
  "addr_BitLen NoAddr = 0"
| "addr_BitLen (V4 w) = 32"
| "addr_BitLen (V6 w z) = 128"

fun addr_zone :: "addr \<Rightarrow> string" where
  "addr_zone (V6 w z) = z"
| "addr_zone _ = []"

fun addr_Is4In6 :: "addr \<Rightarrow> bool" where
  "addr_Is4In6 (V6 w z) = (drop_bit 32 w = 0xffff)"
| "addr_Is4In6 _ = False"

fun addr_Unmap :: "addr \<Rightarrow> addr" where
  "addr_Unmap (V6 w z) = (if drop_bit 32 w = 0xffff then V4 (ucast w) else V6 w z)"
| "addr_Unmap a = a"

definition addr_WithZone :: "string \<Rightarrow> addr \<Rightarrow> addr" where
  "addr_WithZone z a = (case a of V6 w _ \<Rightarrow> V6 w z | _ \<Rightarrow> a)"

text \<open>\<open>As4\<close> and \<open>As16\<close>: the bytes of an address.\<close>

fun addr_bytes :: "addr \<Rightarrow> byte list" where
  "addr_bytes NoAddr = []"
| "addr_bytes (V4 w) = be_put 4 (uint w)"
| "addr_bytes (V6 w z) = be_put 16 (uint w)"

definition AddrFromSlice :: "byte list \<Rightarrow> addr" where
  "AddrFromSlice bs =
     (if length bs = 4 then V4 (word_of_int (be_get bs))
      else if length bs = 16 then V6 (word_of_int (be_get bs)) []
      else NoAddr)"

lemma AddrFromSlice_bytes_V4 [simp]: "AddrFromSlice (addr_bytes (V4 w)) = V4 w"
  by (simp add: AddrFromSlice_def)

lemma AddrFromSlice_bytes_V6 [simp]: "AddrFromSlice (addr_bytes (V6 w [])) = V6 w []"
  by (simp add: AddrFromSlice_def)

section \<open>Textual form of IPv4 addresses\<close>

definition octet :: "nat \<Rightarrow> 32 word \<Rightarrow> nat" where
  "octet i w = unat (take_bit 8 (drop_bit (24 - 8 * i) w))"

definition string4 :: "32 word \<Rightarrow> string" where
  "string4 w = go_join (CHR ''.'') (map (\<lambda>i. dec (octet i w)) [0, 1, 2, 3])"

text \<open>One field: decimal digits, no leading zero, at most 255.\<close>

definition field4 :: "string \<Rightarrow> nat option" where
  "field4 s =
     (if s = [] \<or> (length s > 1 \<and> hd s = CHR ''0'') then None
      else case parse_digits 0 s of
        None \<Rightarrow> None | Some n \<Rightarrow> if n \<le> 255 then Some n else None)"

fun fields4 :: "int \<Rightarrow> string list \<Rightarrow> int option" where
  "fields4 acc [] = Some acc"
| "fields4 acc (s # ss) =
     (case field4 s of None \<Rightarrow> None | Some n \<Rightarrow> fields4 (acc * 256 + int n) ss)"

definition parse4 :: "string \<Rightarrow> int option" where
  "parse4 s = (let fs = go_split (CHR ''.'') s in if length fs = 4 then fields4 0 fs else None)"

section \<open>Textual form of IPv6 addresses\<close>

definition hex_val :: "char \<Rightarrow> nat option" where
  "hex_val c = (let n = (of_char c :: nat) in
     if 48 \<le> n \<and> n \<le> 57 then Some (n - 48)
     else if 97 \<le> n \<and> n \<le> 102 then Some (n - 87)
     else if 65 \<le> n \<and> n \<le> 70 then Some (n - 55)
     else None)"

definition hex_digit :: "nat \<Rightarrow> char" where
  "hex_digit d = (if d < 10 then char_of (48 + d) else char_of (87 + d))"

fun hex :: "nat \<Rightarrow> nat \<Rightarrow> string" where
  "hex 0 n = []"
| "hex (Suc k) n = (if n < 16 then [hex_digit n] else hex k (n div 16) @ [hex_digit (n mod 16)])"

text \<open>The digits at the start of \<open>s\<close>: value, number, rest; \<open>None\<close> for more than four.\<close>

fun hex_field :: "nat \<Rightarrow> nat \<Rightarrow> string \<Rightarrow> (nat \<times> nat \<times> string) option" where
  "hex_field acc off [] = Some (acc, off, [])"
| "hex_field acc off (c # cs) =
     (case hex_val c of
        None \<Rightarrow> Some (acc, off, c # cs)
      | Some v \<Rightarrow> if off > 3 then None else hex_field (acc * 16 + v) (off + 1) cs)"

text \<open>The loop of \<open>parseIPv6\<close>: the 16-bit groups read so far, the position of \<open>::\<close>, and the
  input left. A group is two bytes, so the loop runs at most eight times.\<close>

fun groups6 :: "nat \<Rightarrow> nat list \<Rightarrow> nat option \<Rightarrow> string \<Rightarrow> (nat list \<times> nat option) option" where
  "groups6 0 gs ell s = (if s = [] then Some (gs, ell) else None)"
| "groups6 (Suc n) gs ell s =
     (case hex_field 0 0 s of
        None \<Rightarrow> None
      | Some (acc, off, r) \<Rightarrow>
          if off = 0 then None
          else if r \<noteq> [] \<and> hd r = CHR ''.'' then
            (if ell = None \<and> length gs \<noteq> 6 then None
             else if length gs + 2 > 8 then None
             else case parse4 s of
               None \<Rightarrow> None | Some v \<Rightarrow> Some (gs @ [nat (v div 65536), nat (v mod 65536)], ell))
          else let gs = gs @ [acc] in
            if r = [] then Some (gs, ell)
            else if hd r \<noteq> CHR '':'' then None
            else if length r = 1 then None
            else let r = tl r in
              if hd r = CHR '':'' then
                (if ell \<noteq> None then None
                 else if tl r = [] then Some (gs, Some (length gs))
                 else groups6 n gs (Some (length gs)) (tl r))
              else groups6 n gs ell r)"

definition value6 :: "nat list \<Rightarrow> int" where
  "value6 gs = foldl (\<lambda>a g. a * 65536 + int g) 0 gs"

definition parse6_body :: "string \<Rightarrow> int option" where
  "parse6_body s =
     (let (start, ell) = (if take 2 s = ''::'' then (drop 2 s, Some 0) else (s, None)) in
      if ell = Some 0 \<and> start = [] then Some 0
      else case groups6 8 [] ell start of
        None \<Rightarrow> None
      | Some (gs, ell) \<Rightarrow>
          if length gs < 8 then
            (case ell of
               None \<Rightarrow> None
             | Some e \<Rightarrow> Some (value6 (take e gs @ replicate (8 - length gs) 0 @ drop e gs)))
          else if ell \<noteq> None then None else Some (value6 gs))"

definition parse6 :: "string \<Rightarrow> addr option" where
  "parse6 s =
     (let (body, zone) = (takeWhile (\<lambda>c. c \<noteq> CHR ''%'') s, dropWhile (\<lambda>c. c \<noteq> CHR ''%'') s) in
      if zone = ''%'' then None
      else map_option (\<lambda>n. V6 (word_of_int n) (tl zone)) (parse6_body body))"

text \<open>\<open>ParseAddr\<close> decides by the first dot, colon or percent sign.\<close>

definition ParseAddr :: "string \<Rightarrow> addr option" where
  "ParseAddr s =
     (case find (\<lambda>c. c = CHR ''.'' \<or> c = CHR '':'' \<or> c = CHR ''%'') s of
        None \<Rightarrow> None
      | Some c \<Rightarrow>
          if c = CHR ''.'' then map_option (\<lambda>n. V4 (word_of_int n)) (parse4 s)
          else if c = CHR '':'' then parse6 s
          else None)"

text \<open>\<open>Addr.String\<close> for IPv6: the leftmost longest run of at least two zero groups becomes \<open>::\<close>;
  an IPv4-mapped address keeps its dotted form.\<close>

definition groups_of :: "128 word \<Rightarrow> nat list" where
  "groups_of w = map (\<lambda>i. unat (take_bit 16 (drop_bit (112 - 16 * i) w))) [0..<8]"

fun zero_run :: "nat list \<Rightarrow> nat" where
  "zero_run [] = 0"
| "zero_run (g # gs) = (if g = 0 then Suc (zero_run gs) else 0)"

text \<open>The code's scan: a run replaces the best one so far only when it is longer.\<close>

fun best_run :: "nat \<Rightarrow> nat list \<Rightarrow> nat \<times> nat \<Rightarrow> nat \<times> nat" where
  "best_run i [] b = b"
| "best_run i (g # gs) (p, l) =
     (let r = zero_run (g # gs) in best_run (Suc i) gs (if r \<ge> 2 \<and> r > l then (i, r) else (p, l)))"

definition string6 :: "128 word \<Rightarrow> string" where
  "string6 w =
     (let gs = groups_of w; (p, l) = best_run 0 gs (0, 0) in
      if l = 0 then go_join (CHR '':'') (map (hex 4) gs)
      else go_join (CHR '':'') (map (hex 4) (take p gs)) @ ''::'' @
           go_join (CHR '':'') (map (hex 4) (drop (p + l) gs)))"

definition addr_String :: "addr \<Rightarrow> string" where
  "addr_String a =
     (case a of
        NoAddr \<Rightarrow> ''invalid IP''
      | V4 w \<Rightarrow> string4 w
      | V6 w z \<Rightarrow>
          (if drop_bit 32 w = 0xffff then ''::ffff:'' @ string4 (ucast w) else string6 w) @
          (if z = [] then [] else CHR ''%'' # z))"

section \<open>Prefixes\<close>

record ipprefix =
  pf_addr :: addr
  pf_bits :: nat

definition pf_mask :: "nat \<Rightarrow> nat \<Rightarrow> 'w::len word" where
  "pf_mask len bits = push_bit (len - bits) (mask bits)"

definition pf_Contains :: "ipprefix \<Rightarrow> addr \<Rightarrow> bool" where
  "pf_Contains p ip =
     (case (pf_addr p, ip) of
        (V4 w, V4 x) \<Rightarrow> drop_bit (32 - pf_bits p) (w XOR x) = 0
      | (V6 w z, V6 x z') \<Rightarrow> z' = [] \<and> (w XOR x) AND pf_mask 128 (pf_bits p) = 0
      | _ \<Rightarrow> False)"

definition pf_Masked :: "ipprefix \<Rightarrow> ipprefix" where
  "pf_Masked p =
     (case pf_addr p of
        NoAddr \<Rightarrow> p
      | V4 w \<Rightarrow> p\<lparr>pf_addr := V4 (w AND pf_mask 32 (pf_bits p))\<rparr>
      | V6 w z \<Rightarrow> p\<lparr>pf_addr := V6 (w AND pf_mask 128 (pf_bits p)) []\<rparr>)"

definition ParsePrefix :: "string \<Rightarrow> ipprefix option" where
  "ParsePrefix s =
     (let pieces = go_split (CHR ''/'') s in
      if length pieces < 2 then None
      else let host = go_join (CHR ''/'') (butlast pieces); bits = last pieces in
        case ParseAddr host of
          None \<Rightarrow> None
        | Some ip \<Rightarrow>
            if addr_zone ip \<noteq> [] then None
            else if bits = [] \<or> (length bits > 1 \<and> (hd bits = CHR ''0'' \<or> digit_val (hd bits) = None)) then None
            else case parse_digits 0 bits of
              None \<Rightarrow> None
            | Some n \<Rightarrow> if n > addr_BitLen ip then None else Some \<lparr>pf_addr = ip, pf_bits = n\<rparr>)"

section \<open>Host and port\<close>

definition JoinHostPort :: "string \<Rightarrow> string \<Rightarrow> string" where
  "JoinHostPort host port =
     (if CHR '':'' \<in> set host then CHR ''['' # host @ '']:'' @ port else host @ CHR '':'' # port)"

definition SplitHostPort :: "string \<Rightarrow> (string \<times> string) option" where
  "SplitHostPort s =
     (if CHR '':'' \<notin> set s then None
      else let port = rev (takeWhile (\<lambda>c. c \<noteq> CHR '':'') (rev s));
               i = length s - length port - 1 in
        if hd s = CHR ''['' then
          (if CHR '']'' \<notin> set s then None
           else let e = length (takeWhile (\<lambda>c. c \<noteq> CHR '']'') s) in
             if e + 1 \<noteq> i then None
             else if CHR ''['' \<in> set (drop 1 s) \<or> CHR '']'' \<in> set (drop (e + 1) s) then None
             else Some (drop 1 (take e s), port))
        else let host = take i s in
          if CHR '':'' \<in> set host \<or> CHR ''['' \<in> set s \<or> CHR '']'' \<in> set s then None
          else Some (host, port))"

section \<open>Round trips\<close>

lemma digit_0: "digit_char 0 = CHR ''0''" "digit_val (CHR ''0'') = Some 0"
  by code_simp+

lemma dec_hd: "n \<noteq> 0 \<Longrightarrow> hd (dec n) \<noteq> CHR ''0''"
proof (induction n rule: dec.induct)
  case (1 n)
  show ?case
  proof (cases "n < 10")
    case True
    have "digit_char n \<noteq> CHR ''0''"
      using digit_val_char[OF True] digit_0(2) "1.prems" by auto
    with True show ?thesis by (subst dec.simps) simp
  next
    case False
    then have "hd (dec (n div 10)) \<noteq> CHR ''0''" by (intro "1.IH") auto
    with False show ?thesis by (subst dec.simps) (simp add: hd_append)
  qed
qed

lemma dec_0: "dec 0 = ''0''"
  by (subst dec.simps) (simp add: digit_0)

lemma field4_dec: "n \<le> 255 \<Longrightarrow> field4 (dec n) = Some n"
  using dec_hd[of n] by (cases "n = 0") (auto simp: field4_def parse_digits_dec dec_0 digit_0)

lemma dec_no_sep: "CHR ''.'' \<notin> set (dec n)" "CHR '':'' \<notin> set (dec n)" "CHR ''%'' \<notin> set (dec n)"
  "CHR ''['' \<notin> set (dec n)" "CHR '']'' \<notin> set (dec n)"
  using dec_digits[of _ n] by fastforce+

lemma octet_le: "octet i w \<le> 255"
proof -
  have "octet i w < 2 ^ 8" unfolding octet_def by (metis unsigned_take_bit_eq take_bit_nat_less_exp)
  then show ?thesis by simp
qed

lemma horner4:
  fixes n :: int
  shows "n = a * 256 + x \<Longrightarrow> a = b * 256 + y \<Longrightarrow> b = c * 256 + z \<Longrightarrow>
    ((c * 256 + z) * 256 + y) * 256 + x = n"
  by simp

lemma four_digits:
  fixes n :: int assumes "0 \<le> n" "n < 2 ^ 32"
  shows "((n div 2 ^ 24 mod 256 * 256 + n div 2 ^ 16 mod 256) * 256 + n div 2 ^ 8 mod 256) * 256 + n mod 256 = n"
proof -
  let ?a = "n div 256" let ?b = "?a div 256" let ?c = "?b div 256"
  have d: "n div 2 ^ 8 = ?a" "n div 2 ^ 16 = ?b" "n div 2 ^ 24 = ?c"
    by (simp_all add: zdiv_zmult2_eq[symmetric])
  have m: "n = ?a * 256 + n mod 256" "?a = ?b * 256 + ?a mod 256" "?b = ?c * 256 + ?b mod 256"
    by (rule div_mult_mod_eq[symmetric])+
  have "n div 2 ^ 24 < 256" using assms by simp
  moreover have "0 \<le> n div 2 ^ 24" using assms by simp
  ultimately have "n div 2 ^ 24 mod 256 = n div 2 ^ 24" by (intro mod_pos_pos_trivial)
  then have "?c mod 256 = ?c" unfolding d .
  then show ?thesis unfolding d by (simp only: horner4[OF m])
qed

lemma octets_value:
  "((int (octet 0 w) * 256 + int (octet 1 w)) * 256 + int (octet 2 w)) * 256 + int (octet 3 w) = uint w"
proof -
  have "octet i w = unat w div 2 ^ (24 - 8 * i) mod 256" for i
    unfolding octet_def unsigned_take_bit_eq unsigned_drop_bit_eq
    using unsigned_less[of w, where ?'a = nat] by (simp add: take_bit_eq_mod drop_bit_eq_div)
  then have u: "int (octet i w) = uint w div 2 ^ (24 - 8 * i) mod 256" for i
    by (simp add: zmod_int zdiv_int)
  have "0 \<le> uint w" "uint w < 2 ^ 32" using unsigned_less[of w, where ?'a = int] by simp_all
  note v = four_digits[OF this]
  have "24 - 8 * 1 = (16::nat)" "24 - 8 * 2 = (8::nat)" "24 - 8 * 3 = (0::nat)" by simp_all
  then have "int (octet 0 w) = uint w div 2 ^ 24 mod 256" "int (octet 1 w) = uint w div 2 ^ 16 mod 256"
    "int (octet 2 w) = uint w div 2 ^ 8 mod 256" "int (octet 3 w) = uint w mod 256"
    using u[of 0] u[of 1] u[of 2] u[of 3]
    by (simp_all only: mult_0_right diff_zero power_0 div_by_1)
  then show ?thesis using v by (simp only:)
qed

lemma find_sep:
  assumes "\<forall>c\<in>set p. \<not> P c" "P x" shows "find P (p @ x # s) = Some x"
  using assms by (induction p) auto

lemma ParseAddr_V4: "ParseAddr (addr_String (V4 w)) = Some (V4 w)"
proof -
  let ?ds = "map (\<lambda>i. dec (octet i w)) [0, 1, 2, 3]"
  have split: "go_split (CHR ''.'') (string4 w) = ?ds"
    unfolding string4_def using dec_no_sep by (intro go_split_join) auto
  have "parse4 (string4 w) = Some (uint w)"
    using octets_value[of w] by (simp add: parse4_def split field4_dec octet_le)
  moreover have "string4 w = dec (octet 0 w) @ CHR ''.'' # go_join (CHR ''.'') (tl ?ds)"
    by (simp add: string4_def)
  then have "find (\<lambda>c. c = CHR ''.'' \<or> c = CHR '':'' \<or> c = CHR ''%'') (string4 w) = Some (CHR ''.'')"
    using dec_no_sep[of "octet 0 w"] by (auto intro!: find_sep)
  ultimately show ?thesis by (simp add: ParseAddr_def addr_String_def)
qed

lemma takeWhile_stop: "\<forall>c\<in>set p. P c \<Longrightarrow> \<not> P x \<Longrightarrow> takeWhile P (p @ x # s) = p"
  by (induction p) auto

lemma Split_Join:
  assumes "CHR ''['' \<notin> set host" "CHR '']'' \<notin> set host" "host \<noteq> []"
    and "CHR '':'' \<notin> set port" "CHR ''['' \<notin> set port" "CHR '']'' \<notin> set port"
  shows "SplitHostPort (JoinHostPort host port) = Some (host, port)"
proof -
  have after: "rev (takeWhile (\<lambda>c. c \<noteq> CHR '':'') (rev (xs @ CHR '':'' # port))) = port" for xs :: string
  proof -
    have "\<forall>c\<in>set (rev port). c \<noteq> CHR '':''" using assms(4) by auto
    then have "takeWhile (\<lambda>c. c \<noteq> CHR '':'') (rev port @ CHR '':'' # rev xs) = rev port"
      by (rule takeWhile_stop) simp
    then show ?thesis by simp
  qed
  show ?thesis
  proof (cases "CHR '':'' \<in> set host")
    case False
    have "hd (host @ CHR '':'' # port) \<noteq> CHR ''[''" using assms(1,3) by (cases host) auto
    then show ?thesis using False assms after[of host]
      by (simp add: JoinHostPort_def SplitHostPort_def Let_def)
  next
    case True
    have tw: "takeWhile (\<lambda>c. c \<noteq> CHR '']'') (host @ CHR '']'' # CHR '':'' # port) = host"
      using assms(2) by (intro takeWhile_stop) auto
    show ?thesis using True assms after[of "CHR ''['' # host @ '']''"] tw
      by (simp add: JoinHostPort_def SplitHostPort_def Let_def)
  qed
qed

end
