(* ===== verification/Metadata.thy ===== *)
theory Metadata
  imports NetIP
begin

text \<open>
  The description of a connection that rules are matched against, \<open>constant/metadata.go\<close>, and
  the enumerations around it: connection types and networks, rule types (\<open>constant/rule.go\<close>),
  DNS modes and preferences (\<open>constant/dns.go\<close>), tunnel modes and states (\<open>tunnel/mode.go\<close>,
  \<open>tunnel/status.go\<close>). Go's enumerations are integers: a value that is none of the
  constants has its own constructor. The raw socket addresses of \<open>Metadata\<close>, which the code
  only hands on, are left out.
\<close>

section \<open>Enumerations\<close>

datatype network = TCP | UDP | ALLNet | InvalidNet

fun NetWork_String :: "network \<Rightarrow> string" where
  "NetWork_String TCP = ''tcp''"
| "NetWork_String UDP = ''udp''"
| "NetWork_String ALLNet = ''all''"
| "NetWork_String InvalidNet = ''invalid''"

datatype addr_type = AtypIPv4 | AtypDomainName | AtypIPv6 | OtherAtyp "8 word"

fun AddrType_String :: "addr_type \<Rightarrow> string" where
  "AddrType_String AtypIPv4 = ''IPv4''"
| "AddrType_String AtypDomainName = ''DomainName''"
| "AddrType_String AtypIPv6 = ''IPv6''"
| "AddrType_String (OtherAtyp b) = ''Unknown''"

datatype conn_type =
  HTTP | HTTPS | SOCKS4 | SOCKS5 | SHADOWSOCKS | SNELL | VMESS | VLESS | REDIR | TPROXY
   | TROJAN | TUNNEL | TUN | TUIC | HYSTERIA2 | ANYTLS | MIERU | SUDOKU | TRUSTTUNNEL
   | SHADOWQUIC | INNER | OtherType int

fun Type_String :: "conn_type \<Rightarrow> string" where
  "Type_String HTTP = ''HTTP''"
| "Type_String HTTPS = ''HTTPS''"
| "Type_String SOCKS4 = ''Socks4''"
| "Type_String SOCKS5 = ''Socks5''"
| "Type_String SHADOWSOCKS = ''ShadowSocks''"
| "Type_String SNELL = ''Snell''"
| "Type_String VMESS = ''Vmess''"
| "Type_String VLESS = ''Vless''"
| "Type_String REDIR = ''Redir''"
| "Type_String TPROXY = ''TProxy''"
| "Type_String TROJAN = ''Trojan''"
| "Type_String TUNNEL = ''Tunnel''"
| "Type_String TUN = ''Tun''"
| "Type_String TUIC = ''Tuic''"
| "Type_String HYSTERIA2 = ''Hysteria2''"
| "Type_String ANYTLS = ''AnyTLS''"
| "Type_String MIERU = ''Mieru''"
| "Type_String SUDOKU = ''Sudoku''"
| "Type_String TRUSTTUNNEL = ''TrustTunnel''"
| "Type_String SHADOWQUIC = ''ShadowQuic''"
| "Type_String INNER = ''Inner''"
| "Type_String (OtherType n) = ''Unknown''"

definition type_names :: "(string \<times> conn_type) list" where
  "type_names =
    [(''HTTP'', HTTP), (''HTTPS'', HTTPS), (''SOCKS4'', SOCKS4), (''SOCKS5'', SOCKS5)
     , (''SHADOWSOCKS'', SHADOWSOCKS), (''SNELL'', SNELL), (''VMESS'', VMESS)
     , (''VLESS'', VLESS), (''REDIR'', REDIR), (''TPROXY'', TPROXY), (''TROJAN'', TROJAN)
     , (''TUNNEL'', TUNNEL), (''TUN'', TUN), (''TUIC'', TUIC), (''HYSTERIA2'', HYSTERIA2)
     , (''ANYTLS'', ANYTLS), (''MIERU'', MIERU), (''SUDOKU'', SUDOKU)
     , (''TRUSTTUNNEL'', TRUSTTUNNEL), (''SHADOWQUIC'', SHADOWQUIC), (''INNER'', INNER)]"

definition ParseType :: "string \<Rightarrow> conn_type option" where
  "ParseType t = map_of type_names t"

datatype rule_type =
  RT_Domain | RT_DomainSuffix | RT_DomainKeyword | RT_DomainRegex | RT_DomainWildcard
   | RT_GEOSITE | RT_GEOIP | RT_SrcGEOIP | RT_IPASN | RT_SrcIPASN | RT_IPCIDR | RT_SrcIPCIDR
   | RT_IPSuffix | RT_SrcIPSuffix | RT_SrcPort | RT_DstPort | RT_InPort | RT_DSCP
   | RT_InUser | RT_InName | RT_InType | RT_ProcessName | RT_ProcessPath
   | RT_ProcessNameRegex | RT_ProcessPathRegex | RT_ProcessNameWildcard
   | RT_ProcessPathWildcard | RT_RematchName | RT_RuleSet | RT_Network | RT_Uid
   | RT_SubRules | RT_MATCH | RT_AND | RT_OR | RT_NOT | RT_Other int

fun RuleType_String :: "rule_type \<Rightarrow> string" where
  "RuleType_String RT_Domain = ''Domain''"
| "RuleType_String RT_DomainSuffix = ''DomainSuffix''"
| "RuleType_String RT_DomainKeyword = ''DomainKeyword''"
| "RuleType_String RT_DomainRegex = ''DomainRegex''"
| "RuleType_String RT_DomainWildcard = ''DomainWildcard''"
| "RuleType_String RT_GEOSITE = ''GeoSite''"
| "RuleType_String RT_GEOIP = ''GeoIP''"
| "RuleType_String RT_SrcGEOIP = ''SrcGeoIP''"
| "RuleType_String RT_IPASN = ''IPASN''"
| "RuleType_String RT_SrcIPASN = ''SrcIPASN''"
| "RuleType_String RT_IPCIDR = ''IPCIDR''"
| "RuleType_String RT_SrcIPCIDR = ''SrcIPCIDR''"
| "RuleType_String RT_IPSuffix = ''IPSuffix''"
| "RuleType_String RT_SrcIPSuffix = ''SrcIPSuffix''"
| "RuleType_String RT_SrcPort = ''SrcPort''"
| "RuleType_String RT_DstPort = ''DstPort''"
| "RuleType_String RT_InPort = ''InPort''"
| "RuleType_String RT_DSCP = ''DSCP''"
| "RuleType_String RT_InUser = ''InUser''"
| "RuleType_String RT_InName = ''InName''"
| "RuleType_String RT_InType = ''InType''"
| "RuleType_String RT_ProcessName = ''ProcessName''"
| "RuleType_String RT_ProcessPath = ''ProcessPath''"
| "RuleType_String RT_ProcessNameRegex = ''ProcessNameRegex''"
| "RuleType_String RT_ProcessPathRegex = ''ProcessPathRegex''"
| "RuleType_String RT_ProcessNameWildcard = ''ProcessNameWildcard''"
| "RuleType_String RT_ProcessPathWildcard = ''ProcessPathWildcard''"
| "RuleType_String RT_RematchName = ''RematchName''"
| "RuleType_String RT_RuleSet = ''RuleSet''"
| "RuleType_String RT_Network = ''Network''"
| "RuleType_String RT_Uid = ''Uid''"
| "RuleType_String RT_SubRules = ''SubRules''"
| "RuleType_String RT_MATCH = ''Match''"
| "RuleType_String RT_AND = ''AND''"
| "RuleType_String RT_OR = ''OR''"
| "RuleType_String RT_NOT = ''NOT''"
| "RuleType_String (RT_Other n) = ''Unknown''"

datatype dns_mode = DNSNormal | DNSFakeIP | DNSMapping | DNSHosts | OtherDNSMode int

fun DNSMode_String :: "dns_mode \<Rightarrow> string" where
  "DNSMode_String DNSNormal = ''normal''"
| "DNSMode_String DNSFakeIP = ''fake-ip''"
| "DNSMode_String DNSMapping = ''redir-host''"
| "DNSMode_String DNSHosts = ''hosts''"
| "DNSMode_String (OtherDNSMode n) = ''unknown''"

definition DNSMode_mapping :: "(string \<times> dns_mode) list" where
  "DNSMode_mapping =
    [(DNSMode_String DNSNormal, DNSNormal), (DNSMode_String DNSFakeIP, DNSFakeIP)
     , (DNSMode_String DNSMapping, DNSMapping)]"

definition DNSMode_UnmarshalText :: "string \<Rightarrow> dns_mode option" where
  "DNSMode_UnmarshalText data = map_of DNSMode_mapping (ToLower data)"

datatype dns_prefer = DualStack | IPv4Only | IPv6Only | IPv4Prefer | IPv6Prefer | OtherDNSPrefer int

fun DNSPrefer_String :: "dns_prefer \<Rightarrow> string" where
  "DNSPrefer_String DualStack = ''dual''"
| "DNSPrefer_String IPv4Only = ''ipv4''"
| "DNSPrefer_String IPv6Only = ''ipv6''"
| "DNSPrefer_String IPv4Prefer = ''ipv4-prefer''"
| "DNSPrefer_String IPv6Prefer = ''ipv6-prefer''"
| "DNSPrefer_String (OtherDNSPrefer n) = ''dual''"

definition DNSPrefer_mapping :: "(string \<times> dns_prefer) list" where
  "DNSPrefer_mapping =
    [(DNSPrefer_String DualStack, DualStack), (DNSPrefer_String IPv4Only, IPv4Only)
     , (DNSPrefer_String IPv6Only, IPv6Only), (DNSPrefer_String IPv4Prefer, IPv4Prefer)
     , (DNSPrefer_String IPv6Prefer, IPv6Prefer)]"

definition DNSPrefer_UnmarshalText :: "string \<Rightarrow> dns_prefer" where
  "DNSPrefer_UnmarshalText data =
     (case map_of DNSPrefer_mapping (ToLower data) of Some x \<Rightarrow> x | None \<Rightarrow> DualStack)"

datatype filter_mode = FilterBlackList | FilterWhiteList | FilterRule | OtherFilterMode int

fun FilterMode_String :: "filter_mode \<Rightarrow> string" where
  "FilterMode_String FilterBlackList = ''blacklist''"
| "FilterMode_String FilterWhiteList = ''whitelist''"
| "FilterMode_String FilterRule = ''rule''"
| "FilterMode_String (OtherFilterMode n) = ''unknown''"

definition FilterMode_mapping :: "(string \<times> filter_mode) list" where
  "FilterMode_mapping =
    [(FilterMode_String FilterBlackList, FilterBlackList)
     , (FilterMode_String FilterWhiteList, FilterWhiteList)
     , (FilterMode_String FilterRule, FilterRule)]"

definition FilterMode_UnmarshalText :: "string \<Rightarrow> filter_mode option" where
  "FilterMode_UnmarshalText data = map_of FilterMode_mapping (ToLower data)"

datatype tunnel_mode = ModeGlobal | ModeRule | ModeDirect | OtherTunnelMode int

fun TunnelMode_String :: "tunnel_mode \<Rightarrow> string" where
  "TunnelMode_String ModeGlobal = ''global''"
| "TunnelMode_String ModeRule = ''rule''"
| "TunnelMode_String ModeDirect = ''direct''"
| "TunnelMode_String (OtherTunnelMode n) = ''Unknown''"

definition TunnelMode_mapping :: "(string \<times> tunnel_mode) list" where
  "TunnelMode_mapping =
    [(TunnelMode_String ModeGlobal, ModeGlobal), (TunnelMode_String ModeRule, ModeRule)
     , (TunnelMode_String ModeDirect, ModeDirect)]"

definition TunnelMode_UnmarshalText :: "string \<Rightarrow> tunnel_mode option" where
  "TunnelMode_UnmarshalText data = map_of TunnelMode_mapping (ToLower data)"

datatype tunnel_status = StatusSuspend | StatusInner | StatusRunning | OtherTunnelStatus int

fun TunnelStatus_String :: "tunnel_status \<Rightarrow> string" where
  "TunnelStatus_String StatusSuspend = ''suspend''"
| "TunnelStatus_String StatusInner = ''inner''"
| "TunnelStatus_String StatusRunning = ''running''"
| "TunnelStatus_String (OtherTunnelStatus n) = ''Unknown''"

definition TunnelStatus_mapping :: "(string \<times> tunnel_status) list" where
  "TunnelStatus_mapping =
    [(TunnelStatus_String StatusSuspend, StatusSuspend)
     , (TunnelStatus_String StatusInner, StatusInner)
     , (TunnelStatus_String StatusRunning, StatusRunning)]"

definition TunnelStatus_UnmarshalText :: "string \<Rightarrow> tunnel_status option" where
  "TunnelStatus_UnmarshalText data = map_of TunnelStatus_mapping (ToLower data)"

section \<open>Metadata\<close>

record metadata =
  md_NetWork :: network
  md_Type :: conn_type
  md_SrcIP :: addr
  md_DstIP :: addr
  md_SrcGeoIP :: "string list option"
  md_DstGeoIP :: "string list option"
  md_SrcIPASN :: string
  md_DstIPASN :: string
  md_SrcPort :: "16 word"
  md_DstPort :: "16 word"
  md_InIP :: addr
  md_InPort :: "16 word"
  md_InName :: string
  md_InUser :: string
  md_RematchName :: string
  md_Host :: string
  md_DNSMode :: dns_mode
  md_Uid :: "32 word"
  md_Process :: string
  md_ProcessPath :: string
  md_SpecialProxy :: string
  md_SpecialRules :: string
  md_RemoteDst :: string
  md_DSCP :: "8 word"
  md_SniffHost :: string

definition metadata_zero :: metadata where
  "metadata_zero =
     \<lparr>md_NetWork = TCP, md_Type = HTTP, md_SrcIP = NoAddr, md_DstIP = NoAddr, md_SrcGeoIP = None,
      md_DstGeoIP = None, md_SrcIPASN = [], md_DstIPASN = [], md_SrcPort = 0, md_DstPort = 0,
      md_InIP = NoAddr, md_InPort = 0, md_InName = [], md_InUser = [], md_RematchName = [],
      md_Host = [], md_DNSMode = DNSNormal, md_Uid = 0, md_Process = [], md_ProcessPath = [],
      md_SpecialProxy = [], md_SpecialRules = [], md_RemoteDst = [], md_DSCP = 0, md_SniffHost = []\<rparr>"

definition md_String :: "metadata \<Rightarrow> string" where
  "md_String m =
     (if md_Host m \<noteq> [] then md_Host m
      else if addr_IsValid (md_DstIP m) then addr_String (md_DstIP m)
      else ''<nil>'')"

definition md_RemoteAddress :: "metadata \<Rightarrow> string" where
  "md_RemoteAddress m = JoinHostPort (md_String m) (dec (unat (md_DstPort m)))"

definition md_SourceAddress :: "metadata \<Rightarrow> string" where
  "md_SourceAddress m = JoinHostPort (addr_String (md_SrcIP m)) (dec (unat (md_SrcPort m)))"

definition md_SourceAddrPort :: "metadata \<Rightarrow> addr \<times> 16 word" where
  "md_SourceAddrPort m = (addr_Unmap (md_SrcIP m), md_SrcPort m)"

definition md_SourceDetail :: "metadata \<Rightarrow> string" where
  "md_SourceDetail m =
     (if md_Type m = INNER then ''mihomo''
      else if md_Process m \<noteq> [] \<and> md_Uid m \<noteq> 0 then
        md_SourceAddress m @ ''('' @ md_Process m @ '', uid='' @ dec (unat (md_Uid m)) @ '')''
      else if md_Uid m \<noteq> 0 then md_SourceAddress m @ ''(uid='' @ dec (unat (md_Uid m)) @ '')''
      else if md_Process m \<noteq> [] then md_SourceAddress m @ ''('' @ md_Process m @ '')''
      else md_SourceAddress m)"

definition md_SourceValid :: "metadata \<Rightarrow> bool" where
  "md_SourceValid m \<longleftrightarrow> md_SrcPort m \<noteq> 0 \<and> addr_IsValid (md_SrcIP m)"

definition md_AddrType :: "metadata \<Rightarrow> addr_type" where
  "md_AddrType m =
     (if md_Host m \<noteq> [] \<or> \<not> addr_IsValid (md_DstIP m) then AtypDomainName
      else if addr_Is4 (md_DstIP m) then AtypIPv4
      else AtypIPv6)"

definition md_Resolved :: "metadata \<Rightarrow> bool" where
  "md_Resolved m \<longleftrightarrow> addr_IsValid (md_DstIP m)"

definition md_RuleHost :: "metadata \<Rightarrow> string" where
  "md_RuleHost m = (if length (md_SniffHost m) = 0 then md_Host m else md_SniffHost m)"

definition md_Pure :: "metadata \<Rightarrow> metadata" where
  "md_Pure m =
     (if (md_DNSMode m = DNSMapping \<or> md_DNSMode m = DNSHosts) \<and> addr_IsValid (md_DstIP m)
      then m\<lparr>md_Host := []\<rparr> else m)"

definition md_AddrPort :: "metadata \<Rightarrow> addr \<times> 16 word" where
  "md_AddrPort m = (addr_Unmap (md_DstIP m), md_DstPort m)"

definition md_UDPAddr :: "metadata \<Rightarrow> (addr \<times> 16 word) option" where
  "md_UDPAddr m =
     (if md_NetWork m \<noteq> UDP \<or> \<not> addr_IsValid (md_DstIP m) then None else Some (md_AddrPort m))"

definition md_Valid :: "metadata \<Rightarrow> bool" where
  "md_Valid m \<longleftrightarrow> md_Host m \<noteq> [] \<or> addr_IsValid (md_DstIP m)"

text \<open>The setters answer whether they succeeded and the metadata they leave.\<close>

definition md_SetRemoteAddress :: "string \<Rightarrow> metadata \<Rightarrow> bool \<times> metadata" where
  "md_SetRemoteAddress rawAddress m =
     (case SplitHostPort rawAddress of
        None \<Rightarrow> (False, m)
      | Some (host, port) \<Rightarrow>
          let uint16Port = (case ParseUint port of
                Some n \<Rightarrow> if n < 65536 then word_of_nat n else 0 | None \<Rightarrow> 0);
              m = (case ParseAddr host of
                None \<Rightarrow> m\<lparr>md_Host := host, md_DstIP := NoAddr\<rparr>
              | Some ip \<Rightarrow> m\<lparr>md_Host := [], md_DstIP := addr_Unmap ip\<rparr>) in
          (True, m\<lparr>md_DstPort := uint16Port\<rparr>))"

text \<open>A \<open>net.Addr\<close> with the optional methods that the code looks for: the result of \<open>RawAddr\<close>
  when it is not nil, \<open>AddrPort\<close>, \<open>AddrString\<close>, and \<open>String\<close>.\<close>

datatype net_addr = NetAddr
  (na_RawAddr: "net_addr option") (na_AddrPort: "(addr \<times> 16 word) option")
  (na_AddrString: "string option") (na_String: string)

fun md_SetRemoteAddr :: "net_addr \<Rightarrow> metadata \<Rightarrow> bool \<times> metadata" where
  "md_SetRemoteAddr (NetAddr raw ap fqdn text) m =
     (let (ok, m) = (case raw of None \<Rightarrow> (False, m) | Some r \<Rightarrow> md_SetRemoteAddr r m) in
      if ok then (True, m)
      else case ap of
        None \<Rightarrow> md_SetRemoteAddress text m
      | Some (ip, port) \<Rightarrow>
          if port = 0 then md_SetRemoteAddress text m
          else let m = m\<lparr>md_DstPort := port\<rparr> in
            if addr_IsValid ip then (True, m\<lparr>md_DstIP := addr_Unmap ip\<rparr>)
            else case fqdn of
              Some h \<Rightarrow> (True, m\<lparr>md_Host := h\<rparr>)
            | None \<Rightarrow> md_SetRemoteAddress text m)"

definition md_SwapSrcDst :: "metadata \<Rightarrow> metadata" where
  "md_SwapSrcDst m =
     m\<lparr>md_SrcIP := md_DstIP m, md_DstIP := md_SrcIP m,
       md_SrcPort := md_DstPort m, md_DstPort := md_SrcPort m,
       md_SrcIPASN := md_DstIPASN m, md_DstIPASN := md_SrcIPASN m,
       md_SrcGeoIP := md_DstGeoIP m, md_DstGeoIP := md_SrcGeoIP m\<rparr>"

section \<open>Lemmas\<close>

lemma md_SwapSrcDst_twice [simp]: "md_SwapSrcDst (md_SwapSrcDst m) = m"
  by (simp add: md_SwapSrcDst_def)

lemma md_Pure_idem [simp]: "md_Pure (md_Pure m) = md_Pure m"
  by (simp add: md_Pure_def)

lemma md_Pure_Valid: "md_Valid m \<Longrightarrow> md_Valid (md_Pure m)"
  by (simp add: md_Pure_def md_Valid_def)

lemma type_cases_all: "(\<And>t. t \<in> set (map snd type_names) \<Longrightarrow> P t) \<Longrightarrow> (\<And>n. P (OtherType n)) \<Longrightarrow> P t"
  by (cases t) (simp_all add: type_names_def)

text \<open>
  For every connection type of the code, the name it prints parses back to it once it is
  upper-cased, as \<open>IN-TYPE\<close> rules do; no unknown value prints a name that parses.
\<close>

theorem conn_type_roundtrip:
  "ParseType (ToUpper (Type_String t)) = (case t of OtherType n \<Rightarrow> None | _ \<Rightarrow> Some t)"
  by (cases t) (simp_all, code_simp+)

lemma dec_port: "ParseUint (dec (unat (p :: 16 word))) = Some (unat p)" "unat (p :: 16 word) < 65536"
proof -
  show b: "unat p < 65536" using unsigned_less[of p, where ?'a = nat] by simp
  then show "ParseUint (dec (unat p)) = Some (unat p)" by (intro ParseUint_dec) simp
qed

lemma string4_chars: "CHR ''['' \<notin> set (string4 w)" "CHR '']'' \<notin> set (string4 w)" "string4 w \<noteq> []"
  by (simp_all add: string4_def dec_no_sep)

text \<open>
  The remote address that \<open>RemoteAddress\<close> prints for a domain name (one that is no IP literal)
  or for an IPv4 destination is read back by \<open>SetRemoteAddress\<close> as the same host or IP and port.
\<close>

theorem remote_address_roundtrip:
  assumes "(md_Host m \<noteq> [] \<and> md_DstIP m = NoAddr \<and> CHR ''['' \<notin> set (md_Host m) \<and>
      CHR '']'' \<notin> set (md_Host m) \<and> ParseAddr (md_Host m) = None) \<or>
    (md_Host m = [] \<and> addr_Is4 (md_DstIP m))"
  shows "md_SetRemoteAddress (md_RemoteAddress m) m = (True, m)"
  using assms
proof
  assume h: "md_Host m \<noteq> [] \<and> md_DstIP m = NoAddr \<and> CHR ''['' \<notin> set (md_Host m) \<and>
      CHR '']'' \<notin> set (md_Host m) \<and> ParseAddr (md_Host m) = None"
  have "SplitHostPort (md_RemoteAddress m) = Some (md_Host m, dec (unat (md_DstPort m)))"
    using h by (simp add: md_RemoteAddress_def md_String_def Split_Join dec_no_sep)
  with h show ?thesis by (simp add: md_SetRemoteAddress_def dec_port)
next
  assume h: "md_Host m = [] \<and> addr_Is4 (md_DstIP m)"
  then obtain w where w: "md_DstIP m = V4 w" by (cases "md_DstIP m") auto
  have "SplitHostPort (md_RemoteAddress m) = Some (string4 w, dec (unat (md_DstPort m)))"
    using h w by (simp add: md_RemoteAddress_def md_String_def addr_IsValid_def addr_String_def
      Split_Join dec_no_sep string4_chars)
  moreover have "ParseAddr (string4 w) = Some (V4 w)" using ParseAddr_V4 by (simp add: addr_String_def)
  ultimately show ?thesis using h w by (simp add: md_SetRemoteAddress_def dec_port)
qed

theorem remote_address_roundtrip_witness:
  "md_SetRemoteAddress (md_RemoteAddress (metadata_zero\<lparr>md_DstIP := V4 0x08080404, md_DstPort := 53\<rparr>))
     (metadata_zero\<lparr>md_DstIP := V4 0x08080404, md_DstPort := 53\<rparr>)
   = (True, metadata_zero\<lparr>md_DstIP := V4 0x08080404, md_DstPort := 53\<rparr>)"
  by (rule remote_address_roundtrip) (simp add: metadata_zero_def)

end
