(* ===== verification/IntRanges.thy ===== *)
theory IntRanges
  imports GoStrings
begin

text \<open>
  Integer ranges and lists of them, \<open>common/utils/range.go\<close> and \<open>common/utils/ranges.go\<close>: the
  value behind \<open>DST-PORT\<close>, \<open>DSCP\<close> and \<open>UID\<close> rules, expected HTTP statuses and listener ports.
  A range is generic in its ordered element type, as in the code; parsing is given for the
  unsigned machine integers \<open>'w word\<close> (\<open>uint8\<close>, \<open>uint16\<close>, \<open>uint32\<close>, \<open>uint64\<close>). An error is
  \<open>None\<close>.
\<close>

section \<open>Ranges\<close>

record 'a rng =
  rg_start :: 'a
  rg_end :: 'a

definition NewRange :: "'a::linorder \<Rightarrow> 'a \<Rightarrow> 'a rng" where
  "NewRange a b = (if a > b then \<lparr>rg_start = b, rg_end = a\<rparr> else \<lparr>rg_start = a, rg_end = b\<rparr>)"

definition rg_Contains :: "'a::linorder rng \<Rightarrow> 'a \<Rightarrow> bool" where
  "rg_Contains r t \<longleftrightarrow> t \<ge> rg_start r \<and> t \<le> rg_end r"

definition rg_LeftContains :: "'a::linorder rng \<Rightarrow> 'a \<Rightarrow> bool" where
  "rg_LeftContains r t \<longleftrightarrow> t \<ge> rg_start r \<and> t < rg_end r"

definition rg_RightContains :: "'a::linorder rng \<Rightarrow> 'a \<Rightarrow> bool" where
  "rg_RightContains r t \<longleftrightarrow> t > rg_start r \<and> t \<le> rg_end r"

definition rg_String :: "'w::len word rng \<Rightarrow> string" where
  "rg_String r =
     (if rg_start r = rg_end r then dec (unat (rg_start r))
      else dec (unat (rg_start r)) @ CHR ''-'' # dec (unat (rg_end r)))"

text \<open>The conversion \<open>T(val)\<close> of a 64-bit value keeps its low bits.\<close>

definition parseUnsigned :: "string \<Rightarrow> 'w::len word option" where
  "parseUnsigned s = map_option word_of_nat (ParseUint s)"

definition newIntRange ::
  "string \<Rightarrow> (string \<Rightarrow> 'a::{linorder,zero} option) \<Rightarrow> 'a rng option" where
  "newIntRange s0 parseFn =
     (let s = TrimSpace s0 in
      if length s = 0 then Some (NewRange 0 0)
      else let status = go_split (CHR ''-'') s;
               cut = trim_set {CHR ''['', CHR '' '', CHR '']''} in
        case parseFn (cut (status ! 0)) of
          None \<Rightarrow> None
        | Some start \<Rightarrow>
            if length status = 1 then Some (NewRange start start)
            else if length status = 2 then
              (case parseFn (cut (status ! 1)) of
                 None \<Rightarrow> None | Some e \<Rightarrow> Some (NewRange start e))
            else None)"

definition NewUnsignedRange :: "string \<Rightarrow> 'w::len word rng option" where
  "NewUnsignedRange s = newIntRange s parseUnsigned"

section \<open>Lists of ranges\<close>

fun newIntRangesFromList ::
  "string list \<Rightarrow> (string \<Rightarrow> 'a::{linorder,zero} option) \<Rightarrow> 'a rng list option" where
  "newIntRangesFromList [] parseFn = Some []"
| "newIntRangesFromList (s # ss) parseFn =
     (if s = [] then newIntRangesFromList ss parseFn
      else case newIntRange s parseFn of
        None \<Rightarrow> None
      | Some r \<Rightarrow> map_option (\<lambda>rs. r # rs) (newIntRangesFromList ss parseFn))"

definition newIntRanges ::
  "string \<Rightarrow> (string \<Rightarrow> 'a::{linorder,zero} option) \<Rightarrow> 'a rng list option" where
  "newIntRanges expected0 parseFn =
     (let expected = TrimSpace expected0 in
      if length expected = 0 \<or> expected = ''*'' then Some []
      else let list = go_split (CHR ''/'') (map (\<lambda>c. if c = CHR '','' then CHR ''/'' else c) expected) in
        if length list > 28 then None else newIntRangesFromList list parseFn)"

definition NewUnsignedRanges :: "string \<Rightarrow> 'w::len word rng list option" where
  "NewUnsignedRanges s = newIntRanges s parseUnsigned"

definition NewUnsignedRangesFromList :: "string list \<Rightarrow> 'w::len word rng list option" where
  "NewUnsignedRangesFromList l = newIntRangesFromList l parseUnsigned"

definition ir_Check :: "'a::linorder rng list \<Rightarrow> 'a \<Rightarrow> bool" where
  "ir_Check rs t \<longleftrightarrow> rs = [] \<or> list_ex (\<lambda>r. rg_Contains r t) rs"

definition ir_String :: "'w::len word rng list \<Rightarrow> string" where
  "ir_String rs = (if rs = [] then ''*'' else go_join (CHR ''/'') (map rg_String rs))"

text \<open>The iteration of \<open>Range\<close>: the values handed to the callback \<open>f\<close>, and whether it accepted
  them all. The successor of the largest value wraps to 0, which ends the loop.\<close>

lemma word_succ_less:
  fixes i :: "'w::len word" shows "\<not> i + 1 < i \<Longrightarrow> i < i + 1"
  by (metis add_cancel_left_right linorder_neqE one_neq_zero)

lemma word_succ_wraps:
  fixes i :: "'w::len word" assumes "i + 1 < i" shows "i = - 1"
proof -
  have "unat (i + 1) = (unat i + 1) mod 2 ^ LENGTH('w)" by (simp add: unat_word_ariths)
  with assms have "\<not> unat i + 1 < 2 ^ LENGTH('w)" by (auto simp: word_less_nat_alt)
  then have "unat i = 2 ^ LENGTH('w) - 1" using unsigned_less[of i, where ?'a = nat] by linarith
  then have "unat i = unat (- 1 :: 'w word)" by (simp add: unsigned_minus_1_eq_mask mask_eq_exp_minus_1)
  then show ?thesis by (simp add: unsigned_word_eqI)
qed

function rg_walk :: "('w::len word \<Rightarrow> bool) \<Rightarrow> 'w word rng \<Rightarrow> 'w word \<Rightarrow> 'w word list \<times> bool" where
  "rg_walk f r i =
     (if i \<le> rg_end r \<and> i \<ge> rg_start r then
        (if \<not> f i then ([i], False)
         else if i + 1 < i then ([i], True)
         else let (vs, go) = rg_walk f r (i + 1) in (i # vs, go))
      else ([], True))"
  by auto
termination
proof (relation "measure (\<lambda>(f, r, i). Suc (unat (rg_end r)) - unat i)", goal_cases)
  case (2 f r i)
  then have "unat i < unat (i + 1)" "unat i \<le> unat (rg_end r)"
    using word_succ_less[of i] by (auto simp: word_less_nat_alt word_le_nat_alt)
  then show ?case by simp
qed simp

declare rg_walk.simps [simp del]

fun ir_Range :: "('w::len word \<Rightarrow> bool) \<Rightarrow> 'w word rng list \<Rightarrow> 'w word list" where
  "ir_Range f [] = []"
| "ir_Range f (r # rs) =
     (let (vs, go) = rg_walk f r (rg_start r) in if go then vs @ ir_Range f rs else vs)"

text \<open>
  \<open>Merge\<close> works in the array of its argument: \<open>mergedRanges\<close> is the prefix of the sorted array
  up to index \<open>ri\<close>, and the loop reads the entry at \<open>k\<close> while it overwrites earlier ones.
\<close>

definition merge_step :: "'w::len word rng list \<times> nat \<Rightarrow> nat \<Rightarrow> 'w word rng list \<times> nat" where
  "merge_step = (\<lambda>(a, ri) k.
     let r = a ! k; m = a ! ri in
     if rg_end m + 1 > rg_end m \<and> rg_start r > rg_end m + 1 then (a[Suc ri := r], Suc ri)
     else if rg_end r > rg_end m then (a[ri := m\<lparr>rg_end := rg_end r\<rparr>], ri)
     else (a, ri))"

definition ir_merge_sorted :: "'w::len word rng list \<Rightarrow> 'w word rng list" where
  "ir_merge_sorted a = (case foldl merge_step (a, 0) [1..<length a] of (b, ri) \<Rightarrow> take (Suc ri) b)"

definition ir_Merge :: "'w::len word rng list \<Rightarrow> 'w word rng list" where
  "ir_Merge rs = (if rs = [] then [] else ir_merge_sorted (sort_key rg_start rs))"

section \<open>Membership\<close>

definition rg_ok :: "'a::linorder rng \<Rightarrow> bool" where
  "rg_ok r \<longleftrightarrow> rg_start r \<le> rg_end r"

definition ir_member :: "'a::linorder rng list \<Rightarrow> 'a \<Rightarrow> bool" where
  "ir_member rs t \<longleftrightarrow> (\<exists>r\<in>set rs. rg_Contains r t)"

lemma NewRange_ok [simp]: "rg_ok (NewRange a b)"
  by (auto simp: NewRange_def rg_ok_def)

lemma ir_Check_iff: "ir_Check rs t \<longleftrightarrow> rs = [] \<or> ir_member rs t"
  by (auto simp: ir_Check_def ir_member_def list_ex_iff)

lemma newIntRange_ok: "newIntRange s p = Some r \<Longrightarrow> rg_ok r"
  by (auto simp: newIntRange_def Let_def split: if_splits option.splits)

lemma newIntRangesFromList_ok:
  "newIntRangesFromList ss p = Some rs \<Longrightarrow> r \<in> set rs \<Longrightarrow> rg_ok r"
  by (induction ss p arbitrary: rs rule: newIntRangesFromList.induct)
     (auto split: if_splits option.splits dest: newIntRange_ok)

text \<open>Walking a range whose last value is the largest of the type ends as well.\<close>

lemma rg_walk_values:
  assumes "rg_start r \<le> i" "f = (\<lambda>_. True)"
  shows "snd (rg_walk f r i) \<and> set (fst (rg_walk f r i)) = {x. i \<le> x \<and> x \<le> rg_end r}"
  using assms
proof (induction f r i rule: rg_walk.induct)
  case (1 f r i)
  show ?case
  proof (cases "i \<le> rg_end r")
    case False
    then show ?thesis using 1 by (subst (1 2) rg_walk.simps) auto
  next
    case le: True
    show ?thesis
    proof (cases "i + 1 < i")
      case True
      then have "i = - 1" by (rule word_succ_wraps)
      then show ?thesis using True le 1 by (subst (1 2) rg_walk.simps) (auto simp: word_order.extremum_unique)
    next
      case False
      then have lt: "i < i + 1" by (rule word_succ_less)
      have ge: "rg_start r \<le> i + 1" using 1(2) lt by simp
      have IH: "snd (rg_walk f r (i + 1)) \<and> set (fst (rg_walk f r (i + 1))) = {x. i + 1 \<le> x \<and> x \<le> rg_end r}"
        using 1(1)[OF _ _ False ge 1(3)] le 1(2,3) by simp
      have eq: "rg_walk f r i = (i # fst (rg_walk f r (i + 1)), snd (rg_walk f r (i + 1)))"
        using le False 1(2,3) by (subst rg_walk.simps) (simp add: case_prod_beta)
      have "{x. i \<le> x \<and> x \<le> rg_end r} = insert i {x. i + 1 \<le> x \<and> x \<le> rg_end r}"
      proof (rule set_eqI)
        fix x
        have "i \<le> x \<longleftrightarrow> x = i \<or> i + 1 \<le> x"
          using lt by (metis inc_le order_le_less order_less_le_trans)
        then show "x \<in> {x. i \<le> x \<and> x \<le> rg_end r} \<longleftrightarrow> x \<in> insert i {x. i + 1 \<le> x \<and> x \<le> rg_end r}"
          using le by (simp only: mem_Collect_eq insert_iff) blast
      qed
      with IH show ?thesis unfolding eq by simp
    qed
  qed
qed

section \<open>Merging\<close>

definition rg_apart :: "'w::len word rng \<Rightarrow> 'w word rng \<Rightarrow> bool" where
  "rg_apart m r \<longleftrightarrow> rg_end m + 1 > rg_end m \<and> rg_start r > rg_end m + 1"

text \<open>The merge written as a recursion over the ranges still to be read.\<close>

fun merge_from :: "'w::len word rng \<Rightarrow> 'w word rng list \<Rightarrow> 'w word rng list" where
  "merge_from m [] = [m]"
| "merge_from m (r # rs) =
     (if rg_apart m r then m # merge_from r rs
      else if rg_end r > rg_end m then merge_from (m\<lparr>rg_end := rg_end r\<rparr>) rs
      else merge_from m rs)"

lemma update_after: "(pre @ m # junk @ r # rs)[Suc (length pre) := r]
    = (pre @ [m]) @ r # tl (junk @ [r]) @ rs"
  by (cases junk) (simp_all add: list_update_append)

lemma merge_in_place:
  assumes "a = pre @ m # junk @ rs"
  shows "(case foldl merge_step (a, length pre) [Suc (length pre + length junk)..<length a] of
      (b, ri) \<Rightarrow> take (Suc ri) b) = pre @ merge_from m rs"
  using assms
proof (induction rs arbitrary: a pre m junk)
  case Nil
  then show ?case by simp
next
  case (Cons r rs)
  let ?k = "Suc (length pre + length junk)"
  have upt: "[?k..<length a] = ?k # [Suc ?k..<length a]"
    by (rule upt_conv_Cons) (simp add: Cons.prems)
  have k: "a ! ?k = r" "a ! length pre = m"
    using Cons.prems by (simp_all add: nth_append)
  show ?case
  proof (cases "rg_apart m r")
    case True
    have step: "merge_step (a, length pre) ?k = ((pre @ [m]) @ r # tl (junk @ [r]) @ rs, length (pre @ [m]))"
      using True k update_after[of pre m junk r rs] Cons.prems
      by (simp add: merge_step_def Let_def rg_apart_def)
    show ?thesis
      unfolding upt foldl_Cons step
      using Cons.IH[OF refl, of "pre @ [m]" r "tl (junk @ [r])"] True Cons.prems by simp
  next
    case False
    define m' where "m' = (if rg_end r > rg_end m then m\<lparr>rg_end := rg_end r\<rparr> else m)"
    have step: "merge_step (a, length pre) ?k = (pre @ m' # (junk @ [r]) @ rs, length pre)"
      using False k Cons.prems
      by (auto simp: merge_step_def Let_def rg_apart_def m'_def list_update_append)
    show ?thesis
      unfolding upt foldl_Cons step
      using Cons.IH[OF refl, of pre m' "junk @ [r]"] False Cons.prems by (simp add: m'_def)
  qed
qed

lemma ir_merge_sorted_from: "ir_merge_sorted (m # rs) = merge_from m rs"
  using merge_in_place[of "m # rs" "[]" m "[]" rs]
  by (simp add: ir_merge_sorted_def del: upt_Suc)

lemma rg_join:
  assumes "rg_ok m" "rg_ok r" "rg_start m \<le> rg_start r" "\<not> rg_apart m r"
  shows "rg_Contains m t \<or> rg_Contains r t \<longleftrightarrow>
    rg_Contains (if rg_end r > rg_end m then m\<lparr>rg_end := rg_end r\<rparr> else m) t"
proof -
  have "rg_start r \<le> t" if "rg_end m < t"
  proof (cases "rg_end m + 1 > rg_end m")
    case True
    with assms(4) have "rg_start r \<le> rg_end m + 1" by (simp add: rg_apart_def)
    also have "\<dots> \<le> t" using that by (rule inc_le)
    finally show ?thesis .
  next
    case False
    then have "rg_end m + 1 < rg_end m" using word_succ_less[of "rg_end m"] by blast
    then have "rg_end m = - 1" by (rule word_succ_wraps)
    with that have False using word_order.not_eq_extremum[of t] by (simp add: word_order.extremum_strict)
    then show ?thesis ..
  qed
  then show ?thesis using assms(1-3)
    by (cases "rg_end m < t") (auto simp: rg_Contains_def rg_ok_def not_less)
qed

lemma merge_from_member:
  assumes "\<forall>r\<in>set (m # rs). rg_ok r" "sorted (map rg_start (m # rs))"
  shows "ir_member (merge_from m rs) t \<longleftrightarrow> ir_member (m # rs) t"
  using assms
proof (induction m rs rule: merge_from.induct)
  case (2 m r rs)
  show ?case
  proof (cases "rg_apart m r")
    case True
    with 2 show ?thesis by (simp add: ir_member_def)
  next
    case False
    let ?m = "if rg_end r > rg_end m then m\<lparr>rg_end := rg_end r\<rparr> else m"
    have "rg_ok ?m" using 2(4,5) by (auto simp: rg_ok_def)
    then have "ir_member (merge_from ?m rs) t \<longleftrightarrow> ir_member (?m # rs) t"
      using 2(2,3)[OF False] 2(4,5) by (cases "rg_end r > rg_end m") auto
    moreover have "rg_Contains m t \<or> rg_Contains r t \<longleftrightarrow> rg_Contains ?m t"
      using 2(4,5) False by (intro rg_join) auto
    ultimately show ?thesis using False by (auto simp: ir_member_def)
  qed
qed simp

lemma merge_from_head: "merge_from m rs \<noteq> [] \<and> rg_start (hd (merge_from m rs)) = rg_start m"
  by (induction m rs rule: merge_from.induct) auto

lemma merge_from_apart:
  assumes "\<forall>r\<in>set (m # rs). rg_ok r" "sorted (map rg_start (m # rs))"
  shows "successively rg_apart (merge_from m rs) \<and> (\<forall>r\<in>set (merge_from m rs). rg_ok r)"
  using assms
proof (induction m rs rule: merge_from.induct)
  case (2 m r rs)
  show ?case
  proof (cases "rg_apart m r")
    case True
    obtain h hs where h: "merge_from r rs = h # hs" "rg_start h = rg_start r"
      using merge_from_head[of r rs] by (cases "merge_from r rs") auto
    with 2 True show ?thesis by (auto simp: rg_apart_def)
  next
    case False
    show ?thesis
    proof (cases "rg_end r > rg_end m")
      case True
      let ?m = "m\<lparr>rg_end := rg_end r\<rparr>"
      have "\<forall>r\<in>set (?m # rs). rg_ok r" "sorted (map rg_start (?m # rs))"
        using 2(4,5) by (auto simp: rg_ok_def)
      from 2(2)[OF False True this] show ?thesis using False True by simp
    next
      case no: False
      have "\<forall>r\<in>set (m # rs). rg_ok r" "sorted (map rg_start (m # rs))"
        using 2(4,5) by auto
      from 2(3)[OF False no this] show ?thesis using False no by simp
    qed
  qed
qed simp

lemma ir_Merge_correct:
  assumes "\<forall>r\<in>set rs. rg_ok r"
  shows "ir_member (ir_Merge rs) t \<longleftrightarrow> ir_member rs t"
    and "successively rg_apart (ir_Merge rs)"
proof -
  have "(ir_member (ir_Merge rs) t \<longleftrightarrow> ir_member rs t) \<and> successively rg_apart (ir_Merge rs)"
  proof (cases "sort_key rg_start rs")
    case Nil
    then have "rs = []" by (metis set_empty2 set_sort)
    then show ?thesis by (simp add: ir_Merge_def)
  next
    case (Cons m ms)
    then have ne: "rs \<noteq> []" by auto
    have s: "set (m # ms) = set rs" "sorted (map rg_start (m # ms))"
      using Cons by (metis set_sort, metis sorted_sort_key)
    have ok: "\<forall>r\<in>set (m # ms). rg_ok r" using assms unfolding s(1) .
    have "ir_Merge rs = merge_from m ms"
      using ne Cons by (simp add: ir_Merge_def ir_merge_sorted_from)
    then show ?thesis
      using merge_from_member[OF ok s(2), of t] merge_from_apart[OF ok s(2)]
      unfolding ir_member_def s(1) by simp
  qed
  then show "ir_member (ir_Merge rs) t \<longleftrightarrow> ir_member rs t" "successively rg_apart (ir_Merge rs)"
    by blast+
qed

section \<open>Printing and parsing\<close>

definition range_char :: "char \<Rightarrow> bool" where
  "range_char c \<longleftrightarrow> (48 \<le> (of_char c :: nat) \<and> (of_char c :: nat) \<le> 57) \<or> c = CHR ''-''"

lemma dec_range_char: "c \<in> set (dec n) \<Longrightarrow> range_char c \<and> c \<noteq> CHR ''-''"
  using dec_digits[of c n] by (auto simp: range_char_def)

lemma rg_String_chars:
  assumes "c \<in> set (rg_String r)"
  shows "plain_char c" "c \<noteq> CHR ''/''" "c \<noteq> CHR '',''" "c \<noteq> CHR ''*''"
proof -
  have "range_char c" using assms dec_range_char
    by (auto simp: rg_String_def range_char_def split: if_splits)
  then show "plain_char c" "c \<noteq> CHR ''/''" "c \<noteq> CHR '',''" "c \<noteq> CHR ''*''"
    by (auto simp: range_char_def plain_char_def)
qed

lemma rg_String_nonempty [simp]: "rg_String r \<noteq> []"
  by (simp add: rg_String_def)

lemma cut_dec: "trim_set {CHR ''['', CHR '' '', CHR '']''} (dec n) = dec n"
proof (rule trim_set_id)
  have "c \<notin> {CHR ''['', CHR '' '', CHR '']''}" if "c \<in> set (dec n)" for c
    using dec_digits[OF that] by auto
  then show "dec n = [] \<or> hd (dec n) \<notin> {CHR ''['', CHR '' '', CHR '']''}
      \<and> last (dec n) \<notin> {CHR ''['', CHR '' '', CHR '']''}" by simp
qed

lemma parseUnsigned_dec:
  fixes w :: "'w::len word"
  assumes "LENGTH('w) \<le> 64" shows "parseUnsigned (dec (unat w)) = Some w"
proof -
  have "unat w < 2 ^ LENGTH('w)" using unsigned_less[of w, where ?'a = nat] .
  also have "(2::nat) ^ LENGTH('w) \<le> 2 ^ 64" using assms by (rule power_increasing) simp
  finally show ?thesis by (simp add: parseUnsigned_def ParseUint_dec)
qed

lemma plain_ends:
  assumes "\<And>c. c \<in> set s \<Longrightarrow> plain_char c" "s \<noteq> []"
  shows "plain_char (hd s)" "plain_char (last s)"
  using assms by simp_all

lemma newIntRange_String:
  fixes r :: "'w::len word rng"
  assumes len: "LENGTH('w) \<le> 64" and ok: "rg_ok r"
  shows "newIntRange (rg_String r) parseUnsigned = Some r"
proof -
  have trim: "TrimSpace (rg_String r) = rg_String r"
    by (intro TrimSpace_plain disjI2 conjI plain_ends) (auto intro: rg_String_chars(1))
  have nodash: "CHR ''-'' \<notin> set (dec n)" for n using dec_range_char by blast
  have mk: "NewRange (rg_start r) (rg_end r) = r" using ok by (simp add: NewRange_def rg_ok_def not_less)
  show ?thesis
  proof (cases "rg_start r = rg_end r")
    case True
    then show ?thesis using trim mk
      by (simp add: newIntRange_def rg_String_def nodash cut_dec parseUnsigned_dec[OF len])
  next
    case False
    then show ?thesis using trim mk
      by (simp add: newIntRange_def rg_String_def nodash cut_dec parseUnsigned_dec[OF len] go_split_append)
  qed
qed

lemma newIntRangesFromList_String:
  fixes rs :: "'w::len word rng list"
  assumes "LENGTH('w) \<le> 64" "\<forall>r\<in>set rs. rg_ok r"
  shows "newIntRangesFromList (map rg_String rs) parseUnsigned = Some rs"
  using assms(2) by (induction rs) (simp_all add: newIntRange_String[OF assms(1)])

lemma hd_last_join:
  assumes "ps \<noteq> []" "\<forall>p\<in>set ps. p \<noteq> []"
  shows "go_join c ps \<noteq> [] \<and> hd (go_join c ps) \<in> set (hd ps) \<and> last (go_join c ps) \<in> set (last ps)"
  using assms by (induction c ps rule: go_join.induct) auto

text \<open>
  Printing a list of at most 28 ranges of a machine integer with \<open>String\<close> and parsing the
  text with \<open>NewUnsignedRanges\<close> gives the list back, for every width up to 64 bits.
\<close>

theorem ranges_string_roundtrip:
  fixes rs :: "'w::len word rng list"
  assumes "LENGTH('w) \<le> 64" "length rs \<le> 28" "\<forall>r\<in>set rs. rg_ok r"
  shows "NewUnsignedRanges (ir_String rs) = Some rs"
proof (cases "rs = []")
  case True
  have "TrimSpace ''*'' = ''*''" by (rule TrimSpace_plain) (simp add: plain_char_def)
  with True show ?thesis by (simp add: NewUnsignedRanges_def newIntRanges_def ir_String_def)
next
  case False
  let ?ps = "map rg_String rs"
  let ?s = "go_join (CHR ''/'') ?ps"
  have e: "?s \<noteq> [] \<and> hd ?s \<in> set (hd ?ps) \<and> last ?s \<in> set (last ?ps)"
    using False by (intro hd_last_join) auto
  then have h: "plain_char (hd ?s)" "plain_char (last ?s)" "hd ?s \<noteq> CHR ''*''"
    using False rg_String_chars[of _ "hd rs"] rg_String_chars[of _ "last rs"]
    by (auto simp: hd_map last_map)
  have "TrimSpace ?s = ?s" using h by (intro TrimSpace_plain) simp
  moreover have "?s \<noteq> ''*''" using h(3) by auto
  moreover have "c \<noteq> CHR '',''" if "c \<in> set ?s" for c
    using that go_join_set[of "CHR ''/''" ?ps] rg_String_chars(3) by auto
  then have "map (\<lambda>c. if c = CHR '','' then CHR ''/'' else c) ?s = ?s" by (simp add: map_idI)
  moreover have "go_split (CHR ''/'') ?s = ?ps"
    using False rg_String_chars(2) by (intro go_split_join) auto
  ultimately show ?thesis using False e assms newIntRangesFromList_String[OF assms(1,3)]
    by (simp add: NewUnsignedRanges_def newIntRanges_def ir_String_def Let_def)
qed

theorem ranges_string_roundtrip_witness:
  "NewUnsignedRanges (ir_String [\<lparr>rg_start = 200, rg_end = 204\<rparr>, \<lparr>rg_start = 443, rg_end = 443 :: 16 word\<rparr>])
     = Some [\<lparr>rg_start = 200, rg_end = 204\<rparr>, \<lparr>rg_start = 443, rg_end = 443 :: 16 word\<rparr>]"
  by (rule ranges_string_roundtrip) (simp_all add: rg_ok_def)

text \<open>
  \<open>Merge\<close>, which works in place on its argument, neither loses nor adds a value, and what it
  leaves is in order with a gap of at least one value between neighbours, also when a range ends
  at the largest value of the type.
\<close>

theorem ranges_merge_correct:
  fixes rs :: "'w::len word rng list"
  assumes "\<forall>r\<in>set rs. rg_ok r"
  shows "(\<forall>t. ir_member (ir_Merge rs) t \<longleftrightarrow> ir_member rs t) \<and> successively rg_apart (ir_Merge rs)"
  using ir_Merge_correct[OF assms] by blast

theorem ranges_merge_correct_witness:
  "(\<forall>t. ir_member (ir_Merge [\<lparr>rg_start = 9, rg_end = 255\<rparr>, \<lparr>rg_start = 3, rg_end = 8 :: 8 word\<rparr>]) t
      \<longleftrightarrow> ir_member [\<lparr>rg_start = 9, rg_end = 255\<rparr>, \<lparr>rg_start = 3, rg_end = 8\<rparr>] t)
   \<and> successively rg_apart (ir_Merge [\<lparr>rg_start = 9, rg_end = 255\<rparr>, \<lparr>rg_start = 3, rg_end = 8 :: 8 word\<rparr>])"
  by (rule ranges_merge_correct) (simp add: rg_ok_def)

lemma ir_Range_values:
  assumes "\<forall>r\<in>set rs. rg_ok r"
  shows "set (ir_Range (\<lambda>_. True) rs) = {t. ir_member rs t}"
  using assms
proof (induction rs)
  case (Cons r rs)
  have "snd (rg_walk (\<lambda>_. True) r (rg_start r)) \<and>
      set (fst (rg_walk (\<lambda>_. True) r (rg_start r))) = {x. rg_start r \<le> x \<and> x \<le> rg_end r}"
    by (rule rg_walk_values) simp_all
  with Cons show ?case by (auto simp: case_prod_beta ir_member_def rg_Contains_def)
qed (simp add: ir_member_def)

text \<open>
  For a non-empty list, the values that \<open>Range\<close> enumerates are exactly those that \<open>Check\<close>
  accepts, and the enumeration ends even when a range reaches the largest value of the type.
\<close>

theorem ranges_enumerate_check:
  fixes rs :: "'w::len word rng list"
  assumes "rs \<noteq> []" "\<forall>r\<in>set rs. rg_ok r"
  shows "set (ir_Range (\<lambda>_. True) rs) = {t. ir_Check rs t}"
  using ir_Range_values[OF assms(2)] assms(1) by (simp add: ir_Check_iff)

theorem ranges_enumerate_check_witness:
  "set (ir_Range (\<lambda>_. True) [\<lparr>rg_start = 250, rg_end = 255 :: 8 word\<rparr>]) =
     {t. ir_Check [\<lparr>rg_start = 250, rg_end = 255 :: 8 word\<rparr>] t}"
  by (rule ranges_enumerate_check) (simp_all add: rg_ok_def)

text \<open>
  A number that does not fit the element type is not rejected but reduced: for \<open>uint16\<close>, the
  text of \<open>65536 + n\<close> parses as the single port \<open>n\<close>.
\<close>

theorem ranges_truncate:
  assumes "n < 65536"
  shows "(NewUnsignedRanges (dec (65536 + n)) :: 16 word rng list option)
     = Some [\<lparr>rg_start = word_of_nat n, rg_end = word_of_nat n\<rparr>]"
proof -
  let ?d = "dec (65536 + n)"
  have c: "plain_char c \<and> c \<noteq> CHR '','' \<and> c \<noteq> CHR ''/'' \<and> c \<noteq> CHR ''*'' \<and> c \<noteq> CHR ''-''"
    if "c \<in> set ?d" for c using dec_digits[OF that] by (auto simp: plain_char_def)
  have "TrimSpace ?d = ?d" using c by (intro TrimSpace_plain) simp
  moreover have "?d \<noteq> ''*''" using c[of "CHR ''*''"] by (metis list.set_intros(1))
  moreover have "map (\<lambda>c. if c = CHR '','' then CHR ''/'' else c) ?d = ?d" using c by (intro map_idI) auto
  moreover have "go_split (CHR ''/'') ?d = [?d]" "go_split (CHR ''-'') ?d = [?d]"
    using c by (auto intro!: go_split_notin)
  moreover have "parseUnsigned ?d = Some (word_of_nat n :: 16 word)"
    using assms ParseUint_dec[of "65536 + n"]
    by (simp add: parseUnsigned_def)
  ultimately show ?thesis
    by (simp add: NewUnsignedRanges_def newIntRanges_def newIntRange_def Let_def cut_dec NewRange_def)
qed

theorem ranges_truncate_witness:
  "(NewUnsignedRanges (dec (65536 + 22)) :: 16 word rng list option)
     = Some [\<lparr>rg_start = 22, rg_end = 22\<rparr>]"
  using ranges_truncate[of 22] by simp

end
