(* ===== verification/Wildcard.thy ===== *)
theory Wildcard
  imports GoStrings
begin

text \<open>
  Wildcard matching of domain names, \<open>component/wildcard/wildcard.go\<close>: a loop over two indices
  that remembers only the last star and backtracks to it. It is shown to end and to agree with
  the textbook definition of a glob, which tries every way of dividing the string.
\<close>

section \<open>The matcher\<close>

text \<open>The labels \<open>Loop\<close> and \<open>checkPattern\<close>; \<open>star = None\<close> is the code's -1. \<open>None\<close> as a result
  would be a loop that never ends.\<close>

fun wc_checkPattern :: "string \<Rightarrow> bool" where
  "wc_checkPattern [] = True"
| "wc_checkPattern (c # cs) = (if c = CHR ''*'' then wc_checkPattern cs else False)"

partial_function (option) wc_loop ::
  "string \<Rightarrow> string \<Rightarrow> nat \<Rightarrow> nat \<Rightarrow> nat option \<Rightarrow> nat \<Rightarrow> bool option" where
  "wc_loop p s pi si star lastStar =
     (if si \<ge> length s then Some (wc_checkPattern (drop pi p))
      else if pi \<ge> length p then
        (case star of
           Some k \<Rightarrow> wc_loop p s (k + 1) (lastStar + 1) star (lastStar + 1)
         | None \<Rightarrow> Some False)
      else if p ! pi = CHR ''?'' then wc_loop p s (pi + 1) (si + 1) star lastStar
      else if p ! pi = CHR ''*'' then wc_loop p s (pi + 1) si (Some pi) si
      else if p ! pi \<noteq> s ! si then
        (case star of
           Some k \<Rightarrow> wc_loop p s (k + 1) (lastStar + 1) star (lastStar + 1)
         | None \<Rightarrow> Some False)
      else wc_loop p s (pi + 1) (si + 1) star lastStar)"

definition wc_matchByString :: "string \<Rightarrow> string \<Rightarrow> bool option" where
  "wc_matchByString p s = wc_loop p s 0 0 None 0"

definition wc_Match :: "string \<Rightarrow> string \<Rightarrow> bool option" where
  "wc_Match p s =
     (if p = [] then Some (s = p)
      else if p = ''*'' \<or> s = p then Some True
      else wc_matchByString p s)"

section \<open>The reference\<close>

fun glob :: "string \<Rightarrow> string \<Rightarrow> bool" where
  "glob [] s = (s = [])"
| "glob (c # p) [] = (c = CHR ''*'' \<and> glob p [])"
| "glob (c # p) (x # s) =
     (if c = CHR ''*'' then glob p (x # s) \<or> glob (c # p) s
      else (c = CHR ''?'' \<or> c = x) \<and> glob p s)"

definition char_match :: "char \<Rightarrow> char \<Rightarrow> bool" where
  "char_match c x \<longleftrightarrow> c \<noteq> CHR ''*'' \<and> (c = CHR ''?'' \<or> c = x)"

lemma glob_Nil: "glob p [] = wc_checkPattern p"
  by (induction p) auto

lemma glob_star: "glob (CHR ''*'' # p) s \<longleftrightarrow> (\<exists>j. glob p (drop j s))"
proof (induction s)
  case (Cons x s)
  have "(\<exists>j. glob p (drop j (x # s))) \<longleftrightarrow> glob p (x # s) \<or> (\<exists>j. glob p (drop j s))"
    by (metis drop0 drop_Suc_Cons not0_implies_Suc)
  with Cons show ?case by simp
qed simp

lemma glob_chars:
  "list_all2 char_match m seg \<Longrightarrow> glob (m @ r) (seg @ t) = glob r t"
  by (induction m seg rule: list_all2_induct) (auto simp: char_match_def)

lemma glob_split:
  "\<forall>c\<in>set m. c \<noteq> CHR ''*'' \<Longrightarrow>
     glob (m @ r) s \<Longrightarrow> length m \<le> length s \<and> glob r (drop (length m) s)"
proof (induction m arbitrary: s)
  case (Cons c m)
  then show ?case by (cases s) auto
qed simp

lemma glob_refl: "glob p p"
proof (induction p)
  case (Cons c p)
  have "glob (CHR ''*'' # p) p" unfolding glob_star using Cons by (metis drop0)
  with Cons show ?case by auto
qed simp

section \<open>Only the last star matters\<close>

text \<open>The text matched since the last star at \<open>k\<close>: pattern positions \<open>k + 1\<close> up to \<open>pi\<close> against
  string positions \<open>lastStar\<close> up to \<open>si\<close>.\<close>

definition wc_inv :: "string \<Rightarrow> string \<Rightarrow> nat \<Rightarrow> nat \<Rightarrow> nat option \<Rightarrow> nat \<Rightarrow> bool" where
  "wc_inv p s pi si star lastStar \<longleftrightarrow> pi \<le> length p \<and> si \<le> length s \<and>
     (case star of
        None \<Rightarrow> lastStar \<le> si
      | Some k \<Rightarrow> \<exists>m r seg t. drop (k + 1) p = m @ r \<and> drop lastStar s = seg @ t \<and>
          list_all2 char_match m seg \<and> pi = k + 1 + length m \<and> si = lastStar + length seg)"

definition wc_goal :: "string \<Rightarrow> string \<Rightarrow> nat \<Rightarrow> nat \<Rightarrow> nat option \<Rightarrow> nat \<Rightarrow> bool" where
  "wc_goal p s pi si star lastStar =
     (case star of
        None \<Rightarrow> glob (drop pi p) (drop si s)
      | Some k \<Rightarrow> \<exists>j\<ge>lastStar. glob (drop (k + 1) p) (drop j s))"

lemma wc_invE:
  assumes "wc_inv p s pi si (Some k) l"
  obtains m seg where "drop (k + 1) p = m @ drop pi p" "drop l s = seg @ drop si s"
    "list_all2 char_match m seg" "pi = k + 1 + length m" "si = l + length seg"
    "\<forall>c\<in>set m. c \<noteq> CHR ''*''" "length seg = length m" "pi \<le> length p" "si \<le> length s"
proof -
  from assms obtain m r seg t where a: "drop (k + 1) p = m @ r" "drop l s = seg @ t"
    "list_all2 char_match m seg" "pi = k + 1 + length m" "si = l + length seg"
    "pi \<le> length p" "si \<le> length s" by (auto simp: wc_inv_def)
  have "drop pi p = drop (length m) (drop (k + 1) p)"
    unfolding a(4) drop_drop by (simp only: add.commute)
  then have "drop pi p = r" unfolding a(1) by simp
  moreover have "drop si s = drop (length seg) (drop l s)"
    unfolding a(5) drop_drop by (simp only: add.commute)
  then have "drop si s = t" unfolding a(2) by simp
  moreover have "\<forall>c\<in>set m. c \<noteq> CHR ''*''" using a(3)
    by (auto simp: char_match_def list_all2_conv_all_nth in_set_conv_nth)
  moreover have "length seg = length m" using a(3) by (simp add: list_all2_lengthD)
  ultimately show thesis using a that by blast
qed

lemma wc_goal_here:
  assumes "wc_inv p s pi si (Some k) l"
  shows "glob (drop (k + 1) p) (drop l s) = glob (drop pi p) (drop si s)"
  using assms by (rule wc_invE) (metis glob_chars)

text \<open>When the current attempt fails, the next one starts one position later.\<close>

lemma wc_goal_backtrack:
  assumes "wc_inv p s pi si (Some k) l" "\<not> glob (drop pi p) (drop si s)"
  shows "wc_goal p s pi si (Some k) l = wc_goal p s (k + 1) (l + 1) (Some k) (l + 1)"
proof -
  have "\<not> glob (drop (k + 1) p) (drop l s)" using wc_goal_here[OF assms(1)] assms(2) by simp
  then show ?thesis
    by (simp add: wc_goal_def) (metis Suc_leD Suc_leI le_neq_implies_less)
qed

lemma wc_goal_end:
  assumes "wc_inv p s pi si star l" "length s \<le> si"
  shows "wc_goal p s pi si star l = wc_checkPattern (drop pi p)"
proof (cases star)
  case None
  with assms show ?thesis by (simp add: wc_goal_def glob_Nil)
next
  case (Some k)
  note inv = assms(1)[unfolded Some]
  have here: "glob (drop (k + 1) p) (drop l s) = wc_checkPattern (drop pi p)"
    using wc_goal_here[OF inv] assms(2) by (simp add: glob_Nil)
  from inv obtain m seg where b: "drop (k + 1) p = m @ drop pi p" "drop l s = seg @ drop si s"
    "list_all2 char_match m seg" "pi = k + 1 + length m" "si = l + length seg"
    "\<forall>c\<in>set m. c \<noteq> CHR ''*''" "length seg = length m" "pi \<le> length p" "si \<le> length s"
    by (rule wc_invE)
  note a = b(1,5,6,7,9)
  have "glob (drop (k + 1) p) (drop l s)" if j: "l \<le> j" "glob (drop (k + 1) p) (drop j s)" for j
  proof -
    have "length m \<le> length (drop j s)" using glob_split[OF a(3)] j(2) a(1) by metis
    then have "drop j s = drop l s" using j(1) a(2,4,5) assms(2) by (cases "j = l"; cases m) auto
    with j show ?thesis by simp
  qed
  then show ?thesis using here Some by (auto simp: wc_goal_def)
qed

lemma wc_goal_newstar:
  assumes "wc_inv p s pi si star l" "pi < length p" "p ! pi = CHR ''*''"
  shows "wc_goal p s pi si star l = wc_goal p s (pi + 1) si (Some pi) si"
proof -
  have r: "drop pi p = CHR ''*'' # drop (pi + 1) p"
    using assms(2,3) by (metis Cons_nth_drop_Suc Suc_eq_plus1)
  have ex: "glob (drop pi p) (drop si s) \<longleftrightarrow> (\<exists>j\<ge>si. glob (drop (pi + 1) p) (drop j s))" for si
    unfolding r glob_star by (metis add.commute drop_drop le_Suc_ex le_add1)
  show ?thesis
  proof (cases star)
    case None
    then show ?thesis using ex by (simp add: wc_goal_def)
  next
    case (Some k)
    note inv = assms(1)[unfolded Some]
    from inv obtain m seg where b: "drop (k + 1) p = m @ drop pi p" "drop l s = seg @ drop si s"
    "list_all2 char_match m seg" "pi = k + 1 + length m" "si = l + length seg"
    "\<forall>c\<in>set m. c \<noteq> CHR ''*''" "length seg = length m" "pi \<le> length p" "si \<le> length s"
    by (rule wc_invE)
  note a = b(1,5,6,7,9)
    have "\<exists>j\<ge>si. glob (drop (pi + 1) p) (drop j s)"
      if j: "l \<le> j" "glob (drop (k + 1) p) (drop j s)" for j
    proof -
      have "glob (drop pi p) (drop (length m) (drop j s))"
        using glob_split[OF a(3)] j(2) a(1) by metis
      then have "glob (drop pi p) (drop (j + length m) s)" by (simp add: ac_simps)
      then obtain i where "j + length m \<le> i" "glob (drop (pi + 1) p) (drop i s)" using ex by blast
      with j(1) a show ?thesis by (intro exI[of _ i]) simp
    qed
    moreover have "\<exists>j\<ge>l. glob (drop (k + 1) p) (drop j s)"
      if "\<exists>j\<ge>si. glob (drop (pi + 1) p) (drop j s)"
      using that ex[of si] wc_goal_here[OF inv] by blast
    ultimately show ?thesis using Some by (auto simp: wc_goal_def)
  qed
qed

section \<open>Termination and correctness\<close>

lemma wc_inv_match:
  assumes "wc_inv p s pi si star l" "pi < length p" "si < length s" "char_match (p ! pi) (s ! si)"
  shows "wc_inv p s (pi + 1) (si + 1) star l"
proof (cases star)
  case None
  with assms show ?thesis by (simp add: wc_inv_def)
next
  case (Some k)
  note inv = assms(1)[unfolded Some]
  from inv obtain m seg where b: "drop (k + 1) p = m @ drop pi p" "drop l s = seg @ drop si s"
    "list_all2 char_match m seg" "pi = k + 1 + length m" "si = l + length seg"
    "\<forall>c\<in>set m. c \<noteq> CHR ''*''" "length seg = length m" "pi \<le> length p" "si \<le> length s"
    by (rule wc_invE)
  have "drop pi p = p ! pi # drop (pi + 1) p" "drop si s = s ! si # drop (si + 1) s"
    using assms(2,3) by (simp_all add: Cons_nth_drop_Suc)
  then have "drop (k + 1) p = (m @ [p ! pi]) @ drop (pi + 1) p"
    "drop l s = (seg @ [s ! si]) @ drop (si + 1) s"
    using b(1,2) by simp_all
  moreover have "list_all2 char_match (m @ [p ! pi]) (seg @ [s ! si])"
    using b(3) assms(4) by (intro list_all2_appendI) simp_all
  moreover have "pi + 1 = k + 1 + length (m @ [p ! pi])" "si + 1 = l + length (seg @ [s ! si])"
    using b(4,5) by simp_all
  moreover have "pi + 1 \<le> length p" "si + 1 \<le> length s" using assms(2,3) by simp_all
  ultimately show ?thesis unfolding Some wc_inv_def option.case by blast
qed

lemma wc_inv_newstar:
  "wc_inv p s pi si star l \<Longrightarrow> pi < length p \<Longrightarrow> wc_inv p s (pi + 1) si (Some pi) si"
  by (auto simp: wc_inv_def)

lemma wc_inv_backtrack:
  assumes "wc_inv p s pi si (Some k) l" "si < length s"
  shows "wc_inv p s (k + 1) (l + 1) (Some k) (l + 1)"
  using assms by (auto simp: wc_inv_def)

definition wc_measure :: "string \<Rightarrow> string \<Rightarrow> (nat \<times> nat option \<times> nat) rel" where
  "wc_measure p s = inv_image (less_than <*lex*> less_than <*lex*> less_than)
     (\<lambda>(si, star, l). (length p - (case star of None \<Rightarrow> 0 | Some k \<Rightarrow> k + 1),
        length s - l, length s - si))"

lemma wf_wc_measure: "wf (wc_measure p s)"
  unfolding wc_measure_def by (intro wf_inv_image wf_lex_prod wf_less_than)

lemma wc_inv_star: "wc_inv p s pi si (Some k) l \<Longrightarrow> k < pi \<and> l \<le> si"
  by (auto simp: wc_inv_def)

lemma wc_loop_glob:
  assumes "wc_inv p s pi si star l"
  shows "wc_loop p s pi si star l = Some (wc_goal p s pi si star l)"
  using assms
proof (induction "(si, star, l)" arbitrary: pi si star l rule: wf_induct_rule[OF wf_wc_measure[of p s]])
  case 1
  note IH = "1.hyps" and inv = "1.prems"
  have le: "pi \<le> length p" "si \<le> length s" using inv by (auto simp: wc_inv_def)
  have retry: "(case star of
        Some k \<Rightarrow> wc_loop p s (k + 1) (l + 1) star (l + 1)
      | None \<Rightarrow> Some False) = Some (wc_goal p s pi si star l)"
    if "si < length s" "\<not> glob (drop pi p) (drop si s)"
  proof (cases star)
    case None
    with that show ?thesis by (simp add: wc_goal_def)
  next
    case (Some k)
    note inv' = inv[unfolded Some]
    have "((l + 1, Some k, l + 1), (si, star, l)) \<in> wc_measure p s"
      using that(1) wc_inv_star[OF inv'] Some by (auto simp: wc_measure_def)
    from IH[OF this wc_inv_backtrack[OF inv' that(1)]] show ?thesis
      using Some wc_goal_backtrack[OF inv' that(2)] by simp
  qed
  have forward: "wc_loop p s (pi + 1) (si + 1) star l = Some (wc_goal p s pi si star l)"
    if "si < length s" "pi < length p" "char_match (p ! pi) (s ! si)"
  proof -
    have "((si + 1, star, l), (si, star, l)) \<in> wc_measure p s"
      using that(1) by (auto simp: wc_measure_def)
    from IH[OF this wc_inv_match[OF inv that(2,1,3)]]
    have "wc_loop p s (pi + 1) (si + 1) star l = Some (wc_goal p s (pi + 1) (si + 1) star l)" .
    moreover have "drop pi p = p ! pi # drop (pi + 1) p" "drop si s = s ! si # drop (si + 1) s"
      using that(1,2) by (simp_all add: Cons_nth_drop_Suc)
    then have "glob (drop pi p) (drop si s) = glob (drop (pi + 1) p) (drop (si + 1) s)"
      using that(3) by (auto simp: char_match_def)
    then have "wc_goal p s (pi + 1) (si + 1) star l = wc_goal p s pi si star l"
      by (simp add: wc_goal_def split: option.split)
    ultimately show ?thesis by simp
  qed
  consider "length s \<le> si" | "si < length s" "length p \<le> pi"
    | "si < length s" "pi < length p" "p ! pi = CHR ''*''"
    | "si < length s" "pi < length p" "p ! pi \<noteq> CHR ''*''" "char_match (p ! pi) (s ! si)"
    | "si < length s" "pi < length p" "p ! pi \<noteq> CHR ''*''" "\<not> char_match (p ! pi) (s ! si)"
    by linarith
  then show ?case
  proof cases
    case 1
    with wc_goal_end[OF inv] show ?thesis by (subst wc_loop.simps) simp
  next
    case 2
    have "drop si s \<noteq> []" using 2 by simp
    then have "\<not> glob (drop pi p) (drop si s)" using 2 by simp
    from retry[OF 2(1) this] 2 show ?thesis by (subst wc_loop.simps) simp
  next
    case 3
    have "k < pi" if "star = Some k" for k using wc_inv_star[of p s pi si k l] inv that by simp
    then have "((si, Some pi, si), (si, star, l)) \<in> wc_measure p s"
      using 3 by (cases star) (auto simp: wc_measure_def diff_less_mono2)
    from IH[OF this wc_inv_newstar[OF inv 3(2)]]
    show ?thesis using 3 wc_goal_newstar[OF inv 3(2,3)] by (subst wc_loop.simps) simp
  next
    case 4
    from forward[OF 4(1,2,4)] 4 show ?thesis
      by (subst wc_loop.simps) (auto simp: char_match_def)
  next
    case 5
    have "drop pi p = p ! pi # drop (pi + 1) p" "drop si s = s ! si # drop (si + 1) s"
      using 5(1,2) by (simp_all add: Cons_nth_drop_Suc)
    then have "\<not> glob (drop pi p) (drop si s)" using 5(3,4) by (auto simp: char_match_def)
    from retry[OF 5(1) this] 5 show ?thesis
      by (subst wc_loop.simps) (auto simp: char_match_def)
  qed
qed

lemma wc_matchByString_glob: "wc_matchByString p s = Some (glob p s)"
proof -
  have "wc_inv p s 0 0 None 0" by (simp add: wc_inv_def)
  from wc_loop_glob[OF this] show ?thesis by (simp add: wc_matchByString_def wc_goal_def)
qed

lemma wc_Match_total: "\<exists>b. wc_Match p s = Some b"
  by (cases "wc_Match p s") (simp_all add: wc_Match_def wc_matchByString_glob split: if_splits)

text \<open>
  C36. Wildcard matching ends on every pattern and every string, and matches exactly when some way
  of giving each star a substring and each question mark a byte makes the pattern equal to the
  string, although the code backtracks to the last star only.
\<close>

theorem wildcard_is_glob: "wc_Match p s = Some (glob p s)"
proof -
  have "glob ''*'' s" by (induction s) auto
  then show ?thesis by (auto simp: wc_Match_def glob_refl wc_matchByString_glob)
qed

end
