(* ===== verification/Rules.thy ===== *)
theory Rules
  imports Metadata IntRanges Wildcard
begin

text \<open>
  The rules that route a connection, \<open>rules/common/*.go\<close> and \<open>rules/provider/rule_set.go\<close>: one
  constructor of \<open>rule\<close> per Go struct, its \<open>New\<close> function (\<open>None\<close> is an error) and its \<open>Match\<close>.
  \<open>Match\<close> reads and changes the metadata and calls back into the tunnel through the helper
  (resolve the host, look up the process); the state it threads is \<open>mstate\<close>: the metadata and
  the two flags that the tunnel's callbacks capture. Regular expressions, geo databases and the
  platform are the environment \<open>rule_env\<close>. The rules that contain rules are matched in \<open>Logic\<close>.
\<close>

section \<open>State, helper and environment\<close>

record mstate =
  ms_md :: metadata
  ms_resolved :: bool
  ms_attempt :: bool

record helper =
  h_ResolveIP :: "(mstate \<Rightarrow> mstate) option"
  h_FindProcess :: "(mstate \<Rightarrow> mstate) option"
  h_CheckPassRule :: "(mstate \<Rightarrow> string \<Rightarrow> bool) option"

text \<open>\<open>if helper.F != nil { helper.F() }\<close>\<close>

definition call :: "(mstate \<Rightarrow> mstate) option \<Rightarrow> mstate \<Rightarrow> mstate" where
  "call f s = (case f of None \<Rightarrow> s | Some g \<Rightarrow> g s)"

text \<open>The result of \<open>Match\<close>: whether it matched, the adapter, and the state left.\<close>

type_synonym verdict = "(bool \<times> string \<times> mstate) outcome"

record rule_env =
  re_compile :: "string \<Rightarrow> bool"
  re_match :: "string \<Rightarrow> string \<Rightarrow> bool"
  geosite_init :: bool
  geosite_load :: "string \<Rightarrow> (string \<Rightarrow> bool) option"
  geoip_init :: bool
  geodata_mode :: bool
  geoip_load :: "string \<Rightarrow> (addr \<Rightarrow> bool) option"
  mmdb_codes :: "byte list \<Rightarrow> string list option"
  asn_init :: bool
  asn_lookup :: "byte list \<Rightarrow> string \<times> string"
  goos_has_uid :: bool

section \<open>Rules\<close>

datatype leaf =
  RDomain string string
| RDomainSuffix string string
| RDomainKeyword string string
| RDomainRegex string string
| RDomainWildcard string string
| RGEOSITE string string
| RGEOIP string string bool bool \<comment> \<open>country, adapter, source, no-resolve\<close>
| RASN string string bool bool
| RIPCIDR ipprefix string bool bool
| RIPSuffix "byte list" nat string string bool bool
| RPort string string rule_type "16 word rng list"
| RDSCP "8 word rng list" string string
| RInName "string list" string string
| RInUser "string list" string string
| RInType "conn_type list" string string
| RRematchName "string list" string string
| RProcess string string rule_type
| RNetwork network string
| RUid "32 word rng list" string string
| RMatch string

text \<open>A rule is one of these, a rule set (name, adapter, source, no-resolve), or a logic rule.\<close>

datatype rule =
  Leaf leaf
| RRuleSet string string bool bool
| RLogic string string rule_type "rule list"

fun leaf_RuleType :: "leaf \<Rightarrow> rule_type" where
  "leaf_RuleType (RDomain _ _) = RT_Domain"
| "leaf_RuleType (RDomainSuffix _ _) = RT_DomainSuffix"
| "leaf_RuleType (RDomainKeyword _ _) = RT_DomainKeyword"
| "leaf_RuleType (RDomainRegex _ _) = RT_DomainRegex"
| "leaf_RuleType (RDomainWildcard _ _) = RT_DomainWildcard"
| "leaf_RuleType (RGEOSITE _ _) = RT_GEOSITE"
| "leaf_RuleType (RGEOIP _ _ isSrc _) = (if isSrc then RT_SrcGEOIP else RT_GEOIP)"
| "leaf_RuleType (RASN _ _ isSrc _) = (if isSrc then RT_SrcIPASN else RT_IPASN)"
| "leaf_RuleType (RIPCIDR _ _ isSrc _) = (if isSrc then RT_SrcIPCIDR else RT_IPCIDR)"
| "leaf_RuleType (RIPSuffix _ _ _ _ isSrc _) = (if isSrc then RT_SrcIPSuffix else RT_IPSuffix)"
| "leaf_RuleType (RPort _ _ t _) = t"
| "leaf_RuleType (RDSCP _ _ _) = RT_DSCP"
| "leaf_RuleType (RInName _ _ _) = RT_InName"
| "leaf_RuleType (RInUser _ _ _) = RT_InUser"
| "leaf_RuleType (RInType _ _ _) = RT_InType"
| "leaf_RuleType (RRematchName _ _ _) = RT_RematchName"
| "leaf_RuleType (RProcess _ _ t) = t"
| "leaf_RuleType (RNetwork _ _) = RT_Network"
| "leaf_RuleType (RUid _ _ _) = RT_Uid"
| "leaf_RuleType (RMatch _) = RT_MATCH"

fun rule_RuleType :: "rule \<Rightarrow> rule_type" where
  "rule_RuleType (Leaf r) = leaf_RuleType r"
| "rule_RuleType (RRuleSet _ _ _ _) = RT_RuleSet"
| "rule_RuleType (RLogic _ _ t _) = t"

fun leaf_Adapter :: "leaf \<Rightarrow> string" where
  "leaf_Adapter (RDomain _ a) = a"
| "leaf_Adapter (RDomainSuffix _ a) = a"
| "leaf_Adapter (RDomainKeyword _ a) = a"
| "leaf_Adapter (RDomainRegex _ a) = a"
| "leaf_Adapter (RDomainWildcard _ a) = a"
| "leaf_Adapter (RGEOSITE _ a) = a"
| "leaf_Adapter (RGEOIP _ a _ _) = a"
| "leaf_Adapter (RASN _ a _ _) = a"
| "leaf_Adapter (RIPCIDR _ a _ _) = a"
| "leaf_Adapter (RIPSuffix _ _ _ a _ _) = a"
| "leaf_Adapter (RPort a _ _ _) = a"
| "leaf_Adapter (RDSCP _ _ a) = a"
| "leaf_Adapter (RInName _ a _) = a"
| "leaf_Adapter (RInUser _ a _) = a"
| "leaf_Adapter (RInType _ a _) = a"
| "leaf_Adapter (RRematchName _ a _) = a"
| "leaf_Adapter (RProcess _ a _) = a"
| "leaf_Adapter (RNetwork _ a) = a"
| "leaf_Adapter (RUid _ _ a) = a"
| "leaf_Adapter (RMatch a) = a"

fun rule_Adapter :: "rule \<Rightarrow> string" where
  "rule_Adapter (Leaf r) = leaf_Adapter r"
| "rule_Adapter (RRuleSet _ a _ _) = a"
| "rule_Adapter (RLogic _ a _ _) = a"

section \<open>Parsing a line\<close>

definition ParseParams :: "string list \<Rightarrow> bool \<times> bool" where
  "ParseParams params =
     (let isSrc = ''src'' \<in> set params in
      (isSrc, if isSrc then True else ''no-resolve'' \<in> set params))"

definition trimArr :: "string list \<Rightarrow> string list" where
  "trimArr arr = map (trim_set {CHR '' ''}) arr"

definition comma_types :: "string list" where
  "comma_types = [''NOT'', ''OR'', ''AND'', ''SUB-RULE'', ''DOMAIN-REGEX'', ''PROCESS-NAME-REGEX'',
     ''PROCESS-PATH-REGEX'']"

text \<open>The results are type, payload, target and parameters.\<close>

definition ParseRulePayload :: "string \<Rightarrow> bool \<Rightarrow> string \<times> string \<times> string \<times> string list" where
  "ParseRulePayload ruleRaw needTarget =
     (let item = trimArr (go_split (CHR '','') ruleRaw); tp = ToUpper (hd item) in
      if length item > 1 then
        if tp = ''MATCH'' then (tp, [], item ! 1, [])
        else if tp \<in> set comma_types then
          (let (target, item) = (if needTarget then (last item, butlast item) else ([], item)) in
           (tp, go_join (CHR '','') (tl item), target, []))
        else
          let payload = item ! 1 in
          if length item > 2 then
            if needTarget then (tp, payload, item ! 2, if length item > 3 then drop 3 item else [])
            else (tp, payload, [], drop 2 item)
          else (tp, payload, [], [])
      else (tp, [], [], []))"

section \<open>Domain rules\<close>

definition NewDomain :: "string \<Rightarrow> string \<Rightarrow> leaf" where
  "NewDomain domain adapter = RDomain (ToLower domain) adapter"

definition Domain_Match :: "string \<Rightarrow> string \<Rightarrow> mstate \<Rightarrow> verdict" where
  "Domain_Match domain adapter s = Ret (md_RuleHost (ms_md s) = domain, adapter, s)"

definition NewDomainSuffix :: "string \<Rightarrow> string \<Rightarrow> leaf" where
  "NewDomainSuffix suf adapter = RDomainSuffix (ToLower suf) adapter"

definition DomainSuffix_Match :: "string \<Rightarrow> string \<Rightarrow> mstate \<Rightarrow> verdict" where
  "DomainSuffix_Match suf adapter s =
     (let domain = md_RuleHost (ms_md s) in
      Ret (HasSuffix domain (CHR ''.'' # suf) \<or> domain = suf, adapter, s))"

definition NewDomainKeyword :: "string \<Rightarrow> string \<Rightarrow> leaf" where
  "NewDomainKeyword keyword adapter = RDomainKeyword (ToLower keyword) adapter"

definition DomainKeyword_Match :: "string \<Rightarrow> string \<Rightarrow> mstate \<Rightarrow> verdict" where
  "DomainKeyword_Match keyword adapter s =
     Ret (Contains (md_RuleHost (ms_md s)) keyword, adapter, s)"

definition NewDomainRegex :: "rule_env \<Rightarrow> string \<Rightarrow> string \<Rightarrow> leaf option" where
  "NewDomainRegex E regex adapter =
     (if re_compile E regex then Some (RDomainRegex regex adapter) else None)"

definition DomainRegex_Match :: "rule_env \<Rightarrow> string \<Rightarrow> string \<Rightarrow> mstate \<Rightarrow> verdict" where
  "DomainRegex_Match E regex adapter s = Ret (re_match E regex (md_RuleHost (ms_md s)), adapter, s)"

definition NewDomainWildcard :: "string \<Rightarrow> string \<Rightarrow> leaf option" where
  "NewDomainWildcard pattern adapter = Some (RDomainWildcard (ToLower pattern) adapter)"

definition DomainWildcard_Match :: "string \<Rightarrow> string \<Rightarrow> mstate \<Rightarrow> verdict" where
  "DomainWildcard_Match pattern adapter s =
     obind (of_loop (wc_Match pattern (md_RuleHost (ms_md s)))) (\<lambda>m. Ret (m, adapter, s))"

section \<open>Geo rules\<close>

definition NewGEOSITE :: "rule_env \<Rightarrow> string \<Rightarrow> string \<Rightarrow> leaf option" where
  "NewGEOSITE E country adapter =
     (if \<not> geosite_init E then None
      else case geosite_load E country of None \<Rightarrow> None | Some matcher \<Rightarrow> Some (RGEOSITE country adapter))"

definition GEOSITE_MatchDomain :: "rule_env \<Rightarrow> string \<Rightarrow> string \<Rightarrow> bool" where
  "GEOSITE_MatchDomain E country domain =
     (if length domain = 0 then False
      else case geosite_load E country of None \<Rightarrow> False | Some matcher \<Rightarrow> matcher domain)"

definition GEOSITE_Match :: "rule_env \<Rightarrow> string \<Rightarrow> string \<Rightarrow> mstate \<Rightarrow> verdict" where
  "GEOSITE_Match E country adapter s =
     Ret (GEOSITE_MatchDomain E country (md_RuleHost (ms_md s)), adapter, s)"

text \<open>The classes of addresses of \<open>net/netip\<close> (an IPv4 address inside IPv6 counts as IPv4, except
  for \<open>IsUnspecified\<close>).\<close>

definition addr_class :: "(32 word \<Rightarrow> bool) \<Rightarrow> (128 word \<Rightarrow> bool) \<Rightarrow> addr \<Rightarrow> bool" where
  "addr_class p4 p6 ip =
     (case addr_Unmap ip of NoAddr \<Rightarrow> False | V4 w \<Rightarrow> p4 w | V6 w z \<Rightarrow> p6 w)"

definition addr_IsPrivate :: "addr \<Rightarrow> bool" where
  "addr_IsPrivate = addr_class
     (\<lambda>w. drop_bit 24 w = 10 \<or> drop_bit 20 w = 0xac1 \<or> drop_bit 16 w = 0xc0a8)
     (\<lambda>w. drop_bit 121 w = 0x7e)"

definition addr_IsUnspecified :: "addr \<Rightarrow> bool" where
  "addr_IsUnspecified ip \<longleftrightarrow> ip = V4 0 \<or> ip = V6 0 []"

definition addr_IsLoopback :: "addr \<Rightarrow> bool" where
  "addr_IsLoopback = addr_class (\<lambda>w. drop_bit 24 w = 127) (\<lambda>w. w = 1)"

definition addr_IsMulticast :: "addr \<Rightarrow> bool" where
  "addr_IsMulticast = addr_class (\<lambda>w. drop_bit 28 w = 0xe) (\<lambda>w. drop_bit 120 w = 0xff)"

definition addr_IsLinkLocalUnicast :: "addr \<Rightarrow> bool" where
  "addr_IsLinkLocalUnicast = addr_class (\<lambda>w. drop_bit 16 w = 0xa9fe) (\<lambda>w. drop_bit 118 w = 0x3fa)"

definition isLan :: "addr \<Rightarrow> bool" where
  "isLan ip \<longleftrightarrow> addr_IsPrivate ip \<or> addr_IsUnspecified ip \<or> addr_IsLoopback ip \<or>
     addr_IsMulticast ip \<or> addr_IsLinkLocalUnicast ip"

definition NewGEOIP :: "rule_env \<Rightarrow> string \<Rightarrow> string \<Rightarrow> bool \<Rightarrow> bool \<Rightarrow> leaf option" where
  "NewGEOIP E country0 adapter isSrc noResolveIP =
     (let country = ToLower country0; geoip = RGEOIP country adapter isSrc noResolveIP in
      if country = ''lan'' then Some geoip
      else if \<not> geoip_init E then None
      else if geodata_mode E then
        (case geoip_load E country of None \<Rightarrow> None | Some matcher \<Rightarrow> Some geoip)
      else Some geoip)"

text \<open>The start of every rule on an address: resolve the host unless told not to, and pick the
  source or the destination.\<close>

definition rule_ip :: "bool \<Rightarrow> bool \<Rightarrow> helper \<Rightarrow> mstate \<Rightarrow> addr \<times> mstate" where
  "rule_ip isSrc noResolve h s =
     (let s = (if \<not> noResolve \<and> \<not> isSrc then call (h_ResolveIP h) s else s) in
      (if isSrc then md_SrcIP (ms_md s) else md_DstIP (ms_md s), s))"

definition set_geoip :: "bool \<Rightarrow> string list option \<Rightarrow> mstate \<Rightarrow> mstate" where
  "set_geoip isSrc codes s =
     (if isSrc then s\<lparr>ms_md := (ms_md s)\<lparr>md_SrcGeoIP := codes\<rparr>\<rparr>
      else s\<lparr>ms_md := (ms_md s)\<lparr>md_DstGeoIP := codes\<rparr>\<rparr>)"

definition list_of_nil :: "'a list option \<Rightarrow> 'a list" where
  "list_of_nil xs = (case xs of None \<Rightarrow> [] | Some ys \<Rightarrow> ys)"

definition GEOIP_Match ::
  "rule_env \<Rightarrow> string \<Rightarrow> string \<Rightarrow> bool \<Rightarrow> bool \<Rightarrow> helper \<Rightarrow> mstate \<Rightarrow> verdict" where
  "GEOIP_Match E country adapter isSrc noResolve h s0 =
     (let (ip, s) = rule_ip isSrc noResolve h s0;
          cached = (if isSrc then md_SrcGeoIP (ms_md s) else md_DstGeoIP (ms_md s)) in
      if \<not> addr_IsValid ip then Ret (False, [], s)
      else if country = ''lan'' then Ret (isLan ip, adapter, s)
      else if geodata_mode E then
        if country \<in> set (list_of_nil cached) then Ret (True, adapter, s)
        else (case geoip_load E country of
            None \<Rightarrow> Ret (False, [], s)
          | Some matcher \<Rightarrow>
              let m = matcher ip in
              Ret (m, adapter, if m then set_geoip isSrc (Some (list_of_nil cached @ [country])) s else s))
      else (case cached of
          Some codes \<Rightarrow> Ret (country \<in> set codes, adapter, s)
        | None \<Rightarrow>
            let codes = mmdb_codes E (addr_bytes ip); s = set_geoip isSrc codes s in
            if country \<in> set (list_of_nil codes) then Ret (True, adapter, s) else Ret (False, [], s)))"

definition GEOIP_MatchIp :: "rule_env \<Rightarrow> string \<Rightarrow> addr \<Rightarrow> bool" where
  "GEOIP_MatchIp E country ip =
     (if \<not> addr_IsValid ip then False
      else if country = ''lan'' then isLan ip
      else if geodata_mode E then
        (case geoip_load E country of None \<Rightarrow> False | Some matcher \<Rightarrow> matcher ip)
      else country \<in> set (list_of_nil (mmdb_codes E (addr_bytes ip))))"

definition dnsFallback_MatchIp :: "rule_env \<Rightarrow> string \<Rightarrow> addr \<Rightarrow> bool" where
  "dnsFallback_MatchIp E country ip =
     (if \<not> addr_IsValid ip then False
      else if isLan ip then False
      else if country = ''lan'' then \<not> isLan ip
      else if geodata_mode E then
        (case geoip_load E country of None \<Rightarrow> False | Some matcher \<Rightarrow> \<not> matcher ip)
      else country \<notin> set (list_of_nil (mmdb_codes E (addr_bytes ip))))"

definition NewIPASN :: "rule_env \<Rightarrow> string \<Rightarrow> string \<Rightarrow> bool \<Rightarrow> bool \<Rightarrow> leaf option" where
  "NewIPASN E asn adapter isSrc noResolveIP =
     (if \<not> asn_init E then None else Some (RASN asn adapter isSrc noResolveIP))"

definition ASN_Match ::
  "rule_env \<Rightarrow> string \<Rightarrow> string \<Rightarrow> bool \<Rightarrow> bool \<Rightarrow> helper \<Rightarrow> mstate \<Rightarrow> verdict" where
  "ASN_Match E asn0 adapter isSrc noResolve h s0 =
     (let (ip, s) = rule_ip isSrc noResolve h s0 in
      if \<not> addr_IsValid ip then Ret (False, [], s)
      else
        let (asn, aso) = asn_lookup E (addr_bytes ip);
            s = (if isSrc then s\<lparr>ms_md := (ms_md s)\<lparr>md_SrcIPASN := asn @ '' '' @ aso\<rparr>\<rparr>
                 else s\<lparr>ms_md := (ms_md s)\<lparr>md_DstIPASN := asn @ '' '' @ aso\<rparr>\<rparr>) in
        Ret (asn0 = asn, adapter, s))"

section \<open>Address rules\<close>

definition NewIPCIDR :: "string \<Rightarrow> string \<Rightarrow> bool \<Rightarrow> bool \<Rightarrow> leaf option" where
  "NewIPCIDR s adapter isSrc noResolve =
     (case ParsePrefix s of None \<Rightarrow> None | Some ipnet \<Rightarrow> Some (RIPCIDR ipnet adapter isSrc noResolve))"

definition IPCIDR_Match :: "ipprefix \<Rightarrow> string \<Rightarrow> bool \<Rightarrow> bool \<Rightarrow> helper \<Rightarrow> mstate \<Rightarrow> verdict" where
  "IPCIDR_Match ipnet adapter isSrc noResolve h s0 =
     (let (ip, s) = rule_ip isSrc noResolve h s0 in
      Ret (addr_IsValid ip \<and> pf_Contains ipnet (addr_WithZone [] ip), adapter, s))"

definition NewIPSuffix :: "string \<Rightarrow> string \<Rightarrow> bool \<Rightarrow> bool \<Rightarrow> leaf option" where
  "NewIPSuffix payload adapter isSrc noResolve =
     (case ParsePrefix payload of
        None \<Rightarrow> None
      | Some ipnet \<Rightarrow>
          Some (RIPSuffix (addr_bytes (pf_addr ipnet)) (pf_bits ipnet) payload adapter isSrc noResolve))"

text \<open>The loop over the whole bytes, \<open>i\<close> counting down from \<open>bits / 8\<close>.\<close>

fun suffix_loop :: "byte list \<Rightarrow> byte list \<Rightarrow> nat \<Rightarrow> nat \<Rightarrow> bool outcome" where
  "suffix_loop ib mb sz 0 = Ret True"
| "suffix_loop ib mb sz (Suc i) =
     obind (get_at ib (int sz - int (Suc i))) (\<lambda>x.
     obind (get_at mb (int sz - int (Suc i))) (\<lambda>y.
       if x \<noteq> y then Ret False else suffix_loop ib mb sz i))"

definition IPSuffix_match_bytes :: "byte list \<Rightarrow> nat \<Rightarrow> byte list \<Rightarrow> bool outcome" where
  "IPSuffix_match_bytes ib bits mb =
     (if length ib \<noteq> length mb then Ret False
      else let sz = length mb in
        obind (suffix_loop ib mb sz (bits div 8)) (\<lambda>ok.
          if \<not> ok then Ret False
          else if bits mod 8 \<noteq> 0 then
            obind (get_at ib (int sz - int (bits div 8) - 1)) (\<lambda>x.
            obind (get_at mb (int sz - int (bits div 8) - 1)) (\<lambda>y.
              Ret (push_bit (8 - bits mod 8) x = push_bit (8 - bits mod 8) y)))
          else Ret True))"

definition IPSuffix_Match ::
  "byte list \<Rightarrow> nat \<Rightarrow> string \<Rightarrow> bool \<Rightarrow> bool \<Rightarrow> helper \<Rightarrow> mstate \<Rightarrow> verdict" where
  "IPSuffix_Match ib bits adapter isSrc noResolve h s0 =
     (let (ip, s) = rule_ip isSrc noResolve h s0 in
      obind (IPSuffix_match_bytes ib bits (addr_bytes ip)) (\<lambda>m.
        if m then Ret (True, adapter, s) else Ret (False, [], s)))"

section \<open>Port, DSCP, inbound, process, network and user rules\<close>

definition NewPort :: "string \<Rightarrow> string \<Rightarrow> rule_type \<Rightarrow> leaf option" where
  "NewPort port adapter ruleType =
     (case NewUnsignedRanges port of
        None \<Rightarrow> None
      | Some portRanges \<Rightarrow>
          if length portRanges = 0 then None else Some (RPort adapter port ruleType portRanges))"

definition Port_Match :: "string \<Rightarrow> rule_type \<Rightarrow> 16 word rng list \<Rightarrow> mstate \<Rightarrow> verdict" where
  "Port_Match adapter ruleType portRanges s =
     (let targetPort = (if ruleType = RT_InPort then md_InPort (ms_md s)
                        else if ruleType = RT_SrcPort then md_SrcPort (ms_md s)
                        else md_DstPort (ms_md s)) in
      Ret (ir_Check portRanges targetPort, adapter, s))"

definition NewDSCP :: "string \<Rightarrow> string \<Rightarrow> leaf option" where
  "NewDSCP dscp adapter =
     (case NewUnsignedRanges dscp of
        None \<Rightarrow> None
      | Some ranges \<Rightarrow>
          if \<exists>r \<in> set ranges. rg_end r > (63 :: 8 word) then None else Some (RDSCP ranges dscp adapter))"

definition DSCP_Match :: "8 word rng list \<Rightarrow> string \<Rightarrow> mstate \<Rightarrow> verdict" where
  "DSCP_Match ranges adapter s = Ret (ir_Check ranges (md_DSCP (ms_md s)), adapter, s)"

text \<open>The constructors of the rules on inbound names, users and rematch names split at \<open>/\<close>, trim
  each piece and reject an empty one.\<close>

fun trim_names :: "string list \<Rightarrow> string list option" where
  "trim_names [] = Some []"
| "trim_names (x # xs) =
     (let name = TrimSpace x in
      if length name = 0 then None
      else case trim_names xs of None \<Rightarrow> None | Some ys \<Rightarrow> Some (name # ys))"

fun any_name :: "'a list \<Rightarrow> 'a \<Rightarrow> string \<Rightarrow> mstate \<Rightarrow> verdict" where
  "any_name [] x adapter s = Ret (False, [], s)"
| "any_name (n # ns) x adapter s = (if x = n then Ret (True, adapter, s) else any_name ns x adapter s)"

definition NewInName :: "string \<Rightarrow> string \<Rightarrow> leaf option" where
  "NewInName iNames adapter =
     (case trim_names (go_split (CHR ''/'') iNames) of
        None \<Rightarrow> None | Some names \<Rightarrow> Some (RInName names adapter iNames))"

definition InName_Match :: "string list \<Rightarrow> string \<Rightarrow> mstate \<Rightarrow> verdict" where
  "InName_Match names adapter s = any_name names (md_InName (ms_md s)) adapter s"

definition NewInUser :: "string \<Rightarrow> string \<Rightarrow> leaf option" where
  "NewInUser iUsers adapter =
     (case trim_names (go_split (CHR ''/'') iUsers) of
        None \<Rightarrow> None | Some users \<Rightarrow> Some (RInUser users adapter iUsers))"

definition InUser_Match :: "string list \<Rightarrow> string \<Rightarrow> mstate \<Rightarrow> verdict" where
  "InUser_Match users adapter s = any_name users (md_InUser (ms_md s)) adapter s"

definition NewRematchName :: "string \<Rightarrow> string \<Rightarrow> leaf option" where
  "NewRematchName iNames adapter =
     (case trim_names (go_split (CHR ''/'') iNames) of
        None \<Rightarrow> None | Some names \<Rightarrow> Some (RRematchName names adapter iNames))"

definition RematchName_Match :: "string list \<Rightarrow> string \<Rightarrow> mstate \<Rightarrow> verdict" where
  "RematchName_Match names adapter s = any_name names (md_RematchName (ms_md s)) adapter s"

fun parseInTypes :: "string list \<Rightarrow> conn_type list option" where
  "parseInTypes [] = Some []"
| "parseInTypes (tp # tps) =
     (let utp = ToUpper tp in
      if utp = ''SOCKS'' then map_option (\<lambda>r. SOCKS4 # SOCKS5 # r) (parseInTypes tps)
      else case ParseType utp of
        None \<Rightarrow> None
      | Some t \<Rightarrow> map_option (\<lambda>r. t # r) (parseInTypes tps))"

definition NewInType :: "string \<Rightarrow> string \<Rightarrow> leaf option" where
  "NewInType iTypes adapter =
     (case trim_names (go_split (CHR ''/'') iTypes) of
        None \<Rightarrow> None
      | Some types \<Rightarrow>
          (case parseInTypes types of
             None \<Rightarrow> None | Some tps \<Rightarrow> Some (RInType tps adapter (ToUpper iTypes))))"

definition InType_Match :: "conn_type list \<Rightarrow> string \<Rightarrow> mstate \<Rightarrow> verdict" where
  "InType_Match types adapter s = any_name types (md_Type (ms_md s)) adapter s"

definition NewNetworkType :: "string \<Rightarrow> string \<Rightarrow> leaf option" where
  "NewNetworkType net adapter =
     (if ToUpper net = ''TCP'' then Some (RNetwork TCP adapter)
      else if ToUpper net = ''UDP'' then Some (RNetwork UDP adapter)
      else None)"

definition NetworkType_Match :: "network \<Rightarrow> string \<Rightarrow> mstate \<Rightarrow> verdict" where
  "NetworkType_Match net adapter s = Ret (net = md_NetWork (ms_md s), adapter, s)"

definition NewProcess :: "rule_env \<Rightarrow> string \<Rightarrow> string \<Rightarrow> rule_type \<Rightarrow> leaf option" where
  "NewProcess E pattern adapter ruleType =
     (if ruleType = RT_ProcessNameRegex \<or> ruleType = RT_ProcessPathRegex then
        (if re_compile E pattern then Some (RProcess pattern adapter ruleType) else None)
      else Some (RProcess pattern adapter ruleType))"

text \<open>\<open>strings.EqualFold\<close> on ASCII.\<close>

definition EqualFold :: "string \<Rightarrow> string \<Rightarrow> bool" where
  "EqualFold s t \<longleftrightarrow> ToLower s = ToLower t"

definition Process_Match ::
  "rule_env \<Rightarrow> string \<Rightarrow> string \<Rightarrow> rule_type \<Rightarrow> helper \<Rightarrow> mstate \<Rightarrow> verdict" where
  "Process_Match E pattern adapter ruleType h s0 =
     (let s = call (h_FindProcess h) s0;
          target = (if ruleType \<in> {RT_ProcessName, RT_ProcessNameRegex, RT_ProcessNameWildcard}
                    then md_Process (ms_md s) else md_ProcessPath (ms_md s)) in
      if ruleType \<in> {RT_ProcessNameRegex, RT_ProcessPathRegex} then
        Ret (re_match E pattern target, adapter, s)
      else if ruleType \<in> {RT_ProcessNameWildcard, RT_ProcessPathWildcard} then
        obind (of_loop (wc_Match (ToLower pattern) (ToLower target))) (\<lambda>m. Ret (m, adapter, s))
      else Ret (EqualFold target pattern, adapter, s))"

definition NewUid :: "rule_env \<Rightarrow> string \<Rightarrow> string \<Rightarrow> leaf option" where
  "NewUid E oUid adapter =
     (if \<not> goos_has_uid E then None
      else case NewUnsignedRanges oUid of
        None \<Rightarrow> None
      | Some uidRange \<Rightarrow> if length uidRange = 0 then None else Some (RUid uidRange oUid adapter))"

definition Uid_Match :: "32 word rng list \<Rightarrow> string \<Rightarrow> helper \<Rightarrow> mstate \<Rightarrow> verdict" where
  "Uid_Match uids adapter h s0 =
     (let s = call (h_FindProcess h) s0 in
      if md_Uid (ms_md s) \<noteq> 0 \<and> ir_Check uids (md_Uid (ms_md s)) then Ret (True, adapter, s)
      else Ret (False, [], s))"

definition NewRuleSet :: "string \<Rightarrow> string \<Rightarrow> bool \<Rightarrow> bool \<Rightarrow> rule option" where
  "NewRuleSet ruleProviderName adapter isSrc noResolveIP =
     Some (RRuleSet ruleProviderName adapter isSrc noResolveIP)"

definition NewMatch :: "string \<Rightarrow> leaf" where
  "NewMatch adapter = RMatch adapter"

definition Final_Match :: "string \<Rightarrow> mstate \<Rightarrow> verdict" where
  "Final_Match adapter s = Ret (True, adapter, s)"

text \<open>The dispatch of \<open>Rule.Match\<close> for the rules that hold no rules themselves.\<close>

fun leaf_Match :: "rule_env \<Rightarrow> leaf \<Rightarrow> helper \<Rightarrow> mstate \<Rightarrow> verdict" where
  "leaf_Match E (RDomain d a) h s = Domain_Match d a s"
| "leaf_Match E (RDomainSuffix d a) h s = DomainSuffix_Match d a s"
| "leaf_Match E (RDomainKeyword d a) h s = DomainKeyword_Match d a s"
| "leaf_Match E (RDomainRegex d a) h s = DomainRegex_Match E d a s"
| "leaf_Match E (RDomainWildcard d a) h s = DomainWildcard_Match d a s"
| "leaf_Match E (RGEOSITE c a) h s = GEOSITE_Match E c a s"
| "leaf_Match E (RGEOIP c a isSrc nr) h s = GEOIP_Match E c a isSrc nr h s"
| "leaf_Match E (RASN n a isSrc nr) h s = ASN_Match E n a isSrc nr h s"
| "leaf_Match E (RIPCIDR p a isSrc nr) h s = IPCIDR_Match p a isSrc nr h s"
| "leaf_Match E (RIPSuffix b n p a isSrc nr) h s = IPSuffix_Match b n a isSrc nr h s"
| "leaf_Match E (RPort a p t rs) h s = Port_Match a t rs s"
| "leaf_Match E (RDSCP rs p a) h s = DSCP_Match rs a s"
| "leaf_Match E (RInName ns a p) h s = InName_Match ns a s"
| "leaf_Match E (RInUser ns a p) h s = InUser_Match ns a s"
| "leaf_Match E (RInType ts a p) h s = InType_Match ts a s"
| "leaf_Match E (RRematchName ns a p) h s = RematchName_Match ns a s"
| "leaf_Match E (RProcess p a t) h s = Process_Match E p a t h s"
| "leaf_Match E (RNetwork n a) h s = NetworkType_Match n a s"
| "leaf_Match E (RUid rs p a) h s = Uid_Match rs a h s"
| "leaf_Match E (RMatch a) h s = Final_Match a s"

section \<open>Suffixes of addresses\<close>

lemma get_back: "i < length xs \<Longrightarrow> get_at xs (int (length xs) - int (Suc i)) = Ret (xs ! (length xs - Suc i))"
  using get_at_int[of "length xs - Suc i" xs] by (simp add: of_nat_diff)

lemma suffix_loop_eq:
  assumes "length ib = length mb" "k \<le> length mb"
  shows "suffix_loop ib mb (length mb) k =
    Ret (\<forall>i < k. ib ! (length mb - Suc i) = mb ! (length mb - Suc i))"
  using assms
proof (induction k)
  case (Suc k)
  then have k: "k < length mb" by simp
  show ?case using Suc get_back[of k ib] get_back[OF k] by (auto simp: All_less_Suc)
qed simp

definition back_bit :: "byte list \<Rightarrow> nat \<Rightarrow> bool" where
  "back_bit xs i = bit (xs ! (length xs - Suc (i div 8))) (i mod 8)"

lemma byte_eq_bits: "(x :: byte) = y \<longleftrightarrow> (\<forall>i < 8. bit x i = bit y i)"
  by (auto intro: bit_word_eqI)

lemma push_eq_bits:
  assumes "r \<le> 8" shows "push_bit (8 - r) (x :: byte) = push_bit (8 - r) y \<longleftrightarrow> (\<forall>i < r. bit x i = bit y i)"
proof
  assume e: "push_bit (8 - r) x = push_bit (8 - r) y"
  show "\<forall>i < r. bit x i = bit y i"
  proof (intro allI impI)
    fix i assume "i < r"
    with assms have "8 - r + i < 8" by simp
    moreover have "bit (push_bit (8 - r) x) (8 - r + i) = bit (push_bit (8 - r) y) (8 - r + i)" using e by simp
    ultimately show "bit x i = bit y i" by (simp add: bit_push_bit_iff)
  qed
next
  assume "\<forall>i < r. bit x i = bit y i"
  then show "push_bit (8 - r) x = push_bit (8 - r) y"
    using assms by (auto simp: byte_eq_bits bit_push_bit_iff)
qed

lemma all_less_add: "(\<forall>i < a + b. P i) \<longleftrightarrow> (\<forall>i < a. P i) \<and> (\<forall>m < b. P (a + m))" for b :: nat
  by (induction b) (auto simp: less_Suc_eq)

lemma match_bytes_eq:
  assumes l: "length ib = length mb" and b: "bits \<le> 8 * length mb"
  shows "IPSuffix_match_bytes ib bits mb = Ret (\<forall>i < bits. back_bit ib i = back_bit mb i)"
proof -
  let ?q = "bits div 8" let ?r = "bits mod 8" let ?n = "length mb"
  let ?low = "\<forall>i < ?q. ib ! (?n - Suc i) = mb ! (?n - Suc i)"
  have q: "?q \<le> ?n" using b by simp
  have low: "?low \<longleftrightarrow> (\<forall>i < 8 * ?q. back_bit ib i = back_bit mb i)"
  proof
    assume ?low
    then show "\<forall>i < 8 * ?q. back_bit ib i = back_bit mb i"
      using l by (auto simp: back_bit_def)
  next
    assume a: "\<forall>i < 8 * ?q. back_bit ib i = back_bit mb i"
    show ?low
    proof (intro allI impI)
      fix i assume "i < ?q"
      then have "\<forall>m < 8. back_bit ib (8 * i + m) = back_bit mb (8 * i + m)" using a by auto
      then show "ib ! (?n - Suc i) = mb ! (?n - Suc i)" using l by (auto simp: back_bit_def byte_eq_bits)
    qed
  qed
  have split: "(\<forall>i < bits. P i) \<longleftrightarrow> (\<forall>i < 8 * ?q. P i) \<and> (\<forall>m < ?r. P (8 * ?q + m))" for P
    using all_less_add[of "8 * ?q" ?r P] by simp
  show ?thesis
  proof (cases "?r = 0")
    case True
    then show ?thesis using low split[of "\<lambda>i. back_bit ib i = back_bit mb i"] suffix_loop_eq[OF l q]
      by (auto simp: IPSuffix_match_bytes_def l Let_def)
  next
    case False
    then have lt: "?q < ?n" using b by presburger
    have g: "get_at ib (int ?n - int ?q - 1) = Ret (ib ! (?n - Suc ?q))"
      "get_at mb (int ?n - int ?q - 1) = Ret (mb ! (?n - Suc ?q))"
      using get_back[of ?q ib] get_back[of ?q mb] l lt by (simp_all add: algebra_simps)
    have r: "(push_bit (8 - ?r) (ib ! (?n - Suc ?q)) = push_bit (8 - ?r) (mb ! (?n - Suc ?q))) \<longleftrightarrow>
       (\<forall>m < ?r. back_bit ib (8 * ?q + m) = back_bit mb (8 * ?q + m))"
      using push_eq_bits[of ?r] l by (auto simp: back_bit_def)
    show ?thesis
      using low split[of "\<lambda>i. back_bit ib i = back_bit mb i"] suffix_loop_eq[OF l q] g r False
      by (auto simp: IPSuffix_match_bytes_def l Let_def)
  qed
qed

lemma be_put_nth: "i < k \<Longrightarrow> be_put k n ! (k - Suc i) = word_of_int (n div 256 ^ i)"
proof (induction k arbitrary: n i)
  case (Suc k)
  show ?case
  proof (cases i)
    case (Suc j)
    then have "be_put (Suc k) n ! (Suc k - Suc i) = be_put k (n div 256) ! (k - Suc j)"
      using Suc.prems by (simp add: nth_append)
    also have "\<dots> = word_of_int (n div 256 div 256 ^ j)" using Suc.IH[of j "n div 256"] Suc.prems Suc by simp
    finally show ?thesis using Suc by (simp add: zdiv_zmult2_eq)
  qed (simp add: nth_append)
qed simp

lemma back_bit_put:
  assumes "i < 8 * k" shows "back_bit (be_put k n) i = bit n i"
proof -
  have "back_bit (be_put k n) i = bit (n div 256 ^ (i div 8)) (i mod 8)"
    using assms by (simp add: back_bit_def be_put_nth bit_word_of_int_iff less_mult_imp_div_less mult.commute)
  also have "(256::int) ^ (i div 8) = 2 ^ (8 * (i div 8))" by (simp add: power_mult)
  also have "n div 2 ^ (8 * (i div 8)) = drop_bit (8 * (i div 8)) n" by (simp add: drop_bit_eq_div)
  finally show ?thesis by (simp add: bit_drop_bit_eq)
qed

lemma back_bits_word:
  fixes w v :: "'w::len word"
  assumes "LENGTH('w) = 8 * k" "bits \<le> LENGTH('w)"
  shows "(\<forall>i < bits. back_bit (be_put k (uint w)) i = back_bit (be_put k (uint v)) i) \<longleftrightarrow>
    take_bit bits w = take_bit bits v"
proof -
  have "(\<forall>i < bits. back_bit (be_put k (uint w)) i = back_bit (be_put k (uint v)) i) \<longleftrightarrow>
     (\<forall>i < bits. bit w i = bit v i)"
    using assms by (auto simp: back_bit_put bit_uint_iff)
  also have "\<dots> \<longleftrightarrow> take_bit bits w = take_bit bits v"
    using bit_imp_le_length[of w] bit_imp_le_length[of v]
    by (auto simp: bit_eq_iff bit_take_bit_iff)
  finally show ?thesis .
qed

text \<open>What an \<open>IP-SUFFIX\<close> rule promises: the low \<open>bits\<close> bits of two addresses of one family
  agree.\<close>

fun same_suffix :: "nat \<Rightarrow> addr \<Rightarrow> addr \<Rightarrow> bool" where
  "same_suffix bits (V4 w) (V4 v) = (take_bit bits w = take_bit bits v)"
| "same_suffix bits (V6 w z) (V6 v z') = (take_bit bits w = take_bit bits v)"
| "same_suffix bits _ _ = False"

lemma match_addr_bytes:
  assumes "bits \<le> addr_BitLen a" "a \<noteq> NoAddr"
  shows "IPSuffix_match_bytes (addr_bytes a) bits (addr_bytes ip) = Ret (same_suffix bits a ip)"
proof (cases "length (addr_bytes a) = length (addr_bytes ip)")
  case True
  have "8 * length (addr_bytes a) = addr_BitLen a" by (cases a) auto
  then have "IPSuffix_match_bytes (addr_bytes a) bits (addr_bytes ip) =
     Ret (\<forall>i < bits. back_bit (addr_bytes a) i = back_bit (addr_bytes ip) i)"
    using True assms by (intro match_bytes_eq) auto
  moreover have "(\<forall>i < bits. back_bit (addr_bytes a) i = back_bit (addr_bytes ip) i) = same_suffix bits a ip"
    using True assms by (cases a; cases ip) (simp_all add: back_bits_word)
  ultimately show ?thesis by simp
next
  case False
  then show ?thesis using assms(2)
    by (cases a; cases ip) (simp_all add: IPSuffix_match_bytes_def)
qed

lemma ParseAddr_valid: "ParseAddr s \<noteq> Some NoAddr"
  by (auto simp: ParseAddr_def parse6_def split: option.splits if_splits)

lemma ParsePrefix_bits:
  assumes "ParsePrefix s = Some p" shows "pf_bits p \<le> addr_BitLen (pf_addr p) \<and> pf_addr p \<noteq> NoAddr"
  using assms ParseAddr_valid
  by (auto simp: ParsePrefix_def Let_def split: option.splits if_splits)

text \<open>
  An \<open>IP-SUFFIX\<close> rule made from a prefix text matches an address of the same family exactly
  when the low bits that the prefix length counts are those of the prefix; it never reads out of
  bounds, and it resolves the host first unless it is told not to.
\<close>

theorem ip_suffix_low_bits:
  assumes "ParsePrefix payload = Some net"
  shows "\<exists>r. NewIPSuffix payload adapter isSrc noResolve = Some r \<and>
    (\<forall>E h s. leaf_Match E r h s =
      (let (ip, s') = rule_ip isSrc noResolve h s in
       Ret (if same_suffix (pf_bits net) (pf_addr net) ip then (True, adapter, s') else (False, [], s'))))"
  using assms ParsePrefix_bits[OF assms]
  by (auto simp: NewIPSuffix_def IPSuffix_Match_def match_addr_bytes split: prod.splits)

theorem ip_suffix_low_bits_witness:
  "\<exists>r. NewIPSuffix ''10.0.0.1/8'' ''P'' False True = Some r \<and>
    (\<forall>E h s. leaf_Match E r h s =
      (let (ip, s') = rule_ip False True h s in
       Ret (if same_suffix 8 (V4 0x0A000001) ip then (True, ''P'', s') else (False, [], s'))))"
proof -
  have "ParsePrefix ''10.0.0.1/8'' = Some \<lparr>pf_addr = V4 0x0A000001, pf_bits = 8\<rparr>" by code_simp
  from ip_suffix_low_bits[OF this, of "''P''" False True] show ?thesis by simp
qed

text \<open>Every rule that a constructor makes is matched without a panic.\<close>

fun leaf_ok :: "leaf \<Rightarrow> bool" where
  "leaf_ok (RIPSuffix ib bits _ _ _ _) = (bits \<le> 8 * length ib)"
| "leaf_ok _ = True"

lemma wc_Match_ends: "ends (of_loop (wc_Match p s))"
  using wc_Match_total[of p s] by auto

lemma IPSuffix_match_ends: "bits \<le> 8 * length ib \<Longrightarrow> ends (IPSuffix_match_bytes ib bits mb)"
  by (cases "length ib = length mb") (simp add: match_bytes_eq, simp add: IPSuffix_match_bytes_def)

lemma any_name_ends: "ends (any_name ns x a s)"
  by (induction ns) auto

lemma leaf_Match_ends: "leaf_ok r \<Longrightarrow> ends (leaf_Match E r h s)"
  by (cases r)
    (simp_all add: Domain_Match_def DomainSuffix_Match_def DomainKeyword_Match_def DomainRegex_Match_def
      DomainWildcard_Match_def IPSuffix_Match_def IPCIDR_Match_def ASN_Match_def Process_Match_def
      GEOSITE_Match_def GEOIP_Match_def Port_Match_def DSCP_Match_def InName_Match_def InUser_Match_def
      InType_Match_def RematchName_Match_def NetworkType_Match_def Uid_Match_def Final_Match_def Let_def
      any_name_ends IPSuffix_match_ends wc_Match_ends ends_obind split: prod.split option.split)

text \<open>The geo caches of the metadata hold only what the lookups on their address say.\<close>

definition geo_hit :: "rule_env \<Rightarrow> addr \<Rightarrow> string \<Rightarrow> bool" where
  "geo_hit E ip c \<longleftrightarrow>
     c \<noteq> ''lan'' \<and> (case geoip_load E c of None \<Rightarrow> False | Some matcher \<Rightarrow> matcher ip)"

definition geo_cached :: "rule_env \<Rightarrow> addr \<Rightarrow> string list option \<Rightarrow> bool" where
  "geo_cached E ip cached \<longleftrightarrow>
     (case cached of
        None \<Rightarrow> True
      | Some codes \<Rightarrow>
          if geodata_mode E then
            (\<forall>c \<in> set codes. geo_hit E ip c)
          else mmdb_codes E (addr_bytes ip) = Some codes)"

definition geo_ok :: "rule_env \<Rightarrow> metadata \<Rightarrow> bool" where
  "geo_ok E m \<longleftrightarrow> geo_cached E (md_SrcIP m) (md_SrcGeoIP m) \<and> geo_cached E (md_DstIP m) (md_DstGeoIP m)"

lemma set_geoip_ok:
  assumes "geo_ok E (ms_md s)" "geo_cached E (if isSrc then md_SrcIP (ms_md s) else md_DstIP (ms_md s)) v"
  shows "geo_ok E (ms_md (set_geoip isSrc v s))"
  using assms by (cases isSrc) (simp_all add: geo_ok_def set_geoip_def)

text \<open>A geo database in the \<open>dat\<close> format, and one in the \<open>mmdb\<close> format.\<close>

lemma geoip_geodata:
  assumes "geodata_mode E" "country \<noteq> ''lan''" "addr_IsValid ip" "geo_cached E ip c"
  shows "(country \<in> set (list_of_nil c) \<longrightarrow> GEOIP_MatchIp E country ip) \<and>
    (case geoip_load E country of
       None \<Rightarrow> \<not> GEOIP_MatchIp E country ip
     | Some matcher \<Rightarrow> GEOIP_MatchIp E country ip = matcher ip \<and>
         (matcher ip \<longrightarrow> geo_cached E ip (Some (list_of_nil c @ [country]))))"
proof -
  have "geo_hit E ip country = GEOIP_MatchIp E country ip"
    using assms by (simp add: geo_hit_def GEOIP_MatchIp_def)
  moreover have "\<forall>d \<in> set (list_of_nil c). geo_hit E ip d"
    using assms by (simp add: geo_cached_def list_of_nil_def split: option.splits)
  ultimately show ?thesis
    using assms by (auto simp: geo_cached_def GEOIP_MatchIp_def split: option.splits)
qed

lemma geoip_mmdb:
  assumes "\<not> geodata_mode E" "country \<noteq> ''lan''" "addr_IsValid ip" "geo_cached E ip c"
  shows "GEOIP_MatchIp E country ip =
      (country \<in> set (case c of None \<Rightarrow> list_of_nil (mmdb_codes E (addr_bytes ip)) | Some codes \<Rightarrow> codes)) \<and>
    geo_cached E ip (mmdb_codes E (addr_bytes ip))"
  using assms by (auto simp: geo_cached_def GEOIP_MatchIp_def list_of_nil_def split: option.splits)

text \<open>
  A \<open>GEOIP\<close> rule answers what the stateless \<open>MatchIp\<close> of the same rule answers on the source or
  destination address (after resolving the host), whatever earlier rules cached in the metadata, as
  long as the cache is sound for the addresses; and it leaves a sound cache.
\<close>

theorem geoip_cache_sound:
  assumes "rule_ip isSrc noResolve h s = (ip, s')" and "geo_ok E (ms_md s')"
  shows "\<exists>a s''. GEOIP_Match E country adapter isSrc noResolve h s =
      Ret (GEOIP_MatchIp E country ip, a, s'') \<and> geo_ok E (ms_md s'')"
proof -
  let ?c = "if isSrc then md_SrcGeoIP (ms_md s') else md_DstGeoIP (ms_md s')"
  have ip: "ip = (if isSrc then md_SrcIP (ms_md s') else md_DstIP (ms_md s'))"
    using assms(1) by (auto simp: rule_ip_def Let_def)
  have c: "geo_cached E ip ?c" using assms(2) ip by (simp add: geo_ok_def)
  have set: "geo_ok E (ms_md (set_geoip isSrc v s'))" if "geo_cached E ip v" for v
    using set_geoip_ok[OF assms(2)] that ip by simp
  consider "country = ''lan'' \<or> \<not> addr_IsValid ip"
    | "geodata_mode E" "country \<noteq> ''lan''" "addr_IsValid ip"
    | "\<not> geodata_mode E" "country \<noteq> ''lan''" "addr_IsValid ip" by blast
  then show ?thesis
  proof cases
    case 1
    then show ?thesis using assms by (auto simp: GEOIP_Match_def GEOIP_MatchIp_def Let_def)
  next
    case 2
    then show ?thesis using assms geoip_geodata[OF 2 c] set
      by (cases "country \<in> set (list_of_nil ?c)"; cases "geoip_load E country")
        (auto simp: GEOIP_Match_def Let_def)
  next
    case 3
    then show ?thesis using assms geoip_mmdb[OF 3 c] set
      by (cases ?c) (auto simp: GEOIP_Match_def Let_def)
  qed
qed

definition geo_env :: rule_env where
  "geo_env = \<lparr>re_compile = (\<lambda>r. True), re_match = (\<lambda>r s. r = s), geosite_init = True,
     geosite_load = (\<lambda>c. None), geoip_init = True, geodata_mode = False, geoip_load = (\<lambda>c. None),
     mmdb_codes = (\<lambda>b. if b = [1, 1, 1, 1] then Some [''au''] else None), asn_init = True,
     asn_lookup = (\<lambda>b. ([], [])), goos_has_uid = True\<rparr>"

definition no_helper :: helper where
  "no_helper = \<lparr>h_ResolveIP = None, h_FindProcess = None, h_CheckPassRule = None\<rparr>"

definition ms_of :: "metadata \<Rightarrow> mstate" where
  "ms_of m = \<lparr>ms_md = m, ms_resolved = False, ms_attempt = False\<rparr>"

lemma bytes_1111: "addr_bytes (V4 0x01010101) = [1, 1, 1, 1]"
  by code_simp

theorem geoip_cache_sound_witness:
  "\<exists>a s''. GEOIP_Match geo_env ''au'' ''P'' False False no_helper
       (ms_of (metadata_zero\<lparr>md_DstIP := V4 0x01010101, md_DstGeoIP := Some [''au'']\<rparr>)) =
      Ret (GEOIP_MatchIp geo_env ''au'' (V4 0x01010101), a, s'') \<and> geo_ok geo_env (ms_md s'')"
proof (rule geoip_cache_sound)
  show "rule_ip False False no_helper
       (ms_of (metadata_zero\<lparr>md_DstIP := V4 0x01010101, md_DstGeoIP := Some [''au'']\<rparr>)) =
      (V4 0x01010101, ms_of (metadata_zero\<lparr>md_DstIP := V4 0x01010101, md_DstGeoIP := Some [''au'']\<rparr>))"
    by (simp add: rule_ip_def call_def no_helper_def ms_of_def)
  show "geo_ok geo_env (ms_md (ms_of (metadata_zero\<lparr>md_DstIP := V4 0x01010101, md_DstGeoIP := Some [''au'']\<rparr>)))"
    by (simp add: geo_ok_def geo_cached_def geo_env_def ms_of_def metadata_zero_def bytes_1111 del: addr_bytes.simps)
qed

end
