(* ===== verification/Logic.thy ===== *)
theory Logic
  imports Rules
begin

text \<open>
  Rules made of rules: \<open>rules/logic/logic.go\<close> (AND, OR, NOT and SUB-RULE), the parser of rule lines
  \<open>rules/parser.go\<close>, rule sets with the strategies of their providers
  (\<open>rules/provider/*_strategy.go\<close>, \<open>rule_set.go\<close>), the check of sub-rule references of
  \<open>config/config.go\<close>, and the counting wrapper of \<open>rules/wrapper/wrapper.go\<close>. A call of the parser
  or of \<open>Match\<close> takes fuel for its depth, and \<open>Diverge\<close> is running out of it, that is, unbounded
  recursion (a stack overflow) in Go; enough fuel is given for everything the configuration
  accepts.
\<close>

section \<open>The payload of a logic rule\<close>

text \<open>\<open>format\<close>: the ranges between matching parentheses, by their start. The loop has the index,
  the rest of the payload, the stack and the ranges found.\<close>

fun format_loop :: "nat \<Rightarrow> string \<Rightarrow> nat list \<Rightarrow> (nat \<times> nat) list \<Rightarrow> (nat \<times> nat) list option" where
  "format_loop i [] stack subRanges = (if length stack \<noteq> 0 then None else Some subRanges)"
| "format_loop i (c # cs) stack subRanges =
     (if c = CHR ''('' then format_loop (i + 1) cs (i # stack) subRanges
      else if c = CHR '')'' then
        (case stack of
           [] \<Rightarrow> None
         | start # stack \<Rightarrow> format_loop (i + 1) cs stack (subRanges @ [(start, i)]))
      else format_loop (i + 1) cs stack subRanges)"

definition logic_format :: "string \<Rightarrow> (nat \<times> nat) list option" where
  "logic_format payload = map_option (sort_key fst) (format_loop 0 payload [] [])"

definition containRange :: "nat \<times> nat \<Rightarrow> nat \<times> nat \<Rightarrow> bool" where
  "containRange r pre \<longleftrightarrow> fst pre < fst r \<and> snd pre > snd r"

definition find_step ::
  "nat \<Rightarrow> (nat \<times> nat) list \<Rightarrow> nat \<times> nat \<Rightarrow> (nat \<times> nat) list" where
  "find_step payloadLen subRuleRange rr =
     (if fst rr = 0 \<and> snd rr = payloadLen - 1 then subRuleRange
      else if \<exists>r \<in> set subRuleRange. containRange rr r then subRuleRange
      else subRuleRange @ [rr])"

definition findSubRuleRange :: "string \<Rightarrow> (nat \<times> nat) list \<Rightarrow> (nat \<times> nat) list" where
  "findSubRuleRange payload ruleRanges = foldl (find_step (length payload)) [] ruleRanges"

text \<open>\<open>payload[subRange.start+1 : subRange.end]\<close> for each range, or \<open>None\<close> for a format error.\<close>

definition sub_payloads :: "string \<Rightarrow> string list option" where
  "sub_payloads payload =
     (if \<not> HasPrefix payload ''('' \<or> \<not> HasSuffix payload '')'' then None
      else map_option (\<lambda>rs. map (\<lambda>(s, e). drop (s + 1) (take e payload)) (findSubRuleRange payload rs))
        (logic_format payload))"

text \<open>A parser of one rule line, given type, payload, target and parameters.\<close>

type_synonym rule_parser = "string \<Rightarrow> string \<Rightarrow> string \<Rightarrow> string list \<Rightarrow> rule option outcome"

definition payloadToRule :: "rule_parser \<Rightarrow> string \<Rightarrow> rule option outcome" where
  "payloadToRule parseRule subPayload =
     (let (tp, payload, target, param) = ParseRulePayload subPayload False in
      if tp = ''MATCH'' \<or> tp = ''SUB-RULE'' then Ret None
      else if tp = [] then Ret None
      else parseRule tp payload target param)"

fun parse_all :: "rule_parser \<Rightarrow> string list \<Rightarrow> rule list option outcome" where
  "parse_all parseRule [] = Ret (Some [])"
| "parse_all parseRule (p # ps) =
     obind (payloadToRule parseRule p) (\<lambda>rule. case rule of
         None \<Rightarrow> Ret None
       | Some r \<Rightarrow> obind (parse_all parseRule ps) (\<lambda>rs. Ret (map_option (\<lambda>rs. r # rs) rs)))"

definition parsePayload :: "rule_parser \<Rightarrow> string \<Rightarrow> rule list option outcome" where
  "parsePayload parseRule payload =
     (case sub_payloads payload of None \<Rightarrow> Ret None | Some ps \<Rightarrow> parse_all parseRule ps)"

definition NewSubRule :: "rule_parser \<Rightarrow> string \<Rightarrow> string \<Rightarrow> rule option outcome" where
  "NewSubRule parseRule payload adapter =
     obind (parsePayload parseRule (''('' @ payload @ '')'')) (\<lambda>rules. Ret (case rules of
         None \<Rightarrow> None
       | Some rs \<Rightarrow> if length rs \<noteq> 1 then None else Some (RLogic payload adapter RT_SubRules rs)))"

definition NewNOT :: "rule_parser \<Rightarrow> string \<Rightarrow> string \<Rightarrow> rule option outcome" where
  "NewNOT parseRule payload adapter =
     obind (parsePayload parseRule payload) (\<lambda>rules. Ret (case rules of
         None \<Rightarrow> None
       | Some rs \<Rightarrow> if length rs \<noteq> 1 then None else Some (RLogic payload adapter RT_NOT rs)))"

definition NewOR :: "rule_parser \<Rightarrow> string \<Rightarrow> string \<Rightarrow> rule option outcome" where
  "NewOR parseRule payload adapter =
     obind (parsePayload parseRule payload) (\<lambda>rules. Ret (case rules of
         None \<Rightarrow> None | Some rs \<Rightarrow> Some (RLogic payload adapter RT_OR rs)))"

definition NewAND :: "rule_parser \<Rightarrow> string \<Rightarrow> string \<Rightarrow> rule option outcome" where
  "NewAND parseRule payload adapter =
     obind (parsePayload parseRule payload) (\<lambda>rules. Ret (case rules of
         None \<Rightarrow> None | Some rs \<Rightarrow> Some (RLogic payload adapter RT_AND rs)))"

section \<open>Parsing rules\<close>

definition with_params ::
  "string list \<Rightarrow> (bool \<Rightarrow> bool \<Rightarrow> 'r option) \<Rightarrow> 'r option" where
  "with_params params f = (let (isSrc, noResolve) = ParseParams params in f isSrc noResolve)"

text \<open>The types whose rules are made without the parser, \<open>None\<close> when the type is not one of them.\<close>

definition parse_leaf ::
  "rule_env \<Rightarrow> string \<Rightarrow> string \<Rightarrow> string \<Rightarrow> string list \<Rightarrow> leaf option option" where
  "parse_leaf E tp payload target params =
     (if tp = ''DOMAIN'' then Some (Some (NewDomain payload target))
      else if tp = ''DOMAIN-SUFFIX'' then Some (Some (NewDomainSuffix payload target))
      else if tp = ''DOMAIN-KEYWORD'' then Some (Some (NewDomainKeyword payload target))
      else if tp = ''DOMAIN-REGEX'' then Some (NewDomainRegex E payload target)
      else if tp = ''DOMAIN-WILDCARD'' then Some (NewDomainWildcard payload target)
      else if tp = ''GEOSITE'' then Some (NewGEOSITE E payload target)
      else if tp = ''GEOIP'' then Some (with_params params (NewGEOIP E payload target))
      else if tp = ''SRC-GEOIP'' then Some (NewGEOIP E payload target True True)
      else if tp = ''IP-ASN'' then Some (with_params params (NewIPASN E payload target))
      else if tp = ''SRC-IP-ASN'' then Some (NewIPASN E payload target True True)
      else if tp = ''IP-CIDR'' \<or> tp = ''IP-CIDR6'' then Some (with_params params (NewIPCIDR payload target))
      else if tp = ''SRC-IP-CIDR'' then Some (NewIPCIDR payload target True True)
      else if tp = ''IP-SUFFIX'' then Some (with_params params (NewIPSuffix payload target))
      else if tp = ''SRC-IP-SUFFIX'' then Some (NewIPSuffix payload target True True)
      else if tp = ''SRC-PORT'' then Some (NewPort payload target RT_SrcPort)
      else if tp = ''DST-PORT'' then Some (NewPort payload target RT_DstPort)
      else if tp = ''IN-PORT'' then Some (NewPort payload target RT_InPort)
      else if tp = ''DSCP'' then Some (NewDSCP payload target)
      else if tp = ''PROCESS-NAME'' then Some (NewProcess E payload target RT_ProcessName)
      else if tp = ''PROCESS-PATH'' then Some (NewProcess E payload target RT_ProcessPath)
      else if tp = ''PROCESS-NAME-REGEX'' then Some (NewProcess E payload target RT_ProcessNameRegex)
      else if tp = ''PROCESS-PATH-REGEX'' then Some (NewProcess E payload target RT_ProcessPathRegex)
      else if tp = ''PROCESS-NAME-WILDCARD'' then
        Some (NewProcess E payload target RT_ProcessNameWildcard)
      else if tp = ''PROCESS-PATH-WILDCARD'' then
        Some (NewProcess E payload target RT_ProcessPathWildcard)
      else if tp = ''NETWORK'' then Some (NewNetworkType payload target)
      else if tp = ''UID'' then Some (NewUid E payload target)
      else if tp = ''IN-TYPE'' then Some (NewInType payload target)
      else if tp = ''IN-USER'' then Some (NewInUser payload target)
      else if tp = ''IN-NAME'' then Some (NewInName payload target)
      else if tp = ''REMATCH-NAME'' then Some (NewRematchName payload target)
      else if tp = ''MATCH'' then Some (Some (NewMatch target))
      else None)"

fun ParseRule :: "rule_env \<Rightarrow> nat \<Rightarrow> rule_parser" where
  "ParseRule E 0 tp payload target params = Diverge"
| "ParseRule E (Suc fuel) tp payload target params =
     (if tp \<noteq> ''MATCH'' \<and> payload = [] then Ret None
      else case parse_leaf E tp payload target params of
        Some r \<Rightarrow> Ret (map_option Leaf r)
      | None \<Rightarrow>
          if tp = ''RULE-SET'' then Ret (with_params params (NewRuleSet payload target))
          else if tp = ''SUB-RULE'' then NewSubRule (ParseRule E fuel) payload target
          else if tp = ''AND'' then NewAND (ParseRule E fuel) payload target
          else if tp = ''OR'' then NewOR (ParseRule E fuel) payload target
          else if tp = ''NOT'' then NewNOT (ParseRule E fuel) payload target
          else Ret None)"

section \<open>Rule sets\<close>

text \<open>The strategy of a rule provider. A domain provider's \<open>DomainSet.Has\<close> and an address
  provider's set (\<open>None\<close> when it is nil) are functions; the first is modelled in \<open>DomainSet\<close>, the
  second is the netipx library.\<close>

datatype strategy =
  DomainStrategy "(string \<Rightarrow> bool) option"
| IPCIDRStrategy "(addr \<Rightarrow> bool) option"
| ClassicalStrategy "rule list"

record world =
  w_env :: rule_env
  w_subs :: "(string \<times> rule list) list"
  w_providers :: "(string \<times> strategy) list"

text \<open>\<open>subRules[name]\<close>: nil when there is no such entry.\<close>

definition sub_rules :: "(string \<times> rule list) list \<Rightarrow> string \<Rightarrow> rule list" where
  "sub_rules subs name = (case map_of subs name of None \<Rightarrow> [] | Some rs \<Rightarrow> rs)"

definition DomainStrategy_Match :: "(string \<Rightarrow> bool) option \<Rightarrow> mstate \<Rightarrow> bool \<times> mstate" where
  "DomainStrategy_Match domainSet s =
     ((case domainSet of None \<Rightarrow> False | Some has \<Rightarrow> has (md_RuleHost (ms_md s))), s)"

definition IPCIDRStrategy_Match :: "(addr \<Rightarrow> bool) option \<Rightarrow> helper \<Rightarrow> mstate \<Rightarrow> bool \<times> mstate" where
  "IPCIDRStrategy_Match cidrSet h s0 =
     (let s = call (h_ResolveIP h) s0 in
      ((case cidrSet of None \<Rightarrow> False | Some c \<Rightarrow> c (addr_WithZone [] (md_DstIP (ms_md s)))), s))"

text \<open>\<open>classicalStrategy.Insert\<close>: a rule that does not parse, or of a type that may not occur, is
  left out.\<close>

definition classical_payloadToRule :: "rule_parser \<Rightarrow> string \<Rightarrow> rule option outcome" where
  "classical_payloadToRule parse rule =
     (let (tp, payload, target, params) = ParseRulePayload rule False in
      if tp = ''MATCH'' \<or> tp = ''RULE-SET'' \<or> tp = ''SUB-RULE'' then Ret None
      else parse tp payload target params)"

definition classical_Insert :: "rule_parser \<Rightarrow> string \<Rightarrow> rule list \<Rightarrow> rule list outcome" where
  "classical_Insert parse rule rules =
     obind (classical_payloadToRule parse rule) (\<lambda>r. Ret (case r of
         None \<Rightarrow> rules | Some r \<Rightarrow> rules @ [r]))"

text \<open>\<open>rulesParseInline\<close> on a classical provider.\<close>

fun classical_load :: "rule_parser \<Rightarrow> string list \<Rightarrow> rule list \<Rightarrow> rule list outcome" where
  "classical_load parse [] rules = Ret rules"
| "classical_load parse (r # rs) rules =
     obind (if r \<noteq> [] then classical_Insert parse r rules else Ret rules) (classical_load parse rs)"

definition swap_src_dst :: "mstate \<Rightarrow> mstate" where
  "swap_src_dst s = s\<lparr>ms_md := md_SwapSrcDst (ms_md s)\<rparr>"

section \<open>Matching\<close>

text \<open>Fuel is spent when matching enters the rules of a provider or of a sub-rule; the recursion
  into the rules of a logic rule is structural.\<close>

function (sequential) rule_Match :: "world \<Rightarrow> nat \<Rightarrow> rule \<Rightarrow> helper \<Rightarrow> mstate \<Rightarrow> verdict"
  and matchAny :: "world \<Rightarrow> nat \<Rightarrow> rule list \<Rightarrow> helper \<Rightarrow> mstate \<Rightarrow> (bool \<times> mstate) outcome"
  and matchAll :: "world \<Rightarrow> nat \<Rightarrow> rule list \<Rightarrow> helper \<Rightarrow> mstate \<Rightarrow> (bool \<times> mstate) outcome"
  and matchSubRules :: "world \<Rightarrow> nat \<Rightarrow> rule list \<Rightarrow> helper \<Rightarrow> mstate \<Rightarrow> verdict" where
  "rule_Match W n (RLogic payload adapter ruleType rules) h s =
     (if ruleType = RT_SubRules then
        (case rules of
           [] \<Rightarrow> Panic ''index out of range''
         | r # rs \<Rightarrow> obind (rule_Match W n r h s) (\<lambda>(m, _, s).
             if m then
               (case n of
                  0 \<Rightarrow> Diverge
                | Suc n' \<Rightarrow> matchSubRules W n' (sub_rules (w_subs W) adapter) h s)
             else Ret (False, [], s)))
      else if ruleType = RT_NOT then
        (case rules of
           [] \<Rightarrow> Panic ''index out of range''
         | r # rs \<Rightarrow> obind (rule_Match W n r h s) (\<lambda>(m, _, s).
             if \<not> m then Ret (True, adapter, s) else Ret (False, [], s)))
      else if ruleType = RT_OR then
        obind (matchAny W n rules h s) (\<lambda>(m, s).
          if m then Ret (True, adapter, s) else Ret (False, [], s))
      else if ruleType = RT_AND then
        obind (matchAll W n rules h s) (\<lambda>(m, s). Ret (m, adapter, s))
      else Ret (False, [], s))"
| "rule_Match W n (RRuleSet name adapter isSrc noResolve) h s =
     (case map_of (w_providers W) name of
        None \<Rightarrow> Ret (False, [], s)
      | Some strategy \<Rightarrow>
          let s = (if isSrc then swap_src_dst s else s);
              h = (if isSrc \<or> noResolve then h\<lparr>h_ResolveIP := None\<rparr> else h) in
          obind
            (case strategy of
               DomainStrategy d \<Rightarrow> Ret (DomainStrategy_Match d s)
             | IPCIDRStrategy c \<Rightarrow> Ret (IPCIDRStrategy_Match c h s)
             | ClassicalStrategy rules \<Rightarrow>
                 (case n of 0 \<Rightarrow> Diverge | Suc n' \<Rightarrow> matchAny W n' rules h s))
            (\<lambda>(m, s). Ret (m, adapter, if isSrc then swap_src_dst s else s)))"
| "rule_Match W n (Leaf r) h s = leaf_Match (w_env W) r h s"
| "matchAny W n [] h s = Ret (False, s)"
| "matchAny W n (r # rs) h s =
     obind (rule_Match W n r h s) (\<lambda>(m, _, s). if m then Ret (True, s) else matchAny W n rs h s)"
| "matchAll W n [] h s = Ret (True, s)"
| "matchAll W n (r # rs) h s =
     obind (rule_Match W n r h s) (\<lambda>(m, _, s). if \<not> m then Ret (False, s) else matchAll W n rs h s)"
| "matchSubRules W n [] h s = Ret (False, [], s)"
| "matchSubRules W n (r # rs) h s =
     obind (rule_Match W n r h s) (\<lambda>(m, a, s).
       if m then
         obind (if rule_RuleType r = RT_SubRules then
             (case n of
                0 \<Rightarrow> Diverge
              | Suc n' \<Rightarrow> matchSubRules W n' (sub_rules (w_subs W) (rule_Adapter r)) h s)
           else Ret (m, a, s)) (\<lambda>(m, a, s).
         if m \<and> (a = ''PASS-RULE'' \<or> (case h_CheckPassRule h of None \<Rightarrow> False | Some f \<Rightarrow> f s a))
         then matchSubRules W n rs h s
         else Ret (m, a, s))
       else matchSubRules W n rs h s)"
  by pat_completeness auto

termination
  by (relation "measures [\<lambda>x. (case x of
      Inl (Inl (W, n, r, h, s)) \<Rightarrow> n | Inl (Inr (W, n, rs, h, s)) \<Rightarrow> n
    | Inr (Inl (W, n, rs, h, s)) \<Rightarrow> n | Inr (Inr (W, n, rs, h, s)) \<Rightarrow> n),
    \<lambda>x. (case x of
      Inl (Inl (W, n, r, h, s)) \<Rightarrow> size r | Inl (Inr (W, n, rs, h, s)) \<Rightarrow> size_list size rs
    | Inr (Inl (W, n, rs, h, s)) \<Rightarrow> size_list size rs | Inr (Inr (W, n, rs, h, s)) \<Rightarrow> size_list size rs)]") auto

end
