(* ===== verification/LogicParse.thy ===== *)
theory LogicParse
  imports Logic "HOL-Library.Multiset"
begin

text \<open>
  What the parser of rules gives: the payload of a logic rule is cut at its outermost pieces, the
  parser returns on every line, and every rule it makes can be matched safely.
\<close>

section \<open>What the parser extracts\<close>

text \<open>A text whose parentheses match.\<close>

inductive balanced :: "string \<Rightarrow> bool" where
  bal_empty: "balanced []"
| bal_char: "c \<noteq> CHR ''('' \<Longrightarrow> c \<noteq> CHR '')'' \<Longrightarrow> balanced s \<Longrightarrow> balanced (c # s)"
| bal_paren: "balanced s \<Longrightarrow> balanced t \<Longrightarrow> balanced (CHR ''('' # s @ CHR '')'' # t)"

text \<open>The ranges inside a balanced text, in the order the loop finds them, all within it.\<close>

definition ranges_within :: "nat \<Rightarrow> nat \<Rightarrow> (nat \<times> nat) list \<Rightarrow> bool" where
  "ranges_within lo hi rs \<longleftrightarrow> distinct (map fst rs) \<and> (\<forall>(s, e) \<in> set rs. lo \<le> s \<and> s < e \<and> e < hi)"

lemma ranges_within_mono: "ranges_within lo hi rs \<Longrightarrow> lo' \<le> lo \<Longrightarrow> hi \<le> hi' \<Longrightarrow> ranges_within lo' hi' rs"
  by (fastforce simp: ranges_within_def)

lemma ranges_within_append:
  "ranges_within lo m rs \<Longrightarrow> ranges_within m hi rs' \<Longrightarrow> lo \<le> m \<Longrightarrow> m \<le> hi \<Longrightarrow> ranges_within lo hi (rs @ rs')"
  unfolding ranges_within_def by fastforce

lemma ranges_within_paren:
  "ranges_within (lo + 1) hi rs \<Longrightarrow> lo < hi \<Longrightarrow> ranges_within lo (hi + 1) (rs @ [(lo, hi)])"
  unfolding ranges_within_def by fastforce

lemma format_loop_balanced:
  assumes "balanced a"
  shows "\<exists>rs. ranges_within i (i + length a) rs \<and>
    (\<forall>rest stack acc. format_loop i (a @ rest) stack acc = format_loop (i + length a) rest stack (acc @ rs))"
  using assms
proof (induction arbitrary: i)
  case bal_empty
  show ?case by (rule exI[of _ "[]"]) (simp add: ranges_within_def)
next
  case (bal_char c s)
  from bal_char.IH[of "i + 1"] obtain rs where
    "ranges_within (i + 1) (i + 1 + length s) rs"
    "\<And>rest stack acc. format_loop (i + 1) (s @ rest) stack acc =
       format_loop (i + 1 + length s) rest stack (acc @ rs)" by blast
  with bal_char.hyps show ?case by (intro exI[of _ rs]) (auto intro: ranges_within_mono)
next
  case (bal_paren s t)
  from bal_paren.IH(1)[of "i + 1"] obtain rs where
    rs: "ranges_within (i + 1) (i + 1 + length s) rs"
    "\<And>rest stack acc. format_loop (i + 1) (s @ rest) stack acc =
       format_loop (i + 1 + length s) rest stack (acc @ rs)" by blast
  from bal_paren.IH(2)[of "i + length s + 2"] obtain rs' where
    rs': "ranges_within (i + length s + 2) (i + length s + 2 + length t) rs'"
    "\<And>rest stack acc. format_loop (i + length s + 2) (t @ rest) stack acc =
       format_loop (i + length s + 2 + length t) rest stack (acc @ rs')" by blast
  have "ranges_within i (i + length s + 2) (rs @ [(i, i + 1 + length s)])"
    using ranges_within_paren[of i "i + 1 + length s" rs] rs(1) by simp
  then have "ranges_within i (i + length s + 2 + length t) ((rs @ [(i, i + 1 + length s)]) @ rs')"
    using rs'(1) by (rule ranges_within_append) auto
  moreover have "format_loop i ((CHR ''('' # s @ CHR '')'' # t) @ rest) stack acc =
     format_loop (i + length s + 2 + length t) rest stack (acc @ (rs @ [(i, i + 1 + length s)]) @ rs')"
    for rest stack acc
    using rs(2)[of "CHR '')'' # t @ rest" "i # stack" acc] rs'(2)[of rest stack "acc @ rs @ [(i, i + 1 + length s)]"]
    by simp
  ultimately show ?case
    by (intro exI[of _ "(rs @ [(i, i + 1 + length s)]) @ rs'"]) (simp add: algebra_simps)
qed

text \<open>The ranges of pieces \<open>(a1),(a2),...\<close>: for each the range of its own parentheses and the
  ranges inside it.\<close>

fun blocks_ok :: "nat \<Rightarrow> string list \<Rightarrow> ((nat \<times> nat) \<times> (nat \<times> nat) list) list \<Rightarrow> bool" where
  "blocks_ok i [] [] = True"
| "blocks_ok i (a # as) (b # bs) =
     (fst b = (i, i + 1 + length a) \<and> ranges_within (i + 1) (i + 1 + length a) (snd b) \<and>
      blocks_ok (i + length a + 3) as bs)"
| "blocks_ok i _ _ = False"

definition paren :: "string \<Rightarrow> string" where
  "paren a = CHR ''('' # a @ '')''"

lemma format_loop_pieces:
  assumes "\<And>a. a \<in> set as \<Longrightarrow> balanced a" "as \<noteq> []"
  shows "\<exists>bs. blocks_ok i as bs \<and>
    (\<forall>rest stack acc. format_loop i (go_join (CHR '','') (map paren as) @ rest) stack acc =
      format_loop (i + length (go_join (CHR '','') (map paren as))) rest stack
        (acc @ concat (map (\<lambda>b. snd b @ [fst b]) bs)))"
  using assms
proof (induction as arbitrary: i)
  case (Cons a as)
  from format_loop_balanced[of a "i + 1"] Cons.prems obtain rs where
    rs: "ranges_within (i + 1) (i + 1 + length a) rs"
    "\<And>rest stack acc. format_loop (i + 1) (a @ rest) stack acc =
       format_loop (i + 1 + length a) rest stack (acc @ rs)" by force
  have one: "format_loop i (paren a @ rest) stack acc =
     format_loop (i + length a + 2) rest stack (acc @ rs @ [(i, i + 1 + length a)])" for rest stack acc
    using rs(2)[of "CHR '')'' # rest" "i # stack" acc] by (simp add: paren_def)
  show ?case
  proof (cases "as = []")
    case True
    then show ?thesis using rs(1) one
      by (intro exI[of _ "[((i, i + 1 + length a), rs)]"]) (simp add: paren_def)
  next
    case False
    from Cons.IH[of "i + length a + 3"] Cons.prems False obtain bs where
      bs: "blocks_ok (i + length a + 3) as bs"
      "\<And>rest stack acc. format_loop (i + length a + 3) (go_join (CHR '','') (map paren as) @ rest) stack acc =
        format_loop (i + length a + 3 + length (go_join (CHR '','') (map paren as))) rest stack
          (acc @ concat (map (\<lambda>b. snd b @ [fst b]) bs))" by force
    have j: "go_join (CHR '','') (map paren (a # as)) = paren a @ CHR '','' # go_join (CHR '','') (map paren as)"
      using False by (simp add: go_join_Cons)
    have "format_loop i (go_join (CHR '','') (map paren (a # as)) @ rest) stack acc =
      format_loop (i + length (go_join (CHR '','') (map paren (a # as)))) rest stack
        (acc @ concat (map (\<lambda>b. snd b @ [fst b]) (((i, i + 1 + length a), rs) # bs)))" for rest stack acc
      using one[of "CHR '','' # go_join (CHR '','') (map paren as) @ rest" stack acc]
        bs(2)[of rest stack "acc @ rs @ [(i, i + 1 + length a)]"]
      unfolding j by (simp add: paren_def algebra_simps numeral_eq_Suc)
    then show ?thesis using rs(1) bs(1)
      by (intro exI[of _ "((i, i + 1 + length a), rs) # bs"]) simp
  qed
qed simp

abbreviation in_order :: "((nat \<times> nat) \<times> (nat \<times> nat) list) list \<Rightarrow> (nat \<times> nat) list" where
  "in_order bs \<equiv> concat (map (\<lambda>b. fst b # sort_key fst (snd b)) bs)"

lemma in_order_sorted:
  assumes "blocks_ok i as bs"
  shows "sorted_wrt (<) (map fst (in_order bs)) \<and> (\<forall>r \<in> set (in_order bs). i \<le> fst r)"
  using assms
proof (induction i as bs rule: blocks_ok.induct)
  case (2 i a as b bs)
  let ?in = "sort_key fst (snd b)"
  have b: "fst b = (i, i + 1 + length a)" "ranges_within (i + 1) (i + 1 + length a) (snd b)"
    and IH: "sorted_wrt (<) (map fst (in_order bs))" "\<forall>r \<in> set (in_order bs). i + length a + 3 \<le> fst r"
    using 2 by auto
  have "distinct (map fst ?in)"
    using b(2) mset_eq_imp_distinct_iff[of "map fst ?in" "map fst (snd b)"]
    by (simp add: ranges_within_def)
  then have "sorted_wrt (<) (map fst ?in)" by (simp add: strict_sorted_iff)
  moreover have "\<forall>r \<in> set ?in. i < fst r \<and> fst r < i + 1 + length a"
    using b(2) by (fastforce simp: ranges_within_def)
  ultimately show ?case using b IH by (fastforce simp: sorted_wrt_append)
qed auto

lemma mset_in_order: "mset (in_order bs) = mset (concat (map (\<lambda>b. snd b @ [fst b]) bs))"
  by (induction bs) simp_all

lemma sort_blocks:
  assumes "blocks_ok (Suc i) as bs"
  shows "sort_key fst (concat (map (\<lambda>b. snd b @ [fst b]) bs) @ [(0, L)]) = (0, L) # in_order bs"
proof (rule sort_key_inj_key_eq)
  have s: "sorted_wrt (<) (map fst ((0, L) # in_order bs))"
    using in_order_sorted[OF assms] by fastforce
  then show "sorted (map fst ((0, L) # in_order bs))" by (simp only: strict_sorted_iff)
  show m: "mset (concat (map (\<lambda>b. snd b @ [fst b]) bs) @ [(0, L)]) = mset ((0, L) # in_order bs)"
    using mset_in_order[of bs] by simp
  have "inj_on fst (set ((0, L) # in_order bs))"
    using s by (simp only: strict_sorted_iff distinct_map)
  then show "inj_on fst (set (concat (map (\<lambda>b. snd b @ [fst b]) bs) @ [(0, L)]))"
    using mset_eq_setD[OF m] by (simp only:)
qed

lemma find_inner:
  assumes "r \<in> set acc" "\<And>x. x \<in> set xs \<Longrightarrow> containRange x r \<and> 0 < fst x"
  shows "foldl (find_step L) acc xs = acc"
  using assms(2)
proof (induction xs)
  case (Cons x xs)
  have "find_step L acc x = acc" using Cons.prems[of x] assms(1) by (auto simp: find_step_def)
  with Cons show ?case by simp
qed simp

lemma find_blocks:
  assumes "blocks_ok i as bs" "0 < i" "\<And>r. r \<in> set acc \<Longrightarrow> snd r < i"
  shows "foldl (find_step L) acc (in_order bs) = acc @ map fst bs"
  using assms
proof (induction i as bs arbitrary: acc rule: blocks_ok.induct)
  case (2 i a as b bs)
  have b: "fst b = (i, i + 1 + length a)" "ranges_within (i + 1) (i + 1 + length a) (snd b)"
    using 2 by auto
  have "\<not> (\<exists>r \<in> set acc. containRange (fst b) r)"
    using 2 b by (fastforce simp: containRange_def)
  then have head: "find_step L acc (fst b) = acc @ [fst b]" using b 2 by (simp add: find_step_def)
  have inner: "foldl (find_step L) (acc @ [fst b]) (sort_key fst (snd b)) = acc @ [fst b]"
    using b by (intro find_inner[where r = "fst b"]) (auto simp: containRange_def ranges_within_def)
  have "snd r < i + length a + 3" if "r \<in> set (acc @ [fst b])" for r
    using that 2 b by fastforce
  then have "foldl (find_step L) (acc @ [fst b]) (in_order bs) = acc @ [fst b] @ map fst bs"
    using "2.IH"[of "acc @ [fst b]"] "2.prems" by simp
  with head inner show ?case by simp
qed auto

lemma pieces_cut:
  assumes "blocks_ok (length pre) as bs" "as \<noteq> []"
  shows "map (\<lambda>(s, e). drop (s + 1) (take e (pre @ go_join (CHR '','') (map paren as) @ post))) (map fst bs) = as"
  using assms
proof (induction as arbitrary: pre bs)
  case (Cons a as)
  then obtain b bs' where bs: "bs = b # bs'" by (cases bs) auto
  have b: "fst b = (length pre, length pre + 1 + length a)" using Cons bs by simp
  have p: "pre @ paren a @ rest = (pre @ CHR ''('' # a) @ CHR '')'' # rest" for rest
    by (simp add: paren_def)
  have first: "drop (length pre + 1) (take (length pre + 1 + length a) (pre @ paren a @ rest)) = a" for rest
    by (simp add: paren_def)
  show ?case
  proof (cases "as = []")
    case True
    then show ?thesis using Cons bs b first[of post] by (cases bs') auto
  next
    case False
    have j: "go_join (CHR '','') (map paren (a # as)) = paren a @ CHR '','' # go_join (CHR '','') (map paren as)"
      using False by (simp add: go_join_Cons)
    have "blocks_ok (length (pre @ paren a @ '','')) as bs'" using Cons.prems bs by (simp add: paren_def numeral_eq_Suc)
    from Cons.IH[OF this False] have "map (\<lambda>(s, e). drop (s + 1) (take e
        (pre @ go_join (CHR '','') (map paren (a # as)) @ post))) (map fst bs') = as"
      using j by simp
    moreover have "drop (length pre + 1) (take (length pre + 1 + length a)
        (pre @ go_join (CHR '','') (map paren (a # as)) @ post)) = a"
      using first[of "CHR '','' # go_join (CHR '','') (map paren as) @ post"] j by simp
    ultimately show ?thesis using bs b by simp
  qed
qed simp

text \<open>
  C18. The payload \<open>((a1),(a2),...)\<close> of a logic rule, each \<open>ai\<close> any text whose parentheses match,
  is cut into exactly \<open>a1\<close>, \<open>a2\<close>, ...: ranges nested deeper are not taken, and none is lost.
\<close>

theorem logic_payload_pieces:
  assumes "\<And>a. a \<in> set as \<Longrightarrow> balanced a" and "as \<noteq> []"
  shows "sub_payloads (paren (go_join (CHR '','') (map paren as))) = Some as"
proof -
  let ?j = "go_join (CHR '','') (map paren as)"
  let ?p = "paren ?j"
  from format_loop_pieces[of as "length ''(''"] assms obtain bs where
    bs: "blocks_ok (length ''('') as bs"
    "\<And>rest stack acc. format_loop (length ''('') (?j @ rest) stack acc =
      format_loop (length ''('' + length ?j) rest stack (acc @ concat (map (\<lambda>b. snd b @ [fst b]) bs))" by blast
  have "format_loop 0 ?p [] [] = Some (concat (map (\<lambda>b. snd b @ [fst b]) bs) @ [(0, length ?p - 1)])"
    using bs(2)[of "'')''" "[0]" "[]"] by (simp add: paren_def)
  then have f: "logic_format ?p = Some ((0, length ?p - 1) # in_order bs)"
    using sort_blocks[of 0 as bs] bs(1) by (simp add: logic_format_def)
  have "find_step (length ?p) [] (0, length ?p - 1) = []" by (simp add: find_step_def)
  then have "findSubRuleRange ?p ((0, length ?p - 1) # in_order bs) = map fst bs"
    using find_blocks[OF bs(1), of "[]"] by (simp add: findSubRuleRange_def)
  moreover have "map (\<lambda>(s, e). drop (s + 1) (take e ?p)) (map fst bs) = as"
    using pieces_cut[OF bs(1) assms(2), of "'')''"] by (simp add: paren_def)
  moreover have "HasPrefix ?p ''(''" "HasSuffix ?p '')''"
    by (simp_all add: paren_def HasPrefix_def HasSuffix_def)
  ultimately show ?thesis using f by (simp add: sub_payloads_def)
qed

section \<open>The parser returns\<close>

lemma format_loop_bounds:
  assumes "format_loop i cs stack acc = Some rs" "\<forall>x \<in> set stack. x < i" "\<forall>r \<in> set acc. fst r < snd r \<and> snd r < i"
  shows "\<forall>r \<in> set rs. fst r < snd r \<and> snd r < i + length cs"
  using assms
proof (induction i cs stack acc rule: format_loop.induct)
  case (2 i c cs stack acc)
  show ?case
  proof (cases "c = CHR ''(''")
    case True
    then show ?thesis using "2.IH"(1) "2.prems" by (fastforce simp: less_Suc_eq)
  next
    case no: False
    show ?thesis
    proof (cases "c = CHR '')''")
      case True
      with "2.prems"(1) no obtain x st where st: "stack = x # st" by (auto split: list.splits)
      show ?thesis using "2.IH"(2)[OF no True st] "2.prems" st True by (fastforce simp: less_Suc_eq)
    next
      case False
      then show ?thesis using "2.IH"(3)[OF no False] "2.prems" no by (fastforce simp: less_Suc_eq)
    qed
  qed
qed (auto split: if_splits)

lemma find_step_subset:
  "r \<in> set (foldl (find_step L) acc rs) \<Longrightarrow>
     r \<in> set acc \<or> r \<in> set rs \<and> \<not> (fst r = 0 \<and> snd r = L - 1)"
proof (induction rs arbitrary: acc)
  case (Cons x rs)
  from Cons.IH[of "find_step L acc x"] Cons.prems show ?case
    by (auto simp: find_step_def split: if_splits)
qed simp

lemma sub_payloads_shorter:
  assumes "sub_payloads p = Some ps" "q \<in> set ps" shows "length q + 3 \<le> length p"
proof -
  from assms obtain rs s e where
    rs: "format_loop 0 p [] [] = Some rs" "(s, e) \<in> set (findSubRuleRange p (sort_key fst rs))"
    and q: "q = drop (s + 1) (take e p)"
    by (auto simp: sub_payloads_def logic_format_def split: if_splits)
  have "(s, e) \<in> set rs \<and> \<not> (s = 0 \<and> e = length p - 1)"
    using find_step_subset[OF rs(2)[unfolded findSubRuleRange_def]] by simp
  moreover from this have "s < e \<and> e < length p" using format_loop_bounds[OF rs(1)] by fastforce
  ultimately show ?thesis using q by auto
qed

lemma length_trim_set: "length (trim_set C s) \<le> length s"
  unfolding trim_set_def by (metis (no_types) length_dropWhile_le length_rev order_trans)

lemma length_go_join_map:
  "(\<And>x. x \<in> set xs \<Longrightarrow> length (f x) \<le> length x) \<Longrightarrow> length (go_join c (map f xs)) \<le> length (go_join c xs)"
proof (induction c xs rule: go_join.induct)
  case (3 c s t ts)
  have "length (go_join c (map f (t # ts))) \<le> length (go_join c (t # ts))" using 3 by simp
  moreover have "length (f s) \<le> length s" using 3 by simp
  ultimately show ?case by simp
qed auto

lemma length_go_join_tl: "length (go_join c (tl xs)) \<le> length (go_join c xs)"
  by (cases xs; cases "tl xs") (auto simp: go_join_Cons)

lemma length_go_join_piece: "x \<in> set xs \<Longrightarrow> length x \<le> length (go_join c xs)"
  by (induction c xs rule: go_join.induct) auto

lemma length_ParseRulePayload:
  assumes "ParseRulePayload s False = (tp, payload, target, params)"
  shows "length payload \<le> length s"
proof -
  let ?item = "trimArr (go_split (CHR '','') s)"
  have le: "length (go_join (CHR '','') ?item) \<le> length s"
    using length_go_join_map[of "go_split (CHR '','') s" "trim_set {CHR '' ''}" "CHR '',''"] length_trim_set
    by (simp add: trimArr_def)
  from assms consider "payload = []" | "payload = go_join (CHR '','') (tl ?item)"
    | "1 < length ?item" "payload = ?item ! 1"
    by (auto simp: ParseRulePayload_def Let_def split: if_splits)
  then show ?thesis
  proof cases
    case 2
    then show ?thesis using length_go_join_tl[of "CHR '',''" ?item] le by simp
  next
    case 3
    then have "payload \<in> set ?item" by simp
    then show ?thesis using length_go_join_piece[of payload ?item "CHR '',''"] le by simp
  qed simp
qed

lemma payloadToRule_ends:
  assumes "\<And>tp payload target params. length payload \<le> length q \<Longrightarrow> ends (pr tp payload target params)"
  shows "ends (payloadToRule pr q)"
  using assms length_ParseRulePayload[of q]
  by (auto simp: payloadToRule_def split: prod.split)

lemma parse_all_ends:
  assumes "\<And>q. q \<in> set ps \<Longrightarrow> ends (payloadToRule pr q)" shows "ends (parse_all pr ps)"
  using assms by (induction ps) (auto intro!: ends_obind split: option.split)

lemma parsePayload_ends:
  assumes "\<And>tp payload target params. length payload + 3 \<le> length p \<Longrightarrow> ends (pr tp payload target params)"
  shows "ends (parsePayload pr p)"
proof (cases "sub_payloads p")
  case (Some ps)
  have "ends (payloadToRule pr q)" if "q \<in> set ps" for q
    using sub_payloads_shorter[OF Some that] assms by (intro payloadToRule_ends) auto
  then show ?thesis using Some parse_all_ends by (simp add: parsePayload_def)
qed (simp add: parsePayload_def)

lemma ParseRule_ends: "length payload < fuel \<Longrightarrow> ends (ParseRule E fuel tp payload target params)"
proof (induction fuel arbitrary: tp payload target params)
  case (Suc fuel)
  have p: "ends (parsePayload (ParseRule E fuel) p)" if "length p \<le> length payload + 2" for p
    using that Suc by (intro parsePayload_ends) auto
  show ?case
    using p[of payload] p[of "''('' @ payload @ '')''"]
    by (simp add: NewSubRule_def NewAND_def NewOR_def NewNOT_def ends_obind split: option.split)
qed simp

section \<open>What the parser makes\<close>

text \<open>A rule that may stand inside a logic rule or a rule set; and one that may stand in a list of
  rules, which may also be a SUB-RULE.\<close>

fun plain :: "rule \<Rightarrow> bool" where
  "plain (Leaf r) = (leaf_ok r \<and> leaf_RuleType r \<noteq> RT_SubRules)"
| "plain (RRuleSet _ _ _ _) = True"
| "plain (RLogic _ _ t rs) =
     ((t = RT_AND \<or> t = RT_OR \<or> t = RT_NOT \<and> length rs = 1) \<and> (\<forall>r \<in> set rs. plain r))"

fun rule_ok :: "rule \<Rightarrow> bool" where
  "rule_ok (RLogic p a t rs) =
     (plain (RLogic p a t rs) \<or> t = RT_SubRules \<and> length rs = 1 \<and> (\<forall>r \<in> set rs. plain r))"
| "rule_ok r = plain r"

lemma plain_rule_ok: "plain r \<Longrightarrow> rule_ok r"
  by (cases r) auto

lemma addr_bytes_BitLen: "8 * length (addr_bytes a) = addr_BitLen a"
  by (cases a) auto

definition good :: "leaf option \<Rightarrow> bool" where
  "good ro \<longleftrightarrow> (\<forall>r. ro = Some r \<longrightarrow> plain (Leaf r))"

lemma good_New:
  "good (Some (NewDomain p a))" "good (Some (NewDomainSuffix p a))" "good (Some (NewDomainKeyword p a))"
  "good (NewDomainRegex E p a)" "good (NewDomainWildcard p a)" "good (NewGEOSITE E p a)"
  "good (NewGEOIP E p a i n)" "good (NewIPASN E p a i n)" "good (NewIPCIDR p a i n)"
  "good (NewDSCP p a)" "good (NewNetworkType p a)" "good (NewUid E p a)" "good (NewInType p a)"
  "good (NewInUser p a)" "good (NewInName p a)" "good (NewRematchName p a)" "good (Some (NewMatch a))"
  by (auto simp: good_def NewDomain_def NewDomainSuffix_def NewDomainKeyword_def
    NewDomainRegex_def NewDomainWildcard_def NewGEOSITE_def NewGEOIP_def NewIPASN_def NewIPCIDR_def
    NewDSCP_def NewNetworkType_def NewUid_def NewInType_def NewInUser_def
    NewInName_def NewRematchName_def NewMatch_def Let_def split: if_splits option.splits)

lemma good_New_typed:
  "t \<noteq> RT_SubRules \<Longrightarrow> good (NewPort p a t)" "t \<noteq> RT_SubRules \<Longrightarrow> good (NewProcess E p a t)"
  by (auto simp: good_def NewPort_def NewProcess_def split: if_splits option.splits)

lemma good_NewIPSuffix: "good (NewIPSuffix p a i n)"
  by (auto simp: good_def NewIPSuffix_def addr_bytes_BitLen dest: ParsePrefix_bits split: option.splits if_splits)

lemma good_if: "good (if b then x else y) \<longleftrightarrow> (b \<longrightarrow> good x) \<and> (\<not> b \<longrightarrow> good y)"
  by simp

lemma parse_leaf_good:
  "case parse_leaf E tp payload target params of None \<Rightarrow> True | Some ro \<Rightarrow> good ro"
  unfolding parse_leaf_def with_params_def
  by (simp add: good_New good_New_typed good_NewIPSuffix split: if_split prod.split)

lemma parse_all_inv:
  assumes "parse_all pr ps = Ret (Some rs)"
    and "\<And>tp payload target params r. tp \<noteq> ''SUB-RULE'' \<Longrightarrow> pr tp payload target params = Ret (Some r) \<Longrightarrow> P r"
  shows "\<forall>r \<in> set rs. P r"
  using assms(1)
proof (induction ps arbitrary: rs)
  case (Cons p ps)
  then obtain r rs' where r: "payloadToRule pr p = Ret (Some r)" "parse_all pr ps = Ret (Some rs')" "rs = r # rs'"
    by (auto simp: obind_Ret_iff split: option.splits)
  have "P r" using r(1) assms(2) by (auto simp: payloadToRule_def split: prod.splits if_splits)
  with Cons.IH[OF r(2)] r(3) show ?case by simp
qed simp

lemma ParseRule_ok:
  "ParseRule E fuel tp payload target params = Ret (Some r) \<Longrightarrow>
     rule_ok r \<and> (tp \<noteq> ''SUB-RULE'' \<longrightarrow> plain r)"
proof (induction fuel arbitrary: tp payload target params r)
  case (Suc fuel)
  note all = parse_all_inv[where pr = "ParseRule E fuel" and P = plain]
  have sub: "\<forall>r \<in> set rs. plain r" if "parsePayload (ParseRule E fuel) p = Ret (Some rs)" for p rs
    using that all Suc.IH by (auto simp: parsePayload_def split: option.splits)
  show ?case
  proof (cases "parse_leaf E tp payload target params")
    case (Some ro)
    then have "good ro" using parse_leaf_good[of E tp payload target params] by simp
    then show ?thesis using Some Suc.prems by (auto simp: good_def split: if_splits)
  next
    case None
    then show ?thesis using Suc.prems sub
      by (auto simp: NewSubRule_def NewAND_def NewOR_def NewNOT_def obind_Ret_iff with_params_def NewRuleSet_def
        split: if_splits option.splits prod.splits)
  qed
qed simp

text \<open>
  Parsing a rule returns, with fuel above the length of the payload, for every type and payload:
  an error or a rule, and the rule is well formed (NOT and SUB-RULE hold exactly one rule, no
  SUB-RULE stands inside another rule, the bits of a suffix are within its bytes).
\<close>

theorem parse_rule_total:
  assumes "length payload < fuel"
  shows "\<exists>r. ParseRule E fuel tp payload target params = Ret r \<and> (\<forall>r'. r = Some r' \<longrightarrow> rule_ok r')"
  using ParseRule_ends[OF assms, of E tp target params] ParseRule_ok[of E fuel tp payload target params]
  by (auto simp: ends_iff)

theorem parse_rule_total_witness:
  "\<exists>r. ParseRule geo_env 100 ''AND'' ''((DOMAIN,a.com),(NOT,((NETWORK,TCP))))'' ''P'' [] = Ret r \<and>
     (\<forall>r'. r = Some r' \<longrightarrow> rule_ok r')"
  by (rule parse_rule_total) simp

text \<open>Witness of the pieces, on a payload with nested parentheses.\<close>

theorem logic_payload_pieces_witness:
  "sub_payloads (paren (go_join (CHR '','') (map paren [''A,(b)'', ''C'']))) = Some [''A,(b)'', ''C'']"
  by (rule logic_payload_pieces) (auto intro!: balanced.intros(1) bal_char bal_paren[of "''b''" "[]", simplified])

text \<open>
  An AND or an OR whose payload lacks the inner parentheses, as in \<open>AND,(DOMAIN,a.com),P\<close>,
  parses without an error, into a rule without conditions: the AND matches every connection and
  the OR none.
\<close>

theorem and_without_pieces_matches_all:
  "ParseRule E 20 ''AND'' ''(DOMAIN,a.com)'' ''P'' [] = Ret (Some (RLogic ''(DOMAIN,a.com)'' ''P'' RT_AND [])) \<and>
   ParseRule E 20 ''OR'' ''(DOMAIN,a.com)'' ''P'' [] = Ret (Some (RLogic ''(DOMAIN,a.com)'' ''P'' RT_OR [])) \<and>
   rule_Match W n (RLogic ''(DOMAIN,a.com)'' ''P'' RT_AND []) h s = Ret (True, ''P'', s) \<and>
   rule_Match W n (RLogic ''(DOMAIN,a.com)'' ''P'' RT_OR []) h s = Ret (False, [], s)"
proof -
  have "sub_payloads ''(DOMAIN,a.com)'' = Some []" by code_simp
  then show ?thesis
    by (simp add: eval_nat_numeral(2,3) parse_leaf_def NewAND_def NewOR_def parsePayload_def)
qed

declare ParseRule.simps(2) [simp del]

end
