(* ===== verification/SubRules.thy ===== *)
theory SubRules
  imports LogicParse
begin

text \<open>
  The rules of a configuration: \<open>parseRules\<close>, \<open>parseSubRules\<close> and the check of circular references
  of \<open>config/config.go\<close>. What the check accepts can be matched with bounded recursion; a rule set
  that names itself inside a logic rule is not covered by any check, and matching it never ends.
\<close>

section \<open>Parsing the configured rules\<close>

fun rule_ProviderNames :: "rule \<Rightarrow> string list" where
  "rule_ProviderNames (Leaf r) = []"
| "rule_ProviderNames (RRuleSet name _ _ _) = [name]"
| "rule_ProviderNames (RLogic _ _ _ rs) = concat (map rule_ProviderNames rs)"

text \<open>What the target and the rule sets of a line may name.\<close>

record config_env =
  cf_env :: rule_env
  cf_proxies :: "string list"
  cf_providers :: "string list"

definition parse_line :: "config_env \<Rightarrow> string list \<Rightarrow> string \<Rightarrow> rule option outcome" where
  "parse_line C subNames line =
     (let (tp, payload, target, params) = ParseRulePayload line True in
      if target = [] then Ret None
      else if target \<notin> set (cf_proxies C) \<and> (tp \<noteq> ''SUB-RULE'' \<or> target \<notin> set subNames) then Ret None
      else obind (ParseRule (cf_env C) (length line + 1) tp payload target params) (\<lambda>parsed.
        Ret (case parsed of
            None \<Rightarrow> None
          | Some r \<Rightarrow>
              if \<exists>name \<in> set (rule_ProviderNames r). name \<notin> set (cf_providers C) then None else Some r)))"

fun parseRules :: "config_env \<Rightarrow> string list \<Rightarrow> string list \<Rightarrow> rule list option outcome" where
  "parseRules C subNames [] = Ret (Some [])"
| "parseRules C subNames (line # ls) =
     obind (parse_line C subNames line) (\<lambda>parsed. case parsed of
         None \<Rightarrow> Ret None
       | Some r \<Rightarrow> obind (parseRules C subNames ls) (\<lambda>rs. Ret (map_option (\<lambda>rs. r # rs) rs)))"

lemma card_less_arr:
  "x \<in> A \<Longrightarrow> x \<notin> set arr \<Longrightarrow> finite A \<Longrightarrow> card (A - set (arr @ [x])) < card (A - set arr)"
  by (rule psubset_card_mono) auto

text \<open>The recursion of \<open>verifySubRuleCircularReferences\<close> over the rules of one name, that name
  already appended to \<open>arr\<close>.\<close>

function (sequential) verify_refs :: "(string \<times> rule list) list \<Rightarrow> rule list \<Rightarrow> string list \<Rightarrow> bool" where
  "verify_refs subs [] arr = True"
| "verify_refs subs (r # rs) arr =
     (if rule_RuleType r = RT_SubRules then
        if rule_Adapter r \<notin> set (map fst subs) then False
        else if rule_Adapter r \<in> set arr then False
        else if \<not> verify_refs subs (sub_rules subs (rule_Adapter r)) (arr @ [rule_Adapter r]) then False
        else verify_refs subs rs arr
      else verify_refs subs rs arr)"
  by pat_completeness auto

termination
  by (relation "measures [\<lambda>(subs, rs, arr). card (set (map fst subs) - set arr), \<lambda>(subs, rs, arr). length rs]")
    (auto simp del: set_append intro!: card_less_arr)

definition verifySubRuleCircularReferences ::
  "string \<Rightarrow> (string \<times> rule list) list \<Rightarrow> string list \<Rightarrow> bool" where
  "verifySubRuleCircularReferences n subs arr = verify_refs subs (sub_rules subs n) (arr @ [n])"

definition verifySubRule :: "(string \<times> rule list) list \<Rightarrow> bool" where
  "verifySubRule subs \<longleftrightarrow> (\<forall>name \<in> set (map fst subs). verifySubRuleCircularReferences name subs [])"

fun parse_subs ::
  "config_env \<Rightarrow> string list \<Rightarrow> (string \<times> string list) list \<Rightarrow> (string \<times> rule list) list option outcome" where
  "parse_subs C subNames [] = Ret (Some [])"
| "parse_subs C subNames ((name, rawRules) # raw) =
     (if length name = 0 then Ret None
      else obind (parseRules C subNames rawRules) (\<lambda>rules. case rules of
          None \<Rightarrow> Ret None
        | Some rs \<Rightarrow> obind (parse_subs C subNames raw)
            (\<lambda>rest. Ret (map_option (\<lambda>rest. (name, rs) # rest) rest))))"

definition parseSubRules ::
  "config_env \<Rightarrow> (string \<times> string list) list \<Rightarrow> (string \<times> rule list) list option outcome" where
  "parseSubRules C raw =
     obind (parse_subs C (map fst raw) raw) (\<lambda>subs. Ret (case subs of
         None \<Rightarrow> None | Some subs \<Rightarrow> if verifySubRule subs then Some subs else None))"

section \<open>Matching ends\<close>

lemma ParseRulePayload_target_length:
  assumes "ParseRulePayload s True = (tp, payload, target, params)"
  shows "length payload \<le> length s"
proof -
  let ?item = "trimArr (go_split (CHR '','') s)"
  have le: "length (go_join (CHR '','') ?item) \<le> length s"
    using length_go_join_map[of "go_split (CHR '','') s" "trim_set {CHR '' ''}" "CHR '',''"] length_trim_set
    by (simp add: trimArr_def)
  have bl: "length (go_join (CHR '','') (butlast xs)) \<le> length (go_join (CHR '','') xs)" for xs
    by (induction "CHR '',''" xs rule: go_join.induct) (auto simp: go_join_Cons)
  from assms consider "payload = []" | "payload = go_join (CHR '','') (tl (butlast ?item))"
    | "1 < length ?item" "payload = ?item ! 1"
    by (auto simp: ParseRulePayload_def Let_def split: if_splits)
  then show ?thesis
  proof cases
    case 2
    then show ?thesis
      using length_go_join_tl[of "CHR '',''" "butlast ?item"] bl[of ?item] le by simp
  next
    case 3
    then have "payload \<in> set ?item" by simp
    then show ?thesis using length_go_join_piece[of payload ?item "CHR '',''"] le by simp
  qed simp
qed

lemma parse_line_ends: "ends (parse_line C subNames line)"
  using ParseRulePayload_target_length[of line]
  by (auto simp: parse_line_def less_Suc_eq_le intro!: ends_obind ParseRule_ends split: prod.split)

lemma parse_line_ok: "parse_line C subNames line = Ret (Some r) \<Longrightarrow> rule_ok r"
  by (auto simp: parse_line_def obind_Ret_iff dest: ParseRule_ok split: prod.splits if_splits option.splits)

lemma parseRules_ends: "ends (parseRules C subNames lines)"
  by (induction lines) (auto intro!: ends_obind parse_line_ends split: option.split)

lemma parseRules_ok: "parseRules C subNames lines = Ret (Some rs) \<Longrightarrow> \<forall>r \<in> set rs. rule_ok r"
proof (induction lines arbitrary: rs)
  case (Cons l lines)
  then show ?case
    by (auto simp: obind_Ret_iff split: option.splits; use parse_line_ok in blast)
qed simp

lemma parse_subs_ok:
  "parse_subs C subNames raw = Ret (Some subs) \<Longrightarrow> (\<forall>(name, rs) \<in> set subs. \<forall>r \<in> set rs. rule_ok r)"
proof (induction raw arbitrary: subs)
  case (Cons x raw)
  then show ?case
    by (cases x) (auto simp: obind_Ret_iff split: option.splits if_splits; use parseRules_ok in blast)
qed simp

text \<open>Rules that name no rule set, and rule sets whose rules name none.\<close>

fun set_free :: "rule \<Rightarrow> bool" where
  "set_free (Leaf r) = True"
| "set_free (RRuleSet _ _ _ _) = False"
| "set_free (RLogic _ _ _ rs) = (\<forall>r \<in> set rs. set_free r)"

definition providers_ok :: "world \<Rightarrow> bool" where
  "providers_ok W \<longleftrightarrow>
     (\<forall>(name, strategy) \<in> set (w_providers W). case strategy of
        ClassicalStrategy rs \<Rightarrow> (\<forall>r \<in> set rs. plain r \<and> set_free r) | _ \<Rightarrow> True)"

lemma plain_match_ends:
  "plain r \<Longrightarrow> set_free r \<or> providers_ok W \<and> 0 < n \<Longrightarrow> ends (rule_Match W n r h s)"
  "\<forall>r \<in> set rs. plain r \<and> (set_free r \<or> providers_ok W \<and> 0 < n) \<Longrightarrow> ends (matchAny W n rs h s)"
  "\<forall>r \<in> set rs. plain r \<and> (set_free r \<or> providers_ok W \<and> 0 < n) \<Longrightarrow> ends (matchAll W n rs h s)"
  "matchSubRules W n rs h s = matchSubRules W n rs h s"
proof (induction W n r h s and W n rs h s and W n rs h s and W n rs h s
    rule: rule_Match_matchAny_matchAll_matchSubRules.induct)
  case (1 W n payload adapter ruleType rules h s)
  consider "ruleType = RT_OR" | "ruleType = RT_AND" | r where "ruleType = RT_NOT" "rules = [r]"
    using 1 by (auto simp: length_Suc_conv)
  then show ?case
  proof cases
    case or: 1
    then have "ends (matchAny W n rules h s)" using 1 by auto
    then show ?thesis using or by (simp add: ends_obind split: prod.split)
  next
    case and_: 2
    then have "ends (matchAll W n rules h s)" using 1 by auto
    then show ?thesis using and_ by (simp add: ends_obind split: prod.split)
  next
    case not_: 3
    then have "ends (rule_Match W n r h s)" using 1 by auto
    then show ?thesis using not_ by (simp add: ends_obind split: prod.split)
  qed
next
  case (2 W n name adapter isSrc noResolve h s)
  show ?case
  proof (cases "map_of (w_providers W) name")
    case (Some strategy)
    then have st: "(name, strategy) \<in> set (w_providers W)" by (rule map_of_SomeD)
    obtain n' where n: "n = Suc n'" using 2 by (cases n) auto
    show ?thesis
    proof (cases strategy)
      case (ClassicalStrategy rs)
      then have "\<forall>r \<in> set rs. plain r \<and> set_free r" using st 2 by (fastforce simp: providers_ok_def)
      then have "ends (matchAny W n' rs h' s')"
        if "h' = (if isSrc \<or> noResolve then h\<lparr>h_ResolveIP := None\<rparr> else h)"
          "s' = (if isSrc then swap_src_dst s else s)" for h' s'
        using 2 Some ClassicalStrategy n that by simp
      then show ?thesis using Some ClassicalStrategy n by (simp add: Let_def ends_obind split: prod.split)
    qed (simp_all add: Some Let_def ends_obind split: prod.split)
  qed simp
next
  case (3 W n r h s)
  then show ?case by (simp add: leaf_Match_ends)
next
  case (5 W n r rs h s)
  then show ?case by (auto intro!: ends_obind)
next
  case (7 W n r rs h s)
  then show ?case by (auto intro!: ends_obind)
qed simp_all

definition subs_ok :: "(string \<times> rule list) list \<Rightarrow> bool" where
  "subs_ok subs \<longleftrightarrow> (\<forall>(name, rs) \<in> set subs. \<forall>r \<in> set rs. rule_ok r)"

lemma sub_rules_ok: "subs_ok subs \<Longrightarrow> r \<in> set (sub_rules subs name) \<Longrightarrow> rule_ok r"
  by (cases "map_of subs name") (use map_of_SomeD in \<open>fastforce simp: subs_ok_def sub_rules_def\<close>)+

lemma rule_ok_cases:
  assumes "rule_ok r"
  obtains "plain r" "rule_RuleType r \<noteq> RT_SubRules"
    | p a r0 where "r = RLogic p a RT_SubRules [r0]" "plain r0"
proof (cases r)
  case (RLogic p a t rs)
  with assms that show ?thesis by (auto simp: length_Suc_conv)
qed (use assms that in auto)

lemma matchSubRules_ends:
  assumes "verify_refs (w_subs W) rs arr" "\<forall>r \<in> set rs. rule_ok r" "subs_ok (w_subs W)" "providers_ok W"
    and "card (set (map fst (w_subs W)) - set arr) < n"
  shows "ends (matchSubRules W n rs h s)"
  using assms
proof (induction "w_subs W" rs arr arbitrary: n s rule: verify_refs.induct)
  case (2 r rs arr)
  have rest: "ends (matchSubRules W n rs h s)" for s
    using 2 by (cases "rule_RuleType r = RT_SubRules") (auto split: if_splits)
  have n: "0 < n" using 2 by simp
  from "2.prems"(2) have "rule_ok r" by simp
  then show ?case
  proof (cases rule: rule_ok_cases)
    case 1
    have "ends (rule_Match W n r h s)" using plain_match_ends(1)[OF 1(1)] 2 n by blast
    then show ?thesis using rest 1 by (auto intro!: ends_obind)
  next
    case (2 p a r0)
    note r = 2
    from "2.prems"(1) have a: "a \<in> set (map fst (w_subs W))" "a \<notin> set arr"
      "verify_refs (w_subs W) (sub_rules (w_subs W) a) (arr @ [a])" using r by (auto split: if_splits)
    obtain n' where n': "n = Suc n'" using n by (cases n) auto
    have "card (set (map fst (w_subs W)) - set (arr @ [a])) < card (set (map fst (w_subs W)) - set arr)"
      by (rule card_less_arr) (use a in simp_all)
    then have sub: "ends (matchSubRules W n' (sub_rules (w_subs W) a) h s)" for s
      using "2.hyps"(1)[of n' s] "2.prems" r a n' sub_rules_ok by simp
    have "ends (rule_Match W n r0 h s)" using plain_match_ends(1)[OF r(2)] "2.prems" n by blast
    then have "ends (rule_Match W n r h s)" using r sub n' by (auto intro!: ends_obind)
    then show ?thesis using rest r sub n' by (auto intro!: ends_obind)
  qed
qed simp

lemma verified_match_ends:
  assumes v: "verifySubRule subs" and ok: "subs_ok subs"
    and W: "w_subs W = subs" "providers_ok W" and r: "rule_ok r" and m: "length subs + 1 < n"
  shows "ends (rule_Match W n r h s)"
proof -
  obtain n' where n: "n = Suc n'" "length subs < n'" using m by (cases n) auto
  from r show ?thesis
  proof (cases rule: rule_ok_cases)
    case 1
    then show ?thesis using plain_match_ends(1) W(2) n by blast
  next
    case (2 p a r0)
    have card: "card (set (map fst subs) - set [a]) < n'"
      using card_length[of "map fst subs"] card_Diff_subset_Int[of "{a}" "set (map fst subs)"]
        card_mono[of "set (map fst subs)" "set (map fst subs) - {a}"] n(2) by auto
    have sub: "ends (matchSubRules W n' (sub_rules subs a) h s)" for s
    proof (cases "a \<in> set (map fst subs)")
      case True
      then have "verify_refs subs (sub_rules subs a) [a]"
        using v by (auto simp: verifySubRule_def verifySubRuleCircularReferences_def)
      then show ?thesis
        using matchSubRules_ends[of W "sub_rules subs a" "[a]" n'] W ok card sub_rules_ok by blast
    next
      case False
      then show ?thesis by (simp add: sub_rules_def map_of_eq_None_iff[THEN iffD2] split: option.split)
    qed
    have "ends (rule_Match W n r0 h s)" using plain_match_ends(1)[OF 2(2)] W(2) n by blast
    then show ?thesis using 2 sub W(1) n by (auto intro!: ends_obind)
  qed
qed


definition conf :: config_env where
  "conf = \<lparr>cf_env = geo_env, cf_proxies = [''P''], cf_providers = []\<rparr>"

definition subs_raw :: "(string \<times> string list) list" where
  "subs_raw = [(''a'', [''SUB-RULE,(NETWORK,tcp),b'', ''MATCH,P'']), (''b'', [''DOMAIN,x.com,P''])]"

definition subs_parsed :: "(string \<times> rule list) list" where
  "subs_parsed = [(''a'', [RLogic ''(NETWORK,tcp)'' ''b'' RT_SubRules [Leaf (RNetwork TCP [])],
     Leaf (RMatch ''P'')]), (''b'', [Leaf (RDomain ''x.com'' ''P'')])]"

lemma subs_raw_parsed: "parseSubRules conf subs_raw = Ret (Some subs_parsed)"
  by code_simp


text \<open>The rules of a classical rule set \<open>x\<close> with the one line \<open>AND,((RULE-SET,x))\<close>.\<close>

definition self_set :: "rule list" where
  "self_set = [RLogic ''((RULE-SET,x))'' [] RT_AND [RRuleSet ''x'' [] False False]]"

lemma self_set_diverges:
  assumes "w_providers W = [(''x'', ClassicalStrategy self_set)]"
  shows "rule_Match W n (RRuleSet ''x'' a isSrc nr) h s = Diverge"
proof (induction n arbitrary: a isSrc nr h s)
  case (Suc n)
  have "matchAll W n [RRuleSet ''x'' [] False False] h s = Diverge" for h s
    by (simp add: Suc del: rule_Match.simps(2))
  then have "matchAny W n self_set h s = Diverge" for h s
    by (simp add: self_set_def del: matchAll.simps)
  then show ?case using assms by (simp add: Let_def)
qed (simp add: assms Let_def)

text \<open>
  A classical rule set may hold itself inside a logic rule: the line \<open>AND,((RULE-SET,x))\<close> is
  accepted by \<open>classicalStrategy\<close>, which only rejects RULE-SET at the top of a line, and no later
  check looks into rule sets. Matching a rule of that set then never ends, whatever the metadata.
\<close>

theorem rule_set_self_reference:
  "classical_load (ParseRule geo_env 50) [''AND,((RULE-SET,x))''] [] = Ret self_set \<and>
   rule_Match \<lparr>w_env = E, w_subs = subs, w_providers = [(''x'', ClassicalStrategy self_set)]\<rparr>
     n (RRuleSet ''x'' a isSrc nr) h s = Diverge"
proof
  show "classical_load (ParseRule geo_env 50) [''AND,((RULE-SET,x))''] [] = Ret self_set"
    by code_simp
qed (rule self_set_diverges, simp)

lemma matchAny_pure:
  "\<forall>r \<in> set rs. \<exists>a. rule_Match W n r h s = Ret (b r, a, s) \<Longrightarrow>
     matchAny W n rs h s = Ret (\<exists>r \<in> set rs. b r, s)"
  by (induction rs) auto

lemma matchAll_pure:
  "\<forall>r \<in> set rs. \<exists>a. rule_Match W n r h s = Ret (b r, a, s) \<Longrightarrow>
     matchAll W n rs h s = Ret (\<forall>r \<in> set rs. b r, s)"
  by (induction rs) auto

text \<open>
  Logic rules are the Boolean operations on the rules they hold, when matching those leaves the
  state alone: AND is all of them, OR one of them, NOT the negation of the only one. The adapter is
  the one of the logic rule.
\<close>

theorem logic_rules_boolean:
  assumes "\<forall>r \<in> set rs. \<exists>a. rule_Match W n r h s = Ret (b r, a, s)"
  shows "rule_Match W n (RLogic p a RT_AND rs) h s = Ret (\<forall>r \<in> set rs. b r, a, s) \<and>
    rule_Match W n (RLogic p a RT_OR rs) h s =
      Ret (if \<exists>r \<in> set rs. b r then (True, a, s) else (False, [], s)) \<and>
    (rs \<noteq> [] \<longrightarrow> rule_Match W n (RLogic p a RT_NOT rs) h s =
      Ret (if \<not> b (hd rs) then (True, a, s) else (False, [], s)))"
proof (intro conjI impI)
  assume "rs \<noteq> []"
  then obtain r rs' where rs: "rs = r # rs'" by (cases rs) auto
  with assms obtain a' where "rule_Match W n r h s = Ret (b r, a', s)" by auto
  then show "rule_Match W n (RLogic p a RT_NOT rs) h s =
      Ret (if \<not> b (hd rs) then (True, a, s) else (False, [], s))" using rs by simp
qed (simp_all add: matchAny_pure[OF assms] matchAll_pure[OF assms])

theorem logic_rules_boolean_witness:
  "rule_Match \<lparr>w_env = geo_env, w_subs = [], w_providers = []\<rparr> 0
     (RLogic ''x'' ''P'' RT_AND [Leaf (RNetwork TCP []), Leaf (RMatch [])]) no_helper (ms_of metadata_zero) =
   Ret (True, ''P'', ms_of metadata_zero)"
  using logic_rules_boolean[where rs = "[Leaf (RNetwork TCP []), Leaf (RMatch [])]" and b = "\<lambda>r. True"
      and W = "\<lparr>w_env = geo_env, w_subs = [], w_providers = []\<rparr>" and n = 0 and h = no_helper
      and s = "ms_of metadata_zero" and p = "''x''" and a = "''P''"]
  by (simp add: NetworkType_Match_def Final_Match_def ms_of_def metadata_zero_def)

end
