(* ===== verification/Hosts.thy ===== *)
theory Hosts
  imports DomainTrie NetIP
begin

text \<open>
  The static host table, \<open>component/resolver/host.go\<close>, and how it is built from the configuration,
  \<open>parseHosts\<close> of \<open>config/config.go\<close>: a domain trie whose values are addresses or another name. The
  loops that follow names are partial functions: \<open>Diverge\<close> is a loop that never ends. The system's
  host file and the addresses of the machine's interfaces are parameters; the random choice of an
  address is the number drawn.
\<close>

section \<open>Values\<close>

record host_value =
  hv_IsDomain :: bool
  hv_IPs :: "addr list"
  hv_Domain :: string

definition NewHostValueByIPs :: "addr list \<Rightarrow> host_value option" where
  "NewHostValueByIPs ips =
     (if length ips = 0 then None else Some \<lparr>hv_IsDomain = False, hv_IPs = ips, hv_Domain = []\<rparr>)"

definition NewHostValueByDomain :: "string \<Rightarrow> host_value option" where
  "NewHostValueByDomain domain0 =
     (let domain = trim_set {CHR ''.''} domain0; item = go_split (CHR ''.'') domain in
      if length item < 2 then None
      else Some \<lparr>hv_IsDomain = True, hv_IPs = [], hv_Domain = domain\<rparr>)"

fun parse_ips :: "string list \<Rightarrow> addr list option" where
  "parse_ips [] = Some []"
| "parse_ips (str # strs) =
     (case ParseAddr str of
        None \<Rightarrow> None
      | Some ip \<Rightarrow> map_option (\<lambda>ips. addr_Unmap ip # ips) (parse_ips strs))"

definition NewHostValue :: "string list \<Rightarrow> host_value option" where
  "NewHostValue value =
     (case value of
        [] \<Rightarrow> None
      | [host] \<Rightarrow> (case ParseAddr host of
            Some ip \<Rightarrow> NewHostValueByIPs [addr_Unmap ip]
          | None \<Rightarrow> NewHostValueByDomain host)
      | _ \<Rightarrow> (case parse_ips value of None \<Rightarrow> None | Some ips \<Rightarrow> NewHostValueByIPs ips))"

text \<open>\<open>RandIP\<close> with the number that \<open>randv2.IntN(len(hv.IPs))\<close> draws: any number is reduced to the
  range, and an empty list panics. The outer \<open>None\<close> is the error for a domain value.\<close>

definition hv_RandIP :: "nat \<Rightarrow> host_value \<Rightarrow> addr option outcome" where
  "hv_RandIP k hv =
     (if hv_IsDomain hv then Ret None
      else if length (hv_IPs hv) = 0 then Panic ''invalid argument to IntN''
      else Ret (Some (hv_IPs hv ! (k mod length (hv_IPs hv)))))"

section \<open>Searching\<close>

text \<open>The loop of \<open>Search\<close> from the value \<open>hostValue\<close>: the value at which it stops.\<close>

partial_function (option) hosts_loop :: "host_value node \<Rightarrow> bool \<Rightarrow> host_value \<Rightarrow> host_value option" where
  "hosts_loop t isDomain hostValue =
     (if isDomain \<and> hv_IsDomain hostValue then Some hostValue
      else case dt_lookup (hv_Domain hostValue) t of
        None \<Rightarrow> Some hostValue
      | Some hv \<Rightarrow> hosts_loop t isDomain hv)"

text \<open>The system's host file, \<open>None\<close> when it is not used.\<close>

type_synonym system_hosts = "(string \<Rightarrow> string list) option"

definition hosts_Search ::
  "system_hosts \<Rightarrow> host_value node \<Rightarrow> string \<Rightarrow> bool \<Rightarrow> (host_value option \<times> bool) outcome" where
  "hosts_Search sys t domain isDomain =
     (case dt_lookup domain t of
        Some value \<Rightarrow>
          obind (of_loop (hosts_loop t isDomain value)) (\<lambda>hostValue.
            if isDomain = hv_IsDomain hostValue then Ret (Some hostValue, True)
            else Ret (Some hostValue, False))
      | None \<Rightarrow>
          (case (if isDomain then None else sys) of
             None \<Rightarrow> Ret (None, False)
           | Some lookup \<Rightarrow>
               (case NewHostValue (lookup domain) of
                  Some hostValue \<Rightarrow> Ret (Some hostValue, True)
                | None \<Rightarrow> Ret (None, False))))"

section \<open>Building the table\<close>

text \<open>The loop that looks for a cycle through the key \<open>domain\<close>, from the node found last: whether
  the entry is accepted.\<close>

partial_function (option) cycle_loop :: "host_value node \<Rightarrow> string \<Rightarrow> host_value option \<Rightarrow> bool option" where
  "cycle_loop t domain node =
     (case node of
        None \<Rightarrow> Some True
      | Some hv \<Rightarrow>
          if \<not> hv_IsDomain hv then Some True
          else if hv_Domain hv = domain then Some False
          else cycle_loop t domain (dt_lookup (hv_Domain hv) t))"

text \<open>One entry of the configuration: \<open>lan\<close> stands for the addresses of the interfaces (\<open>None\<close>
  when they cannot be read).\<close>

definition hosts_entry ::
  "string list option \<Rightarrow> string \<Rightarrow> string list \<Rightarrow> host_value node \<Rightarrow> host_value node option outcome" where
  "hosts_entry lan domain hosts0 t =
     (let hosts = (if hosts0 = [''lan''] then (case lan of None \<Rightarrow> hosts0 | Some addrs \<Rightarrow> addrs) else hosts0) in
      case NewHostValue hosts of
        None \<Rightarrow> Ret None
      | Some value \<Rightarrow>
          obind (if hv_IsDomain value then of_loop (cycle_loop t domain (dt_lookup (hv_Domain value) t))
                 else Ret True) (\<lambda>ok.
            Ret (if \<not> ok then None
                 else Some (case dt_Insert domain value t of None \<Rightarrow> t | Some t' \<Rightarrow> t'))))"

fun hosts_entries ::
  "string list option \<Rightarrow> (string \<times> string list) list \<Rightarrow> host_value node \<Rightarrow> host_value node option outcome" where
  "hosts_entries lan [] t = Ret (Some t)"
| "hosts_entries lan ((domain, hosts) # rest) t =
     obind (hosts_entry lan domain hosts t) (\<lambda>r. case r of
         None \<Rightarrow> Ret None | Some t \<Rightarrow> hosts_entries lan rest t)"

definition localhost_value :: host_value where
  "localhost_value = \<lparr>hv_IsDomain = False, hv_IPs = [V4 0x7F000001], hv_Domain = []\<rparr>"

text \<open>The entries are in the order in which Go happens to range over the map.\<close>

definition parseHosts ::
  "string list option \<Rightarrow> (string \<times> string list) list \<Rightarrow> host_value node option outcome" where
  "parseHosts lan cfg =
     (let tree = (case dt_Insert ''localhost'' localhost_value dt_New of None \<Rightarrow> dt_New | Some t \<Rightarrow> t) in
      obind (hosts_entries lan cfg tree) (\<lambda>r. Ret (map_option dt_Optimize r)))"

section \<open>Properties\<close>

lemma dt_lookup_Nil [simp]: "dt_lookup [] t = None"
  by (simp add: dt_lookup_def dt_Search_def ValidAndSplitDomain_def data_of_def ToLower_def)

text \<open>What the table means: a name stands for the addresses it maps to, or for what the name it
  maps to stands for.\<close>

inductive resolves_to :: "host_value node \<Rightarrow> string \<Rightarrow> host_value \<Rightarrow> bool" for t where
  found: "dt_lookup d t = Some hv \<Longrightarrow> \<not> hv_IsDomain hv \<Longrightarrow> hv_Domain hv = [] \<Longrightarrow> resolves_to t d hv"
| follow: "dt_lookup d t = Some hv' \<Longrightarrow> hv_IsDomain hv' \<Longrightarrow> resolves_to t (hv_Domain hv') hv \<Longrightarrow>
    resolves_to t d hv"

lemma resolves_loop:
  assumes "resolves_to t d hv" "dt_lookup d t = Some v"
  shows "hosts_loop t False v = Some hv \<and> \<not> hv_IsDomain hv"
  using assms
proof (induction arbitrary: v)
  case (found d hv)
  then show ?case by (subst hosts_loop.simps) simp
next
  case (follow d hv' hv)
  from follow.hyps(3) obtain w where "dt_lookup (hv_Domain hv') t = Some w"
    by (cases rule: resolves_to.cases) auto
  with follow show ?case by (subst hosts_loop.simps) simp
qed

text \<open>
  Looking up a name in the host table follows the aliases: when the name stands for addresses,
  the search for addresses returns exactly them and reports success, however long the chain of
  aliases is, and the search for an alias reports the first one.
\<close>

theorem hosts_search_follows:
  assumes "resolves_to t d hv"
  shows "hosts_Search sys t d False = Ret (Some hv, True) \<and>
    (\<forall>v. dt_lookup d t = Some v \<and> hv_IsDomain v \<longrightarrow> hosts_Search sys t d True = Ret (Some v, True))"
proof -
  from assms obtain v where v: "dt_lookup d t = Some v" by (cases rule: resolves_to.cases) auto
  have "hosts_loop t True v = Some v" if "hv_IsDomain v"
    using that by (subst hosts_loop.simps) simp
  then show ?thesis using resolves_loop[OF assms v] v by (simp add: hosts_Search_def)
qed

definition alias_hosts :: "host_value node" where
  "alias_hosts = dt_build
     [(''*.a.com'', \<lparr>hv_IsDomain = True, hv_IPs = [], hv_Domain = ''b.org''\<rparr>),
      (''b.org'', \<lparr>hv_IsDomain = False, hv_IPs = [V4 1], hv_Domain = []\<rparr>)]"

lemma alias_lookups:
  "dt_lookup ''x.a.com'' alias_hosts = Some \<lparr>hv_IsDomain = True, hv_IPs = [], hv_Domain = ''b.org''\<rparr>"
  "dt_lookup ''b.org'' alias_hosts = Some \<lparr>hv_IsDomain = False, hv_IPs = [V4 1], hv_Domain = []\<rparr>"
  by code_simp+

theorem hosts_search_follows_witness:
  "hosts_Search None alias_hosts ''x.a.com'' False =
     Ret (Some \<lparr>hv_IsDomain = False, hv_IPs = [V4 1], hv_Domain = []\<rparr>, True)"
proof -
  have "resolves_to alias_hosts ''x.a.com'' \<lparr>hv_IsDomain = False, hv_IPs = [V4 1], hv_Domain = []\<rparr>"
    by (rule follow[OF alias_lookups(1)]) (auto intro: found[OF alias_lookups(2)])
  from hosts_search_follows[OF this] show ?thesis by blast
qed

lemma hosts_loop_self:
  assumes "dt_lookup (hv_Domain hv) t = Some hv" shows "hosts_loop t False hv = None"
proof -
  have "t' = t \<longrightarrow> \<not> i \<longrightarrow> w = hv \<longrightarrow> False" if "hosts_loop t' i w = Some r" for t' i w r
    by (rule hosts_loop.raw_induct[where P = "\<lambda>t' i w r. t' = t \<longrightarrow> \<not> i \<longrightarrow> w = hv \<longrightarrow> False", OF _ that])
      (use assms in \<open>auto split: option.splits if_splits\<close>)
  then show ?thesis by (cases "hosts_loop t False hv") auto
qed

text \<open>The table of the one entry \<open>+.a.com: www.a.com\<close>.\<close>

definition self_hosts :: "host_value node" where
  "self_hosts = dt_Optimize (dt_build [(''localhost'', localhost_value),
     (''+.a.com'', \<lparr>hv_IsDomain = True, hv_IPs = [], hv_Domain = ''www.a.com''\<rparr>)])"

lemma self_lookup:
  "dt_lookup ''www.a.com'' self_hosts = Some \<lparr>hv_IsDomain = True, hv_IPs = [], hv_Domain = ''www.a.com''\<rparr>"
  by code_simp

lemma self_entry: "hosts_entry lan ''+.a.com'' [''www.a.com'']
     (case dt_Insert ''localhost'' localhost_value dt_New of None \<Rightarrow> dt_New | Some t \<Rightarrow> t) =
   Ret (Some (dt_build [(''localhost'', localhost_value),
     (''+.a.com'', \<lparr>hv_IsDomain = True, hv_IPs = [], hv_Domain = ''www.a.com''\<rparr>)]))"
proof -
  let ?t = "case dt_Insert ''localhost'' localhost_value dt_New of None \<Rightarrow> dt_New | Some t \<Rightarrow> t"
  have v: "NewHostValue [''www.a.com''] = Some \<lparr>hv_IsDomain = True, hv_IPs = [], hv_Domain = ''www.a.com''\<rparr>"
    by code_simp
  have l: "dt_lookup ''www.a.com'' ?t = None" by code_simp
  have "cycle_loop ?t ''+.a.com'' None = Some True" by (subst cycle_loop.simps) simp
  then show ?thesis by (simp add: hosts_entry_def v l dt_build_def)
qed

text \<open>
  The check for cycles of \<open>parseHosts\<close> does not see an entry whose own pattern matches the name
  it maps to, such as \<open>+.a.com: www.a.com\<close>: the configuration is accepted, and the search for the
  addresses of \<open>www.a.com\<close>, done for every connection to it, never ends.
\<close>

theorem hosts_self_alias_hangs:
  "parseHosts lan [(''+.a.com'', [''www.a.com''])] = Ret (Some self_hosts) \<and>
   hosts_Search sys self_hosts ''www.a.com'' False = Diverge"
proof
  show "parseHosts lan [(''+.a.com'', [''www.a.com''])] = Ret (Some self_hosts)"
    by (simp only: parseHosts_def Let_def hosts_entries.simps self_entry obind.simps option.case
      option.map self_hosts_def)
  show "hosts_Search sys self_hosts ''www.a.com'' False = Diverge"
    using self_lookup hosts_loop_self[of _ self_hosts] by (simp add: hosts_Search_def)
qed

end
