(* ===== verification/Proxy.thy ===== *)
theory Proxy
  imports SubRules Hosts
begin

text \<open>
  Outbounds as the tunnel sees them (\<open>constant/adapters.go\<close>, \<open>adapter/outbound/rematch.go\<close>), the
  wrapper that counts the hits of a rule (\<open>rules/wrapper/wrapper.go\<close>), and the modes of the process
  lookup (\<open>component/process/find_process_mode.go\<close>).
\<close>

section \<open>Outbounds\<close>

datatype adapter_type =
  A_Direct | A_Reject | A_RejectDrop | A_Compatible | A_Pass | A_PassRule | A_Rematch | A_Dns
  | A_Relay | A_Selector | A_Fallback | A_URLTest | A_LoadBalance | A_Shadowsocks
  | A_ShadowsocksR | A_Snell | A_Socks5 | A_Http | A_Vmess | A_Vless | A_Trojan | A_Hysteria
  | A_Hysteria2 | A_WireGuard | A_Tuic | A_Ssh | A_Mieru | A_AnyTLS | A_Sudoku | A_Masque
  | A_TrustTunnel | A_ShadowQuic | A_OpenVPN | A_Tailscale | A_ZeroTier | A_GostRelay
  | A_Other int

fun AdapterType_String :: "adapter_type \<Rightarrow> string" where
  "AdapterType_String A_Direct = ''Direct''"
| "AdapterType_String A_Reject = ''Reject''"
| "AdapterType_String A_RejectDrop = ''RejectDrop''"
| "AdapterType_String A_Compatible = ''Compatible''"
| "AdapterType_String A_Pass = ''Pass''"
| "AdapterType_String A_PassRule = ''PassRule''"
| "AdapterType_String A_Rematch = ''Rematch''"
| "AdapterType_String A_Dns = ''Dns''"
| "AdapterType_String A_Relay = ''Relay''"
| "AdapterType_String A_Selector = ''Selector''"
| "AdapterType_String A_Fallback = ''Fallback''"
| "AdapterType_String A_URLTest = ''URLTest''"
| "AdapterType_String A_LoadBalance = ''LoadBalance''"
| "AdapterType_String A_Shadowsocks = ''Shadowsocks''"
| "AdapterType_String A_ShadowsocksR = ''ShadowsocksR''"
| "AdapterType_String A_Snell = ''Snell''"
| "AdapterType_String A_Socks5 = ''Socks5''"
| "AdapterType_String A_Http = ''Http''"
| "AdapterType_String A_Vmess = ''Vmess''"
| "AdapterType_String A_Vless = ''Vless''"
| "AdapterType_String A_Trojan = ''Trojan''"
| "AdapterType_String A_Hysteria = ''Hysteria''"
| "AdapterType_String A_Hysteria2 = ''Hysteria2''"
| "AdapterType_String A_WireGuard = ''WireGuard''"
| "AdapterType_String A_Tuic = ''Tuic''"
| "AdapterType_String A_Ssh = ''Ssh''"
| "AdapterType_String A_Mieru = ''Mieru''"
| "AdapterType_String A_AnyTLS = ''AnyTLS''"
| "AdapterType_String A_Sudoku = ''Sudoku''"
| "AdapterType_String A_Masque = ''Masque''"
| "AdapterType_String A_TrustTunnel = ''TrustTunnel''"
| "AdapterType_String A_ShadowQuic = ''ShadowQuic''"
| "AdapterType_String A_OpenVPN = ''OpenVPN''"
| "AdapterType_String A_Tailscale = ''Tailscale''"
| "AdapterType_String A_ZeroTier = ''ZeroTier''"
| "AdapterType_String A_GostRelay = ''GostRelay''"
| "AdapterType_String (A_Other n) = ''Unknown''"

text \<open>The chain of an established connection: \<open>Chain.String\<close> and \<open>Chain.Last\<close>.\<close>

definition Chain_String :: "string list \<Rightarrow> string" where
  "Chain_String c =
     (case c of
        [] \<Rightarrow> []
      | [x] \<Rightarrow> x
      | _ \<Rightarrow> last c @ ''['' @ hd c @ '']'')"

definition Chain_Last :: "string list \<Rightarrow> string" where
  "Chain_Last c = (case c of [] \<Rightarrow> [] | x # _ \<Rightarrow> x)"

text \<open>A proxy: its name, its type, whether it supports UDP, what \<open>Unwrap(metadata, false)\<close> answers
  (a group answers its current choice), and the targets of a \<open>Rematch\<close>. Groups do not contain
  themselves (\<open>proxyGroupsDagSort\<close> of the configuration sees to it), so unwrapping is well founded.\<close>

datatype proxy = Proxy
  (px_Name: string) (px_Type: adapter_type) (px_SupportUDP: bool)
  (px_Unwrap: "metadata \<Rightarrow> proxy option")
  (px_RematchName: "string option") (px_SubRule: "string option")

definition applyMetadata :: "proxy \<Rightarrow> metadata \<Rightarrow> metadata" where
  "applyMetadata p m =
     (let m = (case px_RematchName p of None \<Rightarrow> m | Some n \<Rightarrow> m\<lparr>md_RematchName := n\<rparr>) in
      case px_SubRule p of None \<Rightarrow> m | Some r \<Rightarrow> m\<lparr>md_SpecialRules := r\<rparr>)"

text \<open>\<open>DialContext\<close> of a Rematch: no error, and the metadata it leaves.\<close>

definition Rematch_DialContext :: "proxy \<Rightarrow> metadata \<Rightarrow> bool \<times> metadata" where
  "Rematch_DialContext p m = (True, applyMetadata p m)"

definition NewRematch :: "string \<Rightarrow> string option \<Rightarrow> string option \<Rightarrow> proxy option" where
  "NewRematch name targetRematchName targetSubRule =
     (if targetRematchName = None \<and> targetSubRule = None then None
      else Some (Proxy name A_Rematch True (\<lambda>m. None) targetRematchName targetSubRule))"

text \<open>The walks along \<open>adapter, adapter.Unwrap(...), ...\<close>: what is met first, and whether an adapter
  of a type is met.\<close>

datatype met = MetPass | MetRematch proxy | MetEnd

primrec unwrap_met :: "proxy \<Rightarrow> metadata \<Rightarrow> met" where
  "unwrap_met (Proxy name type udp unwrap rn sr) =
     (\<lambda>m. if type = A_Pass then MetPass
       else if type = A_Rematch then MetRematch (Proxy name type udp unwrap rn sr)
       else case (map_option unwrap_met \<circ> unwrap) m of None \<Rightarrow> MetEnd | Some f \<Rightarrow> f m)"

primrec unwrap_has :: "adapter_type \<Rightarrow> proxy \<Rightarrow> metadata \<Rightarrow> bool" where
  "unwrap_has t (Proxy name type udp unwrap rn sr) =
     (\<lambda>m. if type = t then True
       else case (map_option (unwrap_has t) \<circ> unwrap) m of None \<Rightarrow> False | Some f \<Rightarrow> f m)"

section \<open>Rule counters\<close>

text \<open>The times are Unix nanoseconds; \<open>now\<close> is what \<open>time.Now\<close> answers.\<close>

record rule_wrapper =
  rw_rule :: rule
  rw_disabled :: bool
  rw_hitCount :: "64 word"
  rw_hitAt :: "64 word"
  rw_missCount :: "64 word"
  rw_missAt :: "64 word"

definition NewRuleWrapper :: "rule \<Rightarrow> rule_wrapper" where
  "NewRuleWrapper rule =
     \<lparr>rw_rule = rule, rw_disabled = False, rw_hitCount = 0, rw_hitAt = 0, rw_missCount = 0, rw_missAt = 0\<rparr>"

definition rw_SetDisabled :: "bool \<Rightarrow> rule_wrapper \<Rightarrow> rule_wrapper" where
  "rw_SetDisabled v r = r\<lparr>rw_disabled := v\<rparr>"

definition rw_Hit :: "64 word \<Rightarrow> rule_wrapper \<Rightarrow> rule_wrapper" where
  "rw_Hit now r = r\<lparr>rw_hitCount := rw_hitCount r + 1, rw_hitAt := now\<rparr>"

definition rw_Miss :: "64 word \<Rightarrow> rule_wrapper \<Rightarrow> rule_wrapper" where
  "rw_Miss now r = r\<lparr>rw_missCount := rw_missCount r + 1, rw_missAt := now\<rparr>"

definition rw_Match ::
  "world \<Rightarrow> nat \<Rightarrow> 64 word \<Rightarrow> rule_wrapper \<Rightarrow> helper \<Rightarrow> mstate \<Rightarrow> (bool \<times> string \<times> mstate \<times> rule_wrapper) outcome" where
  "rw_Match W n now r h s =
     (if rw_disabled r then Ret (False, [], s, r)
      else obind (rule_Match W n (rw_rule r) h s) (\<lambda>(ok, adapter, s).
        Ret (ok, adapter, s, if ok then rw_Hit now r else rw_Miss now r)))"

section \<open>Process lookup modes\<close>

datatype find_mode = FindProcessStrict | FindProcessAlways | FindProcessOff | OtherFindMode int

fun FindProcessMode_String :: "find_mode \<Rightarrow> string" where
  "FindProcessMode_String FindProcessAlways = ''always''"
| "FindProcessMode_String FindProcessOff = ''off''"
| "FindProcessMode_String _ = ''strict''"

definition validModes :: "(string \<times> find_mode) list" where
  "validModes = [(FindProcessMode_String FindProcessStrict, FindProcessStrict),
     (FindProcessMode_String FindProcessAlways, FindProcessAlways),
     (FindProcessMode_String FindProcessOff, FindProcessOff)]"

text \<open>\<open>Set\<close> and \<open>UnmarshalText\<close>: \<open>None\<close> is an error.\<close>

definition FindProcessMode_Set :: "string \<Rightarrow> find_mode option" where
  "FindProcessMode_Set value = map_of validModes (ToLower value)"

end
