(* ===== verification/Tunnel.thy ===== *)
theory Tunnel
  imports Proxy
begin

text \<open>
  The tunnel, \<open>tunnel/tunnel.go\<close>: from the metadata of an accepted connection to the outbound that
  dials it. The tunnel's configuration is the record \<open>tunnel\<close>; what it calls in other packages
  (the DNS resolver and its enhancer, the process finder, the sniffer) is the record \<open>outside\<close>.
  Calls take fuel \<open>n\<close> for the depth of rule matching and \<open>k\<close> for the number of rematches.
\<close>

section \<open>State\<close>

record tunnel =
  tn_status :: tunnel_status
  tn_mode :: tunnel_mode
  tn_rules :: "rule_wrapper list"
  tn_subRules :: "(string \<times> rule list) list"
  tn_ruleProviders :: "(string \<times> strategy) list"
  tn_proxies :: "(string \<times> proxy) list"
  tn_findProcessMode :: find_mode

record outside =
  o_env :: rule_env
  o_hosts :: "host_value node"
  o_system_hosts :: system_hosts
  o_pick :: "host_value \<Rightarrow> nat"
  o_mapping :: bool
  o_host_by_ip :: "addr \<Rightarrow> string option"
  o_is_fake :: "addr \<Rightarrow> bool"
  o_resolve :: "string \<Rightarrow> addr option"
  o_process :: "string \<Rightarrow> addr \<Rightarrow> nat \<Rightarrow> (32 word \<times> string) option"
  o_package :: "metadata \<Rightarrow> string option"
  o_cmfa :: bool
  o_now :: "64 word"

definition tn_world :: "outside \<Rightarrow> tunnel \<Rightarrow> world" where
  "tn_world X T = \<lparr>w_env = o_env X, w_subs = tn_subRules T, w_providers = tn_ruleProviders T\<rparr>"

definition OnSuspend :: "tunnel \<Rightarrow> tunnel" where "OnSuspend T = T\<lparr>tn_status := StatusSuspend\<rparr>"
definition OnInnerLoading :: "tunnel \<Rightarrow> tunnel" where "OnInnerLoading T = T\<lparr>tn_status := StatusInner\<rparr>"
definition OnRunning :: "tunnel \<Rightarrow> tunnel" where "OnRunning T = T\<lparr>tn_status := StatusRunning\<rparr>"

definition UpdateRules ::
  "rule_wrapper list \<Rightarrow> (string \<times> rule list) list \<Rightarrow> (string \<times> strategy) list \<Rightarrow> tunnel \<Rightarrow> tunnel" where
  "UpdateRules newRules newSubRule rp T =
     T\<lparr>tn_rules := newRules, tn_subRules := newSubRule, tn_ruleProviders := rp\<rparr>"

definition UpdateProxies :: "(string \<times> proxy) list \<Rightarrow> tunnel \<Rightarrow> tunnel" where
  "UpdateProxies newProxies T = T\<lparr>tn_proxies := newProxies\<rparr>"

definition SetMode :: "tunnel_mode \<Rightarrow> tunnel \<Rightarrow> tunnel" where "SetMode m T = T\<lparr>tn_mode := m\<rparr>"

definition SetFindProcessMode :: "find_mode \<Rightarrow> tunnel \<Rightarrow> tunnel" where
  "SetFindProcessMode m T = T\<lparr>tn_findProcessMode := m\<rparr>"

section \<open>Preparing the metadata\<close>

definition isHandle :: "tunnel \<Rightarrow> conn_type \<Rightarrow> bool" where
  "isHandle T t \<longleftrightarrow> tn_status T = StatusRunning \<or> (tn_status T = StatusInner \<and> t = INNER)"

definition fixMetadata :: "metadata \<Rightarrow> metadata" where
  "fixMetadata m0 =
     (let m = m0\<lparr>md_DstIP := addr_Unmap (md_DstIP m0)\<rparr> in
      case ParseAddr (md_Host m) of
        Some ip \<Rightarrow> m\<lparr>md_DstIP := addr_Unmap ip, md_Host := []\<rparr>
      | None \<Rightarrow> m)"

definition needLookupIP :: "outside \<Rightarrow> metadata \<Rightarrow> bool" where
  "needLookupIP X m \<longleftrightarrow> o_mapping X \<and> md_Host m = [] \<and> addr_IsValid (md_DstIP m)"

definition pick_ip :: "outside \<Rightarrow> host_value \<Rightarrow> addr outcome" where
  "pick_ip X hv = obind (hv_RandIP (o_pick X hv) hv) (\<lambda>ip. Ret (case ip of None \<Rightarrow> NoAddr | Some a \<Rightarrow> a))"

definition DefaultHosts_Search :: "outside \<Rightarrow> string \<Rightarrow> bool \<Rightarrow> (host_value option \<times> bool) outcome" where
  "DefaultHosts_Search X host isDomain = hosts_Search (o_system_hosts X) (o_hosts X) host isDomain"

text \<open>The Boolean is whether there was no error.\<close>

definition preHandleMetadata :: "outside \<Rightarrow> metadata \<Rightarrow> (bool \<times> metadata) outcome" where
  "preHandleMetadata X m =
     (if needLookupIP X m then
        (case o_host_by_ip X (md_DstIP m) of
           Some host \<Rightarrow>
             let m = m\<lparr>md_Host := host, md_DNSMode := DNSMapping\<rparr> in
             if o_is_fake X (md_DstIP m) then Ret (True, m\<lparr>md_DstIP := NoAddr, md_DNSMode := DNSFakeIP\<rparr>)
             else obind (DefaultHosts_Search X host False) (\<lambda>(node, ok).
               case node of
                 None \<Rightarrow> Ret (True, m)
               | Some hv \<Rightarrow>
                   if ok then obind (pick_ip X hv) (\<lambda>ip. Ret (True, m\<lparr>md_DstIP := ip\<rparr>))
                   else if hv_IsDomain hv then Ret (True, m\<lparr>md_Host := hv_Domain hv\<rparr>)
                   else Ret (True, m))
         | None \<Rightarrow> if o_is_fake X (md_DstIP m) then Ret (False, m) else Ret (True, m))
      else obind (DefaultHosts_Search X (md_Host m) True) (\<lambda>(node, ok).
        case node of
          None \<Rightarrow> Ret (True, m)
        | Some hv \<Rightarrow> if ok then Ret (True, m\<lparr>md_Host := hv_Domain hv\<rparr>) else Ret (True, m)))"

section \<open>The helper of the rules\<close>

definition ResolveIP_fn :: "outside \<Rightarrow> mstate \<Rightarrow> mstate" where
  "ResolveIP_fn X s =
     (let m = ms_md s in
      if \<not> ms_resolved s \<and> md_Host m \<noteq> [] \<and> \<not> md_Resolved m then
        s\<lparr>ms_md := (case o_resolve X (md_Host m) of None \<Rightarrow> m | Some ip \<Rightarrow> m\<lparr>md_DstIP := ip\<rparr>),
          ms_resolved := True\<rparr>
      else s)"

text \<open>\<open>filepath.Base\<close> for slash-separated paths.\<close>

definition path_base :: "string \<Rightarrow> string" where
  "path_base path =
     (if path = [] then ''.''
      else let p = rev (dropWhile (\<lambda>c. c = CHR ''/'') (rev path)) in
        if p = [] then ''/'' else rev (takeWhile (\<lambda>c. c \<noteq> CHR ''/'') (rev p)))"

definition FindProcess_fn :: "outside \<Rightarrow> mstate \<Rightarrow> mstate" where
  "FindProcess_fn X s0 =
     (if ms_attempt s0 then
        let s = s0\<lparr>ms_attempt := False\<rparr>; m = ms_md s in
        if \<not> o_cmfa X then
          (case o_process X (NetWork_String (md_NetWork m)) (md_SrcIP m) (unat (md_SrcPort m)) of
             None \<Rightarrow> s
           | Some (uid, path) \<Rightarrow>
               let m = m\<lparr>md_Process := path_base path, md_ProcessPath := path, md_Uid := uid\<rparr> in
               s\<lparr>ms_md := (case o_package X m of None \<Rightarrow> m | Some pkg \<Rightarrow> m\<lparr>md_Process := pkg\<rparr>)\<rparr>)
        else (case o_package X m of None \<Rightarrow> s | Some pkg \<Rightarrow> s\<lparr>ms_md := m\<lparr>md_Process := pkg\<rparr>\<rparr>)
      else s0)"

definition CheckPassRule_fn :: "tunnel \<Rightarrow> mstate \<Rightarrow> string \<Rightarrow> bool" where
  "CheckPassRule_fn T s adapterName =
     (case map_of (tn_proxies T) adapterName of
        None \<Rightarrow> False | Some adapter \<Rightarrow> unwrap_has A_PassRule adapter (ms_md s))"

section \<open>Matching the rules\<close>

text \<open>The body of the loop over the rules: no rule decided, one chose an adapter, or one led to a
  rematch. The rules that were tried come back with their counters.\<close>

datatype decision = Fell | Chose proxy rule | Again proxy rule

fun scan_rules ::
  "tunnel \<Rightarrow> ('r \<Rightarrow> mstate \<Rightarrow> (bool \<times> string \<times> mstate \<times> 'r) outcome) \<Rightarrow> ('r \<Rightarrow> rule) \<Rightarrow>
    'r list \<Rightarrow> mstate \<Rightarrow> (decision \<times> 'r list \<times> mstate) outcome" where
  "scan_rules T mt un [] s = Ret (Fell, [], s)"
| "scan_rules T mt un (rule # rules) s =
     obind (mt rule s) (\<lambda>(matched, ada, s, rule).
       let continue = obind (scan_rules T mt un rules s) (\<lambda>(d, rules, s). Ret (d, rule # rules, s)) in
       if \<not> matched then continue
       else case map_of (tn_proxies T) ada of
         None \<Rightarrow> continue
       | Some adapter \<Rightarrow>
           (case unwrap_met adapter (ms_md s) of
              MetPass \<Rightarrow> continue
            | MetRematch p \<Rightarrow> Ret (Again p (un rule), rule # rules, s)
            | MetEnd \<Rightarrow>
                if md_NetWork (ms_md s) = UDP \<and> \<not> px_SupportUDP adapter then continue
                else Ret (Chose adapter (un rule), rule # rules, s)))"

text \<open>\<open>getRules\<close> and the loop over what it answers: the rules of a sub-rule are bare, the rules of
  the configuration count.\<close>

definition scan_current ::
  "outside \<Rightarrow> nat \<Rightarrow> helper \<Rightarrow> tunnel \<Rightarrow> mstate \<Rightarrow> (decision \<times> tunnel \<times> mstate) outcome" where
  "scan_current X n h T s =
     (case map_of (tn_subRules T) (md_SpecialRules (ms_md s)) of
        Some sr \<Rightarrow>
          obind (scan_rules T
              (\<lambda>r s. obind (rule_Match (tn_world X T) n r h s) (\<lambda>(m, a, s). Ret (m, a, s, r))) id sr s)
            (\<lambda>(d, _, s). Ret (d, T, s))
      | None \<Rightarrow>
          obind (scan_rules T (\<lambda>r s. rw_Match (tn_world X T) n (o_now X) r h s) rw_rule (tn_rules T) s)
            (\<lambda>(d, rules, s). Ret (d, T\<lparr>tn_rules := rules\<rparr>, s)))"

text \<open>\<open>match\<close>: the proxy (\<open>None\<close> when even DIRECT is missing) and the rule.\<close>

fun tn_match ::
  "outside \<Rightarrow> nat \<Rightarrow> helper \<Rightarrow> nat \<Rightarrow> string list \<Rightarrow> tunnel \<Rightarrow> mstate \<Rightarrow>
    (proxy option \<times> rule option \<times> tunnel \<times> mstate) outcome" where
  "tn_match X n h 0 rematchChain T s = Diverge"
| "tn_match X n h (Suc k) rematchChain T s =
     obind (scan_current X n h T s) (\<lambda>(d, T, s). case d of
         Chose adapter rule \<Rightarrow> Ret (Some adapter, Some rule, T, s)
       | Again p rule \<Rightarrow>
           if px_Name p \<in> set rematchChain then Ret (Some p, Some rule, T, s)
           else
             let (ok, m) = Rematch_DialContext p (ms_md s); s = s\<lparr>ms_md := m\<rparr> in
             if \<not> ok then Ret (Some p, Some rule, T, s)
             else tn_match X n h k (rematchChain @ [px_Name p]) T s
       | Fell \<Rightarrow> Ret (map_of (tn_proxies T) ''DIRECT'', None, T, s))"

section \<open>Resolving a connection\<close>

text \<open>The first component is whether there was no error.\<close>

definition resolveMetadata ::
  "outside \<Rightarrow> nat \<Rightarrow> nat \<Rightarrow> tunnel \<Rightarrow> metadata \<Rightarrow>
    (bool \<times> proxy option \<times> rule option \<times> tunnel \<times> metadata) outcome" where
  "resolveMetadata X n k T m =
     (if md_SpecialProxy m \<noteq> [] then
        (let proxy = map_of (tn_proxies T) (md_SpecialProxy m) in Ret (proxy \<noteq> None, proxy, None, T, m))
      else
        obind (DefaultHosts_Search X (md_Host m) False) (\<lambda>(node, ok).
        obind (case node of
            Some hv \<Rightarrow> if ok then obind (pick_ip X hv) (\<lambda>ip. Ret (m\<lparr>md_DstIP := ip\<rparr>, True)) else Ret (m, False)
          | None \<Rightarrow> Ret (m, False)) (\<lambda>(m, resolved).
        let s = \<lparr>ms_md = m, ms_resolved = resolved, ms_attempt = (md_Type m \<noteq> INNER)\<rparr>;
            h = \<lparr>h_ResolveIP = Some (ResolveIP_fn X), h_FindProcess = Some (FindProcess_fn X),
                 h_CheckPassRule = Some (CheckPassRule_fn T)\<rparr>;
            s = (if tn_findProcessMode T = FindProcessAlways then FindProcess_fn X s else s);
            h = (if tn_findProcessMode T = FindProcessAlways \<or> tn_findProcessMode T = FindProcessOff
                 then h\<lparr>h_FindProcess := None\<rparr> else h) in
        if tn_mode T = ModeDirect then Ret (True, map_of (tn_proxies T) ''DIRECT'', None, T, ms_md s)
        else if tn_mode T = ModeGlobal then Ret (True, map_of (tn_proxies T) ''GLOBAL'', None, T, ms_md s)
        else obind (tn_match X n h k [] T s) (\<lambda>(proxy, rule, T, s).
          Ret (True, proxy, rule, T, ms_md s)))))"

text \<open>\<open>handleTCPConn\<close> up to the dial: \<open>None\<close> when the connection is closed without one, otherwise the
  proxy, the rule, the metadata it is dialled with and the metadata it is recorded with. \<open>sniff\<close> is
  the sniffer: whether it found a domain, and the metadata it leaves (\<open>None\<close> when it is off).\<close>

definition tcp_route ::
  "outside \<Rightarrow> nat \<Rightarrow> nat \<Rightarrow> (metadata \<Rightarrow> bool \<times> metadata) option \<Rightarrow> tunnel \<Rightarrow> metadata \<Rightarrow>
    ((proxy option \<times> rule option \<times> metadata \<times> metadata) option \<times> tunnel) outcome" where
  "tcp_route X n k sniff T m =
     (if \<not> isHandle T (md_Type m) then Ret (None, T)
      else if \<not> md_Valid m then Ret (None, T)
      else obind (preHandleMetadata X (fixMetadata m)) (\<lambda>(ok, m).
        let (sniffed, m) = (case sniff of None \<Rightarrow> (False, m) | Some f \<Rightarrow> f m) in
        if \<not> ok \<and> \<not> sniffed then Ret (None, T)
        else obind (resolveMetadata X n k T m) (\<lambda>(ok, proxy, rule, T, m).
          if \<not> ok then Ret (None, T)
          else if md_Host m = [] then Ret (Some (proxy, rule, m, m), T)
          else obind (DefaultHosts_Search X (md_Host m) False) (\<lambda>(node, ok).
            case node of
              None \<Rightarrow> Ret (Some (proxy, rule, m, m), T)
            | Some hv \<Rightarrow>
                if \<not> ok then Ret (Some (proxy, rule, m, m), T)
                else obind (pick_ip X hv) (\<lambda>ip.
                  if o_is_fake X ip then Ret (Some (proxy, rule, m, m), T)
                  else let m = m\<lparr>md_DstIP := ip, md_DNSMode := DNSHosts\<rparr> in
                    Ret (Some (proxy, rule, md_Pure m, m), T))))))"

section \<open>Retrying a dial\<close>

datatype dial_error = ErrIPNotFound | ErrIPVersion | ErrIPv6Disabled | ErrReject | OtherDialError string

definition shouldStopRetry :: "dial_error \<Rightarrow> bool" where
  "shouldStopRetry err \<longleftrightarrow> err = ErrIPNotFound \<or> err = ErrIPVersion \<or> err = ErrIPv6Disabled \<or> err = ErrReject"

text \<open>\<open>retry\<close>: \<open>ft i\<close> is what the call number \<open>i\<close> answers, \<open>wait i\<close> whether the pause after it ended
  before the context did. The result is the last answer and the number of calls.\<close>

fun retry_loop :: "nat \<Rightarrow> (nat \<Rightarrow> dial_error + 'a) \<Rightarrow> (nat \<Rightarrow> bool) \<Rightarrow> nat \<Rightarrow> (dial_error + 'a) \<Rightarrow> (dial_error + 'a) \<times> nat" where
  "retry_loop 0 ft wait i prev = (prev, i)"
| "retry_loop (Suc left) ft wait i prev =
     (case ft i of
        Inr t \<Rightarrow> (Inr t, i + 1)
      | Inl err \<Rightarrow>
          if shouldStopRetry err then (Inl err, i + 1)
          else if wait i then retry_loop left ft wait (i + 1) (Inl err)
          else (Inl err, i + 1))"

definition retry :: "(nat \<Rightarrow> dial_error + 'a) \<Rightarrow> (nat \<Rightarrow> bool) \<Rightarrow> (dial_error + 'a) \<times> nat" where
  "retry ft wait = retry_loop 10 ft wait 0 (ft 0)"

section \<open>The outbound chosen\<close>

lemma scan_rules_decision:
  assumes "scan_rules T mt un rules s = Ret (d, rules', s')"
  shows "(\<forall>p r. d = Chose p r \<longrightarrow> (\<exists>ada. map_of (tn_proxies T) ada = Some p) \<and>
      unwrap_met p (ms_md s') = MetEnd \<and> (md_NetWork (ms_md s') = UDP \<longrightarrow> px_SupportUDP p)) \<and>
    (\<forall>p r. d = Again p r \<longrightarrow> (\<exists>ada q. map_of (tn_proxies T) ada = Some q \<and>
      unwrap_met q (ms_md s') = MetRematch p))"
  using assms
proof (induction rules arbitrary: s d rules' s')
  case (Cons rule rules)
  then show ?case
    by (auto simp: obind_Ret_iff Let_def split: if_splits option.splits met.splits)
qed simp

lemma scan_current_decision:
  assumes "scan_current X n h T s = Ret (d, T', s')"
  shows "tn_proxies T' = tn_proxies T \<and> tn_subRules T' = tn_subRules T \<and>
    tn_ruleProviders T' = tn_ruleProviders T \<and>
    (\<forall>p r. d = Chose p r \<longrightarrow> (\<exists>ada. map_of (tn_proxies T) ada = Some p) \<and>
      unwrap_met p (ms_md s') = MetEnd \<and> (md_NetWork (ms_md s') = UDP \<longrightarrow> px_SupportUDP p)) \<and>
    (\<forall>p r. d = Again p r \<longrightarrow> (\<exists>ada q. map_of (tn_proxies T) ada = Some q \<and>
      unwrap_met q (ms_md s') = MetRematch p))"
proof (cases "map_of (tn_subRules T) (md_SpecialRules (ms_md s))")
  case None
  with assms show ?thesis
    by (auto simp: scan_current_def obind_Ret_iff dest!: scan_rules_decision)
next
  case (Some sr)
  with assms show ?thesis
    by (auto simp: scan_current_def obind_Ret_iff dest!: scan_rules_decision)
qed

lemma unwrap_met_rematch: "unwrap_met q m = MetRematch p \<Longrightarrow> px_Type p = A_Rematch"
  by (induction q) (auto split: if_splits option.splits, metis rangeI)


section \<open>Matching ends\<close>

lemma scan_rules_ends:
  assumes "\<And>r s. r \<in> set rules \<Longrightarrow> ends (mt r s)"
  shows "ends (scan_rules T mt un rules s)"
  using assms
proof (induction rules arbitrary: s)
  case (Cons rule rules)
  then have "ends (scan_rules T mt un rules s)" for s by simp
  then show ?case using Cons.prems
    by (auto simp: Let_def intro!: ends_obind split: option.split met.split)
qed simp

lemma scan_rules_keeps:
  assumes "scan_rules T mt un rules s = Ret (d, rules', s')"
    and "\<And>r s m a s' r'. mt r s = Ret (m, a, s', r') \<Longrightarrow> un r' = un r"
  shows "map un rules' = map un rules"
  using assms(1)
proof (induction rules arbitrary: s d rules' s')
  case (Cons rule rules)
  from Cons.prems obtain m a s1 r1 where r1: "mt rule s = Ret (m, a, s1, r1)"
    by (auto simp: obind_Ret_iff)
  have "un r1 = un rule" by (rule assms(2)[OF r1])
  with Cons.prems r1 Cons.IH[of s1] show ?case
    by (auto simp: obind_Ret_iff Let_def split: if_splits option.splits met.splits)
qed simp

lemma rw_Match_rule: "rw_Match W n now r h s = Ret (m, a, s', r') \<Longrightarrow> rw_rule r' = rw_rule r"
  by (auto simp: rw_Match_def obind_Ret_iff rw_Hit_def rw_Miss_def split: if_splits)

text \<open>A configuration as the parser and the check of sub-rules leave it, with rule sets that name
  no rule sets.\<close>

definition tunnel_ok :: "tunnel \<Rightarrow> bool" where
  "tunnel_ok T \<longleftrightarrow> verifySubRule (tn_subRules T) \<and> subs_ok (tn_subRules T) \<and>
     (\<forall>r \<in> set (tn_rules T). rule_ok (rw_rule r)) \<and>
     providers_ok \<lparr>w_env = undefined, w_subs = [], w_providers = tn_ruleProviders T\<rparr>"

lemma tunnel_match_ends:
  assumes "tunnel_ok T" "rule_ok r" "length (tn_subRules T) + 1 < n"
  shows "ends (rule_Match (tn_world X T) n r h s)"
  by (rule verified_match_ends) (use assms in \<open>auto simp: tunnel_ok_def tn_world_def providers_ok_def\<close>)

lemma scan_current_ends:
  assumes "tunnel_ok T" "length (tn_subRules T) + 1 < n"
  shows "ends (scan_current X n h T s)"
proof (cases "map_of (tn_subRules T) (md_SpecialRules (ms_md s))")
  case None
  have "ends (rw_Match (tn_world X T) n (o_now X) r h s)" if "r \<in> set (tn_rules T)" for r s
    using that assms tunnel_match_ends by (auto simp: rw_Match_def tunnel_ok_def intro!: ends_obind)
  then show ?thesis using None by (auto simp: scan_current_def intro!: ends_obind scan_rules_ends)
next
  case (Some sr)
  have "rule_ok r" if "r \<in> set sr" for r
    using that Some assms(1) map_of_SomeD[OF Some] by (auto simp: tunnel_ok_def subs_ok_def)
  then have "ends (obind (rule_Match (tn_world X T) n r h s) (\<lambda>(m, a, s). Ret (m, a, s, r)))"
    if "r \<in> set sr" for r s
    using that assms tunnel_match_ends by (auto intro!: ends_obind)
  then have "ends (scan_rules T (\<lambda>r s. obind (rule_Match (tn_world X T) n r h s)
      (\<lambda>(m, a, s). Ret (m, a, s, r))) id sr s)" by (rule scan_rules_ends)
  then show ?thesis using Some by (auto simp: scan_current_def intro!: ends_obind)
qed

lemma scan_current_ok:
  assumes "scan_current X n h T s = Ret (d, T', s')" "tunnel_ok T"
  shows "tunnel_ok T'"
proof (cases "map_of (tn_subRules T) (md_SpecialRules (ms_md s))")
  case None
  with assms(1) obtain rules where r: "T' = T\<lparr>tn_rules := rules\<rparr>"
    "scan_rules T (\<lambda>r s. rw_Match (tn_world X T) n (o_now X) r h s) rw_rule (tn_rules T) s = Ret (d, rules, s')"
    by (auto simp: scan_current_def obind_Ret_iff)
  have "map rw_rule rules = map rw_rule (tn_rules T)"
    by (rule scan_rules_keeps[OF r(2)]) (rule rw_Match_rule)
  then have "rw_rule ` set rules = rw_rule ` set (tn_rules T)" by (metis list.set_map)
  then show ?thesis using assms(2) r(1) unfolding tunnel_ok_def
    by (simp add: image_iff) (metis imageI imageE)
next
  case (Some sr)
  with assms show ?thesis by (auto simp: scan_current_def obind_Ret_iff)
qed

definition rematch_names :: "tunnel \<Rightarrow> string set \<Rightarrow> bool" where
  "rematch_names T N \<longleftrightarrow> (\<forall>ada q m p. map_of (tn_proxies T) ada = Some q \<and>
     unwrap_met q m = MetRematch p \<longrightarrow> px_Name p \<in> N)"

lemma tn_match_ends:
  assumes "tunnel_ok T" "length (tn_subRules T) + 1 < n" "finite N" "rematch_names T N"
    and "card (N - set chain) < k"
  shows "ends (tn_match X n h k chain T s)"
  using assms
proof (induction k arbitrary: chain T s)
  case (Suc k)
  obtain d T1 s1 where d: "scan_current X n h T s = Ret (d, T1, s1)"
    using scan_current_ends[OF Suc.prems(1,2)] by (fastforce simp: ends_iff)
  note D = scan_current_decision[OF d]
  show ?case
  proof (cases d)
    case (Again p r)
    show ?thesis
    proof (cases "px_Name p \<in> set chain")
      case False
      have "px_Name p \<in> N" using D Again Suc.prems(4) unfolding rematch_names_def by blast
      then have "card (N - set (chain @ [px_Name p])) < card (N - set chain)"
        using card_less_arr[of "px_Name p" N chain] False Suc.prems(3) by simp
      then have "ends (tn_match X n h k (chain @ [px_Name p]) T1 s')" for s'
        using Suc.IH[of T1 "chain @ [px_Name p]"] Suc.prems D scan_current_ok[OF d]
        by (simp add: rematch_names_def)
      then show ?thesis using d Again False by (simp add: Rematch_DialContext_def)
    qed (simp add: d Again)
  qed (simp_all add: d)
qed simp



section \<open>A configuration\<close>

text \<open>A Rematch that sends UDP connections to themselves, a proxy without UDP, and DIRECT.\<close>

definition px :: "string \<Rightarrow> adapter_type \<Rightarrow> bool \<Rightarrow> proxy" where
  "px name type udp = Proxy name type udp (\<lambda>m. None) None None"

definition demo_proxies :: "(string \<times> proxy) list" where
  "demo_proxies = [(''DIRECT'', px ''DIRECT'' A_Direct True), (''P'', px ''P'' A_Http False),
     (''S'', px ''S'' A_Socks5 True), (''R'', Proxy ''R'' A_Rematch True (\<lambda>m. None) (Some ''again'') None)]"

definition demo :: tunnel where
  "demo = \<lparr>tn_status = StatusRunning, tn_mode = ModeRule,
     tn_rules = [NewRuleWrapper (Leaf (RMatch ''P'')), NewRuleWrapper (Leaf (RMatch ''S''))],
     tn_subRules = [], tn_ruleProviders = [], tn_proxies = demo_proxies,
     tn_findProcessMode = FindProcessStrict\<rparr>"

definition outside0 :: outside where
  "outside0 = \<lparr>o_env = geo_env, o_hosts = dt_New, o_system_hosts = None, o_pick = (\<lambda>h. 0), o_mapping = False,
     o_host_by_ip = (\<lambda>a. None), o_is_fake = (\<lambda>a. False), o_resolve = (\<lambda>h. None),
     o_process = (\<lambda>n a p. if a = V4 0x0A000001 then Some (1000, ''/bin/app'') else None),
     o_package = (\<lambda>m. None), o_cmfa = False, o_now = 0\<rparr>"

definition udp_conn :: mstate where
  "udp_conn = ms_of (metadata_zero\<lparr>md_NetWork := UDP\<rparr>)"

lemma demo_match:
  "tn_match outside0 5 no_helper 3 [] demo udp_conn = Ret (Some (px ''S'' A_Socks5 True), Some (Leaf (RMatch ''S'')),
     demo\<lparr>tn_rules := map (rw_Hit 0) (tn_rules demo)\<rparr>, udp_conn)"
  by (simp add: numeral_eq_Suc scan_current_def demo_def demo_proxies_def px_def NewRuleWrapper_def rw_Match_def
    Final_Match_def udp_conn_def ms_of_def metadata_zero_def outside0_def Let_def rw_Hit_def)



section \<open>Rule sets in source mode\<close>

text \<open>The connection 10.0.0.1:1000 to 9.9.9.9:80 of the process app, and a configuration whose only
  difference is a rule set in source mode before the rule for that process.\<close>

definition app_conn :: metadata where
  "app_conn = metadata_zero\<lparr>md_SrcIP := V4 0x0A000001, md_SrcPort := 1000, md_DstIP := V4 0x09090909,
     md_DstPort := 80\<rparr>"

definition app_rule :: rule where "app_rule = Leaf (RProcess ''app'' ''S'' RT_ProcessName)"

definition app_tunnel :: "rule list \<Rightarrow> tunnel" where
  "app_tunnel rules = demo\<lparr>tn_rules := map NewRuleWrapper rules,
     tn_ruleProviders := [(''x'', ClassicalStrategy [Leaf (RProcess ''other'' [] RT_ProcessName)])]\<rparr>"

text \<open>
  A classical rule set used in source mode swaps the two ends of the connection while it is
  matched, and a process rule in it looks the process up from the swapped metadata: the lookup is
  made for the destination, fails, and is not made again, so that a later rule for the process of
  the connection no longer matches and the connection falls through to DIRECT.
\<close>

theorem src_rule_set_breaks_process_rules:
  "returns (resolveMetadata outside0 5 3 (app_tunnel [app_rule]) app_conn)
     (\<lambda>(ok, p, r, T, m). ok \<and> map_option px_Name p = Some ''S'' \<and> r = Some app_rule) \<and>
   returns (resolveMetadata outside0 5 3 (app_tunnel [RRuleSet ''x'' ''P'' True False, app_rule]) app_conn)
     (\<lambda>(ok, p, r, T, m). ok \<and> map_option px_Name p = Some ''DIRECT'' \<and> r = None)"
  by (intro conjI; code_simp)

section \<open>Retrying\<close>

lemma retry_loop_spec:
  assumes "retry_loop left ft wait i prev = (res, c)" "0 < left"
  shows "i < c \<and> c \<le> i + left \<and> res = ft (c - 1) \<and>
    (\<forall>j. i \<le> j \<and> j < c - 1 \<longrightarrow> (\<exists>err. ft j = Inl err \<and> \<not> shouldStopRetry err) \<and> wait j) \<and>
    (case res of Inr t \<Rightarrow> True | Inl err \<Rightarrow> shouldStopRetry err \<or> \<not> wait (c - 1) \<or> c = i + left)"
  using assms
proof (induction left arbitrary: i prev)
  case (Suc left)
  show ?case
  proof (cases "ft i")
    case (Inr t)
    then show ?thesis using Suc.prems by (auto split: sum.split)
  next
    case (Inl err)
    show ?thesis
    proof (cases "\<not> shouldStopRetry err \<and> wait i \<and> 0 < left")
      case True
      then have r: "retry_loop left ft wait (i + 1) (Inl err) = (res, c)" using Suc.prems Inl by simp
      note IH = Suc.IH[OF r]
      have "(\<exists>err. ft j = Inl err \<and> \<not> shouldStopRetry err) \<and> wait j" if "i \<le> j" "j < c - 1" for j
        using that IH True Inl by (cases "j = i") auto
      then show ?thesis using IH True by (auto split: sum.split)
    next
      case False
      then show ?thesis using Suc.prems Inl by (cases left) (auto split: if_splits sum.split)
    qed
  qed
qed simp

text \<open>
  A dial is tried between one and ten times; the answer is that of the last try, every earlier
  one failed with an error worth retrying, and a failure is only given up on for a fatal error, when
  the context ended during the pause, or after the tenth try.
\<close>

theorem retry_bounded:
  "case retry ft wait of (res, c) \<Rightarrow> 1 \<le> c \<and> c \<le> 10 \<and> res = ft (c - 1) \<and>
     (\<forall>j < c - 1. (\<exists>err. ft j = Inl err \<and> \<not> shouldStopRetry err) \<and> wait j) \<and>
     (case res of Inr t \<Rightarrow> True | Inl err \<Rightarrow> shouldStopRetry err \<or> \<not> wait (c - 1) \<or> c = 10)"
proof (cases "retry ft wait")
  case (Pair res c)
  then show ?thesis using retry_loop_spec[of 10 ft wait 0 "ft 0" res c] by (auto simp: retry_def split: sum.splits)
qed

theorem retry_bounded_witness:
  "snd (retry (\<lambda>i. if i < 2 then Inl (OtherDialError ''refused'') else Inr ''connection'') (\<lambda>i. True)) = 3 \<and>
   fst (retry (\<lambda>i. if i < 2 then Inl (OtherDialError ''refused'') else Inr ''connection'') (\<lambda>i. True)) = Inr ''connection''"
proof -
  have run: "snd (retry (\<lambda>i. if i < 2 then Inl (OtherDialError ''refused'') else Inr ''connection'') (\<lambda>i. True)) = 3"
    by (simp add: retry_def eval_nat_numeral shouldStopRetry_def)
  show ?thesis
    using run retry_bounded[of "\<lambda>i. if i < 2 then Inl (OtherDialError ''refused'') else Inr ''connection''" "\<lambda>i. True"]
    by (simp add: case_prod_unfold)
qed

end
