(* ===== verification/Lru.thy ===== *)
theory Lru
  imports Prelude
begin

text \<open>
  The least-recently-used cache of \<open>common/lru/lrucache.go\<close>. The code keeps a doubly linked list of
  entries, least recent in front, and a map from the keys to the elements of that list; every
  operation changes both together, so the model keeps the list alone, and looking a key up in the
  map is finding its entry. Calls of the eviction callback are logged. A call reads the clock
  once (\<open>now\<close>, in seconds).
\<close>

section \<open>The cache\<close>

record ('k, 'v) lru =
  l_maxAge :: int
  l_maxSize :: int
  l_updateAgeOnGet :: bool
  l_staleReturn :: bool
  l_items :: "('k \<times> 'v \<times> int) list"
  l_evicted :: "('k \<times> 'v) list"

definition lru_New :: "int \<Rightarrow> int \<Rightarrow> bool \<Rightarrow> bool \<Rightarrow> ('k, 'v) lru" where
  "lru_New maxAge maxSize updateAge stale =
     \<lparr>l_maxAge = maxAge, l_maxSize = maxSize, l_updateAgeOnGet = updateAge, l_staleReturn = stale,
      l_items = [], l_evicted = []\<rparr>"

definition lru_Clear :: "('k, 'v) lru \<Rightarrow> ('k, 'v) lru" where
  "lru_Clear c = c\<lparr>l_items := []\<rparr>"

definition drop_key :: "'k \<Rightarrow> ('k \<times> 'b) list \<Rightarrow> ('k \<times> 'b) list" where
  "drop_key k xs = filter (\<lambda>x. fst x \<noteq> k) xs"

definition lru_deleteElement :: "'k \<Rightarrow> ('k, 'v) lru \<Rightarrow> ('k, 'v) lru" where
  "lru_deleteElement k c =
     (case map_of (l_items c) k of
        None \<Rightarrow> c
      | Some (v, e) \<Rightarrow> c\<lparr>l_items := drop_key k (l_items c), l_evicted := l_evicted c @ [(k, v)]\<rparr>)"

definition lru_maybeDeleteOldest :: "int \<Rightarrow> ('k, 'v) lru \<Rightarrow> ('k, 'v) lru" where
  "lru_maybeDeleteOldest now c =
     (if \<not> l_staleReturn c \<and> l_maxAge c > 0 then
        let old = (\<lambda>(k, v, e). e \<le> now) in
        c\<lparr>l_items := dropWhile old (l_items c),
          l_evicted := l_evicted c @ map (\<lambda>(k, v, e). (k, v)) (takeWhile old (l_items c))\<rparr>
      else c)"

text \<open>\<open>get\<close>: the entry's value and expiry, when it is there and fresh.\<close>

definition lru_get :: "int \<Rightarrow> 'k \<Rightarrow> ('k, 'v) lru \<Rightarrow> ('v \<times> int) option \<times> ('k, 'v) lru" where
  "lru_get now k c =
     (case map_of (l_items c) k of
        None \<Rightarrow> (None, c)
      | Some (v, e) \<Rightarrow>
          if \<not> l_staleReturn c \<and> l_maxAge c > 0 \<and> e \<le> now then
            (None, lru_maybeDeleteOldest now (lru_deleteElement k c))
          else
            let e = (if l_maxAge c > 0 \<and> l_updateAgeOnGet c then now + l_maxAge c else e) in
            (Some (v, e), c\<lparr>l_items := drop_key k (l_items c) @ [(k, v, e)]\<rparr>))"

definition lru_Get :: "int \<Rightarrow> 'k \<Rightarrow> ('k, 'v) lru \<Rightarrow> 'v option \<times> ('k, 'v) lru" where
  "lru_Get now k c = (let (r, c) = lru_get now k c in (map_option fst r, c))"

definition lru_GetWithExpire :: "int \<Rightarrow> 'k \<Rightarrow> ('k, 'v) lru \<Rightarrow> ('v \<times> int) option \<times> ('k, 'v) lru" where
  "lru_GetWithExpire now k c = lru_get now k c"

definition lru_Exist :: "'k \<Rightarrow> ('k, 'v) lru \<Rightarrow> bool" where
  "lru_Exist k c \<longleftrightarrow> map_of (l_items c) k \<noteq> None"

definition lru_setWithExpire :: "int \<Rightarrow> 'k \<Rightarrow> 'v \<Rightarrow> int \<Rightarrow> ('k, 'v) lru \<Rightarrow> ('k, 'v) lru" where
  "lru_setWithExpire now k v e c =
     lru_maybeDeleteOldest now
       (if map_of (l_items c) k \<noteq> None then c\<lparr>l_items := drop_key k (l_items c) @ [(k, v, e)]\<rparr>
        else let c = c\<lparr>l_items := l_items c @ [(k, v, e)]\<rparr> in
          if l_maxSize c > 0 \<and> int (length (l_items c)) > l_maxSize c
          then lru_deleteElement (fst (hd (l_items c))) c else c)"

definition lru_set :: "int \<Rightarrow> 'k \<Rightarrow> 'v \<Rightarrow> ('k, 'v) lru \<Rightarrow> ('k, 'v) lru" where
  "lru_set now k v c =
     lru_setWithExpire now k v (if l_maxAge c > 0 then now + l_maxAge c else 0) c"

definition lru_GetOrStore :: "int \<Rightarrow> 'k \<Rightarrow> 'v \<Rightarrow> ('k, 'v) lru \<Rightarrow> ('v \<times> bool) \<times> ('k, 'v) lru" where
  "lru_GetOrStore now k made c =
     (case lru_get now k c of
        (Some (v, e), c) \<Rightarrow> ((v, True), c)
      | (None, c) \<Rightarrow> ((made, False), lru_set now k made c))"

definition lru_Delete :: "'k \<Rightarrow> ('k, 'v) lru \<Rightarrow> ('k, 'v) lru" where
  "lru_Delete k c = (if map_of (l_items c) k \<noteq> None then lru_deleteElement k c else c)"

text \<open>\<open>Compute\<close>: \<open>valueFn\<close> is given the old value and answers the new one, or that the key goes.\<close>

definition lru_Compute ::
  "int \<Rightarrow> 'k \<Rightarrow> ('v option \<Rightarrow> 'v \<times> bool) \<Rightarrow> ('k, 'v) lru \<Rightarrow> 'v option \<times> ('k, 'v) lru" where
  "lru_Compute now k valueFn c =
     (let (r, c) = lru_get now k c; old = map_option fst r; (newValue, del) = valueFn old in
      if del then (None, if old \<noteq> None then lru_Delete k c else c)
      else (Some newValue, lru_set now k newValue c))"

text \<open>\<open>CloneTo\<close> gives its entries to the cache \<open>n\<close>, which keeps its own limits. (The two lists then
  share the entries themselves; the model follows one of the two caches afterwards, as the callers
  do, who drop the old cache.)\<close>

definition lru_CloneTo :: "('k, 'v) lru \<Rightarrow> ('k, 'v) lru \<Rightarrow> ('k, 'v) lru" where
  "lru_CloneTo c n = n\<lparr>l_items := l_items c\<rparr>"

section \<open>Well-formed caches\<close>

text \<open>No key twice, and no more entries than the limit.\<close>

definition lru_ok :: "('k, 'v) lru \<Rightarrow> bool" where
  "lru_ok c \<longleftrightarrow> distinct (map fst (l_items c)) \<and>
     (l_maxSize c > 0 \<longrightarrow> int (length (l_items c)) \<le> l_maxSize c)"

lemma drop_key_map: "map fst (drop_key k xs) = filter (\<lambda>j. j \<noteq> k) (map fst xs)"
  by (induction xs) (auto simp: drop_key_def)

lemma drop_key_notin [simp]: "map_of xs k = None \<Longrightarrow> drop_key k xs = xs"
  by (auto simp: drop_key_def map_of_eq_None_iff intro!: filter_True)

lemma drop_key_distinct [simp]: "distinct (map fst xs) \<Longrightarrow> distinct (map fst (drop_key k xs))"
  by (simp add: drop_key_map)

lemma drop_key_fst [simp]: "k \<notin> fst ` set (drop_key k xs)"
  by (auto simp: drop_key_def)

lemma drop_key_length: "length (drop_key k xs) \<le> length xs"
  by (simp add: drop_key_def)

lemma drop_key_less: "map_of xs k \<noteq> None \<Longrightarrow> length (drop_key k xs) < length xs"
  unfolding drop_key_def by (force dest!: map_of_SomeD intro!: length_filter_less)

lemma map_of_drop_key: "map_of (drop_key k xs) j = (if j = k then None else map_of xs j)"
  by (induction xs) (auto simp: drop_key_def)

lemma drop_key_hd: "distinct (map fst (x # xs)) \<Longrightarrow> drop_key (fst x) (x # xs) = xs"
  using drop_key_notin[of xs "fst x"] by (simp add: drop_key_def map_of_eq_None_iff)

lemma ok_suffix:
  "lru_ok c \<Longrightarrow> l_items c = ys @ zs \<Longrightarrow> lru_ok (c\<lparr>l_items := zs\<rparr>)"
  by (auto simp: lru_ok_def)

lemma lru_deleteElement_ok: "lru_ok c \<Longrightarrow> lru_ok (lru_deleteElement k c)"
  using drop_key_length[of k "l_items c"]
  by (auto simp: lru_deleteElement_def lru_ok_def split: option.split)

lemma lru_maybeDeleteOldest_ok:
  assumes "lru_ok c" shows "lru_ok (lru_maybeDeleteOldest now c)"
proof -
  have "l_items c = takeWhile P (l_items c) @ dropWhile P (l_items c)" for P by simp
  from ok_suffix[OF assms this] show ?thesis using assms
    by (simp add: lru_maybeDeleteOldest_def Let_def lru_ok_def)
qed

lemma lru_move_ok:
  assumes "lru_ok c" "map_of (l_items c) k \<noteq> None"
  shows "lru_ok (c\<lparr>l_items := drop_key k (l_items c) @ [(k, ve)]\<rparr>)"
  using assms drop_key_less[OF assms(2)] by (auto simp: lru_ok_def)

lemma lru_get_ok: "lru_ok c \<Longrightarrow> lru_ok (snd (lru_get now k c))"
  using lru_move_ok[of c k]
  by (auto simp: lru_get_def Let_def lru_maybeDeleteOldest_ok lru_deleteElement_ok split: option.split)

lemma lru_setWithExpire_ok:
  assumes "lru_ok c" shows "lru_ok (lru_setWithExpire now k v e c)"
proof (cases "map_of (l_items c) k")
  case None
  let ?c = "c\<lparr>l_items := l_items c @ [(k, v, e)]\<rparr>"
  have d: "distinct (map fst (l_items ?c))" using assms None by (auto simp: lru_ok_def map_of_eq_None_iff)
  obtain x xs where x: "l_items ?c = x # xs" by (cases "l_items ?c") auto
  have "length xs = length (l_items c)" using arg_cong[OF x, of length] by simp
  then have "lru_ok (lru_deleteElement (fst x) ?c)"
    using assms d x drop_key_hd[of x xs] by (cases x) (auto simp: lru_deleteElement_def lru_ok_def)
  moreover have "lru_ok ?c" if "\<not> (l_maxSize c > 0 \<and> int (length (l_items ?c)) > l_maxSize c)"
    using that d by (auto simp: lru_ok_def)
  ultimately show ?thesis using None x
    by (auto simp: lru_setWithExpire_def Let_def intro!: lru_maybeDeleteOldest_ok)
next
  case (Some ve)
  then show ?thesis using lru_move_ok[OF assms, of k]
    by (auto simp: lru_setWithExpire_def intro!: lru_maybeDeleteOldest_ok)
qed

lemma lru_set_ok: "lru_ok c \<Longrightarrow> lru_ok (lru_set now k v c)"
  by (simp add: lru_set_def lru_setWithExpire_ok)

text \<open>The calls of the cache, and what a sequence of them does.\<close>

datatype ('k, 'v) lru_call =
  CGet int 'k | CSet int 'k 'v | CSetWithExpire int 'k 'v int | CGetOrStore int 'k 'v
  | CDelete 'k | CCompute int 'k "'v option \<Rightarrow> 'v \<times> bool" | CClear

fun lru_do :: "('k, 'v) lru_call \<Rightarrow> ('k, 'v) lru \<Rightarrow> ('k, 'v) lru" where
  "lru_do (CGet now k) c = snd (lru_Get now k c)"
| "lru_do (CSet now k v) c = lru_set now k v c"
| "lru_do (CSetWithExpire now k v e) c = lru_setWithExpire now k v e c"
| "lru_do (CGetOrStore now k v) c = snd (lru_GetOrStore now k v c)"
| "lru_do (CDelete k) c = lru_Delete k c"
| "lru_do (CCompute now k f) c = snd (lru_Compute now k f c)"
| "lru_do CClear c = lru_Clear c"

lemma lru_do_ok: "lru_ok c \<Longrightarrow> lru_ok (lru_do call c)"
proof (cases call)
  case (CCompute now k f)
  assume "lru_ok c"
  then have "lru_ok (snd (lru_get now k c))" by (rule lru_get_ok)
  then show ?thesis using CCompute
    by (auto simp: lru_Compute_def Let_def lru_set_ok lru_Delete_def lru_deleteElement_ok split: prod.split)
next
  case (CGetOrStore now k v)
  assume "lru_ok c"
  then have "lru_ok (snd (lru_get now k c))" by (rule lru_get_ok)
  then show ?thesis using CGetOrStore
    by (auto simp: lru_GetOrStore_def lru_set_ok split: prod.split option.split)
next
  case (CGet now k)
  assume "lru_ok c"
  then have "lru_ok (snd (lru_get now k c))" by (rule lru_get_ok)
  then show ?thesis using CGet by (cases "lru_get now k c") (simp add: lru_Get_def)
next
  case CClear
  then show ?thesis by (simp add: lru_Clear_def lru_ok_def)
qed (simp_all add: lru_set_ok lru_setWithExpire_ok lru_Delete_def lru_deleteElement_ok)

lemma lru_config:
  "l_maxAge (lru_deleteElement k c) = l_maxAge c \<and> l_maxSize (lru_deleteElement k c) = l_maxSize c"
  "l_maxAge (lru_maybeDeleteOldest now c) = l_maxAge c \<and> l_maxSize (lru_maybeDeleteOldest now c) = l_maxSize c"
  by (auto simp: lru_deleteElement_def lru_maybeDeleteOldest_def Let_def split: option.split)

lemma lru_get_config:
  "l_maxAge (snd (lru_get now k c)) = l_maxAge c \<and> l_maxSize (snd (lru_get now k c)) = l_maxSize c"
  by (simp add: lru_get_def lru_config Let_def split: option.split)

lemma lru_set_config:
  "l_maxAge (lru_setWithExpire now k v e c) = l_maxAge c \<and> l_maxSize (lru_setWithExpire now k v e c) = l_maxSize c"
  "l_maxAge (lru_set now k v c) = l_maxAge c \<and> l_maxSize (lru_set now k v c) = l_maxSize c"
  by (simp_all add: lru_set_def lru_setWithExpire_def lru_config Let_def)

lemma lru_do_config: "l_maxAge (lru_do call c) = l_maxAge c \<and> l_maxSize (lru_do call c) = l_maxSize c"
proof (cases call)
  case (CGet now k)
  then show ?thesis using lru_get_config[of now k c] by (auto simp: lru_Get_def split: prod.split)
next
  case (CGetOrStore now k v)
  then show ?thesis using lru_get_config[of now k c]
    by (auto simp: lru_GetOrStore_def lru_set_config split: prod.split option.split)
next
  case (CCompute now k f)
  then show ?thesis using lru_get_config[of now k c]
    by (auto simp: lru_Compute_def Let_def lru_set_config lru_Delete_def lru_config split: prod.split)
qed (simp_all add: lru_set_config lru_config lru_Delete_def lru_Clear_def)

lemma lru_set_items:
  assumes dist: "distinct (map fst (l_items c))" and age: "l_maxAge c \<le> 0"
  shows "l_items (lru_set now k v c) =
    (if map_of (l_items c) k \<noteq> None then drop_key k (l_items c)
     else if 0 < l_maxSize c \<and> l_maxSize c \<le> int (length (l_items c)) then tl (l_items c)
     else l_items c) @ [(k, v, 0)]"
proof (cases "map_of (l_items c) k")
  case None
  let ?xs = "l_items c @ [(k, v, 0)]"
  have d: "distinct (map fst ?xs)" using dist None by (auto simp: map_of_eq_None_iff)
  obtain k0 v0 e0 xs where x: "?xs = (k0, v0, e0) # xs" by (cases ?xs) auto
  have drop: "drop_key k0 ?xs = xs" using d drop_key_hd[of "(k0, v0, e0)" xs] x by simp
  have full: "l_maxSize c < int (length ?xs) \<longleftrightarrow> l_maxSize c \<le> int (length (l_items c))" by auto
  have "map_of ?xs k0 = Some (v0, e0)" "fst (hd ?xs) = k0" using x by simp_all
  then have set: "l_items (lru_set now k v c) =
     (if 0 < l_maxSize c \<and> l_maxSize c \<le> int (length (l_items c)) then xs else ?xs)"
    using None age full drop
    by (cases "0 < l_maxSize c") (simp_all add: lru_set_def lru_setWithExpire_def lru_maybeDeleteOldest_def
      lru_deleteElement_def Let_def del: map_of_append)
  have "xs = tl (l_items c) @ [(k, v, 0)]" if "l_items c \<noteq> []"
    using x that by (cases "l_items c") auto
  moreover have "l_items c \<noteq> []" if "0 < l_maxSize c" "l_maxSize c \<le> int (length (l_items c))" using that by auto
  ultimately show ?thesis using set None by auto
next
  case (Some ve)
  then show ?thesis using age
    by (simp add: lru_set_def lru_setWithExpire_def lru_maybeDeleteOldest_def)
qed



section \<open>Caches whose entries do not expire\<close>

text \<open>The keys and values of a cache, least recent first, and what the calls do to them.\<close>

definition lru_pairs :: "('k, 'v) lru \<Rightarrow> ('k \<times> 'v) list" where
  "lru_pairs c = map (\<lambda>(k, v, e). (k, v)) (l_items c)"

lemma map_of_pairs: "map_of (map (\<lambda>(k, v, e). (k, v)) xs) k = map_option fst (map_of xs k)"
  by (induction xs) auto

lemma drop_key_pairs: "map (\<lambda>(k, v, e). (k, v)) (drop_key k xs) = drop_key k (map (\<lambda>(k, v, e). (k, v)) xs)"
  by (induction xs) (auto simp: drop_key_def)

lemma keys_pairs [simp]: "map fst (lru_pairs c) = map fst (l_items c)"
  by (simp add: lru_pairs_def comp_def case_prod_unfold)

lemma length_pairs [simp]: "length (lru_pairs c) = length (l_items c)"
  by (simp add: lru_pairs_def)

lemma lru_no_age [simp]: "l_maxAge c \<le> 0 \<Longrightarrow> lru_maybeDeleteOldest now c = c"
  by (simp add: lru_maybeDeleteOldest_def)

lemma lru_Get_pairs:
  assumes "l_maxAge c \<le> 0"
  shows "fst (lru_Get now k c) = map_of (lru_pairs c) k"
    and "lru_pairs (snd (lru_Get now k c)) =
      (case map_of (lru_pairs c) k of None \<Rightarrow> lru_pairs c | Some v \<Rightarrow> drop_key k (lru_pairs c) @ [(k, v)])"
  using assms by (auto simp: lru_Get_def lru_get_def lru_pairs_def map_of_pairs drop_key_pairs split: option.split)

lemma lru_Get_config: "l_maxAge (snd (lru_Get now k c)) = l_maxAge c \<and> l_maxSize (snd (lru_Get now k c)) = l_maxSize c"
  using lru_get_config[of now k c] by (auto simp: lru_Get_def split: prod.split)

lemma lru_Exist_pairs: "lru_Exist k c \<longleftrightarrow> map_of (lru_pairs c) k \<noteq> None"
  by (simp add: lru_Exist_def lru_pairs_def map_of_pairs)

lemma lru_Delete_pairs: "lru_pairs (lru_Delete k c) = drop_key k (lru_pairs c)"
proof (cases "map_of (l_items c) k")
  case None
  then have "map_of (lru_pairs c) k = None" by (simp add: lru_pairs_def map_of_pairs)
  then show ?thesis using None by (simp add: lru_Delete_def)
next
  case (Some ve)
  then show ?thesis by (cases ve) (simp add: lru_Delete_def lru_deleteElement_def lru_pairs_def drop_key_pairs)
qed

lemma lru_Delete_config: "l_maxAge (lru_Delete k c) = l_maxAge c \<and> l_maxSize (lru_Delete k c) = l_maxSize c"
  by (simp add: lru_Delete_def lru_config)

lemma lru_set_pairs:
  assumes "distinct (map fst (lru_pairs c))" "l_maxAge c \<le> 0" "map_of (lru_pairs c) k = None"
  shows "lru_pairs (lru_set now k v c) =
    (if 0 < l_maxSize c \<and> l_maxSize c \<le> int (length (lru_pairs c)) then tl (lru_pairs c) else lru_pairs c) @ [(k, v)]"
proof -
  have "map_of (l_items c) k = None" using assms(3) by (simp add: lru_pairs_def map_of_pairs)
  then show ?thesis using lru_set_items[of c now k v] assms(1,2) unfolding keys_pairs
    by (simp add: lru_pairs_def map_tl)
qed

end
