(* ===== verification/FakeIP.thy ===== *)
theory FakeIP
  imports Lru NetIP
begin

text \<open>
  The fake-IP pool of \<open>component/fakeip\<close>: an address of a reserved range stands for each host name.
  The Go interface \<open>store\<close> is a record of operations, so a pool works over any store; \<open>mem_store\<close>
  is the store of \<open>memory.go\<close>, two least-recently-used caches that must stay images of each other.
  The locale \<open>fake_store\<close> says what a pool needs of a store.
\<close>

section \<open>Addresses in order\<close>

text \<open>\<open>Next\<close>, \<open>Prev\<close> and \<open>Less\<close> of Go's \<open>netip.Addr\<close>; past either end is the zero address.\<close>

fun addr_Next :: "addr \<Rightarrow> addr" where
  "addr_Next NoAddr = NoAddr"
| "addr_Next (V4 w) = (if w + 1 = 0 then NoAddr else V4 (w + 1))"
| "addr_Next (V6 w z) = (if w + 1 = 0 then NoAddr else V6 (w + 1) z)"

fun addr_Prev :: "addr \<Rightarrow> addr" where
  "addr_Prev NoAddr = NoAddr"
| "addr_Prev (V4 w) = (if w = 0 then NoAddr else V4 (w - 1))"
| "addr_Prev (V6 w z) = (if w = 0 then NoAddr else V6 (w - 1) z)"

fun string_less :: "string \<Rightarrow> string \<Rightarrow> bool" where
  "string_less [] [] = False"
| "string_less [] (d # t) = True"
| "string_less (c # s) [] = False"
| "string_less (c # s) (d # t) =
     ((of_char c :: nat) < of_char d \<or> c = d \<and> string_less s t)"

fun addr_value :: "addr \<Rightarrow> int" where
  "addr_value NoAddr = 0"
| "addr_value (V4 w) = uint w"
| "addr_value (V6 w z) = uint w"

definition addr_Less :: "addr \<Rightarrow> addr \<Rightarrow> bool" where
  "addr_Less a b \<longleftrightarrow>
     addr_BitLen a < addr_BitLen b \<or> addr_BitLen a = addr_BitLen b \<and>
       (addr_value a < addr_value b \<or> addr_value a = addr_value b \<and> string_less (addr_zone a) (addr_zone b))"

text \<open>Addresses of one range: the same family, and no zone.\<close>

definition same_range :: "addr \<Rightarrow> addr \<Rightarrow> bool" where
  "same_range a b \<longleftrightarrow> addr_BitLen a = addr_BitLen b \<and> addr_zone a = [] \<and> addr_zone b = []"

lemma string_less_irrefl: "\<not> string_less s s"
  by (induction s) auto

lemma addr_Less_iff: "same_range a b \<Longrightarrow> addr_Less a b \<longleftrightarrow> addr_value a < addr_value b"
  using string_less_irrefl by (auto simp: addr_Less_def same_range_def)

lemma same_range_trans: "same_range a b \<Longrightarrow> same_range b c \<Longrightarrow> same_range a c"
  by (simp add: same_range_def)

lemma same_range_sym: "same_range a b \<Longrightarrow> same_range b a"
  by (simp add: same_range_def)

lemma uint_Suc:
  fixes w :: "'w::len word"
  assumes "w + 1 \<noteq> 0" shows "uint (w + 1) = uint w + 1"
proof -
  have "unat (w + 1) = Suc (unat w)" using assms unatSuc[of w] by (simp add: add.commute)
  from arg_cong[OF this, of int] show ?thesis by simp
qed

lemma Suc_not_0: "uint w < uint x \<Longrightarrow> w + 1 \<noteq> 0" for w x :: "'w::len word"
  using word_order.extremum[of x] by (auto simp: word_le_def eq_neg_iff_add_eq_0[symmetric])

lemma uint_pred:
  fixes w :: "'w::len word"
  assumes "w \<noteq> 0" shows "uint (w - 1) = uint w - 1"
proof -
  have "unat (w - 1) = unat w - 1" "0 < unat w" using assms by (simp_all add: unat_minus_one unat_gt_0)
  then have "int (unat (w - 1)) = int (unat w) - 1" by simp
  then show ?thesis by simp
qed

lemma map_leD: "m \<subseteq>\<^sub>m n \<Longrightarrow> m x = Some y \<Longrightarrow> n x = Some y"
  by (metis domI map_le_def)

lemma map_leI: "(\<And>x y. m x = Some y \<Longrightarrow> n x = Some y) \<Longrightarrow> m \<subseteq>\<^sub>m n"
  by (auto simp: map_le_def dom_def)

lemma addr_Next_range:
  "same_range a b \<Longrightarrow> addr_value a < addr_value b \<Longrightarrow>
     same_range (addr_Next a) b \<and> addr_value (addr_Next a) = addr_value a + 1"
  using Suc_not_0 by (cases a; cases b) (auto simp: same_range_def uint_Suc)

lemma addr_Next_valid:
  "addr_Next a \<noteq> NoAddr \<Longrightarrow>
     a \<noteq> NoAddr \<and> addr_BitLen (addr_Next a) = addr_BitLen a \<and> addr_zone (addr_Next a) = addr_zone a \<and>
     addr_value (addr_Next a) = addr_value a + 1"
  by (cases a) (auto split: if_splits simp: uint_Suc)

lemma addr_Prev_Next: "addr_Next a \<noteq> NoAddr \<Longrightarrow> addr_Prev (addr_Next a) = a"
  by (cases a) (auto split: if_splits)

lemma addr_value_inject: "same_range a b \<Longrightarrow> addr_value a = addr_value b \<Longrightarrow> a = b"
  by (cases a; cases b) (auto simp: same_range_def word_uint_eq_iff)

section \<open>The pool\<close>

record 's store_ops =
  s_GetByHost :: "string \<Rightarrow> 's \<Rightarrow> addr option \<times> 's"
  s_PutByHost :: "string \<Rightarrow> addr \<Rightarrow> 's \<Rightarrow> 's"
  s_GetByIP :: "addr \<Rightarrow> 's \<Rightarrow> string option \<times> 's"
  s_PutByIP :: "addr \<Rightarrow> string \<Rightarrow> 's \<Rightarrow> 's"
  s_DelByIP :: "addr \<Rightarrow> 's \<Rightarrow> 's"
  s_Exist :: "addr \<Rightarrow> 's \<Rightarrow> bool"
  s_CloneTo :: "'s \<Rightarrow> 's \<Rightarrow> 's"
  s_Flush :: "'s \<Rightarrow> bool \<times> 's" \<comment> \<open>whether it succeeded\<close>

record 's pool =
  p_gateway :: addr
  p_first :: addr
  p_last :: addr
  p_offset :: addr
  p_cycle :: bool
  p_ipnet :: ipprefix
  p_store :: 's

definition pool_get :: "'s store_ops \<Rightarrow> string \<Rightarrow> 's pool \<Rightarrow> addr \<times> 's pool" where
  "pool_get ops host p0 =
     (let p = p0\<lparr>p_offset := addr_Next (p_offset p0)\<rparr>;
          p = (if \<not> addr_Less (p_offset p) (p_last p) then p\<lparr>p_cycle := True, p_offset := p_first p\<rparr> else p);
          p = (if p_cycle p \<or> s_Exist ops (p_offset p) (p_store p)
               then p\<lparr>p_store := s_DelByIP ops (p_offset p) (p_store p)\<rparr> else p);
          p = p\<lparr>p_store := s_PutByIP ops (p_offset p) host (p_store p)\<rparr>
      in (p_offset p, p))"

definition pool_Lookup :: "'s store_ops \<Rightarrow> string \<Rightarrow> 's pool \<Rightarrow> addr \<times> 's pool" where
  "pool_Lookup ops host0 p0 =
     (let host = ToLower host0;
          (r, s) = s_GetByHost ops host (p_store p0);
          p = p0\<lparr>p_store := s\<rparr>
      in case r of
           Some ip \<Rightarrow> (ip, p)
         | None \<Rightarrow> let (ip, p) = pool_get ops host p
                   in (ip, p\<lparr>p_store := s_PutByHost ops host ip (p_store p)\<rparr>))"

definition pool_LookBack :: "'s store_ops \<Rightarrow> addr \<Rightarrow> 's pool \<Rightarrow> string option \<times> 's pool" where
  "pool_LookBack ops ip p = (let (r, s) = s_GetByIP ops ip (p_store p) in (r, p\<lparr>p_store := s\<rparr>))"

definition pool_Exist :: "'s store_ops \<Rightarrow> addr \<Rightarrow> 's pool \<Rightarrow> bool" where
  "pool_Exist ops ip p = s_Exist ops ip (p_store p)"

definition pool_Gateway :: "'s pool \<Rightarrow> addr" where "pool_Gateway p = p_gateway p"

definition pool_Broadcast :: "'s pool \<Rightarrow> addr" where "pool_Broadcast p = p_last p"

definition pool_IPNet :: "'s pool \<Rightarrow> ipprefix" where "pool_IPNet p = p_ipnet p"

definition pool_CloneFrom :: "'s store_ops \<Rightarrow> 's pool \<Rightarrow> 's pool \<Rightarrow> 's pool" where
  "pool_CloneFrom ops old p = p\<lparr>p_store := s_CloneTo ops (p_store old) (p_store p)\<rparr>"

definition pool_FlushFakeIP :: "'s store_ops \<Rightarrow> 's pool \<Rightarrow> bool \<times> 's pool" where
  "pool_FlushFakeIP ops p0 =
     (let (ok, s) = s_Flush ops (p_store p0); p = p0\<lparr>p_store := s\<rparr> in
      (ok, if ok then p\<lparr>p_cycle := False, p_offset := addr_Prev (p_first p)\<rparr> else p))"

text \<open>
  A store that persists (\<open>cachefileStore\<close>, over the bbolt database) keeps the pool's offset and
  cycle flag under two host names; \<open>persistent\<close> is the type assertion of the code.
\<close>

definition offsetKey :: string where "offsetKey = ''key-offset-fake-ip''"
definition cycleKey :: string where "cycleKey = ''key-cycle-fake-ip''"

definition pool_StoreState :: "bool \<Rightarrow> 's store_ops \<Rightarrow> 's pool \<Rightarrow> 's pool" where
  "pool_StoreState persistent ops p0 =
     (if persistent then
        let p = p0\<lparr>p_store := s_PutByHost ops offsetKey (p_offset p0) (p_store p0)\<rparr> in
        if p_cycle p then p\<lparr>p_store := s_PutByHost ops cycleKey (p_offset p) (p_store p)\<rparr> else p
      else p0)"

definition pool_restoreState :: "bool \<Rightarrow> 's store_ops \<Rightarrow> 's pool \<Rightarrow> 's pool" where
  "pool_restoreState persistent ops p0 =
     (if persistent then
        let (c, s) = s_GetByHost ops cycleKey (p_store p0);
            p = p0\<lparr>p_store := s, p_cycle := p_cycle p0 \<or> c \<noteq> None\<rparr>;
            (r, s) = s_GetByHost ops offsetKey (p_store p);
            p = p\<lparr>p_store := s\<rparr>
        in case r of
             Some offset \<Rightarrow>
               if pf_Contains (p_ipnet p) offset then p\<lparr>p_offset := offset\<rparr>
               else snd (pool_FlushFakeIP ops p)
           | None \<Rightarrow> if s_Exist ops (p_first p) (p_store p) then snd (pool_FlushFakeIP ops p) else p
      else p0)"

text \<open>\<open>New\<close>: the last address of a prefix is computed by the netipx package (\<open>lastIP\<close>).\<close>

definition pool_New ::
  "(ipprefix \<Rightarrow> addr) \<Rightarrow> bool \<Rightarrow> 's store_ops \<Rightarrow> 's \<Rightarrow> ipprefix \<Rightarrow> 's pool option" where
  "pool_New lastIP persistent ops store ipnet =
     (let hostAddr = pf_addr (pf_Masked ipnet);
          gateway = addr_Next hostAddr;
          first = addr_Next (addr_Next (addr_Next gateway));
          last_ip = lastIP ipnet
      in if \<not> addr_IsValid (pf_addr ipnet) \<or> \<not> addr_IsValid first \<or> \<not> addr_Less first last_ip then None
         else Some (pool_restoreState persistent ops
           \<lparr>p_gateway = gateway, p_first = first, p_last = last_ip, p_offset = addr_Prev first,
            p_cycle = False, p_ipnet = ipnet, p_store = store\<rparr>))"

section \<open>What a pool needs of a store\<close>

text \<open>
  \<open>tab s\<close> is the table of addresses in use. Reading a store keeps its table; a new pair is written
  by address first and then by name, and may push older pairs out.
\<close>

locale fake_store =
  fixes ops :: "'s store_ops" and sane :: "'s \<Rightarrow> bool" and tab :: "'s \<Rightarrow> addr \<Rightarrow> string option"
  assumes one_ip: "sane s \<Longrightarrow> tab s i = Some h \<Longrightarrow> tab s j = Some h \<Longrightarrow> i = j"
    and by_host: "sane s \<Longrightarrow> sane (snd (s_GetByHost ops h s)) \<and> tab (snd (s_GetByHost ops h s)) = tab s \<and>
      (fst (s_GetByHost ops h s) = Some i \<longleftrightarrow> tab s i = Some h)"
    and by_ip: "sane s \<Longrightarrow> sane (snd (s_GetByIP ops i s)) \<and> tab (snd (s_GetByIP ops i s)) = tab s \<and>
      fst (s_GetByIP ops i s) = tab s i"
    and exist: "sane s \<Longrightarrow> s_Exist ops i s \<longleftrightarrow> tab s i \<noteq> None"
    and del: "sane s \<Longrightarrow> sane (s_DelByIP ops i s) \<and> tab (s_DelByIP ops i s) = (tab s)(i := None)"
    and put: "sane s \<Longrightarrow> tab s i = None \<Longrightarrow> \<forall>j. tab s j \<noteq> Some h \<Longrightarrow>
      sane (s_PutByHost ops h i (s_PutByIP ops i h s)) \<and>
      tab (s_PutByHost ops h i (s_PutByIP ops i h s)) i = Some h \<and>
      tab (s_PutByHost ops h i (s_PutByIP ops i h s)) \<subseteq>\<^sub>m (tab s)(i \<mapsto> h)"
    and flush: "sane s \<Longrightarrow> sane (snd (s_Flush ops s)) \<and>
      tab (snd (s_Flush ops s)) = (if fst (s_Flush ops s) then Map.empty else tab s)"

definition in_range :: "'s pool \<Rightarrow> addr \<Rightarrow> bool" where
  "in_range p i \<longleftrightarrow> same_range i (p_last p) \<and> addr_value (p_first p) \<le> addr_value i \<and>
     addr_value i < addr_value (p_last p)"

definition range_ok :: "'s pool \<Rightarrow> bool" where
  "range_ok p \<longleftrightarrow> same_range (p_first p) (p_last p) \<and> 0 < addr_value (p_first p) \<and>
     addr_value (p_first p) < addr_value (p_last p)"

definition offset_ok :: "'s pool \<Rightarrow> bool" where
  "offset_ok p \<longleftrightarrow> same_range (p_offset p) (p_last p) \<and> addr_value (p_first p) - 1 \<le> addr_value (p_offset p) \<and>
     addr_value (p_offset p) < addr_value (p_last p)"

definition pool_ok :: "('s \<Rightarrow> bool) \<Rightarrow> ('s \<Rightarrow> addr \<Rightarrow> string option) \<Rightarrow> 's pool \<Rightarrow> bool" where
  "pool_ok sane tab p \<longleftrightarrow> sane (p_store p) \<and> range_ok p \<and> offset_ok p \<and>
     (\<forall>i h. tab (p_store p) i = Some h \<longrightarrow> in_range p i)"

lemma addr_Prev_range:
  "same_range a b \<Longrightarrow> 0 < addr_value a \<Longrightarrow>
     same_range (addr_Prev a) b \<and> addr_value (addr_Prev a) = addr_value a - 1"
  by (cases a; cases b) (auto simp: same_range_def uint_pred)

definition next_offset :: "'s pool \<Rightarrow> addr" where
  "next_offset p = (if \<not> addr_Less (addr_Next (p_offset p)) (p_last p) then p_first p else addr_Next (p_offset p))"

lemma next_offset_in_range:
  assumes "range_ok p" "offset_ok p" shows "in_range p (next_offset p)"
  using assms addr_Next_range[of "p_offset p" "p_last p"] addr_Less_iff[of "addr_Next (p_offset p)" "p_last p"]
  by (auto simp: next_offset_def in_range_def range_ok_def offset_ok_def)

lemma in_range_offset_ok:
  "range_ok p \<Longrightarrow> in_range p (p_offset q) \<Longrightarrow> p_first q = p_first p \<Longrightarrow> p_last q = p_last p \<Longrightarrow> offset_ok q"
  by (auto simp: offset_ok_def in_range_def)

context fake_store
begin

lemma get_store:
  assumes "sane (p_store p)"
  obtains s where "pool_get ops h p = (next_offset p,
      p\<lparr>p_offset := next_offset p, p_cycle := p_cycle p \<or> \<not> addr_Less (addr_Next (p_offset p)) (p_last p),
        p_store := s_PutByIP ops (next_offset p) h s\<rparr>)"
    and "sane s" and "tab s = (tab (p_store p))(next_offset p := None)"
proof -
  let ?o = "next_offset p" and ?c = "p_cycle p \<or> \<not> addr_Less (addr_Next (p_offset p)) (p_last p)"
  define s where "s = (if ?c \<or> s_Exist ops ?o (p_store p) then s_DelByIP ops ?o (p_store p) else p_store p)"
  have "sane s" "tab s = (tab (p_store p))(?o := None)"
    using assms del[of "p_store p" ?o] exist[of "p_store p" ?o] by (auto simp: s_def)
  moreover have "pool_get ops h p = (?o, p\<lparr>p_offset := ?o, p_cycle := ?c, p_store := s_PutByIP ops ?o h s\<rparr>)"
    by (auto simp: pool_get_def Let_def next_offset_def s_def)
  ultimately show ?thesis using that by blast
qed

lemma lookup_step:
  assumes ok: "pool_ok sane tab p" and l: "pool_Lookup ops host p = (ip, p')"
  shows "pool_ok sane tab p' \<and> in_range p ip \<and> tab (p_store p') ip = Some (ToLower host) \<and>
    p_first p' = p_first p \<and> p_last p' = p_last p \<and> p_gateway p' = p_gateway p"
proof -
  let ?h = "ToLower host"
  obtain r s where g: "s_GetByHost ops ?h (p_store p) = (r, s)" by fastforce
  have s: "sane s" "tab s = tab (p_store p)" "\<And>i. r = Some i \<longleftrightarrow> tab s i = Some ?h"
    using by_host[of "p_store p" ?h] ok g by (auto simp: pool_ok_def)
  show ?thesis
  proof (cases r)
    case (Some i)
    then have "ip = i" "p' = p\<lparr>p_store := s\<rparr>" using l g by (simp_all add: pool_Lookup_def Let_def)
    then show ?thesis using Some s ok
      by (auto simp: pool_ok_def range_ok_def offset_ok_def in_range_def)
  next
    case None
    let ?q = "p\<lparr>p_store := s\<rparr>"
    have q: "next_offset ?q = next_offset p" by (simp add: next_offset_def)
    have "sane (p_store ?q)" using s(1) by simp
    then obtain t where "pool_get ops ?h ?q = (next_offset ?q,
        ?q\<lparr>p_offset := next_offset ?q, p_cycle := p_cycle ?q \<or> \<not> addr_Less (addr_Next (p_offset ?q)) (p_last ?q),
          p_store := s_PutByIP ops (next_offset ?q) ?h t\<rparr>)"
      "sane t" "tab t = (tab (p_store ?q))(next_offset ?q := None)" by (rule get_store)
    then have t: "pool_get ops ?h ?q = (next_offset p,
        p\<lparr>p_offset := next_offset p, p_cycle := p_cycle p \<or> \<not> addr_Less (addr_Next (p_offset p)) (p_last p),
          p_store := s_PutByIP ops (next_offset p) ?h t\<rparr>)"
      "sane t" "tab t = (tab s)(next_offset p := None)" by (simp_all add: q)
    let ?u = "s_PutByHost ops ?h (next_offset p) (s_PutByIP ops (next_offset p) ?h t)"
    have "\<forall>j. tab s j \<noteq> Some ?h" using s(3) None by auto
    then have u: "sane ?u" "tab ?u (next_offset p) = Some ?h" "tab ?u \<subseteq>\<^sub>m (tab t)(next_offset p \<mapsto> ?h)"
      using put[of t "next_offset p" ?h] t by auto
    have range: "in_range p (next_offset p)"
      using ok by (simp add: next_offset_in_range pool_ok_def)
    have "i = next_offset p \<or> tab (p_store p) i = Some h" if "tab ?u i = Some h" for i h
      using map_leD[OF u(3) that] t(3) s(2) by (auto split: if_splits)
    moreover have p': "ip = next_offset p" "p_store p' = ?u" "p_offset p' = next_offset p"
        "p_first p' = p_first p" "p_last p' = p_last p" "p_gateway p' = p_gateway p"
      using l g None t by (auto simp: pool_Lookup_def Let_def)
    ultimately have "pool_ok sane tab p'" using ok u(1) range
      by (auto simp: pool_ok_def range_ok_def offset_ok_def in_range_def)
    then show ?thesis using p' u(2) range by simp
  qed
qed

lemma lookback_step:
  assumes "pool_ok sane tab p"
  shows "pool_ok sane tab (snd (pool_LookBack ops i p)) \<and> fst (pool_LookBack ops i p) = tab (p_store p) i"
  using assms by_ip[of "p_store p" i]
  by (auto simp: pool_LookBack_def pool_ok_def range_ok_def offset_ok_def in_range_def split: prod.split)

lemma flush_step:
  assumes "pool_ok sane tab p" shows "pool_ok sane tab (snd (pool_FlushFakeIP ops p))"
  using assms flush[of "p_store p"] addr_Prev_range[of "p_first p" "p_last p"]
  by (auto simp: pool_FlushFakeIP_def Let_def pool_ok_def range_ok_def offset_ok_def in_range_def split: prod.split)

lemma lookup_stable:
  assumes ok: "pool_ok sane tab p" and ip: "tab (p_store p) ip = Some (ToLower host)"
  shows "fst (pool_Lookup ops host p) = ip"
proof -
  have "fst (s_GetByHost ops (ToLower host) (p_store p)) = Some ip"
    using by_host[of "p_store p" "ToLower host" ip] ok ip by (simp add: pool_ok_def)
  then show ?thesis by (auto simp: pool_Lookup_def Let_def split: prod.split)
qed

end

section \<open>The store in memory\<close>

text \<open>
  The caches of this store have no maximal age, so no call of them reads the clock; the model
  passes 0 for it.
\<close>

record mem_store =
  m_cacheIP :: "(string, addr) lru"
  m_cacheHost :: "(addr, string) lru"

definition mem_GetByHost :: "string \<Rightarrow> mem_store \<Rightarrow> addr option \<times> mem_store" where
  "mem_GetByHost host m =
     (let (r, c) = lru_Get 0 host (m_cacheIP m); m = m\<lparr>m_cacheIP := c\<rparr> in
      case r of
        Some ip \<Rightarrow> (Some ip, m\<lparr>m_cacheHost := snd (lru_Get 0 ip (m_cacheHost m))\<rparr>)
      | None \<Rightarrow> (None, m))"

definition mem_PutByHost :: "string \<Rightarrow> addr \<Rightarrow> mem_store \<Rightarrow> mem_store" where
  "mem_PutByHost host ip m = m\<lparr>m_cacheIP := lru_set 0 host ip (m_cacheIP m)\<rparr>"

definition mem_GetByIP :: "addr \<Rightarrow> mem_store \<Rightarrow> string option \<times> mem_store" where
  "mem_GetByIP ip m =
     (let (r, c) = lru_Get 0 ip (m_cacheHost m); m = m\<lparr>m_cacheHost := c\<rparr> in
      case r of
        Some host \<Rightarrow> (Some host, m\<lparr>m_cacheIP := snd (lru_Get 0 host (m_cacheIP m))\<rparr>)
      | None \<Rightarrow> (None, m))"

definition mem_PutByIP :: "addr \<Rightarrow> string \<Rightarrow> mem_store \<Rightarrow> mem_store" where
  "mem_PutByIP ip host m = m\<lparr>m_cacheHost := lru_set 0 ip host (m_cacheHost m)\<rparr>"

definition mem_DelByIP :: "addr \<Rightarrow> mem_store \<Rightarrow> mem_store" where
  "mem_DelByIP ip m =
     (let (r, c) = lru_Get 0 ip (m_cacheHost m); m = m\<lparr>m_cacheHost := c\<rparr>;
          m = (case r of Some host \<Rightarrow> m\<lparr>m_cacheIP := lru_Delete host (m_cacheIP m)\<rparr> | None \<Rightarrow> m)
      in m\<lparr>m_cacheHost := lru_Delete ip (m_cacheHost m)\<rparr>)"

definition mem_Exist :: "addr \<Rightarrow> mem_store \<Rightarrow> bool" where
  "mem_Exist ip m = lru_Exist ip (m_cacheHost m)"

definition mem_CloneTo :: "mem_store \<Rightarrow> mem_store \<Rightarrow> mem_store" where
  "mem_CloneTo m n = \<lparr>m_cacheIP = lru_CloneTo (m_cacheIP m) (m_cacheIP n),
     m_cacheHost = lru_CloneTo (m_cacheHost m) (m_cacheHost n)\<rparr>"

definition mem_FlushFakeIP :: "mem_store \<Rightarrow> bool \<times> mem_store" where
  "mem_FlushFakeIP m =
     (True, m\<lparr>m_cacheIP := lru_Clear (m_cacheIP m), m_cacheHost := lru_Clear (m_cacheHost m)\<rparr>)"

definition newMemoryStore :: "int \<Rightarrow> mem_store" where
  "newMemoryStore limit =
     \<lparr>m_cacheIP = lru_New 0 limit False False, m_cacheHost = lru_New 0 limit False False\<rparr>"

definition mem_ops :: "mem_store store_ops" where
  "mem_ops = \<lparr>s_GetByHost = mem_GetByHost, s_PutByHost = mem_PutByHost, s_GetByIP = mem_GetByIP,
     s_PutByIP = mem_PutByIP, s_DelByIP = mem_DelByIP, s_Exist = mem_Exist, s_CloneTo = mem_CloneTo,
     s_Flush = mem_FlushFakeIP\<rparr>"

text \<open>The two caches hold the same pairs, in the same order of use.\<close>

abbreviation swap_pairs :: "('a \<times> 'b) list \<Rightarrow> ('b \<times> 'a) list" where
  "swap_pairs xs \<equiv> map (\<lambda>(a, b). (b, a)) xs"

definition mem_table :: "mem_store \<Rightarrow> addr \<Rightarrow> string option" where
  "mem_table m i = map_of (lru_pairs (m_cacheHost m)) i"

definition mem_sane :: "mem_store \<Rightarrow> bool" where
  "mem_sane m \<longleftrightarrow> lru_pairs (m_cacheIP m) = swap_pairs (lru_pairs (m_cacheHost m)) \<and>
     distinct (map fst (lru_pairs (m_cacheHost m))) \<and> distinct (map snd (lru_pairs (m_cacheHost m))) \<and>
     l_maxAge (m_cacheIP m) = 0 \<and> l_maxAge (m_cacheHost m) = 0 \<and>
     l_maxSize (m_cacheIP m) = l_maxSize (m_cacheHost m)"

lemma map_of_swap:
  "distinct (map fst xs) \<Longrightarrow> distinct (map snd xs) \<Longrightarrow>
     map_of (swap_pairs xs) b = Some a \<longleftrightarrow> map_of xs a = Some b"
proof -
  assume d: "distinct (map fst xs)" "distinct (map snd xs)"
  have "distinct (map fst (swap_pairs xs))" using d(2) by (simp add: comp_def case_prod_unfold)
  then show ?thesis using d(1) by (auto simp: map_of_eq_Some_iff)
qed

lemma drop_key_swap:
  assumes d: "distinct (map fst xs)" "distinct (map snd xs)" and m: "map_of xs a = Some b"
  shows "drop_key b (swap_pairs xs) = swap_pairs (drop_key a xs)"
proof -
  have "snd x \<noteq> b \<longleftrightarrow> fst x \<noteq> a" if "x \<in> set xs" for x
  proof -
    have x: "map_of xs (fst x) = Some (snd x)" using that d(1) by simp
    have "map_of (swap_pairs xs) b = Some a" using map_of_swap[OF d] m by blast
    moreover have "map_of (swap_pairs xs) (snd x) = Some (fst x)" using map_of_swap[OF d] x by blast
    ultimately show ?thesis using x m by auto
  qed
  then have "filter (\<lambda>x. snd x \<noteq> b) xs = filter (\<lambda>x. fst x \<noteq> a) xs" by (rule filter_cong[OF refl])
  then show ?thesis by (simp add: drop_key_def filter_map comp_def case_prod_unfold)
qed

lemma drop_key_distinct_snd: "distinct (map snd xs) \<Longrightarrow> distinct (map snd (drop_key k xs))"
  by (simp add: drop_key_def distinct_map inj_on_def)

lemma drop_key_snd:
  assumes "distinct (map fst xs)" "distinct (map snd xs)" "map_of xs a = Some b"
  shows "b \<notin> snd ` set (drop_key a xs)"
  using arg_cong[OF drop_key_swap[OF assms], of "\<lambda>ys. fst ` set ys"] drop_key_fst[of b "swap_pairs xs"]
  by (simp add: image_comp comp_def case_prod_unfold)

text \<open>Using a pair moves it to the recent end of both caches.\<close>

lemma mem_sane_move:
  assumes "mem_sane m" "map_of (lru_pairs (m_cacheHost m)) i = Some h"
    and "lru_pairs (m_cacheHost n) = drop_key i (lru_pairs (m_cacheHost m)) @ [(i, h)]"
    and "lru_pairs (m_cacheIP n) = drop_key h (lru_pairs (m_cacheIP m)) @ [(h, i)]"
    and "l_maxAge (m_cacheIP n) = 0" "l_maxAge (m_cacheHost n) = 0"
    and "l_maxSize (m_cacheIP n) = l_maxSize (m_cacheHost n)"
  shows "mem_sane n \<and> mem_table n = mem_table m"
proof -
  let ?xs = "lru_pairs (m_cacheHost m)"
  have d: "distinct (map fst ?xs)" "distinct (map snd ?xs)" using assms(1) by (simp_all add: mem_sane_def)
  have "lru_pairs (m_cacheIP n) = swap_pairs (lru_pairs (m_cacheHost n))"
    using assms drop_key_swap[OF d assms(2)] by (simp add: mem_sane_def)
  moreover have "map_of (drop_key i ?xs @ [(i, h)]) j = map_of ?xs j" for j
    using assms(2) by (simp add: map_add_def map_of_drop_key split: option.split)
  then have "mem_table n = mem_table m" by (simp add: mem_table_def fun_eq_iff assms(3))
  ultimately show ?thesis
    using assms d drop_key_distinct[OF d(1), of i] drop_key_distinct_snd[OF d(2), of i] drop_key_snd[OF d assms(2)]
      drop_key_fst[of i ?xs]
    by (simp add: mem_sane_def del: drop_key_distinct)
qed

lemma mem_swap:
  assumes "mem_sane m"
  shows "map_of (lru_pairs (m_cacheIP m)) h = Some i \<longleftrightarrow> mem_table m i = Some h"
  using assms map_of_swap[of "lru_pairs (m_cacheHost m)" h i] by (simp add: mem_sane_def mem_table_def)

lemma mem_by_host:
  assumes "mem_sane m"
  shows "mem_sane (snd (mem_GetByHost h m)) \<and> mem_table (snd (mem_GetByHost h m)) = mem_table m \<and>
    (fst (mem_GetByHost h m) = Some i \<longleftrightarrow> mem_table m i = Some h)"
proof -
  obtain r c where g: "lru_Get 0 h (m_cacheIP m) = (r, c)" by fastforce
  have age: "l_maxAge (m_cacheIP m) \<le> 0" "l_maxAge (m_cacheHost m) \<le> 0" using assms by (simp_all add: mem_sane_def)
  have r: "r = map_of (lru_pairs (m_cacheIP m)) h" using lru_Get_pairs(1)[OF age(1), of 0 h] g by simp
  have c: "lru_pairs c = (case r of None \<Rightarrow> lru_pairs (m_cacheIP m) | Some v \<Rightarrow> drop_key h (lru_pairs (m_cacheIP m)) @ [(h, v)])"
    "l_maxAge c = l_maxAge (m_cacheIP m)" "l_maxSize c = l_maxSize (m_cacheIP m)"
    using lru_Get_pairs(2)[OF age(1), of 0 h] lru_Get_config[of 0 h "m_cacheIP m"] g r by simp_all
  have val: "fst (mem_GetByHost h m) = r" by (simp add: mem_GetByHost_def g Let_def split: option.split)
  have "mem_sane (snd (mem_GetByHost h m)) \<and> mem_table (snd (mem_GetByHost h m)) = mem_table m"
  proof (cases r)
    case None
    then show ?thesis using assms c by (simp add: mem_GetByHost_def g mem_sane_def mem_table_def fun_eq_iff)
  next
    case (Some ip)
    then have ip: "map_of (lru_pairs (m_cacheHost m)) ip = Some h" using mem_swap[OF assms, of h ip] r
      by (simp add: mem_table_def)
    show ?thesis
    proof (rule mem_sane_move[OF assms ip])
      show "lru_pairs (m_cacheHost (snd (mem_GetByHost h m))) = drop_key ip (lru_pairs (m_cacheHost m)) @ [(ip, h)]"
        using Some ip lru_Get_pairs(2)[OF age(2), of 0 ip] by (simp add: mem_GetByHost_def g)
    qed (use Some assms c lru_Get_config[of 0 ip "m_cacheHost m"] in \<open>simp_all add: mem_GetByHost_def g mem_sane_def\<close>)
  qed
  then show ?thesis using val r mem_swap[OF assms, of h i] by simp
qed

lemma mem_by_ip:
  assumes "mem_sane m"
  shows "mem_sane (snd (mem_GetByIP i m)) \<and> mem_table (snd (mem_GetByIP i m)) = mem_table m \<and>
    fst (mem_GetByIP i m) = mem_table m i"
proof -
  obtain r c where g: "lru_Get 0 i (m_cacheHost m) = (r, c)" by fastforce
  have age: "l_maxAge (m_cacheIP m) \<le> 0" "l_maxAge (m_cacheHost m) \<le> 0" using assms by (simp_all add: mem_sane_def)
  have r: "r = map_of (lru_pairs (m_cacheHost m)) i" using lru_Get_pairs(1)[OF age(2), of 0 i] g by simp
  have c: "lru_pairs c = (case r of None \<Rightarrow> lru_pairs (m_cacheHost m) | Some v \<Rightarrow> drop_key i (lru_pairs (m_cacheHost m)) @ [(i, v)])"
    "l_maxAge c = l_maxAge (m_cacheHost m)" "l_maxSize c = l_maxSize (m_cacheHost m)"
    using lru_Get_pairs(2)[OF age(2), of 0 i] lru_Get_config[of 0 i "m_cacheHost m"] g r by simp_all
  have val: "fst (mem_GetByIP i m) = r" by (simp add: mem_GetByIP_def g Let_def split: option.split)
  have "mem_sane (snd (mem_GetByIP i m)) \<and> mem_table (snd (mem_GetByIP i m)) = mem_table m"
  proof (cases r)
    case None
    then show ?thesis using assms c by (simp add: mem_GetByIP_def g mem_sane_def mem_table_def fun_eq_iff)
  next
    case (Some h)
    then have h: "map_of (lru_pairs (m_cacheHost m)) i = Some h" using r by simp
    then have ip: "map_of (lru_pairs (m_cacheIP m)) h = Some i" using mem_swap[OF assms] by (simp add: mem_table_def)
    show ?thesis
    proof (rule mem_sane_move[OF assms h])
      show "lru_pairs (m_cacheIP (snd (mem_GetByIP i m))) = drop_key h (lru_pairs (m_cacheIP m)) @ [(h, i)]"
        using Some ip lru_Get_pairs(2)[OF age(1), of 0 h] by (simp add: mem_GetByIP_def g)
    qed (use Some assms c lru_Get_config[of 0 h "m_cacheIP m"] in \<open>simp_all add: mem_GetByIP_def g mem_sane_def\<close>)
  qed
  then show ?thesis using val r by (simp add: mem_table_def)
qed

lemma mem_del:
  assumes "mem_sane m"
  shows "mem_sane (mem_DelByIP i m) \<and> mem_table (mem_DelByIP i m) = (mem_table m)(i := None)"
proof -
  let ?xs = "lru_pairs (m_cacheHost m)"
  obtain r c where g: "lru_Get 0 i (m_cacheHost m) = (r, c)" by fastforce
  have d: "distinct (map fst ?xs)" "distinct (map snd ?xs)" and age: "l_maxAge (m_cacheHost m) \<le> 0"
    using assms by (simp_all add: mem_sane_def)
  have r: "map_of ?xs i = r" using lru_Get_pairs(1)[OF age, of 0 i] g by simp
  have c: "lru_pairs c = (case r of None \<Rightarrow> ?xs | Some v \<Rightarrow> drop_key i ?xs @ [(i, v)])"
    "l_maxAge c = l_maxAge (m_cacheHost m)" "l_maxSize c = l_maxSize (m_cacheHost m)"
    using lru_Get_pairs(2)[OF age, of 0 i] lru_Get_config[of 0 i "m_cacheHost m"] g r by simp_all
  have idem: "drop_key i (drop_key i ?xs @ [(i, v)]) = drop_key i ?xs" for v by (simp add: drop_key_def)
  have host: "lru_pairs (m_cacheHost (mem_DelByIP i m)) = drop_key i ?xs"
    using c r idem by (cases r) (simp_all add: mem_DelByIP_def Let_def g lru_Delete_pairs)
  have "lru_pairs (m_cacheIP (mem_DelByIP i m)) = swap_pairs (drop_key i ?xs)"
    using assms r drop_key_swap[OF d, of i]
    by (cases r) (simp_all add: mem_DelByIP_def Let_def g lru_Delete_pairs mem_sane_def)
  moreover have "l_maxAge (m_cacheIP (mem_DelByIP i m)) = 0" "l_maxAge (m_cacheHost (mem_DelByIP i m)) = 0"
    "l_maxSize (m_cacheIP (mem_DelByIP i m)) = l_maxSize (m_cacheHost (mem_DelByIP i m))"
    using assms c by (cases r; simp add: mem_DelByIP_def Let_def g lru_Delete_config mem_sane_def)+
  ultimately have "mem_sane (mem_DelByIP i m)"
    using host d drop_key_distinct[OF d(1)] drop_key_distinct_snd[OF d(2)]
    by (simp add: mem_sane_def del: drop_key_distinct keys_pairs)
  then show ?thesis by (simp add: host mem_table_def fun_eq_iff map_of_drop_key)
qed

lemma mem_put:
  assumes "mem_sane m" "mem_table m i = None" "\<forall>j. mem_table m j \<noteq> Some h"
  shows "mem_sane (mem_PutByHost h i (mem_PutByIP i h m)) \<and>
    mem_table (mem_PutByHost h i (mem_PutByIP i h m)) i = Some h \<and>
    mem_table (mem_PutByHost h i (mem_PutByIP i h m)) \<subseteq>\<^sub>m (mem_table m)(i \<mapsto> h)"
proof -
  let ?xs = "lru_pairs (m_cacheHost m)" and ?m = "mem_PutByHost h i (mem_PutByIP i h m)"
  let ?ys = "if 0 < l_maxSize (m_cacheHost m) \<and> l_maxSize (m_cacheHost m) \<le> int (length ?xs) then tl ?xs else ?xs"
  have d: "distinct (map fst ?xs)" "distinct (map snd ?xs)" and swap: "lru_pairs (m_cacheIP m) = swap_pairs ?xs"
    and age: "l_maxAge (m_cacheHost m) \<le> 0" "l_maxAge (m_cacheIP m) \<le> 0"
    and lim: "l_maxSize (m_cacheIP m) = l_maxSize (m_cacheHost m)" using assms(1) by (simp_all add: mem_sane_def)
  have i: "map_of ?xs i = None" using assms(2) by (simp add: mem_table_def)
  have h: "map_of (lru_pairs (m_cacheIP m)) h = None" using assms(3) mem_swap[OF assms(1), of h] by force
  have ds: "distinct (map fst (lru_pairs (m_cacheIP m)))" using d(2) swap by (simp add: comp_def case_prod_unfold)
  have host: "lru_pairs (m_cacheHost ?m) = ?ys @ [(i, h)]"
    using lru_set_pairs[OF d(1) age(1) i] by (simp add: mem_PutByHost_def mem_PutByIP_def)
  have ip: "lru_pairs (m_cacheIP ?m) = swap_pairs (?ys @ [(i, h)])"
    using lru_set_pairs[OF ds age(2) h, of 0 i] swap lim by (simp add: mem_PutByHost_def mem_PutByIP_def map_tl)
  have sub: "set ?ys \<subseteq> set ?xs" "distinct (map fst ?ys)" "distinct (map snd ?ys)"
    using d by (cases ?xs; auto)+
  have "i \<notin> fst ` set ?ys" using i sub(1) by (auto simp: map_of_eq_None_iff)
  moreover have "h \<notin> snd ` set ?ys" using h sub(1) swap by (force simp: map_of_eq_None_iff)
  moreover have "l_maxAge (m_cacheIP ?m) = 0" "l_maxAge (m_cacheHost ?m) = 0"
    "l_maxSize (m_cacheIP ?m) = l_maxSize (m_cacheHost ?m)"
    using assms(1) by (simp_all add: mem_PutByHost_def mem_PutByIP_def lru_set_config mem_sane_def)
  ultimately have "mem_sane ?m" using host ip sub by (simp add: mem_sane_def del: keys_pairs)
  moreover have "mem_table ?m \<subseteq>\<^sub>m (mem_table m)(i \<mapsto> h)"
  proof -
    have old: "map_of ?xs j = Some v" if "map_of ?ys j = Some v" for j v
      using map_of_SomeD[OF that] sub(1) d(1) by (simp add: subset_iff)
    have "((mem_table m)(i \<mapsto> h)) j = Some v" if "map_of (?ys @ [(i, h)]) j = Some v" for j v
    proof (cases "map_of ?ys j")
      case None
      then show ?thesis using that by (simp add: map_add_def split: if_splits)
    next
      case (Some u)
      then have "j \<noteq> i" using \<open>i \<notin> fst ` set ?ys\<close> map_of_eq_None_iff[of ?ys i] by auto
      then show ?thesis using Some that old by (auto simp: map_add_def mem_table_def)
    qed
    then show ?thesis by (intro map_leI) (simp only: mem_table_def[of ?m] host)
  qed
  moreover have "mem_table ?m i = Some h"
  proof -
    have "map_of ?ys i = None" using \<open>i \<notin> fst ` set ?ys\<close> by (simp only: map_of_eq_None_iff not_False_eq_True)
    then show ?thesis unfolding mem_table_def host map_of_append map_add_def by (simp only:) simp
  qed
  ultimately show ?thesis by blast
qed

lemma lru_Clear_pairs [simp]: "lru_pairs (lru_Clear c) = []" "l_maxAge (lru_Clear c) = l_maxAge c"
  "l_maxSize (lru_Clear c) = l_maxSize c"
  by (simp_all add: lru_Clear_def lru_pairs_def)

lemma mem_flush: "mem_sane m \<Longrightarrow> mem_sane (snd (mem_FlushFakeIP m)) \<and> mem_table (snd (mem_FlushFakeIP m)) = Map.empty"
  by (simp add: mem_FlushFakeIP_def mem_sane_def mem_table_def fun_eq_iff)

lemma mem_one_ip: "mem_sane m \<Longrightarrow> mem_table m i = Some h \<Longrightarrow> mem_table m j = Some h \<Longrightarrow> i = j"
  using mem_swap[of m h i] mem_swap[of m h j] by simp

lemma mem_flush_ok: "fst (mem_FlushFakeIP m)"
  by (simp add: mem_FlushFakeIP_def)

lemma mem_exist: "mem_Exist i m \<longleftrightarrow> mem_table m i \<noteq> None"
  by (simp add: mem_Exist_def lru_Exist_pairs mem_table_def)

interpretation mem: fake_store mem_ops mem_sane mem_table
  by unfold_locales (use mem_one_ip in \<open>auto simp: mem_ops_def mem_by_host mem_by_ip mem_del mem_put mem_flush
    mem_flush_ok mem_exist\<close>)

section \<open>Pools over the store in memory\<close>

datatype pool_call = KLookup string | KLookBack addr | KFlush

fun pool_do :: "'s store_ops \<Rightarrow> pool_call \<Rightarrow> 's pool \<Rightarrow> 's pool" where
  "pool_do ops (KLookup host) p = snd (pool_Lookup ops host p)"
| "pool_do ops (KLookBack ip) p = snd (pool_LookBack ops ip p)"
| "pool_do ops KFlush p = snd (pool_FlushFakeIP ops p)"

definition pool_range :: "'s pool \<Rightarrow> addr \<times> addr \<times> addr \<times> ipprefix" where
  "pool_range p = (p_first p, p_last p, p_gateway p, p_ipnet p)"

lemma pool_range_update [simp]:
  "pool_range (p\<lparr>p_store := s\<rparr>) = pool_range p" "pool_range (p\<lparr>p_offset := o'\<rparr>) = pool_range p"
  "pool_range (p\<lparr>p_cycle := c\<rparr>) = pool_range p"
  by (simp_all add: pool_range_def)

lemma pool_get_range: "pool_range (snd (pool_get ops h p)) = pool_range p"
  by (simp add: pool_get_def Let_def)

lemma pool_do_range: "pool_range (pool_do ops call p) = pool_range p"
proof (cases call)
  case (KLookup host)
  obtain r s where g: "s_GetByHost ops (ToLower host) (p_store p) = (r, s)" by fastforce
  obtain i q where q: "pool_get ops (ToLower host) (p\<lparr>p_store := s\<rparr>) = (i, q)" by fastforce
  have "pool_range q = pool_range p" using pool_get_range[of ops "ToLower host" "p\<lparr>p_store := s\<rparr>"] q by simp
  then show ?thesis using KLookup g q by (cases r) (simp_all add: pool_Lookup_def)
qed (simp_all add: pool_LookBack_def pool_FlushFakeIP_def Let_def split: prod.split)

lemma pool_fold_range: "pool_range (fold (pool_do ops) calls p) = pool_range p"
  by (induction calls arbitrary: p) (simp_all add: pool_do_range)

context fake_store
begin

lemma pool_do_ok: "pool_ok sane tab p \<Longrightarrow> pool_ok sane tab (pool_do ops call p)"
proof (cases call)
  case (KLookup host)
  assume "pool_ok sane tab p"
  moreover obtain ip q where "pool_Lookup ops host p = (ip, q)" by fastforce
  ultimately show ?thesis using KLookup lookup_step by fastforce
qed (simp_all add: lookback_step flush_step)

lemma pool_run_ok: "pool_ok sane tab p \<Longrightarrow> pool_ok sane tab (fold (pool_do ops) calls p)"
  by (induction calls arbitrary: p) (simp_all add: pool_do_ok)

lemma lookup_round_trip:
  assumes "pool_ok sane tab p" "pool_Lookup ops host p = (ip, p')"
  shows "fst (pool_LookBack ops ip p') = Some (ToLower host)"
    and "fst (pool_Lookup ops host p') = ip"
    and "fst (pool_LookBack ops j p') = Some (ToLower host) \<Longrightarrow> j = ip"
    and "in_range p ip"
proof -
  have ok: "pool_ok sane tab p'" and ip: "tab (p_store p') ip = Some (ToLower host)" and r: "in_range p ip"
    using lookup_step[OF assms] by simp_all
  have s: "sane (p_store p')" using ok by (simp add: pool_ok_def)
  show "fst (pool_LookBack ops ip p') = Some (ToLower host)" using lookback_step[OF ok] ip by simp
  show "fst (pool_Lookup ops host p') = ip" by (rule lookup_stable[OF ok ip])
  show "j = ip" if "fst (pool_LookBack ops j p') = Some (ToLower host)"
    using lookback_step[OF ok, of j] that by (intro one_ip[OF s _ ip]) simp
  show "in_range p ip" by (rule r)
qed

end

lemma pool_New_ok:
  assumes new: "pool_New lastIP False mem_ops (newMemoryStore limit) ipnet = Some p"
    and last: "same_range (pf_addr (pf_Masked ipnet)) (lastIP ipnet)"
  shows "pool_ok mem_sane mem_table p \<and> addr_value (p_gateway p) + 3 = addr_value (p_first p) \<and>
    p_last p = lastIP ipnet"
proof -
  let ?h = "pf_addr (pf_Masked ipnet)"
  let ?f = "addr_Next (addr_Next (addr_Next (addr_Next ?h)))"
  have f: "?f \<noteq> NoAddr" "addr_Less ?f (lastIP ipnet)" and p: "p = \<lparr>p_gateway = addr_Next ?h, p_first = ?f,
      p_last = lastIP ipnet, p_offset = addr_Prev ?f, p_cycle = False, p_ipnet = ipnet,
      p_store = newMemoryStore limit\<rparr>"
    using new by (auto simp: pool_New_def pool_restoreState_def Let_def addr_IsValid_def split: if_splits)
  have v: "same_range ?f (lastIP ipnet)" "addr_value (addr_Next ?h) + 3 = addr_value ?f" "0 \<le> addr_value ?h"
    "addr_value (addr_Next ?h) = addr_value ?h + 1"
    using addr_Next_valid[OF f(1)] addr_Next_valid[of "addr_Next (addr_Next ?h)"] addr_Next_valid[of "addr_Next ?h"]
      addr_Next_valid[of ?h] last by (auto simp: same_range_def) (cases ?h; simp)
  moreover have "addr_value ?f < addr_value (lastIP ipnet)" using addr_Less_iff[OF v(1)] f(2) by simp
  ultimately have "range_ok p" "offset_ok p"
    using addr_Prev_range[of ?f "lastIP ipnet"] by (auto simp: p range_ok_def offset_ok_def)
  moreover have "mem_sane (newMemoryStore limit)" "mem_table (newMemoryStore limit) = Map.empty"
    by (simp_all add: mem_sane_def newMemoryStore_def lru_New_def lru_pairs_def mem_table_def fun_eq_iff)
  ultimately show ?thesis using v by (simp add: pool_ok_def p)
qed


abbreviation demo_net :: ipprefix where
  "demo_net \<equiv> \<lparr>pf_addr = V4 0xC0A80001, pf_bits = 28\<rparr>"

abbreviation demo_last :: "ipprefix \<Rightarrow> addr" where
  "demo_last \<equiv> \<lambda>_. V4 0xC0A8000F"

abbreviation demo_pool :: "mem_store pool" where
  "demo_pool \<equiv> the (pool_New demo_last False mem_ops (newMemoryStore 3) demo_net)"


end
