(* ===== verification/FakeKeep.thy ===== *)
theory FakeKeep
  imports FakeIP
begin

text \<open>
  More on the pools of \<open>component/fakeip\<close>: how long an address stays with its host (a pool reuses an
  address when the range is used up, and its caches forget the pair used least recently), and what a
  pool takes back from a persistent store.
\<close>

section \<open>How long an address stays with its host\<close>

definition mem_recent :: "nat \<Rightarrow> addr \<Rightarrow> string \<Rightarrow> mem_store \<Rightarrow> bool" where
  "mem_recent k i h m \<longleftrightarrow> (i, h) \<in> set (take k (rev (lru_pairs (m_cacheHost m))))"

lemma take_filter: "x \<in> set (take k ys) \<Longrightarrow> P x \<Longrightarrow> x \<in> set (take k (filter P ys))"
proof (induction ys arbitrary: k)
  case (Cons y ys)
  show ?case
  proof (cases k)
    case (Suc j)
    consider "x = y" | "x \<in> set (take j ys)" using Cons.prems Suc by auto
    then show ?thesis
    proof cases
      case 2
      then have "x \<in> set (take j (filter P ys))" using Cons by blast
      moreover have "set (take j (filter P ys)) \<subseteq> set (take (Suc j) (filter P ys))" by (rule set_take_subset_set_take) simp
      ultimately show ?thesis using Suc by auto
    qed (use Suc Cons in simp)
  qed (use Cons in simp)
qed simp

lemma take_mono_Suc: "x \<in> set (take k ys) \<Longrightarrow> x \<in> set (take (Suc k) ys)"
  using set_take_subset_set_take[of k "Suc k" ys] by auto

lemma recent_drop: "(i, h) \<in> set (take k (rev xs)) \<Longrightarrow> i \<noteq> j \<Longrightarrow> (i, h) \<in> set (take k (rev (drop_key j xs)))"
  using take_filter[of "(i, h)" k "rev xs" "\<lambda>x. fst x \<noteq> j"] by (simp add: drop_key_def rev_filter)

lemma recent_move:
  assumes "distinct (map fst xs)" "(i, h) \<in> set (take k (rev xs))" "map_of xs j = Some v"
  shows "(i, h) \<in> set (take (Suc k) (rev (drop_key j xs @ [(j, v)])))"
proof (cases "i = j")
  case True
  have "(i, h) \<in> set xs" using assms(2) in_set_takeD by fastforce
  then show ?thesis using True assms(1,3) by simp
qed (simp add: recent_drop assms(2))

lemma recent_push:
  assumes "(i, h) \<in> set (take k (rev xs))" "b \<Longrightarrow> k < length xs"
  shows "(i, h) \<in> set (take (Suc k) (rev ((if b then tl xs else xs) @ [(j, v)])))"
proof (cases b)
  case True
  have "take k (rev (tl xs)) = take k (rev xs)" using assms(2)[OF True] by (cases xs) simp_all
  then show ?thesis using assms(1) True by simp
qed (simp add: assms(1))

lemma mem_GetByHost_pairs:
  assumes "mem_sane m"
  shows "lru_pairs (m_cacheHost (snd (mem_GetByHost h m))) = (case fst (mem_GetByHost h m) of
      None \<Rightarrow> lru_pairs (m_cacheHost m)
    | Some i \<Rightarrow> drop_key i (lru_pairs (m_cacheHost m)) @ [(i, h)])"
    and "l_maxSize (m_cacheHost (snd (mem_GetByHost h m))) = l_maxSize (m_cacheHost m)"
proof -
  have "map_of (lru_pairs (m_cacheHost m)) i = Some h" if "fst (mem_GetByHost h m) = Some i" for i
    using mem_by_host[OF assms, of h i] that by (simp add: mem_table_def)
  moreover have "l_maxAge (m_cacheHost m) \<le> 0" using assms by (simp add: mem_sane_def)
  ultimately show "lru_pairs (m_cacheHost (snd (mem_GetByHost h m))) = (case fst (mem_GetByHost h m) of
      None \<Rightarrow> lru_pairs (m_cacheHost m)
    | Some i \<Rightarrow> drop_key i (lru_pairs (m_cacheHost m)) @ [(i, h)])"
    by (auto simp: mem_GetByHost_def Let_def lru_Get_pairs split: prod.splits option.splits)
  show "l_maxSize (m_cacheHost (snd (mem_GetByHost h m))) = l_maxSize (m_cacheHost m)"
    by (simp add: mem_GetByHost_def Let_def lru_Get_config split: prod.split option.split)
qed

lemma mem_GetByIP_pairs:
  assumes "mem_sane m"
  shows "lru_pairs (m_cacheHost (snd (mem_GetByIP i m))) = (case map_of (lru_pairs (m_cacheHost m)) i of
      None \<Rightarrow> lru_pairs (m_cacheHost m)
    | Some h \<Rightarrow> drop_key i (lru_pairs (m_cacheHost m)) @ [(i, h)])"
    and "l_maxSize (m_cacheHost (snd (mem_GetByIP i m))) = l_maxSize (m_cacheHost m)"
proof -
  obtain r c where g: "lru_Get 0 i (m_cacheHost m) = (r, c)" by fastforce
  have age: "l_maxAge (m_cacheHost m) \<le> 0" using assms by (simp add: mem_sane_def)
  have "m_cacheHost (snd (mem_GetByIP i m)) = c" by (simp add: mem_GetByIP_def g Let_def split: option.split)
  then show "lru_pairs (m_cacheHost (snd (mem_GetByIP i m))) = (case map_of (lru_pairs (m_cacheHost m)) i of
      None \<Rightarrow> lru_pairs (m_cacheHost m)
    | Some h \<Rightarrow> drop_key i (lru_pairs (m_cacheHost m)) @ [(i, h)])"
    and "l_maxSize (m_cacheHost (snd (mem_GetByIP i m))) = l_maxSize (m_cacheHost m)"
    using lru_Get_pairs(2)[OF age, of 0 i] lru_Get_config[of 0 i "m_cacheHost m"] g by simp_all
qed

lemma mem_DelByIP_pairs:
  assumes "mem_sane m"
  shows "lru_pairs (m_cacheHost (mem_DelByIP i m)) = drop_key i (lru_pairs (m_cacheHost m))"
    and "l_maxSize (m_cacheHost (mem_DelByIP i m)) = l_maxSize (m_cacheHost m)"
proof -
  let ?xs = "lru_pairs (m_cacheHost m)"
  obtain r c where g: "lru_Get 0 i (m_cacheHost m) = (r, c)" by fastforce
  have age: "l_maxAge (m_cacheHost m) \<le> 0" using assms by (simp add: mem_sane_def)
  have c: "lru_pairs c = (case map_of ?xs i of None \<Rightarrow> ?xs | Some v \<Rightarrow> drop_key i ?xs @ [(i, v)])"
    "l_maxSize c = l_maxSize (m_cacheHost m)"
    using lru_Get_pairs(2)[OF age, of 0 i] lru_Get_config[of 0 i "m_cacheHost m"] g by simp_all
  have "m_cacheHost (mem_DelByIP i m) = lru_Delete i c" by (simp add: mem_DelByIP_def g Let_def split: option.split)
  moreover have "drop_key i (drop_key i ?xs @ [(i, v)]) = drop_key i ?xs" for v by (simp add: drop_key_def)
  ultimately show "lru_pairs (m_cacheHost (mem_DelByIP i m)) = drop_key i ?xs"
    and "l_maxSize (m_cacheHost (mem_DelByIP i m)) = l_maxSize (m_cacheHost m)"
    using c by (simp_all add: lru_Delete_pairs lru_Delete_config split: option.split)
qed

lemma mem_PutByIP_pairs:
  assumes "mem_sane m" "mem_table m i = None"
  shows "lru_pairs (m_cacheHost (mem_PutByIP i h m)) =
     (if 0 < l_maxSize (m_cacheHost m) \<and> l_maxSize (m_cacheHost m) \<le> int (length (lru_pairs (m_cacheHost m)))
      then tl (lru_pairs (m_cacheHost m)) else lru_pairs (m_cacheHost m)) @ [(i, h)]"
    and "l_maxSize (m_cacheHost (mem_PutByIP i h m)) = l_maxSize (m_cacheHost m)"
  using assms lru_set_pairs[of "m_cacheHost m" i 0 h]
  by (simp_all add: mem_PutByIP_def mem_sane_def mem_table_def lru_set_config)

lemmas mem_op_pairs = mem_GetByHost_pairs mem_GetByIP_pairs mem_DelByIP_pairs mem_PutByIP_pairs

text \<open>The offset as a number below the size of the range, and what an allocation does to it.\<close>

definition pool_span :: "'s pool \<Rightarrow> int" where
  "pool_span p = addr_value (p_last p) - addr_value (p_first p)"

definition pool_pos :: "'s pool \<Rightarrow> addr \<Rightarrow> int" where
  "pool_pos p i = addr_value i - addr_value (p_first p)"

lemma next_offset_pos:
  assumes "range_ok p" "in_range p (p_offset p)"
  shows "pool_pos p (next_offset p) = (pool_pos p (p_offset p) + 1) mod pool_span p"
proof -
  let ?o = "p_offset p"
  have n: "same_range (addr_Next ?o) (p_last p)" "addr_value (addr_Next ?o) = addr_value ?o + 1"
    using assms addr_Next_range[of ?o "p_last p"] by (simp_all add: in_range_def)
  have lo: "0 \<le> pool_pos p ?o" "pool_pos p ?o < pool_span p"
    using assms(2) by (simp_all add: in_range_def pool_pos_def pool_span_def)
  show ?thesis
  proof (cases "addr_Less (addr_Next ?o) (p_last p)")
    case True
    then have "pool_pos p ?o + 1 < pool_span p"
      using addr_Less_iff[OF n(1)] n(2) by (simp add: pool_pos_def pool_span_def)
    then show ?thesis using True n lo by (simp add: next_offset_def pool_pos_def)
  next
    case False
    then have "pool_pos p ?o + 1 = pool_span p"
      using addr_Less_iff[OF n(1)] n(2) lo by (simp add: pool_pos_def pool_span_def)
    then show ?thesis using False by (simp add: next_offset_def) (simp add: pool_pos_def)
  qed
qed

text \<open>
  \<open>kept n i h p\<close>: at most \<open>n\<close> allocations and uses of other pairs have followed the allocation of
  \<open>i\<close> to \<open>h\<close>.
\<close>

definition kept :: "nat \<Rightarrow> addr \<Rightarrow> string \<Rightarrow> mem_store pool \<Rightarrow> bool" where
  "kept n i h p \<longleftrightarrow> pool_ok mem_sane mem_table p \<and> in_range p (p_offset p) \<and> in_range p i \<and>
     mem_recent (Suc n) i h (p_store p) \<and>
     (\<exists>a \<le> n. pool_pos p (p_offset p) = (pool_pos p i + int a) mod pool_span p)"

lemma kept_table:
  assumes "kept n i h p" shows "mem_table (p_store p) i = Some h"
proof -
  let ?xs = "lru_pairs (m_cacheHost (p_store p))"
  have "(i, h) \<in> set ?xs" "distinct (map fst ?xs)"
    using assms in_set_takeD[of "(i, h)" "Suc n" "rev ?xs"]
    by (simp_all add: kept_def mem_recent_def pool_ok_def mem_sane_def)
  then show ?thesis unfolding mem_table_def by (rule map_of_is_SomeI[rotated])
qed

lemma kept_next:
  assumes k: "kept n i h p" and n: "int n + 1 < pool_span p"
  shows "next_offset p \<noteq> i"
proof
  assume eq: "next_offset p = i"
  obtain a where a: "a \<le> n" "pool_pos p (p_offset p) = (pool_pos p i + int a) mod pool_span p"
    using k by (auto simp: kept_def)
  have p: "range_ok p" "in_range p (p_offset p)" and r: "0 \<le> pool_pos p i" "pool_pos p i < pool_span p"
    using k by (auto simp: kept_def pool_ok_def in_range_def pool_pos_def pool_span_def)
  have "pool_pos p i = (pool_pos p i + (int a + 1)) mod pool_span p"
    using next_offset_pos[OF p] eq a(2) by (simp add: mod_simps ac_simps)
  then have "(pool_pos p i + (int a + 1)) mod pool_span p = pool_pos p i mod pool_span p"
    using r by (simp add: mod_pos_pos_trivial)
  then have "pool_span p dvd int a + 1" by (simp add: mod_eq_dvd_iff)
  then have "pool_span p \<le> int a + 1" by (rule zdvd_imp_le) simp
  then show False using a(1) n by simp
qed

lemma mem_ops_sel [simp]:
  "s_GetByHost mem_ops = mem_GetByHost" "s_PutByHost mem_ops = mem_PutByHost" "s_GetByIP mem_ops = mem_GetByIP"
  "s_PutByIP mem_ops = mem_PutByIP" "s_DelByIP mem_ops = mem_DelByIP" "s_Exist mem_ops = mem_Exist"
  "s_CloneTo mem_ops = mem_CloneTo" "s_Flush mem_ops = mem_FlushFakeIP"
  by (simp_all add: mem_ops_def)

lemma pool_get_eq:
  "pool_get ops h p =
    (let i = next_offset p; c = (p_cycle p \<or> \<not> addr_Less (addr_Next (p_offset p)) (p_last p)) in
     (i, p\<lparr>p_offset := i, p_cycle := c,
        p_store := s_PutByIP ops i h
          (if c \<or> s_Exist ops i (p_store p) then s_DelByIP ops i (p_store p) else p_store p)\<rparr>))"
  by (auto simp: pool_get_def next_offset_def Let_def)

lemma next_offset_store [simp]: "next_offset (p\<lparr>p_store := s\<rparr>) = next_offset p"
  by (simp add: next_offset_def)

text \<open>A host the pool does not know gets the next address, and its pair is the most recent one.\<close>

lemma lookup_new:
  assumes ok: "pool_ok mem_sane mem_table p" and new: "\<forall>i. mem_table (p_store p) i \<noteq> Some (ToLower host)"
  obtains s t b where "pool_Lookup mem_ops host p = (next_offset p, p\<lparr>p_offset := next_offset p,
      p_cycle := p_cycle p \<or> \<not> addr_Less (addr_Next (p_offset p)) (p_last p),
      p_store := mem_PutByHost (ToLower host) (next_offset p) (mem_PutByIP (next_offset p) (ToLower host) t)\<rparr>)"
    and "mem_sane t" "mem_table t (next_offset p) = None"
    and "t = (if b then mem_DelByIP (next_offset p) s else s)" "mem_sane s"
    and "lru_pairs (m_cacheHost s) = lru_pairs (m_cacheHost (p_store p))"
    and "l_maxSize (m_cacheHost s) = l_maxSize (m_cacheHost (p_store p))"
proof -
  let ?h = "ToLower host" and ?i = "next_offset p"
  let ?c = "p_cycle p \<or> \<not> addr_Less (addr_Next (p_offset p)) (p_last p)"
  have sane: "mem_sane (p_store p)" using ok by (simp add: pool_ok_def)
  define s where "s = snd (mem_GetByHost ?h (p_store p))"
  have none: "fst (mem_GetByHost ?h (p_store p)) = None"
    using mem_by_host[OF sane, of ?h] new by (cases "fst (mem_GetByHost ?h (p_store p))") auto
  then have g: "mem_GetByHost ?h (p_store p) = (None, s)" by (simp add: s_def prod_eq_iff)
  have s: "mem_sane s" "mem_table s = mem_table (p_store p)" using mem_by_host[OF sane, of ?h] by (simp_all add: s_def)
  define b where "b = (?c \<or> mem_Exist ?i s)"
  define t where "t = (if b then mem_DelByIP ?i s else s)"
  show thesis
  proof (rule that[of t b s])
    show "pool_Lookup mem_ops host p = (?i, p\<lparr>p_offset := ?i, p_cycle := ?c,
        p_store := mem_PutByHost ?h ?i (mem_PutByIP ?i ?h t)\<rparr>)"
      by (simp add: pool_Lookup_def pool_get_eq g Let_def next_offset_def t_def b_def)
    show "mem_sane t" "mem_table t ?i = None" using s(1) mem_del[OF s(1), of ?i] mem_exist[of ?i s]
      by (auto simp: t_def b_def)
    show "lru_pairs (m_cacheHost s) = lru_pairs (m_cacheHost (p_store p))"
      using mem_GetByHost_pairs(1)[OF sane, of ?h] none by (simp add: s_def)
    show "l_maxSize (m_cacheHost s) = l_maxSize (m_cacheHost (p_store p))"
      using mem_GetByHost_pairs(2)[OF sane, of ?h] by (simp add: s_def)
  qed (simp_all add: t_def s(1))
qed

abbreviation host_limit :: "mem_store pool \<Rightarrow> int" where
  "host_limit p \<equiv> l_maxSize (m_cacheHost (p_store p))"

lemma mem_PutByHost_host [simp]: "m_cacheHost (mem_PutByHost h i m) = m_cacheHost m"
  by (simp add: mem_PutByHost_def)

lemma kept_move:
  assumes k: "kept n i h p" and q: "pool_ok mem_sane mem_table q"
    and same: "pool_range q = pool_range p" "p_offset q = p_offset p"
    and xs: "lru_pairs (m_cacheHost (p_store q)) = lru_pairs (m_cacheHost (p_store p)) \<or>
      (\<exists>j v. map_of (lru_pairs (m_cacheHost (p_store p))) j = Some v \<and>
        lru_pairs (m_cacheHost (p_store q)) = drop_key j (lru_pairs (m_cacheHost (p_store p))) @ [(j, v)])"
  shows "kept (Suc n) i h q"
proof -
  let ?xs = "lru_pairs (m_cacheHost (p_store p))"
  have "distinct (map fst ?xs)" "(i, h) \<in> set (take (Suc n) (rev ?xs))"
    using k by (simp_all add: kept_def pool_ok_def mem_sane_def mem_recent_def)
  then have "mem_recent (Suc (Suc n)) i h (p_store q)"
    using xs take_mono_Suc[of "(i, h)" "Suc n" "rev ?xs"] recent_move[of ?xs i h "Suc n"]
    unfolding mem_recent_def by metis
  moreover have "in_range q j = in_range p j" "pool_pos q j = pool_pos p j" "pool_span q = pool_span p" for j
    using same(1) by (simp_all add: in_range_def pool_pos_def pool_span_def pool_range_def)
  ultimately show ?thesis using k q same(2) unfolding kept_def by (auto intro: le_SucI)
qed

lemma kept_lookup_new:
  assumes k: "kept n i h p" and n: "int n + 1 < pool_span p" "host_limit p \<le> 0 \<or> int n + 1 < host_limit p"
    and new: "\<forall>j. mem_table (p_store p) j \<noteq> Some (ToLower host)"
  shows "kept (Suc n) i h (snd (pool_Lookup mem_ops host p)) \<and>
    host_limit (snd (pool_Lookup mem_ops host p)) = host_limit p"
proof -
  let ?xs = "lru_pairs (m_cacheHost (p_store p))" and ?o = "next_offset p" and ?q = "snd (pool_Lookup mem_ops host p)"
  have ok: "pool_ok mem_sane mem_table p" and off: "in_range p (p_offset p)" using k by (simp_all add: kept_def)
  from lookup_new[OF ok new] obtain s t b where l: "pool_Lookup mem_ops host p = (?o, p\<lparr>p_offset := ?o,
      p_cycle := p_cycle p \<or> \<not> addr_Less (addr_Next (p_offset p)) (p_last p),
      p_store := mem_PutByHost (ToLower host) ?o (mem_PutByIP ?o (ToLower host) t)\<rparr>)"
    and t: "mem_sane t" "mem_table t ?o = None" "t = (if b then mem_DelByIP ?o s else s)" "mem_sane s"
    and s: "lru_pairs (m_cacheHost s) = ?xs" "l_maxSize (m_cacheHost s) = host_limit p" .
  have ne: "i \<noteq> ?o" using kept_next[OF k n(1)] by simp
  have r0: "(i, h) \<in> set (take (Suc n) (rev ?xs))" using k by (simp add: kept_def mem_recent_def)
  then have rt: "(i, h) \<in> set (take (Suc n) (rev (lru_pairs (m_cacheHost t))))"
    using recent_drop[OF r0 ne] unfolding t(3) by (cases b) (simp_all only: if_True if_False mem_DelByIP_pairs(1)[OF t(4)] s(1))
  have lt: "l_maxSize (m_cacheHost t) = host_limit p" using t(3,4) s(2) mem_DelByIP_pairs(2) by simp
  let ?m = "mem_PutByIP ?o (ToLower host) t"
  have "(i, h) \<in> set (take (Suc (Suc n)) (rev (lru_pairs (m_cacheHost ?m))))"
    unfolding mem_PutByIP_pairs(1)[OF t(1,2)]
    by (rule recent_push[OF rt]) (use n(2) lt in auto)
  then have rec: "mem_recent (Suc (Suc n)) i h (p_store ?q)" by (simp add: l mem_recent_def)
  have same: "in_range ?q j = in_range p j" "pool_pos ?q j = pool_pos p j" "pool_span ?q = pool_span p" for j
    by (simp_all add: l in_range_def pool_pos_def pool_span_def)
  have p: "range_ok p" "offset_ok p" using ok by (simp_all add: pool_ok_def)
  obtain a where a: "a \<le> n" "pool_pos p (p_offset p) = (pool_pos p i + int a) mod pool_span p"
    using k by (auto simp: kept_def)
  have "pool_pos ?q (p_offset ?q) = (pool_pos ?q i + int (Suc a)) mod pool_span ?q"
    using next_offset_pos[OF p(1) off] a(2) unfolding same by (simp add: l mod_simps ac_simps)
  moreover have "in_range ?q (p_offset ?q)" unfolding same using next_offset_in_range[OF p] by (simp add: l)
  moreover have "pool_ok mem_sane mem_table ?q" using mem.pool_do_ok[OF ok, of "KLookup host"] by simp
  moreover have "in_range ?q i" using k same by (simp add: kept_def)
  ultimately have "kept (Suc n) i h ?q" using rec a(1) unfolding kept_def by (meson Suc_le_mono)
  moreover have "host_limit ?q = host_limit p" using mem_PutByIP_pairs(2)[OF t(1,2)] lt by (simp add: l)
  ultimately show ?thesis ..
qed

lemma pool_store_range: "pool_range (snd (pool_LookBack ops j p)) = pool_range p"
  by (simp add: pool_LookBack_def split: prod.split)

lemma kept_step:
  assumes k: "kept n i h p" and n: "int n + 1 < pool_span p" "host_limit p \<le> 0 \<or> int n + 1 < host_limit p"
    and call: "call \<noteq> KFlush"
  shows "kept (Suc n) i h (pool_do mem_ops call p) \<and> host_limit (pool_do mem_ops call p) = host_limit p"
proof (cases call)
  case (KLookBack j)
  have sane: "mem_sane (p_store p)" and ok: "pool_ok mem_sane mem_table p" using k by (simp_all add: kept_def pool_ok_def)
  let ?q = "snd (pool_LookBack mem_ops j p)"
  have q: "p_store ?q = snd (mem_GetByIP j (p_store p))" "p_offset ?q = p_offset p"
    by (simp_all add: pool_LookBack_def split: prod.split)
  have "kept (Suc n) i h ?q"
  proof (rule kept_move[OF k _ pool_store_range q(2)])
    show "pool_ok mem_sane mem_table ?q" using mem.lookback_step[OF ok] by simp
  qed (auto simp: q(1) mem_GetByIP_pairs(1)[OF sane] split: option.split)
  then show ?thesis using KLookBack q mem_GetByIP_pairs(2)[OF sane] by simp
next
  case (KLookup host)
  have sane: "mem_sane (p_store p)" and ok: "pool_ok mem_sane mem_table p" using k by (simp_all add: kept_def pool_ok_def)
  show ?thesis
  proof (cases "fst (mem_GetByHost (ToLower host) (p_store p))")
    case None
    then have "\<forall>j. mem_table (p_store p) j \<noteq> Some (ToLower host)"
      using mem_by_host[OF sane, of "ToLower host"] by auto
    then show ?thesis using kept_lookup_new[OF k n] KLookup by simp
  next
    case (Some j)
    let ?q = "p\<lparr>p_store := snd (mem_GetByHost (ToLower host) (p_store p))\<rparr>"
    have q: "snd (pool_Lookup mem_ops host p) = ?q"
      using Some by (cases "mem_GetByHost (ToLower host) (p_store p)") (simp add: pool_Lookup_def)
    have "map_of (lru_pairs (m_cacheHost (p_store p))) j = Some (ToLower host)"
      using mem_by_host[OF sane, of "ToLower host" j] Some by (simp add: mem_table_def)
    then have "kept (Suc n) i h ?q"
      using mem.pool_do_ok[OF ok, of "KLookup host"] q Some
      by (intro kept_move[OF k]) (auto simp: mem_GetByHost_pairs(1)[OF sane])
    then show ?thesis using KLookup q mem_GetByHost_pairs(2)[OF sane] by simp
  qed
qed (use call in simp)

lemma kept_run:
  "kept n i h p \<Longrightarrow> KFlush \<notin> set calls \<Longrightarrow> int n + int (length calls) < pool_span p \<Longrightarrow>
     host_limit p \<le> 0 \<or> int n + int (length calls) < host_limit p \<Longrightarrow>
     kept (n + length calls) i h (fold (pool_do mem_ops) calls p)"
proof (induction calls arbitrary: n p)
  case (Cons c calls)
  let ?q = "pool_do mem_ops c p"
  have q: "kept (Suc n) i h ?q" "host_limit ?q = host_limit p"
    using kept_step[OF Cons.prems(1), of c] Cons.prems(2-4) by auto
  have "pool_span ?q = pool_span p" using pool_do_range[of mem_ops c p] by (simp add: pool_range_def pool_span_def)
  then show ?case using Cons.IH[OF q(1)] q(2) Cons.prems(2-4) by auto
qed simp

lemma kept_new:
  assumes ok: "pool_ok mem_sane mem_table p" and new: "\<forall>i. mem_table (p_store p) i \<noteq> Some (ToLower host)"
    and l: "pool_Lookup mem_ops host p = (ip, q)"
  shows "kept 0 ip (ToLower host) q" and "host_limit q = host_limit p"
proof -
  let ?o = "next_offset p"
  from lookup_new[OF ok new] obtain s t b where lu: "pool_Lookup mem_ops host p = (?o, p\<lparr>p_offset := ?o,
      p_cycle := p_cycle p \<or> \<not> addr_Less (addr_Next (p_offset p)) (p_last p),
      p_store := mem_PutByHost (ToLower host) ?o (mem_PutByIP ?o (ToLower host) t)\<rparr>)"
    and t: "mem_sane t" "mem_table t ?o = None" "t = (if b then mem_DelByIP ?o s else s)" "mem_sane s"
    and s: "l_maxSize (m_cacheHost s) = host_limit p" .
  have q: "ip = ?o" "p_offset q = ?o" "p_store q = mem_PutByHost (ToLower host) ?o (mem_PutByIP ?o (ToLower host) t)"
    "p_first q = p_first p" "p_last q = p_last p"
    using l[unfolded lu] by auto
  have p: "range_ok p" "offset_ok p" using ok by (simp_all add: pool_ok_def)
  have o: "in_range q ?o" using next_offset_in_range[OF p] by (simp add: in_range_def q)
  then have "0 \<le> pool_pos q ?o" "pool_pos q ?o < pool_span q" by (simp_all add: in_range_def pool_pos_def pool_span_def)
  moreover have "pool_ok mem_sane mem_table q" using mem.lookup_step[OF ok l] by simp
  moreover have "mem_recent (Suc 0) ?o (ToLower host) (p_store q)"
    by (simp add: q mem_recent_def mem_PutByIP_pairs(1)[OF t(1,2)])
  ultimately show "kept 0 ip (ToLower host) q" using o by (simp add: kept_def q(1,2) mod_pos_pos_trivial)
  have "l_maxSize (m_cacheHost t) = host_limit p" using t(3,4) s mem_DelByIP_pairs(2) by simp
  then show "host_limit q = host_limit p" using mem_PutByIP_pairs(2)[OF t(1,2)] by (simp add: q)
qed

lemma limit_do:
  assumes ok: "pool_ok mem_sane mem_table p"
  shows "host_limit (pool_do mem_ops call p) = host_limit p"
proof (cases call)
  case (KLookup host)
  have sane: "mem_sane (p_store p)" using ok by (simp add: pool_ok_def)
  show ?thesis
  proof (cases "fst (mem_GetByHost (ToLower host) (p_store p))")
    case None
    then have "\<forall>j. mem_table (p_store p) j \<noteq> Some (ToLower host)"
      using mem_by_host[OF sane, of "ToLower host"] by auto
    then show ?thesis using kept_new(2)[OF ok, of host] KLookup by (cases "pool_Lookup mem_ops host p") simp
  next
    case (Some j)
    then have "snd (pool_Lookup mem_ops host p) = p\<lparr>p_store := snd (mem_GetByHost (ToLower host) (p_store p))\<rparr>"
      by (cases "mem_GetByHost (ToLower host) (p_store p)") (simp add: pool_Lookup_def)
    then show ?thesis using KLookup mem_GetByHost_pairs(2)[OF sane] by simp
  qed
next
  case (KLookBack j)
  have "p_store (snd (pool_LookBack mem_ops j p)) = snd (mem_GetByIP j (p_store p))"
    by (simp add: pool_LookBack_def split: prod.split)
  then show ?thesis using KLookBack mem_GetByIP_pairs(2) ok by (simp add: pool_ok_def)
qed (simp add: pool_FlushFakeIP_def mem_FlushFakeIP_def)

lemma limit_run:
  "pool_ok mem_sane mem_table p \<Longrightarrow> host_limit (fold (pool_do mem_ops) calls p) = host_limit p"
  by (induction calls arbitrary: p) (simp_all add: limit_do mem.pool_do_ok)

text \<open>
  C33. An address a memory pool has allocated to a new host stays that host's, whatever names and
  addresses are looked up next, for as many calls as there are further addresses in the range and
  entries in the caches; only then may the pool give it to another host or forget it.
\<close>

theorem fake_ip_stays:
  assumes "pool_New lastIP False mem_ops (newMemoryStore limit) ipnet = Some p0"
    and "same_range (pf_addr (pf_Masked ipnet)) (lastIP ipnet)"
    and "p = fold (pool_do mem_ops) calls p0"
    and "fst (mem_GetByHost (ToLower host) (p_store p)) = None"
    and "pool_Lookup mem_ops host p = (ip, p')"
    and "KFlush \<notin> set later"
    and "int (length later) < addr_value (pool_Broadcast p) - addr_value (p_first p)"
    and "limit \<le> 0 \<or> int (length later) < limit"
  shows "fst (pool_LookBack mem_ops ip (fold (pool_do mem_ops) later p')) = Some (ToLower host)"
proof -
  have p0: "pool_ok mem_sane mem_table p0" using pool_New_ok[OF assms(1,2)] by simp
  have ok: "pool_ok mem_sane mem_table p" unfolding assms(3) by (rule mem.pool_run_ok[OF p0])
  have sane: "mem_sane (p_store p)" using ok by (simp add: pool_ok_def)
  have new: "\<forall>i. mem_table (p_store p) i \<noteq> Some (ToLower host)"
    using mem_by_host[OF sane, of "ToLower host"] assms(4) by auto
  have "host_limit p0 = limit" using assms(1) by (auto simp: pool_New_def pool_restoreState_def Let_def
    newMemoryStore_def lru_New_def split: if_splits)
  then have "host_limit p' = limit"
    using kept_new(2)[OF ok new assms(5)] limit_run[OF p0, of calls] assms(3) by simp
  moreover have k0: "kept 0 ip (ToLower host) p'" by (rule kept_new(1)[OF ok new assms(5)])
  moreover have "pool_span p' = addr_value (pool_Broadcast p) - addr_value (p_first p)"
    using mem.lookup_step[OF ok assms(5)] by (simp add: pool_span_def pool_Broadcast_def)
  ultimately have k: "kept (length later) ip (ToLower host) (fold (pool_do mem_ops) later p')"
    using kept_run[OF k0 assms(6)] assms(7,8) by simp
  then have "pool_ok mem_sane mem_table (fold (pool_do mem_ops) later p')" by (simp add: kept_def)
  from mem.lookback_step[OF this, of ip] show ?thesis using kept_table[OF k] by simp
qed

text \<open>
  A pool over a persistent store takes back any stored offset its new range contains, even one
  below the first address it may hand out: after the range was changed so that the stored offset is
  just below the gateway, the next new host is given the gateway's address.
\<close>

theorem fake_ip_restore_gateway:
  assumes "\<And>h. s_GetByHost ops h store = (if h = offsetKey then Some off else None, store)"
    and "pool_New lastIP True ops store ipnet = Some p"
    and "pf_Contains ipnet off" and "addr_Next off = pool_Gateway p"
    and "ToLower host \<noteq> offsetKey"
  shows "fst (pool_Lookup ops host p) = pool_Gateway p"
proof -
  let ?h = "pf_addr (pf_Masked ipnet)"
  let ?f = "addr_Next (addr_Next (addr_Next (addr_Next ?h)))"
  have p: "?f \<noteq> NoAddr" "addr_Less ?f (lastIP ipnet)" "p_gateway p = addr_Next ?h" "p_last p = lastIP ipnet"
      "p_offset p = off" "p_store p = store"
    using assms(2,3) by (auto simp: pool_New_def pool_restoreState_def assms(1) Let_def addr_IsValid_def offsetKey_def
      cycleKey_def split: if_splits)
  have "addr_BitLen ?f = addr_BitLen (addr_Next ?h)" "addr_value ?f = addr_value (addr_Next ?h) + 3"
    using addr_Next_valid[OF p(1)] addr_Next_valid[of "addr_Next (addr_Next ?h)"] addr_Next_valid[of "addr_Next ?h"]
    by auto
  then have "addr_Less (addr_Next ?h) (lastIP ipnet)" using p(2) by (auto simp: addr_Less_def)
  then have "next_offset p = p_gateway p" using assms(4) p by (simp add: next_offset_def pool_Gateway_def)
  then show ?thesis using assms(1,5) p(6)
    by (simp add: pool_Lookup_def pool_get_eq Let_def pool_Gateway_def)
qed

theorem fake_ip_stays_witness:
  "fst (pool_LookBack mem_ops (V4 0xC0A80004) (fold (pool_do mem_ops) [KLookup ''b'', KLookup ''c'']
     (snd (pool_Lookup mem_ops ''A'' demo_pool)))) = Some ''a''"
proof -
  have "pool_New demo_last False mem_ops (newMemoryStore 3) demo_net = Some demo_pool" by code_simp
  moreover have "same_range (pf_addr (pf_Masked demo_net)) (demo_last demo_net)" by code_simp
  moreover have "demo_pool = fold (pool_do mem_ops) [] demo_pool" by simp
  moreover have "fst (mem_GetByHost (ToLower ''A'') (p_store demo_pool)) = None" by code_simp
  moreover have "fst (pool_Lookup mem_ops ''A'' demo_pool) = V4 0xC0A80004" by code_simp
  then have "pool_Lookup mem_ops ''A'' demo_pool = (V4 0xC0A80004, snd (pool_Lookup mem_ops ''A'' demo_pool))"
    by (metis prod.collapse)
  moreover have "KFlush \<notin> set [KLookup ''b'', KLookup ''c'']" by simp
  moreover have "int (length [KLookup ''b'', KLookup ''c'']) <
    addr_value (pool_Broadcast demo_pool) - addr_value (p_first demo_pool)" by code_simp
  moreover have "(3 :: int) \<le> 0 \<or> int (length [KLookup ''b'', KLookup ''c'']) < 3" by simp
  moreover have "ToLower ''A'' = ''a''" by code_simp
  ultimately show ?thesis using fake_ip_stays[of demo_last 3 demo_net] by metis
qed

theorem fake_ip_restore_gateway_witness:
  "let ops = mem_ops\<lparr>s_GetByHost := \<lambda>h s. (if h = offsetKey then Some (V4 0xC6120400) else None, s)\<rparr>;
       p = the (pool_New (\<lambda>_. V4 0xC61207FF) True ops (newMemoryStore 0) \<lparr>pf_addr = V4 0xC6120401, pf_bits = 22\<rparr>)
   in fst (pool_Lookup ops ''example.org'' p) = pool_Gateway p \<and> pool_Gateway p = V4 0xC6120401"
  (is "let ops = ?ops; p = _ ?ops in _")
proof -
  let ?p = "the (pool_New (\<lambda>_. V4 0xC61207FF) True ?ops (newMemoryStore 0) \<lparr>pf_addr = V4 0xC6120401, pf_bits = 22\<rparr>)"
  have new: "pool_New (\<lambda>_. V4 0xC61207FF) True ?ops (newMemoryStore 0) \<lparr>pf_addr = V4 0xC6120401, pf_bits = 22\<rparr> = Some ?p"
    by code_simp
  have g: "pool_Gateway ?p = V4 0xC6120401" by code_simp
  have "fst (pool_Lookup ?ops ''example.org'' ?p) = pool_Gateway ?p"
  proof (rule fake_ip_restore_gateway[OF _ new])
    show "s_GetByHost ?ops h (newMemoryStore 0) = (if h = offsetKey then Some (V4 0xC6120400) else None, newMemoryStore 0)"
      for h by simp
    show "addr_Next (V4 0xC6120400) = pool_Gateway ?p" unfolding g by code_simp
  qed code_simp+
  then show ?thesis using g by simp
qed

end
