(* ===== verification/Enhancer.thy ===== *)
theory Enhancer
  imports FakeKeep SubRules
begin

text \<open>
  The DNS enhancer (\<open>dns/enhancer.go\<close>): the fake-IP pools of both families, the table of addresses
  seen in real answers, and the filter that decides which names get a fake address
  (\<open>component/fakeip/skipper.go\<close>, \<open>parseFakeIPRules\<close> of \<open>config/config.go\<close>); and the handler that
  answers with fake addresses (\<open>withFakeIP\<close> of \<open>dns/middleware.go\<close>). A nil pool is \<open>None\<close>. DNS messages
  belong to a library; an answer here is what the handler decides.
\<close>

section \<open>The filter\<close>

definition UseFakeIP :: string where "UseFakeIP = ''fake-ip''"
definition UseRealIP :: string where "UseRealIP = ''real-ip''"

record skipper =
  sk_Rules :: "rule list"
  sk_Host :: "(string \<Rightarrow> bool) list"
  sk_Mode :: filter_mode

definition no_helper :: helper where
  "no_helper = \<lparr>h_ResolveIP = None, h_FindProcess = None, h_CheckPassRule = None\<rparr>"

definition host_state :: "string \<Rightarrow> mstate" where
  "host_state domain = \<lparr>ms_md = metadata_zero\<lparr>md_Host := domain\<rparr>, ms_resolved = False, ms_attempt = False\<rparr>"

fun skip_rules :: "world \<Rightarrow> nat \<Rightarrow> rule list \<Rightarrow> mstate \<Rightarrow> bool outcome" where
  "skip_rules W n [] s = Ret False"
| "skip_rules W n (rule # rules) s =
     obind (rule_Match W n rule no_helper s) (\<lambda>(matched, action, s).
       if matched then Ret (action = UseRealIP) else skip_rules W n rules s)"

definition shouldSkipped :: "skipper \<Rightarrow> string \<Rightarrow> bool" where
  "shouldSkipped p domain \<longleftrightarrow> (\<exists>matches \<in> set (sk_Host p). matches domain)"

definition ShouldSkipped :: "world \<Rightarrow> nat \<Rightarrow> skipper \<Rightarrow> string \<Rightarrow> bool outcome" where
  "ShouldSkipped W n p domain =
     (if length (sk_Rules p) > 0 then skip_rules W n (sk_Rules p) (host_state domain)
      else let should = shouldSkipped p domain in
        Ret (if sk_Mode p = FilterWhiteList then \<not> should else should))"

definition isDomainRule :: "rule_type \<Rightarrow> bool" where
  "isDomainRule rt \<longleftrightarrow> rt \<in> {RT_Domain, RT_DomainSuffix, RT_DomainKeyword, RT_DomainRegex,
     RT_DomainWildcard, RT_GEOSITE, RT_RuleSet}"

text \<open>The behaviours of rule providers that the check distinguishes are the strategies of the sets.\<close>

definition parse_fake_line ::
  "rule_env \<Rightarrow> (string \<times> strategy) list \<Rightarrow> string \<Rightarrow> rule option outcome" where
  "parse_fake_line E ruleProviders line =
     (let (tp, payload, action, params) = ParseRulePayload line True; action = ToLower action in
      if action \<noteq> UseFakeIP \<and> action \<noteq> UseRealIP then Ret None
      else if tp = ''RULE-SET'' \<and>
        (case map_of ruleProviders payload of None \<Rightarrow> True | Some (IPCIDRStrategy _) \<Rightarrow> True | Some _ \<Rightarrow> False)
      then Ret None
      else obind (ParseRule E (length line + 1) tp payload action params) (\<lambda>parsed. Ret (case parsed of
          None \<Rightarrow> None
        | Some r \<Rightarrow>
            if \<not> isDomainRule (rule_RuleType r) \<and> rule_RuleType r \<noteq> RT_MATCH then None else Some r)))"

fun parseFakeIPRules ::
  "rule_env \<Rightarrow> (string \<times> strategy) list \<Rightarrow> string list \<Rightarrow> rule list option outcome" where
  "parseFakeIPRules E ruleProviders [] = Ret (Some [])"
| "parseFakeIPRules E ruleProviders (line # ls) =
     obind (parse_fake_line E ruleProviders line) (\<lambda>parsed. case parsed of
         None \<Rightarrow> Ret None
       | Some r \<Rightarrow> obind (parseFakeIPRules E ruleProviders ls) (\<lambda>rs. Ret (map_option (\<lambda>rs. r # rs) rs)))"

section \<open>The enhancer\<close>

record 's enhancer =
  en_ipv6 :: bool
  en_mode :: dns_mode
  en_pool :: "'s pool option"
  en_pool6 :: "'s pool option"
  en_skipper :: "skipper option"
  en_TTL :: int
  en_mapping :: "(addr, string) lru option"
  en_useHosts :: bool

definition FakeIPEnabled :: "'s enhancer \<Rightarrow> bool" where
  "FakeIPEnabled h \<longleftrightarrow> en_mode h = DNSFakeIP"

definition MappingEnabled :: "'s enhancer \<Rightarrow> bool" where
  "MappingEnabled h \<longleftrightarrow> en_mode h = DNSFakeIP \<or> en_mode h = DNSMapping"

definition pool_test :: "('s pool \<Rightarrow> bool) \<Rightarrow> 's pool option \<Rightarrow> bool" where
  "pool_test P pool = (case pool of None \<Rightarrow> False | Some p \<Rightarrow> P p)"

definition IsExistFakeIP :: "'s store_ops \<Rightarrow> 's enhancer \<Rightarrow> addr \<Rightarrow> bool" where
  "IsExistFakeIP ops h ip \<longleftrightarrow> FakeIPEnabled h \<and>
     (pool_test (pool_Exist ops ip) (en_pool h) \<or> pool_test (pool_Exist ops ip) (en_pool6 h))"

definition IsFakeIP :: "'s enhancer \<Rightarrow> addr \<Rightarrow> bool" where
  "IsFakeIP h ip \<longleftrightarrow> FakeIPEnabled h \<and>
     (let inside = (\<lambda>p. pf_Contains (pool_IPNet p) ip \<and> ip \<noteq> pool_Gateway p \<and> ip \<noteq> pool_Broadcast p) in
      pool_test inside (en_pool h) \<or> pool_test inside (en_pool6 h))"

definition IsFakeBroadcastIP :: "'s enhancer \<Rightarrow> addr \<Rightarrow> bool" where
  "IsFakeBroadcastIP h ip \<longleftrightarrow> FakeIPEnabled h \<and>
     (pool_test (\<lambda>p. pool_Broadcast p = ip) (en_pool h) \<or> pool_test (\<lambda>p. pool_Broadcast p = ip) (en_pool6 h))"

definition opt_LookBack :: "'s store_ops \<Rightarrow> addr \<Rightarrow> 's pool option \<Rightarrow> string option \<times> 's pool option" where
  "opt_LookBack ops ip pool =
     (case pool of None \<Rightarrow> (None, None) | Some p \<Rightarrow> let (r, p) = pool_LookBack ops ip p in (r, Some p))"

text \<open>The mapping cache has no maximal age, so its calls do not read the clock.\<close>

definition FindHostByIP :: "'s store_ops \<Rightarrow> 's enhancer \<Rightarrow> addr \<Rightarrow> string option \<times> 's enhancer" where
  "FindHostByIP ops h ip =
     (let (r, pool) = opt_LookBack ops ip (en_pool h); h = h\<lparr>en_pool := pool\<rparr> in
      if r \<noteq> None then (r, h)
      else let (r, pool6) = opt_LookBack ops ip (en_pool6 h); h = h\<lparr>en_pool6 := pool6\<rparr> in
        if r \<noteq> None then (r, h)
        else case en_mapping h of
            None \<Rightarrow> (None, h)
          | Some c \<Rightarrow> let (r, c) = lru_Get 0 ip c in (r, h\<lparr>en_mapping := Some c\<rparr>))"

definition InsertHostByIP :: "addr \<Rightarrow> string \<Rightarrow> 's enhancer \<Rightarrow> 's enhancer" where
  "InsertHostByIP ip host h = h\<lparr>en_mapping := map_option (lru_set 0 ip host) (en_mapping h)\<rparr>"

definition opt_Flush :: "'s store_ops \<Rightarrow> 's pool option \<Rightarrow> bool \<times> 's pool option" where
  "opt_Flush ops pool =
     (case pool of None \<Rightarrow> (True, None) | Some p \<Rightarrow> let (ok, p) = pool_FlushFakeIP ops p in (ok, Some p))"

definition FlushFakeIP :: "'s store_ops \<Rightarrow> 's enhancer \<Rightarrow> bool \<times> 's enhancer" where
  "FlushFakeIP ops h =
     (let (ok, pool) = opt_Flush ops (en_pool h); (ok6, pool6) = opt_Flush ops (en_pool6 h) in
      (ok \<and> ok6, h\<lparr>en_pool := pool, en_pool6 := pool6\<rparr>))"

definition opt_clone :: "('a \<Rightarrow> 'a \<Rightarrow> 'a) \<Rightarrow> 'a option \<Rightarrow> 'a option \<Rightarrow> 'a option" where
  "opt_clone f old new = (case (new, old) of (Some n, Some o') \<Rightarrow> Some (f o' n) | _ \<Rightarrow> new)"

definition PatchFrom :: "'s store_ops \<Rightarrow> 's enhancer \<Rightarrow> 's enhancer \<Rightarrow> 's enhancer" where
  "PatchFrom ops old h =
     h\<lparr>en_mapping := opt_clone lru_CloneTo (en_mapping old) (en_mapping h),
       en_pool := opt_clone (pool_CloneFrom ops) (en_pool old) (en_pool h),
       en_pool6 := opt_clone (pool_CloneFrom ops) (en_pool6 old) (en_pool6 h)\<rparr>"

definition StoreFakePoolState :: "bool \<Rightarrow> 's store_ops \<Rightarrow> 's enhancer \<Rightarrow> 's enhancer" where
  "StoreFakePoolState persistent ops h =
     h\<lparr>en_pool := map_option (pool_StoreState persistent ops) (en_pool h),
       en_pool6 := map_option (pool_StoreState persistent ops) (en_pool6 h)\<rparr>"

definition NewEnhancer ::
  "bool \<Rightarrow> dns_mode \<Rightarrow> 's pool option \<Rightarrow> 's pool option \<Rightarrow> skipper option \<Rightarrow> int \<Rightarrow> bool \<Rightarrow> 's enhancer" where
  "NewEnhancer ipv6 mode pool pool6 skipper ttl useHosts =
     (let e = \<lparr>en_ipv6 = ipv6, en_mode = mode, en_pool = None, en_pool6 = None, en_skipper = None,
               en_TTL = 0, en_mapping = None, en_useHosts = useHosts\<rparr> in
      if mode \<noteq> DNSNormal then
        e\<lparr>en_pool := pool, en_pool6 := (if ipv6 then pool6 else None), en_skipper := skipper,
          en_TTL := (if ttl < 1 then 1 else ttl), en_mapping := Some (lru_New 0 4096 False False)\<rparr>
      else e)"

section \<open>Fake answers\<close>

datatype qtype = TypeA | TypeAAAA | TypeSVCB | TypeHTTPS | OtherQType int

datatype dns_answer =
  NextHandler \<comment> \<open>the next handler answers\<close>
| EmptyAnswer
| FakeAnswer addr "32 word" \<comment> \<open>the address and the TTL\<close>

definition trim_dots :: "string \<Rightarrow> string" where
  "trim_dots s = rev (dropWhile (\<lambda>c. c = CHR ''.'') (rev s))"

text \<open>The enhancer is in fake-IP mode, so it has a filter.\<close>

definition withFakeIP ::
  "world \<Rightarrow> nat \<Rightarrow> 's store_ops \<Rightarrow> skipper \<Rightarrow> string \<Rightarrow> qtype \<Rightarrow> 's enhancer \<Rightarrow> (dns_answer \<times> 's enhancer) outcome" where
  "withFakeIP W n ops skipper name qtype h =
     (let host = trim_dots name in
      obind (ShouldSkipped W n skipper host) (\<lambda>skip.
        Ret (if skip then (NextHandler, h)
          else case qtype of
            TypeA \<Rightarrow> (case en_pool h of
                None \<Rightarrow> (EmptyAnswer, h)
              | Some p \<Rightarrow> let (ip, p) = pool_Lookup ops host p in
                  (FakeAnswer ip (word_of_int (en_TTL h)), h\<lparr>en_pool := Some p\<rparr>))
          | TypeAAAA \<Rightarrow> (case en_pool6 h of
                None \<Rightarrow> (EmptyAnswer, h)
              | Some p \<Rightarrow> let (ip, p) = pool_Lookup ops host p in
                  (FakeAnswer ip (word_of_int (en_TTL h)), h\<lparr>en_pool6 := Some p\<rparr>))
          | TypeSVCB \<Rightarrow> (EmptyAnswer, h)
          | TypeHTTPS \<Rightarrow> (EmptyAnswer, h)
          | OtherQType _ \<Rightarrow> (NextHandler, h))))"

section \<open>What the answers mean\<close>


lemma clone_by_host:
  assumes "l_maxAge (m_cacheIP n) \<le> 0" "l_maxAge (m_cacheIP m) \<le> 0"
  shows "fst (mem_GetByHost h (mem_CloneTo m n)) = fst (mem_GetByHost h m)"
proof -
  have v: "fst (mem_GetByHost h s) = map_of (lru_pairs (m_cacheIP s)) h" if "l_maxAge (m_cacheIP s) \<le> 0" for s
    using lru_Get_pairs(1)[OF that, of 0 h]
    by (cases "lru_Get 0 h (m_cacheIP s)") (simp add: mem_GetByHost_def Let_def split: option.split)
  have "l_maxAge (m_cacheIP (mem_CloneTo m n)) \<le> 0" "lru_pairs (m_cacheIP (mem_CloneTo m n)) = lru_pairs (m_cacheIP m)"
    using assms(1) by (simp_all add: mem_CloneTo_def lru_CloneTo_def lru_pairs_def)
  then show ?thesis using v assms(2) by simp
qed

text \<open>
  A new enhancer takes over the pool of the old one whatever range that had: after a reload that
  changes the fake-IP range, a name the old pool knew still gets its old address, which the new
  enhancer does not recognise as a fake one.
\<close>

theorem patch_keeps_old_addresses:
  assumes "en_pool old = Some po" "mem_sane (p_store po)"
    and "fst (mem_GetByHost (ToLower (trim_dots name)) (p_store po)) = Some ip"
    and "pool_New lastIP False mem_ops (newMemoryStore limit) ipnet = Some p"
    and "h = NewEnhancer ipv6 DNSFakeIP (Some p) None (Some sk) ttl hosts"
    and "\<not> pf_Contains ipnet ip" and "ShouldSkipped W n sk (trim_dots name) = Ret False"
  shows "\<exists>h'. withFakeIP W n mem_ops sk name TypeA (PatchFrom mem_ops old h) =
      Ret (FakeAnswer ip (word_of_int (en_TTL h)), h') \<and> \<not> IsFakeIP h' ip"
proof -
  let ?host = "trim_dots name" and ?p = "pool_CloneFrom mem_ops po p"
  have p: "p_ipnet p = ipnet" "p_store p = newMemoryStore limit"
    using assms(4) by (auto simp: pool_New_def pool_restoreState_def Let_def split: if_splits)
  have h: "en_pool (PatchFrom mem_ops old h) = Some ?p" "en_pool6 (PatchFrom mem_ops old h) = None"
    "en_TTL (PatchFrom mem_ops old h) = en_TTL h"
    using assms(1,5) by (simp_all add: PatchFrom_def opt_clone_def NewEnhancer_def split: option.split)
  have "l_maxAge (m_cacheIP (p_store po)) \<le> 0" "l_maxAge (m_cacheIP (p_store p)) \<le> 0"
    using assms(2) p by (simp_all add: mem_sane_def newMemoryStore_def lru_New_def)
  then have "fst (mem_GetByHost (ToLower ?host) (p_store ?p)) = Some ip"
    using clone_by_host assms(3) by (simp add: pool_CloneFrom_def)
  then have l: "pool_Lookup mem_ops ?host ?p = (ip, ?p\<lparr>p_store := snd (mem_GetByHost (ToLower ?host) (p_store ?p))\<rparr>)"
    by (cases "mem_GetByHost (ToLower ?host) (p_store ?p)") (simp add: pool_Lookup_def)
  show ?thesis using h l assms(6,7) p
    by (simp add: withFakeIP_def IsFakeIP_def pool_test_def pool_IPNet_def pool_CloneFrom_def Let_def)
qed

abbreviation open_filter :: skipper where
  "open_filter \<equiv> \<lparr>sk_Rules = [], sk_Host = [], sk_Mode = FilterBlackList\<rparr>"

abbreviation wide_net :: ipprefix where
  "wide_net \<equiv> \<lparr>pf_addr = V4 0, pf_bits = 0\<rparr>"

abbreviation wide_pool :: "mem_store pool" where
  "wide_pool \<equiv> the (pool_New (\<lambda>_. V4 0xFFFFFFFF) False mem_ops (newMemoryStore 3) wide_net)"


theorem patch_keeps_old_addresses_witness:
  "\<forall>W n. let old = NewEnhancer False DNSFakeIP (Some (snd (pool_Lookup mem_ops ''foo'' demo_pool))) None
        (Some open_filter) 1 True;
      net = \<lparr>pf_addr = V4 0x0A000001, pf_bits = 28\<rparr>;
      h = NewEnhancer False DNSFakeIP (pool_New (\<lambda>_. V4 0x0A00000F) False mem_ops (newMemoryStore 3) net) None
        (Some open_filter) 1 True
    in \<exists>h'. withFakeIP W n mem_ops open_filter ''foo'' TypeA (PatchFrom mem_ops old h) =
        Ret (FakeAnswer (V4 0xC0A80004) 1, h') \<and> \<not> IsFakeIP h' (V4 0xC0A80004)"
proof (intro allI)
  fix W n
  let ?po = "snd (pool_Lookup mem_ops ''foo'' demo_pool)"
  let ?old = "NewEnhancer False DNSFakeIP (Some ?po) None (Some open_filter) 1 True"
  let ?net = "\<lparr>pf_addr = V4 0x0A000001, pf_bits = 28\<rparr>"
  let ?new = "pool_New (\<lambda>_. V4 0x0A00000F) False mem_ops (newMemoryStore 3) ?net"
  let ?h = "NewEnhancer False DNSFakeIP ?new None (Some open_filter) 1 True"
  have old: "en_pool ?old = Some ?po" by (simp add: NewEnhancer_def)
  have new: "?new = Some (the ?new)" by code_simp
  have sane: "mem_sane (p_store ?po)" by code_simp
  have ip: "fst (mem_GetByHost (ToLower (trim_dots ''foo'')) (p_store ?po)) = Some (V4 0xC0A80004)" by code_simp
  have h: "?h = NewEnhancer False DNSFakeIP (Some (the ?new)) None (Some open_filter) 1 True"
    using arg_cong[OF new, of "\<lambda>x. NewEnhancer False DNSFakeIP x None (Some open_filter) 1 True"] .
  have out: "\<not> pf_Contains ?net (V4 0xC0A80004)" by code_simp
  have skip: "ShouldSkipped W n open_filter (trim_dots ''foo'') = Ret False"
    by (simp add: ShouldSkipped_def shouldSkipped_def)
  have ttl: "word_of_int (en_TTL ?h) = (1 :: 32 word)" by (simp add: NewEnhancer_def)
  show "let old = ?old; net = ?net; h = NewEnhancer False DNSFakeIP
        (pool_New (\<lambda>_. V4 0x0A00000F) False mem_ops (newMemoryStore 3) net) None (Some open_filter) 1 True
    in \<exists>h'. withFakeIP W n mem_ops open_filter ''foo'' TypeA (PatchFrom mem_ops old h) =
        Ret (FakeAnswer (V4 0xC0A80004) 1, h') \<and> \<not> IsFakeIP h' (V4 0xC0A80004)"
    using patch_keeps_old_addresses[OF old sane ip new h out skip] unfolding ttl Let_def .
qed

end
