(* ===== verification/SniffTLS.thy ===== *)
theory SniffTLS
  imports Bytes
begin

text \<open>
  The TLS sniffer (\<open>component/sniffer/tls_sniffer.go\<close>): it looks for the server name in the prefix of
  a connection that has arrived so far. Its verdict is the name, a reason why there is none, or the
  number of bytes it needs to go on. Every read of the input is checked: a read out of bounds is
  \<open>Panic\<close>. The lengths stay far below the range of Go's \<open>int\<close>.
\<close>

section \<open>Verdicts\<close>

datatype sniff_err = ErrNoClue | ErrNotTLS | ErrNotClientHello | ErrNotHTTP | ErrHostIsIP | ErrOther

datatype sniff_verdict = Found string | Need int | Reject sniff_err

text \<open>A step of a sniffer ends with a verdict or goes on with a value.\<close>

type_synonym 'a step = "(sniff_verdict + 'a) outcome"

definition sbind :: "'a step \<Rightarrow> ('a \<Rightarrow> 'b step) \<Rightarrow> 'b step" where
  "sbind m f = obind m (\<lambda>r. case r of Inl v \<Rightarrow> Ret (Inl v) | Inr x \<Rightarrow> f x)"

definition stop :: "sniff_verdict \<Rightarrow> 'a step" where
  "stop v = Ret (Inl v)"

definition read :: "'a outcome \<Rightarrow> 'a step" where
  "read m = obind m (\<lambda>x. Ret (Inr x))"

lemma sbind_cong [fundef_cong]:
  "m = m' \<Longrightarrow> (\<And>x. m' = Ret (Inr x) \<Longrightarrow> f x = g x) \<Longrightarrow> sbind m f = sbind m' g"
  by (cases m') (auto simp: sbind_def split: sum.split)

lemma sbind_simps [simp]:
  "sbind (Ret (Inr x)) f = f x" "sbind (stop v) f = stop v" "sbind (read (Ret x)) f = f x"
  by (simp_all add: sbind_def stop_def read_def)

lemma sbind_assoc: "sbind (sbind m f) g = sbind m (\<lambda>x. sbind (f x) g)"
  by (cases m) (auto simp: sbind_def split: sum.split)

lemma sbind_Inr_iff: "sbind m f = Ret (Inr y) \<longleftrightarrow> (\<exists>x. m = Ret (Inr x) \<and> f x = Ret (Inr y))"
  by (cases m) (auto simp: sbind_def split: sum.splits)

lemma sbind_Inl_iff: "sbind m f = Ret (Inl v) \<longleftrightarrow> m = Ret (Inl v) \<or> (\<exists>x. m = Ret (Inr x) \<and> f x = Ret (Inl v))"
  by (cases m) (auto simp: sbind_def split: sum.splits)

lemma read_Inl [simp]: "read m \<noteq> Ret (Inl v)"
  by (cases m) (auto simp: read_def)

lemma read_Inr_iff [simp]: "read m = Ret (Inr x) \<longleftrightarrow> m = Ret x"
  by (cases m) (auto simp: read_def)

definition be16_at :: "byte list \<Rightarrow> int \<Rightarrow> int step" where
  "be16_at data i = sbind (read (get_at data i)) (\<lambda>a. sbind (read (get_at data (i + 1))) (\<lambda>b.
     Ret (Inr (uint a * 256 + uint b))))"

text \<open>The closure \<open>need\<close>.\<close>

definition need :: "int \<Rightarrow> byte list \<Rightarrow> int \<Rightarrow> unit step" where
  "need helloSize data len =
     (if len > helloSize then stop (Reject ErrNotClientHello)
      else if int (length data) < len then stop (Need len) else Ret (Inr ()))"

section \<open>The client hello\<close>

definition tlsHandshakeHeaderLen :: int where "tlsHandshakeHeaderLen = 4"
definition tlsRecordHeaderLen :: int where "tlsRecordHeaderLen = 5"
definition tlsMaxPlaintext :: int where "tlsMaxPlaintext = 2 ^ 14"

text \<open>The list of server names; the value is the offset behind it.\<close>

function names_loop :: "int \<Rightarrow> byte list \<Rightarrow> int \<Rightarrow> int \<Rightarrow> int step" where
  "names_loop helloSize data namesEnd offset =
     (if offset < namesEnd then
        sbind (need helloSize data (offset + 3)) (\<lambda>_.
        sbind (read (get_at data offset)) (\<lambda>nameType.
        sbind (be16_at data (offset + 1)) (\<lambda>nameLen.
          let nameEnd = offset + 3 + nameLen in
          if nameEnd > namesEnd then stop (Reject ErrNotClientHello)
          else sbind (need helloSize data nameEnd) (\<lambda>_.
            if nameType = 0 then
              sbind (read (slice_of data (offset + 3) nameEnd)) (\<lambda>bytes.
                let serverName = map char_of_byte bytes in
                if serverName \<noteq> [] \<and> last serverName = CHR ''.''
                then stop (Reject ErrNotClientHello) else stop (Found serverName))
            else names_loop helloSize data namesEnd nameEnd))))
      else Ret (Inr offset))"
  by pat_completeness auto

lemma be16_range: "be16_at data i = Ret (Inr n) \<Longrightarrow> 0 \<le> n \<and> n < 65536"
proof -
  have "uint a * 256 + uint b < 65536" for a b :: byte
    using uint_lt2p[of a] uint_lt2p[of b] by simp
  then show "be16_at data i = Ret (Inr n) \<Longrightarrow> 0 \<le> n \<and> n < 65536"
    by (auto simp: be16_at_def sbind_Inr_iff)
qed

termination names_loop
  by (relation "measure (\<lambda>(_, _, namesEnd, offset). nat (namesEnd - offset))") (auto dest: be16_range)


declare names_loop.simps [simp del]

lemma stop_Inr [simp]: "stop v \<noteq> Ret (Inr x)"
  by (simp add: stop_def)

lemma names_loop_Inr: "names_loop hs data e i = Ret (Inr j) \<Longrightarrow> i \<le> j"
proof (induction hs data e i rule: names_loop.induct)
  case (1 hs data e i)
  show ?case
  proof (cases "i < e")
    case True
    with "1.prems" obtain t n where *: "need hs data (i + 3) = Ret (Inr ())" "get_at data i = Ret t"
        "be16_at data (i + 1) = Ret (Inr n)" "\<not> i + 3 + n > e" "need hs data (i + 3 + n) = Ret (Inr ())"
        "t \<noteq> 0" "names_loop hs data e (i + 3 + n) = Ret (Inr j)"
      unfolding names_loop.simps[of hs data e i] by (auto simp: sbind_Inr_iff Let_def split: if_splits)
    have "i + 3 + n \<le> j" by (rule "1.IH"[OF True _ _ _ refl]) (use * in simp_all)
    then show ?thesis using be16_range[OF *(3)] by simp
  next
    case False
    with "1.prems" show ?thesis unfolding names_loop.simps[of hs data e i] by simp
  qed
qed

text \<open>The loop over the extensions.\<close>

function exts_loop :: "int \<Rightarrow> byte list \<Rightarrow> int \<Rightarrow> int \<Rightarrow> unit step" where
  "exts_loop helloSize data extensionsEnd offset =
     (if offset < extensionsEnd then
        sbind (need helloSize data (offset + 4)) (\<lambda>_.
        sbind (be16_at data offset) (\<lambda>extension.
        sbind (be16_at data (offset + 2)) (\<lambda>len.
          let extensionEnd = offset + 4 + len in
          if extensionEnd > extensionsEnd then stop (Reject ErrNotClientHello)
          else if extension = 0 then
            if len < 2 then stop (Reject ErrNotClientHello)
            else sbind (need helloSize data (offset + 4 + 2)) (\<lambda>_.
              sbind (be16_at data (offset + 4)) (\<lambda>namesLen.
                let namesEnd = offset + 6 + namesLen in
                if namesEnd \<noteq> extensionEnd then stop (Reject ErrNotClientHello)
                else sbind (names_loop helloSize data namesEnd (offset + 6)) (\<lambda>offset.
                  exts_loop helloSize data extensionsEnd offset)))
          else if extensionEnd = extensionsEnd then stop (Reject ErrNotTLS)
          else sbind (need helloSize data extensionEnd) (\<lambda>_.
            exts_loop helloSize data extensionsEnd extensionEnd))))
      else stop (Reject ErrNotTLS))"
  by pat_completeness auto

termination exts_loop
  by (relation "measure (\<lambda>(_, _, extensionsEnd, offset). nat (extensionsEnd - offset))")
    (auto dest!: be16_range names_loop_Inr)

declare exts_loop.simps [simp del]

definition clientHelloSize :: "byte list \<Rightarrow> int step" where
  "clientHelloSize data =
     (if int (length data) < tlsHandshakeHeaderLen then stop (Reject ErrNoClue)
      else sbind (read (get_at data 0)) (\<lambda>t. if t \<noteq> 1 then stop (Reject ErrNotClientHello)
        else sbind (read (get_at data 1)) (\<lambda>a. sbind (read (get_at data 2)) (\<lambda>b.
          sbind (read (get_at data 3)) (\<lambda>c.
            Ret (Inr (tlsHandshakeHeaderLen + (uint a * 65536 + uint b * 256 + uint c))))))))"

definition hello_body :: "int \<Rightarrow> byte list \<Rightarrow> unit step" where
  "hello_body helloSize data =
     (let offset = tlsHandshakeHeaderLen + 2 + 32 in
      sbind (need helloSize data (offset + 1)) (\<lambda>_.
      sbind (read (get_at data offset)) (\<lambda>sessionIDLen.
      if uint sessionIDLen > 32 then stop (Reject ErrNotClientHello)
      else let offset = offset + 1 in
      sbind (need helloSize data (offset + uint sessionIDLen)) (\<lambda>_.
      let offset = offset + uint sessionIDLen in
      sbind (need helloSize data (offset + 2)) (\<lambda>_.
      sbind (be16_at data offset) (\<lambda>cipherSuiteLen.
      if cipherSuiteLen mod 2 = 1 then stop (Reject ErrNotClientHello)
      else let offset = offset + 2 in
      sbind (need helloSize data (offset + cipherSuiteLen)) (\<lambda>_.
      let offset = offset + cipherSuiteLen in
      sbind (need helloSize data (offset + 1)) (\<lambda>_.
      sbind (read (get_at data offset)) (\<lambda>compressionMethodsLen.
      let offset = offset + 1 in
      sbind (need helloSize data (offset + uint compressionMethodsLen)) (\<lambda>_.
      let offset = offset + uint compressionMethodsLen in
      if offset = helloSize then stop (Reject ErrNotClientHello)
      else sbind (need helloSize data (offset + 2)) (\<lambda>_.
      sbind (be16_at data offset) (\<lambda>extensionsLength.
      let offset = offset + 2; extensionsEnd = offset + extensionsLength in
      if extensionsEnd \<noteq> helloSize then stop (Reject ErrNotClientHello)
      else exts_loop helloSize data extensionsEnd offset))))))))))))"

definition ReadClientHello :: "byte list \<Rightarrow> unit step" where
  "ReadClientHello data =
     (if length data = 0 then stop (Need 1)
      else sbind (read (get_at data 0)) (\<lambda>t.
        if t \<noteq> 1 then stop (Reject ErrNotClientHello)
        else if int (length data) < tlsHandshakeHeaderLen then stop (Need tlsHandshakeHeaderLen)
        else sbind (clientHelloSize data) (\<lambda>helloSize.
          sbind (read (if int (length data) > helloSize then slice_of data 0 helloSize else Ret data)) (\<lambda>data.
            hello_body helloSize data))))"

section \<open>Records\<close>

text \<open>
  \<open>SniffTLS\<close> joins the payloads of the records in \<open>clientHello\<close>; a payload that has not arrived in
  full is read as far as it goes, and the number of bytes needed is put in terms of the connection.
\<close>

function sniff_records :: "byte list \<Rightarrow> byte list \<Rightarrow> int \<Rightarrow> unit step" where
  "sniff_records b clientHello wireOffset =
     (if int (length b) - wireOffset < tlsRecordHeaderLen then stop (Need (wireOffset + tlsRecordHeaderLen))
      else sbind (read (slice_of b wireOffset (wireOffset + tlsRecordHeaderLen))) (\<lambda>header.
        sbind (read (get_at header 0)) (\<lambda>recordType. sbind (read (get_at header 1)) (\<lambda>major.
        if recordType \<noteq> 0x16 \<or> major \<noteq> 3 then stop (Reject ErrNotTLS)
        else sbind (be16_at header 3) (\<lambda>recordLen.
          if recordLen > tlsMaxPlaintext then stop (Reject ErrNotTLS)
          else if recordLen = 0 then stop (Reject ErrNotClientHello)
          else let payloadOffset = wireOffset + tlsRecordHeaderLen;
                   recordEnd = payloadOffset + recordLen;
                   payloadEnd = max payloadOffset (min (int (length b)) recordEnd)
            in sbind (read (slice_of b payloadOffset payloadEnd)) (\<lambda>payload.
              let clientHello = (if wireOffset = 0 then payload else clientHello @ payload) in
              obind (ReadClientHello clientHello) (\<lambda>r. case r of
                  Inl (Need n) \<Rightarrow>
                    if payloadEnd < recordEnd then
                      stop (Need (payloadEnd + min (n - int (length clientHello)) (recordEnd - payloadEnd)))
                    else sniff_records b clientHello recordEnd
                | r \<Rightarrow> Ret r)))))))"
  by pat_completeness auto

termination sniff_records
  by (relation "measure (\<lambda>(b, _, wireOffset). nat (int (length b) - wireOffset))")
    (auto simp: tlsRecordHeaderLen_def dest!: be16_range)

definition SniffTLS :: "byte list \<Rightarrow> unit step" where
  "SniffTLS b = sniff_records b [] 0"

declare sniff_records.simps [simp del]

section \<open>Every run ends with a verdict\<close>

lemma ends_sbind: "ends m \<Longrightarrow> (\<And>x. m = Ret (Inr x) \<Longrightarrow> ends (f x)) \<Longrightarrow> ends (sbind m f)"
  by (cases m) (auto simp: sbind_def split: sum.split)

lemma ends_stop [simp]: "ends (stop v)"
  by (simp add: stop_def)

lemma need_Inr_iff [simp]: "need hs d n = Ret (Inr u) \<longleftrightarrow> n \<le> hs \<and> n \<le> int (length d)"
  by (auto simp: need_def stop_def)

lemma ends_need [simp]: "ends (need hs d n)"
  by (simp add: need_def)

lemma ends_get: "0 \<le> i \<Longrightarrow> i < int (length d) \<Longrightarrow> ends (read (get_at d i))"
  by (simp add: get_at_def read_def)

lemma ends_be16: "0 \<le> i \<Longrightarrow> i + 1 < int (length d) \<Longrightarrow> ends (be16_at d i)"
  unfolding be16_at_def by (intro ends_sbind ends_get) auto

lemma ends_slice: "0 \<le> i \<Longrightarrow> i \<le> j \<Longrightarrow> j \<le> int (length d) \<Longrightarrow> ends (read (slice_of d i j))"
  by (simp add: slice_of_def read_def)

lemma names_loop_ends: "0 \<le> i \<Longrightarrow> ends (names_loop hs d e i)"
proof (induction "nat (e - i)" arbitrary: i rule: less_induct)
  case less
  then show ?case unfolding names_loop.simps[of hs d e i]
    by (auto simp: Let_def intro!: ends_sbind ends_get ends_be16 ends_slice less.hyps dest!: be16_range)
qed

lemma exts_loop_ends: "0 \<le> i \<Longrightarrow> ends (exts_loop hs d e i)"
proof (induction "nat (e - i)" arbitrary: i rule: less_induct)
  case less
  then show ?case unfolding exts_loop.simps[of hs d e i]
    by (auto simp: Let_def intro!: ends_sbind ends_get ends_be16 names_loop_ends less.hyps
      dest!: be16_range names_loop_Inr)
qed

lemma hello_body_ends: "ends (hello_body hs d)"
  by (auto simp: hello_body_def Let_def tlsHandshakeHeaderLen_def intro!: ends_sbind ends_get ends_be16 exts_loop_ends
    dest!: be16_range)

section \<open>More bytes never change a verdict\<close>

text \<open>
  \<open>agrees d c B m m'\<close>: where \<open>m\<close> is a run on the bytes \<open>d\<close> and \<open>m'\<close> the same run on \<open>d @ c\<close>, a run that
  does not ask for bytes ends the same, and one that asks for \<open>n\<close> bytes has not got them and keeps
  asking for \<open>n\<close> until they are there.
\<close>

definition agrees :: "byte list \<Rightarrow> byte list \<Rightarrow> int \<Rightarrow> 'a step \<Rightarrow> 'a step \<Rightarrow> bool" where
  "agrees d c B m m' \<longleftrightarrow>
     (case m of
        Ret (Inl (Need n)) \<Rightarrow> int (length d) < n \<and> n \<le> B \<and> (int (length (d @ c)) < n \<longrightarrow> m' = m)
      | Ret r \<Rightarrow> m' = m
      | _ \<Rightarrow> True)"

lemma agrees_sbind:
  "agrees d c B m m' \<Longrightarrow> (\<And>x. m = Ret (Inr x) \<Longrightarrow> agrees d c B (f x) (f' x)) \<Longrightarrow>
     agrees d c B (sbind m f) (sbind m' f')"
proof -
  assume m: "agrees d c B m m'" and f: "\<And>x. m = Ret (Inr x) \<Longrightarrow> agrees d c B (f x) (f' x)"
  consider v where "m = Ret (Inl v)" | x where "m = Ret (Inr x)" | s where "m = Panic s" | "m = Diverge"
    by (metis outcome.exhaust sum.exhaust)
  then show ?thesis
  proof cases
    case (1 v)
    then show ?thesis using m by (cases v) (auto simp: agrees_def sbind_def)
  next
    case (2 x)
    then have "m' = Ret (Inr x)" using m by (simp add: agrees_def)
    then show ?thesis using f[OF 2] 2 by simp
  qed (simp_all add: agrees_def sbind_def)
qed

lemma agrees_stop: "(\<forall>n. v \<noteq> Need n) \<Longrightarrow> agrees d c B (stop v) (stop v)"
  by (auto simp: agrees_def stop_def split: sniff_verdict.split)

lemma agrees_Inr: "agrees d c B (Ret (Inr x)) (Ret (Inr x))"
  by (simp add: agrees_def)

lemma agrees_need: "agrees d c hs (need hs d n) (need hs (d @ c) n)"
  by (auto simp: agrees_def need_def stop_def)

lemma get_at_append: "get_at d i = Ret x \<Longrightarrow> get_at (d @ c) i = Ret x"
  by (auto simp: get_at_def nth_append split: if_splits)

lemma slice_of_append: "slice_of d i j = Ret x \<Longrightarrow> slice_of (d @ c) i j = Ret x"
  by (auto simp: slice_of_def split: if_splits)

lemma agrees_read: "(\<And>x. m = Ret x \<Longrightarrow> m' = Ret x) \<Longrightarrow> agrees d c B (read m) (read m')"
  by (cases m) (auto simp: agrees_def read_def)

lemmas agrees_get = agrees_read[OF get_at_append]
lemmas agrees_slice = agrees_read[OF slice_of_append]

lemma agrees_be16: "agrees d c B (be16_at d i) (be16_at (d @ c) i)"
  unfolding be16_at_def by (intro agrees_sbind agrees_get agrees_Inr)

lemmas agrees_intros = agrees_sbind agrees_stop agrees_Inr agrees_need agrees_get agrees_slice agrees_be16

lemma names_loop_agrees: "agrees d c hs (names_loop hs d e i) (names_loop hs (d @ c) e i)"
proof (induction "nat (e - i)" arbitrary: i rule: less_induct)
  case less
  then show ?case unfolding names_loop.simps[of hs _ e i]
    by (auto simp: Let_def intro!: agrees_intros less.hyps dest!: be16_range)
qed

lemma exts_loop_agrees: "agrees d c hs (exts_loop hs d e i) (exts_loop hs (d @ c) e i)"
proof (induction "nat (e - i)" arbitrary: i rule: less_induct)
  case less
  then show ?case unfolding exts_loop.simps[of hs _ e i]
    by (auto simp: Let_def intro!: agrees_intros names_loop_agrees less.hyps dest!: be16_range names_loop_Inr)
qed

lemma hello_body_agrees: "agrees d c hs (hello_body hs d) (hello_body hs (d @ c))"
  by (auto simp: hello_body_def Let_def intro!: agrees_intros exts_loop_agrees)

lemma clientHelloSize_range: "clientHelloSize d = Ret (Inr n) \<Longrightarrow> 4 \<le> n"
  by (auto simp: clientHelloSize_def tlsHandshakeHeaderLen_def sbind_Inr_iff split: if_splits)

lemma clientHelloSize_ends: "ends (clientHelloSize d)"
  by (auto simp: clientHelloSize_def tlsHandshakeHeaderLen_def intro!: ends_sbind ends_get)

lemma ends_read_Ret [simp]: "ends (read (Ret x))"
  by (simp add: read_def)

lemma ReadClientHello_ends: "ends (ReadClientHello d)"
  by (auto simp: ReadClientHello_def intro!: ends_sbind ends_get ends_slice hello_body_ends clientHelloSize_ends
    dest!: clientHelloSize_range)

definition cut :: "int \<Rightarrow> byte list \<Rightarrow> byte list" where
  "cut hs d = take (nat hs) d"

lemma ReadClientHello_cut:
  "ReadClientHello d =
    (if d = [] then stop (Need 1)
     else if hd d \<noteq> 1 then stop (Reject ErrNotClientHello)
     else if length d < 4 then stop (Need 4)
     else sbind (clientHelloSize d) (\<lambda>hs. hello_body hs (cut hs d)))"
proof -
  have "sbind (read (if int (length d) > hs then slice_of d 0 hs else Ret d)) (hello_body hs) = hello_body hs (cut hs d)"
    if "clientHelloSize d = Ret (Inr hs)" for hs
    using clientHelloSize_range[OF that] by (auto simp: cut_def slice_of_def)
  then show ?thesis
    by (auto simp: ReadClientHello_def tlsHandshakeHeaderLen_def get_at_def hd_conv_nth intro!: sbind_cong)
qed

lemma hello_size_append:
  assumes "4 \<le> length d" shows "clientHelloSize (d @ c) = clientHelloSize d"
proof -
  have "get_at (d @ c) i = get_at d i" if "0 \<le> i" "i < 4" for i
    using that assms by (auto simp: get_at_def nth_append)
  from this[of 0] this[of 1] this[of 2] this[of 3] show ?thesis
    using assms by (simp add: clientHelloSize_def tlsHandshakeHeaderLen_def cong: if_cong)
qed

lemma hello_cut_agrees: "\<exists>B. agrees d c B (hello_body hs (cut hs d)) (hello_body hs (cut hs (d @ c)))"
proof (cases "int (length d) < hs")
  case True
  let ?c = "take (nat hs - length d) c"
  have "cut hs d = d" "cut hs (d @ c) = d @ ?c" using True by (simp_all add: cut_def)
  moreover have "int (length (d @ c)) < n \<Longrightarrow> n \<le> hs \<Longrightarrow> int (length (d @ ?c)) < n" for n by simp
  ultimately have "agrees d c hs (hello_body hs (cut hs d)) (hello_body hs (cut hs (d @ c)))"
    using hello_body_agrees[of d ?c hs] by (auto simp: agrees_def split: outcome.splits sum.splits sniff_verdict.splits)
  then show ?thesis ..
next
  case False
  then have "cut hs (d @ c) = cut hs d" by (simp add: cut_def)
  moreover have "hello_body hs (cut hs d) \<noteq> Ret (Inl (Need n))" for n
    using hello_body_agrees[of "cut hs d" "[]" hs] False by (auto simp: agrees_def cut_def min_def split: if_splits)
  ultimately have "agrees d c 0 (hello_body hs (cut hs d)) (hello_body hs (cut hs (d @ c)))"
    by (auto simp: agrees_def split: outcome.split sum.split sniff_verdict.split)
  then show ?thesis ..
qed

lemma hello_size_stops: "clientHelloSize d = Ret (Inl v) \<Longrightarrow> 4 \<le> length d \<Longrightarrow> v \<noteq> Need n"
  by (auto simp: clientHelloSize_def tlsHandshakeHeaderLen_def sbind_Inl_iff stop_def split: if_splits)

text \<open>The bound \<open>B\<close> is no longer needed.\<close>

definition settled :: "byte list \<Rightarrow> byte list \<Rightarrow> 'a step \<Rightarrow> 'a step \<Rightarrow> bool" where
  "settled d c m m' \<longleftrightarrow> (\<exists>B. agrees d c B m m')"

lemma settled_iff:
  "settled d c m m' \<longleftrightarrow>
     (case m of
        Ret (Inl (Need n)) \<Rightarrow> int (length d) < n \<and> (int (length (d @ c)) < n \<longrightarrow> m' = m)
      | Ret r \<Rightarrow> m' = m
      | _ \<Rightarrow> True)"
  by (auto simp: settled_def agrees_def split: outcome.split sum.split sniff_verdict.split)

lemma ReadClientHello_settled: "settled d c (ReadClientHello d) (ReadClientHello (d @ c))"
proof (cases "d = [] \<or> hd d \<noteq> 1 \<or> length d < 4")
  case True
  then show ?thesis by (auto simp: ReadClientHello_cut settled_iff stop_def)
next
  case False
  then have 4: "4 \<le> length d" and same: "clientHelloSize (d @ c) = clientHelloSize d"
    using hello_size_append[of d c] by auto
  have d: "ReadClientHello d = sbind (clientHelloSize d) (\<lambda>hs. hello_body hs (cut hs d))"
    "ReadClientHello (d @ c) = sbind (clientHelloSize d) (\<lambda>hs. hello_body hs (cut hs (d @ c)))"
    using False same by (simp_all add: ReadClientHello_cut)
  show ?thesis
  proof (cases "clientHelloSize d")
    case (Ret r)
    show ?thesis
    proof (cases r)
      case (Inl v)
      then have "v \<noteq> Need n" for n using Ret hello_size_stops[of d v n] 4 by simp
      then show ?thesis using Inl Ret d by (cases v) (auto simp: settled_iff sbind_def)
    next
      case (Inr hs)
      then show ?thesis using hello_cut_agrees[of d c hs] d Ret by (simp add: settled_def)
    qed
  qed (simp_all add: d settled_iff sbind_def)
qed

text \<open>The loop over the records: with a whole record the payload is the same, and with a part of one
  the joined hello only grows.\<close>

lemma record_payload:
  assumes "0 \<le> p" "p \<le> int (length b)" "p < e"
  shows "slice_of b p (max p (min (int (length b)) e)) = Ret (take (nat (e - p)) (drop (nat p) b))"
proof (cases "int (length b) \<le> e")
  case True
  then have "take (nat (e - p)) (drop (nat p) b) = drop (nat p) b" using assms by simp
  moreover have "take (nat (int (length b) - p)) (drop (nat p) b) = drop (nat p) b" using assms by simp
  ultimately show ?thesis using True assms by (simp add: slice_of_def)
qed (use assms in \<open>simp add: slice_of_def\<close>)

lemma sniff_records_unfold:
  assumes "0 \<le> w"
  shows "sniff_records b h w =
    (if int (length b) < w + 5 then stop (Need (w + 5))
     else let t = b ! nat w; major = b ! nat (w + 1); len = uint (b ! nat (w + 3)) * 256 + uint (b ! nat (w + 4)) in
       if t \<noteq> 0x16 \<or> major \<noteq> 3 \<or> len > 2 ^ 14 then stop (Reject ErrNotTLS)
       else if len = 0 then stop (Reject ErrNotClientHello)
       else let payload = take (nat len) (drop (nat (w + 5)) b);
                hello = (if w = 0 then payload else h @ payload)
         in obind (ReadClientHello hello) (\<lambda>r. case r of
              Inl (Need n) \<Rightarrow>
                if int (length b) < w + 5 + len
                then stop (Need (int (length b) + min (n - int (length hello)) (w + 5 + len - int (length b))))
                else sniff_records b hello (w + 5 + len)
            | r \<Rightarrow> Ret r))"
proof (cases "int (length b) < w + 5")
  case False
  define hd' where "hd' = take 5 (drop (nat w) b)"
  have h: "slice_of b w (w + 5) = Ret hd'" "length hd' = 5" using False assms by (simp_all add: slice_of_def hd'_def)
  have nth: "get_at hd' (int i) = Ret (b ! nat (w + int i))" if "i < 5" for i
    using that False assms h(2) by (simp add: hd'_def nat_add_distrib)
  from nth[of 0] nth[of 1] nth[of 3] nth[of 4]
  have g: "get_at hd' 0 = Ret (b ! nat w)" "get_at hd' 1 = Ret (b ! nat (w + 1))"
    "get_at hd' 3 = Ret (b ! nat (w + 3))" "get_at hd' 4 = Ret (b ! nat (w + 4))" by simp_all
  define len where "len = uint (b ! nat (w + 3)) * 256 + uint (b ! nat (w + 4))"
  have len: "0 \<le> len" by (simp add: len_def)
  have be: "be16_at hd' 3 = Ret (Inr len)" by (simp add: be16_at_def g len_def)
  have pay: "slice_of b (w + 5) (max (w + 5) (min (int (length b)) (w + 5 + len))) =
      Ret (take (nat len) (drop (nat (w + 5)) b))" if "len \<noteq> 0"
    using record_payload[of "w + 5" b "w + 5 + len"] False assms len that by simp
  have lt: "max (w + 5) (min (int (length b)) (w + 5 + len)) < w + 5 + len \<longleftrightarrow> int (length b) < w + 5 + len"
    "int (length b) < w + 5 + len \<Longrightarrow> max (w + 5) (min (int (length b)) (w + 5 + len)) = int (length b)" if "len \<noteq> 0"
    using False len that by auto
  have s: "sniff_records b h w =
    (if b ! nat w \<noteq> 0x16 \<or> b ! nat (w + 1) \<noteq> 3 then stop (Reject ErrNotTLS)
     else if len > 2 ^ 14 then stop (Reject ErrNotTLS)
     else if len = 0 then stop (Reject ErrNotClientHello)
     else sbind (read (slice_of b (w + 5) (max (w + 5) (min (int (length b)) (w + 5 + len))))) (\<lambda>payload.
       let hello = (if w = 0 then payload else h @ payload);
           payloadEnd = max (w + 5) (min (int (length b)) (w + 5 + len))
       in obind (ReadClientHello hello) (\<lambda>r. case r of
              Inl (Need n) \<Rightarrow>
                if payloadEnd < w + 5 + len
                then stop (Need (payloadEnd + min (n - int (length hello)) (w + 5 + len - payloadEnd)))
                else sniff_records b hello (w + 5 + len)
            | r \<Rightarrow> Ret r)))"
    unfolding sniff_records.simps[of b h w] tlsRecordHeaderLen_def tlsMaxPlaintext_def
    using False by (simp add: h(1) g be Let_def cong: if_cong)
  show ?thesis
  proof (cases "len = 0")
    case True
    then show ?thesis unfolding s using False by (simp add: len_def)
  next
    case False
    show ?thesis unfolding s pay[OF False]
      using \<open>\<not> int (length b) < w + 5\<close> False lt[OF False] by (simp add: Let_def flip: len_def cong: if_cong)
  qed
qed (simp add: sniff_records.simps[of b h w] tlsRecordHeaderLen_def)

lemma ReadClientHello_Need: "ReadClientHello d = Ret (Inl (Need n)) \<Longrightarrow> int (length d) < n"
  using ReadClientHello_settled[of d "[]"] by (simp add: settled_iff)

lemma exts_loop_no_value: "exts_loop hs d e i \<noteq> Ret (Inr u)"
proof (induction "nat (e - i)" arbitrary: i rule: less_induct)
  case less
  then show ?case unfolding exts_loop.simps[of hs d e i]
    by (auto simp: Let_def sbind_Inr_iff dest!: be16_range names_loop_Inr)
qed

lemma ReadClientHello_no_value: "ReadClientHello d \<noteq> Ret (Inr u)"
  by (auto simp: ReadClientHello_def hello_body_def Let_def sbind_Inr_iff exts_loop_no_value)

lemma ReadClientHello_verdict: obtains v where "ReadClientHello d = Ret (Inl v)"
  using ReadClientHello_ends[of d] ReadClientHello_no_value[of d] by (metis ends_iff sum.exhaust)

text \<open>One turn of the loop, in names of its own.\<close>

definition rec_len :: "byte list \<Rightarrow> int \<Rightarrow> int" where
  "rec_len b w = uint (b ! nat (w + 3)) * 256 + uint (b ! nat (w + 4))"

definition rec_hello :: "byte list \<Rightarrow> byte list \<Rightarrow> int \<Rightarrow> byte list" where
  "rec_hello b h w =
     (let payload = take (nat (rec_len b w)) (drop (nat (w + 5)) b) in if w = 0 then payload else h @ payload)"

definition rec_bad :: "byte list \<Rightarrow> int \<Rightarrow> bool" where
  "rec_bad b w \<longleftrightarrow> b ! nat w \<noteq> 0x16 \<or> b ! nat (w + 1) \<noteq> 3 \<or> rec_len b w > 2 ^ 14"

definition rec_go :: "byte list \<Rightarrow> byte list \<Rightarrow> int \<Rightarrow> sniff_verdict \<Rightarrow> unit step" where
  "rec_go b hello e v =
     (case v of
        Need n \<Rightarrow>
          if int (length b) < e then stop (Need (int (length b) + min (n - int (length hello)) (e - int (length b))))
          else sniff_records b hello e
      | v \<Rightarrow> stop v)"

lemma sniff_records_turn:
  assumes "0 \<le> w" and v: "ReadClientHello (rec_hello b h w) = Ret (Inl v)"
  shows "sniff_records b h w =
    (if int (length b) < w + 5 then stop (Need (w + 5))
     else if rec_bad b w then stop (Reject ErrNotTLS)
     else if rec_len b w = 0 then stop (Reject ErrNotClientHello)
     else rec_go b (rec_hello b h w) (w + 5 + rec_len b w) v)"
proof -
  have "obind (ReadClientHello (rec_hello b h w)) (\<lambda>r. case r of
          Inl (Need n) \<Rightarrow>
            if int (length b) < w + 5 + rec_len b w
            then stop (Need (int (length b) + min (n - int (length (rec_hello b h w))) (w + 5 + rec_len b w - int (length b))))
            else sniff_records b (rec_hello b h w) (w + 5 + rec_len b w)
        | r \<Rightarrow> Ret r) = rec_go b (rec_hello b h w) (w + 5 + rec_len b w) v"
    by (cases v) (simp_all add: v rec_go_def stop_def)
  then show ?thesis
    unfolding sniff_records_unfold[OF assms(1), of b h] rec_bad_def by (simp only: Let_def rec_len_def rec_hello_def)
qed

lemma rec_len_nonneg: "0 \<le> rec_len b w"
  by (simp add: rec_len_def)

lemma sniff_records_verdict:
  assumes "0 \<le> w" "w \<le> int (length b)"
  shows "\<exists>v. sniff_records b h w = Ret (Inl v) \<and>
      (\<forall>n. v = Need n \<longrightarrow> int (length b) < n \<and> n \<le> int (length b) + 2 ^ 14)"
  using assms
proof (induction "nat (int (length b) - w)" arbitrary: h w rule: less_induct)
  case less
  let ?len = "rec_len b w" and ?hello = "rec_hello b h w"
  obtain v where v: "ReadClientHello ?hello = Ret (Inl v)" by (rule ReadClientHello_verdict)
  note turn = sniff_records_turn[OF less.prems(1) v]
  show ?case
  proof (cases "int (length b) < w + 5 \<or> rec_bad b w \<or> ?len = 0")
    case True
    then show ?thesis using less.prems turn by (auto simp: stop_def)
  next
    case False
    then have len: "0 < ?len" using rec_len_nonneg[of b w] by linarith
    show ?thesis
    proof (cases v)
      case (Need n)
      show ?thesis
      proof (cases "int (length b) < w + 5 + ?len")
        case True
        have "int (length ?hello) < n" using ReadClientHello_Need v Need by blast
        then show ?thesis using turn Need True False by (auto simp: stop_def rec_go_def rec_bad_def)
      next
        case whole: False
        then show ?thesis using less.hyps[of "w + 5 + ?len" ?hello] less.prems turn False Need len
          by (simp add: rec_go_def)
      qed
    qed (use turn False in \<open>simp_all add: stop_def rec_go_def\<close>)
  qed
qed

lemma rec_hello_append:
  assumes "0 \<le> w" "w + 5 \<le> int (length b)"
  shows "rec_len (b @ c) w = rec_len b w" "rec_bad (b @ c) w = rec_bad b w"
    and "w + 5 + rec_len b w \<le> int (length b) \<Longrightarrow> rec_hello (b @ c) h w = rec_hello b h w"
    and "int (length b) < w + 5 + rec_len b w \<Longrightarrow>
      rec_hello (b @ c) h w = rec_hello b h w @ take (nat (w + 5 + rec_len b w - int (length b))) c"
proof -
  have n: "nat w < length b" "nat (w + 1) < length b" "nat (w + 3) < length b" "nat (w + 4) < length b"
    using assms by linarith+
  then show l: "rec_len (b @ c) w = rec_len b w" by (simp add: rec_len_def nth_append)
  with n show "rec_bad (b @ c) w = rec_bad b w" by (simp add: rec_bad_def nth_append)
  have d: "drop (nat (w + 5)) (b @ c) = drop (nat (w + 5)) b @ c" using assms by simp
  show "rec_hello (b @ c) h w = rec_hello b h w" if "w + 5 + rec_len b w \<le> int (length b)"
  proof -
    have "nat (rec_len b w) - length (drop (nat (w + 5)) b) = 0" using that assms by simp
    then show ?thesis by (simp add: rec_hello_def l d del: length_drop)
  qed
  show "rec_hello (b @ c) h w = rec_hello b h w @ take (nat (w + 5 + rec_len b w - int (length b))) c"
    if "int (length b) < w + 5 + rec_len b w"
  proof -
    have "nat (rec_len b w) - length (drop (nat (w + 5)) b) = nat (w + 5 + rec_len b w - int (length b))"
      using that assms by simp
    then have e: "take (nat (rec_len b w)) (drop (nat (w + 5)) (b @ c)) =
        take (nat (rec_len b w)) (drop (nat (w + 5)) b) @ take (nat (w + 5 + rec_len b w - int (length b))) c"
      by (simp only: d take_append)
    show ?thesis unfolding rec_hello_def l Let_def e
      by (cases "w = 0") (simp_all only: if_True if_False append_assoc simp_thms)
  qed
qed

lemma sniff_records_settled:
  assumes "0 \<le> w" "w \<le> int (length b)"
  shows "settled b c (sniff_records b h w) (sniff_records (b @ c) h w)"
  using assms
proof (induction "nat (int (length b) - w)" arbitrary: h w rule: less_induct)
  case less
  note w = less.prems
  let ?len = "rec_len b w" and ?hello = "rec_hello b h w"
  obtain v where v: "ReadClientHello ?hello = Ret (Inl v)" by (rule ReadClientHello_verdict)
  obtain v' where v': "ReadClientHello (rec_hello (b @ c) h w) = Ret (Inl v')" by (rule ReadClientHello_verdict)
  note turn = sniff_records_turn[OF w(1) v]
  note turn' = sniff_records_turn[OF w(1) v']
  show ?case
  proof (cases "int (length b) < w + 5")
    case True
    then show ?thesis using w turn turn' by (auto simp: settled_iff stop_def)
  next
    case five: False
    then have w5: "w + 5 \<le> int (length b)" by simp
    note app = rec_hello_append[OF w(1) w5]
    show ?thesis
    proof (cases "rec_bad b w \<or> ?len = 0")
      case True
      then show ?thesis using five turn turn' by (auto simp: settled_iff stop_def app(1,2))
    next
      case ok: False
      then have len: "0 < ?len" using rec_len_nonneg[of b w] by linarith
      have b: "sniff_records b h w = rec_go b ?hello (w + 5 + ?len) v"
        "sniff_records (b @ c) h w = rec_go (b @ c) (rec_hello (b @ c) h w) (w + 5 + ?len) v'"
        using five ok turn turn' by (simp_all add: app(1,2))
      show ?thesis
      proof (cases "int (length b) < w + 5 + ?len")
        case False
        then have same: "rec_hello (b @ c) h w = ?hello" "v' = v" using app(3) v v' by simp_all
        show ?thesis
        proof (cases v)
          case (Need n)
          then show ?thesis using less.hyps[of "w + 5 + ?len" ?hello] False w len b same by (simp add: rec_go_def)
        qed (simp_all add: b same rec_go_def settled_iff stop_def)
      next
        case part: True
        let ?c = "take (nat (w + 5 + ?len - int (length b))) c"
        have h: "rec_hello (b @ c) h w = ?hello @ ?c" using app(4) part by simp
        have st: "settled ?hello ?c (Ret (Inl v) :: unit step) (Ret (Inl v'))"
          using ReadClientHello_settled[of ?hello ?c] v v' h by simp
        show ?thesis
        proof (cases v)
          case (Need n)
          have n: "int (length ?hello) < n" using st Need by (simp add: settled_iff)
          let ?m = "int (length b) + min (n - int (length ?hello)) (w + 5 + ?len - int (length b))"
          have m: "sniff_records b h w = stop (Need ?m)" using b part Need by (simp add: rec_go_def)
          have "sniff_records (b @ c) h w = stop (Need ?m)" if lt: "int (length (b @ c)) < ?m"
          proof -
            have "length c \<le> nat (w + 5 + ?len - int (length b))" using lt by (simp add: le_nat_iff)
            then have c: "?c = c" by simp
            then have "v' = Need n" using st Need lt by (simp add: settled_iff)
            moreover have "int (length (b @ c)) < w + 5 + ?len" using lt by simp
            ultimately show ?thesis using b(2) h c lt by (simp add: rec_go_def) (simp add: min_def)
          qed
          then show ?thesis using m n part by (auto simp: settled_iff stop_def)
        qed (use st b in \<open>simp_all add: rec_go_def settled_iff stop_def\<close>)
      qed
    qed
  qed
qed

text \<open>
  C15. On any bytes the TLS sniffer ends with a verdict and reads nothing out of bounds. A verdict that
  asks for n bytes asks for more than have arrived, for at most a record more, and stays the same
  until they have arrived; any other verdict stays whatever arrives later. So sniffing a connection
  piece by piece, when as many bytes have arrived as were asked for, misses nothing.
\<close>

theorem tls_sniff_incremental:
  "(\<exists>v. SniffTLS b = Ret (Inl v)) \<and>
   (\<forall>n. SniffTLS b = Ret (Inl (Need n)) \<longrightarrow> int (length b) < n \<and> n \<le> int (length b) + 2 ^ 14 \<and>
      (\<forall>c. int (length (b @ c)) < n \<longrightarrow> SniffTLS (b @ c) = SniffTLS b)) \<and>
   (\<forall>v c. SniffTLS b = Ret (Inl v) \<and> (\<forall>n. v \<noteq> Need n) \<longrightarrow> SniffTLS (b @ c) = SniffTLS b)"
proof -
  have s: "settled b c (SniffTLS b) (SniffTLS (b @ c))" for c
    unfolding SniffTLS_def by (rule sniff_records_settled) simp_all
  obtain v where v: "SniffTLS b = Ret (Inl v)"
    and n: "\<And>n. v = Need n \<Longrightarrow> int (length b) < n \<and> n \<le> int (length b) + 2 ^ 14"
    using sniff_records_verdict[of 0 b "[]"] unfolding SniffTLS_def by auto
  then show ?thesis using s by (cases v) (auto simp: settled_iff)
qed

theorem tls_sniff_incremental_witness:
  "SniffTLS [0x16, 3, 1, 0, 9, 1, 0, 0] = Ret (Inl (Need 9)) \<and> (8 :: int) < 9 \<and>
   SniffTLS [0x17, 3, 1, 0, 9] = Ret (Inl (Reject ErrNotTLS)) \<and>
   SniffTLS ([0x17, 3, 1, 0, 9] @ [1]) = Ret (Inl (Reject ErrNotTLS))"
proof -
  have "SniffTLS [0x16, 3, 1, 0, 9, 1, 0, 0] = Ret (Inl (Need 9))" by code_simp
  moreover from this have "(8 :: int) < 9" using tls_sniff_incremental[of "[0x16, 3, 1, 0, 9, 1, 0, 0]"] by simp
  moreover have "SniffTLS [0x17, 3, 1, 0, 9] = Ret (Inl (Reject ErrNotTLS))" by code_simp
  moreover from this have "SniffTLS ([0x17, 3, 1, 0, 9] @ [1]) = Ret (Inl (Reject ErrNotTLS))"
    using tls_sniff_incremental[of "[0x17, 3, 1, 0, 9]"] by (metis sniff_verdict.distinct(5))
  ultimately show ?thesis by simp
qed

end
