(* ===== verification/SniffHello.thy ===== *)
theory SniffHello
  imports SniffTLS
begin

text \<open>
  What the TLS sniffer finds: every well-formed client hello, written here as RFC 8446 lays it out,
  gives its server name, in whatever records it arrives.
\<close>

section \<open>Well-formed client hellos\<close>

definition hello_ext :: "int \<times> byte list \<Rightarrow> byte list" where
  "hello_ext e = be_put 2 (fst e) @ be_put 2 (int (length (snd e))) @ snd e"

definition sni_body :: "byte list \<Rightarrow> byte list" where
  "sni_body name = be_put 2 (int (length name) + 3) @ [0] @ be_put 2 (int (length name)) @ name"

definition hello_exts :: "(int \<times> byte list) list \<Rightarrow> byte list \<Rightarrow> byte list \<Rightarrow> byte list" where
  "hello_exts pre name post = concat (map hello_ext pre) @ hello_ext (0, sni_body name) @ post"

definition hello_front :: "byte list \<Rightarrow> byte list \<Rightarrow> byte list \<Rightarrow> byte list \<Rightarrow> byte list" where
  "hello_front random sid ciphers methods =
     [3, 3] @ random @ [word_of_int (int (length sid))] @ sid @ be_put 2 (int (length ciphers)) @ ciphers @
     [word_of_int (int (length methods))] @ methods"

definition client_hello :: "byte list \<Rightarrow> byte list \<Rightarrow> byte list" where
  "client_hello front exts =
     (let body = front @ be_put 2 (int (length exts)) @ exts in [1] @ be_put 3 (int (length body)) @ body)"

definition tls_record :: "byte list \<Rightarrow> byte list" where
  "tls_record payload = [0x16, 3, 1] @ be_put 2 (int (length payload)) @ payload"

section \<open>Reading what was written\<close>

lemma get_at_end: "d = p @ x # q \<Longrightarrow> i = int (length p) \<Longrightarrow> get_at d i = Ret x"
  by simp

lemma be_put_2: "be_put 2 v = [word_of_int (v div 256), word_of_int v]"
  by (simp add: numeral_2_eq_2)

lemma be16_end:
  assumes "d = p @ be_put 2 v @ q" "i = int (length p)" "0 \<le> v" "v < 65536"
  shows "be16_at d i = Ret (Inr v)"
proof -
  have "get_at d i = Ret (word_of_int (v div 256))" by (rule get_at_end[OF _ assms(2)]) (simp add: assms(1) be_put_2)
  moreover have "get_at d (i + 1) = Ret (word_of_int v)"
    by (rule get_at_end[of _ "p @ [word_of_int (v div 256)]"]) (simp_all add: assms(1,2) be_put_2)
  moreover have "uint (word_of_int (v div 256) :: byte) = v div 256"
    using assms(3,4) by (simp add: unsigned_of_int take_bit_eq_mod)
  moreover have "uint (word_of_int v :: byte) = v mod 256" by (simp add: unsigned_of_int take_bit_eq_mod)
  ultimately show ?thesis by (simp add: be16_at_def)
qed

lemma slice_end: "d = p @ xs @ q \<Longrightarrow> i = int (length p) \<Longrightarrow> j = i + int (length xs) \<Longrightarrow> slice_of d i j = Ret xs"
  by (simp add: slice_of_def nat_add_distrib)

lemma need_ok: "n \<le> hs \<Longrightarrow> n \<le> int (length d) \<Longrightarrow> sbind (need hs d n) f = f ()"
  by (simp add: need_def)

lemma length_hello_ext [simp]: "length (hello_ext e) = 4 + length (snd e)"
  by (simp add: hello_ext_def)

lemma length_sni_body [simp]: "length (sni_body name) = length name + 5"
  by (simp add: sni_body_def)

definition sni_ok :: "byte list \<Rightarrow> bool" where
  "sni_ok name \<longleftrightarrow> length name + 5 < 65536 \<and> (name \<noteq> [] \<longrightarrow> char_of_byte (last name) \<noteq> CHR ''.'')"

lemma names_find:
  assumes d: "d = p @ [0] @ be_put 2 (int (length name)) @ name @ q" and i: "i = int (length p)"
    and e: "e = i + 3 + int (length name)" "e \<le> hs" and ok: "sni_ok name"
  shows "names_loop hs d e i = stop (Found (map char_of_byte name))"
proof -
  have len: "e \<le> int (length d)" using d i e by simp
  have "get_at d i = Ret 0" using get_at_end[of d p 0] d i by simp
  moreover have "be16_at d (i + 1) = Ret (Inr (int (length name)))"
    by (rule be16_end[of _ "p @ [0]"]) (use d i ok in \<open>simp_all add: sni_ok_def\<close>)
  moreover have "slice_of d (i + 3) e = Ret name"
    by (rule slice_end[of _ "p @ [0] @ be_put 2 (int (length name))" _ q]) (use d i e in simp_all)
  moreover have "\<not> (map char_of_byte name \<noteq> [] \<and> last (map char_of_byte name) = CHR ''.'')"
    using ok by (auto simp: sni_ok_def last_map)
  ultimately show ?thesis using e len unfolding names_loop.simps[of hs d e i]
    by (auto simp: need_ok Let_def)
qed

lemma exts_find:
  assumes "d = p @ hello_exts pre name post" "i = int (length p)" "hs = int (length d)" "sni_ok name"
    and "\<forall>e \<in> set pre. 0 < fst e \<and> fst e < 65536 \<and> length (snd e) < 65536"
  shows "exts_loop hs d hs i = stop (Found (map char_of_byte name))"
  using assms
proof (induction pre arbitrary: p i)
  case Nil
  have d: "d = p @ hello_ext (0, sni_body name) @ post" using Nil.prems by (simp add: hello_exts_def)
  have t: "be16_at d i = Ret (Inr 0)"
    by (rule be16_end[of _ p]) (use d Nil.prems in \<open>simp_all add: hello_ext_def\<close>)
  have l: "be16_at d (i + 2) = Ret (Inr (int (length name) + 5))"
    by (rule be16_end[of _ "p @ be_put 2 0"])
      (use d Nil.prems in \<open>simp_all add: hello_ext_def sni_ok_def add.commute\<close>)
  have n: "be16_at d (i + 4) = Ret (Inr (int (length name) + 3))"
    by (rule be16_end[of _ "p @ be_put 2 0 @ be_put 2 (5 + int (length name))"])
      (use d Nil.prems in \<open>simp_all add: hello_ext_def sni_body_def sni_ok_def\<close>)
  have "names_loop hs d (i + 6 + (int (length name) + 3)) (i + 6) = stop (Found (map char_of_byte name))"
    by (rule names_find[of _ "p @ be_put 2 0 @ be_put 2 (5 + int (length name)) @ be_put 2 (int (length name) + 3)"])
      (use d Nil.prems in \<open>simp_all add: hello_ext_def sni_body_def\<close>)
  then show ?case using t l n d Nil.prems unfolding exts_loop.simps[of hs d hs i]
    by (simp add: need_ok Let_def)
next
  case (Cons e pre)
  let ?len = "int (length (snd e))"
  have d: "d = p @ hello_ext e @ hello_exts pre name post" using Cons.prems by (simp add: hello_exts_def)
  have e: "0 < fst e" "fst e < 65536" "length (snd e) < 65536" using Cons.prems by simp_all
  have t: "be16_at d i = Ret (Inr (fst e))"
    by (rule be16_end[of _ p]) (use d e Cons.prems in \<open>simp_all add: hello_ext_def\<close>)
  have l: "be16_at d (i + 2) = Ret (Inr ?len)"
    by (rule be16_end[of _ "p @ be_put 2 (fst e)"]) (use d e Cons.prems in \<open>simp_all add: hello_ext_def\<close>)
  have "exts_loop hs d hs (i + 4 + ?len) = stop (Found (map char_of_byte name))"
    by (rule Cons.IH[of "p @ hello_ext e"]) (use d Cons.prems in simp_all)
  moreover have "i + 4 + ?len < hs" using d Cons.prems by (simp add: hello_exts_def)
  ultimately show ?case using t l e d Cons.prems(3) unfolding exts_loop.simps[of hs d hs i]
    by (simp add: need_ok Let_def)
qed

lemma be_put_3: "be_put 3 v = [word_of_int (v div 65536), word_of_int (v div 256), word_of_int v]"
  by (simp add: numeral_3_eq_3 zdiv_zmult2_eq[symmetric])

lemma hello_size_bytes:
  "4 \<le> length d \<Longrightarrow> get_at d 0 = Ret 1 \<Longrightarrow> get_at d 1 = Ret a \<Longrightarrow> get_at d 2 = Ret b \<Longrightarrow> get_at d 3 = Ret c \<Longrightarrow>
     clientHelloSize d = Ret (Inr (4 + (uint a * 65536 + uint b * 256 + uint c)))"
  by (simp add: clientHelloSize_def tlsHandshakeHeaderLen_def)

lemma hello_size:
  assumes "d = [1] @ be_put 3 L @ q" "0 \<le> L" "L < 2 ^ 24"
  shows "clientHelloSize d = Ret (Inr (4 + L))"
proof -
  have get: "get_at d 0 = Ret 1" "get_at d 1 = Ret (word_of_int (L div 65536))" "get_at d 2 = Ret (word_of_int (L div 256))"
    "get_at d 3 = Ret (word_of_int L)"
    using get_at_end[of d "[]" 1] get_at_end[of d "[1]" "word_of_int (L div 65536)" "drop 2 d"]
      get_at_end[of d "[1, word_of_int (L div 65536)]" "word_of_int (L div 256)" "drop 3 d"]
      get_at_end[of d "[1, word_of_int (L div 65536), word_of_int (L div 256)]" "word_of_int L" "drop 4 d"]
    by (simp_all add: assms(1) be_put_3)
  have u: "uint (word_of_int v :: byte) = v mod 256" for v by (simp add: unsigned_of_int take_bit_eq_mod)
  have "(L div 65536) mod 256 * 65536 + (L div 256) mod 256 * 256 + L mod 256 = L"
  proof -
    have e: "L div 65536 = L div 256 div 256" by (simp add: zdiv_zmult2_eq[symmetric])
    have "L div 65536 < 256" "0 \<le> L div 65536" using assms(2,3) by (simp_all add: pos_imp_zdiv_nonneg_iff)
    then have m: "L div 256 div 256 mod 256 = L div 256 div 256" unfolding e by simp
    have f: "256 * (L div 256) + L mod 256 = L" "256 * (L div 256 div 256) + L div 256 mod 256 = L div 256"
      by (rule mult_div_mod_eq)+
    have gen: "256 * x + y = l \<Longrightarrow> 256 * z + w = x \<Longrightarrow> z * 65536 + w * 256 + y = l" for x y z w l :: int
      by simp
    show ?thesis unfolding e m by (rule gen[OF f])
  qed
  then have sum: "uint (word_of_int (L div 65536) :: byte) * 65536 + uint (word_of_int (L div 256) :: byte) * 256 +
      uint (word_of_int L :: byte) = L" unfolding u .
  have "4 \<le> length d" by (simp add: assms(1))
  from hello_size_bytes[OF this get] show ?thesis unfolding sum .
qed

definition front_ok :: "byte list \<Rightarrow> byte list \<Rightarrow> byte list \<Rightarrow> byte list \<Rightarrow> bool" where
  "front_ok random sid ciphers methods \<longleftrightarrow> length random = 32 \<and> length sid \<le> 32 \<and>
     length ciphers < 65536 \<and> even (length ciphers) \<and> length methods < 256"

lemma uint_length: "n < 256 \<Longrightarrow> uint (word_of_nat n :: byte) = int n"
  by (simp add: unsigned_of_nat take_bit_nat_eq_self)

lemma hello_find:
  assumes front: "front_ok random sid ciphers methods" and exts: "exts = hello_exts pre name post" "length exts < 65536"
    and pre: "\<forall>e \<in> set pre. 0 < fst e \<and> fst e < 65536 \<and> length (snd e) < 65536" and name: "sni_ok name"
  shows "ReadClientHello (client_hello (hello_front random sid ciphers methods) exts) = stop (Found (map char_of_byte name))"
proof -
  let ?f = "hello_front random sid ciphers methods"
  let ?L = "int (length (?f @ be_put 2 (int (length exts)) @ exts))"
  define d where "d = client_hello ?f exts"
  let ?s = "int (length sid)" and ?c = "int (length ciphers)" and ?m = "int (length methods)"
  note ok = front[unfolded front_ok_def]
  have len_f: "length ?f = 2 + 32 + 1 + length sid + 2 + length ciphers + 1 + length methods"
    using ok by (simp add: hello_front_def)
  have hs: "clientHelloSize d = Ret (Inr (4 + ?L))"
    by (rule hello_size[of _ _ "?f @ be_put 2 (int (length exts)) @ exts"])
      (use ok exts(2) len_f in \<open>simp_all add: d_def client_hello_def\<close>)
  have len_d: "int (length d) = 4 + ?L" by (simp add: d_def client_hello_def)
  have d: "d = [1] @ be_put 3 ?L @ [3, 3] @ random @ [word_of_int ?s] @ sid @ be_put 2 ?c @ ciphers @
      [word_of_int ?m] @ methods @ be_put 2 (int (length exts)) @ exts"
    by (simp add: d_def client_hello_def hello_front_def)
  have r1: "get_at d 38 = Ret (word_of_int ?s)"
    by (rule get_at_end[of _ "[1] @ be_put 3 ?L @ [3, 3] @ random"]) (use d ok in simp_all)
  have r2: "be16_at d (39 + ?s) = Ret (Inr ?c)"
    by (rule be16_end[of _ "[1] @ be_put 3 ?L @ [3, 3] @ random @ [word_of_int ?s] @ sid"]) (use d ok in simp_all)
  have r3: "get_at d (41 + ?s + ?c) = Ret (word_of_int ?m)"
    by (rule get_at_end[of _ "[1] @ be_put 3 ?L @ [3, 3] @ random @ [word_of_int ?s] @ sid @ be_put 2 ?c @ ciphers"])
      (use d ok in simp_all)
  have r4: "be16_at d (42 + ?s + ?c + ?m) = Ret (Inr (int (length exts)))"
    by (rule be16_end[of _ "[1] @ be_put 3 ?L @ [3, 3] @ random @ [word_of_int ?s] @ sid @ be_put 2 ?c @ ciphers @
        [word_of_int ?m] @ methods"]) (use d ok exts(2) in simp_all)
  have x: "exts_loop (4 + ?L) d (4 + ?L) (44 + ?s + ?c + ?m) = stop (Found (map char_of_byte name))"
    by (rule exts_find[of _ "[1] @ be_put 3 ?L @ [3, 3] @ random @ [word_of_int ?s] @ sid @ be_put 2 ?c @ ciphers @
        [word_of_int ?m] @ methods @ be_put 2 (int (length exts))" pre name post])
      (use d ok pre name len_d exts(1) in simp_all)
  have L: "?L = 40 + ?s + ?c + ?m + int (length exts)" using len_f by simp
  have "hello_body (4 + ?L) d = stop (Found (map char_of_byte name))"
    using r1 r2 r3 r4 x len_d ok unfolding hello_body_def tlsHandshakeHeaderLen_def L
    by (simp add: Let_def need_ok uint_length ac_simps)
  moreover have "cut (4 + ?L) d = d" using len_d by (simp add: cut_def)
  moreover have "d \<noteq> []" "hd d = 1" "\<not> length d < 4" using d by simp_all
  ultimately show ?thesis unfolding d_def[symmetric] by (simp add: ReadClientHello_cut hs)
qed

section \<open>Records\<close>

text \<open>A hello cut into records of any sizes the protocol allows.\<close>

lemma record_turn:
  fixes w :: int
  assumes b: "b = pre @ tls_record payload @ post" and w: "w = int (length pre)"
    and p: "0 < length payload" "length payload \<le> 2 ^ 14"
  shows "\<not> int (length b) < w + 5" "\<not> rec_bad b w" "rec_len b w = int (length payload)"
    and "rec_hello b h w = (if w = 0 then payload else h @ payload)"
    and "w + 5 + rec_len b w = int (length (pre @ tls_record payload))"
proof -
  let ?n = "int (length payload)"
  have nth: "b ! nat (w + int i) = (tls_record payload @ post) ! i" for i
    using b w by (simp add: nat_add_distrib nth_append)
  have bytes: "b ! nat w = 0x16" "b ! nat (w + 1) = 3" "b ! nat (w + 3) = word_of_int (?n div 256)"
    "b ! nat (w + 4) = word_of_int ?n"
    using nth[of 0] nth[of 1] nth[of 3] nth[of 4] by (simp_all add: tls_record_def be_put_2)
  have u: "uint (word_of_int v :: byte) = v mod 256" for v by (simp add: unsigned_of_int take_bit_eq_mod)
  have "uint (word_of_int (?n div 256) :: byte) = ?n div 256" using u[of "?n div 256"] p by simp
  moreover have "uint (word_of_int ?n :: byte) = ?n mod 256" by (rule u)
  ultimately show l: "rec_len b w = ?n" using bytes by (simp add: rec_len_def)
  show "\<not> int (length b) < w + 5" using b w by (simp add: tls_record_def)
  show "\<not> rec_bad b w" using bytes l p by (simp add: rec_bad_def)
  show "w + 5 + rec_len b w = int (length (pre @ tls_record payload))" using l w by (simp add: tls_record_def)
  have "take (nat (rec_len b w)) (drop (nat (w + 5)) b) = payload"
    using b w l by (simp add: tls_record_def nat_add_distrib be_put_2)
  then show "rec_hello b h w = (if w = 0 then payload else h @ payload)" by (simp add: rec_hello_def)
qed

lemma records_find:
  assumes "b = pre @ concat (map tls_record (p # ps)) @ post" "w = int (length pre)"
    and "\<forall>q \<in> set (p # ps). 0 < length q \<and> length q \<le> 2 ^ 14"
    and "(if w = 0 then p else h @ p) @ concat ps = hello" and "ReadClientHello hello = stop (Found name)"
  shows "sniff_records b h w = stop (Found name)"
  using assms
proof (induction ps arbitrary: p pre w h)
  case (Nil p pre w h)
  have w: "0 \<le> w" using Nil by simp
  have t: "b = pre @ tls_record p @ post" "0 < length p" "length p \<le> 2 ^ 14" using Nil.prems by simp_all
  note r = record_turn[OF t(1) Nil.prems(2) t(2,3)]
  have "ReadClientHello (rec_hello b h w) = Ret (Inl (Found name))" using Nil.prems r(4) by (simp add: stop_def)
  from sniff_records_turn[OF w this] r t(2) show ?case by (simp add: rec_go_def)
next
  case (Cons p' ps p pre w h)
  have w: "0 \<le> w" using Cons.prems by simp
  have t: "b = pre @ tls_record p @ (concat (map tls_record (p' # ps)) @ post)" "0 < length p" "length p \<le> 2 ^ 14"
    using Cons.prems by simp_all
  note r = record_turn[OF t(1) Cons.prems(2) t(2,3)]
  let ?h = "rec_hello b h w"
  obtain v where v: "ReadClientHello ?h = Ret (Inl v)" by (rule ReadClientHello_verdict)
  have whole: "?h @ concat (p' # ps) = hello" using Cons.prems(4) r(4) by simp
  have st: "settled ?h (concat (p' # ps)) (Ret (Inl v) :: unit step) (stop (Found name))"
    using ReadClientHello_settled[of ?h "concat (p' # ps)"] v whole Cons.prems(5) by simp
  have turn: "sniff_records b h w = rec_go b ?h (w + 5 + rec_len b w) v"
    using sniff_records_turn[OF w v] r t(2) by simp
  show ?case
  proof (cases v)
    case (Need n)
    have "w + 5 + rec_len b w \<noteq> 0" using w r(3) by simp
    then have "sniff_records b ?h (w + 5 + rec_len b w) = stop (Found name)"
      by (intro Cons.IH[of "pre @ tls_record p" p']) (use Cons.prems r(5) whole in simp_all)
    moreover have "\<not> int (length b) < w + 5 + rec_len b w" unfolding r(5) using t(1) by simp
    ultimately show ?thesis using turn Need by (simp add: rec_go_def)
  qed (use st turn in \<open>auto simp: settled_iff stop_def rec_go_def\<close>)
qed

text \<open>
  C16. The TLS sniffer finds the server name of every well-formed client hello: whatever random,
  session id, cipher suites, compression methods and extensions it carries before and behind the
  server name, in whatever records it is cut, and whatever follows it on the connection.
\<close>

theorem tls_sniff_finds:
  assumes "front_ok random sid ciphers methods" and "exts = hello_exts pre name post" and "length exts < 65536"
    and "\<forall>e \<in> set pre. 0 < fst e \<and> fst e < 65536 \<and> length (snd e) < 65536" and "sni_ok name"
    and "concat fragments = client_hello (hello_front random sid ciphers methods) exts"
    and "\<forall>q \<in> set fragments. 0 < length q \<and> length q \<le> 2 ^ 14"
  shows "SniffTLS (concat (map tls_record fragments) @ rest) = Ret (Inl (Found (map char_of_byte name)))"
proof -
  have find: "ReadClientHello (concat fragments) = stop (Found (map char_of_byte name))"
    unfolding assms(6) by (rule hello_find[OF assms(1-5)])
  have "fragments \<noteq> []" using assms(6) by (auto simp: client_hello_def Let_def)
  then obtain p ps where "fragments = p # ps" by (cases fragments) auto
  then show ?thesis unfolding SniffTLS_def stop_def[symmetric] using assms(7) find
    by (intro records_find[of _ "[]" p ps rest]) simp_all
qed

theorem tls_sniff_finds_witness:
  "let hello = client_hello (hello_front (replicate 32 7) [1, 2] [0x13, 1] [0])
        (hello_exts [(43, [2, 3, 4])] (map byte_of ''a.org'') [0, 0x17, 0, 0])
   in SniffTLS (concat (map tls_record [take 10 hello, drop 10 hello]) @ [5]) = Ret (Inl (Found ''a.org''))"
proof -
  let ?exts = "hello_exts [(43, [2, 3, 4])] (map byte_of ''a.org'') [0, 0x17, 0, 0]"
  let ?hello = "client_hello (hello_front (replicate 32 7) [1, 2] [0x13, 1] [0]) ?exts"
  have n: "map char_of_byte (map byte_of ''a.org'') = ''a.org''" by (simp add: map_idI)
  have l: "length ?hello = 74" "length ?exts < 65536"
    by (simp_all add: client_hello_def hello_front_def hello_exts_def)
  have "SniffTLS (concat (map tls_record [take 10 ?hello, drop 10 ?hello]) @ [5]) =
      Ret (Inl (Found (map char_of_byte (map byte_of ''a.org''))))"
  proof (rule tls_sniff_finds[OF _ refl l(2)])
    show "front_ok (replicate 32 7) [1, 2] [0x13, 1] [0]" by (simp add: front_ok_def)
    show "sni_ok (map byte_of ''a.org'')" by (simp add: sni_ok_def)
    show "\<forall>q \<in> set [take 10 ?hello, drop 10 ?hello]. 0 < length q \<and> length q \<le> 2 ^ 14"
      using l(1) by (auto simp: client_hello_def Let_def)
  qed simp_all
  then show ?thesis unfolding n Let_def .
qed

end
