(* ===== verification/SniffHTTP.thy ===== *)
theory SniffHTTP
  imports SniffTLS NetIP
begin

text \<open>
  The HTTP sniffer (\<open>component/sniffer/http_sniffer.go\<close>): the host of an HTTP/1 request, or the
  authority of an HTTP/2 one, from the bytes that have arrived. The HPACK decoder is a library: it is
  a parameter that takes bytes and yields header fields.
\<close>

section \<open>Bytes and text\<close>

definition text_of :: "byte list \<Rightarrow> string" where
  "text_of b = map char_of_byte b"

text \<open>\<open>bytes.Cut\<close>: what is before and behind the first separator.\<close>

fun go_cut :: "string \<Rightarrow> string \<Rightarrow> (string \<times> string) option" where
  "go_cut sep [] = (if sep = [] then Some ([], []) else None)"
| "go_cut sep (c # s) =
     (if prefix sep (c # s) then Some ([], drop (length sep) (c # s))
      else map_option (\<lambda>(a, b). (c # a, b)) (go_cut sep s))"

text \<open>
  \<open>bytes.EqualFold\<close> with an ASCII text: beside the ASCII letters, only the long s and the Kelvin sign
  fold to ASCII letters.
\<close>

fun fold_runes :: "string \<Rightarrow> string" where
  "fold_runes [] = []"
| "fold_runes (c # s) =
     (if c = CHR 0xC5 \<and> s \<noteq> [] \<and> hd s = CHR 0xBF then CHR ''s'' # fold_runes (tl s)
      else if c = CHR 0xE2 \<and> 2 \<le> length s \<and> take 2 s = [CHR 0x84, CHR 0xAA] then CHR ''k'' # fold_runes (drop 2 s)
      else lower_char c # fold_runes s)"

definition EqualFold :: "string \<Rightarrow> string \<Rightarrow> bool" where
  "EqualFold s t \<longleftrightarrow> fold_runes s = fold_runes t"

definition httpMethods :: "string list" where
  "httpMethods = [''GET'', ''POST'', ''HEAD'', ''PUT'', ''DELETE'', ''OPTIONS'', ''CONNECT'', ''PATCH'', ''TRACE'']"

definition crlf :: string where "crlf = [CHR 0x0D, CHR 0x0A]"

definition h2ClientPreface :: string where
  "h2ClientPreface = ''PRI * HTTP/2.0'' @ crlf @ crlf @ ''SM'' @ crlf @ crlf"

definition isHTTPMethod :: "string \<Rightarrow> bool" where
  "isHTTPMethod method \<longleftrightarrow> (\<exists>m \<in> set httpMethods. EqualFold method m)"

definition isHTTPMethodPrefix :: "string \<Rightarrow> bool" where
  "isHTTPMethodPrefix pre \<longleftrightarrow>
     (\<exists>m \<in> set httpMethods. length pre \<le> length m \<and> EqualFold pre (take (length pre) m))"

section \<open>HTTP/1\<close>

definition parseHost :: "string \<Rightarrow> sniff_verdict" where
  "parseHost h =
     (if h = [] then Reject ErrNoClue
      else let hs = (case SplitHostPort h of Some (host, _) \<Rightarrow> host | None \<Rightarrow> h);
               hs = (if HasPrefix hs ''['' \<and> hs \<noteq> [] \<and> last hs = CHR '']'' then butlast (tl hs) else hs);
               hs = ToLower (rev (dropWhile (\<lambda>c. c = CHR ''.'') (rev hs)))
        in if hs = [] then Reject ErrNoClue
           else if ParseAddr hs \<noteq> None then Reject ErrHostIsIP
           else Found hs)"

lemma go_cut_length: "go_cut sep s = Some (a, b) \<Longrightarrow> sep \<noteq> [] \<Longrightarrow> length b < length s"
proof (induction s arbitrary: a)
  case (Cons c s)
  show ?case
  proof (cases "prefix sep (c # s)")
    case True
    then show ?thesis using Cons.prems by auto
  next
    case False
    then show ?thesis using Cons by (fastforce simp: less_Suc_eq)
  qed
qed simp

text \<open>\<open>len\<close> is the length of the bytes that have arrived.\<close>

function header_lines :: "int \<Rightarrow> string \<Rightarrow> sniff_verdict" where
  "header_lines len rest =
     (case go_cut crlf rest of
        None \<Rightarrow> Need (len + 1)
      | Some (line, tail) \<Rightarrow>
          if line = [] then Reject ErrNoClue
          else (case go_cut '':'' line of
              None \<Rightarrow> header_lines len tail
            | Some (key, val) \<Rightarrow>
                if EqualFold key ''host'' then parseHost (TrimSpace val) else header_lines len tail))"
  by pat_completeness auto

termination header_lines
  by (relation "measure (\<lambda>(_, rest). length rest)") (auto dest!: go_cut_length simp: crlf_def)

definition parseHeaderHostH1 :: "string \<Rightarrow> sniff_verdict" where
  "parseHeaderHostH1 b = header_lines (int (length b)) b"

definition sniffHTTP1 :: "string \<Rightarrow> sniff_verdict" where
  "sniffHTTP1 b =
     (case go_cut '' '' b of
        None \<Rightarrow> if isHTTPMethodPrefix b then Need (int (length b) + 1) else Reject ErrNotHTTP
      | Some (method, _) \<Rightarrow>
          if \<not> isHTTPMethod method then Reject ErrNotHTTP
          else case go_cut crlf b of
              None \<Rightarrow> Need (int (length b) + 1)
            | Some (req, _) \<Rightarrow>
                if length req < 14 then Reject ErrNoClue
                else case go_cut '' '' req of
                    None \<Rightarrow> Reject ErrNoClue
                  | Some (_, rest) \<Rightarrow> (case go_cut '' '' rest of
                        None \<Rightarrow> Reject ErrNoClue
                      | Some (uri, _) \<Rightarrow>
                          if uri = [] then Reject ErrNoClue
                          else if hd uri = CHR ''/'' \<or> hd uri = CHR ''*'' then parseHeaderHostH1 b
                          else let uri = (case go_cut ''://'' uri of Some (_, after) \<Rightarrow> after | None \<Rightarrow> uri);
                                   uri = takeWhile (\<lambda>c. c \<notin> {CHR ''/'', CHR ''?'', CHR ''#''}) uri;
                                   uri = (case go_cut ''@'' uri of Some (_, after) \<Rightarrow> after | None \<Rightarrow> uri)
                            in case parseHost uri of Found h \<Rightarrow> Found h | _ \<Rightarrow> parseHeaderHostH1 b))"

section \<open>HTTP/2\<close>

text \<open>\<open>hpack.Decoder.Write\<close>: the decoder afterwards, the fields it called back with, and whether there
  was an error.\<close>

type_synonym 'd hpack = "'d \<Rightarrow> byte list \<Rightarrow> 'd \<times> (string \<times> string) list \<times> bool"

definition note_field :: "string \<times> string \<Rightarrow> string \<times> string \<Rightarrow> string \<times> string" where
  "note_field f = (\<lambda>(authority, host).
     if fst f = '':authority'' then (snd f, host) else if fst f = ''host'' then (authority, snd f) else (authority, host))"

record frame =
  fr_length :: int
  fr_type :: byte
  fr_flags :: byte
  fr_stream :: int

definition read_frame :: "byte list \<Rightarrow> frame step" where
  "read_frame b =
     sbind (read (slice_of b 0 3)) (\<lambda>len. sbind (read (get_at b 3)) (\<lambda>ty. sbind (read (get_at b 4)) (\<lambda>flags.
     sbind (read (slice_of b 5 9)) (\<lambda>sid.
       Ret (Inr \<lparr>fr_length = be_get len, fr_type = ty, fr_flags = flags, fr_stream = be_get sid mod 2 ^ 31\<rparr>)))))"

text \<open>The checks of a frame header, \<open>first\<close> when it is the first of the connection: whether it is
  refused.\<close>

definition frame_refused :: "bool \<Rightarrow> int \<Rightarrow> frame \<Rightarrow> bool" where
  "frame_refused first headerStreamID f =
     (let ack = (fr_flags f AND 1 \<noteq> 0) in
      (first \<and> (fr_type f \<noteq> 4 \<or> ack)) \<or>
      fr_length f > 2 ^ 14 \<or>
      (fr_type f = 4 \<and> (fr_stream f \<noteq> 0 \<or> ack \<and> fr_length f \<noteq> 0 \<or> \<not> ack \<and> fr_length f mod 6 \<noteq> 0)) \<or>
      (if headerStreamID = 0 then fr_type f = 9 \<or> fr_type f = 1 \<and> fr_stream f = 0
       else fr_type f \<noteq> 9 \<or> fr_stream f \<noteq> headerStreamID))"

text \<open>The part of a HEADERS frame between padding and priority that holds header fields.\<close>

definition fragment_of :: "frame \<Rightarrow> byte list \<Rightarrow> int \<Rightarrow> (int \<times> int) step" where
  "fragment_of f b payloadOffset =
     (if fr_type f = 1 then
        sbind (if fr_flags f AND 8 \<noteq> 0 then
             if fr_length f = 0 then stop (Reject ErrNoClue)
             else if length b = 0 then stop (Need (payloadOffset + 1))
             else sbind (read (get_at b 0)) (\<lambda>padLen.
               if uint padLen \<ge> fr_length f then stop (Reject ErrNoClue)
               else Ret (Inr (1, fr_length f - uint padLen)))
           else Ret (Inr (0, fr_length f)))
          (\<lambda>(s, e). if fr_flags f AND 0x20 \<noteq> 0 then
               if e - s < 5 then stop (Reject ErrNoClue) else Ret (Inr (s + 5, e))
             else Ret (Inr (s, e)))
      else Ret (Inr (0, fr_length f)))"

function h2_frames ::
  "'d hpack \<Rightarrow> int \<Rightarrow> 'd \<Rightarrow> string \<times> string \<Rightarrow> int \<Rightarrow> byte list \<Rightarrow> unit step" where
  "h2_frames hp tot dc fds headerStreamID b0 =
     (if length b0 < 9 then stop (Need (tot - int (length b0) + 9))
      else sbind (read_frame b0) (\<lambda>f.
        let b = drop 9 b0; payloadOffset = tot - int (length b) in
        if frame_refused (payloadOffset = int (length h2ClientPreface) + 9) headerStreamID f
        then stop (Reject ErrNoClue)
        else if headerStreamID = 0 \<and> fr_type f \<noteq> 1 then
          (if int (length b) < fr_length f then stop (Need (payloadOffset + fr_length f))
           else h2_frames hp tot dc fds headerStreamID (drop (nat (fr_length f)) b))
        else let headerStreamID = (if headerStreamID = 0 then fr_stream f else headerStreamID) in
          sbind (fragment_of f b payloadOffset) (\<lambda>(fragmentStart, fragmentEnd).
            let availableEnd = min (int (length b)) fragmentEnd in
            sbind
              (if availableEnd > fragmentStart then
                 sbind (read (slice_of b fragmentStart availableEnd)) (\<lambda>bytes.
                   let (dc, fs, err) = hp dc bytes; (authority, host) = fold note_field fs fds in
                   if authority \<noteq> [] then stop (parseHost authority)
                   else if host \<noteq> [] then stop (parseHost host)
                   else if err then stop (Reject ErrNoClue)
                   else Ret (Inr (dc, (authority, host))))
               else Ret (Inr (dc, fds)))
              (\<lambda>(dc, fds).
                if fr_flags f AND 4 \<noteq> 0 \<and> (fragmentStart = fragmentEnd \<or> availableEnd = fragmentEnd)
                then stop (Reject ErrNoClue)
                else if int (length b) < fr_length f then
                  stop (Need (if availableEnd < fragmentEnd then
                       (if int (length b) < fragmentStart then payloadOffset + fragmentStart + 1 else tot + 1)
                     else payloadOffset + fr_length f))
                else h2_frames hp tot dc fds headerStreamID (drop (nat (fr_length f)) b)))))"
  by pat_completeness auto

termination h2_frames
  by (relation "measure (\<lambda>(_, _, _, _, _, b). length b)") auto

definition sniffHTTP2 :: "'d hpack \<Rightarrow> 'd \<Rightarrow> byte list \<Rightarrow> unit step" where
  "sniffHTTP2 hp dc b =
     h2_frames hp (int (length b)) dc ([], []) 0 (drop (length h2ClientPreface) b)"

definition HTTP_SniffData :: "'d hpack \<Rightarrow> 'd \<Rightarrow> byte list \<Rightarrow> unit step" where
  "HTTP_SniffData hp dc b =
     (let s = text_of b in
      if length b < length h2ClientPreface then
        if prefix s h2ClientPreface then stop (Need (int (length b) + 1)) else stop (sniffHTTP1 s)
      else if prefix h2ClientPreface s then sniffHTTP2 hp dc b
      else stop (sniffHTTP1 s))"

declare header_lines.simps [simp del] h2_frames.simps [simp del]

section \<open>Every run ends with a verdict, and asks for more than it has\<close>

definition sound_step :: "int \<Rightarrow> 'a step \<Rightarrow> bool" where
  "sound_step len m \<longleftrightarrow> ends m \<and> (\<forall>n. m = Ret (Inl (Need n)) \<longrightarrow> len < n)"

lemma sound_sbind:
  "sound_step len m \<Longrightarrow> (\<And>x. m = Ret (Inr x) \<Longrightarrow> sound_step len (f x)) \<Longrightarrow> sound_step len (sbind m f)"
  by (auto simp: sound_step_def sbind_Inl_iff intro: ends_sbind)

lemma sound_stop: "(\<And>n. v = Need n \<Longrightarrow> len < n) \<Longrightarrow> sound_step len (stop v)"
  by (simp add: sound_step_def stop_def)

lemma sound_Inr [simp]: "sound_step len (Ret (Inr x))"
  by (simp add: sound_step_def)

lemma sound_read: "ends (read m) \<Longrightarrow> sound_step len (read m)"
  by (simp add: sound_step_def)

lemma parseHost_no_need [simp]: "parseHost h \<noteq> Need n"
  by (simp add: parseHost_def Let_def)

lemma header_lines_need: "header_lines len rest = Need n \<Longrightarrow> n = len + 1"
proof (induction len rest rule: header_lines.induct)
  case (1 len rest)
  then show ?case unfolding header_lines.simps[of len rest] by (auto split: option.splits if_splits)
qed

lemma sniffHTTP1_need: "sniffHTTP1 b = Need n \<Longrightarrow> n = int (length b) + 1"
  by (auto simp: sniffHTTP1_def parseHeaderHostH1_def Let_def dest!: header_lines_need
    split: option.splits if_splits sniff_verdict.splits)

lemma be_get_nonneg: "0 \<le> be_get bs"
proof -
  have "0 \<le> a \<Longrightarrow> 0 \<le> foldl (\<lambda>a b. a * 256 + uint b) a bs" for a by (induction bs arbitrary: a) auto
  then show ?thesis by (simp add: be_get_def)
qed

lemma read_frame_sound: "9 \<le> length b \<Longrightarrow> sound_step len (read_frame b)"
  unfolding read_frame_def by (intro sound_sbind sound_read ends_slice ends_get sound_Inr) auto

lemma read_frame_length: "read_frame b = Ret (Inr f) \<Longrightarrow> 0 \<le> fr_length f"
  using be_get_nonneg by (auto simp: read_frame_def sbind_Inr_iff)

lemma fragment_sound:
  "po + int (length b) = tot \<Longrightarrow> sound_step tot (fragment_of f b po)"
  by (auto simp: fragment_of_def intro!: sound_sbind sound_stop sound_read ends_get split: prod.split)

lemma fragment_range:
  "fragment_of f b po = Ret (Inr (s, e)) \<Longrightarrow> 0 \<le> fr_length f \<Longrightarrow> 0 \<le> s \<and> s \<le> e \<and> e \<le> fr_length f"
  by (auto simp: fragment_of_def sbind_Inr_iff split: if_splits)

lemma h2_frames_sound:
  "int (length b) \<le> tot \<Longrightarrow> sound_step tot (h2_frames hp tot dc fds sid b)"
proof (induction "length b" arbitrary: b dc fds sid rule: less_induct)
  case less
  show ?case
  proof (cases "length b < 9")
    case True
    then show ?thesis using less.prems unfolding h2_frames.simps[of hp tot dc fds sid b]
      by (auto intro!: sound_stop)
  next
    case False
    have len: "int (length (drop 9 b)) = int (length b) - 9" using False by simp
    have hyp: "sound_step tot (h2_frames hp tot dc fds sid (drop (n + 9) b))" for dc fds sid n
      by (rule less.hyps) (use False less.prems in simp_all)
    show ?thesis unfolding h2_frames.simps[of hp tot dc fds sid b] Let_def
      using False less.prems
      by (auto intro!: sound_sbind read_frame_sound sound_stop hyp fragment_sound sound_read ends_slice
        dest!: read_frame_length fragment_range split: prod.splits)
  qed
qed

lemma h2_frames_no_value: "h2_frames hp tot dc fds sid b \<noteq> Ret (Inr u)"
proof (induction "length b" arbitrary: b dc fds sid rule: less_induct)
  case less
  show ?case
  proof (cases "length b < 9")
    case True
    then show ?thesis unfolding h2_frames.simps[of hp tot dc fds sid b] by simp
  next
    case False
    have hyp: "(h2_frames hp tot dc fds sid (drop (n + 9) b) = Ret (Inr ())) = False" for dc fds sid n
      using less.hyps[of "drop (n + 9) b" dc fds sid] False by simp
    show ?thesis unfolding h2_frames.simps[of hp tot dc fds sid b] Let_def using False
      by (auto simp: sbind_Inr_iff hyp split: prod.splits)
  qed
qed

lemma HTTP_verdict:
  obtains v where "HTTP_SniffData hp dc b = Ret (Inl v)" and "\<And>n. v = Need n \<Longrightarrow> int (length b) < n"
proof -
  have len: "length (text_of b) = length b" by (simp add: text_of_def)
  have "sound_step (int (length b)) (HTTP_SniffData hp dc b) \<and> HTTP_SniffData hp dc b \<noteq> Ret (Inr ())"
    using h2_frames_sound[of "drop (length h2ClientPreface) b" "int (length b)" hp dc "([], [])" 0]
      h2_frames_no_value[of hp "int (length b)" dc "([], [])" 0 "drop (length h2ClientPreface) b" "()"]
    by (auto simp: HTTP_SniffData_def Let_def sniffHTTP2_def len intro!: sound_stop dest: sniffHTTP1_need)
  then have "ends (HTTP_SniffData hp dc b)" "HTTP_SniffData hp dc b \<noteq> Ret (Inr ())"
    "\<And>n. HTTP_SniffData hp dc b = Ret (Inl (Need n)) \<Longrightarrow> int (length b) < n"
    by (auto simp: sound_step_def)
  then show ?thesis using that unfolding ends_iff by (metis sum.exhaust unit.exhaust)
qed

end
