(* ===== verification/SniffDispatch.thy ===== *)
theory SniffDispatch
  imports SniffHTTP Lru Metadata IntRanges
begin

text \<open>
  The sniffing dispatcher (\<open>component/sniffer/dispatcher.go\<close>): which connections are sniffed, the
  rounds in which the sniffers that apply see more and more of the connection, and what a sniffed
  name does to the metadata. A connection (\<open>N.BufferedConn\<close>) is the bytes buffered so far and the
  pieces that will arrive before the deadline; once they are used up a read fails.
\<close>

section \<open>Connections that are peeked at\<close>

record bconn =
  bc_buf :: "byte list"
  bc_in :: "byte list list"

fun bc_fill :: "int \<Rightarrow> byte list \<Rightarrow> byte list list \<Rightarrow> bool \<times> bconn" where
  "bc_fill n buf [] = (n \<le> int (length buf), \<lparr>bc_buf = buf, bc_in = []\<rparr>)"
| "bc_fill n buf (p # ps) =
     (if n \<le> int (length buf) then (True, \<lparr>bc_buf = buf, bc_in = p # ps\<rparr>)
      else bc_fill n (buf @ p) ps)"

text \<open>\<open>Peek\<close>, into a buffer that was grown to hold \<open>n\<close> bytes: whether there are that many.\<close>

definition bc_Peek :: "int \<Rightarrow> bconn \<Rightarrow> bool \<times> bconn" where
  "bc_Peek n c = bc_fill n (bc_buf c) (bc_in c)"

definition bc_all :: "bconn \<Rightarrow> byte list" where
  "bc_all c = bc_buf c @ concat (bc_in c)"

lemma bc_Peek_all: "bc_Peek n c = (ok, c') \<Longrightarrow> bc_all c' = bc_all c"
proof -
  have "bc_fill n buf ps = (ok, c') \<Longrightarrow> bc_all c' = buf @ concat ps" for buf ps
    by (induction n buf ps rule: bc_fill.induct) (auto simp: bc_all_def split: if_splits)
  then show "bc_Peek n c = (ok, c') \<Longrightarrow> bc_all c' = bc_all c" by (simp add: bc_Peek_def bc_all_def)
qed

lemma bc_Peek_in:
  "bc_Peek n c = (ok, c') \<Longrightarrow> length (bc_in c') \<le> length (bc_in c) \<and>
     (int (length (bc_buf c)) < n \<and> ok \<longrightarrow> length (bc_in c') < length (bc_in c)) \<and> (ok \<longrightarrow> n \<le> int (length (bc_buf c')))"
proof -
  have "bc_fill n buf ps = (ok, c') \<Longrightarrow> length (bc_in c') \<le> length ps \<and>
     (int (length buf) < n \<and> ok \<longrightarrow> length (bc_in c') < length ps) \<and> (ok \<longrightarrow> n \<le> int (length (bc_buf c')))" for buf ps
    by (induction n buf ps rule: bc_fill.induct) (fastforce split: if_splits)+
  then show "bc_Peek n c = (ok, c') \<Longrightarrow> length (bc_in c') \<le> length (bc_in c) \<and>
     (int (length (bc_buf c)) < n \<and> ok \<longrightarrow> length (bc_in c') < length (bc_in c)) \<and>
     (ok \<longrightarrow> n \<le> int (length (bc_buf c')))"
    unfolding bc_Peek_def by blast
qed

section \<open>Configured sniffers\<close>

datatype sniff_type = STLS | SHTTP | SQUIC | OtherSniff int

definition sniff_List :: "sniff_type list" where "sniff_List = [STLS, SHTTP, SQUIC]"

record sniff_config =
  sc_OverrideDest :: bool
  sc_Ports :: "16 word rng list"

record csniffer =
  cs_type :: sniff_type
  cs_ports :: "16 word rng list"
  cs_config :: sniff_config

definition NewSniffer :: "sniff_type \<Rightarrow> sniff_config \<Rightarrow> csniffer option" where
  "NewSniffer t config =
     (let ports = (\<lambda>p. if sc_Ports config = [] then [NewRange p p] else sc_Ports config);
          new = (\<lambda>p. Some \<lparr>cs_type = t, cs_ports = ports p, cs_config = config\<rparr>) in
      case t of STLS \<Rightarrow> new 443 | SHTTP \<Rightarrow> new 80 | SQUIC \<Rightarrow> new 443 | OtherSniff _ \<Rightarrow> None)"

definition SupportNetwork :: "sniff_type \<Rightarrow> network" where
  "SupportNetwork t = (case t of SQUIC \<Rightarrow> UDP | _ \<Rightarrow> TCP)"

definition supportsNetwork :: "csniffer \<Rightarrow> network \<Rightarrow> bool" where
  "supportsNetwork s network \<longleftrightarrow> SupportNetwork (cs_type s) = network \<or> SupportNetwork (cs_type s) = ALLNet"

definition SupportPort :: "csniffer \<Rightarrow> 16 word \<Rightarrow> bool" where
  "SupportPort s port = ir_Check (cs_ports s) port"

text \<open>\<open>SniffData\<close> of the sniffers; the QUIC sniffer takes packets through its sender instead.\<close>

definition SniffData :: "'d hpack \<Rightarrow> 'd \<Rightarrow> csniffer \<Rightarrow> byte list \<Rightarrow> unit step" where
  "SniffData hp dc s data =
     (case cs_type s of
        STLS \<Rightarrow> SniffTLS data
      | SHTTP \<Rightarrow> HTTP_SniffData hp dc data
      | _ \<Rightarrow> stop (Reject ErrOther))"

section \<open>Sniffing a connection\<close>

definition maxSniffBufferSize :: int where "maxSniffBufferSize = 64 * 1024"

text \<open>The library's test for domain names is a parameter.\<close>

record 'd dispatcher =
  sd_enable :: bool
  sd_sniffers :: "csniffer list"
  sd_forceDomain :: "(string \<Rightarrow> bool) list"
  sd_skipSrcAddress :: "(addr \<Rightarrow> bool) list"
  sd_skipDstAddress :: "(addr \<Rightarrow> bool) list"
  sd_skipDomain :: "(string \<Rightarrow> bool) list"
  sd_skipList :: "(addr \<times> 16 word, 8 word) lru"
  sd_forceDnsMapping :: bool
  sd_parsePureIp :: bool
  sd_isDomainName :: "string \<Rightarrow> bool"
  sd_hpack :: "'d hpack"
  sd_decoder :: 'd

definition isValidSniffHost :: "'d dispatcher \<Rightarrow> string \<Rightarrow> bool" where
  "isValidSniffHost sd host \<longleftrightarrow> host \<noteq> ''.'' \<and> sd_isDomainName sd host"

definition domainCanReplace :: "'d dispatcher \<Rightarrow> string \<Rightarrow> bool" where
  "domainCanReplace sd host \<longleftrightarrow>
     isValidSniffHost sd host \<and> \<not> (\<exists>matches \<in> set (sd_skipDomain sd). matches host)"

text \<open>What becomes of a candidate in a round: it found a name, it is dropped, or it waits for more.\<close>

datatype turn = Hit string | Drop | Wait int

fun judge :: "'d dispatcher \<Rightarrow> int \<Rightarrow> sniff_verdict + unit \<Rightarrow> turn" where
  "judge sd len (Inl (Found host)) = (if isValidSniffHost sd host then Hit host else Drop)"
| "judge sd len (Inl (Need n)) = (if n \<le> len then Drop else Wait n)"
| "judge sd len _ = Drop"

definition sniff_one :: "'d dispatcher \<Rightarrow> byte list \<Rightarrow> csniffer \<Rightarrow> int \<Rightarrow> turn outcome" where
  "sniff_one sd data s want =
     (if want \<le> int (length data) then
        obind (SniffData (sd_hpack sd) (sd_decoder sd) s data) (\<lambda>r. Ret (judge sd (int (length data)) r))
      else Ret (Wait want))"

text \<open>One round: the name found and the configuration of its sniffer, or the candidates that wait.\<close>

fun sniff_round ::
  "'d dispatcher \<Rightarrow> byte list \<Rightarrow> (csniffer \<times> int) list \<Rightarrow> (string \<times> sniff_config + (csniffer \<times> int) list) outcome" where
  "sniff_round sd data [] = Ret (Inr [])"
| "sniff_round sd data ((s, want) # cs) =
     obind (sniff_one sd data s want) (\<lambda>t. case t of
         Hit host \<Rightarrow> Ret (Inl (host, cs_config s))
       | Drop \<Rightarrow> sniff_round sd data cs
       | Wait n \<Rightarrow> obind (sniff_round sd data cs) (\<lambda>r. Ret (case r of Inl x \<Rightarrow> Inl x | Inr rs \<Rightarrow> Inr ((s, n) # rs))))"

lemma judge_Wait: "judge sd len r = Wait n \<Longrightarrow> len < n"
  by (induction sd len r rule: judge.induct) (auto split: if_splits)

lemma judge_Hit: "judge sd len r = Hit host \<Longrightarrow> isValidSniffHost sd host"
  by (induction sd len r rule: judge.induct) (auto split: if_splits)

lemma sniff_one_wait: "sniff_one sd data s want = Ret (Wait n) \<Longrightarrow> int (length data) < n"
  by (auto simp: sniff_one_def obind_Ret_iff dest: judge_Wait split: if_splits)

lemma sniff_round_want:
  "sniff_round sd data cs = Ret (Inr rs) \<Longrightarrow> (s, w) \<in> set rs \<Longrightarrow> int (length data) < w"
proof (induction cs arbitrary: rs)
  case (Cons c cs)
  obtain s' want where c: "c = (s', want)" by (cases c)
  from Cons.prems(1) c obtain t where t: "sniff_one sd data s' want = Ret t"
    by (auto simp: obind_Ret_iff)
  show ?case
  proof (cases t)
    case (Wait n)
    then obtain r where r: "sniff_round sd data cs = Ret r" "(case r of Inl x \<Rightarrow> Inl x | Inr rs \<Rightarrow> Inr ((s', n) # rs)) = Inr rs"
      using Cons.prems(1) c t by (auto simp: obind_Ret_iff)
    then obtain rs' where "r = Inr rs'" "rs = (s', n) # rs'" by (cases r) auto
    moreover have "int (length data) < n" using sniff_one_wait t Wait by blast
    ultimately show ?thesis using Cons.IH[of rs'] Cons.prems(2) r(1) by auto
  qed (use Cons c t in simp_all)
qed simp

definition next_want :: "(csniffer \<times> int) list \<Rightarrow> int" where
  "next_want rs = foldl (\<lambda>w (s, want). if w = 0 \<or> want < w then want else w) 0 rs"

lemma next_want_greater:
  assumes "\<And>s w. (s, w) \<in> set rs \<Longrightarrow> L < w" "rs \<noteq> []" "0 \<le> L"
  shows "L < next_want rs"
proof -
  have "L < w \<or> w = 0 \<and> rs \<noteq> [] \<Longrightarrow> \<forall>(s, w) \<in> set rs. L < w \<Longrightarrow>
      L < foldl (\<lambda>w (s, want). if w = 0 \<or> want < w then want else w) w rs" for w
    by (induction rs arbitrary: w) (use assms(3) in \<open>auto split: if_splits\<close>)
  then show ?thesis using assms by (auto simp: next_want_def)
qed

function sniff_rounds ::
  "'d dispatcher \<Rightarrow> (csniffer \<times> int) list \<Rightarrow> int \<Rightarrow> bconn \<Rightarrow> ((string \<times> sniff_config) option \<times> bconn) outcome" where
  "sniff_rounds sd cands want conn =
     (if cands = [] then Ret (None, conn)
      else if want > maxSniffBufferSize \<and> want > int (length (bc_buf conn)) then Ret (None, conn)
      else let (ok, conn') = bc_Peek want conn in
        if \<not> ok then Ret (None, conn')
        else obind (sniff_round sd (bc_buf conn') cands) (\<lambda>r. case r of
            Inl x \<Rightarrow> Ret (Some x, conn')
          | Inr rs \<Rightarrow> sniff_rounds sd rs (next_want rs) conn'))"
  by pat_completeness auto

text \<open>Every round but the first waits for bytes that are not there yet, so it takes a piece.\<close>

termination sniff_rounds
proof (relation "measures [\<lambda>(sd, cs, w, c). length (bc_in c),
    \<lambda>(sd, cs, w, c). if cs = [] then 0 else if w \<le> int (length (bc_buf c)) then 2 else 1]", goal_cases)
  case (2 sd cands want conn r ok conn' x rs)
  then have peek: "bc_Peek want conn = (True, conn')" and rs: "sniff_round sd (bc_buf conn') cands = Ret (Inr rs)"
    by (auto split: if_splits)
  have "rs \<noteq> [] \<Longrightarrow> int (length (bc_buf conn')) < next_want rs"
    using sniff_round_want[OF rs] by (intro next_want_greater) auto
  then show ?case using bc_Peek_in[OF peek] 2(1) by auto
qed simp

declare sniff_rounds.simps [simp del]

definition sniffDomain ::
  "'d dispatcher \<Rightarrow> bconn \<Rightarrow> metadata \<Rightarrow> ((string \<times> sniff_config) option \<times> bconn) outcome" where
  "sniffDomain sd conn m =
     (let cands = map (\<lambda>s. (s, 1))
        (filter (\<lambda>s. supportsNetwork s TCP \<and> SupportPort s (md_DstPort m)) (sd_sniffers sd)) in
      if cands = [] then Ret (None, conn)
      else let (ok, conn) = bc_Peek 1 conn in
        if \<not> ok then Ret (None, conn)
        else sniff_rounds sd cands (int (length (bc_buf conn))) conn)"

section \<open>The dispatcher\<close>

definition forceSniff :: "'d dispatcher \<Rightarrow> metadata \<Rightarrow> bool" where
  "forceSniff sd m \<longleftrightarrow> (\<exists>matches \<in> set (sd_forceDomain sd). matches (md_Host m))"

definition shouldOverride :: "'d dispatcher \<Rightarrow> metadata \<Rightarrow> bool" where
  "shouldOverride sd m \<longleftrightarrow>
     \<not> (\<exists>matches \<in> set (sd_skipDstAddress sd). matches (md_DstIP m)) \<and>
     \<not> (\<exists>matches \<in> set (sd_skipSrcAddress sd). matches (md_SrcIP m)) \<and>
     (md_Host m = [] \<and> sd_parsePureIp sd \<or> md_DNSMode m = DNSMapping \<and> sd_forceDnsMapping sd \<or> forceSniff sd m)"

definition replaceDomain :: "metadata \<Rightarrow> string \<Rightarrow> bool \<Rightarrow> metadata" where
  "replaceDomain m0 host overrideDest =
     (let m = m0\<lparr>md_SniffHost := host\<rparr>;
          m = (if overrideDest then m\<lparr>md_Host := host, md_DstIP := NoAddr\<rparr> else m)
      in m\<lparr>md_DNSMode := DNSNormal\<rparr>)"

definition sd_Enable :: "'d dispatcher option \<Rightarrow> bool" where
  "sd_Enable sd = (case sd of None \<Rightarrow> False | Some d \<Rightarrow> sd_enable d)"

definition cacheSniffFailed :: "int \<Rightarrow> 'd dispatcher \<Rightarrow> metadata \<Rightarrow> 'd dispatcher" where
  "cacheSniffFailed now sd m =
     sd\<lparr>sd_skipList := snd (lru_Compute now (md_AddrPort m)
       (\<lambda>old. let oldValue = (case old of None \<Rightarrow> 0 | Some v \<Rightarrow> v) in
          (if oldValue \<le> 5 then oldValue + 1 else oldValue, False)) (sd_skipList sd))\<rparr>"

text \<open>Whether the connection was sniffed, the connection, the metadata and the dispatcher after it.\<close>

definition TCPSniff ::
  "int \<Rightarrow> 'd dispatcher \<Rightarrow> bconn \<Rightarrow> metadata \<Rightarrow> (bool \<times> bconn \<times> metadata \<times> 'd dispatcher) outcome" where
  "TCPSniff now sd conn m =
     (if \<not> shouldOverride sd m then Ret (False, conn, m, sd)
      else if \<not> (\<exists>s \<in> set (sd_sniffers sd). supportsNetwork s TCP \<and> SupportPort s (md_DstPort m))
      then Ret (False, conn, m, sd)
      else let forceSniffer = forceSniff sd m; dst = md_AddrPort m;
               (skip, sd) = (if forceSniffer then (False, sd)
                 else let (count, c) = lru_Get now dst (sd_skipList sd) in
                   ((case count of None \<Rightarrow> False | Some n \<Rightarrow> n > 5), sd\<lparr>sd_skipList := c\<rparr>))
        in if skip then Ret (False, conn, m, sd)
           else obind (sniffDomain sd conn m) (\<lambda>(found, conn). case found of
               None \<Rightarrow> Ret (False, conn, m, if forceSniffer then sd else cacheSniffFailed now sd m)
             | Some (host, config) \<Rightarrow>
                 if \<not> domainCanReplace sd host then Ret (False, conn, m, sd)
                 else Ret (True, conn, replaceDomain m host (sc_OverrideDest config),
                   sd\<lparr>sd_skipList := lru_Delete dst (sd_skipList sd)\<rparr>)))"

text \<open>\<open>UDPSniff\<close>: the metadata after it, and the sniffer that takes over the packets, if one does; the
  names it finds later are put into the metadata by \<open>udp_replace\<close>.\<close>

definition udp_replace :: "'d dispatcher \<Rightarrow> csniffer \<Rightarrow> metadata \<Rightarrow> string \<Rightarrow> metadata" where
  "udp_replace sd s m host =
     (if domainCanReplace sd host then replaceDomain m host (sc_OverrideDest (cs_config s)) else m)"

fun udp_sniffers ::
  "'d dispatcher \<Rightarrow> byte list \<Rightarrow> metadata \<Rightarrow> csniffer list \<Rightarrow> (metadata \<times> csniffer option) outcome" where
  "udp_sniffers sd data m [] = Ret (m, None)"
| "udp_sniffers sd data m (s # ss) =
     (if supportsNetwork s UDP \<and> SupportPort s (md_DstPort m) then
        if cs_type s = SQUIC then Ret (m, Some s)
        else obind (SniffData (sd_hpack sd) (sd_decoder sd) s data) (\<lambda>r. case r of
            Inl (Found host) \<Rightarrow> Ret (udp_replace sd s m host, None)
          | _ \<Rightarrow> udp_sniffers sd data m ss)
      else udp_sniffers sd data m ss)"

definition UDPSniff :: "'d dispatcher \<Rightarrow> byte list \<Rightarrow> metadata \<Rightarrow> (metadata \<times> csniffer option) outcome" where
  "UDPSniff sd data m = (if shouldOverride sd m then udp_sniffers sd data m (sd_sniffers sd) else Ret (m, None))"

record sniffer_conf =
  cn_Enable :: bool
  cn_Sniffers :: "(sniff_type \<times> sniff_config) list"
  cn_ForceDomain :: "(string \<Rightarrow> bool) list"
  cn_SkipSrcAddress :: "(addr \<Rightarrow> bool) list"
  cn_SkipDstAddress :: "(addr \<Rightarrow> bool) list"
  cn_SkipDomain :: "(string \<Rightarrow> bool) list"
  cn_ForceDnsMapping :: bool
  cn_ParsePureIp :: bool

fun make_sniffers :: "(sniff_type \<times> sniff_config) list \<Rightarrow> sniff_type list \<Rightarrow> csniffer list option" where
  "make_sniffers cfg [] = Some []"
| "make_sniffers cfg (t # ts) =
     (case map_of cfg t of
        None \<Rightarrow> make_sniffers cfg ts
      | Some config \<Rightarrow> (case NewSniffer t config of
          None \<Rightarrow> None
        | Some s \<Rightarrow> map_option (\<lambda>ss. s # ss) (make_sniffers cfg ts)))"

definition NewDispatcher ::
  "(string \<Rightarrow> bool) \<Rightarrow> 'd hpack \<Rightarrow> 'd \<Rightarrow> sniffer_conf \<Rightarrow> 'd dispatcher option" where
  "NewDispatcher isDomainName hp dc c =
     (case make_sniffers (cn_Sniffers c) sniff_List of
        None \<Rightarrow> None
      | Some ss \<Rightarrow>
          if length ss \<noteq> length (cn_Sniffers c) \<and> (\<exists>t \<in> fst ` set (cn_Sniffers c). t \<notin> set sniff_List) then None
          else Some \<lparr>sd_enable = cn_Enable c, sd_sniffers = ss, sd_forceDomain = cn_ForceDomain c,
            sd_skipSrcAddress = cn_SkipSrcAddress c, sd_skipDstAddress = cn_SkipDstAddress c,
            sd_skipDomain = cn_SkipDomain c, sd_skipList = lru_New 600 128 False False,
            sd_forceDnsMapping = cn_ForceDnsMapping c, sd_parsePureIp = cn_ParsePureIp c,
            sd_isDomainName = isDomainName, sd_hpack = hp, sd_decoder = dc\<rparr>)"

section \<open>Sniffing ends, loses no byte and changes only what it may\<close>

lemma SniffData_verdict: obtains v where "SniffData hp dc s data = Ret (Inl v)"
proof -
  have tls: "\<exists>v. SniffTLS data = Ret (Inl v)" using sniff_records_verdict[of 0 data "[]"] by (auto simp: SniffTLS_def)
  have "\<exists>v. HTTP_SniffData hp dc data = Ret (Inl v)" using HTTP_verdict[of hp dc data] by metis
  with tls have "\<exists>v. SniffData hp dc s data = Ret (Inl v)"
    by (cases "cs_type s") (auto simp: SniffData_def stop_def)
  then show ?thesis using that by blast
qed

lemma sniff_one_ends: obtains t where "sniff_one sd data s want = Ret t"
proof -
  obtain v where "SniffData (sd_hpack sd) (sd_decoder sd) s data = Ret (Inl v)" by (rule SniffData_verdict)
  then show ?thesis using that by (cases "want \<le> int (length data)") (auto simp: sniff_one_def)
qed

lemma sniff_round_result:
  obtains (found) host s where "sniff_round sd data cs = Ret (Inl (host, cs_config s))" "s \<in> fst ` set cs"
  | (left) rs where "sniff_round sd data cs = Ret (Inr rs)" "fst ` set rs \<subseteq> fst ` set cs"
proof -
  have "(\<exists>host s. sniff_round sd data cs = Ret (Inl (host, cs_config s)) \<and> s \<in> fst ` set cs) \<or>
    (\<exists>rs. sniff_round sd data cs = Ret (Inr rs) \<and> fst ` set rs \<subseteq> fst ` set cs)"
  proof (induction cs)
    case (Cons c cs)
    obtain s want where c: "c = (s, want)" by (cases c)
    obtain t where t: "sniff_one sd data s want = Ret t" by (rule sniff_one_ends)
    show ?case
    proof (cases t)
      case (Hit host)
      then have "sniff_round sd data (c # cs) = Ret (Inl (host, cs_config s))" using t c by simp
      then show ?thesis using c by auto
    next
      case Drop
      then have "sniff_round sd data (c # cs) = sniff_round sd data cs" using t c by simp
      then show ?thesis using Cons by (simp only: list.set image_insert) blast
    next
      case (Wait n)
      from Cons show ?thesis
      proof (elim disjE exE conjE)
        fix host s' assume "sniff_round sd data cs = Ret (Inl (host, cs_config s'))" "s' \<in> fst ` set cs"
        then show ?thesis using t c Wait by auto
      next
        fix rs assume "sniff_round sd data cs = Ret (Inr rs)" "fst ` set rs \<subseteq> fst ` set cs"
        then show ?thesis using t c Wait by (intro disjI2 exI[of _ "(s, n) # rs"]) auto
      qed
    qed
  qed simp
  then show ?thesis using found left by blast
qed

lemma sniff_rounds_result:
  "\<exists>x c'. sniff_rounds sd cs w c = Ret (x, c') \<and> bc_all c' = bc_all c \<and>
     (\<forall>host cfg. x = Some (host, cfg) \<longrightarrow> (\<exists>s \<in> fst ` set cs. cfg = cs_config s))"
proof (induction sd cs w c rule: sniff_rounds.induct)
  case (1 sd cs w c)
  obtain ok c' where peek: "bc_Peek w c = (ok, c')" by fastforce
  have all: "bc_all c' = bc_all c" by (rule bc_Peek_all[OF peek])
  note unf = sniff_rounds.simps[of sd cs w c]
  show ?case
  proof (cases "cs = [] \<or> w > maxSniffBufferSize \<and> w > int (length (bc_buf c)) \<or> \<not> ok")
    case True
    then show ?thesis unfolding unf using peek all by auto
  next
    case False
    then have go: "sniff_rounds sd cs w c = obind (sniff_round sd (bc_buf c') cs) (\<lambda>r. case r of
        Inl x \<Rightarrow> Ret (Some x, c') | Inr rs \<Rightarrow> sniff_rounds sd rs (next_want rs) c')"
      unfolding unf using peek by auto
    show ?thesis
    proof (cases rule: sniff_round_result[of sd "bc_buf c'" cs])
      case (found host s)
      then show ?thesis using go all by auto
    next
      case (left rs)
      have IH: "\<exists>x d. sniff_rounds sd rs (next_want rs) c' = Ret (x, d) \<and> bc_all d = bc_all c' \<and>
          (\<forall>host cfg. x = Some (host, cfg) \<longrightarrow> (\<exists>s \<in> fst ` set rs. cfg = cs_config s))"
        using "1.IH"[of "(ok, c')" ok c' "Inr rs" rs] peek False left(1) by auto
      have "sniff_rounds sd cs w c = sniff_rounds sd rs (next_want rs) c'" using go left(1) by simp
      moreover from IH obtain x d where "sniff_rounds sd rs (next_want rs) c' = Ret (x, d)" "bc_all d = bc_all c'"
        "\<forall>host cfg. x = Some (host, cfg) \<longrightarrow> (\<exists>s \<in> fst ` set rs. cfg = cs_config s)" by blast
      moreover have "\<forall>host cfg. x = Some (host, cfg) \<longrightarrow> (\<exists>s \<in> fst ` set cs. cfg = cs_config s)"
        using calculation(4) left(2) by blast
      ultimately show ?thesis using all by simp
    qed
  qed
qed

lemma sniffDomain_result:
  "\<exists>x c'. sniffDomain sd c m = Ret (x, c') \<and> bc_all c' = bc_all c \<and>
     (\<forall>host cfg. x = Some (host, cfg) \<longrightarrow> (\<exists>s \<in> set (sd_sniffers sd).
        supportsNetwork s TCP \<and> SupportPort s (md_DstPort m) \<and> cfg = cs_config s))"
proof -
  define cands :: "(csniffer \<times> int) list" where "cands = map (\<lambda>s. (s, 1))
    (filter (\<lambda>s. supportsNetwork s TCP \<and> SupportPort s (md_DstPort m)) (sd_sniffers sd))"
  obtain ok c' where peek: "bc_Peek 1 c = (ok, c')" by fastforce
  have all: "bc_all c' = bc_all c" by (rule bc_Peek_all[OF peek])
  have d: "sniffDomain sd c m = (if cands = [] then Ret (None, c) else if \<not> ok then Ret (None, c')
      else sniff_rounds sd cands (int (length (bc_buf c'))) c')"
    unfolding sniffDomain_def Let_def cands_def[symmetric] peek by simp
  have "fst ` set cands = {s \<in> set (sd_sniffers sd). supportsNetwork s TCP \<and> SupportPort s (md_DstPort m)}"
    by (force simp: cands_def)
  then have cfg: "(\<exists>s \<in> fst ` set cands. P s) = (\<exists>s \<in> set (sd_sniffers sd).
        supportsNetwork s TCP \<and> SupportPort s (md_DstPort m) \<and> P s)" for P by blast
  from sniff_rounds_result[of sd cands "int (length (bc_buf c'))" c'] all
  show ?thesis unfolding d cfg by (cases "cands = [] \<or> \<not> ok") auto
qed

lemma cacheSniffFailed_ok: "lru_ok (sd_skipList sd) \<Longrightarrow> lru_ok (sd_skipList (cacheSniffFailed now sd m))"
  using lru_do_ok[of "sd_skipList sd" "CCompute now k f" for k f] by (simp add: cacheSniffFailed_def)

lemma TCPSniff_cases:
  assumes "shouldOverride sd m" "\<exists>s \<in> set (sd_sniffers sd). supportsNetwork s TCP \<and> SupportPort s (md_DstPort m)"
  obtains skip c where "TCPSniff now sd conn m = (if skip then Ret (False, conn, m, sd\<lparr>sd_skipList := c\<rparr>)
      else obind (sniffDomain (sd\<lparr>sd_skipList := c\<rparr>) conn m) (\<lambda>(found, conn). case found of
          None \<Rightarrow> Ret (False, conn, m, if forceSniff sd m then sd\<lparr>sd_skipList := c\<rparr> else cacheSniffFailed now (sd\<lparr>sd_skipList := c\<rparr>) m)
        | Some (host, config) \<Rightarrow>
            if \<not> domainCanReplace sd host then Ret (False, conn, m, sd\<lparr>sd_skipList := c\<rparr>)
            else Ret (True, conn, replaceDomain m host (sc_OverrideDest config),
              sd\<lparr>sd_skipList := lru_Delete (md_AddrPort m) c\<rparr>)))"
    and "lru_ok (sd_skipList sd) \<Longrightarrow> lru_ok c"
proof (cases "forceSniff sd m")
  case True
  show ?thesis by (rule that[of False "sd_skipList sd"])
    (use assms True in \<open>auto simp: TCPSniff_def domainCanReplace_def isValidSniffHost_def intro!: obind_cong split: option.split\<close>)
next
  case False
  obtain count c where g: "lru_Get now (md_AddrPort m) (sd_skipList sd) = (count, c)" by fastforce
  have ok: "lru_ok (sd_skipList sd) \<Longrightarrow> lru_ok c"
    using lru_do_ok[of "sd_skipList sd" "CGet now (md_AddrPort m)"] g by simp
  show ?thesis by (rule that[OF _ ok, of "case count of None \<Rightarrow> False | Some n \<Rightarrow> n > 5"])
    (use assms False g in \<open>auto simp: TCPSniff_def domainCanReplace_def isValidSniffHost_def Let_def intro!: obind_cong
      split: option.split\<close>)
qed


definition demo_dispatcher :: "unit dispatcher" where
  "demo_dispatcher = \<lparr>sd_enable = True, sd_sniffers = [\<lparr>cs_type = STLS, cs_ports = [\<lparr>rg_start = 443, rg_end = 443\<rparr>],
      cs_config = \<lparr>sc_OverrideDest = True, sc_Ports = []\<rparr>\<rparr>], sd_forceDomain = [], sd_skipSrcAddress = [],
    sd_skipDstAddress = [], sd_skipDomain = [], sd_skipList = lru_New 600 128 False False, sd_forceDnsMapping = False,
    sd_parsePureIp = True, sd_isDomainName = \<lambda>s. s \<noteq> [], sd_hpack = \<lambda>d b. (d, [], False), sd_decoder = ()\<rparr>"


end
