(* ===== verification/Adapter.thy ===== *)
theory Adapter
  imports Proxy
begin

text \<open>
  The state every outbound carries (\<open>adapter/adapter.go\<close>): whether the last test of its delay
  succeeded, over all test URLs and per URL, and the last ten delays measured, kept in the queue of
  \<open>common/queue/queue.go\<close>. One test is a function of what the network and the clock answer, which is
  a record; times are nanoseconds.
\<close>

section \<open>Queues\<close>

text \<open>\<open>zero\<close> is the zero value of the element type, which an empty queue answers.\<close>

type_synonym 'a queue = "'a list"

definition qu_New :: "'a queue" where
  "qu_New = []"

definition qu_Put :: "'a list \<Rightarrow> 'a queue \<Rightarrow> 'a queue" where
  "qu_Put items q = (if items = [] then q else q @ items)"

definition qu_Pop :: "'a \<Rightarrow> 'a queue \<Rightarrow> 'a \<times> 'a queue" where
  "qu_Pop zero q = (case q of [] \<Rightarrow> (zero, q) | x # rest \<Rightarrow> (x, rest))"

definition qu_Last :: "'a \<Rightarrow> 'a queue \<Rightarrow> 'a" where
  "qu_Last zero q = (if q = [] then zero else last q)"

definition qu_Copy :: "'a queue \<Rightarrow> 'a list" where
  "qu_Copy q = q"

definition qu_Len :: "'a queue \<Rightarrow> nat" where
  "qu_Len q = length q"

section \<open>The state of a proxy\<close>

record delay_history =
  dh_Time :: int
  dh_Delay :: "16 word"

record url_state =
  us_alive :: bool
  us_history :: "delay_history queue"

record proxy_state =
  ps_alive :: bool
  ps_history :: "delay_history queue"
  ps_extra :: "string \<rightharpoonup> url_state"

definition defaultHistoriesNum :: nat where
  "defaultHistoriesNum = 10"

definition delay_zero :: delay_history where
  "delay_zero = \<lparr>dh_Time = 0, dh_Delay = 0\<rparr>"

definition NewProxy :: proxy_state where
  "NewProxy = \<lparr>ps_alive = True, ps_history = qu_New, ps_extra = Map.empty\<rparr>"

definition AliveForTestUrl :: "string \<Rightarrow> proxy_state \<Rightarrow> bool" where
  "AliveForTestUrl url p =
     (case ps_extra p url of Some state \<Rightarrow> us_alive state | None \<Rightarrow> ps_alive p)"

definition DelayHistory :: "proxy_state \<Rightarrow> delay_history list" where
  "DelayHistory p = qu_Copy (ps_history p)"

definition DelayHistoryForTestUrl :: "string \<Rightarrow> proxy_state \<Rightarrow> delay_history list" where
  "DelayHistoryForTestUrl url p =
     (case ps_extra p url of Some state \<Rightarrow> qu_Copy (us_history state) | None \<Rightarrow> [])"

definition ExtraDelayHistories :: "proxy_state \<Rightarrow> string \<rightharpoonup> bool \<times> delay_history list" where
  "ExtraDelayHistories p =
     (\<lambda>url. map_option (\<lambda>state. (us_alive state, qu_Copy (us_history state))) (ps_extra p url))"

definition LastDelayForTestUrl :: "string \<Rightarrow> proxy_state \<Rightarrow> 16 word" where
  "LastDelayForTestUrl url p =
     (let maxDelay = 0xffff;
          (alive, history) = (case ps_extra p url of
              Some state \<Rightarrow> (us_alive state, qu_Last delay_zero (us_history state))
            | None \<Rightarrow> (False, delay_zero)) in
      if \<not> alive \<or> dh_Delay history = 0 then maxDelay else dh_Delay history)"

section \<open>Testing a proxy\<close>

text \<open>What a test meets: \<open>url.Parse\<close> (scheme, host name, port), the three preparations that may fail,
  the status codes of the two requests, and the clock at the start, before the second request and
  at the end. The clock is monotonic, so the difference is not negative and \<open>div\<close> is Go's division.\<close>

record probe =
  pb_url :: "(string \<times> string \<times> string) option"
  pb_dial :: bool
  pb_request :: bool
  pb_tls :: bool
  pb_first :: "nat option"
  pb_second :: "nat option"
  pb_start :: int
  pb_again :: int
  pb_end :: int

definition urlToMetadata :: "(string \<times> string \<times> string) option \<Rightarrow> metadata option" where
  "urlToMetadata u =
     (case u of
        None \<Rightarrow> None
      | Some (scheme, hostname, port) \<Rightarrow>
          let port = (if port \<noteq> [] then Some port
              else if scheme = ''https'' then Some ''443''
              else if scheme = ''http'' then Some ''80'' else None) in
          (case port of
             None \<Rightarrow> None
           | Some port \<Rightarrow>
               let (ok, addr) = md_SetRemoteAddress (JoinHostPort hostname port) metadata_zero in
               if ok then Some addr else None))"

text \<open>The body of \<open>URLTest\<close>: the delay, whether there was no error, and \<open>satisfied\<close>.\<close>

definition url_test :: "bool \<Rightarrow> 16 word rng list \<Rightarrow> probe \<Rightarrow> 16 word \<times> bool \<times> bool" where
  "url_test unifiedDelay expectedStatus pb =
     (if urlToMetadata (pb_url pb) = None then (0, False, False)
      else if \<not> pb_dial pb then (0, False, False)
      else if \<not> pb_request pb then (0, False, False)
      else if \<not> pb_tls pb then (0, False, False)
      else case pb_first pb of
        None \<Rightarrow> (0, False, False)
      | Some status \<Rightarrow>
          let (status, start) =
            (if unifiedDelay then
               (case pb_second pb of Some second \<Rightarrow> (second, pb_again pb) | None \<Rightarrow> (status, pb_start pb))
             else (status, pb_start pb)) in
          (word_of_int ((pb_end pb - start) div 1000000), True,
           ir_Check expectedStatus (word_of_nat status)))"

text \<open>The deferred part: the record of the test is written down.\<close>

definition put_history :: "delay_history \<Rightarrow> delay_history queue \<Rightarrow> delay_history queue" where
  "put_history rec q =
     (let q = qu_Put [rec] q in
      if qu_Len q > defaultHistoriesNum then snd (qu_Pop delay_zero q) else q)"

definition url_record :: "string \<Rightarrow> int \<Rightarrow> 16 word \<Rightarrow> bool \<Rightarrow> bool \<Rightarrow> proxy_state \<Rightarrow> proxy_state" where
  "url_record url now t alive satisfied p =
     (let rec = \<lparr>dh_Time = now, dh_Delay = (if alive then t else 0)\<rparr>;
          p = p\<lparr>ps_alive := alive, ps_history := put_history rec (ps_history p)\<rparr>;
          state = (case ps_extra p url of
              Some state \<Rightarrow> state | None \<Rightarrow> \<lparr>us_alive = True, us_history = qu_New\<rparr>);
          (rec, alive) = (if satisfied then (rec, alive) else (rec\<lparr>dh_Delay := 0\<rparr>, False));
          state = state\<lparr>us_alive := alive, us_history := put_history rec (us_history state)\<rparr> in
      p\<lparr>ps_extra := (ps_extra p)(url \<mapsto> state)\<rparr>)"

definition URLTest ::
  "bool \<Rightarrow> string \<Rightarrow> 16 word rng list \<Rightarrow> probe \<Rightarrow> int \<Rightarrow> proxy_state \<Rightarrow> (16 word \<times> bool) \<times> proxy_state" where
  "URLTest unifiedDelay url expectedStatus pb now p =
     (let (t, ok, satisfied) = url_test unifiedDelay expectedStatus pb in
      ((t, ok), url_record url now t ok satisfied p))"

section \<open>What a proxy remembers\<close>

text \<open>A test made: the URL, the statuses expected, what it met, and when it was written down.\<close>

record test =
  te_url :: string
  te_status :: "16 word rng list"
  te_probe :: probe
  te_now :: int

definition do_test :: "bool \<Rightarrow> test \<Rightarrow> proxy_state \<Rightarrow> proxy_state" where
  "do_test ud te p = snd (URLTest ud (te_url te) (te_status te) (te_probe te) (te_now te) p)"

definition te_no_error :: "bool \<Rightarrow> test \<Rightarrow> bool" where
  "te_no_error ud te = fst (snd (url_test ud (te_status te) (te_probe te)))"

definition te_passed :: "bool \<Rightarrow> test \<Rightarrow> bool" where
  "te_passed ud te = snd (snd (url_test ud (te_status te) (te_probe te)))"

definition te_delay :: "bool \<Rightarrow> test \<Rightarrow> 16 word" where
  "te_delay ud te = fst (url_test ud (te_status te) (te_probe te))"

definition te_overall :: "bool \<Rightarrow> test \<Rightarrow> delay_history" where
  "te_overall ud te = \<lparr>dh_Time = te_now te, dh_Delay = te_delay ud te\<rparr>"

definition te_entry :: "bool \<Rightarrow> test \<Rightarrow> delay_history" where
  "te_entry ud te = \<lparr>dh_Time = te_now te, dh_Delay = (if te_passed ud te then te_delay ud te else 0)\<rparr>"

definition lastn :: "nat \<Rightarrow> 'a list \<Rightarrow> 'a list" where
  "lastn k xs = drop (length xs - k) xs"

lemma length_lastn [simp]: "length (lastn k xs) = min k (length xs)"
  by (auto simp: lastn_def)

lemma last_lastn: "xs \<noteq> [] \<Longrightarrow> 0 < k \<Longrightarrow> last (lastn k xs) = last xs"
  by (simp add: lastn_def)

lemma put_history_lastn: "put_history x (lastn 10 xs) = lastn 10 (xs @ [x])"
proof (cases "length xs < 10")
  case True
  then show ?thesis by (simp add: put_history_def qu_Put_def qu_Len_def defaultHistoriesNum_def lastn_def)
next
  case False
  then have "drop (length xs - 10) xs \<noteq> []" by (simp add: not_less)
  moreover obtain m where m: "length xs = m + 10" using False by (metis le_Suc_ex add.commute not_less)
  moreover have "drop (Suc (length xs) - 10) xs = tl (drop (length xs - 10) xs)"
    by (simp add: m drop_Suc tl_drop)
  ultimately show ?thesis using False
    by (cases "drop m xs") (simp_all add: put_history_def qu_Put_def qu_Len_def qu_Pop_def defaultHistoriesNum_def
      lastn_def Let_def m)
qed

lemma url_test_error: "\<not> fst (snd (url_test ud es pb)) \<Longrightarrow> fst (url_test ud es pb) = 0 \<and> \<not> snd (snd (url_test ud es pb))"
  by (auto simp: url_test_def Let_def split: option.splits if_splits prod.splits)

lemma te_passed_no_error: "te_passed ud te \<Longrightarrow> te_no_error ud te"
  using url_test_error by (auto simp: te_passed_def te_no_error_def)

lemma te_error_delay: "\<not> te_no_error ud te \<Longrightarrow> te_delay ud te = 0"
  using url_test_error by (auto simp: te_delay_def te_no_error_def)

lemma do_test_sel:
  "ps_alive (do_test ud te p) = te_no_error ud te"
  "ps_history (do_test ud te p) = put_history (te_overall ud te) (ps_history p)"
  "ps_extra (do_test ud te p) = (ps_extra p)(te_url te \<mapsto>
     \<lparr>us_alive = te_passed ud te,
      us_history = put_history (te_entry ud te)
        (case ps_extra p (te_url te) of Some state \<Rightarrow> us_history state | None \<Rightarrow> [])\<rparr>)"
  using te_passed_no_error[of ud te] te_error_delay[of ud te]
  by (auto simp: do_test_def URLTest_def url_record_def Let_def te_no_error_def te_passed_def te_delay_def
      te_overall_def te_entry_def qu_New_def fun_eq_iff split: prod.splits option.splits)

text \<open>The tests of one URL.\<close>

definition tests_of :: "string \<Rightarrow> test list \<Rightarrow> test list" where
  "tests_of url ts = filter (\<lambda>te. te_url te = url) ts"

definition proxy_after :: "bool \<Rightarrow> test list \<Rightarrow> proxy_state" where
  "proxy_after ud ts = fold (do_test ud) ts NewProxy"

lemma proxy_after_snoc: "proxy_after ud (ts @ [te]) = do_test ud te (proxy_after ud ts)"
  by (simp add: proxy_after_def)

lemma proxy_after_state:
  "ps_alive (proxy_after ud ts) = (ts = [] \<or> te_no_error ud (last ts))"
  "ps_history (proxy_after ud ts) = lastn 10 (map (te_overall ud) ts)"
  "ps_extra (proxy_after ud ts) url =
     (let mine = tests_of url ts in
      if mine = [] then None
      else Some \<lparr>us_alive = te_passed ud (last mine), us_history = lastn 10 (map (te_entry ud) mine)\<rparr>)"
proof (induction ts rule: rev_induct)
  case Nil
  { case 1 show ?case by (simp add: proxy_after_def NewProxy_def) }
  { case 2 show ?case by (simp add: proxy_after_def NewProxy_def qu_New_def lastn_def) }
  { case 3 show ?case by (simp add: proxy_after_def NewProxy_def tests_of_def) }
next
  case (snoc te ts)
  { case 1 show ?case by (simp add: proxy_after_snoc do_test_sel) }
  { case 2 show ?case by (simp add: proxy_after_snoc do_test_sel snoc.IH(2) put_history_lastn) }
  { case 3
    have new: "put_history x [] = lastn 10 [x]" for x
      using put_history_lastn[of x "[]"] by (simp add: lastn_def)
    show ?case
    proof (cases "te_url te = url")
      case True
      then show ?thesis using snoc.IH(3)
        by (simp add: proxy_after_snoc do_test_sel tests_of_def Let_def put_history_lastn new)
    next
      case False
      then show ?thesis using snoc.IH(3) by (simp add: proxy_after_snoc do_test_sel tests_of_def Let_def)
    qed }
qed

text \<open>
  After any tests a proxy remembers exactly the last ten results, over all URLs and per URL; it
  counts as alive for a URL when the last test of that URL had no error and an expected status (for
  a URL never tested: when the last test of any URL had no error, and always before the first test),
  and the delay it reports for the URL is that of this last test, or 65535 when the proxy is not
  alive, was never tested with the URL, or answered in less than a millisecond.
\<close>

theorem adapter_remembers_last_tests:
  "AliveForTestUrl url (proxy_after ud ts) =
     (if tests_of url ts = [] then ts = [] \<or> te_no_error ud (last ts)
      else te_passed ud (last (tests_of url ts))) \<and>
   LastDelayForTestUrl url (proxy_after ud ts) =
     (if tests_of url ts \<noteq> [] \<and> te_passed ud (last (tests_of url ts)) \<and> te_delay ud (last (tests_of url ts)) \<noteq> 0
      then te_delay ud (last (tests_of url ts)) else 65535) \<and>
   DelayHistory (proxy_after ud ts) = lastn 10 (map (te_overall ud) ts) \<and>
   DelayHistoryForTestUrl url (proxy_after ud ts) = lastn 10 (map (te_entry ud) (tests_of url ts))"
proof -
  have "last (lastn 10 (map (te_entry ud) (tests_of url ts))) = te_entry ud (last (tests_of url ts))"
    if "tests_of url ts \<noteq> []" using that by (simp add: last_lastn last_map)
  moreover have "lastn 10 (map (te_entry ud) (tests_of url ts)) \<noteq> []" if "tests_of url ts \<noteq> []"
    using that by (cases "tests_of url ts") (auto simp: lastn_def)
  ultimately show ?thesis
    by (simp add: AliveForTestUrl_def LastDelayForTestUrl_def DelayHistory_def DelayHistoryForTestUrl_def
        proxy_after_state Let_def qu_Copy_def qu_Last_def te_entry_def lastn_def)
qed

end
