(* ===== verification/GroupBase.thy ===== *)
theory GroupBase
  imports Adapter
begin

text \<open>
  Providers of proxies with their health checks (\<open>adapter/provider/healthcheck.go\<close> and the part of
  \<open>provider.go\<close> that keeps the list of proxies) and what all outbound groups share
  (\<open>adapter/outboundgroup/groupbase.go\<close>). A proxy is a pointer (a number) with its name and type;
  the state of \<open>Adapter\<close> is looked up by the pointer, because providers, groups and health checks
  share it. A compiled regular expression is the predicate it decides.
\<close>

section \<open>Proxies and health checks\<close>

record gproxy =
  gp_id :: nat
  gp_Name :: string
  gp_Type :: adapter_type

type_synonym proxy_states = "nat \<Rightarrow> proxy_state"
type_synonym regex = "string \<Rightarrow> bool"

text \<open>\<open>ex_filters\<close> is the set of filters of the code, in the order its iteration yields them.\<close>

record extra_option =
  ex_status :: "16 word rng list"
  ex_filters :: "string list"

record health_check =
  hc_url :: string
  hc_extra :: "(string \<times> extra_option) list"
  hc_proxies :: "gproxy list"
  hc_interval :: int
  hc_lazy :: bool
  hc_status :: "16 word rng list"
  hc_lastTouch :: int
  hc_timeout :: int

definition NewHealthCheck ::
  "gproxy list \<Rightarrow> string \<Rightarrow> nat \<Rightarrow> nat \<Rightarrow> bool \<Rightarrow> 16 word rng list \<Rightarrow> health_check" where
  "NewHealthCheck proxies url timeout interval lazy expectedStatus =
     (let (expectedStatus, interval) = (if url = [] then ([], 0) else (expectedStatus, interval));
          timeout = (if timeout = 0 then 5000 else timeout) in
      \<lparr>hc_url = url, hc_extra = [], hc_proxies = proxies, hc_interval = int interval * 1000000000,
       hc_lazy = lazy, hc_status = expectedStatus, hc_lastTouch = 0, hc_timeout = int timeout * 1000000\<rparr>)"

definition hc_setProxies :: "gproxy list \<Rightarrow> health_check \<Rightarrow> health_check" where
  "hc_setProxies proxies hc = hc\<lparr>hc_proxies := proxies\<rparr>"

definition hc_auto :: "health_check \<Rightarrow> bool" where
  "hc_auto hc \<longleftrightarrow> hc_interval hc \<noteq> 0"

definition hc_touch :: "int \<Rightarrow> health_check \<Rightarrow> health_check" where
  "hc_touch now hc = hc\<lparr>hc_lastTouch := now\<rparr>"

text \<open>A tick of \<open>process\<close> at a time: whether the check is made.\<close>

definition hc_tick_checks :: "int \<Rightarrow> health_check \<Rightarrow> bool" where
  "hc_tick_checks now hc \<longleftrightarrow> \<not> hc_lazy hc \<or> now - hc_lastTouch hc < hc_interval hc"

definition splitAndAddFiltersToExtra :: "string \<Rightarrow> extra_option \<Rightarrow> extra_option" where
  "splitAndAddFiltersToExtra flt option =
     (let flt = TrimSpace flt in
      if flt \<noteq> [] then
        fold (\<lambda>regex option.
            let regex = TrimSpace regex in
            if regex \<noteq> [] \<and> regex \<notin> set (ex_filters option)
            then option\<lparr>ex_filters := ex_filters option @ [regex]\<rparr> else option)
          (go_split CHR 0x60 flt) option
      else option)"

definition hc_register ::
  "string \<Rightarrow> 16 word rng list \<Rightarrow> string \<Rightarrow> nat \<Rightarrow> health_check \<Rightarrow> health_check" where
  "hc_register url expectedStatus flt interval hc =
     (let url = TrimSpace url in
      if url = [] \<or> url = hc_url hc then hc
      else
        let hc = (if hc_interval hc = 0 then hc\<lparr>hc_interval := int interval * 1000000000\<rparr> else hc) in
        case map_of (hc_extra hc) url of
          Some option \<Rightarrow>
            if url \<noteq> hc_url hc \<and> flt \<noteq> []
            then hc\<lparr>hc_extra := map (\<lambda>(u, old).
                (u, if u = url then splitAndAddFiltersToExtra flt old else old)) (hc_extra hc)\<rparr>
            else hc
        | None \<Rightarrow>
            let option = splitAndAddFiltersToExtra flt \<lparr>ex_status = expectedStatus, ex_filters = []\<rparr> in
            hc\<lparr>hc_extra := hc_extra hc @ [(url, option)]\<rparr>)"

text \<open>The tests that \<open>execute\<close> starts, in order; \<open>compile\<close> is \<open>regexp2.MustCompile\<close>, and the
  filters are joined into one alternative.\<close>

type_synonym task = "gproxy \<times> string \<times> 16 word rng list"

definition hc_execute :: "(string \<Rightarrow> regex) \<Rightarrow> string \<Rightarrow> extra_option \<Rightarrow> health_check \<Rightarrow> task list" where
  "hc_execute compile url option hc =
     (let url = TrimSpace url in
      if url = [] then []
      else
        let wanted = (if ex_filters option \<noteq> [] then compile (go_join CHR ''|'' (ex_filters option)) else (\<lambda>_. True)) in
        map (\<lambda>p. (p, url, ex_status option)) (filter (\<lambda>p. wanted (gp_Name p)) (hc_proxies hc)))"

definition hc_tasks :: "(string \<Rightarrow> regex) \<Rightarrow> health_check \<Rightarrow> task list" where
  "hc_tasks compile hc =
     (if hc_proxies hc = [] then []
      else hc_execute compile (hc_url hc) \<lparr>ex_status = hc_status hc, ex_filters = []\<rparr> hc @
        concat (map (\<lambda>(url, option). hc_execute compile url option hc) (hc_extra hc)))"

text \<open>The tests run concurrently: \<open>order\<close> is the tasks in the order in which they end; \<open>probe\<close> and
  \<open>now\<close> say what each one meets and when it ends.\<close>

definition hc_run_task ::
  "bool \<Rightarrow> (task \<Rightarrow> probe) \<Rightarrow> (task \<Rightarrow> int) \<Rightarrow> task \<Rightarrow> proxy_states \<Rightarrow> proxy_states" where
  "hc_run_task ud probe now = (\<lambda>(p, url, status) st.
     st(gp_id p := snd (URLTest ud url status (probe (p, url, status)) (now (p, url, status)) (st (gp_id p)))))"

definition hc_check ::
  "bool \<Rightarrow> (task \<Rightarrow> probe) \<Rightarrow> (task \<Rightarrow> int) \<Rightarrow> task list \<Rightarrow> proxy_states \<Rightarrow> proxy_states" where
  "hc_check ud probe now order st = fold (hc_run_task ud probe now) order st"

section \<open>Providers\<close>

datatype vehicle_type = VehicleFile | VehicleHTTP | VehicleCompatible | VehicleInline | OtherVehicle int

fun VehicleType_String :: "vehicle_type \<Rightarrow> string" where
  "VehicleType_String VehicleFile = ''File''"
| "VehicleType_String VehicleHTTP = ''HTTP''"
| "VehicleType_String VehicleCompatible = ''Compatible''"
| "VehicleType_String VehicleInline = ''Inline''"
| "VehicleType_String (OtherVehicle n) = ''Unknown''"

record provider =
  pv_Name :: string
  pv_VehicleType :: vehicle_type
  pv_Proxies :: "gproxy list"
  pv_Version :: "32 word"
  pv_healthCheck :: health_check

definition pv_Count :: "provider \<Rightarrow> nat" where
  "pv_Count pd = length (pv_Proxies pd)"

definition pv_Touch :: "int \<Rightarrow> provider \<Rightarrow> provider" where
  "pv_Touch now pd = pd\<lparr>pv_healthCheck := hc_touch now (pv_healthCheck pd)\<rparr>"

definition pv_HealthCheckURL :: "provider \<Rightarrow> string" where
  "pv_HealthCheckURL pd = hc_url (pv_healthCheck pd)"

definition pv_RegisterHealthCheckTask ::
  "string \<Rightarrow> 16 word rng list \<Rightarrow> string \<Rightarrow> nat \<Rightarrow> provider \<Rightarrow> provider" where
  "pv_RegisterHealthCheckTask url status flt interval pd =
     pd\<lparr>pv_healthCheck := hc_register url status flt interval (pv_healthCheck pd)\<rparr>"

text \<open>The second component says that a check is started in the background.\<close>

definition pv_setProxies :: "gproxy list \<Rightarrow> provider \<Rightarrow> provider \<times> bool" where
  "pv_setProxies proxies pd =
     (let pd = pd\<lparr>pv_Proxies := proxies, pv_Version := pv_Version pd + 1,
            pv_healthCheck := hc_setProxies proxies (pv_healthCheck pd)\<rparr> in
      (pd, hc_auto (pv_healthCheck pd)))"

definition NewCompatibleProvider :: "string \<Rightarrow> gproxy list \<Rightarrow> health_check \<Rightarrow> provider option" where
  "NewCompatibleProvider name proxies hc =
     (if proxies = [] then None
      else Some \<lparr>pv_Name = name, pv_VehicleType = VehicleCompatible, pv_Proxies = proxies,
        pv_Version = 0, pv_healthCheck = hc\<rparr>)"

section \<open>The base of a group\<close>

record group_base =
  gb_Name :: string
  gb_Type :: adapter_type
  gb_filterRegs :: "regex list"
  gb_excludeFilterRegs :: "regex list"
  gb_excludeTypeArray :: "string list"
  gb_failedTimes :: int
  gb_failedTime :: int
  gb_failedTesting :: bool
  gb_testTimeout :: int
  gb_maxFailedTimes :: int
  gb_emptyFallback :: gproxy
  gb_providerVersions :: "32 word list"
  gb_providerProxies :: "gproxy list"

text \<open>\<open>MustCompile\<close> panics on a bad expression: \<open>compile\<close> answers \<open>None\<close>.\<close>

fun must_compile :: "(string \<Rightarrow> regex option) \<Rightarrow> string list \<Rightarrow> regex list outcome" where
  "must_compile compile [] = Ret []"
| "must_compile compile (s # ss) =
     (case compile s of
        None \<Rightarrow> Panic ''regexp2: Compile''
      | Some r \<Rightarrow> obind (must_compile compile ss) (\<lambda>rs. Ret (r # rs)))"

definition NewGroupBase ::
  "(string \<Rightarrow> regex option) \<Rightarrow> string \<Rightarrow> adapter_type \<Rightarrow> string \<Rightarrow> string \<Rightarrow> string \<Rightarrow> int \<Rightarrow> int \<Rightarrow> gproxy \<Rightarrow> group_base outcome" where
  "NewGroupBase compile name type flt excludeFilter excludeType testTimeout maxFailedTimes emptyFallback =
     obind (if excludeFilter \<noteq> [] then must_compile compile (go_split CHR 0x60 excludeFilter) else Ret []) (\<lambda>excl.
     obind (if flt \<noteq> [] then must_compile compile (go_split CHR 0x60 flt) else Ret []) (\<lambda>regs.
       Ret \<lparr>gb_Name = name, gb_Type = type, gb_filterRegs = regs, gb_excludeFilterRegs = excl,
         gb_excludeTypeArray = (if excludeType \<noteq> [] then go_split CHR ''|'' excludeType else []),
         gb_failedTimes = 0, gb_failedTime = 0, gb_failedTesting = False,
         gb_testTimeout = (if testTimeout = 0 then 5000 else testTimeout),
         gb_maxFailedTimes = (if maxFailedTimes = 0 then 5 else maxFailedTimes),
         gb_emptyFallback = emptyFallback, gb_providerVersions = [], gb_providerProxies = []\<rparr>))"

subsection \<open>The proxies of a group\<close>

text \<open>The loop over the filters with the set of names already taken: the proxies a filter matches,
  in the order of the filters.\<close>

fun take_named :: "regex \<Rightarrow> gproxy list \<Rightarrow> string set \<times> gproxy list \<Rightarrow> string set \<times> gproxy list" where
  "take_named reg [] acc = acc"
| "take_named reg (p # ps) (seen, new) =
     (if reg (gp_Name p) \<and> gp_Name p \<notin> seen
      then take_named reg ps (insert (gp_Name p) seen, new @ [p])
      else take_named reg ps (seen, new))"

definition by_filters :: "regex list \<Rightarrow> gproxy list \<Rightarrow> string set \<times> gproxy list" where
  "by_filters regs ps = fold (\<lambda>reg acc. take_named reg ps acc) regs ({}, [])"

definition gather :: "regex list \<Rightarrow> provider list \<Rightarrow> gproxy list" where
  "gather regs pds =
     (if regs = [] then concat (map pv_Proxies pds)
      else concat (map (\<lambda>pd. if pv_VehicleType pd = VehicleCompatible then pv_Proxies pd
             else snd (by_filters regs (pv_Proxies pd))) pds))"

definition reorder :: "regex list \<Rightarrow> provider list \<Rightarrow> gproxy list \<Rightarrow> gproxy list" where
  "reorder regs pds ps =
     (if length pds > 1 \<and> length regs > 1
      then snd (take_named (\<lambda>_. True) ps (by_filters regs ps)) else ps)"

definition exclude :: "group_base \<Rightarrow> gproxy list \<Rightarrow> gproxy list" where
  "exclude gb ps =
     filter (\<lambda>p. \<not> list_ex (\<lambda>t. EqualFold (AdapterType_String (gp_Type p)) t) (gb_excludeTypeArray gb))
       (filter (\<lambda>p. \<not> list_ex (\<lambda>reg. reg (gp_Name p)) (gb_excludeFilterRegs gb)) ps)"

text \<open>The list that \<open>GetProxies\<close> works out, before the cache.\<close>

definition group_proxies :: "group_base \<Rightarrow> provider list \<Rightarrow> gproxy list" where
  "group_proxies gb pds =
     exclude gb (reorder (gb_filterRegs gb) pds (gather (gb_filterRegs gb) pds))"

definition GetProxies ::
  "bool \<Rightarrow> int \<Rightarrow> provider list \<Rightarrow> group_base \<Rightarrow> gproxy list \<times> provider list \<times> group_base" where
  "GetProxies touch now pds gb =
     (let pds = (if touch then map (pv_Touch now) pds else pds);
          providerVersions = map pv_Version pds in
      if providerVersions = gb_providerVersions gb then (gb_providerProxies gb, pds, gb)
      else
        let proxies = group_proxies gb pds in
        if proxies = [] then ([gb_emptyFallback gb], pds, gb)
        else (proxies, pds, gb\<lparr>gb_providerVersions := providerVersions, gb_providerProxies := proxies\<rparr>))"

subsection \<open>Failures of dialling\<close>

text \<open>An error: whether it is \<open>ErrNotSupport\<close>, and its text. \<open>onDialFailed\<close> answers whether the
  health check of the group is started.\<close>

definition onDialFailed :: "adapter_type \<Rightarrow> bool \<times> string \<Rightarrow> int \<Rightarrow> group_base \<Rightarrow> bool \<times> group_base" where
  "onDialFailed adapterType err now gb =
     (if adapterType \<in> {A_Direct, A_Compatible, A_Reject, A_Pass, A_RejectDrop} then (False, gb)
      else if fst err then (False, gb)
      else if Contains (snd err) ''connection refused'' then (True, gb)
      else
        let gb = gb\<lparr>gb_failedTimes := gb_failedTimes gb + 1\<rparr> in
        if gb_failedTimes gb = 1 then (False, gb\<lparr>gb_failedTime := now\<rparr>)
        else if now - gb_failedTime gb > gb_testTimeout gb * 1000000 then (False, gb\<lparr>gb_failedTimes := 0\<rparr>)
        else (gb_failedTimes gb \<ge> gb_maxFailedTimes gb, gb))"

text \<open>\<open>healthCheck\<close>: nothing while one is running, else the two ends of it around the checks.\<close>

definition healthCheck_begin :: "group_base \<Rightarrow> group_base option" where
  "healthCheck_begin gb = (if gb_failedTesting gb then None else Some (gb\<lparr>gb_failedTesting := True\<rparr>))"

definition healthCheck_end :: "group_base \<Rightarrow> group_base" where
  "healthCheck_end gb = gb\<lparr>gb_failedTesting := False, gb_failedTimes := 0\<rparr>"

definition onDialSuccess :: "group_base \<Rightarrow> group_base" where
  "onDialSuccess gb = (if gb_failedTesting gb then gb else gb\<lparr>gb_failedTimes := 0\<rparr>)"

section \<open>What a health check writes\<close>

definition task_test :: "(task \<Rightarrow> probe) \<Rightarrow> (task \<Rightarrow> int) \<Rightarrow> task \<Rightarrow> test" where
  "task_test probe now t =
     \<lparr>te_url = fst (snd t), te_status = snd (snd t), te_probe = probe t, te_now = now t\<rparr>"

definition task_for :: "nat \<Rightarrow> string \<Rightarrow> task \<Rightarrow> bool" where
  "task_for i url t \<longleftrightarrow> gp_id (fst t) = i \<and> fst (snd t) = url"

lemma hc_run_task_do: "hc_run_task ud probe now t st =
    st(gp_id (fst t) := do_test ud (task_test probe now t) (st (gp_id (fst t))))"
  by (cases t) (simp add: hc_run_task_def do_test_def task_test_def)

lemma hc_check_Cons: "hc_check ud probe now (t # ts) st = hc_check ud probe now ts (hc_run_task ud probe now t st)"
  by (simp add: hc_check_def)

lemma hc_check_untouched:
  "filter (task_for i url) order = [] \<Longrightarrow> ps_extra (hc_check ud probe now order st i) url = ps_extra (st i) url"
proof (induction order arbitrary: st)
  case Nil
  then show ?case by (simp add: hc_check_def)
next
  case (Cons t order)
  then have "ps_extra (hc_run_task ud probe now t st i) url = ps_extra (st i) url"
    by (auto simp: hc_run_task_do do_test_sel task_for_def task_test_def split: if_splits)
  then show ?case using Cons by (simp add: hc_check_Cons split: if_splits)
qed

text \<open>A proxy and URL with exactly one task: the task alone decides their state.\<close>

lemma hc_check_single:
  "filter (task_for i url) order = [t] \<Longrightarrow>
     ps_extra (hc_check ud probe now order st i) url = ps_extra (do_test ud (task_test probe now t) (st i)) url"
proof (induction order arbitrary: st)
  case Nil
  then show ?case by simp
next
  case (Cons u order)
  show ?case
  proof (cases "task_for i url u")
    case True
    with Cons.prems have "u = t" "filter (task_for i url) order = []" by simp_all
    then show ?thesis using True by (simp add: hc_check_Cons hc_check_untouched hc_run_task_do task_for_def)
  next
    case False
    then have "ps_extra (hc_run_task ud probe now u st i) url = ps_extra (st i) url"
      by (auto simp: hc_run_task_do do_test_sel task_for_def task_test_def)
    moreover have "te_url (task_test probe now t) = url"
    proof -
      have "t \<in> set (filter (task_for i url) (u # order))" by (simp only: Cons.prems) simp
      then have "task_for i url t" by (simp only: set_filter mem_Collect_eq)
      then show ?thesis by (simp add: task_test_def task_for_def)
    qed
    ultimately have "ps_extra (do_test ud (task_test probe now t) (hc_run_task ud probe now u st i)) url =
        ps_extra (do_test ud (task_test probe now t) (st i)) url"
      by (simp add: do_test_sel)
    then show ?thesis using Cons False by (simp add: hc_check_Cons)
  qed
qed

lemma filter_single:
  assumes "distinct (map f xs)" "x \<in> set xs" "\<And>y. P y \<longleftrightarrow> f y = f x"
  shows "filter P xs = [x]"
  using assms(1,2)
proof (induction xs)
  case (Cons y xs)
  have "filter P xs = []" if "x = y" using Cons.prems that assms(3) by (auto simp: filter_empty_conv image_iff)
  moreover have "f y \<noteq> f x" if "x \<noteq> y" using Cons.prems that by (auto simp: image_iff)
  moreover have "P y \<longleftrightarrow> f y = f x" by (rule assms(3))
  ultimately show ?case using Cons by (cases "x = y") auto
qed simp

text \<open>
  A health check tests every proxy its filters select, once per URL; in whatever order the
  concurrent tests end, each proxy is afterwards alive for a URL exactly when its own test
  succeeded, with the delay of that test, and what is known of other URLs does not change.
\<close>

theorem health_check_any_order:
  assumes "distinct (map (\<lambda>(p, url, status). (gp_id p, url)) (hc_tasks compile hc))"
    and "set order = set (hc_tasks compile hc)" "length order = length (hc_tasks compile hc)"
  shows "(\<forall>t \<in> set (hc_tasks compile hc).
      let p = hc_check ud probe now order st (gp_id (fst t)); url = fst (snd t); te = task_test probe now t in
      AliveForTestUrl url p = te_passed ud te \<and>
      LastDelayForTestUrl url p = (if te_passed ud te \<and> te_delay ud te \<noteq> 0 then te_delay ud te else 65535)) \<and>
    (\<forall>i url. \<not> list_ex (task_for i url) (hc_tasks compile hc) \<longrightarrow>
      ps_extra (hc_check ud probe now order st i) url = ps_extra (st i) url)"
proof (intro conjI ballI allI impI)
  let ?key = "\<lambda>t. (gp_id (fst t), fst (snd t))"
  have d: "distinct (map ?key (hc_tasks compile hc))" using assms(1) by (simp add: case_prod_unfold)
  have "distinct (hc_tasks compile hc)" using d by (simp add: distinct_map)
  then have "distinct order" using assms(2,3) by (metis card_distinct distinct_card)
  then have do: "distinct (map ?key order)" using d assms(2) by (simp add: distinct_map)
  fix t assume t: "t \<in> set (hc_tasks compile hc)"
  have f: "filter (task_for (gp_id (fst t)) (fst (snd t))) order = [t]"
    by (rule filter_single[OF do]) (use t assms(2) in \<open>auto simp: task_for_def\<close>)
  have "last (put_history x ys) = x" for x and ys :: "delay_history list"
    by (cases ys) (auto simp: put_history_def qu_Put_def qu_Len_def qu_Pop_def defaultHistoriesNum_def Let_def)
  moreover have "put_history x ys \<noteq> []" for x and ys :: "delay_history list"
    by (cases ys) (auto simp: put_history_def qu_Put_def qu_Len_def qu_Pop_def defaultHistoriesNum_def Let_def)
  ultimately show "let p = hc_check ud probe now order st (gp_id (fst t)); url = fst (snd t); te = task_test probe now t in
      AliveForTestUrl url p = te_passed ud te \<and>
      LastDelayForTestUrl url p = (if te_passed ud te \<and> te_delay ud te \<noteq> 0 then te_delay ud te else 65535)"
    by (auto simp: AliveForTestUrl_def LastDelayForTestUrl_def Let_def hc_check_single[OF f] do_test_sel task_test_def
        qu_Last_def te_entry_def)
next
  fix i url assume "\<not> list_ex (task_for i url) (hc_tasks compile hc)"
  then show "ps_extra (hc_check ud probe now order st i) url = ps_extra (st i) url"
    using assms(2) by (intro hc_check_untouched) (auto simp: list_ex_iff filter_empty_conv)
qed

section \<open>Concrete inputs\<close>

definition probe_ok :: probe where
  "probe_ok = \<lparr>pb_url = Some (''https'', ''test.example'', []), pb_dial = True, pb_request = True, pb_tls = True,
     pb_first = Some 204, pb_second = None, pb_start = 0, pb_again = 0, pb_end = 80000000\<rparr>"

definition demo_px :: "nat \<Rightarrow> string \<Rightarrow> gproxy" where
  "demo_px i name = \<lparr>gp_id = i, gp_Name = name, gp_Type = A_Vmess\<rparr>"

definition demo_hc :: health_check where
  "demo_hc = NewHealthCheck [demo_px 7 ''a'', demo_px 2 ''b''] ''u'' 0 300 False []"

theorem health_check_any_order_witness:
  "AliveForTestUrl ''u'' (hc_check False (\<lambda>_. probe_ok) (\<lambda>_. 0)
     [(demo_px 2 ''b'', ''u'', []), (demo_px 7 ''a'', ''u'', [])] (\<lambda>_. NewProxy) 2)"
proof -
  have ts: "hc_tasks (\<lambda>_ _. True) demo_hc = [(demo_px 7 ''a'', ''u'', []), (demo_px 2 ''b'', ''u'', [])]"
    by code_simp
  have passed: "te_passed False (task_test (\<lambda>_. probe_ok) (\<lambda>_. 0) (demo_px 2 ''b'', ''u'', []))"
  proof -
    have "SplitHostPort (JoinHostPort ''test.example'' ''443'') = Some (''test.example'', ''443'')" by code_simp
    then have "urlToMetadata (pb_url probe_ok) \<noteq> None"
      by (simp add: urlToMetadata_def probe_ok_def md_SetRemoteAddress_def Let_def)
    then show ?thesis by (simp add: te_passed_def task_test_def url_test_def probe_ok_def ir_Check_def)
  qed
  let ?order = "[(demo_px 2 ''b'', ''u'', []), (demo_px 7 ''a'', ''u'', [])]"
  have perm: "distinct (map (\<lambda>(p, url, status). (gp_id p, url)) (hc_tasks (\<lambda>_ _. True) demo_hc))"
    "set ?order = set (hc_tasks (\<lambda>_ _. True) demo_hc)" "length ?order = length (hc_tasks (\<lambda>_ _. True) demo_hc)"
    unfolding ts by (auto simp: demo_px_def)
  have "(demo_px 2 ''b'', ''u'', []) \<in> set (hc_tasks (\<lambda>_ _. True) demo_hc)" unfolding ts by simp
  from bspec[OF conjunct1[OF health_check_any_order[OF perm]] this, of False "\<lambda>_. probe_ok" "\<lambda>_. 0" "\<lambda>_. NewProxy"] passed
  show ?thesis unfolding Let_def by (simp only: fst_conv snd_conv) (simp add: demo_px_def)
qed

end
