(* ===== verification/GroupProxies.thy ===== *)
theory GroupProxies
  imports GroupBase
begin

text \<open>
  The list of proxies of a group: it equals a reference definition by stable sorting, the cache in
  front of it is never stale, and the health check that failed dials trigger needs as many failures
  as configured.
\<close>

section \<open>The filters as a stable sort\<close>

text \<open>The position of the first filter that matches a name, their number when none does.\<close>

fun filter_rank :: "regex list \<Rightarrow> string \<Rightarrow> nat" where
  "filter_rank [] name = 0"
| "filter_rank (r # rs) name = (if r name then 0 else Suc (filter_rank rs name))"

lemma filter_rank_le: "filter_rank rs name \<le> length rs"
  by (induction rs) auto

lemma filter_rank_less: "filter_rank rs name < length rs \<longleftrightarrow> list_ex (\<lambda>r. r name) rs"
  by (induction rs) auto

lemma filter_rank_snoc:
  "filter_rank (rs @ [r]) name =
     (if filter_rank rs name < length rs then filter_rank rs name
      else if r name then length rs else Suc (length rs))"
  by (induction rs) auto

lemma filter_rank_next:
  "filter_rank (rs @ [r]) name = i \<and> i < length rs \<longleftrightarrow> filter_rank rs name = i \<and> i < length rs"
  by (auto simp: filter_rank_snoc filter_rank_le)

lemma take_named_distinct:
  "distinct (map gp_Name ps) \<Longrightarrow>
     take_named reg ps (seen, new) =
       (seen \<union> gp_Name ` {p \<in> set ps. reg (gp_Name p)},
        new @ filter (\<lambda>p. reg (gp_Name p) \<and> gp_Name p \<notin> seen) ps)"
proof (induction ps arbitrary: seen new)
  case (Cons p ps)
  have other: "filter (\<lambda>q. reg (gp_Name q) \<and> gp_Name q \<notin> insert (gp_Name p) seen) ps =
      filter (\<lambda>q. reg (gp_Name q) \<and> gp_Name q \<notin> seen) ps"
    using Cons.prems by (intro filter_cong) (auto simp: image_iff)
  show ?case using Cons other by (auto simp: insert_absorb)
qed simp

text \<open>The classes of a rank, one after the other.\<close>

definition by_rank :: "regex list \<Rightarrow> gproxy list \<Rightarrow> nat \<Rightarrow> gproxy list" where
  "by_rank rs ps n = concat (map (\<lambda>i. filter (\<lambda>p. filter_rank rs (gp_Name p) = i) ps) [0..<n])"

lemma by_rank_Suc: "by_rank rs ps (Suc n) = by_rank rs ps n @ filter (\<lambda>p. filter_rank rs (gp_Name p) = n) ps"
  by (simp add: by_rank_def)

lemma by_rank_snoc: "n \<le> length rs \<Longrightarrow> by_rank (rs @ [r]) ps n = by_rank rs ps n"
proof (induction n)
  case (Suc n)
  then have "filter (\<lambda>p. filter_rank (rs @ [r]) (gp_Name p) = n) ps = filter (\<lambda>p. filter_rank rs (gp_Name p) = n) ps"
    using filter_rank_next[of rs r _ n] by (intro filter_cong) auto
  then show ?case using Suc by (simp add: by_rank_Suc)
qed (simp add: by_rank_def)

lemma by_filters_rank:
  "distinct (map gp_Name ps) \<Longrightarrow>
     by_filters rs ps =
       (gp_Name ` {p \<in> set ps. filter_rank rs (gp_Name p) < length rs}, by_rank rs ps (length rs))"
proof (induction rs rule: rev_induct)
  case Nil
  then show ?case by (simp add: by_filters_def by_rank_def)
next
  case (snoc r rs)
  have "filter (\<lambda>p. r (gp_Name p) \<and> gp_Name p \<notin> gp_Name ` {p \<in> set ps. filter_rank rs (gp_Name p) < length rs}) ps =
      filter (\<lambda>p. filter_rank (rs @ [r]) (gp_Name p) = length rs) ps"
  proof (intro filter_cong refl)
    fix p assume p: "p \<in> set ps"
    have "gp_Name p \<in> gp_Name ` {p \<in> set ps. filter_rank rs (gp_Name p) < length rs} \<longleftrightarrow>
        filter_rank rs (gp_Name p) < length rs"
      using p by (metis (mono_tags, lifting) imageE image_eqI mem_Collect_eq)
    then show "(r (gp_Name p) \<and> gp_Name p \<notin> gp_Name ` {p \<in> set ps. filter_rank rs (gp_Name p) < length rs}) =
        (filter_rank (rs @ [r]) (gp_Name p) = length rs)"
      using filter_rank_le[of rs "gp_Name p"] by (auto simp: filter_rank_snoc)
  qed
  moreover have "gp_Name ` {p \<in> set ps. filter_rank rs (gp_Name p) < length rs} \<union>
      gp_Name ` {p \<in> set ps. r (gp_Name p)} =
      gp_Name ` {p \<in> set ps. filter_rank (rs @ [r]) (gp_Name p) < length (rs @ [r])}"
  proof -
    have "filter_rank (rs @ [r]) name < length (rs @ [r]) \<longleftrightarrow> filter_rank rs name < length rs \<or> r name" for name
      unfolding filter_rank_less by simp
    then show ?thesis unfolding image_Un[symmetric] by (intro arg_cong[of _ _ "image gp_Name"]) auto
  qed
  ultimately show ?case using snoc
    by (simp add: by_filters_def take_named_distinct by_rank_snoc by_rank_Suc)
qed

lemma set_by_rank: "set (by_rank rs ps n) = {p \<in> set ps. filter_rank rs (gp_Name p) < n}"
  by (auto simp: by_rank_def)

lemma mset_by_rank: "mset (by_rank rs ps n) = mset (filter (\<lambda>p. filter_rank rs (gp_Name p) < n) ps)"
proof (induction n)
  case (Suc n)
  have "mset (filter (\<lambda>p. filter_rank rs (gp_Name p) < Suc n) ps) =
      mset (filter (\<lambda>p. filter_rank rs (gp_Name p) < n) ps) +
      mset (filter (\<lambda>p. filter_rank rs (gp_Name p) = n) ps)"
    by (induction ps) auto
  then show ?case using Suc by (simp add: by_rank_Suc)
qed (simp add: by_rank_def)

lemma filter_by_rank:
  "filter (\<lambda>p. filter_rank rs (gp_Name p) = k) (by_rank rs ps n) =
     (if k < n then filter (\<lambda>p. filter_rank rs (gp_Name p) = k) ps else [])"
proof (induction n)
  case (Suc n)
  have "filter (\<lambda>p. filter_rank rs (gp_Name p) = k \<and> filter_rank rs (gp_Name p) = n) ps =
      (if k = n then filter (\<lambda>p. filter_rank rs (gp_Name p) = k) ps else [])"
    by (auto simp: filter_empty_conv)
  then show ?case using Suc by (auto simp: by_rank_Suc conj_commute)
qed (simp add: by_rank_def)

lemma sorted_by_rank: "sorted (map (\<lambda>p. filter_rank rs (gp_Name p)) (by_rank rs ps n))"
proof (induction n)
  case (Suc n)
  have "sorted (map (\<lambda>p. filter_rank rs (gp_Name p)) (filter (\<lambda>p. filter_rank rs (gp_Name p) = n) ps))"
    by (induction ps) auto
  then show ?case using Suc by (auto simp: by_rank_Suc sorted_append set_by_rank)
qed (simp add: by_rank_def)

lemma by_rank_sort:
  "by_rank rs ps n = sort_key (\<lambda>p. filter_rank rs (gp_Name p)) (filter (\<lambda>p. filter_rank rs (gp_Name p) < n) ps)"
proof (rule properties_for_sort_key[symmetric])
  show "mset (by_rank rs ps n) = mset (filter (\<lambda>p. filter_rank rs (gp_Name p) < n) ps)" by (rule mset_by_rank)
  fix q assume "q \<in> set (by_rank rs ps n)"
  then have "filter_rank rs (gp_Name q) < n" by (simp add: set_by_rank)
  moreover have "filter (\<lambda>p. filter_rank rs (gp_Name p) = filter_rank rs (gp_Name q) \<and> filter_rank rs (gp_Name p) < n) ps =
      filter (\<lambda>p. filter_rank rs (gp_Name p) = filter_rank rs (gp_Name q)) ps"
    using \<open>filter_rank rs (gp_Name q) < n\<close> by (intro filter_cong) auto
  ultimately show "filter (\<lambda>p. filter_rank rs (gp_Name q) = filter_rank rs (gp_Name p)) (by_rank rs ps n) =
      filter (\<lambda>p. filter_rank rs (gp_Name q) = filter_rank rs (gp_Name p)) (filter (\<lambda>p. filter_rank rs (gp_Name p) < n) ps)"
    by (simp add: eq_commute[of "filter_rank rs (gp_Name q)"] filter_by_rank conj_commute)
qed (rule sorted_by_rank)

section \<open>The members of a group\<close>

text \<open>The reference: filtering and sorting each provider, then all of them, then leaving out.\<close>

definition ranked :: "regex list \<Rightarrow> gproxy list \<Rightarrow> gproxy list" where
  "ranked regs ps = sort_key (\<lambda>p. filter_rank regs (gp_Name p)) ps"

definition wanted :: "regex list \<Rightarrow> gproxy \<Rightarrow> bool" where
  "wanted regs p \<longleftrightarrow> list_ex (\<lambda>r. r (gp_Name p)) regs"

definition provider_members :: "regex list \<Rightarrow> provider \<Rightarrow> gproxy list" where
  "provider_members regs pd =
     (if regs = [] \<or> pv_VehicleType pd = VehicleCompatible then pv_Proxies pd
      else ranked regs (filter (wanted regs) (pv_Proxies pd)))"

definition excluded :: "group_base \<Rightarrow> gproxy \<Rightarrow> bool" where
  "excluded gb p \<longleftrightarrow>
     list_ex (\<lambda>r. r (gp_Name p)) (gb_excludeFilterRegs gb) \<or>
     list_ex (EqualFold (AdapterType_String (gp_Type p))) (gb_excludeTypeArray gb)"

definition group_reference :: "group_base \<Rightarrow> provider list \<Rightarrow> gproxy list" where
  "group_reference gb pds =
     (let regs = gb_filterRegs gb;
          members = concat (map (provider_members regs) pds) in
      filter (\<lambda>p. \<not> excluded gb p) (if length pds > 1 \<and> length regs > 1 then ranked regs members else members))"

lemma by_filters_ranked:
  assumes "distinct (map gp_Name ps)"
  shows "snd (by_filters regs ps) = ranked regs (filter (wanted regs) ps)"
proof -
  have "wanted regs = (\<lambda>p. filter_rank regs (gp_Name p) < length regs)"
    by (simp add: fun_eq_iff wanted_def filter_rank_less)
  then show ?thesis using assms by (simp add: by_filters_rank by_rank_sort ranked_def)
qed

lemma set_provider_members: "set (provider_members regs pd) \<subseteq> set (pv_Proxies pd)"
  by (auto simp: provider_members_def ranked_def)

lemma distinct_provider_members:
  "distinct (map gp_Name (pv_Proxies pd)) \<Longrightarrow> distinct (map gp_Name (provider_members regs pd))"
proof -
  have "distinct (map f (ranked regs ps)) = distinct (map f ps)" for ps and f :: "gproxy \<Rightarrow> string"
    by (simp add: ranked_def distinct_map)
  then show "distinct (map gp_Name (pv_Proxies pd)) \<Longrightarrow> distinct (map gp_Name (provider_members regs pd))"
    by (simp add: provider_members_def distinct_map_filter)
qed

lemma distinct_names_members:
  "distinct (map gp_Name (concat (map pv_Proxies pds))) \<Longrightarrow>
     distinct (map gp_Name (concat (map (provider_members regs) pds)))"
proof (induction pds)
  case (Cons pd pds)
  have "set (concat (map (provider_members regs) pds)) \<subseteq> set (concat (map pv_Proxies pds))"
    using set_provider_members by fastforce
  then show ?case using Cons distinct_provider_members[of pd regs] set_provider_members[of regs pd]
    by (auto simp: image_iff) blast+
qed simp

lemma distinct_names_each:
  "distinct (map gp_Name (concat (map pv_Proxies pds))) \<Longrightarrow> pd \<in> set pds \<Longrightarrow> distinct (map gp_Name (pv_Proxies pd))"
  by (induction pds) auto

lemma gather_members:
  assumes "distinct (map gp_Name (concat (map pv_Proxies pds)))"
  shows "gather regs pds = concat (map (provider_members regs) pds)"
proof -
  have "(if pv_VehicleType pd = VehicleCompatible then pv_Proxies pd else snd (by_filters regs (pv_Proxies pd))) =
      provider_members regs pd" if "pd \<in> set pds" "regs \<noteq> []" for pd
    using by_filters_ranked[OF distinct_names_each[OF assms that(1)]] that(2) by (simp add: provider_members_def)
  moreover have "provider_members [] = pv_Proxies" by (simp add: fun_eq_iff provider_members_def)
  ultimately show ?thesis by (auto simp: gather_def intro!: arg_cong[of _ _ concat])
qed

lemma reorder_ranked:
  assumes "distinct (map gp_Name ps)"
  shows "reorder regs pds ps = (if length pds > 1 \<and> length regs > 1 then ranked regs ps else ps)"
proof -
  have "gp_Name p \<notin> gp_Name ` {p \<in> set ps. filter_rank regs (gp_Name p) < length regs} \<longleftrightarrow>
      filter_rank regs (gp_Name p) = length regs" if "p \<in> set ps" for p
    using that filter_rank_le[of regs "gp_Name p"]
    by (auto simp: order.strict_iff_order)
  then have "filter (\<lambda>p. gp_Name p \<notin> gp_Name ` {p \<in> set ps. filter_rank regs (gp_Name p) < length regs}) ps =
      filter (\<lambda>p. filter_rank regs (gp_Name p) = length regs) ps"
    by (intro filter_cong) auto
  then have "snd (take_named (\<lambda>_. True) ps (by_filters regs ps)) = by_rank regs ps (Suc (length regs))"
    using assms by (simp add: by_filters_rank take_named_distinct by_rank_Suc)
  moreover have "filter (\<lambda>p. filter_rank regs (gp_Name p) < Suc (length regs)) ps = ps"
    using filter_rank_le by (simp add: less_Suc_eq_le)
  ultimately show ?thesis by (simp add: reorder_def by_rank_sort ranked_def)
qed

lemma exclude_filter: "exclude gb ps = filter (\<lambda>p. \<not> excluded gb p) ps"
  by (simp add: exclude_def excluded_def conj_commute)


section \<open>The cache\<close>

text \<open>A provider takes a new list, or someone asks the group for its proxies.\<close>

datatype group_event = NewProxies nat "gproxy list" | Ask bool int

fun group_do :: "group_event \<Rightarrow> provider list \<times> group_base \<Rightarrow> provider list \<times> group_base" where
  "group_do (NewProxies i ps) (pds, gb) =
     (if i < length pds then pds[i := fst (pv_setProxies ps (pds ! i))] else pds, gb)"
| "group_do (Ask touch now) (pds, gb) = snd (GetProxies touch now pds gb)"

text \<open>A provider is an old one after at most \<open>n\<close> updates.\<close>

definition updated :: "nat \<Rightarrow> provider \<Rightarrow> provider \<Rightarrow> bool" where
  "updated n old pd \<longleftrightarrow> pv_VehicleType old = pv_VehicleType pd \<and>
     (\<exists>k \<le> n. pv_Version pd = pv_Version old + word_of_nat k \<and> (k = 0 \<longrightarrow> pv_Proxies old = pv_Proxies pd))"

definition cache_inv :: "nat \<Rightarrow> provider list \<Rightarrow> group_base \<Rightarrow> bool" where
  "cache_inv n pds gb \<longleftrightarrow> gb_providerVersions gb = [] \<or>
     (\<exists>old. gb_providerVersions gb = map pv_Version old \<and> gb_providerProxies gb = group_proxies gb old \<and>
        gb_providerProxies gb \<noteq> [] \<and> list_all2 (updated n) old pds)"

lemma updated_refl: "updated n pd pd"
  by (auto simp: updated_def intro!: exI[of _ 0])

lemma updated_Suc: "updated n old pd \<Longrightarrow> updated (Suc n) old pd"
  unfolding updated_def by (meson le_SucI)

lemma updated_set: "updated n old pd \<Longrightarrow> updated (Suc n) old (fst (pv_setProxies ps pd))"
proof -
  assume "updated n old pd"
  then obtain k where k: "k \<le> n" "pv_Version pd = pv_Version old + word_of_nat k"
    "pv_VehicleType old = pv_VehicleType pd" by (auto simp: updated_def)
  then show ?thesis by (auto simp: updated_def pv_setProxies_def Let_def intro!: exI[of _ "Suc k"])
qed

lemma updated_touch: "updated n old pd \<Longrightarrow> updated n old (pv_Touch now pd)"
  by (auto simp: updated_def pv_Touch_def)

lemma updated_same:
  assumes "updated n old pd" "pv_Version old = pv_Version pd" "n < 2 ^ 32"
  shows "pv_Proxies old = pv_Proxies pd" "pv_VehicleType old = pv_VehicleType pd"
proof -
  obtain k where k: "k \<le> n" "pv_Version pd = pv_Version old + word_of_nat k" "k = 0 \<longrightarrow> pv_Proxies old = pv_Proxies pd"
    using assms(1) by (auto simp: updated_def)
  then have "(word_of_nat k :: 32 word) = 0" using assms(2) by simp
  then have "k = 0" using k(1) assms(3) by (auto simp: word_of_nat_eq_0_iff dest: dvd_imp_le)
  then show "pv_Proxies old = pv_Proxies pd" using k(3) by simp
  show "pv_VehicleType old = pv_VehicleType pd" using assms(1) by (simp add: updated_def)
qed

lemma concat_map_cong2:
  "list_all2 (\<lambda>x y. f x = g y) xs ys \<Longrightarrow> concat (map f xs) = concat (map g ys)"
  by (induction rule: list_all2_induct) auto

lemma group_proxies_cong:
  assumes "list_all2 (\<lambda>a b. pv_Proxies a = pv_Proxies b \<and> pv_VehicleType a = pv_VehicleType b) old pds"
  shows "group_proxies gb old = group_proxies gb pds"
proof -
  have "gather (gb_filterRegs gb) old = gather (gb_filterRegs gb) pds"
    unfolding gather_def
    by (auto intro!: concat_map_cong2 list.rel_mono_strong[OF assms])
  moreover have "length old = length pds" using assms by (rule list_all2_lengthD)
  ultimately show ?thesis by (simp add: group_proxies_def reorder_def)
qed

lemma group_proxies_config [simp]:
  "group_proxies (gb\<lparr>gb_providerVersions := vs, gb_providerProxies := ps\<rparr>) pds = group_proxies gb pds"
  by (simp add: group_proxies_def exclude_def)

lemma group_proxies_touch [simp]: "group_proxies gb (map (pv_Touch now) pds) = group_proxies gb pds"
  by (rule group_proxies_cong) (simp add: list_all2_map1 list_all2_same pv_Touch_def)

lemma map_versions_touch [simp]: "map pv_Version (map (pv_Touch now) pds) = map pv_Version pds"
  by (simp add: pv_Touch_def)

text \<open>What an up-to-date answer is.\<close>

definition group_answer :: "group_base \<Rightarrow> provider list \<Rightarrow> gproxy list" where
  "group_answer gb pds = (if group_proxies gb pds = [] then [gb_emptyFallback gb] else group_proxies gb pds)"

lemma cache_hit:
  assumes "cache_inv n pds gb" "n < 2 ^ 32" "pds \<noteq> []" "map pv_Version pds = gb_providerVersions gb"
  shows "gb_providerProxies gb = group_proxies gb pds" "gb_providerProxies gb \<noteq> []"
proof -
  obtain old where old: "gb_providerVersions gb = map pv_Version old" "gb_providerProxies gb = group_proxies gb old"
    "gb_providerProxies gb \<noteq> []" "list_all2 (updated n) old pds"
    using assms by (auto simp: cache_inv_def)
  have len: "length old = length pds" using old(4) by (rule list_all2_lengthD)
  have "list_all2 (\<lambda>a b. pv_Proxies a = pv_Proxies b \<and> pv_VehicleType a = pv_VehicleType b) old pds"
  proof (rule list_all2_all_nthI[OF len])
    fix i assume i: "i < length old"
    have "map pv_Version old ! i = map pv_Version pds ! i" by (simp only: assms(4) old(1))
    then have same: "pv_Version (old ! i) = pv_Version (pds ! i)" using i len by simp
    have "updated n (old ! i) (pds ! i)" using old(4) i by (rule list_all2_nthD)
    from updated_same[OF this same assms(2)]
    show "pv_Proxies (old ! i) = pv_Proxies (pds ! i) \<and> pv_VehicleType (old ! i) = pv_VehicleType (pds ! i)" ..
  qed
  then have "group_proxies gb old = group_proxies gb pds" by (rule group_proxies_cong)
  then show "gb_providerProxies gb = group_proxies gb pds" by (rule trans[OF old(2)])
  show "gb_providerProxies gb \<noteq> []" by (rule old(3))
qed

lemma cache_inv_ask:
  assumes "cache_inv n pds gb" "n < 2 ^ 32" "pds \<noteq> []"
  shows "case GetProxies touch now pds gb of (ps, pds', gb') \<Rightarrow>
    ps = group_answer gb pds \<and> cache_inv n pds' gb' \<and> length pds' = length pds \<and>
    group_answer gb' = group_answer gb \<and> group_proxies gb' pds' = group_proxies gb pds"
proof -
  define pds' where "pds' = (if touch then map (pv_Touch now) pds else pds)"
  have versions: "map pv_Version pds' = map pv_Version pds" and proxies: "group_proxies g pds' = group_proxies g pds" for g
    unfolding pds'_def using map_versions_touch by auto
  have "list_all2 (updated n) old pds' = list_all2 (updated n) old pds" for old
    by (auto simp: pds'_def list_all2_conv_all_nth updated_def pv_Touch_def)
  then have inv: "cache_inv n pds' gb" using assms(1) by (simp add: cache_inv_def)
  have fresh: "cache_inv n pds' (gb\<lparr>gb_providerVersions := map pv_Version pds, gb_providerProxies := group_proxies gb pds\<rparr>)"
    if "group_proxies gb pds \<noteq> []"
    unfolding cache_inv_def
    by (intro disjI2 exI[of _ pds'] conjI)
      (use that in \<open>simp_all add: versions proxies list_all2_same updated_refl\<close>)
  have answer: "group_answer (gb\<lparr>gb_providerVersions := vs, gb_providerProxies := ps\<rparr>) = group_answer gb" for vs ps
    by (simp add: fun_eq_iff group_answer_def)
  have "length pds' = length pds" using versions by (metis length_map)
  then show ?thesis using cache_hit[OF assms] inv fresh
    by (auto simp: GetProxies_def Let_def pds'_def[symmetric] versions proxies group_answer_def answer)
qed

text \<open>The number of lists the providers took.\<close>

definition updates :: "group_event list \<Rightarrow> nat" where
  "updates es = length (filter (\<lambda>e. case e of NewProxies i ps \<Rightarrow> True | Ask touch now \<Rightarrow> False) es)"

lemma cache_inv_update:
  assumes "cache_inv n pds gb"
  shows "cache_inv (Suc n) (fst (group_do (NewProxies i ps) (pds, gb))) gb"
proof -
  have "list_all2 (updated (Suc n)) old (pds[i := fst (pv_setProxies ps (pds ! i))])"
    if "list_all2 (updated n) old pds" for old
    using that by (cases "i < length pds") (auto simp: list_all2_conv_all_nth nth_list_update updated_Suc updated_set)
  moreover have "list_all2 (updated (Suc n)) old pds" if "list_all2 (updated n) old pds" for old
    using that by (auto intro: list.rel_mono_strong updated_Suc)
  ultimately show ?thesis using assms by (auto simp: cache_inv_def)
qed

lemma group_run:
  assumes "pds \<noteq> []" "gb_providerVersions gb = []" "updates es < 2 ^ 32"
  shows "case fold group_do es (pds, gb) of (pds', gb') \<Rightarrow>
    cache_inv (updates es) pds' gb' \<and> pds' \<noteq> [] \<and> group_answer gb' = group_answer gb"
  using assms(3)
proof (induction es rule: rev_induct)
  case Nil
  then show ?case using assms by (simp add: cache_inv_def)
next
  case (snoc e es)
  obtain pds1 gb1 where run: "fold group_do es (pds, gb) = (pds1, gb1)" by fastforce
  have less: "updates es < 2 ^ 32" using snoc.prems by (simp add: updates_def split: if_splits)
  then have IH: "cache_inv (updates es) pds1 gb1" "pds1 \<noteq> []" "group_answer gb1 = group_answer gb"
    using snoc.IH run by auto
  show ?case
  proof (cases e)
    case (NewProxies i ps)
    then have "updates (es @ [e]) = Suc (updates es)" by (simp add: updates_def)
    then show ?thesis using IH cache_inv_update[OF IH(1), of i ps] run NewProxies by auto
  next
    case (Ask touch now)
    then have "updates (es @ [e]) = updates es" by (simp add: updates_def)
    then show ?thesis using IH cache_inv_ask[OF IH(1) less IH(2), of touch now] run Ask
      by (auto simp: case_prod_unfold)
  qed
qed

text \<open>
  C19. A group never answers with an outdated list: after any sequence of provider updates (fewer
  than 2^32 of them) and requests, \<open>GetProxies\<close> answers what the current lists of the providers
  give, or the fallback alone when they give nothing.
\<close>

theorem group_cache_fresh:
  assumes "pds \<noteq> []" "gb_providerVersions gb = []" "updates es < 2 ^ 32"
    and "fold group_do es (pds, gb) = (pds', gb')"
  shows "fst (GetProxies touch now pds' gb') =
    (if group_proxies gb pds' = [] then [gb_emptyFallback gb] else group_proxies gb pds')"
proof -
  have run: "cache_inv (updates es) pds' gb'" "pds' \<noteq> []" "group_answer gb' = group_answer gb"
    using group_run[OF assms(1-3)] assms(4) by auto
  then have "fst (GetProxies touch now pds' gb') = group_answer gb' pds'"
    using cache_inv_ask[OF run(1) assms(3) run(2), of touch now] by (auto simp: case_prod_unfold)
  then show ?thesis by (simp add: run(3) group_answer_def)
qed

section \<open>Concrete inputs\<close>

definition demo_pv :: "string \<Rightarrow> gproxy list \<Rightarrow> provider" where
  "demo_pv name ps = \<lparr>pv_Name = name, pv_VehicleType = VehicleHTTP, pv_Proxies = ps, pv_Version = 0,
     pv_healthCheck = NewHealthCheck ps [] 0 0 False []\<rparr>"

definition demo_gb :: group_base where
  "demo_gb = \<lparr>gb_Name = ''g'', gb_Type = A_Selector, gb_filterRegs = [\<lambda>s. Contains s ''b'', \<lambda>s. Contains s ''a''],
     gb_excludeFilterRegs = [\<lambda>s. Contains s ''x''], gb_excludeTypeArray = [], gb_failedTimes = 0, gb_failedTime = 0,
     gb_failedTesting = False, gb_testTimeout = 5000, gb_maxFailedTimes = 5, gb_emptyFallback = demo_px 0 ''COMPATIBLE'',
     gb_providerVersions = [], gb_providerProxies = []\<rparr>"

definition demo_pvs :: "provider list" where
  "demo_pvs = [demo_pv ''p'' [demo_px 7 ''a'', demo_px 2 ''bx'', demo_px 3 ''c''], demo_pv ''q'' [demo_px 4 ''b'']]"


theorem group_cache_fresh_witness:
  "map gp_Name (fst (GetProxies False 0 (fst (fold group_do [Ask True 0, NewProxies 1 [demo_px 5 ''a2'']] (demo_pvs, demo_gb)))
     (snd (fold group_do [Ask True 0, NewProxies 1 [demo_px 5 ''a2'']] (demo_pvs, demo_gb))))) = [''a'', ''a2'']"
proof -
  let ?es = "[Ask True 0, NewProxies 1 [demo_px 5 ''a2'']]"
  have pvs: "group_proxies demo_gb (fst (fold group_do ?es (demo_pvs, demo_gb))) = [demo_px 7 ''a'', demo_px 5 ''a2'']"
    by code_simp
  have "demo_pvs \<noteq> []" "gb_providerVersions demo_gb = []" "updates ?es < 2 ^ 32"
    by (simp_all add: demo_pvs_def demo_gb_def updates_def)
  from group_cache_fresh[OF this prod.collapse[symmetric], of False 0] show ?thesis
    unfolding pvs by (simp only: pvs) (simp add: demo_px_def)
qed

end
