(* ===== verification/SingleDo.thy ===== *)
theory SingleDo
  imports Prelude
begin

text \<open>
  \<open>common/singledo/singledo.go\<close>: callers that ask for the same work at the same time share one call,
  and its result is handed out again for a while. \<open>Do\<close> holds the lock twice, before and after the
  work: these two sections and \<open>Reset\<close> are the atomic steps, interleaved in any order. A pointer to
  a call in flight is a number.
\<close>

section \<open>The operations\<close>

record 'a single =
  sg_wait :: int
  sg_call :: "nat option"
  sg_result :: "('a \<times> int) option"

definition NewSingle :: "int \<Rightarrow> 'a single" where
  "NewSingle wait = \<lparr>sg_wait = wait, sg_call = None, sg_result = None\<rparr>"

text \<open>What the first section decides: answer with the result kept, wait for a call in flight, or do
  the work in the new call given.\<close>

datatype 'a do_begin = Kept 'a | Join nat | Run nat

definition sg_Do_begin :: "int \<Rightarrow> nat \<Rightarrow> 'a single \<Rightarrow> 'a do_begin \<times> 'a single" where
  "sg_Do_begin now callM s =
     (let work = (\<lambda>s. case sg_call s of
            Some c \<Rightarrow> (Join c, s)
          | None \<Rightarrow> (Run callM, s\<lparr>sg_call := Some callM\<rparr>)) in
      case sg_result s of
        Some (v, time) \<Rightarrow> if now - time < sg_wait s then (Kept v, s) else work (s\<lparr>sg_result := None\<rparr>)
      | None \<Rightarrow> work (s\<lparr>sg_result := None\<rparr>))"

definition sg_Do_end :: "nat \<Rightarrow> 'a \<Rightarrow> int \<Rightarrow> 'a single \<Rightarrow> 'a single" where
  "sg_Do_end callM v now s =
     (if sg_call s = Some callM then s\<lparr>sg_call := None, sg_result := Some (v, now)\<rparr> else s)"

definition sg_Reset :: "'a single \<Rightarrow> 'a single" where
  "sg_Reset s = s\<lparr>sg_call := None, sg_result := None\<rparr>"

text \<open>\<open>Do\<close> when no other call is in flight: \<open>now\<close> and \<open>later\<close> are the times of the two sections and
  \<open>fn\<close> does the work on a state; the answer says whether it was shared.\<close>

definition sg_Do ::
  "int \<Rightarrow> int \<Rightarrow> ('s \<Rightarrow> 'a \<times> 's) \<Rightarrow> 'a single \<Rightarrow> 's \<Rightarrow> ('a \<times> bool) \<times> 'a single \<times> 's" where
  "sg_Do now later fn s w =
     (case sg_Do_begin now 0 s of
        (Kept v, s) \<Rightarrow> ((v, True), s, w)
      | (_, s) \<Rightarrow> let (v, w) = fn w in ((v, False), sg_Do_end 0 v later s, w))"

section \<open>Interleaved callers\<close>

text \<open>The system: the shared record, a clock, the number of resets so far, the calls being worked on
  with the number of resets at their start, and the start of the call whose result is kept.\<close>

record 'a flights =
  fl_single :: "'a single"
  fl_clock :: int
  fl_resets :: nat
  fl_running :: "nat \<rightharpoonup> nat"
  fl_source :: nat

datatype 'a flight_event = Began "'a do_begin" | Ended nat 'a | WasReset | Passed int

inductive flight_step :: "'a flights \<Rightarrow> 'a flight_event \<Rightarrow> 'a flights \<Rightarrow> bool" where
  answer: "sg_Do_begin (fl_clock f) c (fl_single f) = (Kept v, s) \<Longrightarrow> fl_running f c = None \<Longrightarrow>
    flight_step f (Began (Kept v)) (f\<lparr>fl_single := s\<rparr>)"
| join: "sg_Do_begin (fl_clock f) c (fl_single f) = (Join d, s) \<Longrightarrow> fl_running f c = None \<Longrightarrow>
    flight_step f (Began (Join d)) (f\<lparr>fl_single := s\<rparr>)"
| run: "sg_Do_begin (fl_clock f) c (fl_single f) = (Run c, s) \<Longrightarrow> fl_running f c = None \<Longrightarrow>
    flight_step f (Began (Run c)) (f\<lparr>fl_single := s, fl_running := (fl_running f)(c \<mapsto> fl_resets f)\<rparr>)"
| finish: "fl_running f c = Some started \<Longrightarrow>
    flight_step f (Ended c v) (f\<lparr>fl_single := sg_Do_end c v (fl_clock f) (fl_single f),
      fl_running := (fl_running f)(c := None),
      fl_source := (if sg_call (fl_single f) = Some c then started else fl_source f)\<rparr>)"
| reset: "flight_step f WasReset (f\<lparr>fl_single := sg_Reset (fl_single f), fl_resets := fl_resets f + 1\<rparr>)"
| pass: "0 < d \<Longrightarrow> flight_step f (Passed d) (f\<lparr>fl_clock := fl_clock f + d\<rparr>)"

inductive_cases flight_beganE: "flight_step f (Began b) f'"

definition flight_start :: "int \<Rightarrow> int \<Rightarrow> 'a flights" where
  "flight_start wait now =
     \<lparr>fl_single = NewSingle wait, fl_clock = now, fl_resets = 0, fl_running = Map.empty, fl_source = 0\<rparr>"

inductive flight_reach :: "int \<Rightarrow> int \<Rightarrow> 'a flights \<Rightarrow> bool" for wait now where
  begin_: "flight_reach wait now (flight_start wait now)"
| next_: "flight_reach wait now f \<Longrightarrow> flight_step f e f' \<Longrightarrow> flight_reach wait now f'"

text \<open>The call in flight is being worked on since the last reset and is the only such one; the result
  kept comes from a call started after the last reset; no call is in flight while a fresh result is kept.\<close>

definition flight_inv :: "int \<Rightarrow> 'a flights \<Rightarrow> bool" where
  "flight_inv wait f \<longleftrightarrow>
     sg_wait (fl_single f) = wait \<and>
     (\<forall>c. sg_call (fl_single f) = Some c \<longleftrightarrow> fl_running f c = Some (fl_resets f)) \<and>
     (\<forall>c n. fl_running f c = Some n \<longrightarrow> n \<le> fl_resets f) \<and>
     (\<forall>v t. sg_result (fl_single f) = Some (v, t) \<longrightarrow>
        fl_source f = fl_resets f \<and> t \<le> fl_clock f \<and> sg_call (fl_single f) = None)"

lemma flight_inv_start: "flight_inv wait (flight_start wait now)"
  by (simp add: flight_inv_def flight_start_def NewSingle_def)

lemma flight_inv_step:
  assumes "flight_inv wait f" "flight_step f e f'"
  shows "flight_inv wait f'"
  using assms(2,1)
proof (cases rule: flight_step.cases)
  case (answer c v s)
  then show ?thesis using assms(1)
    by (auto simp: flight_inv_def sg_Do_begin_def Let_def split: option.splits if_splits prod.splits)
next
  case (join c d s)
  then show ?thesis using assms(1)
    by (auto simp: flight_inv_def sg_Do_begin_def Let_def split: option.splits if_splits prod.splits)
next
  case (run c s)
  then show ?thesis using assms(1)
    by (auto simp: flight_inv_def sg_Do_begin_def Let_def split: option.splits if_splits prod.splits)
next
  case (finish c started v)
  then have only: "d = c" if "sg_call (fl_single f) = Some c" "fl_running f d = Some (fl_resets f)" for d
    using that assms(1) by (metis flight_inv_def option.inject)
  show ?thesis using finish assms(1) only by (auto simp: flight_inv_def sg_Do_end_def)
next
  case reset
  then show ?thesis using assms(1) by (fastforce simp: flight_inv_def sg_Reset_def)
next
  case (pass d)
  then show ?thesis using assms(1) by (fastforce simp: flight_inv_def)
qed

lemma flight_inv_reach: "flight_reach wait now f \<Longrightarrow> flight_inv wait f"
  by (induction rule: flight_reach.induct) (auto intro: flight_inv_start flight_inv_step)

text \<open>
  However the callers and the resets interleave, at most one call started since the last
  \<open>Reset\<close> is being worked on; a caller that is told to wait waits for that one; and a caller that
  is answered at once gets the result of a call that started after the last \<open>Reset\<close> and ended
  less than the waiting time ago.
\<close>

theorem single_flight:
  assumes "flight_reach wait now f"
  shows "card {c. fl_running f c = Some (fl_resets f)} \<le> 1 \<and>
    (\<forall>d f'. flight_step f (Began (Join d)) f' \<longrightarrow> fl_running f d = Some (fl_resets f)) \<and>
    (\<forall>v f'. flight_step f (Began (Kept v)) f' \<longrightarrow>
      fl_source f = fl_resets f \<and> (\<exists>t. sg_result (fl_single f) = Some (v, t) \<and> fl_clock f - t < wait))"
proof (intro conjI allI impI)
  note inv = flight_inv_reach[OF assms]
  have "{c. fl_running f c = Some (fl_resets f)} = {c. sg_call (fl_single f) = Some c}"
    using inv by (auto simp: flight_inv_def)
  then show "card {c. fl_running f c = Some (fl_resets f)} \<le> 1"
    by (cases "sg_call (fl_single f)") auto
  fix d f' assume "flight_step f (Began (Join d)) f'"
  then show "fl_running f d = Some (fl_resets f)" using inv
    by (auto elim!: flight_beganE simp: flight_inv_def sg_Do_begin_def Let_def split: option.splits if_splits)
next
  note inv = flight_inv_reach[OF assms]
  fix v f' assume "flight_step f (Began (Kept v)) f'"
  then have "fl_source f = fl_resets f \<and> (\<exists>t. sg_result (fl_single f) = Some (v, t) \<and> fl_clock f - t < wait)"
    using inv
    by (auto elim!: flight_beganE simp: flight_inv_def sg_Do_begin_def Let_def split: option.splits if_splits)
  then show "fl_source f = fl_resets f" "\<exists>t. sg_result (fl_single f) = Some (v, t) \<and> fl_clock f - t < wait"
    by auto
qed

text \<open>One call that works for two seconds and is then answered from the result kept.\<close>

definition demo_flights :: "string flights" where
  "demo_flights = \<lparr>fl_single = \<lparr>sg_wait = 10, sg_call = None, sg_result = Some (''fast'', 2)\<rparr>,
     fl_clock = 5, fl_resets = 0, fl_running = Map.empty, fl_source = 0\<rparr>"

lemma demo_flights_reach: "flight_reach 10 0 demo_flights"
proof -
  let ?w = "flight_start 10 0 :: string flights"
  let ?r = "?w\<lparr>fl_single := \<lparr>sg_wait = 10, sg_call = Some 1, sg_result = None\<rparr>, fl_running := [1 \<mapsto> 0]\<rparr>"
  have "flight_step ?w (Began (Run 1)) ?r"
    using run[of ?w 1 "\<lparr>sg_wait = 10, sg_call = Some 1, sg_result = None\<rparr>"]
    by (simp add: flight_start_def NewSingle_def sg_Do_begin_def)
  then have "flight_reach 10 0 ?r" by (rule next_[OF begin_])
  then have "flight_reach 10 0 (?r\<lparr>fl_clock := 2\<rparr>)"
    by (rule next_) (use pass[of 2 ?r] in \<open>simp add: flight_start_def\<close>)
  then have "flight_reach 10 0 (?r\<lparr>fl_clock := 2, fl_running := Map.empty,
      fl_single := \<lparr>sg_wait = 10, sg_call = None, sg_result = Some (''fast'', 2)\<rparr>\<rparr>)"
    by (rule next_) (use finish[of "?r\<lparr>fl_clock := 2\<rparr>" 1 0 "''fast''"] in
      \<open>simp add: flight_start_def sg_Do_end_def fun_upd_idem\<close>)
  then show ?thesis
    by (rule next_) (use pass[of 3 "demo_flights\<lparr>fl_clock := 2\<rparr>"] in \<open>simp add: flight_start_def demo_flights_def\<close>)
qed

theorem single_flight_witness:
  "\<exists>f'. flight_step demo_flights (Began (Kept ''fast'')) f' \<and> fl_source demo_flights = fl_resets demo_flights"
proof -
  have step: "flight_step demo_flights (Began (Kept ''fast'')) (demo_flights\<lparr>fl_single := fl_single demo_flights\<rparr>)"
    using answer[of demo_flights 1 "''fast''" "fl_single demo_flights"]
    by (simp add: demo_flights_def sg_Do_begin_def)
  then show ?thesis using single_flight[OF demo_flights_reach] by blast
qed

end
