(* ===== verification/ProxyGroups.thy ===== *)
theory ProxyGroups
  imports GroupProxies SingleDo
begin

text \<open>
  The selector, fallback and url-test groups (\<open>adapter/outboundgroup/selector.go\<close>, \<open>fallback.go\<close>,
  \<open>urltest.go\<close>): the choice of a proxy among those of the group. The list that \<open>GetProxies\<close>
  answered is an argument; it is never empty.
\<close>

text \<open>\<open>proxies[0]\<close> panics on an empty list.\<close>

definition first_proxy :: "gproxy list \<Rightarrow> gproxy outcome" where
  "first_proxy proxies = get_at proxies 0"

lemma first_proxy_hd: "proxies \<noteq> [] \<Longrightarrow> first_proxy proxies = Ret (hd proxies)"
  by (cases proxies) (simp_all add: first_proxy_def get_at_def)

definition alive_at :: "proxy_states \<Rightarrow> string \<Rightarrow> gproxy \<Rightarrow> bool" where
  "alive_at st url p = AliveForTestUrl url (st (gp_id p))"

definition delay_at :: "proxy_states \<Rightarrow> string \<Rightarrow> gproxy \<Rightarrow> 16 word" where
  "delay_at st url p = LastDelayForTestUrl url (st (gp_id p))"

section \<open>Selector\<close>

record selector =
  se_base :: group_base
  se_disableUDP :: bool
  se_selected :: string
  se_testUrl :: string

definition se_selectedProxy :: "gproxy list \<Rightarrow> selector \<Rightarrow> gproxy outcome" where
  "se_selectedProxy proxies s =
     (case find (\<lambda>p. gp_Name p = se_selected s) proxies of
        Some p \<Rightarrow> Ret p | None \<Rightarrow> first_proxy proxies)"

text \<open>\<open>Set\<close>: whether the proxy exists.\<close>

definition se_Set :: "gproxy list \<Rightarrow> string \<Rightarrow> selector \<Rightarrow> bool \<times> selector" where
  "se_Set proxies name s =
     (if list_ex (\<lambda>p. gp_Name p = name) proxies then (True, s\<lparr>se_selected := name\<rparr>) else (False, s))"

definition se_ForceSet :: "string \<Rightarrow> selector \<Rightarrow> selector" where
  "se_ForceSet name s = s\<lparr>se_selected := name\<rparr>"

definition se_Now :: "gproxy list \<Rightarrow> selector \<Rightarrow> string outcome" where
  "se_Now proxies s = obind (se_selectedProxy proxies s) (\<lambda>p. Ret (gp_Name p))"

text \<open>\<open>udp p\<close> is \<open>p.SupportUDP()\<close>.\<close>

definition se_SupportUDP :: "(gproxy \<Rightarrow> bool) \<Rightarrow> gproxy list \<Rightarrow> selector \<Rightarrow> bool outcome" where
  "se_SupportUDP udp proxies s =
     (if se_disableUDP s then Ret False else obind (se_selectedProxy proxies s) (\<lambda>p. Ret (udp p)))"

section \<open>Fallback\<close>

record fallback =
  fb_base :: group_base
  fb_disableUDP :: bool
  fb_testUrl :: string
  fb_selected :: string
  fb_expectedStatus :: string

text \<open>The loop of \<open>findAliveProxy\<close>: the proxy it returns, if any, and the selection it leaves.\<close>

fun fb_scan :: "(gproxy \<Rightarrow> bool) \<Rightarrow> string \<Rightarrow> gproxy list \<Rightarrow> gproxy option \<times> string" where
  "fb_scan alive selected [] = (None, selected)"
| "fb_scan alive selected (p # ps) =
     (if selected = [] then (if alive p then (Some p, selected) else fb_scan alive selected ps)
      else if gp_Name p = selected then (if alive p then (Some p, selected) else fb_scan alive [] ps)
      else fb_scan alive selected ps)"

definition findAliveProxy :: "proxy_states \<Rightarrow> gproxy list \<Rightarrow> fallback \<Rightarrow> (gproxy \<times> fallback) outcome" where
  "findAliveProxy st proxies f =
     (case fb_scan (alive_at st (fb_testUrl f)) (fb_selected f) proxies of
        (Some p, selected) \<Rightarrow> Ret (p, f\<lparr>fb_selected := selected\<rparr>)
      | (None, selected) \<Rightarrow> obind (first_proxy proxies) (\<lambda>p. Ret (p, f\<lparr>fb_selected := selected\<rparr>)))"

text \<open>\<open>Set\<close> tests the proxy when it is not alive; \<open>pb\<close> is what that test meets.\<close>

definition fb_Set ::
  "bool \<Rightarrow> probe \<Rightarrow> int \<Rightarrow> gproxy list \<Rightarrow> string \<Rightarrow> proxy_states \<Rightarrow> fallback \<Rightarrow> bool \<times> proxy_states \<times> fallback" where
  "fb_Set ud pb now proxies name st f =
     (case find (\<lambda>p. gp_Name p = name) proxies of
        None \<Rightarrow> (False, st, f)
      | Some p \<Rightarrow>
          let f = f\<lparr>fb_selected := name\<rparr> in
          if \<not> alive_at st (fb_testUrl f) p then
            let expectedStatus = (case NewUnsignedRanges (fb_expectedStatus f) of Some rs \<Rightarrow> rs | None \<Rightarrow> []) in
            (True, st(gp_id p := snd (URLTest ud (fb_testUrl f) expectedStatus pb now (st (gp_id p)))), f)
          else (True, st, f))"

definition fb_ForceSet :: "string \<Rightarrow> fallback \<Rightarrow> fallback" where
  "fb_ForceSet name f = f\<lparr>fb_selected := name\<rparr>"

definition fb_SupportUDP ::
  "(gproxy \<Rightarrow> bool) \<Rightarrow> proxy_states \<Rightarrow> gproxy list \<Rightarrow> fallback \<Rightarrow> (bool \<times> fallback) outcome" where
  "fb_SupportUDP udp st proxies f =
     (if fb_disableUDP f then Ret (False, f)
      else obind (findAliveProxy st proxies f) (\<lambda>(p, f). Ret (udp p, f)))"

section \<open>URL test\<close>

record urltest =
  ut_base :: group_base
  ut_selected :: string
  ut_testUrl :: string
  ut_expectedStatus :: string
  ut_tolerance :: "16 word"
  ut_disableUDP :: bool
  ut_fastNode :: "gproxy option"
  ut_fastSingle :: "gproxy single"

text \<open>The loop over \<open>proxies[1:]\<close>: the fastest so far with its delay, and \<open>fastNotExist\<close>.\<close>

fun ut_scan ::
  "proxy_states \<Rightarrow> string \<Rightarrow> gproxy option \<Rightarrow> gproxy list \<Rightarrow> gproxy \<times> 16 word \<times> bool \<Rightarrow> gproxy \<times> 16 word \<times> bool" where
  "ut_scan st url fastNode [] acc = acc"
| "ut_scan st url fastNode (p # ps) (fast, minDelay, fastNotExist) =
     (let fastNotExist = (case fastNode of
            Some f \<Rightarrow> if gp_Name p = gp_Name f then False else fastNotExist
          | None \<Rightarrow> fastNotExist) in
      if \<not> alive_at st url p then ut_scan st url fastNode ps (fast, minDelay, fastNotExist)
      else
        let delay = delay_at st url p in
        if delay < minDelay then ut_scan st url fastNode ps (p, delay, fastNotExist)
        else ut_scan st url fastNode ps (fast, minDelay, fastNotExist))"

text \<open>The work of \<open>fast\<close>. The sum with the tolerance is a \<open>uint16\<close>.\<close>

definition ut_work :: "proxy_states \<Rightarrow> gproxy list \<Rightarrow> urltest \<Rightarrow> (gproxy \<times> urltest) outcome" where
  "ut_work st proxies u =
     (let url = ut_testUrl u in
      case (if ut_selected u \<noteq> []
            then find (\<lambda>p. alive_at st url p \<and> gp_Name p = ut_selected u) proxies else None) of
        Some p \<Rightarrow> Ret (p, u\<lparr>ut_fastNode := Some p\<rparr>)
      | None \<Rightarrow>
          obind (first_proxy proxies) (\<lambda>first.
          let (fast, _, fastNotExist) =
                ut_scan st url (ut_fastNode u) (tl proxies) (first, delay_at st url first, True);
              change = (case ut_fastNode u of
                  None \<Rightarrow> True
                | Some f \<Rightarrow> fastNotExist \<or> \<not> alive_at st url f \<or>
                    delay_at st url f > delay_at st url fast + ut_tolerance u);
              node = (case ut_fastNode u of Some f \<Rightarrow> if change then fast else f | None \<Rightarrow> fast) in
          Ret (node, u\<lparr>ut_fastNode := Some node\<rparr>)))"

text \<open>\<open>fast\<close>: the last answer is kept for ten seconds. The second component says that the answer
  was shared, after which a caller that uses the proxy touches the providers again.\<close>

definition ut_fast ::
  "proxy_states \<Rightarrow> int \<Rightarrow> int \<Rightarrow> gproxy list \<Rightarrow> urltest \<Rightarrow> ((gproxy \<times> bool) \<times> urltest) outcome" where
  "ut_fast st now later proxies u =
     (case sg_Do_begin now 0 (ut_fastSingle u) of
        (Kept p, s) \<Rightarrow> Ret ((p, True), u\<lparr>ut_fastSingle := s\<rparr>)
      | (_, s) \<Rightarrow>
          obind (ut_work st proxies (u\<lparr>ut_fastSingle := s\<rparr>)) (\<lambda>(p, u).
            Ret ((p, False), u\<lparr>ut_fastSingle := sg_Do_end 0 p later (ut_fastSingle u)\<rparr>)))"

definition ut_ForceSet :: "string \<Rightarrow> urltest \<Rightarrow> urltest" where
  "ut_ForceSet name u = u\<lparr>ut_selected := name, ut_fastSingle := sg_Reset (ut_fastSingle u)\<rparr>"

definition ut_Set :: "gproxy list \<Rightarrow> string \<Rightarrow> urltest \<Rightarrow> bool \<times> urltest" where
  "ut_Set proxies name u =
     (if list_ex (\<lambda>p. gp_Name p = name) proxies then (True, ut_ForceSet name u) else (False, u))"

definition NewURLTest :: "group_base \<Rightarrow> bool \<Rightarrow> string \<Rightarrow> string \<Rightarrow> 16 word \<Rightarrow> urltest" where
  "NewURLTest base disableUDP url expectedStatus tolerance =
     \<lparr>ut_base = base, ut_selected = [], ut_testUrl = url, ut_expectedStatus = expectedStatus,
      ut_tolerance = tolerance, ut_disableUDP = disableUDP, ut_fastNode = None,
      ut_fastSingle = NewSingle 10000000000\<rparr>"

definition NewFallback :: "group_base \<Rightarrow> bool \<Rightarrow> string \<Rightarrow> string \<Rightarrow> fallback" where
  "NewFallback base disableUDP url expectedStatus =
     \<lparr>fb_base = base, fb_disableUDP = disableUDP, fb_testUrl = url, fb_selected = [],
      fb_expectedStatus = expectedStatus\<rparr>"

definition NewSelector :: "group_base \<Rightarrow> string \<Rightarrow> bool \<Rightarrow> string \<Rightarrow> selector" where
  "NewSelector base defaultSelected disableUDP url =
     \<lparr>se_base = base, se_disableUDP = disableUDP, se_selected = defaultSelected, se_testUrl = url\<rparr>"

section \<open>The choice of a fallback group\<close>

lemma fb_scan_unselected: "fb_scan alive [] ps = (find alive ps, [])"
  by (induction ps) auto

lemma fb_scan_missing: "selected \<noteq> [] \<Longrightarrow> selected \<notin> gp_Name ` set ps \<Longrightarrow> fb_scan alive selected ps = (None, selected)"
  by (induction ps) auto

lemma fb_scan_selected:
  "selected \<noteq> [] \<Longrightarrow> find (\<lambda>p. gp_Name p = selected) ps = Some q \<Longrightarrow>
     fb_scan alive selected ps =
       (if alive q then (Some q, selected)
        else (find alive (tl (dropWhile (\<lambda>p. gp_Name p \<noteq> selected) ps)), []))"
  by (induction ps) (auto simp: fb_scan_unselected split: if_splits)

definition find_or_first :: "(gproxy \<Rightarrow> bool) \<Rightarrow> gproxy list \<Rightarrow> gproxy list \<Rightarrow> gproxy" where
  "find_or_first alive ps proxies = (case find alive ps of Some p \<Rightarrow> p | None \<Rightarrow> hd proxies)"

text \<open>
  A fallback group without a selection answers with its first proxy that is alive, and with a
  selected proxy that is alive with that one. When the selected proxy is dead, the selection is
  dropped and only the proxies behind it are looked at; when no proxy has the selected name, the
  first proxy is the answer. Without any candidate it is the first proxy as well.
\<close>

theorem fallback_choice:
  assumes "proxies \<noteq> []"
  shows "findAliveProxy st proxies f = Ret (
    let alive = alive_at st (fb_testUrl f); selected = fb_selected f in
    if selected = [] then (find_or_first alive proxies proxies, f)
    else case find (\<lambda>p. gp_Name p = selected) proxies of
      None \<Rightarrow> (hd proxies, f)
    | Some q \<Rightarrow>
        if alive q then (q, f)
        else (find_or_first alive (tl (dropWhile (\<lambda>p. gp_Name p \<noteq> selected) proxies)) proxies, f\<lparr>fb_selected := []\<rparr>))"
proof (cases "fb_selected f = []")
  case True
  then show ?thesis using assms
    by (auto simp: findAliveProxy_def fb_scan_unselected find_or_first_def Let_def first_proxy_hd split: option.splits)
next
  case False
  show ?thesis
  proof (cases "find (\<lambda>p. gp_Name p = fb_selected f) proxies")
    case None
    then have "fb_selected f \<notin> gp_Name ` set proxies" by (auto simp: find_None_iff)
    then show ?thesis using assms False None by (simp add: findAliveProxy_def fb_scan_missing first_proxy_hd)
  next
    case (Some q)
    then show ?thesis using assms False
      by (auto simp: findAliveProxy_def fb_scan_selected[OF False Some] find_or_first_def Let_def first_proxy_hd
          split: option.splits)
  qed
qed

text \<open>
  A fallback group does not fall back while its selection names a proxy that is no longer in the
  group: it answers with the first proxy, dead or not, and keeps the selection, however many others
  are alive.
\<close>

theorem fallback_stuck_on_missing_selection:
  assumes "proxies \<noteq> []" "fb_selected f \<noteq> []" "fb_selected f \<notin> gp_Name ` set proxies"
  shows "\<forall>st. findAliveProxy st proxies f = Ret (hd proxies, f)"
  using assms by (simp add: findAliveProxy_def fb_scan_missing first_proxy_hd)

section \<open>The choice of a url-test group\<close>

lemma dead_delay: "\<not> alive_at st url p \<Longrightarrow> delay_at st url p = 65535"
  by (auto simp: alive_at_def delay_at_def AliveForTestUrl_def LastDelayForTestUrl_def Let_def split: option.splits)

lemma word16_le: "(w :: 16 word) \<le> 65535"
proof -
  have "unat w < 2 ^ LENGTH(16)" by (rule unsigned_less)
  then show ?thesis by (simp add: word_le_nat_alt)
qed

lemma ut_scan_result:
  assumes "ut_scan st url fastNode ps (f0, delay_at st url f0, b) = (fast, d, fastNotExist)"
  shows "d = delay_at st url fast \<and> fast \<in> set (f0 # ps) \<and> (\<forall>p \<in> set (f0 # ps). d \<le> delay_at st url p) \<and>
    fastNotExist = (b \<and> (case fastNode of None \<Rightarrow> True | Some f \<Rightarrow> gp_Name f \<notin> gp_Name ` set ps))"
  using assms
proof (induction ps arbitrary: f0 b)
  case (Cons p ps)
  define b' where "b' = (case fastNode of Some f \<Rightarrow> if gp_Name p = gp_Name f then False else b | None \<Rightarrow> b)"
  have b': "(b' \<and> (case fastNode of None \<Rightarrow> True | Some f \<Rightarrow> gp_Name f \<notin> gp_Name ` set ps)) =
      (b \<and> (case fastNode of None \<Rightarrow> True | Some f \<Rightarrow> gp_Name f \<notin> gp_Name ` set (p # ps)))"
    by (auto simp: b'_def split: option.splits)
  show ?case
  proof (cases "alive_at st url p \<and> delay_at st url p < delay_at st url f0")
    case True
    then have "ut_scan st url fastNode ps (p, delay_at st url p, b') = (fast, d, fastNotExist)"
      using Cons.prems by (simp add: Let_def b'_def)
    from Cons.IH[OF this] True show ?thesis unfolding b' by auto
  next
    case False
    then have "ut_scan st url fastNode ps (f0, delay_at st url f0, b') = (fast, d, fastNotExist)"
      using Cons.prems unfolding b'_def by (cases "alive_at st url p") (simp_all add: Let_def)
    from Cons.IH[OF this] False dead_delay[of st url p] word16_le show ?thesis unfolding b' by auto
  qed
qed (auto split: option.splits)

text \<open>What the work answers, given a fastest proxy.\<close>

definition ut_node :: "proxy_states \<Rightarrow> gproxy list \<Rightarrow> urltest \<Rightarrow> gproxy \<Rightarrow> gproxy" where
  "ut_node st proxies u fast =
     (case ut_fastNode u of
        Some f \<Rightarrow>
          if gp_Name f \<in> gp_Name ` set (tl proxies) \<and> alive_at st (ut_testUrl u) f \<and>
            delay_at st (ut_testUrl u) f \<le> delay_at st (ut_testUrl u) fast + ut_tolerance u then f else fast
      | None \<Rightarrow> fast)"

lemma ut_work_unselected:
  assumes "proxies \<noteq> []" "ut_selected u = []"
  shows "\<exists>fast \<in> set proxies. (\<forall>p \<in> set proxies. delay_at st (ut_testUrl u) fast \<le> delay_at st (ut_testUrl u) p) \<and>
    ut_work st proxies u = Ret (ut_node st proxies u fast, u\<lparr>ut_fastNode := Some (ut_node st proxies u fast)\<rparr>)"
proof -
  obtain first rest where cons: "proxies = first # rest" using assms(1) by (cases proxies) auto
  obtain fast d ne where scan:
    "ut_scan st (ut_testUrl u) (ut_fastNode u) rest (first, delay_at st (ut_testUrl u) first, True) = (fast, d, ne)"
    by (metis prod_cases3)
  note res = ut_scan_result[OF scan]
  have "ut_work st proxies u = Ret (ut_node st proxies u fast, u\<lparr>ut_fastNode := Some (ut_node st proxies u fast)\<rparr>)"
  proof (cases "ut_fastNode u")
    case None
    then show ?thesis using scan assms(2) by (simp add: ut_work_def ut_node_def first_proxy_hd cons Let_def)
  next
    case (Some f)
    then have "ne \<longleftrightarrow> gp_Name f \<notin> gp_Name ` set rest" using res by simp
    then show ?thesis using scan assms(2) Some
      by (auto simp: ut_work_def ut_node_def first_proxy_hd cons Let_def)
  qed
  then show ?thesis using res cons by auto
qed

text \<open>
  A url-test group without a selection answers with a proxy whose delay is within the tolerance
  of the fastest of the group (as long as delay and tolerance together fit in 16 bits), and does not
  change its mind while the last choice, listed behind the first proxy, is alive and within it.
\<close>

theorem url_test_within_tolerance:
  assumes "proxies \<noteq> []" "ut_selected u = []"
    and "q \<in> set proxies" "unat (delay_at st (ut_testUrl u) q) + unat (ut_tolerance u) < 65536"
  shows "returns (ut_work st proxies u) (\<lambda>(p, u'). ut_fastNode u' = Some p \<and>
    unat (delay_at st (ut_testUrl u) p) \<le> unat (delay_at st (ut_testUrl u) q) + unat (ut_tolerance u) \<and>
    (\<forall>f. ut_fastNode u = Some f \<and> gp_Name f \<in> gp_Name ` set (tl proxies) \<and> alive_at st (ut_testUrl u) f \<and>
       (\<forall>r \<in> set proxies. delay_at st (ut_testUrl u) f \<le> delay_at st (ut_testUrl u) r + ut_tolerance u) \<longrightarrow> p = f))"
proof -
  obtain fast where fast: "fast \<in> set proxies"
    "\<forall>p \<in> set proxies. delay_at st (ut_testUrl u) fast \<le> delay_at st (ut_testUrl u) p"
    and work: "ut_work st proxies u = Ret (ut_node st proxies u fast, u\<lparr>ut_fastNode := Some (ut_node st proxies u fast)\<rparr>)"
    using ut_work_unselected[OF assms(1,2)] by blast
  define d where "d = delay_at st (ut_testUrl u) fast"
  have le: "unat d \<le> unat (delay_at st (ut_testUrl u) q)"
    using fast(2) assms(3) by (simp add: word_le_nat_alt d_def)
  then have sum: "unat (d + ut_tolerance u) = unat d + unat (ut_tolerance u)"
    using assms(4) by (intro unat_add_lem[THEN iffD1]) simp
  have "delay_at st (ut_testUrl u) (ut_node st proxies u fast) \<le> d + ut_tolerance u"
    using sum by (auto simp: ut_node_def d_def word_le_nat_alt split: option.splits)
  then have "unat (delay_at st (ut_testUrl u) (ut_node st proxies u fast)) \<le> unat d + unat (ut_tolerance u)"
    using sum by (simp add: word_le_nat_alt)
  then show ?thesis using le fast(1) by (auto simp: work ut_node_def)
qed

text \<open>
  The tolerance does not protect the first proxy of a url-test group: when the last choice is the
  first proxy of the list, any faster proxy replaces it at once, whatever the tolerance.
\<close>

theorem url_test_first_not_protected:
  assumes "ut_selected u = []" "ut_fastNode u = Some first" "gp_Name first \<notin> gp_Name ` set rest"
    and "q \<in> set rest" "delay_at st (ut_testUrl u) q < delay_at st (ut_testUrl u) first"
  shows "returns (ut_work st (first # rest) u) (\<lambda>(p, u').
    delay_at st (ut_testUrl u) p \<le> delay_at st (ut_testUrl u) q)"
proof -
  obtain fast where "\<forall>p \<in> set (first # rest). delay_at st (ut_testUrl u) fast \<le> delay_at st (ut_testUrl u) p"
    and work: "ut_work st (first # rest) u =
      Ret (ut_node st (first # rest) u fast, u\<lparr>ut_fastNode := Some (ut_node st (first # rest) u fast)\<rparr>)"
    using ut_work_unselected[OF _ assms(1), of "first # rest"] by blast
  moreover have "ut_node st (first # rest) u fast = fast" using assms(2,3) by (simp add: ut_node_def)
  ultimately show ?thesis using assms(4) by simp
qed

text \<open>
  A url-test group keeps using a proxy that its provider has replaced: the old object is found
  again by name only, so as long as the old object counts as alive and fast enough (nobody tests it
  any more) the group answers with it although it is not in the group.
\<close>

theorem url_test_keeps_replaced_proxy:
  assumes "proxies \<noteq> []" "ut_selected u = []" "ut_fastNode u = Some old" "old \<notin> set proxies"
    and "gp_Name old \<in> gp_Name ` set (tl proxies)" "alive_at st (ut_testUrl u) old"
    and "\<forall>r \<in> set proxies. delay_at st (ut_testUrl u) old \<le> delay_at st (ut_testUrl u) r + ut_tolerance u"
  shows "ut_work st proxies u = Ret (old, u)"
proof -
  obtain fast where fast: "fast \<in> set proxies"
    and work: "ut_work st proxies u = Ret (ut_node st proxies u fast, u\<lparr>ut_fastNode := Some (ut_node st proxies u fast)\<rparr>)"
    using ut_work_unselected[OF assms(1,2)] by blast
  have "ut_node st proxies u fast = old" using assms fast by (simp add: ut_node_def)
  moreover have "u\<lparr>ut_fastNode := Some old\<rparr> = u" using assms(3) by simp
  ultimately show ?thesis by (simp only: work)
qed

section \<open>Concrete inputs\<close>

definition tested :: "16 word \<Rightarrow> proxy_state" where
  "tested delay = url_record ''u'' 0 delay True True NewProxy"

definition demo_fb :: "string \<Rightarrow> fallback" where
  "demo_fb sel = (NewFallback demo_gb False ''u'' ''*'')\<lparr>fb_selected := sel\<rparr>"

theorem fallback_stuck_on_missing_selection_witness:
  "map_outcome (\<lambda>(p, f). gp_Name p) (findAliveProxy (\<lambda>i. if i = 7 then url_record ''u'' 0 0 False False NewProxy else tested 20)
     [demo_px 7 ''a'', demo_px 2 ''b''] (demo_fb ''gone'')) = Ret ''a''"
  using fallback_stuck_on_missing_selection[of "[demo_px 7 ''a'', demo_px 2 ''b'']" "demo_fb ''gone''"]
  by (simp add: demo_fb_def demo_px_def)

definition demo_ut :: "gproxy option \<Rightarrow> urltest" where
  "demo_ut f = (NewURLTest demo_gb False ''u'' ''*'' 50)\<lparr>ut_fastNode := f\<rparr>"

definition demo_delays :: proxy_states where
  "demo_delays = (\<lambda>i. tested (if i = 7 then 100 else if i = 2 then 80 else 60))"

theorem url_test_within_tolerance_witness:
  "returns (ut_work demo_delays [demo_px 3 ''c'', demo_px 7 ''a'', demo_px 2 ''b''] (demo_ut (Some (demo_px 2 ''b''))))
     (\<lambda>(p, u). unat (delay_at demo_delays ''u'' p) \<le> 60 + 50 \<and> p = demo_px 2 ''b'')"
proof -
  let ?ps = "[demo_px 3 ''c'', demo_px 7 ''a'', demo_px 2 ''b'']" and ?u = "demo_ut (Some (demo_px 2 ''b''))"
  have delays: "delay_at demo_delays ''u'' (demo_px 3 ''c'') = 60" "delay_at demo_delays ''u'' (demo_px 7 ''a'') = 100"
    "delay_at demo_delays ''u'' (demo_px 2 ''b'') = 80" by code_simp+
  have u: "ut_selected ?u = []" "ut_testUrl ?u = ''u''" "ut_tolerance ?u = 50" "ut_fastNode ?u = Some (demo_px 2 ''b'')"
    by (simp_all add: demo_ut_def NewURLTest_def)
  have alive: "alive_at demo_delays ''u'' (demo_px 2 ''b'')" by code_simp
  have "gp_Name (demo_px 2 ''b'') \<in> gp_Name ` set (tl ?ps)" by simp
  then have kept: "\<exists>f. ut_fastNode ?u = Some f \<and> gp_Name f \<in> gp_Name ` set (tl ?ps) \<and> alive_at demo_delays (ut_testUrl ?u) f \<and>
      (\<forall>r \<in> set ?ps. delay_at demo_delays (ut_testUrl ?u) f \<le> delay_at demo_delays (ut_testUrl ?u) r + ut_tolerance ?u) \<and>
      f = demo_px 2 ''b''"
    using alive by (simp add: u delays)
  have "returns (ut_work demo_delays ?ps ?u) (\<lambda>(p, u'). ut_fastNode u' = Some p \<and>
      unat (delay_at demo_delays ''u'' p) \<le> 60 + 50 \<and> (\<forall>f. ut_fastNode ?u = Some f \<and>
        gp_Name f \<in> gp_Name ` set (tl ?ps) \<and> alive_at demo_delays (ut_testUrl ?u) f \<and>
       (\<forall>r \<in> set ?ps. delay_at demo_delays (ut_testUrl ?u) f \<le> delay_at demo_delays (ut_testUrl ?u) r + ut_tolerance ?u) \<longrightarrow> p = f))"
    using url_test_within_tolerance[of ?ps ?u "demo_px 3 ''c''" demo_delays] by (simp add: u delays)
  then show ?thesis using kept by (elim returns_mono) (auto simp: u)
qed

definition old_px :: gproxy where
  "old_px = demo_px 9 ''a''"

theorem url_test_keeps_replaced_proxy_witness:
  "ut_work (demo_delays(9 := tested 70)) [demo_px 3 ''c'', demo_px 7 ''a''] (demo_ut (Some old_px)) =
     Ret (old_px, demo_ut (Some old_px)) \<and> old_px \<notin> set [demo_px 3 ''c'', demo_px 7 ''a'']"
proof -
  let ?st = "demo_delays(9 := tested 70)"
  have delays: "delay_at ?st ''u'' (demo_px 3 ''c'') = 60" "delay_at ?st ''u'' (demo_px 7 ''a'') = 100"
    "delay_at ?st ''u'' old_px = 70" "alive_at ?st ''u'' old_px" by code_simp+
  have u: "ut_selected (demo_ut (Some old_px)) = []" "ut_testUrl (demo_ut (Some old_px)) = ''u''"
    "ut_tolerance (demo_ut (Some old_px)) = 50" "ut_fastNode (demo_ut (Some old_px)) = Some old_px"
    by (simp_all add: demo_ut_def NewURLTest_def)
  show ?thesis
    using url_test_keeps_replaced_proxy[of "[demo_px 3 ''c'', demo_px 7 ''a'']" "demo_ut (Some old_px)" old_px ?st]
    by (simp add: u delays) (simp add: old_px_def demo_px_def fun_upd_def)
qed

end
