(* ===== verification/Rounding.thy ===== *)
theory Rounding
  imports Prelude
begin

text \<open>
  Rounding of a quotient to the nearest whole number, ties to even, and the length of a number in
  bits: what IEEE 754 arithmetic is made of.
\<close>

text \<open>\<open>bits n\<close> is the number of binary digits of \<open>n\<close>; \<open>rne p q\<close> rounds \<open>p / q\<close>.\<close>

fun bits :: "nat \<Rightarrow> nat" where
  "bits n = (if n = 0 then 0 else Suc (bits (n div 2)))"

declare bits.simps [simp del]

definition rne :: "nat \<Rightarrow> nat \<Rightarrow> nat" where
  "rne p q =
     (let f = p div q; r = p mod q in
      if 2 * r < q then f else if q < 2 * r then f + 1 else if even f then f else f + 1)"

lemma bits_bounds: "n < 2 ^ bits n" "0 < n \<Longrightarrow> 2 ^ (bits n - 1) \<le> n"
proof (induction n rule: bits.induct)
  case (1 n)
  { case 1 show ?case using "1.IH"(1) by (subst bits.simps) auto }
  { case 2
    show ?case
    proof (cases "n div 2 = 0")
      case True
      then show ?thesis using 2 by (subst bits.simps) (simp add: bits.simps[of 0])
    next
      case False
      then have "bits (n div 2) \<noteq> 0" by (subst bits.simps) simp
      then have "2 ^ bits (n div 2) = 2 * (2::nat) ^ (bits (n div 2) - 1)" by (cases "bits (n div 2)") auto
      moreover have "2 ^ (bits (n div 2) - 1) \<le> n div 2" using False "1.IH"(2) 2 by simp
      ultimately show ?thesis using 2 by (subst bits.simps) simp
    qed }
qed

lemma rne_ge: "p div q \<le> rne p q"
  by (simp add: rne_def Let_def)

lemma rne_le: "rne p q \<le> p div q + 1"
  by (simp add: rne_def Let_def)

end
