(* ===== verification/LoadBalance.thy ===== *)
theory LoadBalance
  imports ProxyGroups Lru Rounding
begin

text \<open>
  The load-balance group (\<open>adapter/outboundgroup/loadbalance.go\<close>): the key of a connection, the jump
  consistent hash, and the three strategies. The hash of a string (\<open>maphash\<close> with a random seed) and
  the public suffix list are parameters.
\<close>

section \<open>The key of a connection\<close>

text \<open>\<open>etld1\<close> is \<open>publicsuffix.EffectiveTLDPlusOne\<close>. \<open>net.ParseIP\<close> reads an address without a zone.\<close>

definition getKey :: "(string \<Rightarrow> string option) \<Rightarrow> metadata option \<Rightarrow> string" where
  "getKey etld1 metadata =
     (case metadata of
        None \<Rightarrow> []
      | Some m \<Rightarrow>
          let addr = (if \<not> addr_IsValid (md_DstIP m) then [] else addr_String (md_DstIP m)) in
          if md_Host m \<noteq> [] then
            (if (case ParseAddr (md_Host m) of Some ip \<Rightarrow> addr_zone ip = [] | None \<Rightarrow> False) then md_Host m
             else case etld1 (md_Host m) of Some etld \<Rightarrow> etld | None \<Rightarrow> addr)
          else addr)"

definition getKeyWithSrcAndDst :: "(string \<Rightarrow> string option) \<Rightarrow> metadata option \<Rightarrow> string" where
  "getKeyWithSrcAndDst etld1 metadata =
     (let dst = getKey etld1 metadata;
          src = (case metadata of None \<Rightarrow> [] | Some m \<Rightarrow> addr_String (md_SrcIP m)) in
      src @ dst)"

section \<open>Jump consistent hash\<close>

text \<open>
  The \<open>float64\<close> values that occur are at least 1, so they are whole multiples of \<open>2^-52\<close>: a float is
  the natural number of these units. \<open>to_double p q\<close> is the float nearest to \<open>p / q\<close> units (53
  significant bits, ties to even), for \<open>p / q\<close> at least \<open>2^52\<close>.
\<close>

definition to_double :: "nat \<Rightarrow> nat \<Rightarrow> nat" where
  "to_double p q = (let s = bits (p div q) - 53 in rne p (q * 2 ^ s) * 2 ^ s)"

text \<open>Whole numbers below \<open>2^53\<close> are floats, so rounding does not cross them.\<close>

lemma to_double_ge:
  assumes "c * 2 ^ 52 * q \<le> p" "0 < q" "c < 2 ^ 53"
  shows "c * 2 ^ 52 \<le> to_double p q"
proof -
  define v where "v = p div q"
  define s where "s = bits v - 53"
  have "c * 2 ^ 52 \<le> v" using assms(1,2) by (simp add: v_def less_eq_div_iff_mult_less_eq)
  have "c * 2 ^ 52 \<le> v div 2 ^ s * 2 ^ s"
  proof (cases "s \<le> 52")
    case True
    then have "(2::nat) ^ 52 = 2 ^ (52 - s) * 2 ^ s" by (simp flip: power_add)
    then have eq: "c * 2 ^ 52 = c * 2 ^ (52 - s) * 2 ^ s" by simp
    have "c * 2 ^ (52 - s) * 2 ^ s \<le> v" using \<open>c * 2 ^ 52 \<le> v\<close> unfolding eq .
    then have "c * 2 ^ (52 - s) \<le> v div 2 ^ s" by (simp add: less_eq_div_iff_mult_less_eq)
    then show ?thesis unfolding eq by (rule mult_le_mono1)
  next
    case False
    then have "bits v = s + 53" "0 < v" by (auto simp: s_def bits.simps[of 0] intro!: gr0I)
    then have "2 ^ (52 + s) \<le> v" using bits_bounds(2)[of v] by simp
    then have "2 ^ 52 \<le> v div 2 ^ s" by (simp add: less_eq_div_iff_mult_less_eq power_add mult.commute)
    moreover have "(2::nat) ^ 53 \<le> 2 ^ s" using False by (intro power_increasing) auto
    then have "c \<le> 2 ^ s" using assms(3) by linarith
    ultimately have "c * 2 ^ 52 \<le> 2 ^ s * (v div 2 ^ s)" by (intro mult_le_mono)
    then show ?thesis by (simp only: mult.commute)
  qed
  also have "v div 2 ^ s = p div (q * 2 ^ s)" by (simp add: v_def div_mult2_eq)
  also have "p div (q * 2 ^ s) * 2 ^ s \<le> to_double p q"
    using rne_ge by (simp add: to_double_def Let_def s_def v_def)
  finally show ?thesis .
qed

lemma to_double_le: "to_double p q \<le> p div q + (p div q) div 2 ^ 52 + 1"
proof -
  define v where "v = p div q"
  define s where "s = bits v - 53"
  have "to_double p q \<le> (v div 2 ^ s + 1) * 2 ^ s"
    using mult_le_mono1[OF rne_le[of p "q * 2 ^ s"], of "2 ^ s"]
    by (simp add: to_double_def Let_def s_def v_def div_mult2_eq)
  also have "\<dots> \<le> v + 2 ^ s" by simp
  also have "\<dots> \<le> v + v div 2 ^ 52 + 1"
  proof (cases "s = 0")
    case False
    then have "bits v = s + 53" "0 < v" by (auto simp: s_def bits.simps[of 0] intro!: gr0I)
    then have "2 ^ (52 + s) \<le> v" using bits_bounds(2)[of v] by simp
    then have "2 ^ s \<le> v div 2 ^ 52" by (simp add: less_eq_div_iff_mult_less_eq power_add)
    then show ?thesis by simp
  qed simp
  finally show ?thesis by (simp add: v_def)
qed

text \<open>The next candidate: \<open>int64(float64(b+1) * (float64(1<<31) / float64((key>>33)+1)))\<close>.\<close>

definition jump_next :: "nat \<Rightarrow> 64 word \<Rightarrow> nat" where
  "jump_next b key =
     (let quotient = to_double (2 ^ 31 * 2 ^ 52) (unat (drop_bit 33 key) + 1) in
      to_double ((b + 1) * quotient) 1 div 2 ^ 52)"

lemma jump_divisor: "unat (drop_bit 33 key :: 64 word) + 1 \<le> 2 ^ 31"
proof -
  have "unat (drop_bit 33 key :: 64 word) = unat key div 2 ^ 33" 
    unfolding unat_drop_bit_eq by (simp only: drop_bit_eq_div)
  moreover have "unat key < 2 ^ 64" using unsigned_less[of key] by simp
  ultimately show ?thesis by (simp add: less_mult_imp_div_less Suc_le_eq)
qed

lemma jump_next_greater: "b + 1 < 2 ^ 53 \<Longrightarrow> b < jump_next b key"
proof -
  assume b: "b + 1 < 2 ^ 53"
  define d where "d = unat (drop_bit 33 key :: 64 word) + 1"
  have "1 * 2 ^ 52 \<le> to_double (2 ^ 31 * 2 ^ 52) d"
    by (rule to_double_ge) (use jump_divisor[of key] in \<open>simp_all add: d_def\<close>)
  then have "(b + 1) * 2 ^ 52 * 1 \<le> (b + 1) * to_double (2 ^ 31 * 2 ^ 52) d"
    unfolding mult_1 mult_1_right by (rule mult_le_mono2)
  from to_double_ge[OF this _ b]
  have "(b + 1) * 2 ^ 52 \<le> to_double ((b + 1) * to_double (2 ^ 31 * 2 ^ 52) d) 1" by simp
  then have "b + 1 \<le> to_double ((b + 1) * to_double (2 ^ 31 * 2 ^ 52) d) 1 div 2 ^ 52"
    by (simp add: less_eq_div_iff_mult_less_eq)
  then show ?thesis by (simp add: jump_next_def Let_def d_def)
qed

text \<open>The candidate fits in an \<open>int64\<close>.\<close>

lemma jump_next_bound:
  assumes "b < 2 ^ 31"
  shows "jump_next b key < 2 ^ 63"
proof -
  define d where "d = unat (drop_bit 33 key :: 64 word) + 1"
  have q: "(2 ^ 31 * 2 ^ 52) div d \<le> (2 ^ 31 * 2 ^ 52 :: nat)" by simp
  from div_le_mono[OF this, of "2 ^ 52"]
  have "(2 ^ 31 * 2 ^ 52) div d div 2 ^ 52 \<le> (2 ^ 31 :: nat)" by simp
  with q have "(2 ^ 31 * 2 ^ 52) div d + (2 ^ 31 * 2 ^ 52) div d div 2 ^ 52 + 1 \<le> (2 ^ 31 * 2 ^ 52 + 2 ^ 31 + 1 :: nat)"
    by (intro add_mono order_refl)
  then have "to_double (2 ^ 31 * 2 ^ 52) d \<le> 2 ^ 83 + 2 ^ 31 + 1"
    by (rule order_trans[OF order_trans[OF to_double_le]]) simp
  then have v: "(b + 1) * to_double (2 ^ 31 * 2 ^ 52) d \<le> 2 ^ 31 * (2 ^ 83 + 2 ^ 31 + 1)"
    using assms by (intro mult_le_mono) auto
  then have "to_double ((b + 1) * to_double (2 ^ 31 * 2 ^ 52) d) 1 < 2 ^ 115"
    using to_double_le[of "(b + 1) * to_double (2 ^ 31 * 2 ^ 52) d" 1] div_le_mono[OF v, of "2 ^ 52"] by simp
  then have "to_double ((b + 1) * to_double (2 ^ 31 * 2 ^ 52) d) 1 < 2 ^ 63 * 2 ^ 52" by simp
  then show ?thesis by (simp add: jump_next_def Let_def d_def less_mult_imp_div_less)
qed

text \<open>The loop with \<open>b\<close> and \<open>j\<close>, which are never negative; \<open>buckets\<close> is an \<open>int32\<close>.\<close>

lemma sint_int32: "sint (w :: 32 word) < 2 ^ 31"
  using sint_lt[of w] by simp

function jump_loop :: "64 word \<Rightarrow> 32 word \<Rightarrow> nat \<Rightarrow> nat \<Rightarrow> nat" where
  "jump_loop key buckets b j =
     (if int j < sint buckets then
        let key = key * 2862933555777941757 + 1 in
        jump_loop key buckets j (jump_next j key)
      else b)"
  by pat_completeness auto

termination
proof (relation "measure (\<lambda>(key, buckets, b, j). nat (sint buckets) - j)")
  fix key :: "64 word" and buckets :: "32 word" and b j :: nat and key'
  assume j: "int j < sint buckets" "key' = key * 2862933555777941757 + 1"
  have "j < jump_next j key'" by (intro jump_next_greater) (use j(1) sint_int32[of buckets] in simp)
  then show "((key', buckets, j, jump_next j key'), key, buckets, b, j)
      \<in> measure (\<lambda>(key, buckets, b, j). nat (sint buckets) - j)"
    using j(1) by simp
qed simp

declare jump_loop.simps [simp del]

definition jumpHash :: "64 word \<Rightarrow> 32 word \<Rightarrow> nat" where
  "jumpHash key buckets = jump_loop key buckets 0 0"

lemma jump_loop_range:
  "int b < sint buckets \<Longrightarrow> int (jump_loop key buckets b j) < sint buckets"
  by (induction key buckets b j rule: jump_loop.induct) (subst jump_loop.simps, simp add: Let_def)

lemma jump_loop_stop: "sint buckets \<le> int j \<Longrightarrow> jump_loop key buckets b j = b"
  by (subst jump_loop.simps) simp

lemma jump_loop_go: "int j < sint buckets \<Longrightarrow> jump_loop key buckets b j =
    jump_loop (key * 2862933555777941757 + 1) buckets j (jump_next j (key * 2862933555777941757 + 1))"
  by (subst jump_loop.simps) (simp add: Let_def)

text \<open>With one bucket more, the loop makes the same turns and at most one more, which ends in the
  new bucket.\<close>

lemma jump_loop_grow:
  assumes "sint buckets' = sint buckets + 1"
  shows "jump_loop key buckets' b j = jump_loop key buckets b j \<or> int (jump_loop key buckets' b j) = sint buckets"
  using assms
proof (induction key buckets b j rule: jump_loop.induct)
  case (1 key buckets b j)
  let ?key = "key * 2862933555777941757 + 1"
  consider "int j < sint buckets" | "int j = sint buckets" | "sint buckets < int j" by linarith
  then show ?case
  proof cases
    case 1
    then show ?thesis using "1.IH"[OF 1 refl "1.prems"] "1.prems" by (simp add: jump_loop_go)
  next
    case 2
    have "j < jump_next j ?key" by (intro jump_next_greater) (use 2 sint_int32[of buckets] in simp)
    then have "jump_loop ?key buckets' j (jump_next j ?key) = j"
      using 2 "1.prems" by (intro jump_loop_stop) simp
    then show ?thesis using 2 "1.prems" by (simp add: jump_loop_go)
  next
    case 3
    then show ?thesis using "1.prems" by (simp add: jump_loop_stop)
  qed
qed

section \<open>Strategies\<close>

text \<open>Round robin: \<open>idx\<close> is the state of the strategy. The scan answers the proxy found and the
  value of \<open>i\<close> after it; its last argument is the number of turns left.\<close>

fun rr_scan :: "(gproxy \<Rightarrow> bool) \<Rightarrow> gproxy list \<Rightarrow> nat \<Rightarrow> nat \<Rightarrow> nat \<Rightarrow> (gproxy option \<times> nat) outcome" where
  "rr_scan alive proxies idx i 0 = Ret (None, i)"
| "rr_scan alive proxies idx i (Suc left) =
     obind (get_at proxies (int ((idx + i) mod length proxies))) (\<lambda>proxy.
       if alive proxy then Ret (Some proxy, i + 1) else rr_scan alive proxies idx (i + 1) left)"

definition strategyRoundRobin ::
  "proxy_states \<Rightarrow> string \<Rightarrow> gproxy list \<Rightarrow> bool \<Rightarrow> nat \<Rightarrow> (gproxy \<times> nat) outcome" where
  "strategyRoundRobin st url proxies touch idx =
     obind (rr_scan (alive_at st url) proxies idx 0 (length proxies)) (\<lambda>(found, i).
     obind (case found of Some proxy \<Rightarrow> Ret proxy | None \<Rightarrow> first_proxy proxies) (\<lambda>proxy.
       Ret (proxy, if touch then (idx + i) mod length proxies else idx)))"

text \<open>Consistent hashing: five candidates from consecutive keys, then the first alive of the list.\<close>

fun ch_scan :: "(gproxy \<Rightarrow> bool) \<Rightarrow> gproxy list \<Rightarrow> nat \<Rightarrow> 64 word \<Rightarrow> gproxy option outcome" where
  "ch_scan alive proxies 0 key = Ret None"
| "ch_scan alive proxies (Suc left) key =
     obind (get_at proxies (int (jumpHash key (word_of_nat (length proxies))))) (\<lambda>proxy.
       if alive proxy then Ret (Some proxy) else ch_scan alive proxies left (key + 1))"

definition strategyConsistentHashing ::
  "(string \<Rightarrow> 64 word) \<Rightarrow> (string \<Rightarrow> string option) \<Rightarrow> proxy_states \<Rightarrow> string \<Rightarrow> gproxy list \<Rightarrow> metadata option \<Rightarrow> gproxy outcome" where
  "strategyConsistentHashing mapHash etld1 st url proxies metadata =
     obind (ch_scan (alive_at st url) proxies 5 (mapHash (getKey etld1 metadata))) (\<lambda>found.
       case found of
         Some proxy \<Rightarrow> Ret proxy
       | None \<Rightarrow>
           (case find (alive_at st url) proxies of
              Some proxy \<Rightarrow> Ret proxy | None \<Rightarrow> first_proxy proxies))"

text \<open>Sticky sessions: the index chosen for a key is kept in a cache; \<open>clock i\<close> is the time in
  nanoseconds at the draw number \<open>i\<close>, \<open>now\<close> the seconds that the cache reads.\<close>

fun sticky_scan ::
  "(gproxy \<Rightarrow> bool) \<Rightarrow> gproxy list \<Rightarrow> 64 word \<Rightarrow> (nat \<Rightarrow> 64 word) \<Rightarrow> nat \<Rightarrow> nat \<Rightarrow> nat \<Rightarrow> (gproxy \<times> nat) option outcome" where
  "sticky_scan alive proxies key clock 0 i nowIdx = Ret None"
| "sticky_scan alive proxies key clock (Suc left) i nowIdx =
     obind (get_at proxies (int nowIdx)) (\<lambda>proxy.
       if alive proxy then Ret (Some (proxy, nowIdx))
       else sticky_scan alive proxies key clock left (i + 1)
              (jumpHash (key + clock i) (word_of_nat (length proxies))))"

definition newSticky :: "(64 word, nat) lru" where
  "newSticky = lru_New 600 1000 False False"

definition strategyStickySessions ::
  "(string \<Rightarrow> 64 word) \<Rightarrow> (string \<Rightarrow> string option) \<Rightarrow> (nat \<Rightarrow> 64 word) \<Rightarrow> int \<Rightarrow> proxy_states \<Rightarrow> string \<Rightarrow>
     gproxy list \<Rightarrow> metadata option \<Rightarrow> (64 word, nat) lru \<Rightarrow> (gproxy \<times> (64 word, nat) lru) outcome" where
  "strategyStickySessions mapHash etld1 clock now st url proxies metadata cache =
     (let key = mapHash (getKeyWithSrcAndDst etld1 metadata);
          (kept, cache) = lru_Get now key cache;
          has = (kept \<noteq> None);
          idx = (case kept of
              Some idx \<Rightarrow> if idx \<ge> length proxies then jumpHash (key + clock 0) (word_of_nat (length proxies)) else idx
            | None \<Rightarrow> jumpHash (key + clock 0) (word_of_nat (length proxies))) in
      obind (sticky_scan (alive_at st url) proxies key clock 4 1 idx) (\<lambda>found.
        case found of
          Some (proxy, nowIdx) \<Rightarrow>
            Ret (proxy, if \<not> has \<or> nowIdx \<noteq> idx then lru_set now key nowIdx cache else cache)
        | None \<Rightarrow> obind (first_proxy proxies) (\<lambda>proxy. Ret (proxy, lru_set now key 0 cache))))"

section \<open>Correctness of the hash and of the strategies\<close>

lemma sint_buckets: "n < 2 ^ 31 \<Longrightarrow> sint (word_of_nat n :: 32 word) = int n"
  by (simp add: signed_of_nat signed_take_bit_int_eq_self)

text \<open>
  C29. Jump consistent hash: with at least one bucket the result is a bucket, and adding a bucket
  moves a key to the new bucket or leaves it where it was.
\<close>

theorem jump_hash_consistent:
  assumes "0 < n" "n + 1 < 2 ^ 31"
  shows "jumpHash key (word_of_nat n) < n \<and>
    (jumpHash key (word_of_nat (n + 1)) = jumpHash key (word_of_nat n) \<or> jumpHash key (word_of_nat (n + 1)) = n)"
proof -
  have "sint (word_of_nat n :: 32 word) = int n" "sint (word_of_nat (n + 1) :: 32 word) = int n + 1"
    using assms sint_buckets[of n] sint_buckets[of "n + 1"] by auto
  then show ?thesis
    using jump_loop_range[of 0 "word_of_nat n" key 0] jump_loop_grow[of "word_of_nat (n + 1)" "word_of_nat n" key 0 0] assms(1)
    by (auto simp: jumpHash_def)
qed

lemma jump_in_range: "0 < n \<Longrightarrow> n < 2 ^ 31 \<Longrightarrow> jumpHash key (word_of_nat n) < n"
  using jump_loop_range[of 0 "word_of_nat n" key 0] by (simp add: jumpHash_def sint_buckets)

lemma get_jump:
  "proxies \<noteq> [] \<Longrightarrow> length proxies < 2 ^ 31 \<Longrightarrow>
     get_at proxies (int (jumpHash key (word_of_nat (length proxies)))) =
       Ret (proxies ! jumpHash key (word_of_nat (length proxies)))"
  using jump_in_range[of "length proxies" key] by (simp add: get_at_int)

lemma ch_scan_result:
  assumes "proxies \<noteq> []" "length proxies < 2 ^ 31"
  shows "\<exists>found. ch_scan alive proxies left key = Ret found \<and>
    (\<forall>p. found = Some p \<longrightarrow> p \<in> set proxies \<and> alive p)"
proof (induction left arbitrary: key)
  case (Suc left)
  show ?case using Suc.IH[of "key + 1"] get_jump[OF assms, of key] jump_in_range[of "length proxies" key] assms
    by auto
qed auto

text \<open>The turns from \<open>i\<close> up to \<open>m\<close> met no proxy alive.\<close>

definition rr_skipped :: "(gproxy \<Rightarrow> bool) \<Rightarrow> gproxy list \<Rightarrow> nat \<Rightarrow> nat \<Rightarrow> nat \<Rightarrow> bool" where
  "rr_skipped alive proxies idx i m \<longleftrightarrow> (\<forall>k \<in> {i..<m}. \<not> alive (proxies ! ((idx + k) mod length proxies)))"

lemma rr_skipped_refl [simp]: "rr_skipped alive proxies idx i i"
  by (simp add: rr_skipped_def)

lemma rr_skipped_back:
  assumes "rr_skipped alive proxies idx (Suc i) m" "\<not> alive (proxies ! ((idx + i) mod length proxies))"
  shows "rr_skipped alive proxies idx i m"
proof -
  have "{i..<m} \<subseteq> insert i {Suc i..<m}" by auto
  then show ?thesis using assms by (auto simp: rr_skipped_def)
qed

lemma rr_scan_result:
  assumes "proxies \<noteq> []"
  shows "\<exists>found i'. rr_scan alive proxies idx i left = Ret (found, i') \<and>
    (case found of
       Some p \<Rightarrow> (\<exists>k \<ge> i. k < i + left \<and> i' = Suc k \<and> p = proxies ! ((idx + k) mod length proxies) \<and> alive p \<and>
         rr_skipped alive proxies idx i k)
     | None \<Rightarrow> i' = i + left \<and> rr_skipped alive proxies idx i (i + left))"
proof (induction left arbitrary: i)
  case (Suc left)
  have len: "(idx + i) mod length proxies < length proxies" using assms by simp
  show ?case
  proof (cases "alive (proxies ! ((idx + i) mod length proxies))")
    case True
    then show ?thesis using len by (auto simp: get_at_int)
  next
    case False
    obtain found i' where run: "rr_scan alive proxies idx (Suc i) left = Ret (found, i')"
      and IH: "case found of
         Some p \<Rightarrow> (\<exists>k \<ge> Suc i. k < Suc i + left \<and> i' = Suc k \<and> p = proxies ! ((idx + k) mod length proxies) \<and> alive p \<and>
           rr_skipped alive proxies idx (Suc i) k)
       | None \<Rightarrow> i' = Suc i + left \<and> rr_skipped alive proxies idx (Suc i) (Suc i + left)"
      using Suc.IH[of "Suc i"] by blast
    have "rr_scan alive proxies idx i (Suc left) = Ret (found, i')" using run False len by (simp add: get_at_int)
    moreover have "case found of
         Some p \<Rightarrow> (\<exists>k \<ge> i. k < i + Suc left \<and> i' = Suc k \<and> p = proxies ! ((idx + k) mod length proxies) \<and> alive p \<and>
           rr_skipped alive proxies idx i k)
       | None \<Rightarrow> i' = i + Suc left \<and> rr_skipped alive proxies idx i (i + Suc left)"
    proof (cases found)
      case None
      then show ?thesis using IH rr_skipped_back[of alive proxies idx i "Suc i + left"] False by simp
    next
      case (Some p)
      then obtain k where "k \<ge> Suc i" "k < Suc i + left" "i' = Suc k" "p = proxies ! ((idx + k) mod length proxies)"
        "alive p" "rr_skipped alive proxies idx (Suc i) k" using IH by auto
      then show ?thesis using rr_skipped_back[of alive proxies idx i k] False Some by (auto intro!: exI[of _ k])
    qed
    ultimately show ?thesis by blast
  qed
qed simp

lemma rr_skipped_all:
  assumes "proxies \<noteq> []" "rr_skipped alive proxies idx 0 (length proxies)"
  shows "\<not> list_ex alive proxies"
proof
  assume "list_ex alive proxies"
  then obtain j where j: "j < length proxies" "alive (proxies ! j)" by (auto simp: list_ex_iff in_set_conv_nth)
  let ?n = "length proxies"
  define k where "k = (j + (?n - idx mod ?n)) mod ?n"
  have "idx mod ?n < ?n" using assms(1) by simp
  then have "idx mod ?n + (j + (?n - idx mod ?n)) = j + ?n" by linarith
  moreover have "(idx + k) mod ?n = (idx mod ?n + (j + (?n - idx mod ?n))) mod ?n"
    by (simp add: k_def mod_simps)
  ultimately have "(idx + k) mod ?n = j" using j by simp
  moreover have "k \<in> {0..<?n}" using assms(1) by (simp add: k_def)
  ultimately show False using assms(2) j by (auto simp: rr_skipped_def)
qed

text \<open>
  Round robin and consistent hashing always answer with a proxy of the group (no index is out
  of range), and with one that is alive whenever some proxy is.
\<close>

theorem load_balance_alive:
  assumes "proxies \<noteq> []" "length proxies < 2 ^ 31"
  shows "returns (strategyRoundRobin st url proxies touch idx) (\<lambda>(p, idx').
      p \<in> set proxies \<and> (list_ex (alive_at st url) proxies \<longrightarrow> alive_at st url p)) \<and>
    returns (strategyConsistentHashing mapHash etld1 st url proxies metadata) (\<lambda>p.
      p \<in> set proxies \<and> (list_ex (alive_at st url) proxies \<longrightarrow> alive_at st url p))"
proof
  obtain found i where run: "rr_scan (alive_at st url) proxies idx 0 (length proxies) = Ret (found, i)"
    and res: "case found of
         Some p \<Rightarrow> (\<exists>k \<ge> 0. k < 0 + length proxies \<and> i = Suc k \<and> p = proxies ! ((idx + k) mod length proxies) \<and>
           alive_at st url p \<and> rr_skipped (alive_at st url) proxies idx 0 k)
       | None \<Rightarrow> i = 0 + length proxies \<and> rr_skipped (alive_at st url) proxies idx 0 (0 + length proxies)"
    using rr_scan_result[OF assms(1), of "alive_at st url" idx 0 "length proxies"] by blast
  show "returns (strategyRoundRobin st url proxies touch idx) (\<lambda>(p, idx').
      p \<in> set proxies \<and> (list_ex (alive_at st url) proxies \<longrightarrow> alive_at st url p))"
  proof (cases found)
    case None
    then show ?thesis using run res rr_skipped_all[OF assms(1), of "alive_at st url" idx] assms(1)
      by (simp add: strategyRoundRobin_def first_proxy_hd)
  next
    case (Some p)
    then have "p \<in> set proxies" "alive_at st url p" using res assms(1) by auto
    then show ?thesis using run Some by (simp add: strategyRoundRobin_def)
  qed
  obtain found' where c: "ch_scan (alive_at st url) proxies 5 (mapHash (getKey etld1 metadata)) = Ret found'"
    "\<And>p. found' = Some p \<Longrightarrow> p \<in> set proxies \<and> alive_at st url p"
    using ch_scan_result[OF assms, of "alive_at st url" 5] by blast
  then show "returns (strategyConsistentHashing mapHash etld1 st url proxies metadata) (\<lambda>p.
      p \<in> set proxies \<and> (list_ex (alive_at st url) proxies \<longrightarrow> alive_at st url p))"
    using assms(1)
    by (auto simp: strategyConsistentHashing_def first_proxy_hd list_ex_iff find_None_iff find_Some_iff
        split: option.splits)
qed

text \<open>A number of uses of a round-robin group, one after the other.\<close>

fun rr_uses :: "proxy_states \<Rightarrow> string \<Rightarrow> gproxy list \<Rightarrow> nat \<Rightarrow> nat \<Rightarrow> (gproxy list \<times> nat) outcome" where
  "rr_uses st url proxies 0 idx = Ret ([], idx)"
| "rr_uses st url proxies (Suc n) idx =
     obind (strategyRoundRobin st url proxies True idx) (\<lambda>(p, idx).
     obind (rr_uses st url proxies n idx) (\<lambda>(ps, idx). Ret (p # ps, idx)))"

lemma rr_use_alive:
  assumes "proxies \<noteq> []" "list_all (alive_at st url) proxies"
  shows "strategyRoundRobin st url proxies True idx =
    Ret (proxies ! (idx mod length proxies), Suc idx mod length proxies)"
proof -
  obtain n where n: "length proxies = Suc n" using assms(1) by (cases proxies) auto
  have len: "idx mod length proxies < length proxies" using assms(1) by simp
  then have "alive_at st url (proxies ! (idx mod length proxies))" using assms(2) by (simp add: list_all_length)
  then have "rr_scan (alive_at st url) proxies idx 0 (Suc n) = Ret (Some (proxies ! (idx mod length proxies)), 1)"
    using len by (simp add: get_at_int)
  from this[unfolded n[symmetric]] show ?thesis by (simp add: strategyRoundRobin_def)
qed

lemma rr_uses_alive:
  assumes "proxies \<noteq> []" "list_all (alive_at st url) proxies"
  shows "rr_uses st url proxies n idx =
    Ret (map (\<lambda>k. proxies ! ((idx + k) mod length proxies)) [0..<n],
      if n = 0 then idx else (idx + n) mod length proxies)"
proof (induction n arbitrary: idx)
  case (Suc n)
  have "map (\<lambda>k. proxies ! ((Suc idx mod length proxies + k) mod length proxies)) [0..<n] =
      map (\<lambda>k. proxies ! ((idx + k) mod length proxies)) [Suc 0..<Suc n]"
    by (simp add: mod_simps map_Suc_upt[symmetric] del: upt_Suc)
  then show ?case
    by (auto simp: rr_use_alive[OF assms] Suc.IH mod_simps upt_conv_Cons simp del: upt_Suc)
qed simp


lemma ch_first_alive:
  assumes "proxies \<noteq> []" "length proxies < 2 ^ 31" "list_all (alive_at st url) proxies"
  shows "strategyConsistentHashing mapHash etld1 st url proxies metadata =
    Ret (proxies ! jumpHash (mapHash (getKey etld1 metadata)) (word_of_nat (length proxies)))"
proof -
  let ?j = "jumpHash (mapHash (getKey etld1 metadata)) (word_of_nat (length proxies))"
  have "?j < length proxies" using jump_in_range assms(1,2) by simp
  then have "alive_at st url (proxies ! ?j)" using assms(3) by (simp add: list_all_length)
  then show ?thesis using get_jump[OF assms(1,2)]
    by (simp add: strategyConsistentHashing_def numeral_eq_Suc)
qed

text \<open>
  Consistent hashing disturbs few connections: while the proxies are alive, a connection keeps
  its proxy when another one is added at the end of the group, unless it moves to the new one.
\<close>

theorem consistent_hashing_stable:
  assumes "proxies \<noteq> []" "length proxies + 1 < 2 ^ 31"
    and "list_all (alive_at st url) (proxies @ [new])"
    and "strategyConsistentHashing mapHash etld1 st url proxies metadata = Ret p"
  shows "strategyConsistentHashing mapHash etld1 st url (proxies @ [new]) metadata \<in> {Ret p, Ret new}"
proof -
  let ?key = "mapHash (getKey etld1 metadata)"
  let ?j = "jumpHash ?key (word_of_nat (length proxies))"
  have j: "?j < length proxies" using jump_in_range assms(1,2) by simp
  have p: "p = proxies ! ?j" using ch_first_alive[OF assms(1), of st url mapHash etld1 metadata] assms by simp
  have "strategyConsistentHashing mapHash etld1 st url (proxies @ [new]) metadata =
      Ret ((proxies @ [new]) ! jumpHash ?key (word_of_nat (length (proxies @ [new]))))"
    by (rule ch_first_alive) (use assms in simp_all)
  moreover have "jumpHash ?key (word_of_nat (length (proxies @ [new]))) \<in> {?j, length proxies}"
    using jump_loop_grow[of "word_of_nat (length proxies + 1)" "word_of_nat (length proxies)" ?key 0 0] assms(2)
      sint_buckets[of "length proxies"] sint_buckets[of "length proxies + 1"]
    by (auto simp: jumpHash_def)
  ultimately show ?thesis using j p by (auto simp: nth_append)
qed

section \<open>Sticky sessions\<close>

text \<open>The cache of a group, and what it holds for a key at a time.\<close>

definition sticky_ok :: "(64 word, nat) lru \<Rightarrow> bool" where
  "sticky_ok c \<longleftrightarrow> lru_ok c \<and> l_maxAge c = 600 \<and> l_maxSize c = 1000 \<and> \<not> l_updateAgeOnGet c \<and> \<not> l_staleReturn c"

definition holds :: "(64 word, nat) lru \<Rightarrow> 64 word \<Rightarrow> nat \<Rightarrow> int \<Rightarrow> bool" where
  "holds c key idx expires \<longleftrightarrow> map_of (l_items c) key = Some (idx, expires)"

lemma holds_get:
  assumes "holds c key idx expires" "now < expires" "sticky_ok c"
  shows "fst (lru_Get now key c) = Some idx" "holds (snd (lru_Get now key c)) key idx expires"
    "sticky_ok (snd (lru_Get now key c))"
proof -
  show "fst (lru_Get now key c) = Some idx" using assms
    by (simp add: holds_def lru_Get_def lru_get_def sticky_ok_def)
  show "holds (snd (lru_Get now key c)) key idx expires" using assms
    by (simp add: holds_def lru_Get_def lru_get_def sticky_ok_def map_add_def map_of_drop_key)
  have "lru_ok (snd (lru_get now key c))" using assms(3) by (intro lru_get_ok) (simp add: sticky_ok_def)
  then show "sticky_ok (snd (lru_Get now key c))" using assms
    by (simp add: holds_def lru_Get_def lru_get_def sticky_ok_def)
qed

lemma map_of_dropWhile_last: "\<not> P (k, w) \<Longrightarrow> k \<notin> fst ` set xs \<Longrightarrow> map_of (dropWhile P (xs @ [(k, w)])) k = Some w"
  by (induction xs) (auto simp: map_add_Some_iff map_of_eq_None_iff)

lemma holds_set:
  assumes "sticky_ok c"
  shows "holds (lru_set now key idx c) key idx (now + 600)" "sticky_ok (lru_set now key idx c)"
proof -
  let ?new = "(key, idx, now + 600)"
  define placed where "placed =
    (if map_of (l_items c) key \<noteq> None then c\<lparr>l_items := drop_key key (l_items c) @ [?new]\<rparr>
     else let c = c\<lparr>l_items := l_items c @ [?new]\<rparr> in
       if l_maxSize c > 0 \<and> int (length (l_items c)) > l_maxSize c
       then lru_deleteElement (fst (hd (l_items c))) c else c)"
  have distinct_old: "distinct (map fst (l_items c))" using assms by (simp add: sticky_ok_def lru_ok_def)
  have "\<exists>xs. l_items placed = xs @ [?new] \<and> key \<notin> fst ` set xs"
  proof (cases "map_of (l_items c) key")
    case (Some w)
    then show ?thesis by (auto simp: placed_def)
  next
    case None
    then have fresh: "key \<notin> fst ` set (l_items c)" by (simp add: map_of_eq_None_iff)
    show ?thesis
    proof (cases "length (l_items c) < 1000")
      case True
      then show ?thesis using None fresh assms by (auto simp: placed_def sticky_ok_def)
    next
      case False
      then obtain y ys where y: "l_items c = y # ys" by (cases "l_items c") auto
      have "drop_key (fst y) (y # ys @ [?new]) = ys @ [?new]"
        by (rule drop_key_hd) (use distinct_old fresh y in auto)
      then have "l_items placed = ys @ [?new]"
        using False None assms y by (simp add: placed_def sticky_ok_def Let_def lru_deleteElement_def case_prod_unfold)
      then show ?thesis using fresh y by auto
    qed
  qed
  then obtain xs where xs: "l_items placed = xs @ [?new]" "key \<notin> fst ` set xs" by blast
  have config: "l_maxAge placed = 600" "l_maxSize placed = 1000" "\<not> l_updateAgeOnGet placed" "\<not> l_staleReturn placed"
    using assms by (auto simp: placed_def sticky_ok_def Let_def lru_deleteElement_def split: option.splits)
  have set: "lru_set now key idx c = lru_maybeDeleteOldest now placed"
    using assms by (simp add: lru_set_def lru_setWithExpire_def placed_def sticky_ok_def)
  show "holds (lru_set now key idx c) key idx (now + 600)"
    using config map_of_dropWhile_last[of "\<lambda>(k, v, e). e \<le> now" key "(idx, now + 600)" xs] xs(2)
    by (simp add: holds_def set lru_maybeDeleteOldest_def xs(1) Let_def)
  have "lru_ok (lru_set now key idx c)" using assms by (intro lru_set_ok) (simp add: sticky_ok_def)
  then show "sticky_ok (lru_set now key idx c)"
    using config by (simp add: sticky_ok_def set lru_maybeDeleteOldest_def Let_def)
qed

lemma sticky_ok_get: "sticky_ok c \<Longrightarrow> sticky_ok (snd (lru_Get now key c))"
  using lru_get_ok[of c now key] lru_get_config[of now key c]
  by (auto simp: sticky_ok_def lru_Get_def lru_get_def lru_maybeDeleteOldest_def lru_deleteElement_def Let_def
      split: prod.splits option.splits)

lemma sticky_scan_result:
  assumes "proxies \<noteq> []" "length proxies < 2 ^ 31" "nowIdx < length proxies"
  shows "\<exists>found. sticky_scan alive proxies key clock left i nowIdx = Ret found \<and>
    (\<forall>p j. found = Some (p, j) \<longrightarrow> j < length proxies \<and> p = proxies ! j \<and> alive p)"
  using assms(3)
proof (induction left arbitrary: i nowIdx)
  case (Suc left)
  show ?case
    using Suc.prems Suc.IH[OF jump_in_range[of "length proxies" "key + clock i"], of "i + 1"] assms(1,2)
    by (auto simp: get_at_int)
qed simp

lemma sticky_scan_alive:
  "nowIdx < length proxies \<Longrightarrow> alive (proxies ! nowIdx) \<Longrightarrow>
     sticky_scan alive proxies key clock 4 i nowIdx = Ret (Some (proxies ! nowIdx, nowIdx))"
  by (simp add: numeral_eq_Suc get_at_int)

text \<open>
  Sessions stick: when a connection got a proxy that was not yet kept for its key, another
  connection with the same key within the next ten minutes gets the same proxy while it is alive,
  whatever the clock.
\<close>

theorem sticky_session_kept:
  assumes "sticky_ok cache" "proxies \<noteq> []" "length proxies < 2 ^ 31"
    and "fst (lru_Get now (mapHash (getKeyWithSrcAndDst etld1 metadata)) cache) = None"
    and "strategyStickySessions mapHash etld1 clock now st url proxies metadata cache = Ret (p, cache')"
    and "now \<le> now'" "now' < now + 600" "alive_at st' url p"
  shows "\<exists>cache''. strategyStickySessions mapHash etld1 clock' now' st' url proxies metadata cache' = Ret (p, cache'')"
proof -
  define key where "key = mapHash (getKeyWithSrcAndDst etld1 metadata)"
  define c where "c = snd (lru_Get now key cache)"
  have get: "lru_Get now key cache = (None, c)" using assms(4) by (simp add: c_def key_def prod_eq_iff)
  have c: "sticky_ok c" using sticky_ok_get[OF assms(1)] by (simp add: c_def)
  let ?j = "jumpHash (key + clock 0) (word_of_nat (length proxies))"
  have "?j < length proxies" using jump_in_range assms(2,3) by simp
  then obtain found where found: "sticky_scan (alive_at st url) proxies key clock 4 1 ?j = Ret found"
    "\<And>p j. found = Some (p, j) \<Longrightarrow> j < length proxies \<and> p = proxies ! j"
    using sticky_scan_result[OF assms(2,3), of ?j "alive_at st url" key clock 4 1] by blast
  obtain idx where idx: "idx < length proxies" "p = proxies ! idx" "cache' = lru_set now key idx c"
  proof (cases found)
    case None
    then have "p = hd proxies" "cache' = lru_set now key 0 c"
      using assms(2,5) get found(1) by (auto simp: strategyStickySessions_def Let_def key_def[symmetric] first_proxy_hd)
    then show ?thesis using that[of 0] assms(2) by (simp add: hd_conv_nth)
  next
    case (Some q)
    then show ?thesis using assms(5) get found that
      by (cases q) (auto simp: strategyStickySessions_def Let_def key_def[symmetric])
  qed
  have "holds cache' key idx (now + 600)" "sticky_ok cache'" using holds_set[OF c] idx(3) by auto
  then have "fst (lru_Get now' key cache') = Some idx" using holds_get(1) assms(7) by blast
  then show ?thesis using idx sticky_scan_alive[of idx proxies "alive_at st' url" key clock' 1] assms(8)
    by (auto simp: strategyStickySessions_def Let_def key_def[symmetric] case_prod_unfold)
qed

text \<open>
  Sessions no longer stick after the group shrank: when the index kept for a key is out of range,
  the proxy is drawn with the clock of each request, and the draw is not kept, so the next request
  with the same key draws again.
\<close>

theorem sticky_session_lost:
  assumes "sticky_ok cache" "proxies \<noteq> []" "length proxies < 2 ^ 31" "list_all (alive_at st url) proxies"
    and "key = mapHash (getKeyWithSrcAndDst etld1 metadata)"
    and "holds cache key idx expires" "now < expires" "length proxies \<le> idx"
  shows "\<exists>cache'. strategyStickySessions mapHash etld1 clock now st url proxies metadata cache =
      Ret (proxies ! jumpHash (key + clock 0) (word_of_nat (length proxies)), cache') \<and>
    holds cache' key idx expires"
proof -
  let ?j = "jumpHash (key + clock 0) (word_of_nat (length proxies))"
  have j: "?j < length proxies" using jump_in_range assms(2,3) by simp
  then have "alive_at st url (proxies ! ?j)" using assms(4) by (simp add: list_all_length)
  then have "sticky_scan (alive_at st url) proxies key clock 4 1 ?j = Ret (Some (proxies ! ?j, ?j))"
    using sticky_scan_alive j by blast
  then show ?thesis using holds_get[OF assms(6,7,1)] assms(8)
    by (simp add: strategyStickySessions_def Let_def assms(5)[symmetric] case_prod_unfold)
qed

section \<open>Concrete inputs\<close>

theorem jump_hash_consistent_witness:
  "jumpHash 12345 (word_of_nat 3) < 3 \<and>
    (jumpHash 12345 (word_of_nat 4) = jumpHash 12345 (word_of_nat 3) \<or> jumpHash 12345 (word_of_nat 4) = 3)"
  using jump_hash_consistent[of 3 12345] by simp

definition two_proxies :: "gproxy list" where
  "two_proxies = [\<lparr>gp_id = 1, gp_Name = ''a'', gp_Type = A_Vmess\<rparr>, \<lparr>gp_id = 2, gp_Name = ''b'', gp_Type = A_Vmess\<rparr>]"

definition second_alive :: proxy_states where
  "second_alive = (\<lambda>i. if i = 2 then NewProxy else NewProxy\<lparr>ps_alive := False\<rparr>)"

theorem load_balance_alive_witness:
  "returns (strategyRoundRobin second_alive ''u'' two_proxies True 0) (\<lambda>(p, idx). alive_at second_alive ''u'' p)"
proof -
  have "list_ex (alive_at second_alive ''u'') two_proxies" by code_simp
  then show ?thesis
    using load_balance_alive[of two_proxies second_alive "''u''" True 0 "\<lambda>_. 0" "\<lambda>_. None" None]
    by (auto simp: two_proxies_def elim!: returns_mono)
qed


lemma sticky_ok_new: "sticky_ok newSticky"
  by (simp add: sticky_ok_def newSticky_def lru_New_def lru_ok_def)

lemma sticky_new_answers:
  assumes "proxies \<noteq> []" "length proxies < 2 ^ 31" "list_all (alive_at st url) proxies"
  shows "\<exists>p cache. strategyStickySessions mapHash etld1 clock now st url proxies metadata newSticky = Ret (p, cache) \<and>
    p \<in> set proxies"
proof -
  define key where "key = mapHash (getKeyWithSrcAndDst etld1 metadata)"
  let ?j = "jumpHash (key + clock 0) (word_of_nat (length proxies))"
  have j: "?j < length proxies" using jump_in_range assms(1,2) by simp
  then have "sticky_scan (alive_at st url) proxies key clock 4 1 ?j = Ret (Some (proxies ! ?j, ?j))"
    using sticky_scan_alive assms(3) by (simp add: list_all_length)
  moreover have "lru_Get now key newSticky = (None, newSticky)"
    by (simp add: newSticky_def lru_New_def lru_Get_def lru_get_def)
  ultimately show ?thesis using j by (simp add: strategyStickySessions_def Let_def key_def[symmetric])
qed

theorem sticky_session_kept_witness:
  "\<exists>p cache cache'. strategyStickySessions (\<lambda>_. 7) (\<lambda>_. None) (\<lambda>_. 1) 0 (\<lambda>_. NewProxy) ''u'' two_proxies None newSticky = Ret (p, cache) \<and>
     strategyStickySessions (\<lambda>_. 7) (\<lambda>_. None) (\<lambda>_. 99) 599 (\<lambda>_. NewProxy) ''u'' two_proxies None cache = Ret (p, cache')"
proof -
  have two: "two_proxies \<noteq> []" "length two_proxies < 2 ^ 31" by (simp_all add: two_proxies_def)
  have all: "list_all (alive_at (\<lambda>_. NewProxy) ''u'') two_proxies" by code_simp
  obtain p cache where run:
    "strategyStickySessions (\<lambda>_. 7) (\<lambda>_. None) (\<lambda>_. 1) 0 (\<lambda>_. NewProxy) ''u'' two_proxies None newSticky = Ret (p, cache)"
    "p \<in> set two_proxies"
    using sticky_new_answers[OF two all] by blast
  have get: "fst (lru_Get 0 7 newSticky) = None" by (simp add: newSticky_def lru_New_def lru_Get_def lru_get_def)
  have alive: "alive_at (\<lambda>_. NewProxy) ''u'' p" using run(2) all by (simp add: list_all_iff)
  show ?thesis
    using sticky_session_kept[OF sticky_ok_new two get run(1) _ _ alive, of 599 "\<lambda>_. 99"] run(1) by auto
qed

definition lost_cache :: "(64 word, nat) lru" where
  "lost_cache = lru_set 0 7 5 newSticky"

theorem sticky_session_lost_witness:
  "\<exists>cache. strategyStickySessions (\<lambda>_. 7) (\<lambda>_. None) (\<lambda>_. 1) 10 (\<lambda>_. NewProxy) ''u'' two_proxies None lost_cache =
     Ret (two_proxies ! jumpHash 8 2, cache) \<and> holds cache 7 5 600"
proof -
  have two: "two_proxies \<noteq> []" "length two_proxies = 2" by (simp_all add: two_proxies_def)
  have all: "list_all (alive_at (\<lambda>_. NewProxy) ''u'') two_proxies" by code_simp
  have ok: "sticky_ok lost_cache" "holds lost_cache 7 5 600"
    unfolding lost_cache_def using holds_set[OF sticky_ok_new, of 0 7 5] by simp_all
  show ?thesis
    using sticky_session_lost[OF ok(1) two(1) _ all _ ok(2), of "\<lambda>_. 7" "\<lambda>_. None" None 10 "\<lambda>_. 1"] two(2) by simp
qed

end
