(* ===== verification/GroupFailures.thy ===== *)
theory GroupFailures
  imports GroupProxies
begin

text \<open>
  What makes a group test its proxies: the counter of failed dials of \<open>groupbase.go\<close> over any
  sequence of dials and health checks.
\<close>

datatype dial_event = DialFailed adapter_type "bool \<times> string" int | DialOk | CheckBegins | CheckEnds

fun dial_do :: "dial_event \<Rightarrow> group_base \<Rightarrow> group_base" where
  "dial_do (DialFailed t err now) gb = snd (onDialFailed t err now gb)"
| "dial_do DialOk gb = onDialSuccess gb"
| "dial_do CheckBegins gb = (case healthCheck_begin gb of Some gb' \<Rightarrow> gb' | None \<Rightarrow> gb)"
| "dial_do CheckEnds gb = healthCheck_end gb"

text \<open>The times of the failures that count: not of a direct or rejecting outbound, not an unsupported
  operation, not a refused connection (which starts the check at once).\<close>

definition counts :: "adapter_type \<Rightarrow> bool \<times> string \<Rightarrow> bool" where
  "counts t err \<longleftrightarrow> t \<notin> {A_Direct, A_Compatible, A_Reject, A_Pass, A_RejectDrop} \<and> \<not> fst err \<and>
     \<not> Contains (snd err) ''connection refused''"

fun counted :: "dial_event list \<Rightarrow> int list" where
  "counted [] = []"
| "counted (DialFailed t err now # es) = (if counts t err then now # counted es else counted es)"
| "counted (e # es) = counted es"

lemma counted_append: "counted (xs @ ys) = counted xs @ counted ys"
  by (induction xs rule: counted.induct) auto

definition fail_inv :: "dial_event list \<Rightarrow> group_base \<Rightarrow> bool" where
  "fail_inv es gb \<longleftrightarrow> gb_failedTimes gb = 0 \<or>
     (\<exists>k \<le> length es. 0 < gb_failedTimes gb \<and> gb_failedTimes gb \<le> int (length (counted (drop k es))) \<and>
        gb_failedTime gb = hd (counted (drop k es)))"

lemma fail_inv_keep:
  assumes "fail_inv es gb" "counted [e] = []" "gb_failedTimes gb' = 0 \<or>
    gb_failedTimes gb' = gb_failedTimes gb \<and> gb_failedTime gb' = gb_failedTime gb"
  shows "fail_inv (es @ [e]) gb'"
proof (cases "gb_failedTimes gb' = 0")
  case False
  then obtain k where "k \<le> length es" "0 < gb_failedTimes gb" "gb_failedTimes gb \<le> int (length (counted (drop k es)))"
    "gb_failedTime gb = hd (counted (drop k es))" using assms(1,3) by (auto simp: fail_inv_def)
  then show ?thesis using False assms(2,3) by (auto simp: fail_inv_def counted_append intro!: exI[of _ k])
qed (simp add: fail_inv_def)

lemma fail_inv_counted:
  assumes "fail_inv es gb" "counts t err"
  shows "fail_inv (es @ [DialFailed t err now]) (snd (onDialFailed t err now gb))"
proof (cases "gb_failedTimes gb = 0")
  case True
  then show ?thesis using assms(2)
    by (auto simp: fail_inv_def onDialFailed_def counts_def Let_def intro!: exI[of _ "length es"])
next
  case False
  then obtain k where s: "k \<le> length es" "0 < gb_failedTimes gb" "gb_failedTimes gb \<le> int (length (counted (drop k es)))"
    "gb_failedTime gb = hd (counted (drop k es))" using assms(1) by (auto simp: fail_inv_def)
  then have "counted (drop k es) \<noteq> []" by auto
  then show ?thesis using s assms(2)
    by (auto simp: fail_inv_def onDialFailed_def counts_def Let_def counted_append
        intro!: exI[of _ k])
qed

lemma fail_inv_run: "gb_failedTimes gb = 0 \<Longrightarrow> fail_inv es (fold dial_do es gb)"
proof (induction es rule: rev_induct)
  case Nil
  then show ?case by (simp add: fail_inv_def)
next
  case (snoc e es)
  show ?case
  proof (cases e)
    case (DialFailed t err now)
    show ?thesis
    proof (cases "counts t err")
      case True
      then show ?thesis using snoc DialFailed fail_inv_counted by simp
    next
      case False
      then have "snd (onDialFailed t err now g) = g" for g by (auto simp: onDialFailed_def counts_def)
      then show ?thesis using snoc DialFailed False by (auto intro!: fail_inv_keep)
    qed
  next
    case DialOk
    then show ?thesis using snoc by (auto intro!: fail_inv_keep simp: onDialSuccess_def)
  next
    case CheckBegins
    then show ?thesis using snoc by (auto intro!: fail_inv_keep simp: healthCheck_begin_def)
  next
    case CheckEnds
    then show ?thesis using snoc by (auto intro!: fail_inv_keep simp: healthCheck_end_def)
  qed
qed

text \<open>
  A group checks its proxies on its own only after enough failures: when a failed dial starts the
  health check and the connection was not refused, the failures that count, this one included, number
  at least \<open>maxFailedTimes\<close>, all within \<open>testTimeout\<close> milliseconds of this one.
\<close>

theorem health_check_needs_failures:
  assumes "gb_failedTimes gb = 0" "sorted (counted es @ [now])"
    and "onDialFailed t err now (fold dial_do es gb) = (True, gb')" "\<not> Contains (snd err) ''connection refused''"
  shows "\<exists>pre suf. es = pre @ suf \<and>
    gb_maxFailedTimes (fold dial_do es gb) \<le> int (length (counted suf)) + 1 \<and>
    (\<forall>x \<in> set (counted suf). 0 \<le> now - x \<and> now - x \<le> gb_testTimeout (fold dial_do es gb) * 1000000)"
proof -
  let ?gb = "fold dial_do es gb"
  have run: "fail_inv es ?gb" by (rule fail_inv_run[OF assms(1)])
  have trigger: "gb_failedTimes ?gb \<noteq> 0" "gb_maxFailedTimes ?gb \<le> gb_failedTimes ?gb + 1"
    "now - gb_failedTime ?gb \<le> gb_testTimeout ?gb * 1000000"
    using assms(3,4) by (auto simp: onDialFailed_def Let_def split: if_splits)
  then obtain k where "gb_failedTimes ?gb \<le> int (length (counted (drop k es)))"
    "gb_failedTime ?gb = hd (counted (drop k es))" using run by (auto simp: fail_inv_def)
  then obtain pre suf where s: "es = pre @ suf" "gb_failedTimes ?gb \<le> int (length (counted suf))"
    "gb_failedTime ?gb = hd (counted suf)" by (metis append_take_drop_id)
  have "sorted (counted suf)" "\<forall>x \<in> set (counted suf). x \<le> now"
    using assms(2) s(1) by (auto simp: counted_append sorted_append)
  then have "hd (counted suf) \<le> x" if "x \<in> set (counted suf)" for x
    using that by (cases "counted suf") auto
  then show ?thesis using s trigger \<open>\<forall>x \<in> set (counted suf). x \<le> now\<close>
    by (intro exI[of _ pre] exI[of _ suf]) fastforce
qed

section \<open>Concrete inputs\<close>

definition two_failures :: "dial_event list" where
  "two_failures = [DialFailed A_Vmess (False, ''timeout'') 1, DialFailed A_Vmess (False, ''timeout'') 2]"

theorem health_check_needs_failures_witness:
  "fst (onDialFailed A_Vmess (False, ''timeout'') 4 (fold dial_do two_failures (demo_gb\<lparr>gb_maxFailedTimes := 3\<rparr>))) \<and>
   (\<exists>pre suf. two_failures = pre @ suf \<and> 2 \<le> length (counted suf))"
proof -
  let ?gb = "fold dial_do two_failures (demo_gb\<lparr>gb_maxFailedTimes := 3\<rparr>)"
  have fires: "fst (onDialFailed A_Vmess (False, ''timeout'') 4 ?gb)" by code_simp
  have max: "gb_maxFailedTimes ?gb = 3" by code_simp
  have init: "gb_failedTimes (demo_gb\<lparr>gb_maxFailedTimes := 3\<rparr>) = 0" by (simp add: demo_gb_def)
  have order: "sorted (counted two_failures @ [4])" by code_simp
  have msg: "\<not> Contains (snd (False, ''timeout'')) ''connection refused''" by code_simp
  obtain gb' where "onDialFailed A_Vmess (False, ''timeout'') 4 ?gb = (True, gb')"
    using fires by (metis (full_types) prod.collapse)
  from health_check_needs_failures[OF init order this msg] obtain pre suf where
    "two_failures = pre @ suf" "3 \<le> int (length (counted suf)) + 1" unfolding max by blast
  moreover from this have "2 \<le> length (counted suf)" by linarith
  ultimately show ?thesis using fires by blast
qed

end
