(* ===== verification/GroupParse.thy ===== *)
theory GroupParse
  imports LoadBalance GroupFailures
begin

text \<open>
  Building a group from its configuration (\<open>adapter/outboundgroup/parser.go\<close>), once the decoder of
  \<open>common/structure\<close> has filled the options. Providers are found by name in a map that all groups
  share; a group keeps the names. The log messages are left out.
\<close>

section \<open>Options and groups\<close>

record group_option =
  go_Name :: string
  go_Type :: string
  go_Proxies :: "string list"
  go_Use :: "string list"
  go_URL :: string
  go_Interval :: int
  go_TestTimeout :: int
  go_MaxFailedTimes :: int
  go_EmptyFallback :: string
  go_Lazy :: bool
  go_DisableUDP :: bool
  go_Filter :: string
  go_ExcludeFilter :: string
  go_ExcludeType :: string
  go_ExpectedStatus :: string
  go_IncludeAll :: bool
  go_IncludeAllProxies :: bool
  go_IncludeAllProviders :: bool
  go_Tolerance :: "16 word"
  go_DefaultSelected :: string
  go_Strategy :: string

datatype balance_strategy = ConsistentHashing | RoundRobin | StickySessions

record load_balance =
  lb_base :: group_base
  lb_disableUDP :: bool
  lb_strategy :: balance_strategy
  lb_testUrl :: string
  lb_expectedStatus :: string

datatype proxy_group =
  GURLTest urltest | GSelector selector | GFallback fallback | GLoadBalance load_balance

fun group_base_of :: "proxy_group \<Rightarrow> group_base" where
  "group_base_of (GURLTest u) = ut_base u"
| "group_base_of (GSelector s) = se_base s"
| "group_base_of (GFallback f) = fb_base f"
| "group_base_of (GLoadBalance l) = lb_base l"

datatype group_error =
  ErrFormat | ErrEmptyFallback | ErrMissProxy | ErrStatus | ErrNotFound string | ErrGroupInUse string
  | ErrDuplicateProvider | ErrType | ErrStrategy string

type_synonym provider_map = "string \<rightharpoonup> provider"

text \<open>Whether an outbound is itself a group.\<close>

definition is_group :: "gproxy \<Rightarrow> bool" where
  "is_group p \<longleftrightarrow> gp_Type p \<in> {A_Selector, A_Fallback, A_URLTest, A_LoadBalance}"

fun getProxies :: "(string \<rightharpoonup> gproxy) \<Rightarrow> string list \<Rightarrow> group_error + gproxy list" where
  "getProxies mapping [] = Inr []"
| "getProxies mapping (name # names) =
     (case mapping name of
        None \<Rightarrow> Inl (ErrNotFound name)
      | Some p \<Rightarrow> (case getProxies mapping names of Inl e \<Rightarrow> Inl e | Inr ps \<Rightarrow> Inr (p # ps)))"

fun getProviders :: "provider_map \<Rightarrow> string list \<Rightarrow> group_error + string list" where
  "getProviders mapping [] = Inr []"
| "getProviders mapping (name # names) =
     (case mapping name of
        None \<Rightarrow> Inl (ErrNotFound name)
      | Some p \<Rightarrow>
          if pv_VehicleType p = VehicleCompatible then Inl (ErrGroupInUse name)
          else (case getProviders mapping names of Inl e \<Rightarrow> Inl e | Inr ps \<Rightarrow> Inr (name # ps)))"

definition addTestUrlToProviders ::
  "string list \<Rightarrow> string \<Rightarrow> 16 word rng list \<Rightarrow> string \<Rightarrow> nat \<Rightarrow> provider_map \<Rightarrow> provider_map" where
  "addTestUrlToProviders names url expectedStatus flt interval providersMap =
     (if names = [] \<or> url = [] then providersMap
      else fold (\<lambda>name m. case m name of
            Some pd \<Rightarrow> m(name \<mapsto> pv_RegisterHealthCheckTask url expectedStatus flt interval pd)
          | None \<Rightarrow> m) names providersMap)"

text \<open>The URL of the first provider that checks one; the code falls back on \<open>C.DefaultTestURL\<close>.\<close>

definition DefaultTestURL :: string where
  "DefaultTestURL = ''https://www.gstatic.com/generate_204''"

definition provider_url :: "provider_map \<Rightarrow> string list \<Rightarrow> string" where
  "provider_url providersMap names =
     (case find (\<lambda>name. case providersMap name of Some pd \<Rightarrow> pv_HealthCheckURL pd \<noteq> [] | None \<Rightarrow> False) names of
        Some name \<Rightarrow> (case providersMap name of Some pd \<Rightarrow> pv_HealthCheckURL pd | None \<Rightarrow> DefaultTestURL)
      | None \<Rightarrow> DefaultTestURL)"

text \<open>\<open>include-all-proxies\<close>: a proxy is added once for every filter that matches its name.\<close>

definition include_proxies :: "(string \<Rightarrow> regex option) \<Rightarrow> string list \<Rightarrow> group_option \<Rightarrow> group_option outcome" where
  "include_proxies compile AllProxies opt =
     (if \<not> go_IncludeAllProxies opt then Ret opt
      else obind
        (if go_Filter opt \<noteq> [] then
           obind (must_compile compile (go_split CHR 0x60 (go_Filter opt))) (\<lambda>regs.
             Ret (concat (map (\<lambda>p. concat (map (\<lambda>r. if r p then [p] else []) regs)) AllProxies)))
         else Ret AllProxies) (\<lambda>added.
        let opt = opt\<lparr>go_Proxies := go_Proxies opt @ added\<rparr> in
        Ret (if go_Proxies opt = [] \<and> go_Use opt = []
             then opt\<lparr>go_Proxies := [go_EmptyFallback opt]\<rparr> else opt)))"

text \<open>Conversion of a Go \<open>int\<close> to \<open>uint\<close>.\<close>

definition go_uint :: "int \<Rightarrow> nat" where
  "go_uint n = nat (n mod 2 ^ 64)"

section \<open>The last step: the group of the type\<close>

definition build_group ::
  "(string \<Rightarrow> regex option) \<Rightarrow> gproxy \<Rightarrow> group_option \<Rightarrow> (group_error + proxy_group) outcome" where
  "build_group compile emptyFallback opt =
     (let base = (\<lambda>type. NewGroupBase compile (go_Name opt) type (go_Filter opt) (go_ExcludeFilter opt)
            (go_ExcludeType opt) (go_TestTimeout opt) (go_MaxFailedTimes opt) emptyFallback) in
      if go_Type opt = ''url-test'' then
        obind (base A_URLTest) (\<lambda>b. Ret (Inr (GURLTest
          (NewURLTest b (go_DisableUDP opt) (go_URL opt) (go_ExpectedStatus opt) (go_Tolerance opt)))))
      else if go_Type opt = ''select'' then
        obind (base A_Selector) (\<lambda>b. Ret (Inr (GSelector
          (NewSelector b (go_DefaultSelected opt) (go_DisableUDP opt) (go_URL opt)))))
      else if go_Type opt = ''fallback'' then
        obind (base A_Fallback) (\<lambda>b. Ret (Inr (GFallback
          (NewFallback b (go_DisableUDP opt) (go_URL opt) (go_ExpectedStatus opt)))))
      else if go_Type opt = ''load-balance'' then
        (case (if go_Strategy opt = [] \<or> go_Strategy opt = ''consistent-hashing'' then Some ConsistentHashing
               else if go_Strategy opt = ''round-robin'' then Some RoundRobin
               else if go_Strategy opt = ''sticky-sessions'' then Some StickySessions else None) of
           None \<Rightarrow> Ret (Inl (ErrStrategy (go_Strategy opt)))
         | Some strategy \<Rightarrow>
             obind (base A_LoadBalance) (\<lambda>b. Ret (Inr (GLoadBalance
               \<lparr>lb_base = b, lb_disableUDP = go_DisableUDP opt, lb_strategy = strategy,
                lb_testUrl = go_URL opt, lb_expectedStatus = go_ExpectedStatus opt\<rparr>))))
      else Ret (Inl ErrType))"

section \<open>ParseProxyGroup\<close>

text \<open>The two blocks that collect the providers: those of \<open>use\<close>, and the one made of the proxies of the
  group itself, which comes first. They answer the names, the options and the map.\<close>

definition use_providers ::
  "16 word rng list \<Rightarrow> group_option \<Rightarrow> provider_map \<Rightarrow> (group_error + string list \<times> group_option) \<times> provider_map" where
  "use_providers expectedStatus opt providersMap =
     (if go_Use opt = [] then (Inr ([], opt), providersMap)
      else case getProviders providersMap (go_Use opt) of
        Inl e \<Rightarrow> (Inl e, providersMap)
      | Inr PDs \<Rightarrow>
          if go_URL opt = [] then (Inr (PDs, opt\<lparr>go_URL := provider_url providersMap PDs\<rparr>), providersMap)
          else (Inr (PDs, opt),
            addTestUrlToProviders PDs (go_URL opt) expectedStatus (go_Filter opt) (go_uint (go_Interval opt)) providersMap))"

definition own_provider ::
  "(string \<rightharpoonup> gproxy) \<Rightarrow> 16 word rng list \<Rightarrow> string list \<Rightarrow> group_option \<Rightarrow> provider_map \<Rightarrow>
     (group_error + string list \<times> group_option) \<times> provider_map" where
  "own_provider proxyMap expectedStatus names opt providersMap =
     (if go_Proxies opt = [] then (Inr (names, opt), providersMap)
      else case getProxies proxyMap (go_Proxies opt) of
        Inl e \<Rightarrow> (Inl e, providersMap)
      | Inr ps \<Rightarrow>
          if providersMap (go_Name opt) \<noteq> None then (Inl ErrDuplicateProvider, providersMap)
          else
            let opt = (if go_URL opt = [] then opt\<lparr>go_URL := DefaultTestURL\<rparr> else opt);
                opt = (if go_Type opt \<noteq> ''select'' \<and> go_Type opt \<noteq> ''relay'' \<and> go_Interval opt = 0
                  then opt\<lparr>go_Interval := 300\<rparr> else opt);
                hc = NewHealthCheck ps (go_URL opt) (go_uint (go_TestTimeout opt)) (go_uint (go_Interval opt))
                  (go_Lazy opt) expectedStatus in
            case NewCompatibleProvider (go_Name opt) ps hc of
              None \<Rightarrow> (Inl ErrMissProxy, providersMap)
            | Some pd \<Rightarrow> (Inr (go_Name opt # names, opt), providersMap(go_Name opt \<mapsto> pd)))"

text \<open>The body after the options are complete.\<close>

definition collect_group ::
  "(string \<Rightarrow> regex option) \<Rightarrow> (string \<rightharpoonup> gproxy) \<Rightarrow> gproxy \<Rightarrow> group_option \<Rightarrow> provider_map \<Rightarrow>
     ((group_error + proxy_group \<times> string list) \<times> provider_map) outcome" where
  "collect_group compile proxyMap emptyFallback opt providersMap =
     (if go_Proxies opt = [] \<and> go_Use opt = [] then Ret (Inl ErrMissProxy, providersMap)
      else case NewUnsignedRanges (go_ExpectedStatus opt) of
        None \<Rightarrow> Ret (Inl ErrStatus, providersMap)
      | Some expectedStatus \<Rightarrow>
          let status = TrimSpace (go_ExpectedStatus opt);
              opt = opt\<lparr>go_ExpectedStatus := (if status = [] then ''*'' else status)\<rparr> in
          (case use_providers expectedStatus opt providersMap of
             (Inl e, providersMap) \<Rightarrow> Ret (Inl e, providersMap)
           | (Inr (names, opt), providersMap) \<Rightarrow>
               (case own_provider proxyMap expectedStatus names opt providersMap of
                  (Inl e, providersMap) \<Rightarrow> Ret (Inl e, providersMap)
                | (Inr (names, opt), providersMap) \<Rightarrow>
                    obind (build_group compile emptyFallback opt) (\<lambda>result.
                      Ret (map_sum id (\<lambda>g. (g, names)) result, providersMap)))))"

definition ParseProxyGroup ::
  "(string \<Rightarrow> regex option) \<Rightarrow> group_option \<Rightarrow> (string \<rightharpoonup> gproxy) \<Rightarrow> string list \<Rightarrow> string list \<Rightarrow> provider_map \<Rightarrow>
     ((group_error + proxy_group \<times> string list) \<times> provider_map) outcome" where
  "ParseProxyGroup compile opt proxyMap AllProxies AllProviders providersMap =
     (if go_Type opt = [] \<or> go_Name opt = [] then Ret (Inl ErrFormat, providersMap)
      else
        let opt = (if go_EmptyFallback opt = [] then opt\<lparr>go_EmptyFallback := ''COMPATIBLE''\<rparr> else opt) in
        case proxyMap (go_EmptyFallback opt) of
          None \<Rightarrow> Ret (Inl ErrEmptyFallback, providersMap)
        | Some emptyFallback \<Rightarrow>
            if is_group emptyFallback then Ret (Inl ErrEmptyFallback, providersMap)
            else
              let opt = (if go_IncludeAll opt then opt\<lparr>go_IncludeAllProviders := True, go_IncludeAllProxies := True\<rparr> else opt);
                  opt = (if go_IncludeAllProviders opt then opt\<lparr>go_Use := AllProviders\<rparr> else opt) in
              obind (include_proxies compile AllProxies opt) (\<lambda>opt.
                collect_group compile proxyMap emptyFallback opt providersMap))"

section \<open>A parsed group can always answer\<close>

lemma getProviders_Inr: "getProviders m names = Inr ps \<Longrightarrow> ps = names \<and> (\<forall>n \<in> set names. m n \<noteq> None)"
  by (induction names arbitrary: ps) (auto split: option.splits if_splits sum.splits)

lemma getProxies_length: "getProxies m names = Inr ps \<Longrightarrow> length ps = length names"
  by (induction names arbitrary: ps) (auto split: option.splits sum.splits)

lemma dom_addTestUrl: "dom (addTestUrlToProviders names url status flt interval m) = dom m"
proof -
  have "dom (fold (\<lambda>name m. case m name of
            Some pd \<Rightarrow> m(name \<mapsto> pv_RegisterHealthCheckTask url status flt interval pd)
          | None \<Rightarrow> m) names m) = dom m" for m
    by (induction names arbitrary: m) (auto simp: insert_absorb dom_def split: option.splits)
  then show ?thesis by (simp add: addTestUrlToProviders_def)
qed

lemma use_providers_Inr:
  assumes "use_providers status opt m = (Inr (names, opt'), m')"
  shows "set names \<subseteq> dom m'" "names = go_Use opt" "go_Proxies opt' = go_Proxies opt"
proof -
  show "names = go_Use opt" "go_Proxies opt' = go_Proxies opt"
    using assms getProviders_Inr by (auto simp: use_providers_def split: if_splits sum.splits)
  have "dom m' = dom m" using assms
    by (simp add: use_providers_def split: if_split_asm sum.split_asm) (metis dom_addTestUrl)+
  then show "set names \<subseteq> dom m'"
    using assms getProviders_Inr by (fastforce simp: use_providers_def split: if_splits sum.splits)
qed

lemma own_provider_Inr:
  assumes "own_provider pm status names opt m = (Inr (names', opt'), m')" "set names \<subseteq> dom m"
    "names \<noteq> [] \<or> go_Proxies opt \<noteq> []"
  shows "names' \<noteq> [] \<and> set names' \<subseteq> dom m'"
  using assms by (auto simp: own_provider_def Let_def split: if_splits sum.splits option.splits)

lemma NewGroupBase_fresh:
  "NewGroupBase compile name type flt ex exType timeout mx fb = Ret b \<Longrightarrow> gb_providerVersions b = []"
  by (auto simp: NewGroupBase_def outcome_simps)

lemma build_group_fresh:
  "build_group compile fb opt = Ret (Inr g) \<Longrightarrow> gb_providerVersions (group_base_of g) = []"
  by (auto simp: build_group_def Let_def outcome_simps NewURLTest_def NewSelector_def NewFallback_def
      intro: NewGroupBase_fresh split: if_splits option.splits)

lemma collect_group_Inr:
  assumes "collect_group compile proxyMap fb opt m = Ret (Inr (g, names), m')"
  shows "names \<noteq> [] \<and> set names \<subseteq> dom m' \<and> gb_providerVersions (group_base_of g) = []"
proof -
  from assms have ne: "go_Proxies opt \<noteq> [] \<or> go_Use opt \<noteq> []"
    by (auto simp: collect_group_def)
  define opt1 where "opt1 = opt\<lparr>go_ExpectedStatus := (if TrimSpace (go_ExpectedStatus opt) = [] then ''*''
      else TrimSpace (go_ExpectedStatus opt))\<rparr>"
  have opt1: "go_Proxies opt1 = go_Proxies opt" "go_Use opt1 = go_Use opt" by (simp_all add: opt1_def)
  obtain status :: "16 word rng list" where status: "NewUnsignedRanges (go_ExpectedStatus opt) = Some status"
    using assms ne by (auto simp: collect_group_def split: option.splits)
  obtain names1 opt2 m1 where use: "use_providers status opt1 m = (Inr (names1, opt2), m1)"
    using assms ne status by (auto simp: collect_group_def Let_def opt1_def[symmetric] split: prod.splits sum.splits)
  obtain names2 opt3 m2 where own: "own_provider proxyMap status names1 opt2 m1 = (Inr (names2, opt3), m2)"
    using assms ne status use by (auto simp: collect_group_def Let_def opt1_def[symmetric] split: prod.splits sum.splits)
  obtain result where build: "build_group compile fb opt3 = Ret result"
    and "Inr (g, names) = map_sum id (\<lambda>g. (g, names2)) result" "m' = m2"
    using assms ne status use own
    by (auto simp: collect_group_def Let_def opt1_def[symmetric] outcome_simps)
  then have "result = Inr g" "names = names2" by (cases result; simp)+
  show ?thesis
    using ne opt1 use_providers_Inr[OF use] own_provider_Inr[OF own] build_group_fresh[of compile fb opt3 g]
      build \<open>result = Inr g\<close> \<open>names = names2\<close> \<open>m' = m2\<close> by auto
qed

lemma ParseProxyGroup_Inr:
  assumes "ParseProxyGroup compile opt proxyMap AllProxies AllProviders m = Ret (Inr (g, names), m')"
  shows "names \<noteq> [] \<and> set names \<subseteq> dom m' \<and> gb_providerVersions (group_base_of g) = []"
proof -
  obtain fb opt1 where "collect_group compile proxyMap fb opt1 m = Ret (Inr (g, names), m')"
    using assms unfolding ParseProxyGroup_def Let_def
    by (simp add: outcome_simps split: if_split_asm option.split_asm) blast+
  then show ?thesis by (rule collect_group_Inr)
qed

text \<open>
  C28. A group that was built from a configuration always has a proxy to choose: whatever lists its
  providers take later and whatever was cached, \<open>GetProxies\<close> never answers an empty list (so
  \<open>proxies[0]\<close> cannot panic).
\<close>

theorem parsed_group_never_empty:
  assumes "ParseProxyGroup compile opt proxyMap AllProxies AllProviders providersMap = Ret (Inr (g, names), providersMap')"
    and "updates es < 2 ^ 32"
    and "fold group_do es (map (\<lambda>name. the (providersMap' name)) names, group_base_of g) = (pds', gb')"
  shows "fst (GetProxies touch now pds' gb') \<noteq> []"
proof -
  have "names \<noteq> []" and fresh: "gb_providerVersions (group_base_of g) = []"
    using ParseProxyGroup_Inr[OF assms(1)] by auto
  then have ne: "map (\<lambda>name. the (providersMap' name)) names \<noteq> []" by simp
  have run: "cache_inv (updates es) pds' gb'" "pds' \<noteq> []"
    using group_run[OF ne fresh assms(2)] assms(3) by auto
  have "fst (GetProxies touch now pds' gb') = group_answer gb' pds'"
    using cache_inv_ask[OF run(1) assms(2) run(2), of touch now] by (auto simp: case_prod_unfold)
  then show ?thesis by (simp add: group_answer_def)
qed

section \<open>Concrete inputs\<close>

definition demo_option :: group_option where
  "demo_option = \<lparr>go_Name = ''g'', go_Type = ''select'', go_Proxies = [''a''], go_Use = [], go_URL = [],
     go_Interval = 0, go_TestTimeout = 0, go_MaxFailedTimes = 0, go_EmptyFallback = [], go_Lazy = True,
     go_DisableUDP = False, go_Filter = [], go_ExcludeFilter = ''a'', go_ExcludeType = [], go_ExpectedStatus = [],
     go_IncludeAll = False, go_IncludeAllProxies = False, go_IncludeAllProviders = False, go_Tolerance = 0,
     go_DefaultSelected = [], go_Strategy = []\<rparr>"

definition demo_proxies :: "string \<rightharpoonup> gproxy" where
  "demo_proxies = [''a'' \<mapsto> demo_px 7 ''a'', ''COMPATIBLE'' \<mapsto> (demo_px 0 ''COMPATIBLE'')\<lparr>gp_Type := A_Compatible\<rparr>]"

definition demo_parsed :: "((group_error + proxy_group \<times> string list) \<times> provider_map) outcome" where
  "demo_parsed = ParseProxyGroup (\<lambda>_. Some (\<lambda>_. True)) demo_option demo_proxies [] [] Map.empty"

lemma demo_parsed_ok: "\<exists>g names m. demo_parsed = Ret (Inr (g, names), m)"
proof -
  have "returns demo_parsed (\<lambda>(r, m). case r of Inl _ \<Rightarrow> False | Inr _ \<Rightarrow> True)" by code_simp
  then obtain r m where r: "demo_parsed = Ret (r, m)" "case r of Inl _ \<Rightarrow> False | Inr _ \<Rightarrow> True"
    unfolding returns_iff by auto
  then show ?thesis by (cases r) (auto simp: prod_eq_iff)
qed

theorem parsed_group_never_empty_witness:
  "\<exists>g names m. demo_parsed = Ret (Inr (g, names), m) \<and>
     fst (GetProxies False 0 (map (\<lambda>name. the (m name)) names) (group_base_of g)) \<noteq> []"
proof -
  obtain g names m where run: "demo_parsed = Ret (Inr (g, names), m)" using demo_parsed_ok by blast
  have "updates [] < 2 ^ 32" by (simp add: updates_def)
  from parsed_group_never_empty[OF run[unfolded demo_parsed_def] this, of
      "map (\<lambda>name. the (m name)) names" "group_base_of g" False 0] run show ?thesis by auto
qed

end
