(* ===== verification/F64.thy ===== *)
theory F64
  imports Rounding Complex_Main
begin

text \<open>
  The \<open>float64\<close> of Go: the finite values as rationals (the zero of a sign of its own), rounding to 53
  significant bits with gradual underflow and overflow to infinity, the four operations, \<open>math.Mod\<close>,
  the comparisons, and the conversions from and to integers. The decimal notations are not here.
\<close>

datatype f64 = NaN | Inf bool | NegZero | Fin rat

fun f64_rat :: "f64 \<Rightarrow> rat" where
  "f64_rat (Fin r) = r"
| "f64_rat _ = 0"

fun f64_neg :: "f64 \<Rightarrow> bool" where
  "f64_neg NaN = False"
| "f64_neg (Inf neg) = neg"
| "f64_neg NegZero = True"
| "f64_neg (Fin r) = (r < 0)"

definition f64_zero :: "bool \<Rightarrow> f64" where
  "f64_zero neg = (if neg then NegZero else Fin 0)"

text \<open>Rounding \<open>p / q\<close> with a sign. The exponent of the last bit kept is at least \<open>-1074\<close>; the rounded
  number of units is scaled back. \<open>p / q\<close> lies between \<open>2^(e-1)\<close> and \<open>2^(e+1)\<close> for the difference
  \<open>e\<close> of the lengths.\<close>

definition round_units :: "nat \<Rightarrow> nat \<Rightarrow> int \<Rightarrow> nat" where
  "round_units p q u = (if u \<ge> 0 then rne p (q * 2 ^ nat u) else rne (p * 2 ^ nat (- u)) q)"

definition round_exponent :: "nat \<Rightarrow> nat \<Rightarrow> int" where
  "round_exponent p q =
     (let e = int (bits p) - int (bits q);
          e = (if e \<ge> 0 \<and> p < q * 2 ^ nat e \<or> e < 0 \<and> p * 2 ^ nat (- e) < q then e - 1 else e) in
      max (e - 52) (- 1074))"

definition scale2 :: "nat \<Rightarrow> int \<Rightarrow> rat" where
  "scale2 m u = (if u \<ge> 0 then of_nat m * 2 ^ nat u else of_nat m / 2 ^ nat (- u))"

definition f64_limit :: rat where
  "f64_limit = 2 ^ 1024"

definition f64_round :: "rat \<Rightarrow> f64" where
  "f64_round r =
     (if r = 0 then Fin 0
      else
        let neg = (r < 0);
            (p, q) = quotient_of \<bar>r\<bar>;
            u = round_exponent (nat p) (nat q);
            m = round_units (nat p) (nat q) u;
            v = scale2 m u in
        if m = 0 then f64_zero neg
        else if v \<ge> f64_limit then Inf neg
        else Fin (if neg then - v else v))"

definition f64_of_int :: "int \<Rightarrow> f64" where
  "f64_of_int n = f64_round (of_int n)"

fun fneg :: "f64 \<Rightarrow> f64" where
  "fneg NaN = NaN"
| "fneg (Inf neg) = Inf (\<not> neg)"
| "fneg NegZero = Fin 0"
| "fneg (Fin r) = (if r = 0 then NegZero else Fin (- r))"

fun fadd :: "f64 \<Rightarrow> f64 \<Rightarrow> f64" where
  "fadd NaN y = NaN"
| "fadd x NaN = NaN"
| "fadd (Inf a) (Inf b) = (if a = b then Inf a else NaN)"
| "fadd (Inf a) y = Inf a"
| "fadd x (Inf b) = Inf b"
| "fadd NegZero NegZero = NegZero"
| "fadd x y = f64_round (f64_rat x + f64_rat y)"

definition fsub :: "f64 \<Rightarrow> f64 \<Rightarrow> f64" where
  "fsub x y = fadd x (fneg y)"

fun f64_is_zero :: "f64 \<Rightarrow> bool" where
  "f64_is_zero NegZero = True"
| "f64_is_zero (Fin r) = (r = 0)"
| "f64_is_zero _ = False"

text \<open>A rounded result keeps the sign that the exact one has, also when it is zero.\<close>

definition signed_round :: "bool \<Rightarrow> rat \<Rightarrow> f64" where
  "signed_round neg r = (if r = 0 then f64_zero neg else f64_round r)"

definition fmul :: "f64 \<Rightarrow> f64 \<Rightarrow> f64" where
  "fmul x y =
     (let neg = (f64_neg x \<noteq> f64_neg y) in
      if x = NaN \<or> y = NaN then NaN
      else case (x, y) of
        (Inf _, _) \<Rightarrow> if f64_is_zero y then NaN else Inf neg
      | (_, Inf _) \<Rightarrow> if f64_is_zero x then NaN else Inf neg
      | _ \<Rightarrow> signed_round neg (f64_rat x * f64_rat y))"

definition fdiv :: "f64 \<Rightarrow> f64 \<Rightarrow> f64" where
  "fdiv x y =
     (let neg = (f64_neg x \<noteq> f64_neg y) in
      if x = NaN \<or> y = NaN then NaN
      else case (x, y) of
        (Inf _, Inf _) \<Rightarrow> NaN
      | (Inf _, _) \<Rightarrow> Inf neg
      | (_, Inf _) \<Rightarrow> f64_zero neg
      | _ \<Rightarrow>
          if f64_is_zero y then (if f64_is_zero x then NaN else Inf neg)
          else signed_round neg (f64_rat x / f64_rat y))"

text \<open>Truncation towards zero, and \<open>math.Mod\<close>: exact, with the sign of the first argument.\<close>

definition rat_trunc :: "rat \<Rightarrow> int" where
  "rat_trunc r = (if r \<ge> 0 then \<lfloor>r\<rfloor> else \<lceil>r\<rceil>)"

definition fmod64 :: "f64 \<Rightarrow> f64 \<Rightarrow> f64" where
  "fmod64 x y =
     (case (x, y) of
        (NaN, _) \<Rightarrow> NaN
      | (_, NaN) \<Rightarrow> NaN
      | (Inf _, _) \<Rightarrow> NaN
      | (_, Inf _) \<Rightarrow> x
      | _ \<Rightarrow>
          if f64_is_zero y then NaN
          else
            let r = f64_rat x - f64_rat y * of_int (rat_trunc (f64_rat x / f64_rat y)) in
            if r = 0 then f64_zero (f64_neg x) else Fin r)"

fun flt :: "f64 \<Rightarrow> f64 \<Rightarrow> bool" where
  "flt NaN y = False"
| "flt x NaN = False"
| "flt (Inf a) (Inf b) = (a \<and> \<not> b)"
| "flt (Inf a) y = a"
| "flt x (Inf b) = (\<not> b)"
| "flt x y = (f64_rat x < f64_rat y)"

fun feq :: "f64 \<Rightarrow> f64 \<Rightarrow> bool" where
  "feq NaN y = False"
| "feq x NaN = False"
| "feq (Inf a) (Inf b) = (a = b)"
| "feq (Inf a) y = False"
| "feq x (Inf b) = False"
| "feq x y = (f64_rat x = f64_rat y)"

text \<open>\<open>int(x)\<close> truncates; out of range (and for infinities and NaN) the result depends on the machine,
  which is the argument \<open>other\<close>.\<close>

fun int_of_f64 :: "(f64 \<Rightarrow> int) \<Rightarrow> f64 \<Rightarrow> int" where
  "int_of_f64 other (Fin r) =
     (if - (2 ^ 63) \<le> rat_trunc r \<and> rat_trunc r < 2 ^ 63 then rat_trunc r else other (Fin r))"
| "int_of_f64 other NegZero = 0"
| "int_of_f64 other x = other x"

section \<open>Whole numbers\<close>

lemma rne_exact: "0 < q \<Longrightarrow> rne (k * q) q = k"
  by (simp add: rne_def)

lemma bits_le: "n < 2 ^ k \<Longrightarrow> bits n \<le> k"
proof (rule ccontr)
  assume n: "n < 2 ^ k" "\<not> bits n \<le> k"
  then have "0 < n" by (auto simp: bits.simps[of 0] intro!: gr0I)
  then have "2 ^ (bits n - 1) \<le> n" by (rule bits_bounds(2))
  moreover have "(2::nat) ^ k \<le> 2 ^ (bits n - 1)" using n(2) by (intro power_increasing) auto
  ultimately show False using n(1) by linarith
qed

lemma round_small_nat:
  assumes "0 < p" "p < 2 ^ 53"
  shows "scale2 (round_units p 1 (round_exponent p 1)) (round_exponent p 1) = of_nat p"
proof -
  have b1: "bits (Suc 0) = Suc 0" by (subst bits.simps) (simp add: bits.simps[of 0])
  have pos: "0 < bits p" using assms(1) by (subst bits.simps) simp
  have "p < 2 ^ bits p" "2 ^ (bits p - 1) \<le> p" using bits_bounds[of p] assms(1) by auto
  then have u: "round_exponent p (Suc 0) = int (bits p) - 53"
    using pos by (simp add: round_exponent_def b1 Let_def nat_diff_distrib')
  have le: "bits p \<le> 53" using bits_le assms(2) by blast
  show ?thesis
  proof (cases "bits p = 53")
    case True
    then show ?thesis using rne_exact[of 1 p] by (simp add: u round_units_def scale2_def)
  next
    case False
    then have "round_units p 1 (int (bits p) - 53) = p * 2 ^ nat (53 - int (bits p))"
      using le rne_exact[of 1] by (simp add: round_units_def)
    then show ?thesis using False le by (simp add: u scale2_def)
  qed
qed

lemma f64_round_exact:
  assumes "r \<noteq> 0" "quotient_of \<bar>r\<bar> = (p, q)"
    and "scale2 (round_units (nat p) (nat q) (round_exponent (nat p) (nat q))) (round_exponent (nat p) (nat q)) = \<bar>r\<bar>"
    and "\<bar>r\<bar> < f64_limit"
  shows "f64_round r = Fin r"
proof -
  define u where "u = round_exponent (nat p) (nat q)"
  define m where "m = round_units (nat p) (nat q) u"
  have v: "scale2 m u = \<bar>r\<bar>" using assms(3) by (simp add: m_def u_def)
  have "m \<noteq> 0"
  proof
    assume "m = 0"
    then have "scale2 m u = 0" by (simp add: scale2_def)
    then show False using v assms(1) by simp
  qed
  then have "f64_round r = (if scale2 m u \<ge> f64_limit then Inf (r < 0) else Fin (if r < 0 then - scale2 m u else scale2 m u))"
    using assms(1) unfolding f64_round_def Let_def assms(2) prod.case u_def[symmetric] m_def[symmetric] by simp
  then show ?thesis using assms(4) by (simp add: v)
qed

text \<open>Integers below \<open>2^53\<close> are represented exactly.\<close>

lemma f64_of_int_small: "\<bar>n\<bar> < 2 ^ 53 \<Longrightarrow> f64_of_int n = Fin (of_int n)"
proof (cases "n = 0")
  case True
  then show ?thesis by (simp add: f64_of_int_def f64_round_def)
next
  case False
  assume small: "\<bar>n\<bar> < 2 ^ 53"
  have q: "quotient_of \<bar>of_int n :: rat\<bar> = (\<bar>n\<bar>, 1)"
  proof -
    have "\<bar>of_int n :: rat\<bar> = Fract \<bar>n\<bar> 1" by (simp only: of_int_abs[symmetric] of_int_rat[of "\<bar>n\<bar>"])
    then show ?thesis by (simp only: quotient_of_Fract) (simp add: Rat.normalize_def)
  qed
  have p: "0 < nat \<bar>n\<bar>" "nat \<bar>n\<bar> < 2 ^ 53" using False small by auto
  have v: "scale2 (round_units (nat \<bar>n\<bar>) (nat 1) (round_exponent (nat \<bar>n\<bar>) (nat 1))) (round_exponent (nat \<bar>n\<bar>) (nat 1)) =
      \<bar>of_int n :: rat\<bar>"
    using round_small_nat[OF p] by simp
  have less: "\<bar>of_int n :: rat\<bar> < f64_limit"
  proof -
    have "\<bar>of_int n :: rat\<bar> = of_int \<bar>n\<bar>" by (rule of_int_abs[symmetric])
    also have "(of_int \<bar>n\<bar> :: rat) < of_int (2 ^ 53)" by (rule of_int_less_iff[THEN iffD2, OF small])
    also have "\<dots> \<le> f64_limit" by (simp add: f64_limit_def)
    finally show ?thesis .
  qed
  have nz: "(of_int n :: rat) \<noteq> 0" using False by simp
  show ?thesis unfolding f64_of_int_def by (rule f64_round_exact[OF nz q v less])
qed

lemma rat_trunc_int [simp]: "rat_trunc (of_int n) = n"
  by (simp add: rat_trunc_def)

lemma int_of_f64_small: "\<bar>n\<bar> < 2 ^ 53 \<Longrightarrow> int_of_f64 other (f64_of_int n) = n"
proof -
  assume small: "\<bar>n\<bar> < 2 ^ 53"
  then have "- (2 ^ 63) \<le> n" "n < 2 ^ 63" by auto
  then show ?thesis using small by (simp add: f64_of_int_small)
qed

end
