(* ===== verification/OverrideValue.thy ===== *)
theory OverrideValue
  imports F64 GoStrings "HOL-Library.List_Lexorder" "HOL-Library.Char_ord"
begin

text \<open>
  The values that override expressions work on (\<open>adapter/provider/override_expr.go\<close>): what the YAML
  decoder puts into an \<open>any\<close>, and the operators on them. A mapping is its list of entries, sorted by
  key, so that equal mappings are equal values and the sorted iteration of the code is the order of
  the list. Values are trees: two places of a configuration never share one mapping.
\<close>

section \<open>Values\<close>

datatype int_kind = KInt | KInt8 | KInt16 | KInt32 | KInt64 | KUint | KUint8 | KUint16 | KUint32 | KUint64

datatype float_kind = KFloat32 | KFloat64

datatype oval =
  VNull
| VBool bool
| VInt int_kind int
| VFloat float_kind f64
| VStr string
| VList "oval list"
| VMap "(string \<times> oval) list"
| VNoMatch

type_synonym omap = "(string \<times> oval) list"

text \<open>What the library functions answer: \<open>fmt.Sprint\<close> of a float, \<open>strconv.ParseFloat\<close>, \<open>yaml.Marshal\<close>,
  \<open>regexp.Compile\<close> with \<open>MatchString\<close> and \<open>ReplaceAllString\<close>, \<open>strings.ToUpper\<close> and \<open>ToLower\<close>, and the
  conversion to \<open>int\<close> of a float that is out of range.\<close>

record oenv =
  oe_fmt_float :: "float_kind \<Rightarrow> f64 \<Rightarrow> string"
  oe_parse_float :: "string \<Rightarrow> f64 option"
  oe_yaml :: "oval \<Rightarrow> string option"
  oe_regexp :: "string \<Rightarrow> ((string \<Rightarrow> bool) \<times> (string \<Rightarrow> string \<Rightarrow> string)) option"
  oe_upper :: "string \<Rightarrow> string"
  oe_lower :: "string \<Rightarrow> string"
  oe_int :: "f64 \<Rightarrow> int"

text \<open>An \<open>int\<close> of the code: 64 bits.\<close>

definition wrap64 :: "int \<Rightarrow> int" where
  "wrap64 n = (n + 2 ^ 63) mod 2 ^ 64 - 2 ^ 63"

definition vint :: "int \<Rightarrow> oval" where
  "vint n = VInt KInt n"

section \<open>Mappings\<close>

fun map_put :: "string \<Rightarrow> 'v \<Rightarrow> (string \<times> 'v) list \<Rightarrow> (string \<times> 'v) list" where
  "map_put k v [] = [(k, v)]"
| "map_put k v ((k', v') # m) =
     (if k < k' then (k, v) # (k', v') # m
      else if k = k' then (k, v) # m
      else (k', v') # map_put k v m)"

definition map_keys :: "(string \<times> 'v) list \<Rightarrow> string list" where
  "map_keys m = map fst m"

definition map_get :: "(string \<times> oval) list \<Rightarrow> string \<Rightarrow> oval" where
  "map_get m k = (case map_of m k of Some v \<Rightarrow> v | None \<Rightarrow> VNull)"

definition map_from :: "(string \<times> 'v) list \<Rightarrow> (string \<times> 'v) list" where
  "map_from kvs = fold (\<lambda>(k, v) m. map_put k v m) kvs []"

definition sorted_map :: "(string \<times> 'v) list \<Rightarrow> bool" where
  "sorted_map m \<longleftrightarrow> sorted_wrt (<) (map fst m)"

lemma map_of_put [simp]: "sorted_map m \<Longrightarrow> map_of (map_put k v m) = (map_of m)(k \<mapsto> v)"
proof (induction m)
  case (Cons kv m)
  then have "map_of m (fst kv) = None" "\<forall>k' \<in> fst ` set m. fst kv < k'"
    by (auto simp: sorted_map_def map_of_eq_None_iff)
  then show ?case using Cons by (cases kv) (auto simp: sorted_map_def fun_eq_iff)
qed simp

lemma keys_put [simp]: "fst ` set (map_put k v m) = insert k (fst ` set m)"
  by (induction m) (auto simp del: map_put.simps simp: map_put.simps(1) map_put.simps(2)[of k v "fst x" "snd x" for x, simplified])

lemma sorted_map_Cons: "sorted_map (kv # m) \<longleftrightarrow> (\<forall>k \<in> fst ` set m. fst kv < k) \<and> sorted_map m"
  by (simp add: sorted_map_def)

lemma sorted_put [simp]: "sorted_map m \<Longrightarrow> sorted_map (map_put k v m)"
proof (induction m)
  case (Cons kv m)
  obtain k' v' where kv: "kv = (k', v')" by (cases kv)
  consider "k < k'" | "k = k'" | "k' < k" by fastforce
  then show ?case using Cons
    by cases (auto simp del: image_iff simp: kv sorted_map_Cons dest: order.strict_trans)
qed (simp add: sorted_map_Cons)

lemma sorted_map_distinct: "sorted_map m \<Longrightarrow> distinct (map fst m)"
  by (auto simp: sorted_map_def strict_sorted_iff)

lemma sorted_map_Nil [simp]: "sorted_map []"
  by (simp add: sorted_map_def)

lemma sorted_map_eqI:
  assumes "sorted_map m" "sorted_map n" "map_of m = map_of n"
  shows "m = n"
proof -
  have "fst ` set m = fst ` set n" using assms(3) by (metis dom_map_of_conv_image_fst)
  then have "map fst m = map fst n"
    using assms(1,2) by (intro strict_sorted_equal) (auto simp: sorted_map_def)
  moreover have "map snd m = map (the \<circ> map_of m) (map fst m)" "map snd n = map (the \<circ> map_of n) (map fst n)"
    using sorted_map_distinct[OF assms(1)] sorted_map_distinct[OF assms(2)]
    by (auto simp: map_of_eq_Some_iff intro!: map_cong)
  ultimately have "map snd m = map snd n" "map fst m = map fst n" using assms(3) by metis+
  then have "zip (map fst m) (map snd m) = zip (map fst n) (map snd n)" by (simp only:)
  then show ?thesis by (simp only: zip_map_fst_snd)
qed

lemma sorted_map_filter: "sorted_map m \<Longrightarrow> sorted_map (filter P m)"
  by (induction m) (auto simp: sorted_map_Cons)

lemma sorted_map_mapped: "map fst n = map fst m \<Longrightarrow> sorted_map m \<Longrightarrow> sorted_map n"
  by (simp add: sorted_map_def)

lemma sorted_map_from [simp]: "sorted_map (map_from kvs)"
proof -
  have "sorted_map m \<Longrightarrow> sorted_map (fold (\<lambda>(k, v) m. map_put k v m) kvs m)" for m
    by (induction kvs arbitrary: m) auto
  then show ?thesis by (simp add: map_from_def)
qed

lemma map_from_sorted: "sorted_map m \<Longrightarrow> map_from m = m"
proof -
  assume m: "sorted_map m"
  have "sorted_map n \<Longrightarrow> map_of (fold (\<lambda>(k, v) m. map_put k v m) kvs n) = map_of n ++ map_of (rev kvs)"
    for n :: "(string \<times> 'a) list" and kvs
    by (induction kvs arbitrary: n) (auto simp: fun_eq_iff map_add_def split: option.splits)
  then have "map_of (map_from m) = map_of (rev m)" by (simp add: map_from_def)
  also have "\<dots> = map_of m" using sorted_map_distinct[OF m] by (intro map_of_eqI) (auto simp: map_of_eq_Some_iff rev_map[symmetric])
  finally show ?thesis using m by (intro sorted_map_eqI) auto
qed

section \<open>Numbers, truth, types\<close>

text \<open>The number of a value as a \<open>float64\<close>, and whether its type is an integer.\<close>

fun overrideNumber :: "oval \<Rightarrow> (f64 \<times> bool) option" where
  "overrideNumber (VInt k n) = Some (f64_of_int n, True)"
| "overrideNumber (VFloat k x) = Some (x, False)"
| "overrideNumber _ = None"

fun isOverrideScalar :: "oval \<Rightarrow> bool" where
  "isOverrideScalar (VList xs) = False"
| "isOverrideScalar (VMap m) = False"
| "isOverrideScalar VNoMatch = False"
| "isOverrideScalar _ = True"

fun overrideTruthy :: "oval \<Rightarrow> bool" where
  "overrideTruthy VNull = False"
| "overrideTruthy (VBool b) = b"
| "overrideTruthy _ = True"

fun overrideType :: "oval \<Rightarrow> string" where
  "overrideType VNull = ''!!null''"
| "overrideType (VBool b) = ''!!bool''"
| "overrideType (VInt k n) = ''!!int''"
| "overrideType (VFloat k x) = ''!!float''"
| "overrideType (VStr s) = ''!!str''"
| "overrideType (VList xs) = ''!!seq''"
| "overrideType (VMap m) = ''!!map''"
| "overrideType VNoMatch = ''provider.overrideNoMatch''"

definition int_str :: "int \<Rightarrow> string" where
  "int_str n = (if n < 0 then CHR ''-'' # dec (nat (- n)) else dec (nat n))"

text \<open>\<open>fmt.Sprint\<close>, which the code calls on scalars other than null (and \<open>join\<close> on the marker of no match).\<close>

fun sprint :: "oenv \<Rightarrow> oval \<Rightarrow> string" where
  "sprint E (VBool b) = (if b then ''true'' else ''false'')"
| "sprint E (VInt k n) = int_str n"
| "sprint E (VFloat k x) = oe_fmt_float E k x"
| "sprint E (VStr s) = s"
| "sprint E VNull = ''<nil>''"
| "sprint E _ = ''{}''"

definition to_int :: "oenv \<Rightarrow> f64 \<Rightarrow> int" where
  "to_int E x = int_of_f64 (oe_int E) x"

section \<open>Equality and order\<close>

text \<open>\<open>reflect.DeepEqual\<close>.\<close>

fun deep_equal :: "oval \<Rightarrow> oval \<Rightarrow> bool" and
  deep_equal_list :: "oval list \<Rightarrow> oval list \<Rightarrow> bool" and
  deep_equal_map :: "omap \<Rightarrow> omap \<Rightarrow> bool" where
  "deep_equal VNull VNull = True"
| "deep_equal (VBool a) (VBool b) = (a = b)"
| "deep_equal (VInt k n) (VInt k' n') = (k = k' \<and> n = n')"
| "deep_equal (VFloat k x) (VFloat k' x') = (k = k' \<and> feq x x')"
| "deep_equal (VStr s) (VStr t) = (s = t)"
| "deep_equal (VList xs) (VList ys) = deep_equal_list xs ys"
| "deep_equal (VMap m) (VMap n) = deep_equal_map m n"
| "deep_equal VNoMatch VNoMatch = True"
| "deep_equal _ _ = False"
| "deep_equal_list [] [] = True"
| "deep_equal_list (x # xs) (y # ys) = (deep_equal x y \<and> deep_equal_list xs ys)"
| "deep_equal_list _ _ = False"
| "deep_equal_map [] [] = True"
| "deep_equal_map ((k, x) # m) ((k', y) # n) = (k = k' \<and> deep_equal x y \<and> deep_equal_map m n)"
| "deep_equal_map _ _ = False"

definition overrideEqual :: "oval \<Rightarrow> oval \<Rightarrow> bool" where
  "overrideEqual left right =
     (case overrideNumber left of
        Some (l, li) \<Rightarrow> (case overrideNumber right of Some (r, ri) \<Rightarrow> li = ri \<and> feq l r | None \<Rightarrow> False)
      | None \<Rightarrow> deep_equal left right)"

definition overrideYQEqual :: "oenv \<Rightarrow> oval \<Rightarrow> oval \<Rightarrow> bool" where
  "overrideYQEqual E left right =
     (if \<not> isOverrideScalar left \<or> \<not> isOverrideScalar right then False
      else if left = VNull \<or> right = VNull then left = VNull \<and> right = VNull
      else case (overrideNumber left, overrideNumber right) of
        (Some (l, li), Some (r, ri)) \<Rightarrow> li = ri \<and> feq l r
      | _ \<Rightarrow> sprint E left = sprint E right)"

text \<open>\<open>compareOverrideValues\<close>: \<open>None\<close> is its error. Floats that are not ordered compare as equal.\<close>

definition float_compare :: "f64 \<Rightarrow> f64 \<Rightarrow> int" where
  "float_compare l r = (if flt l r then - 1 else if flt r l then 1 else 0)"

definition string_compare :: "string \<Rightarrow> string \<Rightarrow> int" where
  "string_compare s t = (if s < t then - 1 else if t < s then 1 else 0)"

definition compareOverrideValues :: "oval \<Rightarrow> oval \<Rightarrow> int option" where
  "compareOverrideValues left right =
     (case overrideNumber left of
        Some (l, _) \<Rightarrow> (case overrideNumber right of Some (r, _) \<Rightarrow> Some (float_compare l r) | None \<Rightarrow> None)
      | None \<Rightarrow> (case (left, right) of (VStr s, VStr t) \<Rightarrow> Some (string_compare s t) | _ \<Rightarrow> None))"

fun sort_rank :: "oval \<Rightarrow> int" where
  "sort_rank VNull = 0"
| "sort_rank (VBool b) = 1"
| "sort_rank (VInt k n) = 2"
| "sort_rank (VFloat k x) = 2"
| "sort_rank (VStr s) = 3"
| "sort_rank _ = 4"

definition compareOverrideSortValues :: "oval \<Rightarrow> oval \<Rightarrow> int option" where
  "compareOverrideSortValues left right =
     (if sort_rank left < sort_rank right then Some (- 1)
      else if sort_rank right < sort_rank left then Some 1
      else case (left, right) of
        (VNull, VNull) \<Rightarrow> Some 0
      | (VBool a, VBool b) \<Rightarrow> Some (if a = b then 0 else if \<not> a then - 1 else 1)
      | _ \<Rightarrow> if sort_rank left = 4 then None else compareOverrideValues left right)"

section \<open>Strings\<close>

text \<open>\<open>strings.Split\<close> with a separator of any length; an empty one splits into the encoded runes
  (an invalid byte alone).\<close>

definition cont_byte :: "nat \<Rightarrow> nat \<Rightarrow> string \<Rightarrow> bool" where
  "cont_byte lo hi s = (case s of [] \<Rightarrow> False | c # _ \<Rightarrow> lo \<le> (of_char c :: nat) \<and> (of_char c :: nat) \<le> hi)"

definition rune_len :: "string \<Rightarrow> nat" where
  "rune_len s =
     (case s of
        [] \<Rightarrow> 0
      | c # cs \<Rightarrow>
          let b = (of_char c :: nat);
              tl1 = drop 1 cs; tl2 = drop 2 cs;
              second = (if b = 0xE0 then cont_byte 0xA0 0xBF cs
                else if b = 0xED then cont_byte 0x80 0x9F cs
                else if b = 0xF0 then cont_byte 0x90 0xBF cs
                else if b = 0xF4 then cont_byte 0x80 0x8F cs
                else cont_byte 0x80 0xBF cs) in
          if 0xC2 \<le> b \<and> b \<le> 0xDF \<and> second then 2
          else if 0xE0 \<le> b \<and> b \<le> 0xEF \<and> second \<and> cont_byte 0x80 0xBF tl1 then 3
          else if 0xF0 \<le> b \<and> b \<le> 0xF4 \<and> second \<and> cont_byte 0x80 0xBF tl1 \<and> cont_byte 0x80 0xBF tl2 then 4
          else 1)"

lemma rune_len_pos: "s \<noteq> [] \<Longrightarrow> 0 < rune_len s"
  by (cases s) (auto simp: rune_len_def Let_def)

function explode :: "string \<Rightarrow> string list" where
  "explode s = (if s = [] then [] else take (rune_len s) s # explode (drop (rune_len s) s))"
  by pat_completeness auto
termination by (relation "measure length") (auto simp: rune_len_pos)

declare explode.simps [simp del]

function split_sep :: "string \<Rightarrow> string \<Rightarrow> string \<Rightarrow> string list" where
  "split_sep sep acc s =
     (if sep \<noteq> [] \<and> HasPrefix s sep then rev acc # split_sep sep [] (drop (length sep) s)
      else case s of [] \<Rightarrow> [rev acc] | c # cs \<Rightarrow> split_sep sep (c # acc) cs)"
  by pat_completeness auto
termination by (relation "measure (\<lambda>(sep, acc, s). length s)") (auto simp: HasPrefix_iff prefix_def)

declare split_sep.simps [simp del]

definition str_split :: "string \<Rightarrow> string \<Rightarrow> string list" where
  "str_split s sep = (if sep = [] then explode s else split_sep sep [] s)"

fun str_join :: "string \<Rightarrow> string list \<Rightarrow> string" where
  "str_join sep [] = []"
| "str_join sep [s] = s"
| "str_join sep (s # t # ts) = s @ sep @ str_join sep (t # ts)"

end
