(* ===== verification/OverrideOps.thy ===== *)
theory OverrideOps
  imports OverrideValue
begin

text \<open>
  The operators and functions of override expressions (\<open>override_expr.go\<close>, from
  \<open>evaluateOverrideBinary\<close> on, and the cases of \<open>overrideFunctionExpr.eval\<close>). \<open>None\<close> is an error.
\<close>

section \<open>Operators\<close>

text \<open>Go's \<open>%\<close> truncates towards zero.\<close>

definition go_rem :: "int \<Rightarrow> int \<Rightarrow> int" where
  "go_rem a b = (if a \<ge> 0 then a mod \<bar>b\<bar> else - ((- a) mod \<bar>b\<bar>))"

definition evaluateOverrideNumbers :: "oenv \<Rightarrow> string \<Rightarrow> oval \<Rightarrow> oval \<Rightarrow> oval option" where
  "evaluateOverrideNumbers E operator left right =
     (case (overrideNumber left, overrideNumber right) of
        (Some (l, li), Some (r, ri)) \<Rightarrow>
          let float = (\<lambda>x. Some (VFloat KFloat64 x)); integer = (\<lambda>n. Some (vint (wrap64 n)));
              il = to_int E l; ir = to_int E r in
          if operator = ''+'' then (if li \<and> ri then integer (il + ir) else float (fadd l r))
          else if operator = ''-'' then (if li \<and> ri then integer (il - ir) else float (fsub l r))
          else if operator = ''*'' then (if li \<and> ri then integer (il * ir) else float (fmul l r))
          else if operator = ''/'' then float (fdiv l r)
          else if operator = ''%'' then
            (if li \<and> ri then (if feq r (Fin 0) then None else integer (go_rem il ir)) else float (fmod64 l r))
          else None
      | _ \<Rightarrow> None)"

text \<open>\<open>strings.Repeat\<close> with the checks of the multiplier.\<close>

definition repeat_string :: "oenv \<Rightarrow> string \<Rightarrow> oval \<Rightarrow> oval option" where
  "repeat_string E s multiplier =
     (case overrideNumber multiplier of
        Some (n, True) \<Rightarrow>
          if flt n (Fin 0) then None
          else if flt (Fin 10000000) n then None
          else Some (VStr (concat (replicate (nat (to_int E n)) s)))
      | _ \<Rightarrow> None)"

function mergeOverrideMaps :: "omap \<Rightarrow> omap \<Rightarrow> omap" where
  "mergeOverrideMaps left [] = left"
| "mergeOverrideMaps left ((key, rightValue) # right) =
     mergeOverrideMaps
       (map_put key
         (case (map_of left key, rightValue) of
            (Some (VMap l), VMap r) \<Rightarrow> VMap (mergeOverrideMaps l r)
          | _ \<Rightarrow> rightValue) left) right"
  by pat_completeness auto
termination
  by (relation "measure (\<lambda>(l, r). size_list (size_prod (\<lambda>_. 0) size) r)") auto

definition override_add :: "oenv \<Rightarrow> oval \<Rightarrow> oval \<Rightarrow> oval option" where
  "override_add E left right =
     (case left of
        VNull \<Rightarrow> Some right
      | VStr s \<Rightarrow>
          if right = VNull then Some (VStr s)
          else if \<not> isOverrideScalar right then None
          else Some (VStr (s @ sprint E right))
      | VList xs \<Rightarrow>
          (case right of VNull \<Rightarrow> Some (VList xs) | VList ys \<Rightarrow> Some (VList (xs @ ys)) | _ \<Rightarrow> Some (VList (xs @ [right])))
      | VMap l \<Rightarrow>
          (case right of VMap r \<Rightarrow> Some (VMap (fold (\<lambda>(k, v) m. map_put k v m) r l)) | _ \<Rightarrow> None)
      | _ \<Rightarrow>
          (case right of
             VStr s \<Rightarrow> if isOverrideScalar left then Some (VStr (sprint E left @ s)) else evaluateOverrideNumbers E ''+'' left right
           | _ \<Rightarrow> evaluateOverrideNumbers E ''+'' left right))"

definition override_subtract :: "oenv \<Rightarrow> oval \<Rightarrow> oval \<Rightarrow> oval option" where
  "override_subtract E left right =
     (case left of
        VNull \<Rightarrow> Some right
      | VList xs \<Rightarrow>
          (case right of
             VList ys \<Rightarrow> Some (VList (filter (\<lambda>x. \<not> list_ex (\<lambda>y. overrideEqual x y) ys) xs))
           | _ \<Rightarrow> None)
      | _ \<Rightarrow> evaluateOverrideNumbers E ''-'' left right)"

definition override_multiply :: "oenv \<Rightarrow> oval \<Rightarrow> oval \<Rightarrow> oval option" where
  "override_multiply E left right =
     (case (left, right) of
        (_, VNull) \<Rightarrow> Some left
      | (VNull, VList ys) \<Rightarrow> Some right
      | (VNull, VMap m) \<Rightarrow> Some right
      | (VMap l, VMap r) \<Rightarrow> Some (VMap (mergeOverrideMaps l r))
      | (VMap l, _) \<Rightarrow> None
      | (VList xs, VList ys) \<Rightarrow> Some right
      | (VStr s, _) \<Rightarrow> repeat_string E s right
      | (_, VStr s) \<Rightarrow> repeat_string E s left
      | _ \<Rightarrow> evaluateOverrideNumbers E ''*'' left right)"

definition override_divide :: "oenv \<Rightarrow> oval \<Rightarrow> oval \<Rightarrow> oval option" where
  "override_divide E left right =
     (case left of
        VStr s \<Rightarrow>
          (case right of
             VStr sep \<Rightarrow> Some (VList (if s = [] then [] else map VStr (str_split s sep)))
           | _ \<Rightarrow> None)
      | _ \<Rightarrow> evaluateOverrideNumbers E ''/'' left right)"

definition override_order :: "string \<Rightarrow> oval \<Rightarrow> oval \<Rightarrow> oval option" where
  "override_order operator left right =
     (if \<not> isOverrideScalar left \<or> \<not> isOverrideScalar right then None
      else if left = VNull \<or> right = VNull then
        Some (VBool (left = VNull \<and> right = VNull \<and> (operator = ''<='' \<or> operator = ''>='')))
      else case compareOverrideValues left right of
        None \<Rightarrow> None
      | Some comparison \<Rightarrow>
          Some (VBool (if operator = ''<'' then comparison < 0
            else if operator = ''<='' then comparison \<le> 0
            else if operator = ''>'' then comparison > 0
            else comparison \<ge> 0)))"

definition evaluateOverrideBinary :: "oenv \<Rightarrow> string \<Rightarrow> oval \<Rightarrow> oval \<Rightarrow> oval option" where
  "evaluateOverrideBinary E operator left right =
     (if operator = ''and'' then Some (VBool (overrideTruthy left \<and> overrideTruthy right))
      else if operator = ''or'' then Some (VBool (overrideTruthy left \<or> overrideTruthy right))
      else if operator = ''//'' then Some (if overrideTruthy left then left else right)
      else if operator = ''=='' then Some (VBool (overrideYQEqual E left right))
      else if operator = ''!='' then Some (VBool (\<not> overrideYQEqual E left right))
      else if operator \<in> {''<'', ''<='', ''>'', ''>=''} then override_order operator left right
      else if operator = ''+'' then override_add E left right
      else if operator = ''-'' then override_subtract E left right
      else if operator = ''*'' then override_multiply E left right
      else if operator = ''/'' then override_divide E left right
      else if operator = ''%'' then evaluateOverrideNumbers E ''%'' left right
      else None)"

section \<open>Functions on collections\<close>

text \<open>Keys of a mapping are distinct, so the entry found first is the entry.\<close>

fun overrideContains :: "oval \<Rightarrow> oval \<Rightarrow> bool" where
  "overrideContains (VStr s) item = (case item of VStr t \<Rightarrow> Contains s t | _ \<Rightarrow> False)"
| "overrideContains (VList cs) item =
     list_all (\<lambda>wanted. list_ex (\<lambda>c. overrideEqual c wanted \<or> overrideContains c wanted) cs)
       (case item of VList ws \<Rightarrow> ws | _ \<Rightarrow> [item])"
| "overrideContains (VMap cm) item =
     (case item of
        VMap wm \<Rightarrow> list_all (\<lambda>(k, wanted).
          list_ex (\<lambda>(k', c). k' = k \<and> (overrideEqual c wanted \<or> overrideContains c wanted)) cm) wm
      | _ \<Rightarrow> False)"
| "overrideContains _ item = False"

fun flattenOverrideArray :: "oval list \<Rightarrow> int \<Rightarrow> oval list" where
  "flattenOverrideArray [] depth = []"
| "flattenOverrideArray (v # vs) depth =
     (case v of
        VList children \<Rightarrow>
          if depth = 0 then v # flattenOverrideArray vs depth
          else flattenOverrideArray children (if depth > 0 then depth - 1 else depth) @ flattenOverrideArray vs depth
      | _ \<Rightarrow> v # flattenOverrideArray vs depth)"

definition overrideUniqueKey :: "oenv \<Rightarrow> oval \<Rightarrow> string option" where
  "overrideUniqueKey E v =
     (if isOverrideScalar v then Some (if v = VNull then ''null'' else sprint E v) else oe_yaml E v)"

fun unique_loop :: "oenv \<Rightarrow> string list \<Rightarrow> oval list \<Rightarrow> oval list option" where
  "unique_loop E seen [] = Some []"
| "unique_loop E seen (v # vs) =
     (case overrideUniqueKey E v of
        None \<Rightarrow> None
      | Some key \<Rightarrow>
          if key \<in> set seen then unique_loop E seen vs
          else map_option (\<lambda>rest. v # rest) (unique_loop E (key # seen) vs))"

text \<open>\<open>sort.SliceStable\<close>: insertion from the left; an element moves before its predecessor while it is
  less. (For up to 20 elements this is the algorithm of the library; for more, any stable sort
  gives the same result unless a NaN makes the comparison inconsistent.) The comparison fails
  when two elements are collections, and some two of them are always compared.\<close>

definition sort_less :: "oval \<Rightarrow> oval \<Rightarrow> bool" where
  "sort_less left right = (case compareOverrideSortValues left right of Some c \<Rightarrow> c < 0 | None \<Rightarrow> False)"

fun insert_left :: "oval \<Rightarrow> oval list \<Rightarrow> oval list" where
  "insert_left x [] = [x]"
| "insert_left x (y # before) = (if sort_less x y then y # insert_left x before else x # y # before)"

definition stable_sort :: "oval list \<Rightarrow> oval list" where
  "stable_sort xs = rev (fold insert_left xs [])"

definition override_sort :: "oval list \<Rightarrow> oval list option" where
  "override_sort xs = (if length (filter (\<lambda>x. sort_rank x = 4) xs) \<ge> 2 then None else Some (stable_sort xs))"

definition overrideCollectionValues :: "oval \<Rightarrow> oval list option" where
  "overrideCollectionValues v =
     (case v of VList xs \<Rightarrow> Some xs | VMap m \<Rightarrow> Some (map snd m) | _ \<Rightarrow> None)"

text \<open>The inner option says that there is no result.\<close>

definition entry_map :: "oval \<Rightarrow> oval \<Rightarrow> oval" where
  "entry_map key v = VMap [(''key'', key), (''value'', v)]"

definition toOverrideEntries :: "oval \<Rightarrow> oval list option option" where
  "toOverrideEntries input =
     (case input of
        VNull \<Rightarrow> Some None
      | VList xs \<Rightarrow> Some (Some (map (\<lambda>(idx, item). entry_map (vint (int idx)) item) (List.enumerate 0 xs)))
      | VMap m \<Rightarrow> Some (Some (map (\<lambda>(key, v). entry_map (VStr key) v) m))
      | _ \<Rightarrow> None)"

fun from_entries_loop :: "oval list \<Rightarrow> omap \<Rightarrow> omap option" where
  "from_entries_loop [] result = Some result"
| "from_entries_loop (item # entries) result =
     (case item of
        VMap entry \<Rightarrow>
          (case (map_of entry ''key'', map_of entry ''value'') of
             (Some (VStr key), Some v) \<Rightarrow> from_entries_loop entries (map_put key v result)
           | _ \<Rightarrow> None)
      | _ \<Rightarrow> None)"

definition fromOverrideEntries :: "oval \<Rightarrow> omap option" where
  "fromOverrideEntries input = (case input of VList entries \<Rightarrow> from_entries_loop entries [] | _ \<Rightarrow> None)"

end
