(* ===== verification/OverridePath.thy ===== *)
theory OverridePath
  imports OverrideOps
begin

text \<open>
  Paths of override expressions (\<open>override_expr.go\<close>): reading, updating and deleting through a path, and
  the places a conditional target selects. An index is an \<open>int\<close>; a negative one counts from the end.
  An update that fails is \<open>None\<close>; the callers drop the mapping then.
\<close>

section \<open>Operations\<close>

datatype oseg = FieldSeg string | IndexSeg int | WildSeg

type_synonym opath = "oseg list"

definition array_index :: "int \<Rightarrow> 'a list \<Rightarrow> int" where
  "array_index i xs = (if i < 0 then i + int (length xs) else i)"

fun lookupOverridePathStream :: "oval \<Rightarrow> opath \<Rightarrow> oval list" where
  "lookupOverridePathStream v [] = [v]"
| "lookupOverridePathStream v (FieldSeg key # path) =
     (case v of VMap m \<Rightarrow> lookupOverridePathStream (map_get m key) path | _ \<Rightarrow> [VNull])"
| "lookupOverridePathStream v (IndexSeg i # path) =
     (case v of
        VList xs \<Rightarrow>
          let index = array_index i xs in
          if index < 0 \<or> index \<ge> int (length xs) then [VNull]
          else lookupOverridePathStream (xs ! nat index) path
      | _ \<Rightarrow> [VNull])"
| "lookupOverridePathStream v (WildSeg # path) =
     (case v of
        VList xs \<Rightarrow> concat (map (\<lambda>x. lookupOverridePathStream x path) xs)
      | VMap m \<Rightarrow> concat (map (\<lambda>(k, x). lookupOverridePathStream x path) m)
      | _ \<Rightarrow> [])"

text \<open>Appending nulls until the index exists.\<close>

definition pad_to :: "nat \<Rightarrow> oval list \<Rightarrow> oval list" where
  "pad_to n xs = xs @ replicate (Suc n - length xs) VNull"

fun updateOverridePath :: "(oval \<Rightarrow> oval option) \<Rightarrow> oval \<Rightarrow> opath \<Rightarrow> oval option" where
  "updateOverridePath updater node [] = updater node"
| "updateOverridePath updater node (FieldSeg key # path) =
     (case (if node = VNull then VMap [] else node) of
        VMap m \<Rightarrow> map_option (\<lambda>v. VMap (map_put key v m)) (updateOverridePath updater (map_get m key) path)
      | _ \<Rightarrow> Some node)"
| "updateOverridePath updater node (IndexSeg i # path) =
     (case (if node = VNull then VList [] else node) of
        VList xs \<Rightarrow>
          let index = array_index i xs in
          if index < 0 then None
          else
            let array = pad_to (nat index) xs in
            map_option (\<lambda>v. VList (array[nat index := v])) (updateOverridePath updater (array ! nat index) path)
      | _ \<Rightarrow> Some node)"
| "updateOverridePath updater node (WildSeg # path) =
     (case node of
        VList xs \<Rightarrow> map_option VList (those (map (\<lambda>x. updateOverridePath updater x path) xs))
      | VMap m \<Rightarrow>
          map_option VMap (those (map (\<lambda>(k, x). map_option (\<lambda>v. (k, v)) (updateOverridePath updater x path)) m))
      | _ \<Rightarrow> Some node)"

text \<open>Deletion: all paths are read against the value as it was. A path hits an entry when its first
  segment selects it.\<close>

definition field_hits :: "string \<Rightarrow> opath \<Rightarrow> bool" where
  "field_hits key path = (case path of seg # _ \<Rightarrow> seg = WildSeg \<or> seg = FieldSeg key | [] \<Rightarrow> False)"

definition index_hits :: "'a list \<Rightarrow> nat \<Rightarrow> opath \<Rightarrow> bool" where
  "index_hits xs idx path =
     (case path of
        WildSeg # _ \<Rightarrow> True
      | IndexSeg i # _ \<Rightarrow> array_index i xs = int idx
      | _ \<Rightarrow> False)"

function deleteOverridePaths :: "oval \<Rightarrow> opath list \<Rightarrow> oval" where
  "deleteOverridePaths (VMap m) paths =
     VMap (concat (map (\<lambda>(key, child).
       let hits = filter (field_hits key) paths in
       if list_ex (\<lambda>p. length p = 1) hits then []
       else if hits = [] then [(key, child)]
       else [(key, deleteOverridePaths child (map tl hits))]) m))"
| "deleteOverridePaths (VList xs) paths =
     VList (concat (map (\<lambda>(idx, child).
       let hits = filter (index_hits xs idx) paths in
       if list_ex (\<lambda>p. length p = 1) hits then []
       else if hits = [] then [child]
       else [deleteOverridePaths child (map tl hits)]) (List.enumerate 0 xs)))"
| "deleteOverridePaths VNull paths = VNull"
| "deleteOverridePaths (VBool b) paths = VBool b"
| "deleteOverridePaths (VInt k n) paths = VInt k n"
| "deleteOverridePaths (VFloat k x) paths = VFloat k x"
| "deleteOverridePaths (VStr s) paths = VStr s"
| "deleteOverridePaths VNoMatch paths = VNoMatch"
  by pat_completeness auto
termination
proof (relation "measure (\<lambda>(v, paths). size v)", goal_cases)
  case (2 m paths kv key child)
  then have "child \<in> snd ` set m" by (auto simp: image_iff) (metis snd_conv)
  then show ?case using 2 by (auto dest!: size_list_estimation'[of _ _ "size child" "size_prod (\<lambda>_. 0) size"])
next
  case (3 xs paths kv idx child)
  then have "child \<in> set xs" by (auto simp: in_set_enumerate_eq)
  then show ?case by (auto simp: less_Suc_eq_le dest!: size_list_estimation'[of _ _ "size child" size])
qed auto

text \<open>The places that a target path selects in a value: the value found and the path to it with
  every wildcard and index made concrete.\<close>

fun expandOverrideTargetPath :: "oval \<Rightarrow> opath \<Rightarrow> opath \<Rightarrow> (oval \<times> opath) list" where
  "expandOverrideTargetPath v pre [] = [(v, pre)]"
| "expandOverrideTargetPath v pre (FieldSeg key # path) =
     (case v of
        VNull \<Rightarrow> expandOverrideTargetPath VNull (pre @ [FieldSeg key]) path
      | VMap m \<Rightarrow> expandOverrideTargetPath (map_get m key) (pre @ [FieldSeg key]) path
      | _ \<Rightarrow> [])"
| "expandOverrideTargetPath v pre (IndexSeg i # path) =
     (case v of
        VNull \<Rightarrow> expandOverrideTargetPath VNull (pre @ [IndexSeg i]) path
      | VList xs \<Rightarrow>
          let index = array_index i xs in
          if index < 0 then []
          else expandOverrideTargetPath (if index < int (length xs) then xs ! nat index else VNull)
                 (pre @ [IndexSeg index]) path
      | _ \<Rightarrow> [])"
| "expandOverrideTargetPath v pre (WildSeg # path) =
     (case v of
        VList xs \<Rightarrow> concat (map (\<lambda>(idx, item).
          expandOverrideTargetPath item (pre @ [IndexSeg (int idx)]) path) (List.enumerate 0 xs))
      | VMap m \<Rightarrow> concat (map (\<lambda>(key, item). expandOverrideTargetPath item (pre @ [FieldSeg key]) path) m)
      | _ \<Rightarrow> [])"

definition segment_string :: "nat \<Rightarrow> oseg \<Rightarrow> string" where
  "segment_string idx seg =
     (case seg of
        FieldSeg key \<Rightarrow> (if idx > 0 then ''.'' else []) @ key
      | IndexSeg i \<Rightarrow> ''['' @ int_str i @ '']''
      | WildSeg \<Rightarrow> ''[]'')"

definition overridePath_String :: "opath \<Rightarrow> string" where
  "overridePath_String path = ''.'' @ concat (map (\<lambda>(idx, seg). segment_string idx seg) (List.enumerate 0 path))"

end
