(* ===== verification/OverrideLex.thy ===== *)
theory OverrideLex
  imports GoStrings
begin

text \<open>
  The lexer of override expressions (\<open>lexOverrideExpr\<close> of \<open>override_expr.go\<close>). It works on bytes: a byte
  from 128 on is classified as if it were the rune of that number. Columns, which only occur in
  error messages, are left out; the end of the list of tokens is the code's end token.
\<close>

section \<open>Tokens\<close>

datatype token_kind =
  TDot | TIdentifier | TString | TNumber | TLeftParen | TRightParen | TLeftBracket | TRightBracket
| TLeftBrace | TRightBrace | TComma | TSemicolon | TColon | TPipe | TAssign | TUpdateAssign
| TAddAssign | TSubtractAssign | TMultiplyAssign | TPlus | TMinus | TMultiply | TDivide | TModulo
| TAlternative | TEqual | TNotEqual | TLess | TLessEqual | TGreater | TGreaterEqual | TEOF

record otoken =
  tk_kind :: token_kind
  tk_text :: string

definition tok :: "token_kind \<Rightarrow> string \<Rightarrow> otoken" where
  "tok k s = \<lparr>tk_kind = k, tk_text = s\<rparr>"

lemma tok_sel [simp]: "tk_kind (tok k s) = k" "tk_text (tok k s) = s"
  by (simp_all add: tok_def)

section \<open>Classes of bytes\<close>

definition in_range :: "nat \<Rightarrow> nat \<Rightarrow> char \<Rightarrow> bool" where
  "in_range lo hi c \<longleftrightarrow> lo \<le> (of_char c :: nat) \<and> (of_char c :: nat) \<le> hi"

definition is_space :: "char \<Rightarrow> bool" where
  "is_space c \<longleftrightarrow> in_range 0x09 0x0D c \<or> c \<in> {CHR 0x20, CHR 0x85, CHR 0xA0}"

definition is_letter :: "char \<Rightarrow> bool" where
  "is_letter c \<longleftrightarrow> in_range 0x41 0x5A c \<or> in_range 0x61 0x7A c \<or> c \<in> {CHR 0xAA, CHR 0xB5, CHR 0xBA} \<or>
     in_range 0xC0 0xD6 c \<or> in_range 0xD8 0xF6 c \<or> in_range 0xF8 0xFF c"

definition is_digit :: "char \<Rightarrow> bool" where
  "is_digit c \<longleftrightarrow> in_range 0x30 0x39 c"

definition is_hex_digit :: "char \<Rightarrow> bool" where
  "is_hex_digit c \<longleftrightarrow> is_digit c \<or> in_range 0x61 0x66 c \<or> in_range 0x41 0x46 c"

definition isOverrideIdentifierStart :: "char \<Rightarrow> bool" where
  "isOverrideIdentifierStart c \<longleftrightarrow> c = CHR ''_'' \<or> is_letter c"

definition isOverrideIdentifierPart :: "char \<Rightarrow> bool" where
  "isOverrideIdentifierPart c \<longleftrightarrow> c = CHR ''_'' \<or> c = CHR ''-'' \<or> is_letter c \<or> is_digit c"

section \<open>Scanning\<close>

text \<open>After the opening quote: the raw text up to the closing quote, and the rest. A backslash (92) escapes.\<close>

fun scanOverrideString :: "string \<Rightarrow> (string \<times> string) option" where
  "scanOverrideString [] = None"
| "scanOverrideString (c # cs) =
     (if c = CHR 0x5C then
        (case cs of
           [] \<Rightarrow> None
         | d # ds \<Rightarrow> map_option (\<lambda>(raw, rest). (c # d # raw, rest)) (scanOverrideString ds))
      else if c = CHR 0x22 then Some ([], cs)
      else map_option (\<lambda>(raw, rest). (c # raw, rest)) (scanOverrideString cs))"

fun decodeOverrideString :: "string \<Rightarrow> string option" where
  "decodeOverrideString [] = Some []"
| "decodeOverrideString (c # cs) =
     (if c \<noteq> CHR 0x5C then map_option (Cons c) (decodeOverrideString cs)
      else case cs of
        [] \<Rightarrow> None
      | d # ds \<Rightarrow>
          map_option (\<lambda>rest.
            if d = CHR 0x22 then CHR 0x22 # rest
            else if d = CHR ''n'' then CHR 0x0A # rest
            else if d = CHR 0x5C then CHR 0x5C # rest
            else CHR 0x5C # d # rest) (decodeOverrideString ds))"

text \<open>A number at the start of the text: what is read, and the rest.\<close>

definition span :: "('a \<Rightarrow> bool) \<Rightarrow> 'a list \<Rightarrow> 'a list \<times> 'a list" where
  "span P xs = (takeWhile P xs, dropWhile P xs)"

definition scan_fraction :: "string \<Rightarrow> string \<times> string" where
  "scan_fraction s =
     (case s of
        c # cs \<Rightarrow> if c = CHR ''.'' then (let (ds, rest) = span is_digit cs in (c # ds, rest)) else ([], s)
      | [] \<Rightarrow> ([], s))"

definition scan_exponent :: "string \<Rightarrow> string \<times> string" where
  "scan_exponent s =
     (case s of
        c # cs \<Rightarrow>
          if c = CHR ''e'' \<or> c = CHR ''E'' then
            let (sign, cs) = (case cs of
                d # ds \<Rightarrow> if d = CHR ''+'' \<or> d = CHR ''-'' then ([d], ds) else ([], cs)
              | [] \<Rightarrow> ([], cs));
                (ds, rest) = span is_digit cs in
            (c # sign @ ds, rest)
          else ([], s)
      | [] \<Rightarrow> ([], s))"

definition scanOverrideNumber :: "string \<Rightarrow> string \<times> string" where
  "scanOverrideNumber s =
     (case s of
        z # x # cs \<Rightarrow>
          if z = CHR ''0'' \<and> (x = CHR ''x'' \<or> x = CHR ''X'') then
            let (hs, rest) = span is_hex_digit cs in (z # x # hs, rest)
          else
            let (ds, r1) = span is_digit s; (fs, r2) = scan_fraction r1; (es, r3) = scan_exponent r2 in
            (ds @ fs @ es, r3)
      | _ \<Rightarrow>
            let (ds, r1) = span is_digit s; (fs, r2) = scan_fraction r1; (es, r3) = scan_exponent r2 in
            (ds @ fs @ es, r3))"

lemma span_append: "span P xs = (a, b) \<Longrightarrow> xs = a @ b"
  by (auto simp: span_def)

lemma scan_fraction_append: "scan_fraction s = (a, b) \<Longrightarrow> s = a @ b"
  by (auto simp: scan_fraction_def Let_def span_def split: list.splits if_splits)

lemma scan_exponent_append: "scan_exponent s = (a, b) \<Longrightarrow> s = a @ b"
  by (auto simp: scan_exponent_def Let_def span_def split: list.splits if_splits)

lemma scanOverrideNumber_append: "scanOverrideNumber s = (a, b) \<Longrightarrow> s = a @ b"
  by (auto simp: scanOverrideNumber_def Let_def split: list.splits if_splits prod.splits
      dest!: span_append scan_fraction_append scan_exponent_append)

lemma scanOverrideNumber_digit:
  "is_digit c \<Longrightarrow> scanOverrideNumber (c # cs) = (a, b) \<Longrightarrow> a \<noteq> [] \<and> length b \<le> length cs"
proof -
  assume c: "is_digit c" and run: "scanOverrideNumber (c # cs) = (a, b)"
  have "a \<noteq> []" using c run
    by (auto simp: scanOverrideNumber_def Let_def span_def split: list.splits if_splits prod.splits)
  moreover have "c # cs = a @ b" using scanOverrideNumber_append[OF run] .
  ultimately show ?thesis by (cases a) auto
qed

lemma scanOverrideString_length:
  "scanOverrideString s = Some (raw, rest) \<Longrightarrow> length s = length raw + length rest + 1"
  by (induction s arbitrary: raw rest rule: scanOverrideString.induct) (auto split: if_splits list.splits)

section \<open>The lexer\<close>

definition next_is :: "char \<Rightarrow> string \<Rightarrow> bool" where
  "next_is c s = (case s of d # _ \<Rightarrow> d = c | [] \<Rightarrow> False)"

text \<open>The tokens of one byte, and those that a second byte extends.\<close>

definition single_kind :: "char \<Rightarrow> token_kind option" where
  "single_kind c = map_of
     [(CHR ''.'', TDot), (CHR ''('', TLeftParen), (CHR '')'', TRightParen), (CHR ''['', TLeftBracket),
      (CHR '']'', TRightBracket), (CHR ''{'', TLeftBrace), (CHR ''}'', TRightBrace), (CHR '','', TComma),
      (CHR '';'', TSemicolon), (CHR '':'', TColon), (CHR ''%'', TModulo), (CHR ''~'', TIdentifier)] c"

definition double_kind :: "char \<Rightarrow> (token_kind \<times> char \<times> token_kind) option" where
  "double_kind c = map_of
     [(CHR ''|'', TPipe, CHR ''='', TUpdateAssign), (CHR ''+'', TPlus, CHR ''='', TAddAssign),
      (CHR ''-'', TMinus, CHR ''='', TSubtractAssign), (CHR ''*'', TMultiply, CHR ''='', TMultiplyAssign),
      (CHR ''/'', TDivide, CHR ''/'', TAlternative), (CHR ''='', TAssign, CHR ''='', TEqual),
      (CHR ''<'', TLess, CHR ''='', TLessEqual), (CHR ''>'', TGreater, CHR ''='', TGreaterEqual)] c"

text \<open>One token at the start of the text, after spaces and before a comment; \<open>None\<close> is an error.\<close>

definition lex_token :: "char \<Rightarrow> string \<Rightarrow> (otoken \<times> string) option" where
  "lex_token c cs =
     (case single_kind c of
        Some kind \<Rightarrow> Some (tok kind [c], cs)
      | None \<Rightarrow>
          (case double_kind c of
             Some (kind, d, longer) \<Rightarrow>
               if next_is d cs then Some (tok longer [c, d], tl cs) else Some (tok kind [c], cs)
           | None \<Rightarrow>
               if c = CHR ''!'' then (if next_is CHR ''='' cs then Some (tok TNotEqual ''!='', tl cs) else None)
               else if c = CHR 0x22 then
                 map_option (\<lambda>(raw, rest). (tok TString raw, rest)) (scanOverrideString cs)
               else if is_digit c then
                 let (number, rest) = scanOverrideNumber (c # cs) in Some (tok TNumber number, rest)
               else if isOverrideIdentifierStart c then
                 let (part, rest) = span isOverrideIdentifierPart cs in Some (tok TIdentifier (c # part), rest)
               else None))"

text \<open>The length that a token takes in the source.\<close>

definition tok_width :: "otoken \<Rightarrow> nat" where
  "tok_width t = (if tk_kind t = TString then length (tk_text t) + 2 else 1)"

lemma tok_width_pos: "0 < tok_width t"
  by (simp add: tok_width_def)

lemma lex_token_width:
  "lex_token c cs = Some (t, rest) \<Longrightarrow> tok_width t + length rest \<le> Suc (length cs)"
proof -
  assume run: "lex_token c cs = Some (t, rest)"
  consider kind where "single_kind c = Some kind"
    | kind d longer where "single_kind c = None" "double_kind c = Some (kind, d, longer)"
    | "single_kind c = None" "double_kind c = None" by (cases "single_kind c"; cases "double_kind c") auto
  then show ?thesis
  proof cases
    case 1
    then show ?thesis using run by (auto simp: lex_token_def tok_width_def single_kind_def split: if_splits)
  next
    case 2
    then have "kind \<noteq> TString" "longer \<noteq> TString" by (auto simp: double_kind_def split: if_splits)
    then show ?thesis using run 2 by (auto simp: lex_token_def tok_width_def split: if_splits)
  next
    case 3
    show ?thesis
    proof (cases "c \<noteq> CHR ''!'' \<and> c \<noteq> CHR 0x22 \<and> is_digit c")
      case True
      then show ?thesis using run 3 scanOverrideNumber_digit[of c cs]
        by (cases "scanOverrideNumber (c # cs)") (auto simp: lex_token_def tok_width_def)
    next
      case False
      then show ?thesis using run 3
        by (auto simp: lex_token_def tok_width_def span_def Let_def dest!: scanOverrideString_length
            split: if_splits intro: order_trans[OF length_dropWhile_le])
    qed
  qed
qed

function lexOverrideExpr :: "string \<Rightarrow> otoken list option" where
  "lexOverrideExpr s =
     (case s of
        [] \<Rightarrow> Some []
      | c # cs \<Rightarrow>
          if is_space c then lexOverrideExpr cs
          else if c = CHR ''#'' then Some []
          else case lex_token c cs of
            None \<Rightarrow> None
          | Some (t, rest) \<Rightarrow> map_option (Cons t) (lexOverrideExpr rest))"
  by pat_completeness auto
termination
proof (relation "measure length", goal_cases)
  case (3 s c cs p t rest)
  then show ?case using lex_token_width[of c cs t rest] tok_width_pos[of t] by simp
qed auto

declare lexOverrideExpr.simps [simp del]

lemma lex_Nil [simp]: "lexOverrideExpr [] = Some []"
  by (simp add: lexOverrideExpr.simps)

lemma lex_Cons: "lexOverrideExpr (c # cs) =
    (if is_space c then lexOverrideExpr cs
     else if c = CHR ''#'' then Some []
     else case lex_token c cs of
       None \<Rightarrow> None | Some (t, rest) \<Rightarrow> map_option (Cons t) (lexOverrideExpr rest))"
  by (subst lexOverrideExpr.simps) simp

text \<open>The tokens take no more room than the source.\<close>

lemma lex_width: "lexOverrideExpr s = Some ts \<Longrightarrow> sum_list (map tok_width ts) \<le> length s"
proof (induction s arbitrary: ts rule: lexOverrideExpr.induct)
  case (1 s)
  show ?case
  proof (cases s)
    case Nil
    then show ?thesis using "1.prems" by (simp add: lex_Nil)
  next
    case (Cons c cs)
    consider "is_space c" | "\<not> is_space c" "c = CHR ''#''" | "\<not> is_space c" "c \<noteq> CHR ''#''" by blast
    then show ?thesis
    proof cases
      case 1
      then have "lexOverrideExpr cs = Some ts" using "1.prems" Cons by (simp add: lex_Cons)
      then show ?thesis using "1.IH"(1)[OF Cons 1] Cons by (simp add: le_SucI)
    next
      case 2
      then show ?thesis using "1.prems" Cons by (simp add: lex_Cons)
    next
      case 3
      then obtain t rest ts' where t: "lex_token c cs = Some (t, rest)" "lexOverrideExpr rest = Some ts'" "ts = t # ts'"
        using "1.prems" Cons by (auto simp: lex_Cons split: option.splits)
      then show ?thesis using "1.IH"(2)[OF Cons 3 t(1) refl t(2)] lex_token_width[OF t(1)] Cons by simp
    qed
  qed
qed

end
