(* ===== verification/OverrideExpr.thy ===== *)
theory OverrideExpr
  imports OverridePath OverrideLex
begin

text \<open>
  Override expressions and their evaluation (\<open>override_expr.go\<close>, the types that implement
  \<open>overrideValueExpr\<close>). An expression produces a list of results; \<open>None\<close> is an error. The method \<open>eval\<close> of
  every expression is \<open>evalOverrideSingle\<close> of its results, so only the results are defined.
\<close>

section \<open>Expressions\<close>

datatype oexpr =
  LiteralExpr oval
| StringExpr "(string + oexpr) list"
| PathExpr opath
| ArrayExpr "oexpr list"
| MapExpr "(string \<times> oexpr) list"
| ValueUpdateExpr opath token_kind oexpr
| BinaryExpr string oexpr oexpr
| FunctionExpr string "oexpr list"
| StreamFunctionExpr string "oexpr list"
| PipelineExpr "oexpr list"
| UnionExpr "oexpr list"

text \<open>Results of one call after the other.\<close>

fun collect :: "('a \<Rightarrow> 'b list option) \<Rightarrow> 'a list \<Rightarrow> 'b list option" where
  "collect f [] = Some []"
| "collect f (x # xs) =
     (case f x of None \<Rightarrow> None | Some ys \<Rightarrow> map_option (\<lambda>zs. ys @ zs) (collect f xs))"

lemma collect_cong [fundef_cong]:
  "xs = ys \<Longrightarrow> (\<And>x. x \<in> set ys \<Longrightarrow> f x = g x) \<Longrightarrow> collect f xs = collect g ys"
  by (induction ys arbitrary: xs) (auto split: option.splits)

lemma collect_append:
  "collect f (xs @ ys) = (case collect f xs of None \<Rightarrow> None | Some a \<Rightarrow> map_option (\<lambda>b. a @ b) (collect f ys))"
  by (induction xs) (auto split: option.splits simp: map_option_case)

lemma collect_Some: "(\<And>x. x \<in> set xs \<Longrightarrow> f x = Some (g x)) \<Longrightarrow> collect f xs = Some (concat (map g xs))"
  by (induction xs) auto

text \<open>\<open>evalOverrideSingle\<close>, given the results, and the results of a call of \<open>eval\<close>.\<close>

definition single_of :: "oval list option \<Rightarrow> oval option" where
  "single_of r =
     (case r of None \<Rightarrow> None | Some [] \<Rightarrow> Some VNoMatch | Some [v] \<Rightarrow> Some v | Some (_ # _ # _) \<Rightarrow> None)"

definition stream_of :: "oval option \<Rightarrow> oval list option" where
  "stream_of r = map_option (\<lambda>v. if v = VNoMatch then [] else [v]) r"

fun opt_map :: "('a \<Rightarrow> 'b option) \<Rightarrow> 'a list \<Rightarrow> 'b list option" where
  "opt_map f [] = Some []"
| "opt_map f (x # xs) = (case f x of None \<Rightarrow> None | Some y \<Rightarrow> map_option (Cons y) (opt_map f xs))"

lemma opt_map_cong [fundef_cong]:
  "xs = ys \<Longrightarrow> (\<And>x. x \<in> set ys \<Longrightarrow> f x = g x) \<Longrightarrow> opt_map f xs = opt_map g ys"
  by (induction ys arbitrary: xs) (auto split: option.splits)

section \<open>Functions of one value\<close>

text \<open>\<open>overrideFunctionExpr.eval\<close> once the arguments are evaluated, one definition per case.\<close>

definition string_arg :: "oval list \<Rightarrow> nat \<Rightarrow> string option" where
  "string_arg args i = (case args ! i of VStr s \<Rightarrow> Some s | _ \<Rightarrow> None)"

definition no_args :: "oval list \<Rightarrow> 'a option \<Rightarrow> 'a option" where
  "no_args args r = (if args = [] then r else None)"

definition of_array :: "oval \<Rightarrow> (oval list \<Rightarrow> oval option) \<Rightarrow> oval option" where
  "of_array input f = (case input of VList xs \<Rightarrow> f xs | _ \<Rightarrow> None)"

definition fn_select :: "oval list \<Rightarrow> oval \<Rightarrow> oval option" where
  "fn_select args input =
     (if length args \<noteq> 1 then None
      else if args ! 0 = VNoMatch \<or> \<not> overrideTruthy (args ! 0) then Some VNoMatch else Some input)"

definition fn_unique :: "oenv \<Rightarrow> oval list \<Rightarrow> oval \<Rightarrow> oval option" where
  "fn_unique E args input = no_args args (of_array input (\<lambda>xs. map_option VList (unique_loop E [] xs)))"

definition fn_flatten :: "oenv \<Rightarrow> oval list \<Rightarrow> oval \<Rightarrow> oval option" where
  "fn_flatten E args input =
     (if length args > 1 then None
      else of_array input (\<lambda>xs.
        case args of
          [] \<Rightarrow> Some (VList (flattenOverrideArray xs (- 1)))
        | arg # _ \<Rightarrow>
            (case overrideNumber arg of
               Some (n, True) \<Rightarrow>
                 if flt n (Fin 0) then None else Some (VList (flattenOverrideArray xs (to_int E n)))
             | _ \<Rightarrow> None)))"

definition fn_any_all :: "bool \<Rightarrow> oval list \<Rightarrow> oval \<Rightarrow> oval option" where
  "fn_any_all all args input = no_args args (of_array input (\<lambda>xs.
     Some (VBool (if all then list_all overrideTruthy xs else list_ex overrideTruthy xs))))"

definition fn_length :: "oenv \<Rightarrow> oval list \<Rightarrow> oval \<Rightarrow> oval option" where
  "fn_length E args input = no_args args
     (case input of
        VNull \<Rightarrow> Some (vint 0)
      | VStr s \<Rightarrow> Some (vint (int (length s)))
      | VList xs \<Rightarrow> Some (vint (int (length xs)))
      | VMap m \<Rightarrow> Some (vint (int (length m)))
      | VNoMatch \<Rightarrow> None
      | _ \<Rightarrow> Some (vint (int (length (sprint E input)))))"

definition fn_keys :: "oval list \<Rightarrow> oval \<Rightarrow> oval option" where
  "fn_keys args input = no_args args
     (case input of
        VMap m \<Rightarrow> Some (VList (map (\<lambda>(k, v). VStr k) m))
      | VList xs \<Rightarrow> Some (VList (map (\<lambda>i. vint (int i)) [0..<length xs]))
      | _ \<Rightarrow> None)"

definition fn_has :: "oenv \<Rightarrow> oval list \<Rightarrow> oval \<Rightarrow> oval option" where
  "fn_has E args input =
     (if length args \<noteq> 1 then None
      else case input of
        VMap m \<Rightarrow> map_option (\<lambda>key. VBool (map_of m key \<noteq> None)) (string_arg args 0)
      | VList xs \<Rightarrow>
          (case overrideNumber (args ! 0) of
             Some (n, True) \<Rightarrow>
               let index = array_index (to_int E n) xs in Some (VBool (0 \<le> index \<and> index < int (length xs)))
           | _ \<Rightarrow> Some (VBool False))
      | _ \<Rightarrow> Some (VBool False))"

definition fn_contains :: "oval list \<Rightarrow> oval \<Rightarrow> oval option" where
  "fn_contains args input =
     (if length args \<noteq> 1 then None
      else case input of
        VStr s \<Rightarrow> map_option (\<lambda>needle. VBool (Contains s needle)) (string_arg args 0)
      | VList xs \<Rightarrow> (case args ! 0 of VList ys \<Rightarrow> Some (VBool (overrideContains input (args ! 0))) | _ \<Rightarrow> None)
      | VMap m \<Rightarrow> (case args ! 0 of VMap n \<Rightarrow> Some (VBool (overrideContains input (args ! 0))) | _ \<Rightarrow> None)
      | _ \<Rightarrow>
          if \<not> isOverrideScalar (args ! 0) then None
          else if overrideType input \<noteq> overrideType (args ! 0) then Some (VBool False)
          else Some (VBool (overrideEqual input (args ! 0))))"

definition fn_regexp :: "oenv \<Rightarrow> bool \<Rightarrow> oval list \<Rightarrow> oval \<Rightarrow> oval option" where
  "fn_regexp E test args input =
     (if (if test then length args \<noteq> 1 \<and> length args \<noteq> 2 else length args \<noteq> 2) then None
      else if test \<and> length args = 2 \<and>
        (case string_arg args 1 of None \<Rightarrow> True | Some options \<Rightarrow> \<not> list_all (\<lambda>c. c = CHR ''g'') options) then None
      else case (input, string_arg args 0) of
        (VStr s, Some pattern) \<Rightarrow>
          (case oe_regexp E pattern of
             None \<Rightarrow> None
           | Some (matches, replace) \<Rightarrow>
               if test then Some (VBool (matches s))
               else map_option (\<lambda>replacement. VStr (replace s replacement)) (string_arg args 1))
      | _ \<Rightarrow> None)"

definition fn_split :: "oval list \<Rightarrow> oval \<Rightarrow> oval option" where
  "fn_split args input =
     (if length args \<noteq> 1 then None
      else case input of
        VNull \<Rightarrow> Some VNoMatch
      | VStr s \<Rightarrow> map_option (\<lambda>separator. VList (map VStr (str_split s separator))) (string_arg args 0)
      | _ \<Rightarrow> None)"

definition join_part :: "oenv \<Rightarrow> oval \<Rightarrow> string" where
  "join_part E v = (case v of VNull \<Rightarrow> [] | VList xs \<Rightarrow> [] | VMap m \<Rightarrow> [] | VStr s \<Rightarrow> s | _ \<Rightarrow> sprint E v)"

definition fn_join :: "oenv \<Rightarrow> oval list \<Rightarrow> oval \<Rightarrow> oval option" where
  "fn_join E args input =
     (if length args \<noteq> 1 then None
      else of_array input (\<lambda>xs. map_option (\<lambda>separator. VStr (str_join separator (map (join_part E) xs))) (string_arg args 0)))"

definition fn_string :: "(string \<Rightarrow> string) \<Rightarrow> oval list \<Rightarrow> oval \<Rightarrow> oval option" where
  "fn_string f args input = no_args args (case input of VStr s \<Rightarrow> Some (VStr (f s)) | _ \<Rightarrow> None)"

definition trim_newline :: "string \<Rightarrow> string" where
  "trim_newline s = (if s \<noteq> [] \<and> last s = CHR 0x0A then butlast s else s)"

definition fn_tostring :: "oenv \<Rightarrow> oval list \<Rightarrow> oval \<Rightarrow> oval option" where
  "fn_tostring E args input = no_args args
     (case input of VStr s \<Rightarrow> Some input | _ \<Rightarrow> map_option (\<lambda>s. VStr (trim_newline s)) (oe_yaml E input))"

text \<open>\<open>strconv.ParseInt\<close> with a base and 64 bits (without the underscores that base 0 allows).\<close>

definition hex_val :: "char \<Rightarrow> nat option" where
  "hex_val c = (let n = (of_char c :: nat) in
     if 48 \<le> n \<and> n \<le> 57 then Some (n - 48)
     else if 97 \<le> n \<and> n \<le> 122 then Some (n - 87)
     else if 65 \<le> n \<and> n \<le> 90 then Some (n - 55) else None)"

fun parse_base :: "nat \<Rightarrow> nat \<Rightarrow> string \<Rightarrow> nat option" where
  "parse_base base acc [] = Some acc"
| "parse_base base acc (c # cs) =
     (case hex_val c of
        Some d \<Rightarrow> if d < base then parse_base base (acc * base + d) cs else None
      | None \<Rightarrow> None)"

definition parse_int_base :: "nat \<Rightarrow> string \<Rightarrow> int option" where
  "parse_int_base base s =
     (case s of
        [] \<Rightarrow> None
      | c # cs \<Rightarrow>
          let neg = (c = CHR ''-'');
              body = (if c = CHR ''-'' \<or> c = CHR ''+'' then cs else s) in
          if body = [] then None
          else case parse_base base 0 body of
            None \<Rightarrow> None
          | Some n \<Rightarrow>
              if \<not> neg \<and> n < 2 ^ 63 then Some (int n) else if neg \<and> n \<le> 2 ^ 63 then Some (- int n) else None)"

definition fn_tonumber :: "oenv \<Rightarrow> oval list \<Rightarrow> oval \<Rightarrow> oval option" where
  "fn_tonumber E args input = no_args args
     (if overrideNumber input \<noteq> None then Some input
      else case input of
        VStr s \<Rightarrow>
          if HasPrefix s ''0b'' \<or> HasPrefix s ''0B'' then None
          else
            let (base, digits) = (if HasPrefix s ''0x'' \<or> HasPrefix s ''0X'' then (16, drop 2 s)
                else if HasPrefix s ''0o'' then (8, drop 2 s) else (10, s)) in
            (case parse_int_base base digits of
               Some n \<Rightarrow> Some (vint n)
             | None \<Rightarrow> map_option (VFloat KFloat64) (oe_parse_float E s))
      | _ \<Rightarrow> None)"

definition override_function :: "oenv \<Rightarrow> string \<Rightarrow> oval list \<Rightarrow> oval \<Rightarrow> oval option" where
  "override_function E name args input =
     (if input = VNoMatch then Some input
      else if name = ''select'' then fn_select args input
      else if name = ''not'' then no_args args (Some (VBool (\<not> overrideTruthy input)))
      else if name = ''reverse'' then no_args args (of_array input (\<lambda>xs. Some (VList (rev xs))))
      else if name = ''sort'' then no_args args (of_array input (\<lambda>xs. map_option VList (override_sort xs)))
      else if name = ''unique'' then fn_unique E args input
      else if name = ''flatten'' then fn_flatten E args input
      else if name = ''any'' then fn_any_all False args input
      else if name = ''all'' then fn_any_all True args input
      else if name = ''length'' then fn_length E args input
      else if name = ''type'' then no_args args (Some (VStr (overrideType input)))
      else if name = ''keys'' then fn_keys args input
      else if name = ''has'' then fn_has E args input
      else if name = ''contains'' then fn_contains args input
      else if name = ''sub'' then fn_regexp E False args input
      else if name = ''test'' then fn_regexp E True args input
      else if name = ''split'' then fn_split args input
      else if name = ''join'' then fn_join E args input
      else if name = ''upcase'' then fn_string (oe_upper E) args input
      else if name = ''downcase'' then fn_string (oe_lower E) args input
      else if name = ''trim'' then fn_string TrimSpace args input
      else if name = ''tostring'' then fn_tostring E args input
      else if name = ''tonumber'' then fn_tonumber E args input
      else None)"

section \<open>Stream functions\<close>

text \<open>\<open>overrideStreamFunctionExpr.evalAll\<close>. \<open>none\<close> says that there are no arguments; \<open>each\<close> evaluates all
  arguments on one value (\<open>evalOverrideExpressionList\<close>) and \<open>batch\<close> each argument on all values, one
  argument after the other.\<close>

definition sf_map :: "bool \<Rightarrow> (oval list \<Rightarrow> oval list option) \<Rightarrow> oval \<Rightarrow> oval list option" where
  "sf_map none batch input =
     (if none then None
      else case overrideCollectionValues input of
        None \<Rightarrow> None | Some vs \<Rightarrow> map_option (\<lambda>items. [VList items]) (batch vs))"

fun filter_loop :: "(oval \<Rightarrow> oval list option) \<Rightarrow> oval list \<Rightarrow> oval list option" where
  "filter_loop each [] = Some []"
| "filter_loop each (v # vs) =
     (case each v of
        None \<Rightarrow> None
      | Some items \<Rightarrow>
          map_option (\<lambda>rest. if list_ex overrideTruthy items then v # rest else rest) (filter_loop each vs))"

definition sf_filter :: "bool \<Rightarrow> (oval \<Rightarrow> oval list option) \<Rightarrow> oval \<Rightarrow> oval list option" where
  "sf_filter none each input =
     (if none then None
      else case overrideCollectionValues input of
        None \<Rightarrow> None | Some vs \<Rightarrow> map_option (\<lambda>kept. [VList kept]) (filter_loop each vs))"

definition first_or :: "oval \<Rightarrow> oval list \<Rightarrow> oval" where
  "first_or v items = (case items of [] \<Rightarrow> v | x # _ \<Rightarrow> x)"

definition sf_map_values :: "bool \<Rightarrow> (oval \<Rightarrow> oval list option) \<Rightarrow> oval \<Rightarrow> oval list option" where
  "sf_map_values none each input =
     (if none then None
      else case input of
        VList xs \<Rightarrow> map_option (\<lambda>ys. [VList ys]) (opt_map (\<lambda>x. map_option (first_or x) (each x)) xs)
      | VMap m \<Rightarrow>
          map_option (\<lambda>n. [VMap n]) (opt_map (\<lambda>(k, x). map_option (\<lambda>items. (k, first_or x items)) (each x)) m)
      | _ \<Rightarrow> None)"

definition sf_to_entries :: "bool \<Rightarrow> oval \<Rightarrow> oval list option" where
  "sf_to_entries none input =
     (if \<not> none then None
      else map_option (\<lambda>r. case r of None \<Rightarrow> [] | Some entries \<Rightarrow> [VList entries]) (toOverrideEntries input))"

definition sf_from_entries :: "bool \<Rightarrow> oval \<Rightarrow> oval list option" where
  "sf_from_entries none input =
     (if \<not> none then None else map_option (\<lambda>m. [VMap m]) (fromOverrideEntries input))"

definition sf_with_entries :: "bool \<Rightarrow> (oval \<Rightarrow> oval list option) \<Rightarrow> oval \<Rightarrow> oval list option" where
  "sf_with_entries none each input =
     (if none then None
      else case input of
        VMap m \<Rightarrow>
          (case toOverrideEntries input of
             Some (Some entries) \<Rightarrow>
               (case collect each entries of
                  None \<Rightarrow> None
                | Some transformed \<Rightarrow> map_option (\<lambda>n. [VMap n]) (fromOverrideEntries (VList transformed)))
           | _ \<Rightarrow> None)
      | _ \<Rightarrow> None)"

text \<open>The loop of \<open>any_c\<close> and \<open>all_c\<close>: it stops at the first value that decides.\<close>

fun any_all_loop :: "bool \<Rightarrow> (oval \<Rightarrow> oval list option) \<Rightarrow> oval list \<Rightarrow> bool option" where
  "any_all_loop all each [] = Some all"
| "any_all_loop all each (v # vs) =
     (case each v of
        None \<Rightarrow> None
      | Some [] \<Rightarrow> any_all_loop all each vs
      | Some (x # _) \<Rightarrow>
          if overrideTruthy x \<noteq> all then Some (\<not> all) else any_all_loop all each vs)"

definition sf_any_all :: "bool \<Rightarrow> bool \<Rightarrow> (oval \<Rightarrow> oval list option) \<Rightarrow> oval \<Rightarrow> oval list option" where
  "sf_any_all all none each input =
     (if none then None
      else case input of VList xs \<Rightarrow> map_option (\<lambda>b. [VBool b]) (any_all_loop all each xs) | _ \<Rightarrow> None)"

definition override_stream_function ::
  "string \<Rightarrow> bool \<Rightarrow> (oval \<Rightarrow> oval list option) \<Rightarrow> (oval list \<Rightarrow> oval list option) \<Rightarrow> oval \<Rightarrow> oval list option" where
  "override_stream_function name none each batch input =
     (if name = ''map'' then sf_map none batch input
      else if name = ''filter'' then sf_filter none each input
      else if name = ''map_values'' then sf_map_values none each input
      else if name = ''to_entries'' then sf_to_entries none input
      else if name = ''from_entries'' then sf_from_entries none input
      else if name = ''with_entries'' then sf_with_entries none each input
      else if name = ''any_c'' then sf_any_all False none each input
      else if name = ''all_c'' then sf_any_all True none each input
      else None)"

section \<open>Evaluation\<close>

definition assign_operator :: "token_kind \<Rightarrow> string" where
  "assign_operator k =
     (if k = TAddAssign then ''+'' else if k = TSubtractAssign then ''-''
      else if k = TMultiplyAssign then ''*'' else [])"

text \<open>One part of an interpolated string, given its results.\<close>

definition part_string :: "oenv \<Rightarrow> oval list \<Rightarrow> string option" where
  "part_string E vs =
     (case vs of
        [] \<Rightarrow> Some []
      | v # _ \<Rightarrow>
          (case v of
             VStr s \<Rightarrow> Some s
           | _ \<Rightarrow>
               if isOverrideScalar v then Some (if v = VNull then ''null'' else sprint E v)
               else map_option trim_newline (oe_yaml E v)))"

text \<open>The updater of \<open>|=\<close>: no match leaves the old value.\<close>

definition update_old :: "oval option \<Rightarrow> oval \<Rightarrow> oval option" where
  "update_old r old = map_option (\<lambda>v. if v = VNoMatch then old else v) r"

text \<open>The binary operators on the results of the left side; \<open>right\<close> is evaluated only when needed.\<close>

definition binary_alternative :: "oval list \<Rightarrow> oval list option \<Rightarrow> oval list option" where
  "binary_alternative lefts right =
     (if lefts = [] then right
      else collect (\<lambda>l. if overrideTruthy l then Some [l] else right) lefts)"

definition binary_results :: "oenv \<Rightarrow> string \<Rightarrow> oval list \<Rightarrow> oval list option \<Rightarrow> oval list option" where
  "binary_results E operator lefts right =
     (if operator = ''//'' then binary_alternative lefts right
      else
        let stops = (\<lambda>l. operator = ''and'' \<and> \<not> overrideTruthy l \<or> operator = ''or'' \<and> overrideTruthy l) in
        if (operator = ''and'' \<or> operator = ''or'') \<and> list_all stops lefts
        then Some (map (\<lambda>l. VBool (operator = ''or'' \<and> overrideTruthy l)) lefts)
        else case right of
          None \<Rightarrow> None
        | Some rights \<Rightarrow>
            collect (\<lambda>l. if stops l then Some [VBool (operator = ''or'')]
              else opt_map (evaluateOverrideBinary E operator l) rights) lefts)"

lemma size_in_list: "x \<in> set xs \<Longrightarrow> Suc (f x) \<le> size_list f xs"
  by (induction xs) auto

function (sequential) evalOverrideStream :: "oenv \<Rightarrow> oexpr \<Rightarrow> oval \<Rightarrow> oval list option"
  and evalOverrideStreamInputs :: "oenv \<Rightarrow> oexpr \<Rightarrow> oval list \<Rightarrow> oval list option"
  and evalStages :: "oenv \<Rightarrow> oexpr list \<Rightarrow> oval list \<Rightarrow> oval list option" where
  "evalOverrideStream E (LiteralExpr v) input = stream_of (Some v)"
| "evalOverrideStream E (StringExpr parts) input =
     map_option (\<lambda>strings. [VStr (concat strings)])
       (opt_map (\<lambda>part. case part of
          Inl literal \<Rightarrow> Some literal
        | Inr e \<Rightarrow> (case evalOverrideStream E e input of None \<Rightarrow> None | Some vs \<Rightarrow> part_string E vs)) parts)"
| "evalOverrideStream E (PathExpr path) input = Some (lookupOverridePathStream input path)"
| "evalOverrideStream E (ArrayExpr es) input =
     map_option (\<lambda>items. [VList items]) (collect (\<lambda>e. evalOverrideStream E e input) es)"
| "evalOverrideStream E (MapExpr entries) input =
     map_option (\<lambda>rs. [VMap (fold (\<lambda>(key, vs) m. if vs = [] then m else map_put key (last vs) m) rs [])])
       (opt_map (\<lambda>(key, e). map_option (\<lambda>vs. (key, vs)) (evalOverrideStream E e input)) entries)"
| "evalOverrideStream E (ValueUpdateExpr path operator e) input =
     stream_of
       (if operator = TUpdateAssign then
          updateOverridePath (\<lambda>old. update_old (single_of (evalOverrideStream E e old)) old) input path
        else case single_of (evalOverrideStream E e input) of
          None \<Rightarrow> None
        | Some v \<Rightarrow>
            if operator = TAssign then
              (if v = VNoMatch then Some input else updateOverridePath (\<lambda>old. Some v) input path)
            else updateOverridePath (\<lambda>old. evaluateOverrideBinary E (assign_operator operator) old v) input path)"
| "evalOverrideStream E (BinaryExpr operator left right) input =
     (case evalOverrideStream E left input of
        None \<Rightarrow> None
      | Some lefts \<Rightarrow> binary_results E operator lefts (evalOverrideStream E right input))"
| "evalOverrideStream E (FunctionExpr name args) input =
     stream_of
       (if input = VNoMatch then Some input
        else case opt_map (\<lambda>e. single_of (evalOverrideStream E e input)) args of
          None \<Rightarrow> None
        | Some vs \<Rightarrow> override_function E name vs input)"
| "evalOverrideStream E (StreamFunctionExpr name args) input =
     override_stream_function name (args = [])
       (\<lambda>v. collect (\<lambda>e. evalOverrideStream E e v) args) (\<lambda>vs. collect (\<lambda>e. evalOverrideStreamInputs E e vs) args) input"
| "evalOverrideStream E (PipelineExpr stages) input = evalStages E stages [input]"
| "evalOverrideStream E (UnionExpr es) input = collect (\<lambda>e. evalOverrideStreamInputs E e [input]) es"
| "evalOverrideStreamInputs E (UnionExpr es) inputs = collect (\<lambda>e. evalOverrideStreamInputs E e inputs) es"
| "evalOverrideStreamInputs E e inputs = collect (\<lambda>v. evalOverrideStream E e v) inputs"
| "evalStages E [] inputs = Some inputs"
| "evalStages E (e # stages) inputs =
     (case evalOverrideStreamInputs E e inputs of None \<Rightarrow> None | Some vs \<Rightarrow> evalStages E stages vs)"
  by pat_completeness auto

termination
proof (relation "measure (\<lambda>x. case x of Inl (E, e, v) \<Rightarrow> 2 * size e
    | Inr (Inl (E, e, vs)) \<Rightarrow> 2 * size e + 1 | Inr (Inr (E, es, vs)) \<Rightarrow> 2 * size_list size es + 1)", goal_cases)
qed (auto dest: size_in_list[where f = size] size_in_list[where f = "size_prod (\<lambda>x. 0) size"]
    size_in_list[where f = "size_sum (\<lambda>x. 0) size"])

declare evalOverrideStream.simps [simp del] evalOverrideStreamInputs.simps [simp del] evalStages.simps [simp del]

lemmas eval_simps = evalOverrideStream.simps evalOverrideStreamInputs.simps evalStages.simps

text \<open>\<open>evalOverrideSingle\<close>.\<close>

definition evalOverrideSingle :: "oenv \<Rightarrow> oexpr \<Rightarrow> oval \<Rightarrow> oval option" where
  "evalOverrideSingle E e input = single_of (evalOverrideStream E e input)"

lemma single_of_simps [simp]:
  "single_of None = None" "single_of (Some []) = Some VNoMatch" "single_of (Some [v]) = Some v"
  "single_of (Some (v # w # vs)) = None"
  by (simp_all add: single_of_def)

lemma single_of_stream_of [simp]: "single_of (stream_of r) = r"
  by (cases r) (auto simp: stream_of_def)

end
