(* ===== verification/OverrideApply.thy ===== *)
theory OverrideApply
  imports OverrideExpr Rules
begin

text \<open>
  The statements of override expressions and the override of a provider
  (\<open>adapter/provider/override_expr.go\<close> and \<open>override.go\<close>), and the loop of \<open>NewProxiesParser\<close>
  (\<open>provider.go\<close>) that applies it to the proxies of a provider. A statement maps the entries of the
  mapping to the new ones; \<open>None\<close> is an error, after which the callers drop the mapping.
\<close>

section \<open>Statements\<close>

datatype target_stage = StagePath opath | StageCondition oexpr

datatype ostatement =
  AssignStatement opath "target_stage list option" token_kind oexpr
| DeleteStatement "opath list"
| FilterStatement oexpr

type_synonym selection = "oval \<times> opath"

fun keep_matching :: "oenv \<Rightarrow> oexpr \<Rightarrow> selection list \<Rightarrow> selection list option" where
  "keep_matching E condition [] = Some []"
| "keep_matching E condition (sel # sels) =
     (case evalOverrideStream E condition (fst sel) of
        None \<Rightarrow> None
      | Some matches \<Rightarrow>
          map_option (\<lambda>rest. if list_ex overrideTruthy matches then sel # rest else rest)
            (keep_matching E condition sels))"

fun resolve_stages :: "oenv \<Rightarrow> target_stage list \<Rightarrow> selection list \<Rightarrow> selection list option" where
  "resolve_stages E [] sels = Some sels"
| "resolve_stages E (StagePath path # stages) sels =
     resolve_stages E stages (concat (map (\<lambda>(v, pre). expandOverrideTargetPath v pre path) sels))"
| "resolve_stages E (StageCondition condition # stages) sels =
     (case keep_matching E condition sels of None \<Rightarrow> None | Some sels \<Rightarrow> resolve_stages E stages sels)"

definition resolve_target :: "oenv \<Rightarrow> target_stage list \<Rightarrow> oval \<Rightarrow> selection list option" where
  "resolve_target E stages input = resolve_stages E stages [(input, [])]"

text \<open>The updater of a statement; \<open>Some None\<close>: the right side has no result, nothing is done.\<close>

definition assign_updater :: "oenv \<Rightarrow> token_kind \<Rightarrow> oexpr \<Rightarrow> oval \<Rightarrow> (oval \<Rightarrow> oval option) option option" where
  "assign_updater E operator e input =
     (if operator = TUpdateAssign then Some (Some (\<lambda>old. update_old (evalOverrideSingle E e old) old))
      else case evalOverrideSingle E e input of
        None \<Rightarrow> None
      | Some v \<Rightarrow>
          if v = VNoMatch then Some None
          else if operator = TAssign then Some (Some (\<lambda>old. Some v))
          else Some (Some (\<lambda>old. evaluateOverrideBinary E (assign_operator operator) old v)))"

text \<open>The updates of the selected paths, one after the other; the root must stay a mapping.\<close>

fun update_all :: "(oval \<Rightarrow> oval option) \<Rightarrow> opath list \<Rightarrow> omap \<Rightarrow> omap option" where
  "update_all f [] m = Some m"
| "update_all f (path # paths) m =
     (case updateOverridePath f (VMap m) path of Some (VMap n) \<Rightarrow> update_all f paths n | _ \<Rightarrow> None)"

definition apply_assign :: "oenv \<Rightarrow> opath \<Rightarrow> target_stage list option \<Rightarrow> token_kind \<Rightarrow> oexpr \<Rightarrow> omap \<Rightarrow> omap option" where
  "apply_assign E path target operator e m =
     (case assign_updater E operator e (VMap m) of
        None \<Rightarrow> None
      | Some None \<Rightarrow> Some m
      | Some (Some f) \<Rightarrow>
          (case target of
             None \<Rightarrow> update_all f [path] m
           | Some stages \<Rightarrow>
               (case resolve_target E stages (VMap m) of
                  None \<Rightarrow> None | Some sels \<Rightarrow> update_all f (map snd sels) m)))"

definition apply_filter :: "oenv \<Rightarrow> oexpr \<Rightarrow> omap \<Rightarrow> omap option" where
  "apply_filter E e m = (case evalOverrideSingle E e (VMap m) of Some (VMap n) \<Rightarrow> Some n | _ \<Rightarrow> None)"

definition apply_delete :: "opath list \<Rightarrow> omap \<Rightarrow> omap option" where
  "apply_delete paths m = (case deleteOverridePaths (VMap m) paths of VMap n \<Rightarrow> Some n | _ \<Rightarrow> None)"

fun apply_statement :: "oenv \<Rightarrow> ostatement \<Rightarrow> omap \<Rightarrow> omap option" where
  "apply_statement E (AssignStatement path target operator e) m = apply_assign E path target operator e m"
| "apply_statement E (DeleteStatement paths) m = apply_delete paths m"
| "apply_statement E (FilterStatement e) m = apply_filter E e m"

fun apply_expr :: "oenv \<Rightarrow> ostatement list \<Rightarrow> omap \<Rightarrow> omap option" where
  "apply_expr E [] m = Some m"
| "apply_expr E (s # ss) m = (case apply_statement E s m of None \<Rightarrow> None | Some n \<Rightarrow> apply_expr E ss n)"

section \<open>The override of a provider\<close>

text \<open>\<open>pn_Replace\<close> is \<open>Pattern.Replace\<close> with the target.\<close>

record override_schema =
  os_TFO :: "bool option"
  os_MPTcp :: "bool option"
  os_UDP :: "bool option"
  os_UDPOverTCP :: "bool option"
  os_Up :: "string option"
  os_Down :: "string option"
  os_DialerProxy :: "string option"
  os_SkipCertVerify :: "bool option"
  os_NameCertVerify :: "string option"
  os_Interface :: "string option"
  os_RoutingMark :: "int option"
  os_IPVersion :: "string option"
  os_AdditionalPrefix :: "string option"
  os_AdditionalSuffix :: "string option"
  os_ProxyName :: "(string \<Rightarrow> string option) list"
  os_OverrideExpr :: "ostatement list list"

definition put_opt :: "string \<Rightarrow> ('a \<Rightarrow> oval) \<Rightarrow> 'a option \<Rightarrow> omap \<Rightarrow> omap" where
  "put_opt key f x m = (case x of None \<Rightarrow> m | Some a \<Rightarrow> map_put key (f a) m)"

definition override_fields :: "override_schema \<Rightarrow> omap \<Rightarrow> omap" where
  "override_fields o' m =
     (let m = put_opt ''tfo'' VBool (os_TFO o') m;
          m = put_opt ''mptcp'' VBool (os_MPTcp o') m;
          m = put_opt ''udp'' VBool (os_UDP o') m;
          m = put_opt ''udp-over-tcp'' VBool (os_UDPOverTCP o') m;
          m = put_opt ''up'' VStr (os_Up o') m;
          m = put_opt ''down'' VStr (os_Down o') m;
          m = put_opt ''dialer-proxy'' VStr (os_DialerProxy o') m;
          m = put_opt ''skip-cert-verify'' VBool (os_SkipCertVerify o') m;
          m = put_opt ''name-cert-verify'' VStr (os_NameCertVerify o') m;
          m = put_opt ''interface-name'' VStr (os_Interface o') m;
          m = put_opt ''routing-mark'' vint (os_RoutingMark o') m in
      put_opt ''ip-version'' VStr (os_IPVersion o') m)"

text \<open>The replacements of the name, which panic when it is not a string.\<close>

fun replace_names :: "(string \<Rightarrow> string option) list \<Rightarrow> omap \<Rightarrow> omap option outcome" where
  "replace_names [] m = Ret (Some m)"
| "replace_names (r # rs) m =
     (case map_get m ''name'' of
        VStr name \<Rightarrow>
          (case r name of None \<Rightarrow> Ret None | Some new \<Rightarrow> replace_names rs (map_put ''name'' (VStr new) m))
      | _ \<Rightarrow> Panic ''interface conversion'')"

text \<open>What \<open>%s\<close> prints of a name; \<open>print_s\<close> for anything but a string.\<close>

definition name_text :: "(oval \<Rightarrow> string) \<Rightarrow> oval \<Rightarrow> string" where
  "name_text print_s v = (case v of VStr s \<Rightarrow> s | _ \<Rightarrow> print_s v)"

definition add_affixes :: "(oval \<Rightarrow> string) \<Rightarrow> override_schema \<Rightarrow> omap \<Rightarrow> omap" where
  "add_affixes print_s o' m =
     (let m = (case os_AdditionalPrefix o' of
            None \<Rightarrow> m | Some p \<Rightarrow> map_put ''name'' (VStr (p @ name_text print_s (map_get m ''name''))) m) in
      case os_AdditionalSuffix o' of
        None \<Rightarrow> m | Some s \<Rightarrow> map_put ''name'' (VStr (name_text print_s (map_get m ''name'') @ s)) m)"

fun apply_exprs :: "oenv \<Rightarrow> ostatement list list \<Rightarrow> omap \<Rightarrow> omap option" where
  "apply_exprs E [] m = Some m"
| "apply_exprs E (e # es) m = (case apply_expr E e m of None \<Rightarrow> None | Some n \<Rightarrow> apply_exprs E es n)"

definition overrideSchema_Apply :: "oenv \<Rightarrow> (oval \<Rightarrow> string) \<Rightarrow> override_schema \<Rightarrow> omap \<Rightarrow> omap option outcome" where
  "overrideSchema_Apply E print_s o' m =
     obind (replace_names (os_ProxyName o') (override_fields o' m)) (\<lambda>r.
       Ret (case r of
         None \<Rightarrow> None
       | Some m \<Rightarrow> apply_exprs E (os_OverrideExpr o') (add_affixes print_s o' m)))"

section \<open>The proxies of a provider\<close>

text \<open>What \<open>NewProxiesParser\<close> was given: the filter, the compiled expressions, the excluded types and
  the dialer proxy. \<open>parse\<close> is \<open>adapter.ParseProxy\<close>.\<close>

record 'p parser_config =
  pc_filter :: string
  pc_filterRegs :: "(string \<Rightarrow> bool) list"
  pc_excludeFilterRegs :: "(string \<Rightarrow> bool) list"
  pc_excludeTypes :: "string list"
  pc_dialerProxy :: string
  pc_override :: "omap \<Rightarrow> omap option outcome"
  pc_parse :: "omap \<Rightarrow> 'p option"

definition parser_regs ::
  "(string \<Rightarrow> (string \<Rightarrow> bool) option) \<Rightarrow> string \<Rightarrow> string \<Rightarrow> ((string \<Rightarrow> bool) list \<times> (string \<Rightarrow> bool) list) option" where
  "parser_regs compile proxyFilter excludeFilter =
     (case (if excludeFilter \<noteq> [] then opt_map compile (go_split CHR 0x60 excludeFilter) else Some []) of
        None \<Rightarrow> None
      | Some excl \<Rightarrow> map_option (\<lambda>regs. (regs, excl)) (opt_map compile (go_split CHR 0x60 proxyFilter)))"

text \<open>The checks before the override: the name of a mapping that is taken.\<close>

definition type_excluded :: "string list \<Rightarrow> omap \<Rightarrow> bool" where
  "type_excluded types m =
     (types \<noteq> [] \<and>
      (case map_of m ''type'' of
         Some (VStr t) \<Rightarrow> list_ex (EqualFold t) types
       | _ \<Rightarrow> True))"

definition taken_name :: "'p parser_config \<Rightarrow> (string \<Rightarrow> bool) \<Rightarrow> string list \<Rightarrow> omap \<Rightarrow> string option" where
  "taken_name cfg reg seen m =
     (if type_excluded (pc_excludeTypes cfg) m then None
      else case map_of m ''name'' of
        Some (VStr name) \<Rightarrow>
          if list_ex (\<lambda>r. r name) (pc_excludeFilterRegs cfg) then None
          else if pc_filter cfg \<noteq> [] \<and> \<not> reg name then None
          else if name \<in> set seen then None
          else Some name
      | _ \<Rightarrow> None)"

text \<open>One turn of the inner loop: the mapping as it is left, the names seen and the proxies. The mapping
  is changed in place, so the next filter meets it as the override left it.\<close>

definition parse_mapping ::
  "'p parser_config \<Rightarrow> (string \<Rightarrow> bool) \<Rightarrow> omap \<Rightarrow> string list \<times> 'p list \<Rightarrow> (omap \<times> string list \<times> 'p list) option outcome" where
  "parse_mapping cfg reg m acc =
     (case taken_name cfg reg (fst acc) m of
        None \<Rightarrow> Ret (Some (m, acc))
      | Some name \<Rightarrow>
          let m = (if pc_dialerProxy cfg \<noteq> [] then map_put ''dialer-proxy'' (VStr (pc_dialerProxy cfg)) m else m) in
          obind (pc_override cfg m) (\<lambda>r.
            Ret (case r of
              None \<Rightarrow> None
            | Some m \<Rightarrow>
                (case pc_parse cfg m of
                   None \<Rightarrow> None
                 | Some proxy \<Rightarrow> Some (m, name # fst acc, snd acc @ [proxy])))))"

fun parse_pass ::
  "'p parser_config \<Rightarrow> (string \<Rightarrow> bool) \<Rightarrow> omap list \<Rightarrow> string list \<times> 'p list \<Rightarrow> (omap list \<times> string list \<times> 'p list) option outcome" where
  "parse_pass cfg reg [] acc = Ret (Some ([], acc))"
| "parse_pass cfg reg (m # ms) acc =
     obind (parse_mapping cfg reg m acc) (\<lambda>r.
       case r of
         None \<Rightarrow> Ret None
       | Some (m, acc) \<Rightarrow>
           obind (parse_pass cfg reg ms acc) (\<lambda>r.
             Ret (map_option (\<lambda>(ms, acc). (m # ms, acc)) r)))"

fun parse_passes ::
  "'p parser_config \<Rightarrow> (string \<Rightarrow> bool) list \<Rightarrow> omap list \<Rightarrow> string list \<times> 'p list \<Rightarrow> (omap list \<times> string list \<times> 'p list) option outcome" where
  "parse_passes cfg [] ms acc = Ret (Some (ms, acc))"
| "parse_passes cfg (reg # regs) ms acc =
     obind (parse_pass cfg reg ms acc) (\<lambda>r.
       case r of None \<Rightarrow> Ret None | Some (ms, acc) \<Rightarrow> parse_passes cfg regs ms acc)"

text \<open>The parser after the file is decoded.\<close>

definition parse_proxies :: "'p parser_config \<Rightarrow> omap list \<Rightarrow> 'p list option outcome" where
  "parse_proxies cfg ms =
     obind (parse_passes cfg (pc_filterRegs cfg) ms ([], [])) (\<lambda>r.
       Ret (case r of
         None \<Rightarrow> None
       | Some (ms, seen, proxies) \<Rightarrow> if proxies = [] then None else Some proxies))"

end
