(* ===== verification/OverrideParse.thy ===== *)
theory OverrideParse
  imports OverrideApply
begin

text \<open>
  The parser of override expressions (\<open>overrideExprParser\<close> of \<open>override_expr.go\<close>). A parser takes the
  tokens from its position on and answers with what it read and the tokens that are left. The
  recursive parsers carry fuel; \<open>NewOverrideExpr\<close> gives them enough for every source.
\<close>

section \<open>Results\<close>

datatype 'a parsed = POk 'a "otoken list" | PErr | PFuel

fun pbind :: "'a parsed \<Rightarrow> ('a \<Rightarrow> otoken list \<Rightarrow> 'b parsed) \<Rightarrow> 'b parsed" where
  "pbind (POk x ts) f = f x ts"
| "pbind PErr f = PErr"
| "pbind PFuel f = PFuel"

definition peek :: "otoken list \<Rightarrow> token_kind" where
  "peek ts = (case ts of [] \<Rightarrow> TEOF | t # _ \<Rightarrow> tk_kind t)"

definition peekIdentifier :: "string \<Rightarrow> otoken list \<Rightarrow> bool" where
  "peekIdentifier name ts = (case ts of [] \<Rightarrow> False | t # _ \<Rightarrow> tk_kind t = TIdentifier \<and> tk_text t = name)"

text \<open>\<open>expect\<close>, in front of a continuation.\<close>

definition expect :: "token_kind \<Rightarrow> otoken list \<Rightarrow> (otoken list \<Rightarrow> 'a parsed) \<Rightarrow> 'a parsed" where
  "expect kind ts f = (case ts of [] \<Rightarrow> PErr | t # rest \<Rightarrow> if tk_kind t = kind then f rest else PErr)"

definition of_option :: "'a option \<Rightarrow> otoken list \<Rightarrow> 'a parsed" where
  "of_option r ts = (case r of None \<Rightarrow> PErr | Some x \<Rightarrow> POk x ts)"

definition isOverrideAssignmentToken :: "token_kind \<Rightarrow> bool" where
  "isOverrideAssignmentToken k \<longleftrightarrow>
     k \<in> {TAssign, TUpdateAssign, TAddAssign, TSubtractAssign, TMultiplyAssign}"

section \<open>Paths\<close>

definition pathField :: "otoken \<Rightarrow> string option" where
  "pathField t = (if tk_kind t = TIdentifier then Some (tk_text t) else decodeOverrideString (tk_text t))"

definition is_field :: "otoken \<Rightarrow> bool" where
  "is_field t \<longleftrightarrow> tk_kind t = TIdentifier \<or> tk_kind t = TString"

text \<open>What stands in brackets, with the closing one; \<open>strconv.Atoi\<close> reads the index.\<close>

definition bracket_segment :: "otoken list \<Rightarrow> (oseg \<times> otoken list) option" where
  "bracket_segment ts =
     (case ts of
        t # rest \<Rightarrow>
          if tk_kind t = TRightBracket then Some (WildSeg, rest)
          else
            let close = (\<lambda>seg ts. case ts of
                u # rest \<Rightarrow> if tk_kind u = TRightBracket then Some (seg, rest) else None
              | [] \<Rightarrow> None) in
            if is_field t then (case pathField t of None \<Rightarrow> None | Some key \<Rightarrow> close (FieldSeg key) rest)
            else if tk_kind t = TNumber then
              (case parse_int_base 10 (tk_text t) of None \<Rightarrow> None | Some i \<Rightarrow> close (IndexSeg i) rest)
            else if tk_kind t = TMinus then
              (case rest of
                 u # rest \<Rightarrow>
                   if tk_kind u = TNumber then
                     (case parse_int_base 10 (tk_text t @ tk_text u) of
                        None \<Rightarrow> None | Some i \<Rightarrow> close (IndexSeg i) rest)
                   else None
               | [] \<Rightarrow> None)
            else None
      | [] \<Rightarrow> None)"

text \<open>The segments after the first field.\<close>

definition dot_segment :: "otoken list \<Rightarrow> (oseg \<times> otoken list) option" where
  "dot_segment ts =
     (case ts of
        t # rest \<Rightarrow> if is_field t then map_option (\<lambda>key. (FieldSeg key, rest)) (pathField t) else None
      | [] \<Rightarrow> None)"

lemma dot_segment_length: "dot_segment ts = Some (seg, rest) \<Longrightarrow> length rest < length ts"
  by (auto simp: dot_segment_def split: list.splits if_splits)

lemma bracket_segment_length: "bracket_segment ts = Some (seg, rest) \<Longrightarrow> length rest < length ts"
  by (auto simp: bracket_segment_def Let_def split: list.splits if_splits option.splits)

function path_segments :: "otoken list \<Rightarrow> opath parsed" where
  "path_segments ts =
     (case ts of
        [] \<Rightarrow> POk [] []
      | t # rest \<Rightarrow>
          if tk_kind t = TDot \<or> tk_kind t = TLeftBracket then
            (case (if tk_kind t = TDot then dot_segment rest else bracket_segment rest) of
               None \<Rightarrow> PErr
             | Some (seg, ts) \<Rightarrow> pbind (path_segments ts) (\<lambda>path ts. POk (seg # path) ts))
          else POk [] (t # rest))"
  by pat_completeness auto
termination
  by (relation "measure length") (auto split: if_splits dest!: dot_segment_length bracket_segment_length)

declare path_segments.simps [simp del]

definition parsePath :: "otoken list \<Rightarrow> opath parsed" where
  "parsePath ts = expect TDot ts (\<lambda>ts.
     case ts of
       t # rest \<Rightarrow>
         if is_field t then
           (case pathField t of
              None \<Rightarrow> PErr
            | Some key \<Rightarrow> pbind (path_segments rest) (\<lambda>path ts. POk (FieldSeg key # path) ts))
         else path_segments ts
     | [] \<Rightarrow> POk [] [])"

section \<open>Literals\<close>

definition parseNumber :: "(string \<Rightarrow> f64 option) \<Rightarrow> string \<Rightarrow> oexpr option" where
  "parseNumber pf s =
     (if list_ex (\<lambda>c. c \<in> {CHR ''.'', CHR ''e'', CHR ''E''}) s
      then map_option (\<lambda>x. LiteralExpr (VFloat KFloat64 x)) (pf s)
      else
        let (base, digits) = (if HasPrefix s ''0x'' \<or> HasPrefix s ''0X'' then (16, drop 2 s) else (10, s)) in
        map_option (\<lambda>n. LiteralExpr (vint n)) (parse_int_base base digits))"

text \<open>The text before the first interpolation, and the text after its opening.\<close>

fun find_interpolation :: "string \<Rightarrow> string \<times> string option" where
  "find_interpolation [] = ([], None)"
| "find_interpolation (c # cs) =
     (if c \<noteq> CHR 0x5C then (let (lit, rest) = find_interpolation cs in (c # lit, rest))
      else case cs of
        [] \<Rightarrow> ([c], None)
      | d # ds \<Rightarrow>
          if d = CHR ''('' then ([], Some ds)
          else (let (lit, rest) = find_interpolation ds in (c # d # lit, rest)))"

text \<open>The source of an interpolation up to its closing parenthesis, and the text after it.\<close>

function findOverrideInterpolationEnd :: "nat \<Rightarrow> string \<Rightarrow> (string \<times> string) option" where
  "findOverrideInterpolationEnd depth s =
     (case s of
        [] \<Rightarrow> None
      | c # cs \<Rightarrow>
          if c = CHR 0x5C then
            (case cs of
               [] \<Rightarrow> None
             | d # ds \<Rightarrow> map_option (\<lambda>(e, rest). (c # d # e, rest)) (findOverrideInterpolationEnd depth ds))
          else if c = CHR 0x22 then
            (case scanOverrideString cs of
               None \<Rightarrow> None
             | Some (raw, rest) \<Rightarrow>
                 map_option (\<lambda>(e, rest). (c # raw @ CHR 0x22 # e, rest)) (findOverrideInterpolationEnd depth rest))
          else if c = CHR '')'' \<and> depth = 0 then Some ([], cs)
          else map_option (\<lambda>(e, rest). (c # e, rest))
            (findOverrideInterpolationEnd
               (if c = CHR ''('' then depth + 1 else if c = CHR '')'' then depth - 1 else depth) cs))"
  by pat_completeness auto
termination by (relation "measure (\<lambda>(d, s). length s)") (auto dest: scanOverrideString_length)

declare findOverrideInterpolationEnd.simps [simp del]

text \<open>\<open>strings.ReplaceAll\<close> of an escaped quote by a quote.\<close>

fun unescape_quotes :: "string \<Rightarrow> string" where
  "unescape_quotes (c # d # cs) =
     (if c = CHR 0x5C \<and> d = CHR 0x22 then CHR 0x22 # unescape_quotes cs else c # unescape_quotes (d # cs))"
| "unescape_quotes cs = cs"

definition isOverrideStreamFunction :: "string \<Rightarrow> bool" where
  "isOverrideStreamFunction name \<longleftrightarrow>
     name \<in> {''map'', ''map_values'', ''filter'', ''to_entries'', ''from_entries'', ''with_entries'', ''any_c'', ''all_c''}"

definition isOverrideFunction :: "string \<Rightarrow> bool" where
  "isOverrideFunction name \<longleftrightarrow>
     name \<in> {''length'', ''type'', ''keys'', ''has'', ''contains'', ''select'', ''sub'', ''test'', ''split'', ''join'',
       ''upcase'', ''downcase'', ''trim'', ''tostring'', ''tonumber'', ''not'', ''reverse'', ''sort'', ''unique'', ''flatten'',
       ''any'', ''all'', ''map'', ''map_values'', ''filter'', ''to_entries'', ''from_entries'', ''with_entries'', ''any_c'', ''all_c''}"

section \<open>Value expressions\<close>

text \<open>The operators of the levels: \<open>or\<close>, \<open>and\<close>, \<open>//\<close>, comparisons, sums, products.\<close>

definition level_token :: "nat \<Rightarrow> otoken \<Rightarrow> bool" where
  "level_token l t \<longleftrightarrow>
     (if l = 0 then tk_kind t = TIdentifier \<and> tk_text t = ''or''
      else if l = 1 then tk_kind t = TIdentifier \<and> tk_text t = ''and''
      else if l = 2 then tk_kind t = TAlternative
      else if l = 3 then tk_kind t \<in> {TEqual, TNotEqual, TLess, TLessEqual, TGreater, TGreaterEqual}
      else if l = 4 then tk_kind t \<in> {TPlus, TMinus}
      else tk_kind t \<in> {TMultiply, TDivide, TModulo})"

definition literal_part :: "string \<Rightarrow> (string + oexpr) list" where
  "literal_part s = (if s = [] then [] else [Inl s])"

text \<open>One element or several.\<close>

definition one_or :: "(oexpr list \<Rightarrow> oexpr) \<Rightarrow> oexpr \<Rightarrow> oexpr list \<Rightarrow> oexpr" where
  "one_or f e es = (if es = [] then e else f (e # es))"

text \<open>The parsers below call \<open>pv\<close>, the parser of value expressions, on what is nested in theirs. A loop
  goes on only with fewer tokens than it had, which is always so.\<close>

type_synonym value_parser = "bool \<Rightarrow> otoken list \<Rightarrow> oexpr parsed"

function parse_items :: "value_parser \<Rightarrow> bool \<Rightarrow> token_kind list \<Rightarrow> otoken list \<Rightarrow> oexpr list parsed" where
  "parse_items pv low separators ts =
     pbind (pv low ts) (\<lambda>e ts'.
       if peek ts' \<in> set separators then
         (if length (tl ts') < length ts then
            pbind (parse_items pv low separators (tl ts')) (\<lambda>es ts. POk (e # es) ts)
          else PFuel)
       else POk [e] ts')"
  by pat_completeness auto
termination by (relation "measure (\<lambda>(pv, low, seps, ts). length ts)") auto

declare parse_items.simps [simp del]

definition parse_union :: "value_parser \<Rightarrow> bool \<Rightarrow> otoken list \<Rightarrow> oexpr parsed" where
  "parse_union pv low ts =
     pbind (parse_items pv low [TComma] ts) (\<lambda>es ts. POk (one_or UnionExpr (hd es) (tl es)) ts)"

text \<open>The update expressions inside values: no result when the tokens are not one.\<close>

definition parse_update :: "value_parser \<Rightarrow> otoken list \<Rightarrow> oexpr option parsed" where
  "parse_update pv ts =
     (if peek ts \<noteq> TDot then POk None ts
      else case parsePath ts of
        POk path ts' \<Rightarrow>
          if isOverrideAssignmentToken (peek ts') then
            pbind (pv False (tl ts')) (\<lambda>e ts''. POk (Some (ValueUpdateExpr path (peek ts') e)) ts'')
          else POk None ts
      | _ \<Rightarrow> POk None ts)"

function parse_entries :: "value_parser \<Rightarrow> otoken list \<Rightarrow> (string \<times> oexpr) list parsed" where
  "parse_entries pv ts =
     (case ts of
        [] \<Rightarrow> PErr
      | t # rest \<Rightarrow>
          if tk_kind t \<noteq> TString then PErr
          else expect TColon rest (\<lambda>ts'.
            case decodeOverrideString (tk_text t) of
              None \<Rightarrow> PErr
            | Some key \<Rightarrow>
                pbind (pv True ts') (\<lambda>e ts'.
                  if peek ts' = TComma then
                    (if length (tl ts') < length ts then
                       pbind (parse_entries pv (tl ts')) (\<lambda>entries ts. POk ((key, e) # entries) ts)
                     else PFuel)
                  else POk [(key, e)] ts')))"
  by pat_completeness auto
termination by (relation "measure (\<lambda>(pv, ts). length ts)") auto

declare parse_entries.simps [simp del]

lemma find_interpolation_length: "find_interpolation s = (lit, Some rest) \<Longrightarrow> length lit + length rest + 2 = length s"
  by (induction s arbitrary: lit rest rule: find_interpolation.induct)
    (auto split: if_splits list.splits prod.splits)

lemma interpolation_end_Cons: "findOverrideInterpolationEnd depth (c # cs) =
    (if c = CHR 0x5C then
       (case cs of
          [] \<Rightarrow> None
        | d # ds \<Rightarrow> map_option (\<lambda>(e, rest). (c # d # e, rest)) (findOverrideInterpolationEnd depth ds))
     else if c = CHR 0x22 then
       (case scanOverrideString cs of
          None \<Rightarrow> None
        | Some (raw, rest) \<Rightarrow>
            map_option (\<lambda>(e, rest). (c # raw @ CHR 0x22 # e, rest)) (findOverrideInterpolationEnd depth rest))
     else if c = CHR '')'' \<and> depth = 0 then Some ([], cs)
     else map_option (\<lambda>(e, rest). (c # e, rest))
       (findOverrideInterpolationEnd
          (if c = CHR ''('' then depth + 1 else if c = CHR '')'' then depth - 1 else depth) cs))"
  by (subst findOverrideInterpolationEnd.simps) simp

lemma interpolation_end_length:
  "findOverrideInterpolationEnd d s = Some (e, rest) \<Longrightarrow> length e + length rest < length s"
proof (induction s arbitrary: d e rest rule: measure_induct_rule[of length])
  case (less s)
  show ?case
  proof (cases s)
    case Nil
    then show ?thesis using less.prems by (simp add: findOverrideInterpolationEnd.simps[of d "[]"])
  next
    case (Cons c cs)
    have run: "findOverrideInterpolationEnd d (c # cs) = Some (e, rest)" using less.prems Cons by simp
    consider (esc) "c = CHR 0x5C" | (quote) "c = CHR 0x22" | (close) "c = CHR '')''" "d = 0"
      | (other) "c \<noteq> CHR 0x5C" "c \<noteq> CHR 0x22" "\<not> (c = CHR '')'' \<and> d = 0)" by blast
    then show ?thesis
    proof cases
      case esc
      then obtain x ds e' where "cs = x # ds" "findOverrideInterpolationEnd d ds = Some (e', rest)" "e = c # x # e'"
        using run by (auto simp: interpolation_end_Cons split: list.splits)
      then show ?thesis using less.IH[of ds d e' rest] Cons by simp
    next
      case quote
      then obtain raw after e' where "scanOverrideString cs = Some (raw, after)"
        "findOverrideInterpolationEnd d after = Some (e', rest)" "e = c # raw @ CHR 0x22 # e'"
        using run by (auto simp: interpolation_end_Cons split: option.splits)
      then show ?thesis using less.IH[of after d e' rest] Cons scanOverrideString_length[of cs raw after] by simp
    next
      case close
      then show ?thesis using run Cons by (simp add: interpolation_end_Cons)
    next
      case other
      then obtain d' e' where "findOverrideInterpolationEnd d' cs = Some (e', rest)" "e = c # e'"
        using run by (auto simp: interpolation_end_Cons split: if_splits)
      then show ?thesis using less.IH[of cs d' e' rest] Cons by simp
    qed
  qed
qed

function parse_parts :: "value_parser \<Rightarrow> string \<Rightarrow> (string + oexpr) list parsed" where
  "parse_parts pv s =
     (case find_interpolation s of
        (lit, None) \<Rightarrow> of_option (map_option literal_part (decodeOverrideString lit)) []
      | (lit, Some rest) \<Rightarrow>
          (case (decodeOverrideString lit, findOverrideInterpolationEnd 0 rest) of
             (Some literal, Some (inner, after)) \<Rightarrow>
               (case lexOverrideExpr (unescape_quotes inner) of
                  None \<Rightarrow> PErr
                | Some tokens \<Rightarrow>
                    pbind (parse_union pv True tokens) (\<lambda>e left.
                      if left \<noteq> [] then PErr
                      else pbind (parse_parts pv after) (\<lambda>parts ts.
                        POk (literal_part literal @ Inr e # parts) [])))
           | _ \<Rightarrow> PErr))"
  by pat_completeness auto
termination
  by (relation "measure (\<lambda>(pv, s). length s)")
    (auto dest!: interpolation_end_length[OF sym] find_interpolation_length[OF sym])

declare parse_parts.simps [simp del]

definition parseString :: "value_parser \<Rightarrow> string \<Rightarrow> otoken list \<Rightarrow> oexpr parsed" where
  "parseString pv s ts =
     (case find_interpolation s of
        (lit, None) \<Rightarrow> of_option (map_option (\<lambda>t. LiteralExpr (VStr t)) (decodeOverrideString lit)) ts
      | (lit, Some _) \<Rightarrow> pbind (parse_parts pv s) (\<lambda>parts _. POk (StringExpr parts) ts))"

text \<open>The arguments of a function, if any.\<close>

definition parse_args :: "value_parser \<Rightarrow> otoken list \<Rightarrow> oexpr list parsed" where
  "parse_args pv ts =
     (if peek ts = TLeftParen then
        (if peek (tl ts) = TRightParen then POk [] (tl (tl ts))
         else pbind (parse_items pv True [TComma, TSemicolon] (tl ts)) (\<lambda>es ts.
           expect TRightParen ts (\<lambda>ts. POk es ts)))
      else POk [] ts)"

definition parse_identifier :: "value_parser \<Rightarrow> string \<Rightarrow> otoken list \<Rightarrow> oexpr parsed" where
  "parse_identifier pv name ts =
     (if name = ''true'' then POk (LiteralExpr (VBool True)) ts
      else if name = ''false'' then POk (LiteralExpr (VBool False)) ts
      else if name = ''null'' \<or> name = ''~'' then POk (LiteralExpr VNull) ts
      else pbind (parse_args pv ts) (\<lambda>args ts.
        if \<not> isOverrideFunction name then PErr
        else if isOverrideStreamFunction name then POk (StreamFunctionExpr name args) ts
        else POk (FunctionExpr name args) ts))"

definition parsePrimary :: "(string \<Rightarrow> f64 option) \<Rightarrow> value_parser \<Rightarrow> otoken list \<Rightarrow> oexpr parsed" where
  "parsePrimary pf pv ts =
     (case ts of
        [] \<Rightarrow> PErr
      | t # rest \<Rightarrow>
          if tk_kind t = TDot then pbind (parsePath ts) (\<lambda>path ts. POk (PathExpr path) ts)
          else if tk_kind t = TString then parseString pv (tk_text t) rest
          else if tk_kind t = TNumber then of_option (parseNumber pf (tk_text t)) rest
          else if tk_kind t = TLeftParen then
            pbind (parse_union pv True rest) (\<lambda>e ts. expect TRightParen ts (\<lambda>ts. POk e ts))
          else if tk_kind t = TLeftBracket then
            (if peek rest = TRightBracket then POk (ArrayExpr []) (tl rest)
             else pbind (parse_items pv True [TComma] rest) (\<lambda>es ts.
               expect TRightBracket ts (\<lambda>ts. POk (ArrayExpr es) ts)))
          else if tk_kind t = TLeftBrace then
            (if peek rest = TRightBrace then POk (MapExpr []) (tl rest)
             else pbind (parse_entries pv rest) (\<lambda>entries ts.
               expect TRightBrace ts (\<lambda>ts. POk (MapExpr entries) ts)))
          else if tk_kind t = TIdentifier then parse_identifier pv (tk_text t) rest
          else PErr)"

definition parseUnary :: "(string \<Rightarrow> f64 option) \<Rightarrow> value_parser \<Rightarrow> otoken list \<Rightarrow> oexpr parsed" where
  "parseUnary pf pv ts =
     (if peek ts = TMinus then
        (case tl ts of
           [] \<Rightarrow> PErr
         | t # rest \<Rightarrow>
             if tk_kind t = TNumber then of_option (parseNumber pf (CHR ''-'' # tk_text t)) rest else PErr)
      else parsePrimary pf pv ts)"

text \<open>The operators of one level, from the left: \<open>operand\<close> parses the level above.\<close>

function level_loop :: "(otoken list \<Rightarrow> oexpr parsed) \<Rightarrow> nat \<Rightarrow> oexpr \<Rightarrow> otoken list \<Rightarrow> oexpr parsed" where
  "level_loop operand l left ts =
     (case ts of
        [] \<Rightarrow> POk left []
      | t # rest \<Rightarrow>
          if level_token l t then
            pbind (operand rest) (\<lambda>right ts'.
              if length ts' < length ts then level_loop operand l (BinaryExpr (tk_text t) left right) ts' else PFuel)
          else POk left ts)"
  by pat_completeness auto
termination by (relation "measure (\<lambda>(operand, l, left, ts). length ts)") auto

declare level_loop.simps [simp del]

text \<open>The level \<open>5 - k\<close> and those above it, for \<open>k\<close> from 0; the code names the six levels \<open>parseOr\<close>,
  \<open>parseAnd\<close>, \<open>parseAlternative\<close>, \<open>parseComparison\<close>, \<open>parseAdditive\<close> and \<open>parseMultiplicative\<close>.\<close>

primrec parse_levels :: "(string \<Rightarrow> f64 option) \<Rightarrow> value_parser \<Rightarrow> nat \<Rightarrow> otoken list \<Rightarrow> oexpr parsed" where
  "parse_levels pf pv 0 ts = parseUnary pf pv ts"
| "parse_levels pf pv (Suc k) ts =
     pbind (parse_levels pf pv k ts) (\<lambda>left ts. level_loop (parse_levels pf pv k) (5 - k) left ts)"

definition parseOr :: "(string \<Rightarrow> f64 option) \<Rightarrow> value_parser \<Rightarrow> otoken list \<Rightarrow> oexpr parsed" where
  "parseOr pf pv ts = parse_levels pf pv 6 ts"

definition parseAlternative :: "(string \<Rightarrow> f64 option) \<Rightarrow> value_parser \<Rightarrow> otoken list \<Rightarrow> oexpr parsed" where
  "parseAlternative pf pv ts = parse_levels pf pv 4 ts"

text \<open>An update expression or else an operator expression.\<close>

definition parse_stage :: "(string \<Rightarrow> f64 option) \<Rightarrow> value_parser \<Rightarrow> bool \<Rightarrow> otoken list \<Rightarrow> oexpr parsed" where
  "parse_stage pf pv low ts =
     pbind (parse_update pv ts) (\<lambda>r ts'.
       case r of Some e \<Rightarrow> POk e ts' | None \<Rightarrow> if low then parseOr pf pv ts else parseAlternative pf pv ts)"

function stage_loop :: "(string \<Rightarrow> f64 option) \<Rightarrow> value_parser \<Rightarrow> otoken list \<Rightarrow> oexpr list parsed" where
  "stage_loop pf pv ts =
     (if peek ts = TPipe then
        pbind (parse_stage pf pv True (tl ts)) (\<lambda>stage ts'.
          if length ts' < length ts then
            pbind (stage_loop pf pv ts') (\<lambda>stages ts. POk (stage # stages) ts)
          else PFuel)
      else POk [] ts)"
  by pat_completeness auto
termination by (relation "measure (\<lambda>(pf, pv, ts). length ts)") auto

declare stage_loop.simps [simp del]

primrec parseValueExpression :: "(string \<Rightarrow> f64 option) \<Rightarrow> nat \<Rightarrow> bool \<Rightarrow> otoken list \<Rightarrow> oexpr parsed" where
  "parseValueExpression pf 0 low ts = PFuel"
| "parseValueExpression pf (Suc n) low ts =
     pbind (parse_stage pf (parseValueExpression pf n) low ts) (\<lambda>first ts.
       if low then
         pbind (stage_loop pf (parseValueExpression pf n) ts) (\<lambda>stages ts. POk (one_or PipelineExpr first stages) ts)
       else POk first ts)"

section \<open>Statements\<close>

function parse_paths :: "otoken list \<Rightarrow> opath list parsed" where
  "parse_paths ts =
     pbind (parsePath ts) (\<lambda>path ts'.
       if peek ts' = TComma then
         (if length (tl ts') < length ts then pbind (parse_paths (tl ts')) (\<lambda>paths ts. POk (path # paths) ts) else PFuel)
       else POk [path] ts')"
  by pat_completeness auto
termination by (relation "measure length") auto

declare parse_paths.simps [simp del]

text \<open>Whether the parenthesis opened first is closed in front of an assignment.\<close>

fun closes_before_assignment :: "nat \<Rightarrow> otoken list \<Rightarrow> bool" where
  "closes_before_assignment depth [] = False"
| "closes_before_assignment depth (t # ts) =
     (if tk_kind t = TLeftParen then closes_before_assignment (depth + 1) ts
      else if tk_kind t = TRightParen then
        (if depth = 1 then isOverrideAssignmentToken (peek ts) else closes_before_assignment (depth - 1) ts)
      else closes_before_assignment depth ts)"

definition startsAssignmentStatement :: "otoken list \<Rightarrow> bool" where
  "startsAssignmentStatement ts =
     (if peek ts = TDot then
        (case parsePath ts of POk path ts' \<Rightarrow> isOverrideAssignmentToken (peek ts') | _ \<Rightarrow> False)
      else peek ts = TLeftParen \<and> closes_before_assignment 0 ts)"

text \<open>The stages of a conditional target, after the opening parenthesis.\<close>

definition parse_target_stage :: "value_parser \<Rightarrow> otoken list \<Rightarrow> target_stage parsed" where
  "parse_target_stage pv ts =
     (if peekIdentifier ''select'' ts then
        expect TLeftParen (tl ts) (\<lambda>ts.
          pbind (pv True ts) (\<lambda>condition ts. expect TRightParen ts (\<lambda>ts. POk (StageCondition condition) ts)))
      else pbind (parsePath ts) (\<lambda>path ts. POk (StagePath path) ts))"

function target_loop :: "value_parser \<Rightarrow> otoken list \<Rightarrow> target_stage list parsed" where
  "target_loop pv ts =
     pbind (parse_target_stage pv ts) (\<lambda>stage ts'.
       if peek ts' = TPipe then
         (if length (tl ts') < length ts then pbind (target_loop pv (tl ts')) (\<lambda>stages ts. POk (stage # stages) ts) else PFuel)
       else POk [stage] ts')"
  by pat_completeness auto
termination by (relation "measure (\<lambda>(pv, ts). length ts)") auto

declare target_loop.simps [simp del]

fun is_path_stage :: "target_stage \<Rightarrow> bool" where
  "is_path_stage (StagePath path) = True"
| "is_path_stage (StageCondition e) = False"

definition parseAssignmentTarget :: "value_parser \<Rightarrow> otoken list \<Rightarrow> target_stage list parsed" where
  "parseAssignmentTarget pv ts = expect TLeftParen ts (\<lambda>ts.
     pbind (target_loop pv ts) (\<lambda>stages ts. expect TRightParen ts (\<lambda>ts.
       if list_ex is_path_stage stages then POk stages ts else PErr)))"

definition parse_assignment :: "value_parser \<Rightarrow> otoken list \<Rightarrow> ostatement parsed" where
  "parse_assignment pv ts =
     pbind
       (if peek ts = TLeftParen then pbind (parseAssignmentTarget pv ts) (\<lambda>stages ts. POk ([], Some stages) ts)
        else pbind (parsePath ts) (\<lambda>path ts. POk (path, None) ts))
       (\<lambda>r ts.
         case ts of
           [] \<Rightarrow> PErr
         | operator # rest \<Rightarrow>
             if isOverrideAssignmentToken (tk_kind operator) then
               pbind (pv False rest) (\<lambda>e ts. POk (AssignStatement (fst r) (snd r) (tk_kind operator) e) ts)
             else PErr)"

definition parseStatement :: "value_parser \<Rightarrow> otoken list \<Rightarrow> ostatement parsed" where
  "parseStatement pv ts =
     (if peekIdentifier ''del'' ts then
        expect TLeftParen (tl ts) (\<lambda>ts.
          pbind (parse_paths ts) (\<lambda>paths ts. expect TRightParen ts (\<lambda>ts.
            if [] \<in> set paths then PErr else POk (DeleteStatement paths) ts)))
      else if \<not> startsAssignmentStatement ts then
        pbind (parse_union pv True ts) (\<lambda>e ts. POk (FilterStatement e) ts)
      else parse_assignment pv ts)"

function statements_loop :: "value_parser \<Rightarrow> otoken list \<Rightarrow> ostatement list parsed" where
  "statements_loop pv ts =
     pbind (parseStatement pv ts) (\<lambda>statement ts'.
       if peek ts' = TPipe then
         (if tl ts' = [] then PErr
          else if length (tl ts') < length ts then
            pbind (statements_loop pv (tl ts')) (\<lambda>statements ts. POk (statement # statements) ts)
          else PFuel)
       else POk [statement] ts')"
  by pat_completeness auto
termination by (relation "measure (\<lambda>(pv, ts). length ts)") auto

declare statements_loop.simps [simp del]

definition parse_tokens :: "value_parser \<Rightarrow> otoken list \<Rightarrow> ostatement list parsed" where
  "parse_tokens pv ts =
     (if ts = [] then PErr
      else pbind (statements_loop pv ts) (\<lambda>statements ts. if ts = [] then POk statements [] else PErr))"

definition NewOverrideExpr :: "(string \<Rightarrow> f64 option) \<Rightarrow> string \<Rightarrow> ostatement list parsed" where
  "NewOverrideExpr pf source =
     (case lexOverrideExpr source of
        None \<Rightarrow> PErr
      | Some ts \<Rightarrow> parse_tokens (parseValueExpression pf (Suc (length source))) ts)"

section \<open>The parser always answers\<close>

definition weight :: "otoken list \<Rightarrow> nat" where
  "weight ts = sum_list (map tok_width ts)"

lemma weight_simps [simp]: "weight [] = 0" "weight (t # ts) = tok_width t + weight ts"
  by (simp_all add: weight_def)

lemma weight_suffix: "suffix ts' ts \<Longrightarrow> weight ts' \<le> weight ts"
  by (auto simp: suffix_def weight_def)

lemma weight_Cons_le: "suffix ts' ts \<Longrightarrow> weight ts' < tok_width t + weight ts"
  using weight_suffix[of ts' ts] tok_width_pos[of t] by simp

definition good :: "otoken list \<Rightarrow> 'a parsed \<Rightarrow> bool" where
  "good ts r \<longleftrightarrow> r \<noteq> PFuel \<and> (\<forall>x ts'. r = POk x ts' \<longrightarrow> suffix ts' ts)"

named_theorems good_rules

lemma good_POk [good_rules]: "suffix ts' ts \<Longrightarrow> good ts (POk x ts')"
  by (simp add: good_def)

lemma good_PErr [good_rules]: "good ts PErr"
  by (simp add: good_def)

lemma good_of_option [good_rules]: "suffix ts' ts \<Longrightarrow> good ts (of_option r ts')"
  by (cases r) (simp_all add: of_option_def good_def)

lemma good_weaken: "good ts r \<Longrightarrow> suffix ts ts'' \<Longrightarrow> good ts'' r"
  by (cases r) (auto simp: good_def intro: suffix_order.trans)

lemma good_bind:
  assumes "good ts r" "\<And>x ts'. r = POk x ts' \<Longrightarrow> suffix ts' ts \<Longrightarrow> good ts'' (f x ts')"
  shows "good ts'' (pbind r f)"
  using assms by (cases r) (auto simp: good_def)

lemma good_expect:
  assumes "suffix ts ts''" "\<And>t rest. ts = t # rest \<Longrightarrow> good ts'' (f rest)"
  shows "good ts'' (expect kind ts f)"
  using assms by (cases ts) (auto simp: expect_def good_def)

lemma suffix_tl: "suffix ts ts'' \<Longrightarrow> suffix (tl ts) ts''"
  by (cases ts) (auto dest: suffix_ConsD)

lemma path_segments_simps:
  "path_segments [] = POk [] []"
  "path_segments (t # rest) =
     (if tk_kind t = TDot \<or> tk_kind t = TLeftBracket then
        (case (if tk_kind t = TDot then dot_segment rest else bracket_segment rest) of
           None \<Rightarrow> PErr
         | Some (seg, ts) \<Rightarrow> pbind (path_segments ts) (\<lambda>path ts. POk (seg # path) ts))
      else POk [] (t # rest))"
  by (subst path_segments.simps, simp)+

lemma good_path_segments: "good ts (path_segments ts)"
proof (induction ts rule: measure_induct_rule[of length])
  case (less ts)
  show ?case
  proof (cases ts)
    case Nil
    then show ?thesis by (simp add: path_segments_simps good_rules)
  next
    case (Cons t rest)
    define seg where "seg = (if tk_kind t = TDot then dot_segment rest else bracket_segment rest)"
    have suf: "suffix ts' rest \<and> length ts' < length ts" if "seg = Some (sg, ts')" for sg ts'
    proof
      show "suffix ts' rest" using that
        by (auto simp: seg_def dot_segment_def bracket_segment_def Let_def suffix_Cons
          split: if_splits list.splits option.splits)
      then show "length ts' < length ts" using Cons by (simp add: le_imp_less_Suc suffix_length_le)
    qed
    have "good ts (case seg of None \<Rightarrow> PErr
        | Some (sg, ts) \<Rightarrow> pbind (path_segments ts) (\<lambda>path ts. POk (sg # path) ts))"
    proof (cases seg)
      case (Some p)
      obtain sg ts' where p: "p = (sg, ts')" by (cases p)
      then have ts': "suffix ts' rest" "length ts' < length ts" using suf Some by auto
      have "good ts (pbind (path_segments ts') (\<lambda>path ts. POk (sg # path) ts))"
        by (rule good_bind[OF less.IH[OF ts'(2)]])
          (use ts'(1) Cons in \<open>auto intro!: good_rules suffix_ConsI intro: suffix_order.trans\<close>)
      then show ?thesis using Some p by simp
    qed (simp add: good_rules)
    then show ?thesis using Cons by (auto simp: path_segments_simps seg_def good_rules)
  qed
qed

text \<open>A path takes its dot.\<close>

lemma good_parsePath_tl: "good (tl ts) (parsePath ts)"
proof (cases ts)
  case (Cons t rest)
  have "good rest (case rest of
       t # rest \<Rightarrow>
         if is_field t then
           (case pathField t of
              None \<Rightarrow> PErr
            | Some key \<Rightarrow> pbind (path_segments rest) (\<lambda>path ts. POk (FieldSeg key # path) ts))
         else path_segments (t # rest)
     | [] \<Rightarrow> POk [] [])"
  proof (cases rest)
    case (Cons u tail)
    have "good (u # tail) (pbind (path_segments tail) (\<lambda>path ts. POk (FieldSeg key # path) ts))" for key
      by (rule good_bind[OF good_path_segments]) (auto intro!: good_rules suffix_ConsI)
    then show ?thesis using Cons good_path_segments[of "u # tail"]
      by (auto intro: good_rules split: option.splits)
  qed (simp add: good_rules)
  then have "good rest (parsePath (t # rest))"
    unfolding parsePath_def expect_def by (cases rest) (auto simp: good_rules)
  then show ?thesis using Cons by simp
qed (simp add: parsePath_def expect_def good_rules)

lemma good_parsePath: "good ts (parsePath ts)"
  using good_weaken[OF good_parsePath_tl] suffix_tl by blast

lemma parsePath_shorter:
  assumes "parsePath ts = POk path ts'"
  shows "\<exists>t rest. ts = t # rest \<and> suffix ts' rest"
proof -
  obtain t rest where "ts = t # rest" using assms by (cases ts) (auto simp: parsePath_def expect_def)
  then show ?thesis using good_parsePath_tl[of ts] assms by (simp add: good_def)
qed

section \<open>Parsers over a parser of values\<close>

text \<open>\<open>pv\<close> answers on token lists that weigh less than \<open>w\<close>.\<close>

definition pv_ok :: "nat \<Rightarrow> value_parser \<Rightarrow> bool" where
  "pv_ok w pv \<longleftrightarrow> (\<forall>low ts. weight ts < w \<longrightarrow> good ts (pv low ts))"

lemma pv_okD: "pv_ok w pv \<Longrightarrow> weight ts < w \<Longrightarrow> good ts (pv low ts)"
  by (simp add: pv_ok_def)

lemma peek_Cons: "peek ts = k \<Longrightarrow> k \<noteq> TEOF \<Longrightarrow> \<exists>t rest. ts = t # rest \<and> tk_kind t = k"
  by (cases ts) (auto simp: peek_def)

lemma tl_shorter: "peek ts' \<noteq> TEOF \<Longrightarrow> suffix ts' ts \<Longrightarrow> length (tl ts') < length ts \<and> suffix (tl ts') ts \<and> weight (tl ts') < weight ts"
proof -
  assume "peek ts' \<noteq> TEOF" and suf: "suffix ts' ts"
  then obtain t rest where ts': "ts' = t # rest" by (cases ts') (auto simp: peek_def)
  moreover have "weight rest < weight ts'" using ts' tok_width_pos[of t] by simp
  ultimately show ?thesis using suf weight_suffix[OF suf] suffix_length_le[OF suf] by (auto dest: suffix_ConsD)
qed

lemma good_items:
  "pv_ok w pv \<Longrightarrow> TEOF \<notin> set seps \<Longrightarrow> weight ts < w \<Longrightarrow> good ts (parse_items pv low seps ts)"
proof (induction ts rule: measure_induct_rule[of length])
  case (less ts)
  show ?case unfolding parse_items.simps[of pv low seps ts]
  proof (rule good_bind[OF pv_okD[OF less.prems(1,3)]])
    fix e ts' assume suf: "suffix ts' ts"
    have "good ts (pbind (parse_items pv low seps (tl ts')) (\<lambda>es ts. POk (e # es) ts))"
      if "peek ts' \<in> set seps"
    proof -
      have "peek ts' \<noteq> TEOF" using that less.prems(2) by auto
      note tl = tl_shorter[OF this suf]
      have "good (tl ts') (parse_items pv low seps (tl ts'))"
        using less.IH[of "tl ts'"] less.prems tl by linarith
      then show ?thesis by (rule good_bind) (use tl in \<open>auto intro!: good_rules intro: suffix_order.trans\<close>)
    qed
    moreover have "length (tl ts') < length ts" if "peek ts' \<in> set seps"
      using that tl_shorter[OF _ suf] less.prems(2) by metis
    ultimately show "good ts (if peek ts' \<in> set seps then
         (if length (tl ts') < length ts then
            pbind (parse_items pv low seps (tl ts')) (\<lambda>es ts. POk (e # es) ts)
          else PFuel)
       else POk [e] ts')" using suf by (auto intro: good_rules)
  qed
qed

lemma good_union: "pv_ok w pv \<Longrightarrow> weight ts < w \<Longrightarrow> good ts (parse_union pv low ts)"
  unfolding parse_union_def by (rule good_bind[OF good_items]) (auto intro: good_rules)

lemma good_update:
  assumes "pv_ok w pv" "weight ts \<le> w"
  shows "good ts (parse_update pv ts)"
proof -
  have "good ts (pbind (pv False (tl ts')) (\<lambda>e ts''. POk (Some (ValueUpdateExpr path (peek ts') e)) ts''))"
    if path: "parsePath ts = POk path ts'" and op: "isOverrideAssignmentToken (peek ts')" for path ts'
  proof -
    have suf: "suffix ts' ts" using good_parsePath[of ts] path by (simp add: good_def)
    have "peek ts' \<noteq> TEOF" using op by (auto simp: isOverrideAssignmentToken_def)
    note tl = tl_shorter[OF this suf]
    have "good (tl ts') (pv False (tl ts'))" using pv_okD[OF assms(1)] tl assms(2) by simp
    then show ?thesis by (rule good_bind) (use tl in \<open>auto intro!: good_rules intro: suffix_order.trans\<close>)
  qed
  then show ?thesis unfolding parse_update_def
    by (auto intro: good_rules split: parsed.splits)
qed

lemma good_entries:
  "pv_ok w pv \<Longrightarrow> weight ts < w \<Longrightarrow> good ts (parse_entries pv ts)"
proof (induction ts rule: measure_induct_rule[of length])
  case (less ts)
  have step: "good ts (pbind (pv True ts1) (\<lambda>e ts'.
      if peek ts' = TComma then
        (if length (tl ts') < length ts then
           pbind (parse_entries pv (tl ts')) (\<lambda>entries ts. POk ((key, e) # entries) ts)
         else PFuel)
      else POk [(key, e)] ts'))" if ts1: "suffix ts1 ts" for ts1 key
  proof (rule good_bind[of ts1])
    show "good ts1 (pv True ts1)" using pv_okD[OF less.prems(1)] weight_suffix[OF ts1] less.prems(2) by simp
    fix e ts' assume "suffix ts' ts1"
    then have suf: "suffix ts' ts" using ts1 suffix_order.trans by blast
    have "length (tl ts') < length ts \<and> good ts (pbind (parse_entries pv (tl ts')) (\<lambda>entries ts. POk ((key, e) # entries) ts))"
      if "peek ts' = TComma"
    proof -
      have "peek ts' \<noteq> TEOF" using that by simp
      note tl = tl_shorter[OF this suf]
      have "good (tl ts') (parse_entries pv (tl ts'))" using less.IH[of "tl ts'"] less.prems tl by linarith
      then have "good ts (pbind (parse_entries pv (tl ts')) (\<lambda>entries ts. POk ((key, e) # entries) ts))"
        by (rule good_bind) (use tl in \<open>auto intro!: good_rules intro: suffix_order.trans\<close>)
      then show ?thesis using tl by simp
    qed
    then show "good ts (if peek ts' = TComma then
        (if length (tl ts') < length ts then
           pbind (parse_entries pv (tl ts')) (\<lambda>entries ts. POk ((key, e) # entries) ts)
         else PFuel)
      else POk [(key, e)] ts')" using suf by (auto intro: good_rules)
  qed
  show ?case
  proof (cases ts)
    case (Cons t rest)
    have "good ts (expect TColon rest (\<lambda>ts'.
            case decodeOverrideString (tk_text t) of
              None \<Rightarrow> PErr
            | Some key \<Rightarrow>
                pbind (pv True ts') (\<lambda>e ts'.
                  if peek ts' = TComma then
                    (if length (tl ts') < length ts then
                       pbind (parse_entries pv (tl ts')) (\<lambda>entries ts. POk ((key, e) # entries) ts)
                     else PFuel)
                  else POk [(key, e)] ts')))"
    proof (rule good_expect)
      show "suffix rest ts" using Cons by (simp add: suffix_ConsI)
      fix c ts1 assume "rest = c # ts1"
      then have ts1: "suffix ts1 ts" using Cons by (simp add: suffix_ConsI)
      show "good ts (case decodeOverrideString (tk_text t) of
              None \<Rightarrow> PErr
            | Some key \<Rightarrow>
                pbind (pv True ts1) (\<lambda>e ts'.
                  if peek ts' = TComma then
                    (if length (tl ts') < length ts then
                       pbind (parse_entries pv (tl ts')) (\<lambda>entries ts. POk ((key, e) # entries) ts)
                     else PFuel)
                  else POk [(key, e)] ts'))"
        using step[OF ts1] by (cases "decodeOverrideString (tk_text t)") (simp_all add: good_PErr)
    qed
    then show ?thesis using Cons by (subst parse_entries.simps) (auto intro: good_rules)
  qed (subst parse_entries.simps, simp add: good_rules)
qed

lemma unescape_length: "length (unescape_quotes s) \<le> length s"
  by (induction s rule: unescape_quotes.induct) auto

lemma good_parts: "pv_ok w pv \<Longrightarrow> length s \<le> w \<Longrightarrow> parse_parts pv s \<noteq> PFuel"
proof (induction s rule: measure_induct_rule[of length])
  case (less s)
  obtain lit r where find: "find_interpolation s = (lit, r)" by fastforce
  show ?case
  proof (cases r)
    case None
    then show ?thesis using find by (subst parse_parts.simps) (auto simp: of_option_def split: option.splits)
  next
    case (Some rest)
    have len: "length lit + length rest + 2 = length s" using find_interpolation_length find Some by blast
    have "(case lexOverrideExpr (unescape_quotes inner) of
                  None \<Rightarrow> PErr
                | Some tokens \<Rightarrow>
                    pbind (parse_union pv True tokens) (\<lambda>e left.
                      if left \<noteq> [] then PErr
                      else pbind (parse_parts pv after) (\<lambda>parts ts.
                        POk (literal_part literal @ Inr e # parts) []))) \<noteq> PFuel"
      if stop: "findOverrideInterpolationEnd 0 rest = Some (inner, after)" for inner after literal
    proof -
      note shorter = interpolation_end_length[OF stop]
      have "parse_parts pv after \<noteq> PFuel" using less.IH[of after] less.prems shorter len by linarith
      then have rest_ok: "pbind (parse_parts pv after) (\<lambda>parts ts. POk (literal_part literal @ Inr e # parts) []) \<noteq> PFuel" for e
        by (cases "parse_parts pv after") auto
      have "parse_union pv True tokens \<noteq> PFuel" if "lexOverrideExpr (unescape_quotes inner) = Some tokens" for tokens
      proof -
        have "weight tokens < w"
          using lex_width[OF that] unescape_length[of inner] shorter len less.prems(2) by (simp add: weight_def)
        then show ?thesis using good_union[OF less.prems(1)] by (simp add: good_def)
      qed
      then have "pbind (parse_union pv True tokens) (\<lambda>e left.
                      if left \<noteq> [] then PErr
                      else pbind (parse_parts pv after) (\<lambda>parts ts.
                        POk (literal_part literal @ Inr e # parts) [])) \<noteq> PFuel"
        if "lexOverrideExpr (unescape_quotes inner) = Some tokens" for tokens
        using that rest_ok by (cases "parse_union pv True tokens") auto
      then show ?thesis by (auto split: option.splits)
    qed
    then show ?thesis using find Some by (subst parse_parts.simps) (auto split: option.splits)
  qed
qed

lemma good_string: "pv_ok w pv \<Longrightarrow> length s \<le> w \<Longrightarrow> good ts (parseString pv s ts)"
proof -
  assume "pv_ok w pv" "length s \<le> w"
  then have "parse_parts pv s \<noteq> PFuel" by (rule good_parts)
  then have "good ts (pbind (parse_parts pv s) (\<lambda>parts _. POk (StringExpr parts) ts))"
    by (cases "parse_parts pv s") (auto simp: good_def)
  then show ?thesis by (auto simp: parseString_def good_rules split: prod.splits option.splits)
qed

lemma good_args:
  assumes "pv_ok w pv" "weight ts < w"
  shows "good ts (parse_args pv ts)"
proof -
  have "good ts (pbind (parse_items pv True [TComma, TSemicolon] (tl ts)) (\<lambda>es ts. expect TRightParen ts (\<lambda>ts. POk es ts)))"
  proof (rule good_bind[of "tl ts"])
    have "weight (tl ts) < w" using assms(2) by (cases ts) auto
    then show "good (tl ts) (parse_items pv True [TComma, TSemicolon] (tl ts))" by (intro good_items[OF assms(1)]) auto
    fix es ts' assume "suffix ts' (tl ts)"
    then have "suffix ts' ts" using suffix_tl[of ts ts] suffix_order.trans by blast
    then show "good ts (expect TRightParen ts' (\<lambda>ts. POk es ts))"
      by (intro good_expect good_POk) (auto dest: suffix_ConsD)
  qed
  then show ?thesis unfolding parse_args_def by (auto intro!: good_rules suffix_tl)
qed

lemma good_identifier: "pv_ok w pv \<Longrightarrow> weight ts < w \<Longrightarrow> good ts (parse_identifier pv name ts)"
  unfolding parse_identifier_def by (auto intro!: good_rules good_bind[OF good_args])

lemma good_primary:
  assumes "pv_ok w pv" "weight ts \<le> w"
  shows "good ts (parsePrimary pf pv ts)"
proof (cases ts)
  case Nil
  then show ?thesis by (simp add: parsePrimary_def good_rules)
next
  case (Cons t rest)
  have less: "weight rest < w" using assms(2) Cons tok_width_pos[of t] by simp
  have rest: "suffix rest ts" using Cons by (simp add: suffix_ConsI)
  have "good ts (parseString pv (tk_text t) rest)" if "tk_kind t = TString"
    using good_weaken[OF good_string[OF assms(1)] rest] assms(2) Cons that by (simp add: tok_width_def)
  moreover have "good ts (pbind (parse_union pv True rest) (\<lambda>e ts. expect TRightParen ts (\<lambda>ts. POk e ts)))"
    by (rule good_bind[OF good_union[OF assms(1) less]])
      (use rest in \<open>auto intro!: good_expect good_rules intro: suffix_order.trans dest: suffix_ConsD\<close>)
  moreover have "good ts (pbind (parse_items pv True [TComma] rest) (\<lambda>es ts. expect TRightBracket ts (\<lambda>ts. POk (ArrayExpr es) ts)))"
    by (rule good_bind[OF good_items[OF assms(1) _ less]])
      (use rest in \<open>auto intro!: good_expect good_rules intro: suffix_order.trans dest: suffix_ConsD\<close>)
  moreover have "good ts (pbind (parse_entries pv rest) (\<lambda>entries ts. expect TRightBrace ts (\<lambda>ts. POk (MapExpr entries) ts)))"
    by (rule good_bind[OF good_entries[OF assms(1) less]])
      (use rest in \<open>auto intro!: good_expect good_rules intro: suffix_order.trans dest: suffix_ConsD\<close>)
  moreover have "good ts (parse_identifier pv (tk_text t) rest)"
    using good_weaken[OF good_identifier[OF assms(1) less] rest] .
  moreover have "good ts (pbind (parsePath ts) (\<lambda>path ts. POk (PathExpr path) ts))"
    by (rule good_bind[OF good_parsePath]) (auto intro: good_rules)
  ultimately show ?thesis using Cons rest unfolding parsePrimary_def
    by (auto intro!: good_rules suffix_tl)
qed

lemma good_unary: "pv_ok w pv \<Longrightarrow> weight ts \<le> w \<Longrightarrow> good ts (parseUnary pf pv ts)"
  unfolding parseUnary_def using good_primary[of w pv ts pf]
  by (cases ts) (auto intro!: good_rules simp: suffix_ConsI split: list.splits)

lemma good_level_loop:
  "(\<And>ts. weight ts \<le> w \<Longrightarrow> good ts (operand ts)) \<Longrightarrow> weight ts \<le> w \<Longrightarrow> good ts (level_loop operand l left ts)"
proof (induction ts arbitrary: left rule: measure_induct_rule[of length])
  case (less ts)
  show ?case
  proof (cases ts)
    case Nil
    then show ?thesis by (subst level_loop.simps) (simp add: good_rules)
  next
    case (Cons t rest)
    have "good ts (pbind (operand rest) (\<lambda>right ts'.
        if length ts' < length ts then level_loop operand l (BinaryExpr (tk_text t) left right) ts' else PFuel))"
    proof (rule good_bind[of rest])
      show "good rest (operand rest)" using less.prems Cons by simp
      fix right ts' assume suf: "suffix ts' rest"
      have "length ts' < length ts" using suf Cons by (simp add: le_imp_less_Suc suffix_length_le)
      moreover have "weight ts' \<le> w" using weight_suffix[OF suf] less.prems(2) Cons by simp
      ultimately have "good ts' (level_loop operand l (BinaryExpr (tk_text t) left right) ts')"
        using less.IH less.prems(1) by blast
      then have "good ts (level_loop operand l (BinaryExpr (tk_text t) left right) ts')"
        by (rule good_weaken) (use suf Cons in \<open>simp add: suffix_ConsI\<close>)
      then show "good ts (if length ts' < length ts then level_loop operand l (BinaryExpr (tk_text t) left right) ts' else PFuel)"
        using \<open>length ts' < length ts\<close> by simp
    qed
    then show ?thesis using Cons by (subst level_loop.simps) (auto intro: good_rules)
  qed
qed

lemma good_levels: "pv_ok w pv \<Longrightarrow> weight ts \<le> w \<Longrightarrow> good ts (parse_levels pf pv k ts)"
proof (induction k arbitrary: ts)
  case 0
  then show ?case by (simp add: good_unary)
next
  case (Suc k)
  have "good ts (level_loop (parse_levels pf pv k) (5 - k) left ts')" if "suffix ts' ts" for left ts'
  proof -
    have "weight ts' \<le> w" using weight_suffix[OF that] Suc.prems(2) by simp
    then show ?thesis using good_weaken[OF good_level_loop that] Suc by blast
  qed
  then show ?case using Suc by (auto intro!: good_bind)
qed

lemma good_stage:
  assumes "pv_ok w pv" "weight ts \<le> w"
  shows "good ts (parse_stage pf pv low ts)"
  unfolding parse_stage_def
  by (rule good_bind[OF good_update[OF assms]])
    (auto simp: parseOr_def parseAlternative_def good_rules good_levels[OF assms] split: option.splits)

lemma good_stage_loop: "pv_ok w pv \<Longrightarrow> weight ts \<le> w \<Longrightarrow> good ts (stage_loop pf pv ts)"
proof (induction ts rule: measure_induct_rule[of length])
  case (less ts)
  have "good ts (pbind (parse_stage pf pv True (tl ts)) (\<lambda>stage ts'.
          if length ts' < length ts then
            pbind (stage_loop pf pv ts') (\<lambda>stages ts. POk (stage # stages) ts)
          else PFuel))" if "peek ts = TPipe"
  proof -
    have "peek ts \<noteq> TEOF" using that by simp
    note tl = tl_shorter[OF this suffix_order.refl]
    show ?thesis
    proof (rule good_bind[of "tl ts"])
      show "good (tl ts) (parse_stage pf pv True (tl ts))" using good_stage[OF less.prems(1)] less.prems(2) tl by simp
      fix stage ts' assume suf: "suffix ts' (tl ts)"
      have ts': "length ts' < length ts" "weight ts' \<le> w" "suffix ts' ts"
        using suffix_length_le[OF suf] weight_suffix[OF suf] tl less.prems(2) suf suffix_order.trans[OF suf] by auto
      then have "good ts (pbind (stage_loop pf pv ts') (\<lambda>stages ts. POk (stage # stages) ts))"
        by (intro good_bind[OF less.IH[OF _ less.prems(1)]])
          (auto intro!: good_rules intro: suffix_order.trans)
      then show "good ts (if length ts' < length ts then
            pbind (stage_loop pf pv ts') (\<lambda>stages ts. POk (stage # stages) ts)
          else PFuel)" using ts' by simp
    qed
  qed
  then show ?case by (subst stage_loop.simps) (auto intro: good_rules)
qed

lemma parseValueExpression_ok: "pv_ok n (parseValueExpression pf n)"
proof (induction n)
  case 0
  then show ?case by (simp add: pv_ok_def)
next
  case (Suc n)
  have "good ts (parseValueExpression pf (Suc n) low ts)" if "weight ts < Suc n" for low ts
    unfolding parseValueExpression.simps
  proof (rule good_bind[OF good_stage[OF Suc.IH]])
    show "weight ts \<le> n" using that by simp
    fix first ts' assume suf: "suffix ts' ts"
    then have "weight ts' \<le> n" using weight_suffix[OF suf] that by simp
    then have "good ts (pbind (stage_loop pf (parseValueExpression pf n) ts') (\<lambda>stages ts. POk (one_or PipelineExpr first stages) ts))"
      by (intro good_bind[OF good_stage_loop[OF Suc.IH]]) (use suf in \<open>auto intro!: good_rules intro: suffix_order.trans\<close>)
    then show "good ts (if low then pbind (stage_loop pf (parseValueExpression pf n) ts')
        (\<lambda>stages ts. POk (one_or PipelineExpr first stages) ts) else POk first ts')"
      using suf by (simp add: good_rules)
  qed
  then show ?case by (simp add: pv_ok_def)
qed

section \<open>Statements answer too\<close>

lemma weight_less: "suffix ts' ts \<Longrightarrow> weight ts < w \<Longrightarrow> weight ts' < w"
  using weight_suffix[of ts' ts] by simp

lemma suffix_Cons_trans: "suffix (t # rest) ts \<Longrightarrow> suffix rest ts"
  by (rule suffix_ConsD)

lemma suffix_rest: "suffix (t # rest) ts' \<Longrightarrow> suffix ts' ts \<Longrightarrow> suffix rest ts"
  by (rule suffix_order.trans[OF suffix_Cons_trans])

lemma good_paths: "good ts (parse_paths ts)"
proof (induction ts rule: measure_induct_rule[of length])
  case (less ts)
  show ?case unfolding parse_paths.simps[of ts]
  proof (rule good_bind[OF good_parsePath])
    fix path ts' assume suf: "suffix ts' ts"
    have "length (tl ts') < length ts \<and> good ts (pbind (parse_paths (tl ts')) (\<lambda>paths ts. POk (path # paths) ts))"
      if "peek ts' = TComma"
    proof -
      have "peek ts' \<noteq> TEOF" using that by simp
      note tl = tl_shorter[OF this suf]
      show ?thesis using tl
        by (auto intro!: good_bind[OF less.IH] good_rules intro: suffix_order.trans)
    qed
    then show "good ts (if peek ts' = TComma then
         (if length (tl ts') < length ts then pbind (parse_paths (tl ts')) (\<lambda>paths ts. POk (path # paths) ts) else PFuel)
       else POk [path] ts')" using suf by (auto intro: good_rules)
  qed
qed

lemma good_target_stage:
  assumes "pv_ok w pv" "weight ts < w"
  shows "good ts (parse_target_stage pv ts)"
proof -
  have "good ts (expect TLeftParen (tl ts) (\<lambda>ts.
          pbind (pv True ts) (\<lambda>condition ts. expect TRightParen ts (\<lambda>ts. POk (StageCondition condition) ts))))"
  proof (rule good_expect)
    show "suffix (tl ts) ts" by (rule suffix_tl) simp
    fix t rest assume "tl ts = t # rest"
    then have rest: "suffix rest ts" using suffix_tl[of ts ts] suffix_Cons_trans by fastforce
    have "good rest (pv True rest)" using pv_okD[OF assms(1)] weight_less[OF rest assms(2)] .
    then show "good ts (pbind (pv True rest) (\<lambda>condition ts. expect TRightParen ts (\<lambda>ts. POk (StageCondition condition) ts)))"
      by (rule good_bind)
        (use rest in \<open>auto intro!: good_expect good_rules intro: suffix_order.trans suffix_rest\<close>)
  qed
  moreover have "good ts (pbind (parsePath ts) (\<lambda>path ts. POk (StagePath path) ts))"
    by (rule good_bind[OF good_parsePath]) (auto intro: good_rules)
  ultimately show ?thesis by (simp add: parse_target_stage_def)
qed

lemma good_target_loop: "pv_ok w pv \<Longrightarrow> weight ts < w \<Longrightarrow> good ts (target_loop pv ts)"
proof (induction ts rule: measure_induct_rule[of length])
  case (less ts)
  show ?case unfolding target_loop.simps[of pv ts]
  proof (rule good_bind[OF good_target_stage[OF less.prems]])
    fix stage ts' assume suf: "suffix ts' ts"
    have "length (tl ts') < length ts \<and> good ts (pbind (target_loop pv (tl ts')) (\<lambda>stages ts. POk (stage # stages) ts))"
      if "peek ts' = TPipe"
    proof -
      have "peek ts' \<noteq> TEOF" using that by simp
      note tl = tl_shorter[OF this suf]
      show ?thesis using tl less.prems
        by (auto intro!: good_bind[OF less.IH[OF _ less.prems(1)]] good_rules intro: suffix_order.trans)
    qed
    then show "good ts (if peek ts' = TPipe then
         (if length (tl ts') < length ts then pbind (target_loop pv (tl ts')) (\<lambda>stages ts. POk (stage # stages) ts) else PFuel)
       else POk [stage] ts')" using suf by (auto intro: good_rules)
  qed
qed

lemma good_target:
  assumes "pv_ok w pv" "weight ts < w"
  shows "good ts (parseAssignmentTarget pv ts)"
  unfolding parseAssignmentTarget_def
proof (rule good_expect)
  show "suffix ts ts" by simp
  fix t rest assume "ts = t # rest"
  then have rest: "suffix rest ts" by (simp add: suffix_ConsI)
  show "good ts (pbind (target_loop pv rest) (\<lambda>stages ts. expect TRightParen ts (\<lambda>ts.
       if list_ex is_path_stage stages then POk stages ts else PErr)))"
    by (rule good_bind[OF good_target_loop[OF assms(1) weight_less[OF rest assms(2)]]])
      (use rest in \<open>auto intro!: good_expect good_rules intro: suffix_order.trans suffix_rest\<close>)
qed

lemma good_assignment:
  assumes "pv_ok w pv" "weight ts < w"
  shows "good ts (parse_assignment pv ts)"
  unfolding parse_assignment_def
proof (rule good_bind[of ts])
  show "good ts (if peek ts = TLeftParen then pbind (parseAssignmentTarget pv ts) (\<lambda>stages ts. POk ([], Some stages) ts)
        else pbind (parsePath ts) (\<lambda>path ts. POk (path, None) ts))"
    by (cases "peek ts = TLeftParen")
      (simp_all add: good_bind[OF good_target[OF assms]] good_bind[OF good_parsePath] good_rules)
  fix r ts' assume suf: "suffix ts' ts"
  show "good ts (case ts' of
           [] \<Rightarrow> PErr
         | operator # rest \<Rightarrow>
             if isOverrideAssignmentToken (tk_kind operator) then
               pbind (pv False rest) (\<lambda>e ts. POk (AssignStatement (fst r) (snd r) (tk_kind operator) e) ts)
             else PErr)"
  proof (cases ts')
    case (Cons t rest)
    then have rest: "suffix rest ts" using suf suffix_Cons_trans[of t rest ts] by simp
    have "good rest (pv False rest)" by (rule pv_okD[OF assms(1) weight_less[OF rest assms(2)]])
    then have "good ts (pbind (pv False rest) (\<lambda>e ts. POk (AssignStatement (fst r) (snd r) (tk_kind t) e) ts))"
      by (rule good_bind) (rule good_POk, erule suffix_order.trans[OF _ rest])
    then show ?thesis using Cons by (simp add: good_rules)
  qed (simp add: good_rules)
qed

lemma good_statement:
  assumes "pv_ok w pv" "weight ts < w"
  shows "good ts (parseStatement pv ts)"
proof -
  have "good ts (expect TLeftParen (tl ts) (\<lambda>ts.
          pbind (parse_paths ts) (\<lambda>paths ts. expect TRightParen ts (\<lambda>ts.
            if [] \<in> set paths then PErr else POk (DeleteStatement paths) ts))))"
  proof (rule good_expect)
    show "suffix (tl ts) ts" by (rule suffix_tl) simp
    fix t rest assume "tl ts = t # rest"
    then have rest: "suffix rest ts" using suffix_tl[of ts ts] suffix_Cons_trans by fastforce
    show "good ts (pbind (parse_paths rest) (\<lambda>paths ts. expect TRightParen ts (\<lambda>ts.
            if [] \<in> set paths then PErr else POk (DeleteStatement paths) ts)))"
      by (rule good_bind[OF good_paths])
        (use rest in \<open>auto intro!: good_expect good_rules intro: suffix_order.trans suffix_rest\<close>)
  qed
  moreover have "good ts (pbind (parse_union pv True ts) (\<lambda>e ts. POk (FilterStatement e) ts))"
    by (rule good_bind[OF good_union[OF assms]]) (auto intro: good_rules)
  ultimately show ?thesis using good_assignment[OF assms] by (simp add: parseStatement_def)
qed

lemma good_statements: "pv_ok w pv \<Longrightarrow> weight ts < w \<Longrightarrow> good ts (statements_loop pv ts)"
proof (induction ts rule: measure_induct_rule[of length])
  case (less ts)
  show ?case unfolding statements_loop.simps[of pv ts]
  proof (rule good_bind[OF good_statement[OF less.prems]])
    fix statement ts' assume suf: "suffix ts' ts"
    have "length (tl ts') < length ts \<and> good ts (pbind (statements_loop pv (tl ts')) (\<lambda>statements ts. POk (statement # statements) ts))"
      if "peek ts' = TPipe"
    proof -
      have "peek ts' \<noteq> TEOF" using that by simp
      note tl = tl_shorter[OF this suf]
      show ?thesis using tl less.prems
        by (auto intro!: good_bind[OF less.IH[OF _ less.prems(1)]] good_rules intro: suffix_order.trans)
    qed
    then show "good ts (if peek ts' = TPipe then
         (if tl ts' = [] then PErr
          else if length (tl ts') < length ts then
            pbind (statements_loop pv (tl ts')) (\<lambda>statements ts. POk (statement # statements) ts)
          else PFuel)
       else POk [statement] ts')" using suf by (auto intro: good_rules)
  qed
qed

text \<open>
  C24. The parser of override expressions answers on every source, whatever parses its floats: it
  returns the statements or an error, never running out of the fuel it is started with. Each nested
  value expression consumes at least one byte of the source, string interpolations included, so the
  source's length bounds the nesting.
\<close>

theorem parser_answers: "NewOverrideExpr pf source \<noteq> PFuel"
proof (cases "lexOverrideExpr source")
  case (Some ts)
  have less: "weight ts < Suc (length source)" using lex_width[OF Some] by (simp add: weight_def)
  have "good ts (statements_loop (parseValueExpression pf (Suc (length source))) ts)"
    by (rule good_statements[OF parseValueExpression_ok less])
  then show ?thesis using Some
    by (auto simp: NewOverrideExpr_def parse_tokens_def good_def elim!: pbind.elims split: if_splits)
qed (simp add: NewOverrideExpr_def)

end
