(* ===== verification/OverrideSource.thy ===== *)
theory OverrideSource
  imports OverrideParse
begin

text \<open>
  Paths as source: what \<open>overridePath.String\<close> prints is read back by the lexer and the parser
  (\<open>override_expr.go\<close>) as the same path, when its fields are identifiers and its indexes fit.
\<close>

section \<open>Printable paths\<close>

definition is_identifier :: "string \<Rightarrow> bool" where
  "is_identifier key \<longleftrightarrow> key \<noteq> [] \<and> isOverrideIdentifierStart (hd key) \<and> list_all isOverrideIdentifierPart (tl key)"

definition printable_seg :: "oseg \<Rightarrow> bool" where
  "printable_seg seg \<longleftrightarrow>
     (case seg of FieldSeg key \<Rightarrow> is_identifier key | IndexSeg i \<Rightarrow> - (2 ^ 63) \<le> i \<and> i < 2 ^ 63 | WildSeg \<Rightarrow> True)"

text \<open>The tokens of a printed segment.\<close>

definition index_tokens :: "int \<Rightarrow> otoken list" where
  "index_tokens i = (if i < 0 then [tok TMinus ''-'', tok TNumber (dec (nat (- i)))] else [tok TNumber (dec (nat i))])"

definition seg_tokens :: "nat \<Rightarrow> oseg \<Rightarrow> otoken list" where
  "seg_tokens idx seg =
     (case seg of
        FieldSeg key \<Rightarrow> (if idx > 0 then [tok TDot ''.''] else []) @ [tok TIdentifier key]
      | IndexSeg i \<Rightarrow> tok TLeftBracket ''['' # index_tokens i @ [tok TRightBracket '']'']
      | WildSeg \<Rightarrow> [tok TLeftBracket ''['', tok TRightBracket '']''])"

section \<open>Lexing\<close>

lemma not_among: "P c \<Longrightarrow> list_all (\<lambda>d. \<not> P d) ds \<Longrightarrow> c \<notin> set ds"
  by (auto simp: list_all_iff)

text \<open>The bytes that start another token.\<close>

definition punctuation :: string where
  "punctuation = ''.()[]{},;:%~|+-*/=<>!#'' @ [CHR 0x22]"

lemma kinds_none:
  assumes "c \<notin> set punctuation"
  shows "c \<noteq> CHR ''#''" "single_kind c = None" "double_kind c = None" "c \<noteq> CHR ''!''" "c \<noteq> CHR 0x22"
  using assms by (simp_all add: punctuation_def single_kind_def double_kind_def)

lemma identifier_start:
  assumes "isOverrideIdentifierStart c"
  shows "c \<notin> set punctuation" "\<not> is_space c" "\<not> is_digit c"
proof -
  have "65 \<le> (of_char c :: nat)"
    using assms by (auto simp: isOverrideIdentifierStart_def is_letter_def in_range_def)
  moreover have "c \<notin> set [CHR 0x85, CHR 0xA0, CHR 0x20]"
    by (rule not_among[where P = isOverrideIdentifierStart, OF assms]) (simp add: isOverrideIdentifierStart_def is_letter_def in_range_def)
  ultimately show "\<not> is_space c" "\<not> is_digit c" by (simp_all add: is_space_def is_digit_def in_range_def)
  show "c \<notin> set punctuation"
    by (rule not_among[where P = isOverrideIdentifierStart, OF assms]) (simp add: punctuation_def isOverrideIdentifierStart_def is_letter_def in_range_def)
qed

lemma digit_start:
  assumes "is_digit c"
  shows "c \<notin> set (''xX'' @ punctuation)" "\<not> is_space c"
proof -
  have "c \<notin> set [CHR 0x85, CHR 0xA0, CHR 0x20]"
    by (rule not_among[where P = is_digit, OF assms]) (simp add: is_digit_def in_range_def)
  then show "\<not> is_space c" using assms by (simp add: is_space_def is_digit_def in_range_def)
  show "c \<notin> set (''xX'' @ punctuation)"
    by (rule not_among[where P = is_digit, OF assms]) (simp add: punctuation_def is_digit_def in_range_def)
qed

lemma span_all: "list_all P xs \<Longrightarrow> rest = [] \<or> \<not> P (hd rest) \<Longrightarrow> span P (xs @ rest) = (xs, rest)"
proof -
  assume all: "list_all P xs" and stop: "rest = [] \<or> \<not> P (hd rest)"
  have "takeWhile P rest = [] \<and> dropWhile P rest = rest" using stop by (cases rest) auto
  then show ?thesis using all by (simp add: span_def takeWhile_append2 dropWhile_append2 list_all_iff)
qed

text \<open>What follows a printed segment: nothing, a dot or a bracket.\<close>

definition seg_end :: "string \<Rightarrow> bool" where
  "seg_end rest \<longleftrightarrow> rest = [] \<or> hd rest = CHR ''.'' \<or> hd rest = CHR ''[''"

lemma lex_identifier:
  assumes "is_identifier key" "seg_end rest"
  shows "lexOverrideExpr (key @ rest) = map_option (Cons (tok TIdentifier key)) (lexOverrideExpr rest)"
proof -
  obtain c cs where key: "key = c # cs" "isOverrideIdentifierStart c" "list_all isOverrideIdentifierPart cs"
    using assms(1) by (cases key) (auto simp: is_identifier_def)
  have "rest = [] \<or> \<not> isOverrideIdentifierPart (hd rest)"
    using assms(2) by (auto simp: seg_end_def isOverrideIdentifierPart_def is_letter_def is_digit_def in_range_def)
  note span = span_all[OF key(3) this]
  show ?thesis using identifier_start[OF key(2)] kinds_none[OF identifier_start(1)[OF key(2)]] key span
    by (simp add: lex_Cons lex_token_def)
qed

lemma dec_digit: "c \<in> set (dec n) \<Longrightarrow> is_digit c"
  using dec_digits by (simp add: is_digit_def in_range_def)

lemma scan_dec: "scanOverrideNumber (dec n @ CHR '']'' # rest) = (dec n, CHR '']'' # rest)"
proof -
  have all: "list_all is_digit (dec n)" using dec_digit by (simp add: list_all_iff)
  have stop: "\<not> is_digit CHR '']''" by (simp add: is_digit_def in_range_def)
  have span: "span is_digit (dec n @ CHR '']'' # rest) = (dec n, CHR '']'' # rest)"
    by (rule span_all[OF all]) (simp add: stop)
  obtain c cs where dec: "dec n = c # cs" by (cases "dec n") auto
  have "\<not> (d = CHR ''x'' \<or> d = CHR ''X'')" if "cs @ CHR '']'' # rest = d # ds" for d ds
  proof (cases cs)
    case (Cons e es)
    then have "is_digit d" using that dec_digit[of d n] dec by simp
    then show ?thesis using digit_start(1)[of d] by auto
  qed (use that in auto)
  then show ?thesis using span dec
    by (auto simp: scanOverrideNumber_def scan_fraction_def scan_exponent_def split: list.splits)
qed

lemma lex_number:
  "lexOverrideExpr (dec n @ CHR '']'' # rest) = map_option (Cons (tok TNumber (dec n))) (lexOverrideExpr (CHR '']'' # rest))"
proof -
  obtain c cs where dec: "dec n = c # cs" by (cases "dec n") auto
  have c: "is_digit c" using dec_digit[of c n] dec by simp
  show ?thesis using scan_dec[of n rest] digit_start[OF c] kinds_none[of c] c
    by (simp add: dec lex_Cons lex_token_def)
qed

lemma lex_single: "single_kind c = Some kind \<Longrightarrow> \<not> is_space c \<Longrightarrow> c \<noteq> CHR ''#'' \<Longrightarrow>
  lexOverrideExpr (c # rest) = map_option (Cons (tok kind [c])) (lexOverrideExpr rest)"
  by (simp add: lex_Cons lex_token_def)

lemma lex_brackets [simp]:
  "lexOverrideExpr (CHR ''['' # rest) = map_option (Cons (tok TLeftBracket ''['')) (lexOverrideExpr rest)"
  "lexOverrideExpr (CHR '']'' # rest) = map_option (Cons (tok TRightBracket '']'')) (lexOverrideExpr rest)"
  "lexOverrideExpr (CHR ''.'' # rest) = map_option (Cons (tok TDot ''.'')) (lexOverrideExpr rest)"
  by (rule lex_single; simp add: single_kind_def is_space_def in_range_def)+

lemma lex_minus:
  assumes "\<not> next_is CHR ''='' rest"
  shows "lexOverrideExpr (CHR ''-'' # rest) = map_option (Cons (tok TMinus ''-'')) (lexOverrideExpr rest)"
  using assms by (simp add: lex_Cons lex_token_def single_kind_def double_kind_def is_space_def in_range_def)

lemma lex_segment:
  assumes "printable_seg seg" "seg_end rest"
  shows "lexOverrideExpr (segment_string idx seg @ rest) = map_option (\<lambda>ts. seg_tokens idx seg @ ts) (lexOverrideExpr rest)"
proof (cases seg)
  case (FieldSeg key)
  then show ?thesis using assms lex_identifier[of key rest]
    by (simp add: segment_string_def seg_tokens_def printable_seg_def option.map_comp comp_def)
next
  case (IndexSeg i)
  have "\<not> next_is CHR ''='' (dec n @ ys)" for n ys
  proof -
    obtain c cs where dec: "dec n = c # cs" by (cases "dec n") auto
    then have "is_digit c" using dec_digit[of c n] by simp
    then show ?thesis using dec by (auto simp: next_is_def is_digit_def in_range_def)
  qed
  then show ?thesis using IndexSeg
    by (simp add: segment_string_def seg_tokens_def index_tokens_def int_str_def lex_number lex_minus option.map_comp comp_def)
next
  case WildSeg
  then show ?thesis by (simp add: segment_string_def seg_tokens_def option.map_comp comp_def)
qed

definition path_text :: "nat \<Rightarrow> opath \<Rightarrow> string" where
  "path_text n path = concat (map (\<lambda>(idx, seg). segment_string idx seg) (List.enumerate n path))"

definition path_tokens :: "nat \<Rightarrow> opath \<Rightarrow> otoken list" where
  "path_tokens n path = concat (map (\<lambda>(idx, seg). seg_tokens idx seg) (List.enumerate n path))"

lemma path_tokens_Cons: "path_tokens n (seg # path) = seg_tokens n seg @ path_tokens (Suc n) path"
  by (simp add: path_tokens_def)

lemma path_text_end: "0 < n \<Longrightarrow> seg_end (path_text n path)"
  by (cases path) (auto simp: path_text_def seg_end_def segment_string_def split: oseg.split)

lemma lex_path: "list_all printable_seg path \<Longrightarrow> lexOverrideExpr (path_text n path) = Some (path_tokens n path)"
proof (induction path arbitrary: n)
  case Nil
  then show ?case by (simp add: path_text_def path_tokens_def)
next
  case (Cons seg path)
  have "lexOverrideExpr (segment_string n seg @ path_text (Suc n) path) =
      map_option (\<lambda>ts. seg_tokens n seg @ ts) (lexOverrideExpr (path_text (Suc n) path))"
    using lex_segment path_text_end Cons.prems by simp
  then show ?case using Cons by (simp add: path_text_def path_tokens_def)
qed

section \<open>Parsing\<close>

lemma parse_base_append: "parse_base base acc (s @ t) =
    (case parse_base base acc s of Some n \<Rightarrow> parse_base base n t | None \<Rightarrow> None)"
  by (induction base acc s rule: parse_base.induct) (auto split: option.splits)

lemma parse_base_dec: "parse_base 10 0 (dec n) = Some n"
proof (induction n rule: dec.induct)
  case (1 n)
  have digit: "parse_base 10 acc [digit_char d] = Some (acc * 10 + d)" if "d < 10" for acc d
    using that by (simp add: OverrideExpr.hex_val_def digit_char_def of_char_of)
  show ?case
  proof (cases "n < 10")
    case True
    then show ?thesis using digit by (subst dec.simps) simp
  next
    case False
    then show ?thesis using "1.IH"[OF False] digit[of "n mod 10" "n div 10"]
      by (subst dec.simps) (simp add: parse_base_append)
  qed
qed

lemma parse_index_positive: "n < 2 ^ 63 \<Longrightarrow> parse_int_base 10 (dec n) = Some (int n)"
proof -
  assume n: "n < 2 ^ 63"
  obtain c cs where dec: "dec n = c # cs" by (cases "dec n") auto
  have "is_digit c" using dec_digit[of c n] dec by simp
  then have "c \<noteq> CHR ''-''" "c \<noteq> CHR ''+''" by (auto simp: is_digit_def in_range_def)
  then show ?thesis using n parse_base_dec[of n] by (simp add: parse_int_base_def dec)
qed

lemma parse_index_negative: "n \<le> 2 ^ 63 \<Longrightarrow> parse_int_base 10 (CHR ''-'' # dec n) = Some (- int n)"
  using parse_base_dec[of n] by (simp add: parse_int_base_def)

lemma bracket_index:
  assumes "- (2 ^ 63) \<le> i" "i < 2 ^ 63"
  shows "bracket_segment (index_tokens i @ tok TRightBracket '']'' # ts) = Some (IndexSeg i, ts)"
proof (cases "i < 0")
  case True
  then have "nat (- i) \<le> 2 ^ 63" using assms(1) by simp
  then show ?thesis using True parse_index_negative[of "nat (- i)"]
    by (simp add: bracket_segment_def index_tokens_def is_field_def)
next
  case False
  then have "nat i < 2 ^ 63" using assms(2) by (simp add: nat_less_iff)
  then show ?thesis using False parse_index_positive[of "nat i"]
    by (simp add: bracket_segment_def index_tokens_def is_field_def)
qed

lemma segment_step:
  assumes "printable_seg seg" "0 < n \<or> \<not> (\<exists>key. seg = FieldSeg key)"
  shows "path_segments (seg_tokens n seg @ ts) = pbind (path_segments ts) (\<lambda>path ts. POk (seg # path) ts)"
proof (cases seg)
  case (FieldSeg key)
  then show ?thesis using assms(2)
    by (simp add: seg_tokens_def path_segments_simps dot_segment_def is_field_def pathField_def)
next
  case (IndexSeg i)
  then show ?thesis using bracket_index[of i] assms(1) by (simp add: seg_tokens_def path_segments_simps printable_seg_def)
next
  case WildSeg
  then show ?thesis by (simp add: seg_tokens_def path_segments_simps bracket_segment_def)
qed

lemma parse_segments: "list_all printable_seg path \<Longrightarrow> 0 < n \<Longrightarrow> path_segments (path_tokens n path) = POk path []"
proof (induction path arbitrary: n)
  case Nil
  then show ?case by (simp add: path_tokens_def path_segments_simps)
next
  case (Cons seg path)
  then show ?case by (simp add: path_tokens_Cons segment_step)
qed



end
