(* ===== verification/OverrideClean.thy ===== *)
theory OverrideClean
  imports OverrideApply
begin

text \<open>
  The values that override expressions compute (\<open>override_expr.go\<close>) are values that the YAML decoder
  could have produced: mappings with distinct keys, and no marker of no match inside. Every operator,
  function and expression keeps this, except for the compound value updates, whose code does not
  check for the marker.
\<close>

section \<open>Clean values\<close>

fun clean :: "oval \<Rightarrow> bool" where
  "clean (VList xs) = (\<forall>x \<in> set xs. clean x)"
| "clean (VMap m) = (sorted_map m \<and> (\<forall>kv \<in> set m. clean (snd kv)))"
| "clean VNoMatch = False"
| "clean _ = True"

text \<open>The results of a call that may have none.\<close>

definition clean_opt :: "oval option \<Rightarrow> bool" where
  "clean_opt r \<longleftrightarrow> (\<forall>v. r = Some v \<longrightarrow> clean v \<or> v = VNoMatch)"

definition clean_stream :: "oval list option \<Rightarrow> bool" where
  "clean_stream r \<longleftrightarrow> (\<forall>vs. r = Some vs \<longrightarrow> (\<forall>v \<in> set vs. clean v))"

named_theorems clean_rules

lemma clean_put [clean_rules]: "clean (VMap m) \<Longrightarrow> clean v \<Longrightarrow> clean (VMap (map_put k v m))"
proof -
  have "kv \<in> set (map_put k v m) \<Longrightarrow> kv = (k, v) \<or> kv \<in> set m" for kv
    by (induction m) (auto split: if_splits)
  then show "clean (VMap m) \<Longrightarrow> clean v \<Longrightarrow> clean (VMap (map_put k v m))" by fastforce
qed

lemma clean_map_of: "clean (VMap m) \<Longrightarrow> map_of m k = Some v \<Longrightarrow> clean v"
  by (fastforce dest: map_of_SomeD)

lemma clean_get [clean_rules]: "clean (VMap m) \<Longrightarrow> clean (map_get m k)"
  using clean_map_of[of m k] by (auto simp: map_get_def split: option.splits simp del: clean.simps(2))

lemma clean_vint [simp]: "clean (vint n)"
  by (simp add: vint_def)

lemma clean_fold_put: "clean (VMap m) \<Longrightarrow> clean (VMap kvs) \<Longrightarrow> clean (VMap (fold (\<lambda>(k, v) m. map_put k v m) kvs m))"
proof -
  have "(\<forall>kv \<in> set kvs. clean (snd kv)) \<Longrightarrow> clean (VMap m) \<Longrightarrow> clean (VMap (fold (\<lambda>(k, v) m. map_put k v m) kvs m))"
    by (induction kvs arbitrary: m) (auto simp: clean_put simp del: clean.simps(2))
  then show "clean (VMap m) \<Longrightarrow> clean (VMap kvs) \<Longrightarrow> clean (VMap (fold (\<lambda>(k, v) m. map_put k v m) kvs m))"
    by simp
qed

lemma clean_not_marker: "clean v \<Longrightarrow> v \<noteq> VNoMatch"
  by auto

section \<open>Paths\<close>

lemma clean_lookup: "clean v \<Longrightarrow> x \<in> set (lookupOverridePathStream v path) \<Longrightarrow> clean x"
proof (induction v path rule: lookupOverridePathStream.induct)
  case (2 v key path)
  then show ?case by (cases v) (auto simp: clean_get simp del: clean.simps(2))
next
  case (3 v i path)
  then show ?case by (cases v) (auto simp: Let_def split: if_splits)
next
  case (4 v path)
  then show ?case by (cases v) fastforce+
qed simp

lemma those_SomeD: "those xs = Some ys \<Longrightarrow> length ys = length xs \<and> (\<forall>i < length xs. xs ! i = Some (ys ! i))"
proof (induction xs arbitrary: ys)
  case (Cons x xs)
  then obtain y ys' where "x = Some y" "those xs = Some ys'" "ys = y # ys'" by (auto split: option.splits)
  then show ?case using Cons.IH[of ys'] by (auto simp: nth_Cons split: nat.splits)
qed simp

lemma those_set: "those xs = Some ys \<Longrightarrow> y \<in> set ys \<Longrightarrow> Some y \<in> set xs"
  using those_SomeD[of xs ys] by (auto simp: in_set_conv_nth)

lemma those_keys: "those (map (\<lambda>(k, x). map_option (\<lambda>v. (k, v)) (f x)) m) = Some n \<Longrightarrow> map fst n = map fst m"
proof (induction m arbitrary: n)
  case (Cons kv m)
  then show ?case by (cases kv) (auto split: option.splits)
qed simp

lemma clean_update:
  assumes "\<And>old v. clean old \<Longrightarrow> f old = Some v \<Longrightarrow> clean v"
  shows "clean node \<Longrightarrow> updateOverridePath f node path = Some v \<Longrightarrow> clean v"
proof (induction path arbitrary: node v)
  case Nil
  then show ?case using assms by simp
next
  case (Cons seg path)
  show ?case
  proof (cases seg)
    case (FieldSeg key)
    show ?thesis
    proof (cases "node = VNull \<or> (\<exists>m. node = VMap m)")
      case True
      then obtain m where m: "(if node = VNull then VMap [] else node) = VMap m" "clean (VMap m)"
        using Cons.prems(1) by (cases "node = VNull") auto
      then obtain x where "updateOverridePath f (map_get m key) path = Some x" "v = VMap (map_put key x m)"
        using Cons.prems(2) by (auto simp: FieldSeg)
      then show ?thesis using Cons.IH[OF clean_get[OF m(2)]] m(2) by (auto simp: clean_put simp del: clean.simps(2))
    next
      case False
      then show ?thesis using Cons.prems FieldSeg by (cases node) auto
    qed
  next
    case (IndexSeg i)
    show ?thesis
    proof (cases "node = VNull \<or> (\<exists>xs. node = VList xs)")
      case True
      then obtain xs where xs: "(if node = VNull then VList [] else node) = VList xs" "clean (VList xs)"
        using Cons.prems(1) by (cases "node = VNull") auto
      define a where "a = pad_to (nat (array_index i xs)) xs"
      have a: "\<forall>x \<in> set a. clean x" "nat (array_index i xs) < length a"
        using xs(2) by (auto simp: a_def pad_to_def)
      obtain x where x: "updateOverridePath f (a ! nat (array_index i xs)) path = Some x" "v = VList (a[nat (array_index i xs) := x])"
        using Cons.prems(2) xs(1) by (auto simp: IndexSeg a_def Let_def split: if_splits)
      have "clean x" using Cons.IH[OF _ x(1)] a by simp
      then show ?thesis using x(2) a set_update_subset_insert[of a] by auto
    next
      case False
      then show ?thesis using Cons.prems IndexSeg by (cases node) auto
    qed
  next
    case WildSeg
    show ?thesis
    proof (cases node)
      case (VList xs)
      then obtain ys where "those (map (\<lambda>x. updateOverridePath f x path) xs) = Some ys" "v = VList ys"
        using Cons.prems WildSeg by auto
      moreover have "clean y" if "y \<in> set ys" for y
        using those_set[OF calculation(1) that] Cons.IH Cons.prems(1) VList by auto
      ultimately show ?thesis by simp
    next
      case (VMap m)
      then obtain n where n: "those (map (\<lambda>(k, x). map_option (\<lambda>v. (k, v)) (updateOverridePath f x path)) m) = Some n" "v = VMap n"
        using Cons.prems WildSeg by auto
      have "clean (snd kv)" if kv: "kv \<in> set n" for kv
      proof -
        obtain k x y where "(k, x) \<in> set m" "updateOverridePath f x path = Some y" "kv = (k, y)"
          using those_set[OF n(1) kv] by (auto simp: eq_commute[of "Some kv"])
        then show ?thesis using Cons.IH[of x y] Cons.prems(1) VMap by auto
      qed
      then show ?thesis using those_keys[OF n(1)] sorted_map_mapped Cons.prems(1) VMap n(2) by auto
    qed (use Cons.prems WildSeg in auto)
  qed
qed

section \<open>Operators\<close>

lemma clean_number [clean_rules]: "evaluateOverrideNumbers E operator l r = Some v \<Longrightarrow> clean v"
  by (auto simp: evaluateOverrideNumbers_def Let_def split: option.splits if_splits)

lemma clean_repeat [clean_rules]: "repeat_string E s r = Some v \<Longrightarrow> clean v"
  by (auto simp: repeat_string_def split: option.splits if_splits bool.splits)

lemma clean_merge: "clean (VMap l) \<Longrightarrow> clean (VMap r) \<Longrightarrow> clean (VMap (mergeOverrideMaps l r))"
proof (induction l r rule: mergeOverrideMaps.induct)
  case (2 left key rightValue right)
  let ?v = "case (map_of left key, rightValue) of
            (Some (VMap l), VMap r) \<Rightarrow> VMap (mergeOverrideMaps l r)
          | _ \<Rightarrow> rightValue"
  have r: "clean rightValue" "clean (VMap right)" using 2(4) by (auto simp: sorted_map_Cons)
  have "clean ?v"
  proof (cases "\<exists>l r. map_of left key = Some (VMap l) \<and> rightValue = VMap r")
    case True
    then obtain l r' where lr: "map_of left key = Some (VMap l)" "rightValue = VMap r'" by blast
    have "clean (VMap l)" using clean_map_of[OF 2(3) lr(1)] .
    then have "clean (VMap (mergeOverrideMaps l r'))" using 2(1)[of "Some (VMap l)" rightValue "VMap l" l r'] lr r by simp
    then show ?thesis using lr by simp
  next
    case False
    then have "?v = rightValue"
      by (cases "map_of left key"; cases "the (map_of left key)"; cases rightValue) auto
    then show ?thesis using r by simp
  qed
  then show ?case using 2(2)[OF clean_put[OF 2(3)] r(2)] by simp
qed simp

lemma if_SomeE: "(if c then a else b) = Some v \<Longrightarrow> (a = Some v \<Longrightarrow> P) \<Longrightarrow> (b = Some v \<Longrightarrow> P) \<Longrightarrow> P"
  by (simp split: if_splits)

lemma clean_add: "override_add E l r = Some v \<Longrightarrow> clean l \<Longrightarrow> clean r \<Longrightarrow> clean v"
  by (cases l; cases r)
    (auto simp: override_add_def clean_fold_put simp del: clean.simps(2) dest: clean_number split: if_splits)

lemma clean_subtract: "override_subtract E l r = Some v \<Longrightarrow> clean l \<Longrightarrow> clean r \<Longrightarrow> clean v"
  by (cases l; cases r) (auto simp: override_subtract_def simp del: clean.simps(2) dest: clean_number)

lemma clean_multiply: "override_multiply E l r = Some v \<Longrightarrow> clean l \<Longrightarrow> clean r \<Longrightarrow> clean v"
  by (cases l; cases r)
    (auto simp: override_multiply_def clean_merge simp del: clean.simps(2) dest: clean_number clean_repeat)

lemma clean_divide: "override_divide E l r = Some v \<Longrightarrow> clean v"
  by (cases l; cases r) (auto simp: override_divide_def dest: clean_number split: if_splits)

lemma clean_order: "override_order operator l r = Some v \<Longrightarrow> clean v"
  by (auto simp: override_order_def split: option.splits if_splits)

lemma clean_binary: "evaluateOverrideBinary E operator l r = Some v \<Longrightarrow> clean l \<Longrightarrow> clean r \<Longrightarrow> clean v"
  unfolding evaluateOverrideBinary_def
  by (elim if_SomeE)
    (auto dest: clean_add clean_subtract clean_multiply clean_divide clean_order clean_number)

section \<open>Functions\<close>

lemma clean_unique: "unique_loop E seen xs = Some ys \<Longrightarrow> \<forall>x \<in> set xs. P x \<Longrightarrow> \<forall>y \<in> set ys. P y"
  by (induction xs arbitrary: seen ys) (fastforce split: option.splits if_splits)+

lemma clean_flatten: "\<forall>x \<in> set xs. clean x \<Longrightarrow> \<forall>x \<in> set (flattenOverrideArray xs depth). clean x"
proof (induction xs depth rule: flattenOverrideArray.induct)
  case (2 v vs depth)
  have vs: "\<forall>x \<in> set vs. clean x" using "2.prems" by simp
  have rest: "\<forall>x \<in> set (flattenOverrideArray vs depth). clean x"
  proof (cases v)
    case (VList children)
    then show ?thesis using "2.IH"(6,8)[OF VList _ vs] by blast
  qed (use "2.IH"(1-5,9,10) vs in \<open>blast+\<close>)
  show ?case
  proof (cases v)
    case (VList children)
    then have "\<forall>x \<in> set children. clean x" using "2.prems" by simp
    then show ?thesis using "2.IH"(7)[OF VList] rest VList "2.prems" by (simp add: ball_Un)
  qed (use rest "2.prems" in simp_all)
qed simp

lemma set_insert_left [simp]: "set (insert_left x ys) = insert x (set ys)"
  by (induction ys) auto

lemma set_stable_sort [simp]: "set (stable_sort xs) = set xs"
proof -
  have "set (fold insert_left xs ys) = set xs \<union> set ys" for ys
    by (induction xs arbitrary: ys) auto
  then show ?thesis by (simp add: stable_sort_def)
qed

lemma clean_entries: "clean v \<Longrightarrow> toOverrideEntries v = Some (Some entries) \<Longrightarrow> \<forall>x \<in> set entries. clean x"
  by (cases v) (fastforce simp: toOverrideEntries_def entry_map_def sorted_map_Cons in_set_enumerate_eq)+

lemma clean_from_loop:
  "\<forall>x \<in> set entries. clean x \<Longrightarrow> clean (VMap m) \<Longrightarrow> from_entries_loop entries m = Some n \<Longrightarrow> clean (VMap n)"
proof (induction entries arbitrary: m)
  case (Cons item entries)
  then obtain entry key v where e: "item = VMap entry" "map_of entry ''value'' = Some v"
    "from_entries_loop entries (map_put key v m) = Some n"
    by (auto split: oval.splits option.splits)
  have "clean v" using clean_map_of[OF _ e(2)] Cons.prems(1) e(1) by simp
  then show ?case using Cons.IH[OF _ clean_put[OF Cons.prems(2)] e(3)] Cons.prems(1) by simp
qed simp

lemma clean_from_entries: "clean v \<Longrightarrow> fromOverrideEntries v = Some n \<Longrightarrow> clean (VMap n)"
  using clean_from_loop[of "case v of VList xs \<Rightarrow> xs" "[]" n] by (cases v) (auto simp: fromOverrideEntries_def)

lemma no_argsD: "no_args args r = Some v \<Longrightarrow> r = Some v"
  by (simp add: no_args_def split: if_splits)

lemma of_arrayD: "of_array input f = Some v \<Longrightarrow> \<exists>xs. input = VList xs \<and> f xs = Some v"
  by (cases input) (simp_all add: of_array_def)

lemma clean_unique_fn: "fn_unique E args input = Some v \<Longrightarrow> clean input \<Longrightarrow> clean v"
  using clean_unique[where P = clean] by (fastforce simp: fn_unique_def dest!: no_argsD of_arrayD)

lemma clean_flatten_fn: "fn_flatten E args input = Some v \<Longrightarrow> clean input \<Longrightarrow> clean v"
  by (auto simp: fn_flatten_def clean_flatten dest!: of_arrayD split: if_splits list.splits option.splits bool.splits)

lemma clean_any_all: "fn_any_all all args input = Some v \<Longrightarrow> clean v"
  by (auto simp: fn_any_all_def dest!: no_argsD of_arrayD)

lemma clean_length: "fn_length E args input = Some v \<Longrightarrow> clean v"
  by (cases input) (auto simp: fn_length_def dest!: no_argsD)

lemma clean_keys: "fn_keys args input = Some v \<Longrightarrow> clean v"
  by (cases input) (auto simp: fn_keys_def dest!: no_argsD)

lemma clean_has: "fn_has E args input = Some v \<Longrightarrow> clean v"
  by (cases input) (auto simp: fn_has_def Let_def split: if_splits option.splits bool.splits)

lemma clean_contains: "fn_contains args input = Some v \<Longrightarrow> clean v"
  by (cases input) (auto simp: fn_contains_def split: if_splits oval.splits)

lemma clean_regexp: "fn_regexp E test args input = Some v \<Longrightarrow> clean v"
  by (cases input) (auto simp: fn_regexp_def split: if_splits option.splits)

lemma clean_split: "fn_split args input = Some v \<Longrightarrow> clean v \<or> v = VNoMatch"
  by (cases input) (auto simp: fn_split_def split: if_splits)

lemma clean_join: "fn_join E args input = Some v \<Longrightarrow> clean v"
  by (auto simp: fn_join_def dest!: of_arrayD split: if_splits)

lemma clean_string: "fn_string f args input = Some v \<Longrightarrow> clean v"
  by (cases input) (auto simp: fn_string_def dest!: no_argsD)

lemma clean_tostring: "fn_tostring E args input = Some v \<Longrightarrow> clean v"
  by (cases input) (auto simp: fn_tostring_def dest!: no_argsD)

lemma clean_tonumber: "fn_tonumber E args input = Some v \<Longrightarrow> clean input \<Longrightarrow> clean v"
  by (cases input) (auto simp: fn_tonumber_def Let_def dest!: no_argsD split: if_splits option.splits prod.splits)

lemma clean_select: "fn_select args input = Some v \<Longrightarrow> clean input \<Longrightarrow> clean v \<or> v = VNoMatch"
  by (auto simp: fn_select_def split: if_splits)

lemma clean_reverse: "no_args args (of_array input (\<lambda>xs. Some (VList (rev xs)))) = Some v \<Longrightarrow> clean input \<Longrightarrow> clean v"
  by (auto dest!: no_argsD of_arrayD)

lemma clean_sort: "no_args args (of_array input (\<lambda>xs. map_option VList (override_sort xs))) = Some v \<Longrightarrow> clean input \<Longrightarrow> clean v"
  by (auto simp: override_sort_def dest!: no_argsD of_arrayD split: if_splits)

lemma clean_constant: "no_args args (Some v) = Some w \<Longrightarrow> clean v \<Longrightarrow> clean w"
  by (auto dest!: no_argsD)

lemma clean_function: "override_function E name args input = Some v \<Longrightarrow> clean input \<Longrightarrow> clean v \<or> v = VNoMatch"
  unfolding override_function_def
  by (elim if_SomeE)
    (auto dest: clean_select clean_constant clean_reverse clean_sort clean_unique_fn clean_flatten_fn clean_any_all
      clean_length clean_keys clean_has clean_contains clean_regexp clean_split clean_join clean_string clean_tostring
      clean_tonumber)

section \<open>Stream functions\<close>

lemma clean_streamI: "(\<And>vs v. r = Some vs \<Longrightarrow> v \<in> set vs \<Longrightarrow> clean v) \<Longrightarrow> clean_stream r"
  by (simp add: clean_stream_def)

lemma clean_streamD: "clean_stream r \<Longrightarrow> r = Some vs \<Longrightarrow> \<forall>v \<in> set vs. clean v"
  by (simp add: clean_stream_def)

lemma clean_collect: "(\<And>x. x \<in> set xs \<Longrightarrow> clean_stream (f x)) \<Longrightarrow> clean_stream (collect f xs)"
proof (induction xs)
  case (Cons x xs)
  then have "clean_stream (f x)" "clean_stream (collect f xs)" by simp_all
  then show ?case by (auto simp: clean_stream_def split: option.splits)
qed (simp add: clean_stream_def)

lemma opt_map_SomeD: "opt_map f xs = Some ys \<Longrightarrow> y \<in> set ys \<Longrightarrow> \<exists>x \<in> set xs. f x = Some y"
  by (induction xs arbitrary: ys) (auto split: option.splits)

lemma opt_map_keys: "opt_map (\<lambda>(k, x). map_option (\<lambda>v. (k, g k x v)) (f x)) m = Some n \<Longrightarrow> map fst n = map fst m"
proof (induction m arbitrary: n)
  case (Cons kv m)
  then show ?case by (cases kv) (auto split: option.splits)
qed simp

lemma clean_stream_of: "(\<And>v. r = Some v \<Longrightarrow> clean v \<or> v = VNoMatch) \<Longrightarrow> clean_stream (stream_of r)"
  by (auto simp: clean_stream_def stream_of_def)

lemma clean_single_of: "clean_stream r \<Longrightarrow> single_of r = Some v \<Longrightarrow> clean v \<or> v = VNoMatch"
  by (auto simp: single_of_def clean_stream_def split: option.splits list.splits)

lemma clean_collection: "clean v \<Longrightarrow> overrideCollectionValues v = Some xs \<Longrightarrow> \<forall>x \<in> set xs. clean x"
  by (cases v) (auto simp: overrideCollectionValues_def)

lemma filter_loop_all: "filter_loop each vs = Some kept \<Longrightarrow> \<forall>v \<in> set vs. P v \<Longrightarrow> \<forall>v \<in> set kept. P v"
  by (induction vs arbitrary: kept) (fastforce split: option.splits if_splits)+

lemma clean_first_or: "clean v \<Longrightarrow> \<forall>x \<in> set items. clean x \<Longrightarrow> clean (first_or v items)"
  by (cases items) (simp_all add: first_or_def)

lemma clean_map_values:
  assumes "clean input" "\<And>v. clean v \<Longrightarrow> clean_stream (each v)"
  shows "clean_stream (sf_map_values none each input)"
proof (cases input)
  case (VList xs)
  have "clean y" if "opt_map (\<lambda>x. map_option (first_or x) (each x)) xs = Some ys" "y \<in> set ys" for ys y
    using opt_map_SomeD[OF that] assms VList by (auto dest: clean_streamD intro!: clean_first_or)
  then show ?thesis using VList by (auto simp: sf_map_values_def clean_stream_def)
next
  case (VMap m)
  have "clean (VMap n)" if "opt_map (\<lambda>(k, x). map_option (\<lambda>items. (k, first_or x items)) (each x)) m = Some n" for n
  proof -
    have "clean (snd kv)" if "kv \<in> set n" for kv
      using opt_map_SomeD[OF \<open>opt_map _ m = Some n\<close> that] assms VMap
      by (fastforce dest: clean_streamD intro!: clean_first_or)
    then show ?thesis using opt_map_keys[OF that] sorted_map_mapped assms(1) VMap by auto
  qed
  then show ?thesis using VMap by (auto simp: sf_map_values_def clean_stream_def simp del: clean.simps(2))
qed (simp_all add: sf_map_values_def clean_stream_def)

lemma clean_with_entries:
  assumes "clean input" "\<And>v. clean v \<Longrightarrow> clean_stream (each v)"
  shows "clean_stream (sf_with_entries none each input)"
proof (cases input)
  case (VMap m)
  have "clean (VMap n)" if "toOverrideEntries input = Some (Some entries)" "collect each entries = Some xs"
    "fromOverrideEntries (VList xs) = Some n" for entries xs n
  proof -
    have "clean_stream (collect each entries)" using clean_entries[OF assms(1) that(1)] assms(2) by (intro clean_collect) auto
    then have "clean (VList xs)" using that(2) by (auto dest: clean_streamD)
    then show ?thesis using clean_from_entries that(3) by blast
  qed
  then show ?thesis using VMap
    by (auto simp: sf_with_entries_def clean_stream_def simp del: clean.simps(2) split: option.splits)
qed (simp_all add: sf_with_entries_def clean_stream_def)

lemma clean_stream_function:
  assumes "clean input" "\<And>v. clean v \<Longrightarrow> clean_stream (each v)" "\<And>vs. \<forall>v \<in> set vs. clean v \<Longrightarrow> clean_stream (batch vs)"
  shows "clean_stream (override_stream_function name none each batch input)"
proof -
  have "clean_stream (sf_map none batch input)"
    using clean_collection[OF assms(1)] assms(3) by (auto simp: sf_map_def clean_stream_def split: option.splits)
  moreover have "clean_stream (sf_filter none each input)"
    using clean_collection[OF assms(1)] filter_loop_all[where P = clean]
    by (fastforce simp: sf_filter_def clean_stream_def split: option.splits)
  moreover have "clean_stream (sf_to_entries none input)"
    using clean_entries[OF assms(1)] by (auto simp: sf_to_entries_def clean_stream_def split: option.splits)
  moreover have "clean_stream (sf_from_entries none input)"
    using clean_from_entries[OF assms(1)] by (auto simp: sf_from_entries_def clean_stream_def simp del: clean.simps(2))
  moreover have "clean_stream (sf_any_all all none each input)" for all
    by (cases input) (auto simp: sf_any_all_def clean_stream_def)
  ultimately show ?thesis using clean_map_values[OF assms(1,2)] clean_with_entries[OF assms(1,2)]
    by (simp add: override_stream_function_def clean_stream_def[of None])
qed

section \<open>Expressions\<close>

text \<open>Literals are values, and no value update is a compound one (\<open>+=\<close>, \<open>-=\<close>, \<open>*=\<close>).\<close>

function plain_expr :: "oexpr \<Rightarrow> bool" where
  "plain_expr (LiteralExpr v) = clean v"
| "plain_expr (StringExpr parts) = (\<forall>part \<in> set parts. case part of Inl literal \<Rightarrow> True | Inr e \<Rightarrow> plain_expr e)"
| "plain_expr (PathExpr path) = True"
| "plain_expr (ArrayExpr es) = (\<forall>e \<in> set es. plain_expr e)"
| "plain_expr (MapExpr entries) = (\<forall>(key, e) \<in> set entries. plain_expr e)"
| "plain_expr (ValueUpdateExpr path operator e) = ((operator = TAssign \<or> operator = TUpdateAssign) \<and> plain_expr e)"
| "plain_expr (BinaryExpr operator left right) = (plain_expr left \<and> plain_expr right)"
| "plain_expr (FunctionExpr name args) = (\<forall>e \<in> set args. plain_expr e)"
| "plain_expr (StreamFunctionExpr name args) = (\<forall>e \<in> set args. plain_expr e)"
| "plain_expr (PipelineExpr stages) = (\<forall>e \<in> set stages. plain_expr e)"
| "plain_expr (UnionExpr es) = (\<forall>e \<in> set es. plain_expr e)"
  by pat_completeness auto
termination
  by (relation "measure size")
    (auto dest: size_in_list[where f = size] size_in_list[where f = "size_prod (\<lambda>x. 0) size"]
      size_in_list[where f = "size_sum (\<lambda>x. 0) size"])

lemma clean_binary_results:
  assumes "\<forall>l \<in> set lefts. clean l" "clean_stream right"
  shows "clean_stream (binary_results E operator lefts right)"
proof -
  have "clean_stream (binary_alternative lefts right)"
    using assms by (auto simp: binary_alternative_def clean_stream_def[of "Some _"] intro!: clean_collect)
  have "clean_stream (collect (\<lambda>l. if stops l then Some [VBool b] else opt_map (evaluateOverrideBinary E operator l) rights) lefts)"
    if "right = Some rights" for stops b rights
    using assms that by (intro clean_collect) (auto simp: clean_stream_def dest!: opt_map_SomeD dest: clean_binary)
  note each = this
  have "clean_stream (collect (\<lambda>l. opt_map (evaluateOverrideBinary E operator l) rights) lefts)" if "right = Some rights" for rights
    using each[OF that, of "\<lambda>l. False"] by simp
  then show ?thesis using each \<open>clean_stream (binary_alternative lefts right)\<close>
    by (auto simp: binary_results_def Let_def clean_stream_def[of "Some (map _ _)"] clean_stream_def[of None] split: option.splits)
qed

lemma clean_map_entries:
  assumes "\<And>key e. (key, e) \<in> set entries \<Longrightarrow> clean_stream (f e)"
    "opt_map (\<lambda>(key, e). map_option (\<lambda>vs. (key, vs)) (f e)) entries = Some rs"
  shows "clean (VMap (fold (\<lambda>(key, vs) m. if vs = [] then m else map_put key (last vs) m) rs []))"
proof -
  have all: "\<forall>v \<in> set (snd r). clean v" if "r \<in> set rs" for r
    using opt_map_SomeD[OF assms(2) that] assms(1) clean_streamD by fastforce
  have "\<forall>r \<in> set rs. \<forall>v \<in> set (snd r). clean v \<Longrightarrow> clean (VMap m) \<Longrightarrow>
      clean (VMap (fold (\<lambda>(key, vs) m. if vs = [] then m else map_put key (last vs) m) rs m))" for m and rs :: "(string \<times> oval list) list"
    by (induction rs arbitrary: m) (auto simp: clean_put simp del: clean.simps(2))
  from this[of rs "[]"] show ?thesis using all by simp
qed

lemma clean_eval:
  "plain_expr e \<Longrightarrow> clean input \<Longrightarrow> clean_stream (evalOverrideStream E e input)"
  "plain_expr e \<Longrightarrow> \<forall>v \<in> set inputs. clean v \<Longrightarrow> clean_stream (evalOverrideStreamInputs E e inputs)"
  "\<forall>e \<in> set stages. plain_expr e \<Longrightarrow> \<forall>v \<in> set inputs. clean v \<Longrightarrow> clean_stream (evalStages E stages inputs)"
proof (induction E e input and E e inputs and E stages inputs
    rule: evalOverrideStream_evalOverrideStreamInputs_evalStages.induct)
  case (2 E parts input)
  show ?case by (auto simp: eval_simps clean_stream_def)
next
  case (3 E path input)
  then show ?case using clean_lookup by (auto simp: eval_simps clean_stream_def)
next
  case (4 E es input)
  then have "clean_stream (collect (\<lambda>e. evalOverrideStream E e input) es)" by (intro clean_collect) auto
  then show ?case by (auto simp: eval_simps clean_stream_def)
next
  case (5 E entries input)
  have "clean_stream (evalOverrideStream E e input)" if "(key, e) \<in> set entries" for key e
    using 5 that by auto
  then show ?case using clean_map_entries[of entries "\<lambda>e. evalOverrideStream E e input"]
    by (auto simp: eval_simps clean_stream_def simp del: clean.simps(2))
next
  case (6 E path operator e input)
  show ?case
  proof (cases "operator = TUpdateAssign")
    case True
    have "clean w" if "updateOverridePath (\<lambda>old. update_old (single_of (evalOverrideStream E e old)) old) input path = Some w" for w
    proof (rule clean_update[OF _ _ that])
      show "clean input" by (rule "6.prems"(2))
      fix old v assume "clean old" "update_old (single_of (evalOverrideStream E e old)) old = Some v"
      then show "clean v" using "6.IH"(1)[OF True] "6.prems"(1) clean_single_of
        by (fastforce simp: update_old_def split: if_splits)
    qed
    then show ?thesis using True by (auto simp: eval_simps intro!: clean_stream_of)
  next
    case False
    then have op: "operator = TAssign" using "6.prems"(1) by simp
    have "clean w" if "single_of (evalOverrideStream E e input) = Some v" "v \<noteq> VNoMatch"
      "updateOverridePath (\<lambda>old. Some v) input path = Some w" for v w
    proof (rule clean_update[OF _ _ that(3)])
      show "clean input" by (rule "6.prems"(2))
      have "clean_stream (evalOverrideStream E e input)" using "6.IH"(2)[OF False] "6.prems" by simp
      then show "Some v = Some v' \<Longrightarrow> clean v'" for v' using clean_single_of that by auto
    qed
    then show ?thesis using op "6.prems"(2)
      by (auto simp: eval_simps intro!: clean_stream_of split: option.splits if_splits)
  qed
next
  case (7 E operator left right input)
  then show ?case
    by (auto simp: eval_simps clean_stream_def[of None] intro!: clean_binary_results dest: clean_streamD split: option.splits)
next
  case (8 E name args input)
  then show ?case
    by (auto simp: eval_simps intro!: clean_stream_of split: option.splits if_splits dest: clean_function)
next
  case (9 E name args input)
  then show ?case
    by (simp only: eval_simps) (intro clean_stream_function clean_collect, auto)
next
  case (11 E es input)
  then show ?case by (simp only: eval_simps) (intro clean_collect, auto)
next
  case (12 E es inputs)
  then show ?case by (simp only: eval_simps) (intro clean_collect, auto)
qed (auto simp: eval_simps clean_stream_def[of "Some _"] clean_stream_def[of None] stream_of_def
    intro!: clean_collect dest: clean_streamD split: option.splits)

section \<open>Statements\<close>

fun plain_statement :: "ostatement \<Rightarrow> bool" where
  "plain_statement (AssignStatement path target operator e) = plain_expr e"
| "plain_statement (DeleteStatement paths) = True"
| "plain_statement (FilterStatement e) = plain_expr e"

lemma clean_delete: "clean v \<Longrightarrow> clean (deleteOverridePaths v paths)"
proof (induction v paths rule: deleteOverridePaths.induct)
  case (1 m paths)
  define f where "f = (\<lambda>(key, child).
       let hits = filter (field_hits key) paths in
       if list_ex (\<lambda>p. length p = 1) hits then []
       else if hits = [] then [(key, child)]
       else [(key, deleteOverridePaths child (map tl hits))])"
  have delete: "deleteOverridePaths (VMap m) paths = VMap (concat (map f m))" by (simp add: f_def)
  have child: "clean (snd kv')" if "kv \<in> set m" "kv' \<in> set (f kv)" for kv kv'
  proof -
    obtain key child where kv: "kv = (key, child)" by (cases kv)
    have "clean child" using "1.prems" that(1) kv by auto
    then show ?thesis using that "1.IH"[OF that(1) kv[symmetric]] kv by (auto simp: f_def Let_def split: if_splits)
  qed
  have keys: "fst kv' = fst kv" if "kv' \<in> set (f kv)" for kv kv'
    using that by (cases kv) (auto simp: f_def Let_def split: if_splits)
  have "sorted_map n \<Longrightarrow> sorted_map (concat (map f n))" for n
  proof (induction n)
    case (Cons kv n)
    have "length (f kv) \<le> 1" by (cases kv) (auto simp: f_def Let_def)
    then consider "f kv = []" | kv' where "f kv = [kv']" by (cases "f kv") auto
    then show ?case
    proof cases
      case 2
      have "fst kv' = fst kv" using keys[of kv' kv] 2 by simp
      moreover have "fst kv < k" if k: "k \<in> fst ` set (concat (map f n))" for k
      proof -
        obtain x y where "x \<in> set n" "y \<in> set (f x)" "k = fst y" using k by auto
        then show ?thesis using keys Cons.prems by (simp add: sorted_map_Cons)
      qed
      ultimately show ?thesis using Cons 2 by (simp add: sorted_map_Cons)
    qed (use Cons in \<open>simp add: sorted_map_Cons\<close>)
  qed simp
  then show ?case using "1.prems" child by (auto simp: delete simp del: deleteOverridePaths.simps)
next
  case (2 xs paths)
  have "clean x" if "p \<in> set (List.enumerate 0 xs)"
    "x \<in> set ((\<lambda>(idx, child).
       let hits = filter (index_hits xs idx) paths in
       if list_ex (\<lambda>p. length p = 1) hits then []
       else if hits = [] then [child]
       else [deleteOverridePaths child (map tl hits)]) p)" for p x
  proof -
    obtain idx child where p: "p = (idx, child)" by (cases p)
    then have "clean child" using that(1) "2.prems" by (auto simp: in_set_enumerate_eq)
    then show ?thesis using that p "2.IH"[OF that(1) p[symmetric]] by (auto simp: Let_def split: if_splits)
  qed
  then show ?case by auto
qed simp_all

lemma clean_update_all:
  assumes "\<And>old v. clean old \<Longrightarrow> f old = Some v \<Longrightarrow> clean v"
  shows "clean (VMap m) \<Longrightarrow> update_all f paths m = Some n \<Longrightarrow> clean (VMap n)"
proof (induction paths arbitrary: m)
  case (Cons path paths)
  then obtain m' where m': "updateOverridePath f (VMap m) path = Some (VMap m')" "update_all f paths m' = Some n"
    by (auto split: option.splits oval.splits)
  have "clean (VMap m')" using clean_update[OF assms Cons.prems(1) m'(1)] .
  then show ?case using Cons.IH m'(2) by blast
qed simp

lemma clean_updater:
  assumes "plain_expr e" "clean input" "assign_updater E operator e input = Some (Some f)" "clean old" "f old = Some v"
  shows "clean v"
proof -
  have result: "clean w \<or> w = VNoMatch" if "evalOverrideSingle E e x = Some w" "clean x" for w x
    using clean_single_of[OF clean_eval(1)[OF assms(1) that(2)]] that(1) by (simp add: evalOverrideSingle_def)
  show ?thesis
  proof (cases "operator = TUpdateAssign")
    case True
    then show ?thesis using assms(3-5) result[of old] by (auto simp: assign_updater_def update_old_def split: if_splits)
  next
    case False
    then obtain w where w: "evalOverrideSingle E e input = Some w" "w \<noteq> VNoMatch"
      "f = (if operator = TAssign then (\<lambda>old. Some w) else (\<lambda>old. evaluateOverrideBinary E (assign_operator operator) old w))"
      using assms(3) by (auto simp: assign_updater_def split: option.splits if_splits)
    then have "clean w" using result assms(2) by blast
    then show ?thesis using w(3) assms(4,5) clean_binary by (auto split: if_splits)
  qed
qed

lemma clean_statement: "plain_statement s \<Longrightarrow> clean (VMap m) \<Longrightarrow> apply_statement E s m = Some n \<Longrightarrow> clean (VMap n)"
proof (cases s)
  case (AssignStatement path target operator e)
  assume prems: "plain_statement s" "clean (VMap m)" "apply_statement E s m = Some n"
  show ?thesis
  proof (cases "assign_updater E operator e (VMap m)")
    case (Some r)
    show ?thesis
    proof (cases r)
      case (Some f)
      then have "\<exists>paths. update_all f paths m = Some n"
        using prems(3) \<open>assign_updater E operator e (VMap m) = Some r\<close> AssignStatement
        by (auto simp: apply_assign_def split: option.splits simp del: update_all.simps)
      then obtain paths where paths: "update_all f paths m = Some n" by blast
      have e: "plain_expr e" using prems(1) AssignStatement by simp
      have f: "assign_updater E operator e (VMap m) = Some (Some f)"
        using \<open>assign_updater E operator e (VMap m) = Some r\<close> Some by simp
      show ?thesis by (rule clean_update_all[OF clean_updater[OF e prems(2) f] prems(2) paths])
    qed (use prems AssignStatement Some in \<open>simp add: apply_assign_def\<close>)
  qed (use prems AssignStatement in \<open>simp add: apply_assign_def\<close>)
next
  case (DeleteStatement paths)
  assume "clean (VMap m)" "apply_statement E s m = Some n"
  then show ?thesis using clean_delete[of "VMap m" paths] DeleteStatement
    by (auto simp: apply_delete_def simp del: clean.simps(2) split: oval.splits)
next
  case (FilterStatement e)
  assume prems: "plain_statement s" "clean (VMap m)" "apply_statement E s m = Some n"
  then have "evalOverrideSingle E e (VMap m) = Some (VMap n)"
    using FilterStatement by (auto simp: apply_filter_def split: option.splits oval.splits)
  then show ?thesis using clean_single_of[OF clean_eval(1)[OF _ prems(2)]] prems(1) FilterStatement
    by (fastforce simp: evalOverrideSingle_def)
qed

text \<open>
  C23. An override expression without compound value updates turns a mapping of YAML values into a
  mapping of YAML values: the keys stay distinct and no marker of a missing result is stored anywhere
  in it, whatever the statements, paths, operators and functions are.
\<close>

theorem override_keeps_values:
  assumes "\<forall>s \<in> set ss. plain_statement s" "clean (VMap m)" "apply_expr E ss m = Some n"
  shows "clean (VMap n)"
  using assms
proof (induction ss arbitrary: m)
  case (Cons s ss)
  then obtain m' where m': "apply_statement E s m = Some m'" "apply_expr E ss m' = Some n"
    by (auto split: option.splits)
  have "plain_statement s" using Cons.prems(1) by simp
  then have "clean (VMap m')" using clean_statement Cons.prems(2) m'(1) by blast
  then show ?case using Cons.IH[OF _ _ m'(2)] Cons.prems(1) by simp
qed simp

text \<open>An environment for examples that need nothing of it.\<close>

definition example_env :: oenv where
  "example_env = \<lparr>oe_fmt_float = \<lambda>k x. [], oe_parse_float = \<lambda>s. None, oe_yaml = \<lambda>v. None, oe_regexp = \<lambda>p. None,
     oe_upper = \<lambda>s. s, oe_lower = \<lambda>s. s, oe_int = \<lambda>x. 0\<rparr>"

lemma override_keeps_values_witness:
  "\<exists>n. apply_expr example_env [AssignStatement [FieldSeg ''a''] None TAddAssign (LiteralExpr (VStr ''x''))]
     [(''a'', VStr ''y'')] = Some n \<and> clean (VMap n) \<and> n = [(''a'', VStr ''yx'')]"
proof -
  have run: "apply_expr example_env [AssignStatement [FieldSeg ''a''] None TAddAssign (LiteralExpr (VStr ''x''))]
     [(''a'', VStr ''y'')] = Some [(''a'', VStr ''yx'')]"
    by (simp add: apply_assign_def assign_updater_def evalOverrideSingle_def eval_simps stream_of_def
      evaluateOverrideBinary_def assign_operator_def override_add_def map_get_def)
  have "clean (VMap [(''a'', VStr ''yx'')])"
    by (rule override_keeps_values[OF _ _ run]) (simp_all add: sorted_map_Cons)
  then show ?thesis using run by blast
qed


end
