(* ===== verification/OverrideLens.thy ===== *)
theory OverrideLens
  imports OverrideClean
begin

text \<open>
  What updates and deletions through paths do (\<open>override_expr.go\<close>): an update followed by a read gives
  what the updater makes of the values read before, fields that a statement does not name keep their
  values, and a deletion reads all of its paths against the value as it was.
\<close>

section \<open>Update and read\<close>

text \<open>A path that creates what is missing: no wildcard and no index from the end.\<close>

definition plain_path :: "opath \<Rightarrow> bool" where
  "plain_path path \<longleftrightarrow> list_all (\<lambda>seg. case seg of FieldSeg key \<Rightarrow> True | IndexSeg i \<Rightarrow> 0 \<le> i | WildSeg \<Rightarrow> False) path"

text \<open>A path fits a value when it meets no value of the wrong type on its way, and what it creates is
  created by a plain rest.\<close>

fun path_fits :: "oval \<Rightarrow> opath \<Rightarrow> bool" where
  "path_fits v [] = True"
| "path_fits v (FieldSeg key # path) =
     (case v of VMap m \<Rightarrow> path_fits (map_get m key) path | VNull \<Rightarrow> plain_path path | _ \<Rightarrow> False)"
| "path_fits v (IndexSeg i # path) =
     (case v of
        VList xs \<Rightarrow>
          let index = array_index i xs in
          0 \<le> index \<and> (if index < int (length xs) then path_fits (xs ! nat index) path else plain_path path)
      | VNull \<Rightarrow> 0 \<le> i \<and> plain_path path
      | _ \<Rightarrow> False)"
| "path_fits v (WildSeg # path) =
     (case v of
        VList xs \<Rightarrow> (\<forall>x \<in> set xs. path_fits x path)
      | VMap m \<Rightarrow> (\<forall>kv \<in> set m. path_fits (snd kv) path)
      | _ \<Rightarrow> True)"

lemma map_get_put [simp]: "sorted_map m \<Longrightarrow> map_get (map_put key v m) key = v"
  by (simp add: map_get_def)

lemma map_get_put_other [simp]: "sorted_map m \<Longrightarrow> k \<noteq> key \<Longrightarrow> map_get (map_put key v m) k = map_get m k"
  by (simp add: map_get_def)

lemma map_get_Nil [simp]: "map_get [] key = VNull"
  by (simp add: map_get_def)

lemma lookup_null: "plain_path path \<Longrightarrow> lookupOverridePathStream VNull path = [VNull]"
proof (cases path)
  case (Cons seg rest)
  then show "plain_path path \<Longrightarrow> ?thesis" by (cases seg) (simp_all add: plain_path_def)
qed simp

lemma array_index_update [simp]: "array_index i (xs[n := v]) = array_index i xs"
  by (simp add: array_index_def)

lemma nth_pad: "n < length (pad_to n xs)" "n \<ge> length xs \<Longrightarrow> pad_to n xs ! n = VNull" "n < length xs \<Longrightarrow> pad_to n xs = xs"
  by (auto simp: pad_to_def nth_append)

lemma pad_long [simp]: "0 \<le> i \<Longrightarrow> \<not> int (length (pad_to (nat i) xs)) \<le> i"
  using nth_pad(1)[of "nat i" xs] by linarith

lemma update_null: "plain_path path \<Longrightarrow>
  map_option (\<lambda>v. lookupOverridePathStream v path) (updateOverridePath f VNull path) = map_option (\<lambda>v. [v]) (f VNull)"
proof (induction path)
  case (Cons seg path)
  then have IH: "map_option (\<lambda>v. lookupOverridePathStream v path) (updateOverridePath f VNull path) = map_option (\<lambda>v. [v]) (f VNull)"
    by (simp add: plain_path_def)
  show ?case
  proof (cases seg)
    case (FieldSeg key)
    then show ?thesis using IH by (simp add: option.map_comp comp_def map_get_def)
  next
    case (IndexSeg i)
    then have "0 \<le> i" using Cons.prems by (simp add: plain_path_def)
    then show ?thesis using IH IndexSeg nth_pad(1)[of "nat i" "[]"] nth_pad(2)[of "[]" "nat i"]
      by (simp add: array_index_def Let_def option.map_comp comp_def)
  next
    case WildSeg
    then show ?thesis using Cons.prems by (simp add: plain_path_def)
  qed
qed (simp add: option.map_comp comp_def)

lemma those_append: "those (xs @ ys) = (case those xs of None \<Rightarrow> None | Some a \<Rightarrow> map_option (\<lambda>b. a @ b) (those ys))"
  by (induction xs) (auto split: option.splits simp: option.map_comp comp_def map_option_case)

lemma those_concat:
  assumes "\<And>x. x \<in> set xs \<Longrightarrow> map_option g (u x) = those (map f (h x))"
  shows "map_option (\<lambda>vs. concat (map g vs)) (those (map u xs)) = those (map f (concat (map h xs)))"
  using assms
proof (induction xs)
  case (Cons x xs)
  have x: "map_option g (u x) = those (map f (h x))" using Cons.prems by simp
  have xs: "map_option (\<lambda>vs. concat (map g vs)) (those (map u xs)) = those (map f (concat (map h xs)))"
    using Cons by simp
  show ?case
    by (cases "u x"; cases "those (map u xs)")
      (use x xs in \<open>auto simp: those_append simp flip: x xs split: option.splits\<close>)
qed simp

lemma update_read:
  "clean v \<Longrightarrow> path_fits v path \<Longrightarrow>
   map_option (\<lambda>w. lookupOverridePathStream w path) (updateOverridePath f v path) =
   those (map f (lookupOverridePathStream v path))"
proof (induction path arbitrary: v)
  case Nil
  then show ?case by (cases "f v") simp_all
next
  case (Cons seg path)
  have null: "those (map f [VNull]) = map_option (\<lambda>v. [v]) (f VNull)" by (cases "f VNull") simp_all
  show ?case
  proof (cases seg)
    case (FieldSeg key)
    show ?thesis
    proof (cases v)
      case (VMap m)
      then show ?thesis using Cons.IH[OF clean_get[of m key]] Cons.prems FieldSeg
        by (simp add: option.map_comp comp_def)
    next
      case VNull
      then show ?thesis using Cons.prems FieldSeg update_null[of "FieldSeg key # path" f] null
        by (simp add: plain_path_def)
    qed (use Cons.prems FieldSeg in simp_all)
  next
    case (IndexSeg i)
    show ?thesis
    proof (cases v)
      case (VList xs)
      define n where "n = nat (array_index i xs)"
      have pos: "0 \<le> array_index i xs" using Cons.prems(2) IndexSeg VList by (simp add: Let_def)
      show ?thesis
      proof (cases "n < length xs")
        case True
        then have "array_index i xs < int (length xs)" "clean (xs ! n)" using pos Cons.prems(1) VList by (auto simp: n_def)
        then show ?thesis using Cons.IH[of "xs ! n"] Cons.prems(2) IndexSeg VList pos True nth_pad(3)[OF True]
          by (simp add: Let_def n_def[symmetric] option.map_comp comp_def)
      next
        case False
        then have big: "\<not> array_index i xs < int (length xs)" "0 \<le> i" "plain_path path"
          using pos Cons.prems(2) IndexSeg VList by (auto simp: n_def array_index_def split: if_splits)
        then have "array_index i ys = i" for ys :: "oval list" by (simp add: array_index_def)
        then show ?thesis using update_null[OF big(3), of f] IndexSeg VList big False nth_pad(1)[of n xs] nth_pad(2)[of xs n] null
          by (simp add: Let_def n_def option.map_comp comp_def)
      qed
    next
      case VNull
      then show ?thesis using Cons.prems IndexSeg update_null[of "IndexSeg i # path" f] null
        by (simp add: plain_path_def)
    qed (use Cons.prems IndexSeg in simp_all)
  next
    case WildSeg
    show ?thesis
    proof (cases v)
      case (VList xs)
      then have "map_option (\<lambda>w. lookupOverridePathStream w path) (updateOverridePath f x path) =
        those (map f (lookupOverridePathStream x path))" if "x \<in> set xs" for x
        using Cons.IH Cons.prems WildSeg that by simp
      from those_concat[of xs, OF this] show ?thesis using VList WildSeg
        by (simp add: option.map_comp comp_def)
    next
      case (VMap m)
      have "map_option (\<lambda>(k, w). lookupOverridePathStream w path)
          ((\<lambda>(k, x). map_option (\<lambda>v. (k, v)) (updateOverridePath f x path)) kv) =
        those (map f ((\<lambda>(k, x). lookupOverridePathStream x path) kv))" if "kv \<in> set m" for kv
      proof -
        have "clean (snd kv)" "path_fits (snd kv) path" using Cons.prems WildSeg VMap that by auto
        then show ?thesis using Cons.IH[of "snd kv"] by (cases kv) (simp add: option.map_comp comp_def)
      qed
      from those_concat[of m, OF this] show ?thesis using VMap WildSeg
        by (simp add: option.map_comp comp_def)
    qed (use WildSeg in simp_all)
  qed
qed

lemma update_root: "path \<noteq> [] \<Longrightarrow> updateOverridePath f (VMap m) path = Some v \<Longrightarrow> \<exists>n. v = VMap n"
  by (cases path; cases "hd path") auto



section \<open>Frames\<close>

lemma expand_prefix: "(w, q) \<in> set (expandOverrideTargetPath v pre path) \<Longrightarrow> prefix pre q"
proof (induction v pre path arbitrary: w q rule: expandOverrideTargetPath.induct)
  case (2 v pre key path)
  then show ?case by (cases v) (auto dest: append_prefixD)
next
  case (3 v pre i path)
  show ?case
  proof (cases v)
    case (VList xs)
    then have "\<not> array_index i xs < 0" "(w, q) \<in> set (expandOverrideTargetPath
        (if array_index i xs < int (length xs) then xs ! nat (array_index i xs) else VNull)
        (pre @ [IndexSeg (array_index i xs)]) path)"
      using "3.prems" by (auto simp: Let_def split: if_splits)
    then have "prefix (pre @ [IndexSeg (array_index i xs)]) q" using "3.IH"(2)[OF VList refl] by blast
    then show ?thesis by (rule append_prefixD)
  qed (use 3 in \<open>auto dest: append_prefixD\<close>)
next
  case (4 v pre path)
  then show ?case by (cases v) (fastforce dest: append_prefixD)+
qed simp

definition starts_with :: "string \<Rightarrow> opath \<Rightarrow> bool" where
  "starts_with key path \<longleftrightarrow> prefix [FieldSeg key] path"

text \<open>The path that a statement names: its own, or the paths of its stages one after the other.\<close>

definition stage_paths :: "target_stage list \<Rightarrow> opath" where
  "stage_paths stages = concat (map (\<lambda>stage. case stage of StagePath path \<Rightarrow> path | StageCondition e \<Rightarrow> []) stages)"

definition named_path :: "opath \<Rightarrow> target_stage list option \<Rightarrow> opath" where
  "named_path path target = (case target of None \<Rightarrow> path | Some stages \<Rightarrow> stage_paths stages)"

lemma expand_starts:
  assumes "(w, q) \<in> set (expandOverrideTargetPath v pre path)" "starts_with key (pre @ path)"
  shows "starts_with key q \<or> (pre = [] \<and> path = [] \<and> q = [])"
proof (cases pre)
  case Nil
  show ?thesis
  proof (cases path)
    case (Cons seg rest)
    then have seg: "seg = FieldSeg key" using assms(2) Nil by (simp add: starts_with_def)
    have "prefix [FieldSeg key] q"
      using assms(1) expand_prefix[of w q _ "[FieldSeg key]" rest] Nil Cons seg by (cases v) auto
    then show ?thesis by (simp add: starts_with_def)
  qed (use assms Nil in simp)
next
  case (Cons seg rest)
  then have "prefix [FieldSeg key] pre" using assms(2) by (simp add: starts_with_def)
  then show ?thesis using expand_prefix[OF assms(1)] by (auto simp: starts_with_def intro: prefix_order.trans)
qed

lemma keep_matching_subset: "keep_matching E c sels = Some kept \<Longrightarrow> set kept \<subseteq> set sels"
  by (induction sels arbitrary: kept) (fastforce split: option.splits if_splits)+

lemma resolve_starts:
  "resolve_stages E stages sels = Some sels' \<Longrightarrow>
   \<forall>sel \<in> set sels. starts_with key (snd sel) \<or> snd sel = [] \<and> starts_with key (stage_paths stages) \<Longrightarrow>
   \<forall>sel \<in> set sels'. starts_with key (snd sel)"
proof (induction E stages sels rule: resolve_stages.induct)
  case (1 E sels)
  then show ?case by (auto simp: stage_paths_def starts_with_def)
next
  case (2 E path stages sels)
  let ?next = "concat (map (\<lambda>(v, pre). expandOverrideTargetPath v pre path) sels)"
  have "starts_with key q \<or> q = [] \<and> starts_with key (stage_paths stages)" if new: "(w, q) \<in> set ?next" for w q
  proof -
    obtain v pre where sel: "(v, pre) \<in> set sels" "(w, q) \<in> set (expandOverrideTargetPath v pre path)"
      using new by auto
    then consider "starts_with key pre" | "pre = []" "starts_with key (stage_paths (StagePath path # stages))"
      using "2.prems"(2) by fastforce
    then show ?thesis
    proof cases
      case 1
      then show ?thesis using expand_prefix[OF sel(2)] by (auto simp: starts_with_def intro: prefix_order.trans)
    next
      case 2
      show ?thesis
      proof (cases path)
        case Nil
        then show ?thesis using 2 sel(2) by (simp add: stage_paths_def)
      next
        case (Cons seg rest)
        then have "starts_with key (pre @ path)" using 2 by (simp add: stage_paths_def starts_with_def)
        then show ?thesis using expand_starts[OF sel(2)] Cons by auto
      qed
    qed
  qed
  then have "\<forall>sel \<in> set ?next. starts_with key (snd sel) \<or> snd sel = [] \<and> starts_with key (stage_paths stages)"
    by (metis prod.collapse)
  moreover have "resolve_stages E stages ?next = Some sels'" using "2.prems"(1) by simp
  ultimately show ?case by (rule "2.IH"[rotated])
next
  case (3 E condition stages sels)
  then obtain kept where "keep_matching E condition sels = Some kept" "resolve_stages E stages kept = Some sels'"
    by (auto split: option.splits)
  moreover have "stage_paths (StageCondition condition # stages) = stage_paths stages" by (simp add: stage_paths_def)
  then have "\<forall>sel \<in> set kept. starts_with key (snd sel) \<or> snd sel = [] \<and> starts_with key (stage_paths stages)"
    using "3.prems"(2) keep_matching_subset[OF calculation(1)] by (metis subsetD)
  ultimately show ?case using "3.IH" by blast
qed

lemma update_all_frame:
  "update_all f paths m = Some n \<Longrightarrow> sorted_map m \<Longrightarrow> \<forall>path \<in> set paths. starts_with key path \<Longrightarrow> k \<noteq> key \<Longrightarrow>
   map_of n k = map_of m k"
proof (induction paths arbitrary: m)
  case (Cons path paths)
  then obtain rest where path: "path = FieldSeg key # rest" by (auto simp: starts_with_def prefix_def)
  then obtain v where v: "update_all f paths (map_put key v m) = Some n"
    using Cons.prems(1) by (auto split: option.splits)
  then show ?case using Cons.IH[OF v] Cons.prems by simp
qed simp

text \<open>
  C22. An assignment statement changes no field of the mapping other than the one its path begins
  with, also when it assigns to the places that a conditional target selects.
\<close>

theorem assignment_keeps_other_fields:
  assumes "clean (VMap m)" "starts_with key (named_path path target)"
    "apply_assign E path target operator e m = Some n" "k \<noteq> key"
  shows "map_of n k = map_of m k"
proof -
  have sorted: "sorted_map m" using assms(1) by simp
  show ?thesis
  proof (cases "\<exists>f. assign_updater E operator e (VMap m) = Some (Some f)")
    case False
    then show ?thesis using assms(3) by (auto simp: apply_assign_def split: option.splits)
  next
    case True
    then obtain f where f: "assign_updater E operator e (VMap m) = Some (Some f)" by blast
    show ?thesis
    proof (cases target)
      case None
      then have "update_all f [path] m = Some n" using assms(3) f by (simp add: apply_assign_def del: update_all.simps)
      then show ?thesis using update_all_frame[OF _ sorted _ assms(4)] assms(2) None by (simp add: named_path_def del: update_all.simps)
    next
      case (Some stages)
      then obtain sels where sels: "resolve_target E stages (VMap m) = Some sels" "update_all f (map snd sels) m = Some n"
        using assms(3) f by (auto simp: apply_assign_def split: option.splits)
      have "\<forall>sel \<in> set sels. starts_with key (snd sel)"
        using resolve_starts[of E stages "[(VMap m, [])]" sels key] sels(1) assms(2) Some
        by (simp add: resolve_target_def named_path_def)
      then show ?thesis using update_all_frame[OF sels(2) sorted _ assms(4)] by simp
    qed
  qed
qed

lemma assignment_keeps_other_fields_witness:
  "\<exists>n. apply_assign example_env [] (Some [StagePath [FieldSeg ''a'', WildSeg], StageCondition (PathExpr [])]) TAssign
       (LiteralExpr VNull) [(''a'', VList [VStr ''x'', VBool False]), (''b'', VStr ''z'')] = Some n \<and>
     map_of n ''a'' = Some (VList [VNull, VBool False]) \<and> map_of n ''b'' = Some (VStr ''z'')"
proof -
  let ?m = "[(''a'', VList [VStr ''x'', VBool False]), (''b'', VStr ''z'')]"
  let ?n = "[(''a'', VList [VNull, VBool False]), (''b'', VStr ''z'')]"
  have run: "apply_assign example_env [] (Some [StagePath [FieldSeg ''a'', WildSeg], StageCondition (PathExpr [])]) TAssign
       (LiteralExpr VNull) ?m = Some ?n"
    by (simp add: apply_assign_def assign_updater_def evalOverrideSingle_def eval_simps stream_of_def resolve_target_def
      map_get_def array_index_def pad_to_def)
  have "map_of ?n ''b'' = map_of ?m ''b''"
    by (rule assignment_keeps_other_fields[OF _ _ run, where key = "''a''"])
      (simp_all add: sorted_map_Cons named_path_def stage_paths_def starts_with_def)
  then show ?thesis using run by simp
qed

section \<open>Deletion\<close>

lemma concat_enumerate_nths:
  "concat (map (\<lambda>(idx, x). if idx \<in> A then [] else [x]) (List.enumerate n xs)) = nths xs {j. n + j \<notin> A}"
  by (induction xs arbitrary: n) (auto simp: nths_Cons)

lemma delete_indexes:
  "deleteOverridePaths (VList xs) (map (\<lambda>i. [IndexSeg i]) is) =
   VList (nths xs {j. int j \<notin> (\<lambda>i. array_index i xs) ` set is})"
proof -
  define A where "A = {j. int j \<in> (\<lambda>i. array_index i xs) ` set is}"
  have "(let hits = filter (index_hits xs idx) (map (\<lambda>i. [IndexSeg i]) is) in
       if list_ex (\<lambda>p. length p = 1) hits then []
       else if hits = [] then [child]
       else [deleteOverridePaths child (map tl hits)]) = (if idx \<in> A then [] else [child])" for idx child
  proof (cases "idx \<in> A")
    case True
    then obtain i where "i \<in> set is" "array_index i xs = int idx" by (auto simp: A_def)
    then have "list_ex (\<lambda>p. length p = 1) (filter (index_hits xs idx) (map (\<lambda>i. [IndexSeg i]) is))"
      by (auto simp: list_ex_iff index_hits_def intro!: bexI[of _ "[IndexSeg i]"])
    then show ?thesis using True by (simp add: Let_def)
  next
    case False
    then have "filter (index_hits xs idx) (map (\<lambda>i. [IndexSeg i]) is) = []"
      by (auto simp: filter_empty_conv index_hits_def A_def image_iff)
    then show ?thesis using False by (simp add: Let_def)
  qed
  then have "deleteOverridePaths (VList xs) (map (\<lambda>i. [IndexSeg i]) is) =
      VList (concat (map (\<lambda>(idx, x). if idx \<in> A then [] else [x]) (List.enumerate 0 xs)))"
    by (simp add: case_prod_beta)
  then show ?thesis using concat_enumerate_nths[of A 0 xs] by (simp add: A_def)
qed

lemma map_of_concat_same:
  assumes "sorted_map m" "\<And>k' v'. (k', v') \<in> set m \<Longrightarrow> f (k', v') = (if k' = key then [(k', g v')] else [(k', v')])"
  shows "map_of (concat (map f m)) k = (if k = key then map_option g (map_of m k) else map_of m k)"
  using assms
proof (induction m)
  case (Cons kv m)
  obtain k' v' where "kv = (k', v')" by (cases kv)
  then show ?case using Cons by (auto simp: sorted_map_Cons)
qed simp

text \<open>
  \<open>del(.key[i], .key[j], ...)\<close> removes the elements that stand at these positions before the
  statement, each index counted from the end when it is negative and ignored when it is out of range,
  and leaves the other elements in order and the other fields as they are.
\<close>

theorem delete_reads_original_positions:
  assumes "clean (VMap m)" "map_of m key = Some (VList xs)"
  shows "\<exists>n. apply_delete (map (\<lambda>i. [FieldSeg key, IndexSeg i]) is) m = Some n \<and>
    map_of n = (map_of m)(key \<mapsto> VList (nths xs {j. int j \<notin> (\<lambda>i. array_index i xs) ` set is}))"
proof -
  let ?paths = "map (\<lambda>i. [FieldSeg key, IndexSeg i]) is"
  define f where "f = (\<lambda>(k, child).
       let hits = filter (field_hits k) ?paths in
       if list_ex (\<lambda>p. length p = 1) hits then []
       else if hits = [] then [(k, child)]
       else [(k, deleteOverridePaths child (map tl hits))])"
  define g where "g v = (if is = [] then v else deleteOverridePaths v (map (\<lambda>i. [IndexSeg i]) is))" for v
  have hits: "filter (field_hits k) ?paths = (if k = key then ?paths else [])" for k
    by (auto simp: filter_empty_conv field_hits_def intro!: filter_True)
  have "f (k', v') = (if k' = key then [(k', g v')] else [(k', v')])" for k' v'
    by (simp add: f_def hits Let_def g_def list_ex_iff comp_def)
  then have "map_of (concat (map f m)) k = (if k = key then map_option g (map_of m k) else map_of m k)" for k
    using assms(1) by (intro map_of_concat_same) auto
  moreover have "g (VList xs) = VList (nths xs {j. int j \<notin> (\<lambda>i. array_index i xs) ` set is})"
    by (simp add: g_def delete_indexes nths_all del: deleteOverridePaths.simps)
  moreover have "apply_delete ?paths m = Some (concat (map f m))"
    by (simp add: apply_delete_def f_def)
  ultimately show ?thesis using assms(2) by auto
qed

lemma delete_reads_original_positions_witness:
  "\<exists>n. apply_delete (map (\<lambda>i. [FieldSeg ''a'', IndexSeg i]) [0, -1]) [(''a'', VList [VNull, VBool True, VStr ''x''])] = Some n \<and>
    map_of n = [''a'' \<mapsto> VList [VBool True]]"
proof -
  have positions: "{j. int j \<notin> (\<lambda>i. array_index i [VNull, VBool True, VStr ''x'']) ` set [0, -1]} = UNIV - {0, 2}"
    by (auto simp: array_index_def)
  have "nths [VNull, VBool True, VStr ''x''] (UNIV - {0, 2}) = [VBool True]" by (simp add: nths_Cons)
  then show ?thesis
    using delete_reads_original_positions[of "[(''a'', VList [VNull, VBool True, VStr ''x''])]" "''a''"
      "[VNull, VBool True, VStr ''x'']" "[0, -1]"] unfolding positions by (simp add: sorted_map_Cons)
qed

end
