(* ===== verification/OverrideLaws.thy ===== *)
theory OverrideLaws
  imports OverrideLens "HOL-Library.Product_Lexorder" "HOL-Library.Multiset"
begin

text \<open>
  What the operators and functions of override expressions compute (\<open>override_expr.go\<close>): the sort
  against a reference, the entries of a mapping and back, and the arithmetic on integers, which the
  code does on \<open>float64\<close>.
\<close>

section \<open>Sorting\<close>

text \<open>The order of the values as an order of keys: null, false, true, numbers by their \<open>float64\<close>,
  strings by their bytes, and the collections, which are not ordered.\<close>

fun f64_key :: "f64 \<Rightarrow> int \<times> rat" where
  "f64_key NaN = (0, 0)"
| "f64_key (Inf neg) = ((if neg then - 1 else 1), 0)"
| "f64_key NegZero = (0, 0)"
| "f64_key (Fin r) = (0, r)"

fun order_key :: "oval \<Rightarrow> int \<times> (int \<times> rat) \<times> string" where
  "order_key VNull = (0, (0, 0), [])"
| "order_key (VBool b) = (1, (if b then 1 else 0, 0), [])"
| "order_key (VInt k n) = (2, f64_key (f64_of_int n), [])"
| "order_key (VFloat k x) = (2, f64_key x, [])"
| "order_key (VStr s) = (3, (0, 0), s)"
| "order_key v = (4, (0, 0), [])"

definition not_nan :: "oval \<Rightarrow> bool" where
  "not_nan v \<longleftrightarrow> (case v of VFloat k x \<Rightarrow> x \<noteq> NaN | _ \<Rightarrow> True)"

lemma flt_key: "x \<noteq> NaN \<Longrightarrow> y \<noteq> NaN \<Longrightarrow> flt x y \<longleftrightarrow> f64_key x < f64_key y"
  by (cases x; cases y) (auto simp: less_prod_def')

lemma f64_round_not_nan: "f64_round r \<noteq> NaN"
  by (simp add: f64_round_def f64_zero_def Let_def split: prod.split)

lemma float_compare_key: "x \<noteq> NaN \<Longrightarrow> y \<noteq> NaN \<Longrightarrow> float_compare x y < 0 \<longleftrightarrow> f64_key x < f64_key y"
  by (simp add: float_compare_def flt_key)

lemma sort_less_key: "not_nan v \<Longrightarrow> not_nan w \<Longrightarrow> sort_less v w \<longleftrightarrow> order_key v < order_key w"
  by (cases v; cases w)
    (auto simp: sort_less_def compareOverrideSortValues_def compareOverrideValues_def not_nan_def less_prod_def'
      float_compare_key f64_round_not_nan f64_of_int_def string_compare_def)

lemma insert_left_mset [simp]: "mset (insert_left x ys) = add_mset x (mset ys)"
  by (induction ys) auto

lemma insert_left_filter:
  "not_nan x \<Longrightarrow> \<forall>y \<in> set ys. not_nan y \<Longrightarrow>
   filter (\<lambda>y. k = order_key y) (insert_left x ys) = filter (\<lambda>y. k = order_key y) (x # ys)"
  by (induction ys) (auto simp: sort_less_key)

lemma insert_left_sorted:
  "not_nan x \<Longrightarrow> \<forall>y \<in> set ys. not_nan y \<Longrightarrow> sorted_wrt (\<lambda>a b. order_key b \<le> order_key a) ys \<Longrightarrow>
   sorted_wrt (\<lambda>a b. order_key b \<le> order_key a) (insert_left x ys)"
  by (induction ys) (fastforce simp: sort_less_key)+

lemma fold_insert_left:
  assumes "\<forall>x \<in> set xs. not_nan x" "\<forall>y \<in> set ys. not_nan y" "sorted_wrt (\<lambda>a b. order_key b \<le> order_key a) ys"
  shows "mset (fold insert_left xs ys) = mset xs + mset ys \<and>
    filter (\<lambda>y. k = order_key y) (fold insert_left xs ys) = filter (\<lambda>y. k = order_key y) (rev xs @ ys) \<and>
    sorted_wrt (\<lambda>a b. order_key b \<le> order_key a) (fold insert_left xs ys)"
  using assms
proof (induction xs arbitrary: ys)
  case (Cons x xs)
  have "sorted_wrt (\<lambda>a b. order_key b \<le> order_key a) (insert_left x ys)"
    using insert_left_sorted[of x ys] Cons.prems by simp
  then show ?case using Cons.IH[of "insert_left x ys"] Cons.prems by (simp add: insert_left_filter)
qed simp

lemma stable_sort_key:
  assumes "\<forall>x \<in> set xs. not_nan x"
  shows "stable_sort xs = sort_key order_key xs"
proof (rule sym, rule properties_for_sort_key)
  note run = fold_insert_left[OF assms, of "[]"]
  show "mset (stable_sort xs) = mset xs" using run by (simp add: stable_sort_def)
  show "filter (\<lambda>y. order_key x = order_key y) (stable_sort xs) = filter (\<lambda>y. order_key x = order_key y) xs" for x
    using run[of "order_key x"] by (simp add: stable_sort_def rev_filter[symmetric])
  show "sorted (map order_key (stable_sort xs))"
    using run by (simp add: stable_sort_def sorted_wrt_rev sorted_wrt_map)
qed



section \<open>Entries\<close>

lemma from_entries_back:
  "from_entries_loop (map (\<lambda>(key, v). entry_map (VStr key) v) m) n = Some (fold (\<lambda>(k, v) m. map_put k v m) m n)"
  by (induction m arbitrary: n) (auto simp: entry_map_def)

lemma entries_back: "sorted_map m \<Longrightarrow>
  fromOverrideEntries (VList (map (\<lambda>(key, v). entry_map (VStr key) v) m)) = Some m"
  using map_from_sorted[of m] by (simp add: fromOverrideEntries_def from_entries_back map_from_def)

lemma collect_single [simp]: "collect (\<lambda>v. Some [v]) vs = Some vs"
  by (induction vs) simp_all

text \<open>
  \<open>to_entries | from_entries\<close> and \<open>with_entries(.)\<close> give back the mapping they are applied to.
\<close>

theorem entries_roundtrip:
  assumes "clean (VMap m)"
  shows "evalOverrideStream E (PipelineExpr [StreamFunctionExpr ''to_entries'' [], StreamFunctionExpr ''from_entries'' []]) (VMap m) = Some [VMap m] \<and>
    evalOverrideStream E (StreamFunctionExpr ''with_entries'' [PathExpr []]) (VMap m) = Some [VMap m]"
  using entries_back[of m] assms
  by (simp_all add: eval_simps override_stream_function_def sf_to_entries_def sf_from_entries_def sf_with_entries_def
    toOverrideEntries_def case_prod_beta)

lemma entries_roundtrip_witness:
  "evalOverrideStream example_env (PipelineExpr [StreamFunctionExpr ''to_entries'' [], StreamFunctionExpr ''from_entries'' []])
     (VMap [(''a'', VNull), (''b'', VStr ''x'')]) = Some [VMap [(''a'', VNull), (''b'', VStr ''x'')]]"
  by (rule entries_roundtrip[THEN conjunct1]) (simp add: sorted_map_Cons)

section \<open>Integers\<close>

lemma wrap64_small: "- (2 ^ 63) \<le> n \<Longrightarrow> n < 2 ^ 63 \<Longrightarrow> wrap64 n = n"
  by (simp add: wrap64_def)

lemma go_rem_bound: "b \<noteq> 0 \<Longrightarrow> \<bar>go_rem a b\<bar> < \<bar>b\<bar>"
  by (auto simp: go_rem_def)

text \<open>
  Arithmetic on integers below \<open>2^53\<close>, whatever their types: sums and differences are exact, a
  product is the product in 64 bits, a remainder is Go's, and only a remainder by zero is an error,
  although the code takes all operands through \<open>float64\<close>.
\<close>

theorem integer_arithmetic:
  assumes "\<bar>a\<bar> < 2 ^ 53" "\<bar>b\<bar> < 2 ^ 53"
  shows "evaluateOverrideBinary E ''+'' (VInt k a) (VInt k' b) = Some (vint (a + b)) \<and>
    evaluateOverrideBinary E ''-'' (VInt k a) (VInt k' b) = Some (vint (a - b)) \<and>
    evaluateOverrideBinary E ''*'' (VInt k a) (VInt k' b) = Some (vint (wrap64 (a * b))) \<and>
    evaluateOverrideBinary E ''%'' (VInt k a) (VInt k' b) = (if b = 0 then None else Some (vint (go_rem a b)))"
proof -
  have ints: "to_int E (f64_of_int a) = a" "to_int E (f64_of_int b) = b"
    using assms by (simp_all add: to_int_def int_of_f64_small)
  have wraps: "wrap64 (a + b) = a + b" "wrap64 (a - b) = a - b" using assms by (auto intro!: wrap64_small)
  have "wrap64 (go_rem a b) = go_rem a b" if "b \<noteq> 0"
    using go_rem_bound[OF that, of a] assms(2) by (intro wrap64_small) auto
  then show ?thesis using ints wraps assms(2)
    by (simp add: evaluateOverrideBinary_def override_add_def override_subtract_def override_multiply_def
      evaluateOverrideNumbers_def Let_def f64_of_int_small)
qed

lemma integer_arithmetic_witness:
  "evaluateOverrideBinary example_env ''%'' (VInt KInt (- 7)) (VInt KUint8 3) = Some (vint (- 1))"
  using integer_arithmetic[of "- 7" 3 example_env KInt KUint8] by (simp add: go_rem_def)

text \<open>Above, an integer may change by being added to zero.\<close>

lemma integers_lose_precision:
  "evaluateOverrideBinary E ''+'' (VInt KInt 9007199254740993) (VInt KInt 0) = Some (vint 9007199254740992)"
proof -
  have "\<bar>of_int 9007199254740993 :: rat\<bar> = Fract 9007199254740993 1" by (simp add: Fract_of_int_eq)
  then have q: "quotient_of \<bar>of_int 9007199254740993\<bar> = (9007199254740993, 1)"
    by (simp only: quotient_of_Fract) (simp add: Rat.normalize_def)
  have b1: "bits (Suc 0) = 1" by (simp add: bits.simps[of "Suc 0"] bits.simps[of 0])
  have "bits 9007199254740993 \<le> 54" by (rule bits_le) simp
  moreover have "\<not> bits 9007199254740993 \<le> 53"
    using bits_bounds(1)[of 9007199254740993] power_increasing[of "bits 9007199254740993" 53 "2::nat"] by auto
  ultimately have "bits 9007199254740993 = 54" by simp
  then have "f64_of_int 9007199254740993 = Fin 9007199254740992"
    using b1 by (simp only: f64_of_int_def f64_round_def q Let_def prod.case)
      (simp add: round_exponent_def round_units_def rne_def scale2_def f64_limit_def)
  then show ?thesis using f64_of_int_small[of 0]
    by (simp add: evaluateOverrideBinary_def override_add_def evaluateOverrideNumbers_def to_int_def rat_trunc_def wrap64_def)
qed

end
