(* ===== verification/ProviderLaws.thy ===== *)
theory ProviderLaws
  imports OverrideLaws
begin

text \<open>
  The proxies of a provider (\<open>NewProxiesParser\<close> of \<open>adapter/provider/provider.go\<close>) and the override
  that is applied to each (\<open>override.go\<close>): which entries of the file become proxies, that no entry makes
  the parser panic, and what the override does to the name.
\<close>

section \<open>One filter\<close>

text \<open>The first element for every key.\<close>

function keep_first :: "('a \<Rightarrow> 'k option) \<Rightarrow> 'a list \<Rightarrow> 'a list" where
  "keep_first f [] = []"
| "keep_first f (x # xs) =
     (case f x of None \<Rightarrow> keep_first f xs | Some k \<Rightarrow> x # keep_first f (filter (\<lambda>y. f y \<noteq> Some k) xs))"
  by pat_completeness auto
termination by (relation "measure (\<lambda>(f, xs). length xs)") (auto simp: le_imp_less_Suc)

lemma keep_first_without:
  "keep_first (\<lambda>y. if f y = Some k then None else f y) xs = keep_first f (filter (\<lambda>y. f y \<noteq> Some k) xs)"
proof (induction xs rule: measure_induct_rule[of length])
  case (less xs)
  show ?case
  proof (cases xs)
    case (Cons x rest)
    have IH: "keep_first (\<lambda>y. if f y = Some k then None else f y) ys = keep_first f (filter (\<lambda>y. f y \<noteq> Some k) ys)"
      if "length ys \<le> length rest" for ys
      using less.IH[of ys] that Cons by simp
    have swap: "filter (\<lambda>y. f y \<noteq> Some k) (filter (\<lambda>y. f y \<noteq> Some k') rest) =
        filter (\<lambda>y. f y \<noteq> Some k') (filter (\<lambda>y. f y \<noteq> Some k) rest)" for k'
      by (simp add: conj_commute)
    have other: "filter (\<lambda>y. (if f y = Some k then None else f y) \<noteq> Some k') rest = filter (\<lambda>y. f y \<noteq> Some k') rest"
      if "k' \<noteq> k" for k'
      using that by (intro filter_cong) auto
    consider "f x = None" | "f x = Some k" | k' where "f x = Some k'" "k' \<noteq> k" by (cases "f x") auto
    then show ?thesis
    proof cases
      case 3
      have "keep_first (\<lambda>y. if f y = Some k then None else f y) (filter (\<lambda>y. f y \<noteq> Some k') rest) =
          keep_first f (filter (\<lambda>y. f y \<noteq> Some k) (filter (\<lambda>y. f y \<noteq> Some k') rest))"
        by (rule IH) simp
      then show ?thesis using 3 Cons other[OF 3(2)] by (simp add: conj_commute)
    qed (use Cons IH[of rest] in simp_all)
  qed simp
qed

text \<open>What becomes of a mapping that is taken, and of several.\<close>

definition build :: "'p parser_config \<Rightarrow> omap \<Rightarrow> 'p option outcome" where
  "build cfg m =
     obind (pc_override cfg (if pc_dialerProxy cfg \<noteq> [] then map_put ''dialer-proxy'' (VStr (pc_dialerProxy cfg)) m else m))
       (\<lambda>r. Ret (case r of None \<Rightarrow> None | Some m \<Rightarrow> pc_parse cfg m))"

fun build_all :: "'p parser_config \<Rightarrow> omap list \<Rightarrow> 'p list option outcome" where
  "build_all cfg [] = Ret (Some [])"
| "build_all cfg (m # ms) =
     obind (build cfg m) (\<lambda>r.
       case r of
         None \<Rightarrow> Ret None
       | Some p \<Rightarrow> obind (build_all cfg ms) (\<lambda>r. Ret (map_option (Cons p) r)))"

lemma taken_seen: "taken_name cfg reg (name # seen) m =
    (if taken_name cfg reg seen m = Some name then None else taken_name cfg reg seen m)"
  by (auto simp: taken_name_def split: option.splits oval.splits)

lemma pass_builds:
  "obind (parse_pass cfg reg ms (seen, ps)) (\<lambda>r. Ret (map_option (\<lambda>(ms, acc). snd acc) r)) =
   obind (build_all cfg (keep_first (taken_name cfg reg seen) ms)) (\<lambda>r. Ret (map_option (\<lambda>qs. ps @ qs) r))"
proof (induction ms arbitrary: seen ps)
  case (Cons m ms)
  show ?case
  proof (cases "taken_name cfg reg seen m")
    case None
    then show ?thesis using Cons.IH[of seen ps]
      by (cases "parse_pass cfg reg ms (seen, ps)") (auto simp: parse_mapping_def option.map_comp comp_def case_prod_unfold)
  next
    case (Some name)
    have IH: "obind (parse_pass cfg reg ms (name # seen, ps @ [p])) (\<lambda>r. Ret (map_option (\<lambda>(ms, acc). snd acc) r)) =
        obind (build_all cfg (keep_first (taken_name cfg reg seen) (filter (\<lambda>y. taken_name cfg reg seen y \<noteq> Some name) ms)))
          (\<lambda>r. Ret (map_option (\<lambda>qs. (ps @ [p]) @ qs) r))" for p
      using Cons.IH[of "name # seen" "ps @ [p]"] by (simp add: taken_seen[abs_def] keep_first_without)
    show ?thesis
    proof (cases "pc_override cfg (if pc_dialerProxy cfg \<noteq> [] then map_put ''dialer-proxy'' (VStr (pc_dialerProxy cfg)) m else m)")
      case (Ret r)
      show ?thesis
      proof (cases "\<exists>m' p. r = Some m' \<and> pc_parse cfg m' = Some p")
        case True
        then obtain m' p where r: "r = Some m'" "pc_parse cfg m' = Some p" by blast
        show ?thesis using Some Ret r IH[of p]
          by (cases "parse_pass cfg reg ms (name # seen, ps @ [p])";
              cases "build_all cfg (keep_first (taken_name cfg reg seen) (filter (\<lambda>y. taken_name cfg reg seen y \<noteq> Some name) ms))")
            (auto simp: parse_mapping_def build_def Let_def option.map_comp comp_def case_prod_unfold)
      next
        case False
        then show ?thesis using Some Ret by (auto simp: parse_mapping_def build_def Let_def split: option.splits)
      qed
    qed (use Some in \<open>simp_all add: parse_mapping_def build_def Let_def\<close>)
  qed
qed simp

text \<open>
  C27. With one filter, the proxies of a provider are built from the first entry of every name among
  the entries that pass the type and name filters, in the order of the file: the first entry that fails
  to override or parse decides, and no entry left is an error.
\<close>

theorem provider_takes_first_of_name:
  assumes "pc_filterRegs cfg = [reg]"
  shows "parse_proxies cfg ms =
    obind (build_all cfg (keep_first (taken_name cfg reg []) ms)) (\<lambda>r. Ret (if r = Some [] then None else r))"
proof -
  note pass = pass_builds[of cfg reg ms "[]" "[]"]
  show ?thesis
  proof (cases "parse_pass cfg reg ms ([], [])")
    case (Ret r)
    then show ?thesis using pass assms
      by (cases "build_all cfg (keep_first (taken_name cfg reg []) ms)"; cases r)
        (auto simp: parse_proxies_def map_option_case split: option.splits)
  next
    case (Panic e)
    then show ?thesis using pass assms
      by (cases "build_all cfg (keep_first (taken_name cfg reg []) ms)") (auto simp: parse_proxies_def)
  next
    case Diverge
    then show ?thesis using pass assms
      by (cases "build_all cfg (keep_first (taken_name cfg reg []) ms)") (auto simp: parse_proxies_def)
  qed
qed

section \<open>The override of one mapping\<close>

lemma map_of_put_same [simp]: "map_of (map_put k v m) k = Some v"
  by (induction m) (auto simp: map_put.simps(1))

lemma map_of_put_other: "k' \<noteq> k \<Longrightarrow> map_of (map_put k v m) k' = map_of m k'"
  by (induction m) auto

lemma map_of_put_opt: "k' \<noteq> k \<Longrightarrow> map_of (put_opt k f x m) k' = map_of m k'"
  by (simp add: put_opt_def map_of_put_other split: option.split)

definition override_keys :: "string list" where
  "override_keys = [''tfo'', ''mptcp'', ''udp'', ''udp-over-tcp'', ''up'', ''down'', ''dialer-proxy'', ''skip-cert-verify'',
     ''name-cert-verify'', ''interface-name'', ''routing-mark'', ''ip-version'']"

lemma override_fields_other: "k \<notin> set override_keys \<Longrightarrow> map_of (override_fields o' m) k = map_of m k"
  by (simp add: override_fields_def override_keys_def Let_def map_of_put_opt)

lemma name_not_key: "''name'' \<notin> set override_keys"
  by (simp add: override_keys_def)

text \<open>The replacements of the name one after the other.\<close>

fun rename :: "(string \<Rightarrow> string option) list \<Rightarrow> string \<Rightarrow> string option" where
  "rename [] name = Some name"
| "rename (r # rs) name = (case r name of None \<Rightarrow> None | Some new \<Rightarrow> rename rs new)"

lemma replace_names_rename:
  "map_of m ''name'' = Some (VStr name) \<Longrightarrow>
   \<exists>r. replace_names rs m = Ret r \<and>
     (case rename rs name of
        None \<Rightarrow> r = None
      | Some new \<Rightarrow> \<exists>n. r = Some n \<and> map_of n ''name'' = Some (VStr new) \<and> (\<forall>k. k \<noteq> ''name'' \<longrightarrow> map_of n k = map_of m k))"
proof (induction rs arbitrary: m name)
  case (Cons rep rs)
  show ?case
  proof (cases "rep name")
    case None
    then show ?thesis using Cons.prems by (simp add: map_get_def)
  next
    case (Some new)
    have step: "map_of (map_put ''name'' (VStr new) m) ''name'' = Some (VStr new)" by simp
    show ?thesis using Cons.IH[OF step] Some Cons.prems
      by (cases "rename rs new") (fastforce simp: map_get_def map_of_put_other)+
  qed
qed simp

definition opt_text :: "string option \<Rightarrow> string" where
  "opt_text x = (case x of None \<Rightarrow> [] | Some s \<Rightarrow> s)"

lemma add_affixes_name:
  assumes "map_of m ''name'' = Some (VStr name)"
  shows "map_of (add_affixes print_s o' m) ''name'' =
      Some (VStr (opt_text (os_AdditionalPrefix o') @ name @ opt_text (os_AdditionalSuffix o')))"
    "k \<noteq> ''name'' \<Longrightarrow> map_of (add_affixes print_s o' m) k = map_of m k"
  using assms
  by (auto simp: add_affixes_def opt_text_def name_text_def map_get_def map_of_put_other Let_def split: option.splits)

text \<open>
  The override of a provider, without override expressions, turns the name into the prefix, the
  name after the replacements in their order, and the suffix, and changes no other field than the
  twelve it is for; a replacement that fails is the only error.
\<close>

theorem override_renames:
  assumes "os_OverrideExpr o' = []" "map_of m ''name'' = Some (VStr name)"
  shows "\<exists>r. overrideSchema_Apply E print_s o' m = Ret r \<and>
    (case rename (os_ProxyName o') name of
       None \<Rightarrow> r = None
     | Some new \<Rightarrow> \<exists>n. r = Some n \<and>
         map_of n ''name'' = Some (VStr (opt_text (os_AdditionalPrefix o') @ new @ opt_text (os_AdditionalSuffix o'))) \<and>
         (\<forall>k. k \<noteq> ''name'' \<and> k \<notin> set override_keys \<longrightarrow> map_of n k = map_of m k))"
proof -
  have name: "map_of (override_fields o' m) ''name'' = Some (VStr name)"
    using override_fields_other[OF name_not_key] assms(2) by simp
  obtain r where r: "replace_names (os_ProxyName o') (override_fields o' m) = Ret r"
    "case rename (os_ProxyName o') name of
        None \<Rightarrow> r = None
      | Some new \<Rightarrow> \<exists>n. r = Some n \<and> map_of n ''name'' = Some (VStr new) \<and>
          (\<forall>k. k \<noteq> ''name'' \<longrightarrow> map_of n k = map_of (override_fields o' m) k)"
    using replace_names_rename[OF name, of "os_ProxyName o'"] by blast
  show ?thesis
  proof (cases "rename (os_ProxyName o') name")
    case None
    then show ?thesis using r by (simp add: overrideSchema_Apply_def)
  next
    case (Some new)
    then obtain n where n: "r = Some n" "map_of n ''name'' = Some (VStr new)"
      "\<And>k. k \<noteq> ''name'' \<Longrightarrow> map_of n k = map_of (override_fields o' m) k"
      using r(2) by auto
    have "overrideSchema_Apply E print_s o' m = Ret (Some (add_affixes print_s o' n))"
      using r(1) n(1) assms(1) by (simp add: overrideSchema_Apply_def)
    then show ?thesis using Some add_affixes_name[OF n(2)] n(3) override_fields_other by simp
  qed
qed

section \<open>No panic\<close>

lemma apply_ends: "map_of m ''name'' = Some (VStr name) \<Longrightarrow> ends (overrideSchema_Apply E print_s o' m)"
  using replace_names_rename[of "override_fields o' m" name "os_ProxyName o'"] override_fields_other[OF name_not_key]
  by (auto simp: overrideSchema_Apply_def)

lemma taken_is_named: "taken_name cfg reg seen m = Some name \<Longrightarrow> map_of m ''name'' = Some (VStr name)"
  by (auto simp: taken_name_def split: if_splits option.splits oval.splits)

lemma mapping_ends:
  assumes "pc_override cfg = overrideSchema_Apply E print_s o'"
  shows "ends (parse_mapping cfg reg m acc)"
proof (cases "taken_name cfg reg (fst acc) m")
  case (Some name)
  then have "map_of (if pc_dialerProxy cfg \<noteq> [] then map_put ''dialer-proxy'' (VStr (pc_dialerProxy cfg)) m else m) ''name'' = Some (VStr name)"
    by (simp add: taken_is_named map_of_put_other)
  from apply_ends[OF this] show ?thesis using Some assms
    by (auto simp: parse_mapping_def Let_def intro!: ends_obind)
qed (simp add: parse_mapping_def)

lemma pass_ends: "pc_override cfg = overrideSchema_Apply E print_s o' \<Longrightarrow> ends (parse_pass cfg reg ms acc)"
  by (induction ms arbitrary: acc) (auto intro!: ends_obind mapping_ends split: option.splits)

lemma passes_end: "pc_override cfg = overrideSchema_Apply E print_s o' \<Longrightarrow> ends (parse_passes cfg regs ms acc)"
  by (induction regs arbitrary: ms acc) (auto intro!: ends_obind pass_ends split: option.splits)

text \<open>
  No file makes the parser of a provider panic: the override asserts that the name is a string, and
  it is only applied to mappings whose name was seen to be one, in every pass.
\<close>

theorem provider_never_panics:
  assumes "pc_override cfg = overrideSchema_Apply E print_s o'"
  shows "\<exists>r. parse_proxies cfg ms = Ret r"
proof -
  have "ends (parse_proxies cfg ms)" unfolding parse_proxies_def
    by (intro ends_obind passes_end[OF assms]) simp
  then show ?thesis by (simp add: ends_iff)
qed

section \<open>Several filters\<close>

definition example_override :: override_schema where
  "example_override = \<lparr>os_TFO = None, os_MPTcp = None, os_UDP = Some True, os_UDPOverTCP = None, os_Up = None, os_Down = None,
     os_DialerProxy = None, os_SkipCertVerify = None, os_NameCertVerify = None, os_Interface = None, os_RoutingMark = None,
     os_IPVersion = None, os_AdditionalPrefix = Some ''p-'', os_AdditionalSuffix = None, os_ProxyName = [], os_OverrideExpr = []\<rparr>"

text \<open>A configuration whose filters match every name and whose parser keeps the name.\<close>

definition example_parser :: "nat \<Rightarrow> string parser_config" where
  "example_parser filters = \<lparr>pc_filter = ''.*'', pc_filterRegs = replicate filters (\<lambda>n. True), pc_excludeFilterRegs = [],
     pc_excludeTypes = [], pc_dialerProxy = [], pc_override = overrideSchema_Apply example_env (\<lambda>v. []) example_override,
     pc_parse = (\<lambda>m. case map_of m ''name'' of Some (VStr s) \<Rightarrow> Some s | _ \<Rightarrow> None)\<rparr>"

lemmas example_simps = parse_proxies_def parse_mapping_def taken_name_def type_excluded_def example_parser_def
  overrideSchema_Apply_def example_override_def override_fields_def put_opt_def add_affixes_def name_text_def map_get_def

lemma provider_takes_first_of_name_witness:
  "parse_proxies (example_parser 1) [[(''name'', VStr ''a'')], [(''name'', VStr ''b'')], [(''name'', VStr ''a'')]] =
   Ret (Some [''p-a'', ''p-b''])"
  by (subst provider_takes_first_of_name) (auto simp: example_simps build_def)

lemma override_renames_witness:
  "\<exists>n. overrideSchema_Apply example_env (\<lambda>v. []) example_override [(''name'', VStr ''a'')] = Ret (Some n) \<and>
     map_of n ''name'' = Some (VStr ''p-a'')"
  using override_renames[of example_override "[(''name'', VStr ''a'')]" "''a''" example_env "\<lambda>v. []"]
  by (auto simp: example_override_def opt_text_def)

lemma provider_never_panics_witness:
  "\<exists>r. parse_proxies (example_parser 2) [[(''name'', VNull)], [(''name'', VStr ''a'')]] = Ret r"
  by (rule provider_never_panics) (simp add: example_parser_def)

text \<open>
  With two filters that both match, one entry of the file becomes two proxies, and the second carries
  the prefix twice: the entry is overridden in place, and the set of names seen holds the name from
  before the override.
\<close>

theorem filters_override_twice:
  "parse_proxies (example_parser 2) [[(''name'', VStr ''a'')]] = Ret (Some [''p-a'', ''p-p-a''])"
  by (simp add: example_simps numeral_2_eq_2)

end
