(* ===== verification/KcpSegment.thy ===== *)
theory KcpSegment
  imports Bytes
begin

text \<open>
  Segments of mKCP on the wire (\<open>transport/mkcp/segment.go\<close>). The three kinds of segment are records
  with the fields of the Go structs, \<open>serialize\<close> writes them into a buffer of \<open>byteSize\<close> bytes, and
  \<open>readSegment\<close> reads the first segment of a buffer. Reading takes whatever a peer sends, so every
  access of the buffer is checked: an access out of range is a panic of the model.
\<close>

section \<open>Checked accesses of a buffer\<close>

text \<open>\<open>binary.BigEndian.Uint16(b[i:])\<close>, \<open>binary.BigEndian.Uint32(b[i:])\<close>, \<open>b[i]\<close>.\<close>

definition u16_at :: "byte list \<Rightarrow> nat \<Rightarrow> 16 word outcome" where
  "u16_at b i = (if length b < i + 2 then Panic ''index out of range''
                 else Ret (word_of_int (be_get (take 2 (drop i b)))))"

definition u32_at :: "byte list \<Rightarrow> nat \<Rightarrow> 32 word outcome" where
  "u32_at b i = (if length b < i + 4 then Panic ''index out of range''
                 else Ret (word_of_int (be_get (take 4 (drop i b)))))"

definition byte_at :: "byte list \<Rightarrow> nat \<Rightarrow> byte outcome" where
  "byte_at b i = (if length b < i + 1 then Panic ''index out of range'' else Ret (b ! i))"

text \<open>\<open>b[i:]\<close> and \<open>b[i:j]\<close>.\<close>

definition slice_from :: "byte list \<Rightarrow> nat \<Rightarrow> byte list outcome" where
  "slice_from b i = (if length b < i then Panic ''slice bounds out of range'' else Ret (drop i b))"

definition slice_between :: "byte list \<Rightarrow> nat \<Rightarrow> nat \<Rightarrow> byte list outcome" where
  "slice_between b i j = (if j < i \<or> length b < j then Panic ''slice bounds out of range''
                          else Ret (take (j - i) (drop i b)))"

lemma u16_at_put [simp]: "length p = i \<Longrightarrow> u16_at (p @ be_put 2 (uint w) @ r) i = Ret w"
  by (simp add: u16_at_def)

lemma u32_at_put [simp]: "length p = i \<Longrightarrow> u32_at (p @ be_put 4 (uint w) @ r) i = Ret w"
  by (simp add: u32_at_def)

lemma byte_at_put [simp]: "length p = i \<Longrightarrow> byte_at (p @ x # r) i = Ret x"
  by (auto simp: byte_at_def nth_append)

lemma slice_from_append [simp]: "length p = i \<Longrightarrow> slice_from (p @ r) i = Ret r"
  by (simp add: slice_from_def)

lemma slice_between_append [simp]:
  "length p = i \<Longrightarrow> j = i + length q \<Longrightarrow> slice_between (p @ q @ r) i j = Ret q"
  by (simp add: slice_between_def)

section \<open>Segments\<close>

type_synonym command = byte
type_synonym segmentOption = byte

definition commandACK :: command where "commandACK = 0"
definition commandData :: command where "commandData = 1"
definition commandTerminate :: command where "commandTerminate = 2"
definition commandPing :: command where "commandPing = 3"
definition segmentOptionClose :: segmentOption where "segmentOptionClose = 1"
definition dataSegmentOverhead :: nat where "dataSegmentOverhead = 18"

lemmas command_defs = commandACK_def commandData_def commandTerminate_def commandPing_def

record dataSegment =
  d_conv :: "16 word"
  d_option :: segmentOption
  d_timestamp :: "32 word"
  d_number :: "32 word"
  d_sendingNext :: "32 word"
  d_payload :: "byte list"
  d_timeout :: "32 word"
  d_transmit :: "32 word"

record ackSegment =
  a_conv :: "16 word"
  a_option :: segmentOption
  a_receivingWindow :: "32 word"
  a_receivingNext :: "32 word"
  a_timestamp :: "32 word"
  a_numberList :: "32 word list"

record cmdOnlySegment =
  c_conv :: "16 word"
  c_cmd :: command
  c_option :: segmentOption
  c_sendingNext :: "32 word"
  c_receivingNext :: "32 word"
  c_peerRTO :: "32 word"

datatype segment = DataSeg dataSegment | AckSeg ackSegment | CmdSeg cmdOnlySegment

fun conversation :: "segment \<Rightarrow> 16 word" where
  "conversation (DataSeg s) = d_conv s"
| "conversation (AckSeg s) = a_conv s"
| "conversation (CmdSeg s) = c_conv s"

fun segment_command :: "segment \<Rightarrow> command" where
  "segment_command (DataSeg s) = commandData"
| "segment_command (AckSeg s) = commandACK"
| "segment_command (CmdSeg s) = c_cmd s"

fun byteSize :: "segment \<Rightarrow> nat" where
  "byteSize (DataSeg s) = dataSegmentOverhead + length (d_payload s)"
| "byteSize (AckSeg s) = 17 + length (a_numberList s) * 4"
| "byteSize (CmdSeg s) = 16"

text \<open>\<open>serialize\<close> fills the whole buffer; the lengths are cut to 16 and 8 bits.\<close>

fun serialize :: "segment \<Rightarrow> byte list" where
  "serialize (DataSeg s) =
     be_put 2 (uint (d_conv s)) @ [commandData, d_option s] @ be_put 4 (uint (d_timestamp s)) @
     be_put 4 (uint (d_number s)) @ be_put 4 (uint (d_sendingNext s)) @
     be_put 2 (uint (word_of_nat (length (d_payload s)) :: 16 word)) @ d_payload s"
| "serialize (AckSeg s) =
     be_put 2 (uint (a_conv s)) @ [commandACK, a_option s] @ be_put 4 (uint (a_receivingWindow s)) @
     be_put 4 (uint (a_receivingNext s)) @ be_put 4 (uint (a_timestamp s)) @
     [word_of_nat (length (a_numberList s))] @
     concat (map (\<lambda>n. be_put 4 (uint n)) (a_numberList s))"
| "serialize (CmdSeg s) =
     be_put 2 (uint (c_conv s)) @ [c_cmd s, c_option s] @ be_put 4 (uint (c_sendingNext s)) @
     be_put 4 (uint (c_receivingNext s)) @ be_put 4 (uint (c_peerRTO s))"

text \<open>The loop over the numbers of an acknowledgement: \<open>count\<close> numbers from the front of \<open>p\<close>, and
  the rest.\<close>

fun read_numbers :: "nat \<Rightarrow> byte list \<Rightarrow> (32 word list \<times> byte list) outcome" where
  "read_numbers 0 p = Ret ([], p)"
| "read_numbers (Suc count) p =
     obind (u32_at p 0) (\<lambda>n. obind (slice_from p 4) (\<lambda>p.
       obind (read_numbers count p) (\<lambda>(ns, p). Ret (n # ns, p))))"

definition read_data :: "16 word \<Rightarrow> segmentOption \<Rightarrow> byte list \<Rightarrow> (segment \<times> byte list) option outcome" where
  "read_data conv opt b =
     (if length b < 14 then Ret None
      else obind (u16_at b 12) (\<lambda>n. let dataLen = unat n in
        if length b < 14 + dataLen then Ret None
        else obind (u32_at b 0) (\<lambda>timestamp. obind (u32_at b 4) (\<lambda>number.
          obind (u32_at b 8) (\<lambda>sendingNext. obind (slice_between b 14 (14 + dataLen)) (\<lambda>payload.
          obind (slice_from b (14 + dataLen)) (\<lambda>extra.
            Ret (Some (DataSeg \<lparr>d_conv = conv, d_option = opt, d_timestamp = timestamp,
              d_number = number, d_sendingNext = sendingNext, d_payload = payload,
              d_timeout = 0, d_transmit = 0\<rparr>, extra)))))))))"

definition read_ack :: "16 word \<Rightarrow> segmentOption \<Rightarrow> byte list \<Rightarrow> (segment \<times> byte list) option outcome" where
  "read_ack conv opt b =
     (if length b < 13 then Ret None
      else obind (byte_at b 12) (\<lambda>n. let count = unat n in
        if length b < 13 + count * 4 then Ret None
        else obind (u32_at b 0) (\<lambda>window. obind (u32_at b 4) (\<lambda>receivingNext.
          obind (u32_at b 8) (\<lambda>timestamp. obind (slice_from b 13) (\<lambda>p.
          obind (read_numbers count p) (\<lambda>(numbers, p).
            Ret (Some (AckSeg \<lparr>a_conv = conv, a_option = opt, a_receivingWindow = window,
              a_receivingNext = receivingNext, a_timestamp = timestamp,
              a_numberList = numbers\<rparr>, p)))))))))"

definition read_cmd ::
  "16 word \<Rightarrow> command \<Rightarrow> segmentOption \<Rightarrow> byte list \<Rightarrow> (segment \<times> byte list) option outcome" where
  "read_cmd conv cmd opt b =
     (if length b < 12 then Ret None
      else obind (u32_at b 0) (\<lambda>sendingNext. obind (u32_at b 4) (\<lambda>receivingNext.
        obind (u32_at b 8) (\<lambda>peerRTO. obind (slice_from b 12) (\<lambda>extra.
          Ret (Some (CmdSeg \<lparr>c_conv = conv, c_cmd = cmd, c_option = opt,
            c_sendingNext = sendingNext, c_receivingNext = receivingNext,
            c_peerRTO = peerRTO\<rparr>, extra)))))))"

definition readSegment :: "byte list \<Rightarrow> (segment \<times> byte list) option outcome" where
  "readSegment b =
     (if length b < 4 then Ret None
      else obind (u16_at b 0) (\<lambda>conv. obind (byte_at b 2) (\<lambda>cmd. obind (byte_at b 3) (\<lambda>opt.
        obind (slice_from b 4) (\<lambda>b.
          if cmd = commandData then read_data conv opt b
          else if cmd = commandACK then read_ack conv opt b
          else read_cmd conv cmd opt b)))))"

section \<open>Reading what was written\<close>

lemma length_serialize [simp]: "length (serialize s) = byteSize s"
proof (cases s)
  case (AckSeg a)
  have "length (concat (map (\<lambda>n :: 32 word. be_put 4 (uint n)) ns)) = length ns * 4" for ns
    by (induction ns) auto
  with AckSeg show ?thesis by simp
qed (auto simp: dataSegmentOverhead_def)

lemma unat_byte: "unat (n :: byte) < 256"
  using unsigned_less[of n, where ?'a = nat] by simp

lemma unat_16: "unat (n :: 16 word) < 65536"
  using unsigned_less[of n, where ?'a = nat] by simp

lemma unat_of_nat_16 [simp]: "n < 65536 \<Longrightarrow> unat (word_of_nat n :: 16 word) = n"
  and unat_of_nat_8 [simp]: "n < 256 \<Longrightarrow> unat (word_of_nat n :: byte) = n"
  by (simp_all add: unsigned_of_nat take_bit_nat_eq_self_iff)

text \<open>What fits the length fields, and a command that is not one of the other two kinds.\<close>

fun wire_ok :: "segment \<Rightarrow> bool" where
  "wire_ok (DataSeg s) \<longleftrightarrow> length (d_payload s) < 65536"
| "wire_ok (AckSeg s) \<longleftrightarrow> length (a_numberList s) < 256"
| "wire_ok (CmdSeg s) \<longleftrightarrow> c_cmd s \<noteq> commandData \<and> c_cmd s \<noteq> commandACK"

text \<open>The sender's bookkeeping does not travel.\<close>

fun on_wire :: "segment \<Rightarrow> segment" where
  "on_wire (DataSeg s) = DataSeg (s\<lparr>d_timeout := 0, d_transmit := 0\<rparr>)"
| "on_wire (AckSeg s) = AckSeg s"
| "on_wire (CmdSeg s) = CmdSeg s"

lemma read_numbers_put:
  "read_numbers (length ns) (concat (map (\<lambda>n. be_put 4 (uint n)) ns) @ r) = Ret (ns, r)"
proof (induction ns)
  case (Cons n ns)
  then show ?case
    using u32_at_put[of "[]" 0 n] slice_from_append[of "be_put 4 (uint n)" 4] by simp
qed simp

lemma read_header:
  "readSegment (be_put 2 (uint conv) @ [cmd, opt] @ b) =
     (if cmd = commandData then read_data conv opt b
      else if cmd = commandACK then read_ack conv opt b
      else read_cmd conv cmd opt b)"
  using u16_at_put[of "[]" 0 conv "[cmd, opt] @ b"]
    byte_at_put[of "be_put 2 (uint conv)" 2 cmd "opt # b"]
    byte_at_put[of "be_put 2 (uint conv) @ [cmd]" 3 opt b]
    slice_from_append[of "be_put 2 (uint conv) @ [cmd, opt]" 4 b]
  by (simp add: readSegment_def)

text \<open>Three 32-bit fields in a row.\<close>

lemma three_fields:
  fixes x y z :: "32 word" and r :: "byte list"
  defines "b \<equiv> be_put 4 (uint x) @ be_put 4 (uint y) @ be_put 4 (uint z) @ r"
  shows "u32_at b 0 = Ret x" "u32_at b 4 = Ret y" "u32_at b 8 = Ret z"
    and "length b = 12 + length r" "drop 12 b = r"
  using u32_at_put[of "[]" 0 x] u32_at_put[of "be_put 4 (uint x)" 4 y]
    u32_at_put[of "be_put 4 (uint x) @ be_put 4 (uint y)" 8 z]
  by (simp_all add: b_def)

lemma readSegment_serialize:
  assumes "wire_ok s"
  shows "readSegment (serialize s @ r) = Ret (Some (on_wire s, r))"
proof (cases s)
  case (DataSeg d)
  let ?n = "word_of_nat (length (d_payload d)) :: 16 word"
  let ?r = "be_put 2 (uint ?n) @ d_payload d @ r"
  note f = three_fields[of "d_timestamp d" "d_number d" "d_sendingNext d" ?r]
  let ?b = "be_put 4 (uint (d_timestamp d)) @ be_put 4 (uint (d_number d)) @
            be_put 4 (uint (d_sendingNext d)) @ ?r"
  have n: "unat ?n = length (d_payload d)"
    using assms DataSeg by simp
  have l: "u16_at ?b 12 = Ret ?n"
    using u16_at_put[of "take 12 ?b" 12 ?n "d_payload d @ r"] f(4)
      append_take_drop_id[of 12 ?b] f(5) by simp
  have e: "drop 14 ?b = d_payload d @ r"
  proof -
    have "drop 14 ?b = drop 2 (drop 12 ?b)" by (simp only: drop_drop) simp
    then show ?thesis unfolding f(5) by simp
  qed
  then have p: "drop (14 + length (d_payload d)) ?b = r"
    by (simp only: drop_drop[symmetric] add.commute[of 14]) (simp only: e, simp)
  have "read_data (d_conv d) (d_option d) ?b = Ret (Some (on_wire s, r))"
    unfolding read_data_def l f(1,2,3) slice_from_def slice_between_def Let_def obind.simps n
    using f(4) e p DataSeg by (simp add: n)
  with DataSeg show ?thesis
    using read_header[of "d_conv d" commandData "d_option d" ?b] by simp
next
  case (AckSeg a)
  let ?c = "word_of_nat (length (a_numberList a)) :: byte"
  let ?ns = "concat (map (\<lambda>n. be_put 4 (uint n)) (a_numberList a)) @ r"
  note f = three_fields[of "a_receivingWindow a" "a_receivingNext a" "a_timestamp a" "?c # ?ns"]
  let ?b = "be_put 4 (uint (a_receivingWindow a)) @ be_put 4 (uint (a_receivingNext a)) @
            be_put 4 (uint (a_timestamp a)) @ ?c # ?ns"
  have n: "unat ?c = length (a_numberList a)"
    using assms AckSeg by simp
  have c: "byte_at ?b 12 = Ret ?c"
    using byte_at_put[of "take 12 ?b" 12 ?c ?ns] f(4) append_take_drop_id[of 12 ?b] f(5) by simp
  have e: "drop 13 ?b = ?ns"
  proof -
    have "drop 13 ?b = drop 1 (drop 12 ?b)" by (simp only: drop_drop) simp
    then show ?thesis unfolding f(5) by simp
  qed
  have len: "length ?b = 13 + length (a_numberList a) * 4 + length r"
    using length_serialize[of "AckSeg a"] by simp
  have "read_ack (a_conv a) (a_option a) ?b = Ret (Some (on_wire s, r))"
    unfolding read_ack_def c f(1,2,3) slice_from_def Let_def obind.simps n
    using e len AckSeg read_numbers_put[of "a_numberList a" r] by simp
  with AckSeg show ?thesis
    using read_header[of "a_conv a" commandACK "a_option a" ?b] by (simp add: command_defs)
next
  case (CmdSeg c)
  note f = three_fields[of "c_sendingNext c" "c_receivingNext c" "c_peerRTO c" r]
  let ?b = "be_put 4 (uint (c_sendingNext c)) @ be_put 4 (uint (c_receivingNext c)) @
            be_put 4 (uint (c_peerRTO c)) @ r"
  have "read_cmd (c_conv c) (c_cmd c) (c_option c) ?b = Ret (Some (on_wire s, r))"
    unfolding read_cmd_def f(1,2,3) slice_from_def obind.simps using f(4,5) CmdSeg by simp
  with CmdSeg assms show ?thesis
    using read_header[of "c_conv c" "c_cmd c" "c_option c" ?b] by simp
qed

section \<open>Reading arbitrary bytes\<close>

lemma read_numbers_ends:
  "count * 4 \<le> length p \<Longrightarrow>
     \<exists>ns. read_numbers count p = Ret (ns, drop (count * 4) p) \<and> length ns = count"
proof (induction count arbitrary: p)
  case (Suc count)
  then have "count * 4 \<le> length (drop 4 p)" by simp
  from Suc.IH[OF this] obtain ns
    where "read_numbers count (drop 4 p) = Ret (ns, drop (count * 4) (drop 4 p))"
      and "length ns = count" by blast
  with Suc.prems show ?case by (simp add: u32_at_def slice_from_def add.commute)
qed simp

text \<open>Whatever the bytes are, reading does not panic; a segment that was read fits the wire again and
  leaves fewer bytes.\<close>

definition reads_ok :: "nat \<Rightarrow> (segment \<times> byte list) option \<Rightarrow> bool" where
  "reads_ok n r = (case r of None \<Rightarrow> True
     | Some (s, extra) \<Rightarrow> wire_ok s \<and> on_wire s = s \<and> length extra + byteSize s = n)"

lemma read_data_ends: "returns (read_data conv opt b) (reads_ok (length b + 4))"
  using unat_16[of "word_of_int (be_get (take 2 (drop 12 b)))"]
  by (simp add: read_data_def u16_at_def u32_at_def slice_from_def slice_between_def Let_def
      reads_ok_def dataSegmentOverhead_def)

lemma read_ack_ends: "returns (read_ack conv opt b) (reads_ok (length b + 4))"
proof (cases "length b < 13 + unat (b ! 12) * 4 \<or> length b < 13")
  case False
  then have "13 + unat (b ! 12) * 4 \<le> length b" by (simp add: not_less)
  then have "unat (b ! 12) * 4 \<le> length (drop 13 b)" by (simp only: length_drop le_diff_conv2)
  from read_numbers_ends[OF this] obtain ns where "read_numbers (unat (b ! 12)) (drop 13 b) =
      Ret (ns, drop (unat (b ! 12) * 4) (drop 13 b))" "length ns = unat (b ! 12)" by blast
  with False show ?thesis
    by (simp add: read_ack_def byte_at_def u32_at_def slice_from_def Let_def unat_byte reads_ok_def)
qed (auto simp: read_ack_def byte_at_def Let_def reads_ok_def)

lemma read_cmd_ends:
  "cmd \<noteq> commandData \<Longrightarrow> cmd \<noteq> commandACK \<Longrightarrow>
     returns (read_cmd conv cmd opt b) (reads_ok (length b + 4))"
  by (simp add: read_cmd_def u32_at_def slice_from_def reads_ok_def)

lemma readSegment_ends: "returns (readSegment b) (reads_ok (length b))"
proof (cases "length b < 4")
  case False
  then show ?thesis
    using read_data_ends[of _ _ "drop 4 b"] read_ack_ends[of _ _ "drop 4 b"]
      read_cmd_ends[of _ _ _ "drop 4 b"]
    by (simp add: readSegment_def u16_at_def byte_at_def slice_from_def)
qed (simp add: readSegment_def reads_ok_def)

lemma readSegment_shorter:
  "readSegment b = Ret (Some (s, extra)) \<Longrightarrow> length extra < length b"
  using readSegment_ends[of b] by (cases s) (auto simp: reads_ok_def dataSegmentOverhead_def)

end
