(* ===== verification/KcpAuth.thy ===== *)
theory KcpAuth
  imports KcpSegment
begin

text \<open>
  The checksum that mKCP uses when no seed is configured (\<open>transport/mkcp/auth.go\<close>), an implementation
  of Go's \<open>cipher.AEAD\<close>: a hash, the length and the text, with every byte XORed with the one four places
  before. The locale \<open>aead_laws\<close> is what the packets rely on; the other implementation, AES-GCM of the
  standard library, enters the development only through it.
\<close>

section \<open>The interface\<close>

record aead =
  aead_nonce :: nat
  aead_overhead :: nat
  aead_seal :: "byte list \<Rightarrow> byte list \<Rightarrow> byte list"
  aead_open :: "byte list \<Rightarrow> byte list \<Rightarrow> byte list option"

text \<open>\<open>aead_seal a nonce plain\<close> and \<open>aead_open a nonce cipher\<close>; the callers pass no additional data.
  The law of an AEAD: what was sealed is opened with the same nonce, and sealing adds \<open>Overhead()\<close>
  bytes. The texts are shorter than \<open>2 ^ 16\<close> bytes, as the packets of a datagram are.\<close>

locale aead_laws =
  fixes a :: aead
  assumes open_seal: "length nonce = aead_nonce a \<Longrightarrow> length p < 65536 \<Longrightarrow>
            aead_open a nonce (aead_seal a nonce p) = Some p"
    and length_seal: "length nonce = aead_nonce a \<Longrightarrow>
            length (aead_seal a nonce p) = length p + aead_overhead a"
begin

lemma sealed_longer:
  "length nonce = aead_nonce a \<Longrightarrow> p \<noteq> [] \<Longrightarrow>
     aead_nonce a + aead_overhead a < length (nonce @ aead_seal a nonce p)"
  by (simp add: length_seal)

end

section \<open>The simple authenticator\<close>

text \<open>FNV-1a with 32 bits (\<open>hash/fnv\<close>).\<close>

definition fnv32a :: "byte list \<Rightarrow> 32 word" where
  "fnv32a bs = foldl (\<lambda>h b. (h XOR ucast b) * 16777619) 2166136261 bs"

definition xor_step :: "nat \<Rightarrow> byte list \<Rightarrow> byte list" where
  "xor_step i x = x[i := (x ! i) XOR (x ! (i - 4))]"

definition xorfwd :: "byte list \<Rightarrow> byte list" where
  "xorfwd x = fold xor_step [4..<length x] x"

definition xorbkd :: "byte list \<Rightarrow> byte list" where
  "xorbkd x = fold xor_step (rev [4..<length x]) x"

text \<open>\<open>extra := 4 - dstLen % 4\<close>; when it is not 4, zeros are appended before and cut after the pass.\<close>

definition padded_pass :: "(byte list \<Rightarrow> byte list) \<Rightarrow> byte list \<Rightarrow> byte list" where
  "padded_pass pass dst = (let extra = 4 - length dst mod 4 in
     if extra \<noteq> 4 then take (length dst) (pass (dst @ replicate extra 0)) else pass dst)"

definition auth_Seal :: "byte list \<Rightarrow> byte list \<Rightarrow> byte list" where
  "auth_Seal nonce plain =
     (let body = be_put 2 (uint (word_of_nat (length plain) :: 16 word)) @ plain
      in padded_pass xorfwd (be_put 4 (uint (fnv32a body)) @ body))"

definition auth_Open :: "byte list \<Rightarrow> byte list \<Rightarrow> byte list option" where
  "auth_Open nonce ciphertext =
     (let dst = padded_pass xorbkd ciphertext in
      if length dst < 6 then None
      else if word_of_int (be_get (take 4 dst)) \<noteq> fnv32a (drop 4 dst) then None
      else if length dst - 6 \<noteq> unat (word_of_int (be_get (take 2 (drop 4 dst))) :: 16 word) then None
      else Some (drop 6 dst))"

definition newSimpleAuthenticator :: aead where
  "newSimpleAuthenticator = \<lparr>aead_nonce = 0, aead_overhead = 6,
     aead_seal = auth_Seal, aead_open = auth_Open\<rparr>"

subsection \<open>The two passes are inverse, and the padding does not matter\<close>

lemma length_xor_step [simp]: "length (xor_step i x) = length x"
  by (simp add: xor_step_def)

lemma length_fold_xor [simp]: "length (fold xor_step is x) = length x"
  by (induction "is" arbitrary: x) simp_all

lemma length_passes [simp]: "length (xorfwd x) = length x" "length (xorbkd x) = length x"
  by (simp_all add: xorfwd_def xorbkd_def)

lemma xor_step_twice: "4 \<le> i \<Longrightarrow> xor_step i (xor_step i x) = x"
proof (cases "i < length x")
  case True
  assume "4 \<le> i"
  then have "i \<noteq> i - 4" by simp
  with True show ?thesis
    by (simp add: xor_step_def xor.assoc)
qed (simp add: xor_step_def list_update_beyond)

lemma fold_undone:
  "\<forall>i \<in> set is. 4 \<le> i \<Longrightarrow> fold xor_step (rev is) (fold xor_step is x) = x"
  "\<forall>i \<in> set is. 4 \<le> i \<Longrightarrow> fold xor_step is (fold xor_step (rev is) x) = x"
  by (induction "is" arbitrary: x) (simp_all add: xor_step_twice)

lemma xorbkd_xorfwd [simp]: "xorbkd (xorfwd x) = x"
  by (simp add: xorfwd_def xorbkd_def fold_undone)

lemma xorfwd_xorbkd [simp]: "xorfwd (xorbkd x) = x"
  by (simp add: xorfwd_def xorbkd_def fold_undone)

lemma xor_step_append: "i < length x \<Longrightarrow> xor_step i (x @ y) = xor_step i x @ y"
  by (simp add: xor_step_def nth_append less_imp_diff_less list_update_append)

lemma fold_append_prefix:
  "\<forall>i \<in> set is. i < length x \<Longrightarrow> fold xor_step is (x @ y) = fold xor_step is x @ y"
  by (induction "is" arbitrary: x) (simp_all add: xor_step_append)

lemma take_fold_beyond:
  "\<forall>i \<in> set is. n \<le> i \<Longrightarrow> take n (fold xor_step is x) = take n x"
  by (induction "is" arbitrary: x) (simp_all add: xor_step_def)

lemma take_xorfwd: "take (length x) (xorfwd (x @ y)) = xorfwd x"
proof -
  have "xorfwd (x @ y) =
      fold xor_step [max 4 (length x)..<length (x @ y)] (fold xor_step [4..<length x] (x @ y))"
  proof (cases "4 \<le> length x")
    case True
    then have "[4..<length (x @ y)] = [4..<length x] @ [length x..<length (x @ y)]"
      using upt_add_eq_append[of 4 "length x" "length y"] by simp
    with True show ?thesis by (simp add: xorfwd_def max_def del: upt_conv_Cons)
  qed (simp add: xorfwd_def max_def)
  also have "take (length x) \<dots> = take (length x) (fold xor_step [4..<length x] (x @ y))"
    by (rule take_fold_beyond) simp
  also have "\<dots> = xorfwd x"
    by (subst fold_append_prefix) (simp_all add: xorfwd_def)
  finally show ?thesis .
qed

lemma take_xorbkd: "take (length x) (xorbkd (x @ y)) = xorbkd x"
proof -
  have "xorfwd (take (length x) (xorbkd (x @ y))) = take (length x) (xorfwd (xorbkd (x @ y)))"
    using take_xorfwd[of "take (length x) (xorbkd (x @ y))" "drop (length x) (xorbkd (x @ y))"]
    by (simp add: min_def)
  then have "xorfwd (take (length x) (xorbkd (x @ y))) = x" by simp
  then show ?thesis by (metis xorbkd_xorfwd)
qed

lemma padded_passes [simp]:
  "padded_pass xorfwd x = xorfwd x" "padded_pass xorbkd x = xorbkd x"
  by (simp_all add: padded_pass_def Let_def take_xorfwd take_xorbkd)

subsection \<open>The laws\<close>

lemma word_be_put [simp]:
  "word_of_int (be_get (be_put 4 (uint w))) = (w :: 32 word)"
  "word_of_int (be_get (be_put 2 (uint v))) = (v :: 16 word)"
  by simp_all

lemma drop_6: "drop 6 (be_put 4 (uint (h :: 32 word)) @ be_put 2 (uint (l :: 16 word)) @ p) = p"
proof -
  have "drop 6 (be_put 4 (uint h) @ be_put 2 (uint l) @ p) =
      drop 2 (drop 4 (be_put 4 (uint h) @ be_put 2 (uint l) @ p))" by (simp only: drop_drop) simp
  then show ?thesis by (simp only: drop_be)
qed

lemma auth_Open_Seal: "length p < 65536 \<Longrightarrow> auth_Open n (auth_Seal n p) = Some p"
  by (simp add: auth_Open_def auth_Seal_def Let_def drop_6 del: be_32 be_16 add: be_32 be_16)

lemma length_auth_Seal: "length (auth_Seal n p) = length p + 6"
  by (simp add: auth_Seal_def Let_def)

lemma be_put_get_word:
  fixes w :: "'w::len word"
  assumes "length b = k" "2 ^ LENGTH('w) = (256 :: int) ^ k"
  shows "be_put k (uint (word_of_int (be_get b) :: 'w word)) = b"
proof -
  have "be_get b < 256 ^ k \<and> 0 \<le> be_get b \<and> be_put k (be_get b) = b" using assms(1)
  proof (induction k arbitrary: b)
    case (Suc k)
    then obtain c x where b: "b = c @ [x]" "length c = k" by (metis length_Suc_conv_rev)
    have g: "be_get b = be_get c * 256 + uint x" by (simp add: be_get_def b)
    have x: "0 \<le> uint x" "uint x < 256" using unsigned_less[of x, where ?'a = int] by simp_all
    with Suc.IH[OF b(2)] g have "be_get b div 256 = be_get c" by simp
    moreover have "word_of_int (be_get b) = x"
    proof -
      have "word_of_int (be_get b) = (word_of_int (uint x) :: byte)"
        unfolding g word_of_int_eq_iff by (simp add: take_bit_eq_mod)
      then show ?thesis by simp
    qed
    ultimately show ?case
      using Suc.IH[OF b(2)] x g by (simp add: b)
  qed (simp add: be_get_def)
  with assms(2) show ?thesis
    by (simp add: unsigned_of_int take_bit_eq_mod)
qed

text \<open>The authenticator accepts exactly what it produces: no other text opens.\<close>

lemma auth_Open_iff: "auth_Open n c = Some p \<longleftrightarrow> length p < 65536 \<and> c = auth_Seal n p"
proof
  assume o: "auth_Open n c = Some p"
  let ?d = "xorbkd c"
  from o have l: "6 \<le> length ?d" and p: "p = drop 6 ?d"
    and h: "word_of_int (be_get (take 4 ?d)) = fnv32a (drop 4 ?d)"
    and n: "length ?d - 6 = unat (word_of_int (be_get (take 2 (drop 4 ?d))) :: 16 word)"
    by (auto simp: auth_Open_def Let_def split: if_splits)
  have "length p < 65536" using p n unat_16 by (metis length_drop)
  moreover have "drop 4 ?d = be_put 2 (uint (word_of_nat (length p) :: 16 word)) @ p"
  proof -
    have "word_of_nat (length p) = (word_of_int (be_get (take 2 (drop 4 ?d))) :: 16 word)"
      using n p by simp
    moreover have "length (take 2 (drop 4 ?d)) = 2" using l by simp
    ultimately have "be_put 2 (uint (word_of_nat (length p) :: 16 word)) = take 2 (drop 4 ?d)"
      using be_put_get_word[of "take 2 (drop 4 ?d)" 2, where ?'w = 16] by simp
    moreover have "drop 4 ?d = take 2 (drop 4 ?d) @ drop 6 ?d"
      using append_take_drop_id[of 2 "drop 4 ?d"] by simp
    ultimately show ?thesis using p by simp
  qed
  moreover have "take 4 ?d = be_put 4 (uint (fnv32a (drop 4 ?d)))"
    using be_put_get_word[of "take 4 ?d" 4, where ?'w = 32] h l by simp
  ultimately show "length p < 65536 \<and> c = auth_Seal n p"
    by (metis (no_types) append_take_drop_id auth_Seal_def padded_passes(1) xorfwd_xorbkd)
qed (simp add: auth_Open_Seal)

interpretation simple_auth: aead_laws newSimpleAuthenticator
  by unfold_locales
    (simp_all add: newSimpleAuthenticator_def auth_Open_Seal length_auth_Seal)

end
