(* ===== verification/KcpPacket.thy ===== *)
theory KcpPacket
  imports KcpAuth GoStrings
begin

text \<open>
  Packets of mKCP: the camouflage headers (\<open>transport/mkcp/header.go\<close>), and writing and reading one
  datagram (\<open>packet.go\<close>). The random nonce and the random initial values of the headers are arguments.
\<close>

section \<open>Headers\<close>

datatype packetHeader =
    NoopHeader
  | SrtpHeader "16 word" "16 word"
  | UtpHeader byte byte "16 word"
  | WechatVideoHeader "32 word"
  | DtlsHeader "16 word" "16 word" "32 word"
  | WireguardHeader

text \<open>\<open>r\<close> is \<open>uint16(rand.Int63() >> 47)\<close>.\<close>

definition newPacketHeader :: "string \<Rightarrow> 16 word \<Rightarrow> packetHeader" where
  "newPacketHeader name r = (let n = ToLower name in
     if n = '''' \<or> n = ''none'' \<or> n = ''noop'' then NoopHeader
     else if n = ''srtp'' then SrtpHeader 0xb5e8 r
     else if n = ''utp'' then UtpHeader 1 0 r
     else if n = ''wechat-video'' \<or> n = ''wechat'' then WechatVideoHeader (ucast r)
     else if n = ''dtls'' then DtlsHeader r 17 0
     else if n = ''wireguard'' then WireguardHeader
     else NoopHeader)"

fun header_size :: "packetHeader \<Rightarrow> nat" where
  "header_size NoopHeader = 0"
| "header_size (SrtpHeader _ _) = 4"
| "header_size (UtpHeader _ _ _) = 4"
| "header_size (WechatVideoHeader _) = 13"
| "header_size (DtlsHeader _ _ _) = 13"
| "header_size WireguardHeader = 4"

text \<open>\<open>serialize\<close> also advances the counters of the header.\<close>

fun header_serialize :: "packetHeader \<Rightarrow> byte list \<times> packetHeader" where
  "header_serialize NoopHeader = ([], NoopHeader)"
| "header_serialize (SrtpHeader header number) = (let number = number + 1 in
     (be_put 2 (uint header) @ be_put 2 (uint number), SrtpHeader header number))"
| "header_serialize (UtpHeader header extension connectionID) =
     (be_put 2 (uint connectionID) @ [header, extension], UtpHeader header extension connectionID)"
| "header_serialize (WechatVideoHeader sn) = (let sn = sn + 1 in
     ([0xa1, 0x08] @ be_put 4 (uint sn) @ [0x00, 0x10, 0x11, 0x18, 0x30, 0x22, 0x30],
      WechatVideoHeader sn))"
| "header_serialize (DtlsHeader epoch len sequence) =
     ([23, 254, 253, ucast (drop_bit 8 epoch), ucast epoch, 0, 0, ucast (drop_bit 24 sequence),
       ucast (drop_bit 16 sequence), ucast (drop_bit 8 sequence), ucast sequence,
       ucast (drop_bit 8 len), ucast len],
      DtlsHeader epoch (if len + 17 > 100 then len + 17 - 50 else len + 17) (sequence + 1))"
| "header_serialize WireguardHeader = ([0x04, 0x00, 0x00, 0x00], WireguardHeader)"

lemma length_header [simp]: "length (fst (header_serialize h)) = header_size h"
  by (cases h) (simp_all add: Let_def)

lemma header_size_serialize [simp]: "header_size (snd (header_serialize h)) = header_size h"
  by (cases h) (simp_all add: Let_def)

section \<open>Writing\<close>

record packetWriter =
  pw_security :: "aead option"
  pw_header :: "packetHeader option"

text \<open>The size of an optional header.\<close>

fun opt_header_size :: "packetHeader option \<Rightarrow> nat" where
  "opt_header_size None = 0"
| "opt_header_size (Some h) = header_size h"

definition pw_overhead :: "packetWriter \<Rightarrow> nat" where
  "pw_overhead w = (case pw_security w of
      None \<Rightarrow> (case pw_header w of None \<Rightarrow> 0 | Some h \<Rightarrow> header_size h)
    | Some a \<Rightarrow> aead_overhead a + (case pw_header w of None \<Rightarrow> 0 | Some h \<Rightarrow> header_size h))"

definition securityOverhead :: "packetWriter \<Rightarrow> nat" where
  "securityOverhead w = (case pw_security w of None \<Rightarrow> 0 | Some a \<Rightarrow> aead_overhead a)"

text \<open>The datagram handed to the socket, and the writer with its header advanced. The nonce must fit
  the buffer that was allocated, otherwise the slice expression panics.\<close>

definition writeSegment ::
  "packetWriter \<Rightarrow> byte list \<Rightarrow> segment \<Rightarrow> (byte list \<times> packetWriter) outcome" where
  "writeSegment w nonce seg =
     (let payload = serialize seg;
          (head, w) = (case pw_header w of
             None \<Rightarrow> ([], w)
           | Some h \<Rightarrow> if header_size h > 0
                       then (fst (header_serialize h),
                             w\<lparr>pw_header := Some (snd (header_serialize h))\<rparr>)
                       else ([], w)) in
      case pw_security w of
        None \<Rightarrow> Ret (head @ payload, w)
      | Some a \<Rightarrow>
          if aead_nonce a > length payload + securityOverhead w + 3
          then Panic ''slice bounds out of range''
          else Ret (head @ nonce @ aead_seal a nonce payload, w))"

section \<open>Reading\<close>

record packetReader =
  pr_security :: "aead option"
  pr_header :: "packetHeader option"

text \<open>The loop over the segments of a packet ends at the first that is not complete.\<close>

function read_segments :: "byte list \<Rightarrow> segment list outcome" where
  "read_segments b =
     (if b = [] then Ret []
      else obind (readSegment b) (\<lambda>r. case r of
        None \<Rightarrow> Ret []
      | Some (seg, extra) \<Rightarrow> obind (read_segments extra) (\<lambda>segments. Ret (seg # segments))))"
  by pat_completeness auto
termination
  by (relation "measure length") (auto dest: readSegment_shorter)

declare read_segments.simps [simp del]

definition read_opened :: "packetReader \<Rightarrow> byte list \<Rightarrow> segment list outcome" where
  "read_opened r b = (case pr_security r of
      None \<Rightarrow> read_segments b
    | Some a \<Rightarrow>
        if length b \<le> aead_nonce a + aead_overhead a then Ret []
        else obind (slice_between b 0 (aead_nonce a)) (\<lambda>nonce.
          obind (slice_from b (aead_nonce a)) (\<lambda>cipher.
            case aead_open a nonce cipher of None \<Rightarrow> Ret [] | Some out \<Rightarrow> read_segments out)))"

definition packet_read :: "packetReader \<Rightarrow> byte list \<Rightarrow> segment list outcome" where
  "packet_read r b = (case pr_header r of
      None \<Rightarrow> read_opened r b
    | Some h \<Rightarrow> if length b \<le> header_size h then Ret []
                else obind (slice_from b (header_size h)) (read_opened r))"

section \<open>Properties\<close>

lemma read_segments_ends:
  "returns (read_segments b) (\<lambda>ss. \<forall>s \<in> set ss. wire_ok s \<and> on_wire s = s)"
proof (induction b rule: read_segments.induct)
  case (1 b)
  show ?case
  proof (cases "b = []")
    case False
    obtain r where r: "readSegment b = Ret r" "reads_ok (length b) r"
      using readSegment_ends[of b] by (auto simp: returns_iff)
    show ?thesis
    proof (cases r)
      case None
      with r False show ?thesis by (simp add: read_segments.simps)
    next
      case (Some p)
      obtain seg extra where p: "p = (seg, extra)" by (cases p)
      with 1[OF False r(1) Some, of seg extra] obtain ss where
        "read_segments extra = Ret ss" "\<forall>s \<in> set ss. wire_ok s \<and> on_wire s = s"
        by (auto simp: returns_iff)
      with r False Some p show ?thesis
        by (subst read_segments.simps) (simp add: reads_ok_def)
    qed
  qed (simp add: read_segments.simps)
qed

lemma read_opened_ends:
  "returns (read_opened r b) (\<lambda>ss. \<forall>s \<in> set ss. wire_ok s \<and> on_wire s = s)"
  using read_segments_ends
  by (auto simp: read_opened_def slice_between_def slice_from_def split: option.split)

text \<open>
  Reading a datagram never panics, whatever its bytes, the camouflage header and the
  decryption are: it returns segments that fit the wire format.
\<close>

theorem packet_read_total:
  "returns (packet_read r b) (\<lambda>ss. \<forall>s \<in> set ss. wire_ok s \<and> on_wire s = s)"
  using read_opened_ends
  by (auto simp: packet_read_def slice_from_def split: option.split)

lemma read_one: "wire_ok s \<Longrightarrow> read_segments (serialize s) = Ret [on_wire s]"
proof -
  assume ok: "wire_ok s"
  have "serialize s \<noteq> []"
    using length_serialize[of s] by (cases s) (auto simp: dataSegmentOverhead_def)
  with readSegment_serialize[OF ok, of "[]"] show ?thesis
    by (subst read_segments.simps) (simp add: read_segments.simps)
qed

text \<open>A reader for the packets of a writer: the same security, and headers of the same size.\<close>

definition reads_from :: "packetReader \<Rightarrow> packetWriter \<Rightarrow> bool" where
  "reads_from r w \<longleftrightarrow> pr_security r = pw_security w \<and>
     map_option header_size (pr_header r) = map_option header_size (pw_header w)"

definition secure :: "packetWriter \<Rightarrow> bool" where
  "secure w \<longleftrightarrow> (\<forall>a \<in> set_option (pw_security w).
     aead_laws a \<and> aead_nonce a \<le> 19 + aead_overhead a)"

definition nonce_for :: "packetWriter \<Rightarrow> byte list \<Rightarrow> bool" where
  "nonce_for w nonce \<longleftrightarrow> (\<forall>a \<in> set_option (pw_security w). length nonce = aead_nonce a)"

lemma byteSize_pos: "16 \<le> byteSize s"
  by (cases s) (auto simp: dataSegmentOverhead_def)

lemma read_opened_sealed:
  assumes a: "pr_security r = Some a" "aead_laws a" and n: "length nonce = aead_nonce a"
    and s: "wire_ok s" "byteSize s < 65536"
  shows "read_opened r (nonce @ aead_seal a nonce (serialize s)) = Ret [on_wire s]"
proof -
  have "serialize s \<noteq> []" using byteSize_pos[of s] length_serialize[of s] by fastforce
  then have "aead_nonce a + aead_overhead a < length (nonce @ aead_seal a nonce (serialize s))"
    by (rule aead_laws.sealed_longer[OF a(2) n])
  then show ?thesis
    using a(1) n s aead_laws.open_seal[OF a(2) n, of "serialize s"]
      slice_from_append[OF n] slice_between_append[of "[]" 0 "aead_nonce a" nonce]
    by (simp add: read_opened_def read_one)
qed

lemma read_opened_written:
  assumes "reads_from r w" "secure w" "nonce_for w nonce" "wire_ok s" "byteSize s < 65536"
  shows "read_opened r (case pw_security w of None \<Rightarrow> serialize s
           | Some a \<Rightarrow> nonce @ aead_seal a nonce (serialize s)) = Ret [on_wire s]"
proof (cases "pw_security w")
  case None
  with assms show ?thesis by (simp add: reads_from_def read_opened_def read_one)
next
  case (Some a)
  with assms show ?thesis
    by (simp add: reads_from_def secure_def nonce_for_def read_opened_sealed)
qed

lemma packet_read_head:
  assumes "length head = opt_header_size (pr_header r)" "b \<noteq> []"
  shows "packet_read r (head @ b) = read_opened r b"
  using assms by (cases "pr_header r") (simp_all add: packet_read_def)

lemma opt_header_eq:
  "map_option header_size h = map_option header_size h' \<Longrightarrow> opt_header_size h = opt_header_size h'"
  by (cases h; cases h') simp_all

text \<open>The parts of a packet.\<close>

lemma writeSegment_parts:
  assumes "secure w" "nonce_for w nonce"
  shows "\<exists>head w'. writeSegment w nonce s = Ret (head @ (case pw_security w of None \<Rightarrow> serialize s
             | Some a \<Rightarrow> nonce @ aead_seal a nonce (serialize s)), w') \<and>
           length head = opt_header_size (pw_header w) \<and> pw_security w' = pw_security w \<and>
           map_option header_size (pw_header w') = map_option header_size (pw_header w)"
proof (cases "pw_header w")
  case None
  with assms byteSize_pos[of s] show ?thesis
    by (auto simp: writeSegment_def secure_def securityOverhead_def Let_def split: option.splits)
next
  case (Some h)
  with assms byteSize_pos[of s] length_header[of h] show ?thesis
    by (auto simp: writeSegment_def secure_def securityOverhead_def Let_def split: option.splits)
qed

lemma written_packet_read:
  assumes "reads_from r w" "secure w" "nonce_for w nonce" "wire_ok s" "byteSize s < 65536"
  shows "\<exists>p w'. writeSegment w nonce s = Ret (p, w') \<and> packet_read r p = Ret [on_wire s] \<and>
           reads_from r w' \<and> secure w' \<and> pw_security w' = pw_security w"
proof -
  let ?b = "case pw_security w of None \<Rightarrow> serialize s
             | Some a \<Rightarrow> nonce @ aead_seal a nonce (serialize s)"
  obtain head w' where w: "writeSegment w nonce s = Ret (head @ ?b, w')"
    "length head = opt_header_size (pw_header w)" "pw_security w' = pw_security w"
    "map_option header_size (pw_header w') = map_option header_size (pw_header w)"
    using writeSegment_parts[OF assms(2,3)] by metis
  have "read_opened r [] = Ret []"
    by (auto simp: read_opened_def read_segments.simps split: option.split)
  with read_opened_written[OF assms] have "?b \<noteq> []" by fastforce
  moreover have "length head = opt_header_size (pr_header r)"
    using assms(1) w(2) opt_header_eq unfolding reads_from_def by metis
  ultimately have "packet_read r (head @ ?b) = Ret [on_wire s]"
    using packet_read_head[of head r ?b] read_opened_written[OF assms] by simp
  with w assms(1,2) show ?thesis by (auto simp: reads_from_def secure_def)
qed

text \<open>
  C5. A packet that one side writes is read by the other side as the segment it was made of, for
  every camouflage header, every nonce and every security that satisfies the laws of an AEAD: when the
  segment's lists fit their length fields and the segment fits a datagram. The next packet is read as
  well, since the counters of the header do not change its size.
\<close>

theorem packet_round_trip:
  assumes "reads_from r w" "secure w" "nonce_for w nonce" "wire_ok s" "byteSize s < 65536"
  shows "\<exists>p w'. writeSegment w nonce s = Ret (p, w') \<and> packet_read r p = Ret [on_wire s] \<and>
           reads_from r w' \<and> secure w'"
  using written_packet_read[OF assms] by blast

lemma simple_secure:
  "secure \<lparr>pw_security = Some newSimpleAuthenticator, pw_header = h\<rparr>"
  using simple_auth.aead_laws_axioms by (simp add: secure_def newSimpleAuthenticator_def)

definition example_data :: segment where
  "example_data = DataSeg \<lparr>d_conv = 7, d_option = 0, d_timestamp = 5, d_number = 1,
     d_sendingNext = 0, d_payload = [1, 2, 3], d_timeout = 9, d_transmit = 1\<rparr>"

theorem packet_round_trip_witness:
  "\<exists>p w'. writeSegment \<lparr>pw_security = Some newSimpleAuthenticator,
       pw_header = Some (newPacketHeader ''DTLS'' 9)\<rparr> [] example_data = Ret (p, w') \<and>
     packet_read \<lparr>pr_security = Some newSimpleAuthenticator,
       pr_header = Some (newPacketHeader ''DTLS'' 3)\<rparr> p = Ret [on_wire example_data]"
proof -
  have "ToLower ''DTLS'' = ''dtls''" by code_simp
  then have "newPacketHeader ''DTLS'' r = DtlsHeader r 17 0" for r
    by (simp add: newPacketHeader_def)
  then show ?thesis
    using packet_round_trip[OF _ simple_secure, of
        "\<lparr>pr_security = Some newSimpleAuthenticator, pr_header = Some (newPacketHeader ''DTLS'' 3)\<rparr>"
        "Some (newPacketHeader ''DTLS'' 9)" "[]" example_data]
    by (auto simp: reads_from_def nonce_for_def newSimpleAuthenticator_def example_data_def
        dataSegmentOverhead_def)
qed

text \<open>A writer before and after its header advanced.\<close>

definition wire_alike :: "packetWriter \<Rightarrow> packetWriter \<Rightarrow> bool" where
  "wire_alike w w' \<longleftrightarrow> pw_security w' = pw_security w \<and>
     map_option header_size (pw_header w') = map_option header_size (pw_header w)"

lemma wire_alike_refl [simp]: "wire_alike w w"
  by (simp add: wire_alike_def)

lemma wire_alike_trans: "wire_alike w v \<Longrightarrow> wire_alike v u \<Longrightarrow> wire_alike w u"
  by (auto simp: wire_alike_def)

lemma wire_alike_secure: "wire_alike w w' \<Longrightarrow> secure w' = secure w"
  and wire_alike_nonce: "wire_alike w w' \<Longrightarrow> nonce_for w' = nonce_for w"
  and wire_alike_reads: "wire_alike w w' \<Longrightarrow> reads_from r w' = reads_from r w"
  by (auto simp: wire_alike_def secure_def nonce_for_def reads_from_def fun_eq_iff)

lemma writeSegment_alike: "writeSegment w n s = Ret (p, w') \<Longrightarrow> wire_alike w w'"
  by (auto simp: writeSegment_def wire_alike_def Let_def split: option.splits if_splits prod.splits)

text \<open>The simple authenticator accepts nothing but what it seals.\<close>

lemma simple_open_iff:
  "aead_open newSimpleAuthenticator n c = Some p \<longleftrightarrow>
     length p < 65536 \<and> c = aead_seal newSimpleAuthenticator n p"
  by (simp add: newSimpleAuthenticator_def auth_Open_iff)

lemma packet_length:
  assumes "secure w" "nonce_for w nonce" "writeSegment w nonce s = Ret (p, w')"
  shows "length p = byteSize s + pw_overhead w +
           (case pw_security w of None \<Rightarrow> 0 | Some a \<Rightarrow> aead_nonce a)"
proof -
  from writeSegment_parts[OF assms(1,2), of s] assms(3) obtain head where
    "p = head @ (case pw_security w of None \<Rightarrow> serialize s
             | Some a \<Rightarrow> nonce @ aead_seal a nonce (serialize s))"
    "length head = opt_header_size (pw_header w)" by auto
  moreover have "opt_header_size (pw_header w) =
      (case pw_header w of None \<Rightarrow> 0 | Some h \<Rightarrow> header_size h)" by (cases "pw_header w") simp_all
  ultimately show ?thesis
    using assms(1,2) aead_laws.length_seal
    by (auto simp: pw_overhead_def secure_def nonce_for_def split: option.splits)
qed

end
