(* ===== verification/KcpConn.thy ===== *)
theory KcpConn
  imports KcpPacket
begin

text \<open>
  The configuration of mKCP (\<open>transport/mkcp/config.go\<close>) and the state of a connection
  (\<open>conn.go\<close>): its record, the operations of \<open>net.Conn\<close>, and what a received segment does.
  Every method that the code runs under the mutex is a function of the state. Time enters as the value
  of \<open>elapsed()\<close>: \<open>current\<close> is the value read at the start of a method, \<open>later\<close> the value that
  \<open>setStateLocked\<close> reads again in the same method. A channel that is closed and replaced to wake its
  waiters is a counter.
\<close>

section \<open>Configuration\<close>

record kconfig =
  k_MTU :: "32 word"
  k_TTI :: "32 word"
  k_UplinkCapacity :: "32 word"
  k_DownlinkCapacity :: "32 word"
  k_Congestion :: bool
  k_WriteBuffer :: "32 word"
  k_ReadBuffer :: "32 word"
  k_Seed :: string
  k_Header :: string

definition cfg_mtu :: "kconfig \<Rightarrow> 32 word" where
  "cfg_mtu c = (if k_MTU c = 0 then 1350 else k_MTU c)"

definition cfg_tti :: "kconfig \<Rightarrow> 32 word" where
  "cfg_tti c = (if k_TTI c = 0 then 50 else k_TTI c)"

definition cfg_uplinkCapacity :: "kconfig \<Rightarrow> 32 word" where
  "cfg_uplinkCapacity c = (if k_UplinkCapacity c = 0 then 5 else k_UplinkCapacity c)"

definition cfg_downlinkCapacity :: "kconfig \<Rightarrow> 32 word" where
  "cfg_downlinkCapacity c = (if k_DownlinkCapacity c = 0 then 20 else k_DownlinkCapacity c)"

definition cfg_writeBuffer :: "kconfig \<Rightarrow> 32 word" where
  "cfg_writeBuffer c = (if k_WriteBuffer c = 0 then 2 * 1024 * 1024 else k_WriteBuffer c)"

definition cfg_readBuffer :: "kconfig \<Rightarrow> 32 word" where
  "cfg_readBuffer c = (if k_ReadBuffer c = 0 then 2 * 1024 * 1024 else k_ReadBuffer c)"

text \<open>Division of \<open>uint32\<close> values panics for a divisor 0. The MTU is never 0, but \<open>1000 / c.tti()\<close> is
  for a TTI above 1000.\<close>

definition in_flight :: "32 word \<Rightarrow> kconfig \<Rightarrow> 32 word outcome" where
  "in_flight capacity c =
     (if 1000 div cfg_tti c = 0 then Panic ''integer divide by zero''
      else let size = capacity * 1024 * 1024 div cfg_mtu c div (1000 div cfg_tti c)
           in Ret (if size < 8 then 8 else size))"

definition sendingInFlightSize :: "kconfig \<Rightarrow> 32 word outcome" where
  "sendingInFlightSize c = in_flight (cfg_uplinkCapacity c) c"

definition receivingInFlightSize :: "kconfig \<Rightarrow> 32 word outcome" where
  "receivingInFlightSize c = in_flight (cfg_downlinkCapacity c) c"

definition sendingBufferSize :: "kconfig \<Rightarrow> 32 word" where
  "sendingBufferSize c = cfg_writeBuffer c div cfg_mtu c"

definition receivingBufferSize :: "kconfig \<Rightarrow> 32 word" where
  "receivingBufferSize c = cfg_readBuffer c div cfg_mtu c"

text \<open>A connection exists only when \<open>newConn\<close> has computed \<open>sendingInFlightSize\<close> without a panic;
  both sizes have the same divisor, so its methods use their values.\<close>

definition send_flight :: "kconfig \<Rightarrow> 32 word" where
  "send_flight c = (case sendingInFlightSize c of Ret n \<Rightarrow> n | _ \<Rightarrow> 0)"

definition recv_flight :: "kconfig \<Rightarrow> 32 word" where
  "recv_flight c = (case receivingInFlightSize c of Ret n \<Rightarrow> n | _ \<Rightarrow> 0)"

text \<open>\<open>gcm\<close> is AES-GCM under the key derived from the seed.\<close>

definition cfg_security :: "(string \<Rightarrow> aead) \<Rightarrow> kconfig \<Rightarrow> aead" where
  "cfg_security gcm c = (if k_Seed c = '''' then newSimpleAuthenticator else gcm (k_Seed c))"

definition cfg_packetHeader :: "kconfig \<Rightarrow> 16 word \<Rightarrow> packetHeader" where
  "cfg_packetHeader c r = newPacketHeader (k_Header c) r"

section \<open>Connection\<close>

datatype connState =
    StateActive | StateReadyToClose | StatePeerClosed | StateTerminating
  | StatePeerTerminating | StateTerminated

record ackItem =
  i_number :: "32 word"
  i_timestamp :: "32 word"
  i_nextFlush :: "32 word"

record conn =
  k_cfg :: kconfig
  k_writer :: packetWriter
  k_conv :: "16 word"
  k_mss :: nat
  k_rto :: "32 word"
  k_rttVariation :: "32 word"
  k_srtt :: "32 word"
  k_minRtt :: "32 word"
  k_rtoUpdated :: "32 word"
  k_readDeadline :: "int option"
  k_writeDeadline :: "int option"
  k_state :: connState
  k_stateBegin :: "32 word"
  k_lastIncoming :: "32 word"
  k_lastPing :: "32 word"
  k_readBuf :: "byte list"
  k_recvCache :: "32 word \<Rightarrow> dataSegment option"
  k_recvNext :: "32 word"
  k_ackList :: "ackItem list"
  k_ackDirty :: bool
  k_sendWindow :: "dataSegment list"
  k_sendNext :: "32 word"
  k_firstUnacked :: "32 word"
  k_remoteRecvWin :: "32 word"
  k_totalInFlightSize :: "32 word"
  k_controlWindow :: "32 word"
  k_firstUnackedWasUpdated :: bool
  k_readNotify :: nat
  k_writeNotify :: nat
  k_flushNotify :: bool
  k_done :: bool

definition conn_mss :: "kconfig \<Rightarrow> packetWriter \<Rightarrow> nat" where
  "conn_mss cfg w =
     (let mss = uint (cfg_mtu cfg) - int (pw_overhead w) - int dataSegmentOverhead
      in nat (if mss < 576 then 576 else mss))"

definition newConn :: "16 word \<Rightarrow> packetWriter \<Rightarrow> kconfig \<Rightarrow> conn outcome" where
  "newConn conv w cfg = obind (sendingInFlightSize cfg) (\<lambda>controlWindow.
     Ret \<lparr>k_cfg = cfg, k_writer = w, k_conv = conv, k_mss = conn_mss cfg w, k_rto = 100,
       k_rttVariation = 0, k_srtt = 0, k_minRtt = cfg_tti cfg, k_rtoUpdated = 0,
       k_readDeadline = None, k_writeDeadline = None, k_state = StateActive, k_stateBegin = 0,
       k_lastIncoming = 0, k_lastPing = 0, k_readBuf = [], k_recvCache = (\<lambda>_. None),
       k_recvNext = 0, k_ackList = [], k_ackDirty = False, k_sendWindow = [], k_sendNext = 0,
       k_firstUnacked = 0, k_remoteRecvWin = 32, k_totalInFlightSize = 0,
       k_controlWindow = controlWindow, k_firstUnackedWasUpdated = False, k_readNotify = 0,
       k_writeNotify = 0, k_flushNotify = False, k_done = False\<rparr>)"

definition signalRead :: "conn \<Rightarrow> conn" where
  "signalRead c = c\<lparr>k_readNotify := k_readNotify c + 1\<rparr>"

definition signalWrite :: "conn \<Rightarrow> conn" where
  "signalWrite c = c\<lparr>k_writeNotify := k_writeNotify c + 1\<rparr>"

definition wakeFlush :: "conn \<Rightarrow> conn" where
  "wakeFlush c = c\<lparr>k_flushNotify := True\<rparr>"

definition setState :: "connState \<Rightarrow> 32 word \<Rightarrow> conn \<Rightarrow> conn" where
  "setState s later c =
     (if k_state c = s then c
      else let c = c\<lparr>k_state := s, k_stateBegin := later\<rparr> in
        case s of
          StateActive \<Rightarrow> c
        | StateReadyToClose \<Rightarrow> signalWrite (signalRead c)
        | StatePeerClosed \<Rightarrow> signalWrite (c\<lparr>k_sendWindow := []\<rparr>)
        | _ \<Rightarrow> signalWrite (signalRead (c\<lparr>k_sendWindow := []\<rparr>)))"

text \<open>\<open>once\<close> and the channel \<open>done\<close>; the closer is the socket or the entry in the listener.\<close>

definition terminate :: "32 word \<Rightarrow> conn \<Rightarrow> conn" where
  "terminate later c =
     (if k_done c then c
      else (signalWrite (signalRead (setState StateTerminated later c)))\<lparr>k_done := True\<rparr>)"

subsection \<open>Read, Write, Close, deadlines\<close>

datatype read_result = ReadBytes "byte list" | ReadEOF | ReadWait nat "int option"

text \<open>One turn of the loop of \<open>Read\<close> with a buffer of \<open>n\<close> bytes; \<open>ReadWait\<close> waits for the channel that
  it took under the mutex, or the deadline.\<close>

definition conn_Read :: "nat \<Rightarrow> conn \<Rightarrow> read_result \<times> conn" where
  "conn_Read n c =
     (if k_readBuf c \<noteq> [] then
        (ReadBytes (take n (k_readBuf c)), wakeFlush (c\<lparr>k_readBuf := drop n (k_readBuf c)\<rparr>))
      else if k_state c \<in> {StateReadyToClose, StateTerminating, StateTerminated} then (ReadEOF, c)
      else (ReadWait (k_readNotify c) (k_readDeadline c), c))"

datatype write_result = WriteTaken | WriteClosed | WriteWait nat "int option"

text \<open>One turn of the inner loop of \<open>Write\<close>, for one payload.\<close>

definition write_payload :: "byte list \<Rightarrow> conn \<Rightarrow> write_result \<times> conn" where
  "write_payload payload c =
     (if k_state c \<noteq> StateActive then (WriteClosed, c)
      else if word_of_nat (length (k_sendWindow c)) \<le> sendingBufferSize (k_cfg c) then
        (WriteTaken, wakeFlush (signalWrite (c\<lparr>
           k_sendWindow := k_sendWindow c @ [\<lparr>d_conv = 0, d_option = 0, d_timestamp = 0,
             d_number = k_sendNext c, d_sendingNext = 0, d_payload = payload, d_timeout = 0,
             d_transmit = 0\<rparr>],
           k_sendNext := k_sendNext c + 1\<rparr>)))
      else (WriteWait (k_writeNotify c) (k_writeDeadline c), c))"

text \<open>\<open>Write\<close> up to its end or its first wait: the bytes written and why it stopped. Every turn writes
  at least one byte when the segment size is positive, so the length of the buffer is enough fuel.\<close>

fun write_loop :: "nat \<Rightarrow> byte list \<Rightarrow> nat \<Rightarrow> conn \<Rightarrow> (nat \<times> write_result \<times> conn) outcome" where
  "write_loop fuel b written c =
     (if written < length b then
        case fuel of
          0 \<Rightarrow> Diverge
        | Suc fuel \<Rightarrow>
            let end = (if written + k_mss c > length b then length b else written + k_mss c) in
            (case write_payload (take (end - written) (drop written b)) c of
               (WriteTaken, c) \<Rightarrow> write_loop fuel b end c
             | (r, c) \<Rightarrow> Ret (written, r, c))
      else Ret (written, WriteTaken, c))"

declare write_loop.simps [simp del]

definition conn_Write :: "byte list \<Rightarrow> conn \<Rightarrow> (nat \<times> write_result \<times> conn) outcome" where
  "conn_Write b c = (if b = [] then Ret (0, WriteTaken, c) else write_loop (length b) b 0 c)"

text \<open>The Boolean is whether the call succeeded (\<open>nil\<close> against \<open>net.ErrClosed\<close>).\<close>

definition conn_Close :: "32 word \<Rightarrow> conn \<Rightarrow> bool \<times> conn" where
  "conn_Close later c = (case k_state c of
      StateActive \<Rightarrow> (True, wakeFlush (setState StateReadyToClose later c))
    | StatePeerClosed \<Rightarrow> (True, wakeFlush (setState StateTerminating later c))
    | StatePeerTerminating \<Rightarrow>
        (True, terminate later (wakeFlush (setState StateTerminated later c)))
    | _ \<Rightarrow> (False, c))"

definition SetReadDeadline :: "int option \<Rightarrow> conn \<Rightarrow> bool \<times> conn" where
  "SetReadDeadline t c = (if k_state c \<noteq> StateActive then (False, c)
     else (True, signalRead (c\<lparr>k_readDeadline := t\<rparr>)))"

definition SetWriteDeadline :: "int option \<Rightarrow> conn \<Rightarrow> bool \<times> conn" where
  "SetWriteDeadline t c = (if k_state c \<noteq> StateActive then (False, c)
     else (True, signalWrite (c\<lparr>k_writeDeadline := t\<rparr>)))"

definition SetDeadline :: "int option \<Rightarrow> conn \<Rightarrow> bool \<times> conn" where
  "SetDeadline t c = SetWriteDeadline t (snd (SetReadDeadline t c))"

subsection \<open>What a received segment does\<close>

definition handleOption :: "segmentOption \<Rightarrow> 32 word \<Rightarrow> conn \<Rightarrow> conn" where
  "handleOption opt later c =
     (if opt AND segmentOptionClose = segmentOptionClose then
        case k_state c of
          StateReadyToClose \<Rightarrow> setState StateTerminating later c
        | StateActive \<Rightarrow> setState StatePeerClosed later c
        | _ \<Rightarrow> c
      else c)"

function deliver_loop :: "bool \<Rightarrow> conn \<Rightarrow> bool \<times> conn" where
  "deliver_loop delivered c = (case k_recvCache c (k_recvNext c) of
      None \<Rightarrow> (delivered, c)
    | Some seg \<Rightarrow> deliver_loop True (c\<lparr>k_recvCache := (k_recvCache c)(k_recvNext c := None),
        k_recvNext := k_recvNext c + 1, k_readBuf := k_readBuf c @ d_payload seg\<rparr>))"
  by pat_completeness auto
termination
proof (relation "measure (\<lambda>(d, c). card (dom (k_recvCache c)))")
  fix c :: conn and seg
  assume "k_recvCache c (k_recvNext c) = Some seg"
  then have "k_recvNext c \<in> dom (k_recvCache c)" by auto
  then have "card (dom (k_recvCache c) - {k_recvNext c}) < card (dom (k_recvCache c))"
    by (intro card_Diff1_less) simp_all
  then show "((True, c\<lparr>k_recvCache := (k_recvCache c)(k_recvNext c := None),
      k_recvNext := k_recvNext c + 1, k_readBuf := k_readBuf c @ d_payload seg\<rparr>), d, c)
    \<in> measure (\<lambda>(d, c). card (dom (k_recvCache c)))" for d
    by simp
qed simp

declare deliver_loop.simps [simp del]

definition deliver :: "conn \<Rightarrow> conn" where
  "deliver c = (let (delivered, c) = deliver_loop False c in if delivered then signalRead c else c)"

definition processSendingNext :: "32 word \<Rightarrow> conn \<Rightarrow> conn" where
  "processSendingNext next c =
     (if k_ackList c \<noteq> [] then
        let acks = filter (\<lambda>ack. i_number ack \<ge> next) (k_ackList c);
            c = (if length acks \<noteq> length (k_ackList c) then c\<lparr>k_ackDirty := True\<rparr> else c)
        in c\<lparr>k_ackList := acks\<rparr>
      else c)"

definition findFirstUnacked :: "conn \<Rightarrow> conn" where
  "findFirstUnacked c =
     (let first = k_firstUnacked c;
          c = c\<lparr>k_firstUnacked := (case k_sendWindow c of [] \<Rightarrow> k_sendNext c | s # _ \<Rightarrow> d_number s)\<rparr>
      in if first \<noteq> k_firstUnacked c then c\<lparr>k_firstUnackedWasUpdated := True\<rparr> else c)"

definition processReceivingNext :: "32 word \<Rightarrow> conn \<Rightarrow> conn" where
  "processReceivingNext next c =
     (let changed = (\<exists>seg \<in> set (k_sendWindow c). d_number seg < next);
          c = findFirstUnacked
                (c\<lparr>k_sendWindow := filter (\<lambda>seg. \<not> d_number seg < next) (k_sendWindow c)\<rparr>)
      in if changed then signalWrite c else c)"

text \<open>Without the first segment with the number.\<close>

fun remove_number :: "32 word \<Rightarrow> dataSegment list \<Rightarrow> dataSegment list option" where
  "remove_number number [] = None"
| "remove_number number (seg # segs) =
     (if d_number seg = number then Some segs
      else map_option (\<lambda>segs. seg # segs) (remove_number number segs))"

definition processAck :: "32 word \<Rightarrow> conn \<Rightarrow> bool \<times> conn" where
  "processAck number c =
     (if number - k_firstUnacked c > 0x7fffffff \<or> number - k_sendNext c < 0x7fffffff
      then (False, c)
      else case remove_number number (k_sendWindow c) of
        None \<Rightarrow> (False, c)
      | Some window \<Rightarrow>
          (True, signalWrite (findFirstUnacked (c\<lparr>
             k_totalInFlightSize := (if k_totalInFlightSize c > 0 then k_totalInFlightSize c - 1
                                     else k_totalInFlightSize c),
             k_sendWindow := window\<rparr>))))"

fun fast_ack_loop :: "32 word \<Rightarrow> 32 word \<Rightarrow> dataSegment list \<Rightarrow> dataSegment list" where
  "fast_ack_loop number reduction [] = []"
| "fast_ack_loop number reduction (seg # segs) =
     (if number = d_number seg \<or> number - d_number seg > 0x7fffffff then seg # segs
      else (if d_transmit seg > 0 \<and> d_timeout seg > reduction
            then seg\<lparr>d_timeout := d_timeout seg - reduction\<rparr> else seg)
           # fast_ack_loop number reduction segs)"

definition handleFastAck :: "32 word \<Rightarrow> conn \<Rightarrow> conn" where
  "handleFastAck number c =
     (if k_sendWindow c = [] then c
      else let reduction = k_rto c div 3 in
        if reduction = 0 then c
        else c\<lparr>k_sendWindow := fast_ack_loop number reduction (k_sendWindow c)\<rparr>)"

definition updateRTT :: "32 word \<Rightarrow> 32 word \<Rightarrow> conn \<Rightarrow> conn" where
  "updateRTT rtt current c =
     (if rtt > 0x7fffffff then c
      else
        let c = (if k_srtt c = 0 then c\<lparr>k_srtt := rtt, k_rttVariation := rtt div 2\<rparr>
                 else
                   let delta = (if k_srtt c > rtt then k_srtt c - rtt else rtt - k_srtt c);
                       c = c\<lparr>k_rttVariation := (3 * k_rttVariation c + delta) div 4,
                             k_srtt := (7 * k_srtt c + rtt) div 8\<rparr>
                   in if k_srtt c < k_minRtt c then c\<lparr>k_srtt := k_minRtt c\<rparr> else c);
            rto = (if k_minRtt c < 4 * k_rttVariation c then k_srtt c + 4 * k_rttVariation c
                   else k_srtt c + k_rttVariation c);
            rto = (if rto > 10000 then 10000 else rto)
        in c\<lparr>k_rto := rto * 5 div 4, k_rtoUpdated := current\<rparr>)"

definition updatePeerRTO :: "32 word \<Rightarrow> 32 word \<Rightarrow> conn \<Rightarrow> conn" where
  "updatePeerRTO rto current c =
     (if rto = 0 \<or> current - k_rtoUpdated c < 3000 then c
      else c\<lparr>k_rtoUpdated := current, k_rto := rto\<rparr>)"

definition input_data :: "32 word \<Rightarrow> dataSegment \<Rightarrow> conn \<Rightarrow> conn" where
  "input_data later s c =
     (let c = processSendingNext (d_sendingNext s) (handleOption (d_option s) later c);
          idx = d_number s - k_recvNext c;
          c = (if idx < recv_flight (k_cfg c) then
                 c\<lparr>k_ackList := k_ackList c @ [\<lparr>i_number = d_number s,
                       i_timestamp = d_timestamp s, i_nextFlush = 0\<rparr>],
                   k_ackDirty := True,
                   k_recvCache := (if k_recvCache c (d_number s) = None
                                   then (k_recvCache c)(d_number s := Some s)
                                   else k_recvCache c)\<rparr>
               else c)
      in deliver c)"

text \<open>The loop over the numbers: the largest, and whether it was removed from the window.\<close>

fun ack_loop :: "32 word list \<Rightarrow> 32 word \<Rightarrow> bool \<Rightarrow> conn \<Rightarrow> 32 word \<times> bool \<times> conn" where
  "ack_loop [] maxack maxackRemoved c = (maxack, maxackRemoved, c)"
| "ack_loop (number # numbers) maxack maxackRemoved c =
     (let (removed, c) = processAck number c in
      if maxack < number then ack_loop numbers number removed c
      else ack_loop numbers maxack maxackRemoved c)"

text \<open>The Boolean is \<open>wakeFlush\<close>.\<close>

definition input_ack :: "32 word \<Rightarrow> 32 word \<Rightarrow> ackSegment \<Rightarrow> conn \<Rightarrow> bool \<times> conn" where
  "input_ack current later s c =
     (let c = handleOption (a_option s) later c;
          c = (if a_receivingWindow s > k_remoteRecvWin c
               then c\<lparr>k_remoteRecvWin := a_receivingWindow s\<rparr> else c);
          c = processReceivingNext (a_receivingNext s) c in
      if a_numberList s = [] then (False, c)
      else
        let (maxack, maxackRemoved, c) = ack_loop (a_numberList s) 0 False c;
            c = (if maxackRemoved then
                   let c = handleFastAck maxack c in
                   if current - a_timestamp s < 10000
                   then updateRTT (current - a_timestamp s) current c else c
                 else c)
        in (True, c))"

text \<open>The Boolean is \<open>terminate\<close>.\<close>

definition input_cmd :: "32 word \<Rightarrow> 32 word \<Rightarrow> cmdOnlySegment \<Rightarrow> conn \<Rightarrow> bool \<times> conn" where
  "input_cmd current later s c =
     (let c = handleOption (c_option s) later c;
          (ended, c) =
            (if c_cmd s = commandTerminate then
               (case k_state c of
                  StateActive \<Rightarrow> (False, setState StatePeerTerminating later c)
                | StatePeerClosed \<Rightarrow> (False, setState StatePeerTerminating later c)
                | StateReadyToClose \<Rightarrow> (False, setState StateTerminating later c)
                | StateTerminating \<Rightarrow> (True, setState StateTerminated later c)
                | _ \<Rightarrow> (False, c))
             else (False, c));
          c = processReceivingNext (c_receivingNext s) c;
          c = processSendingNext (c_sendingNext s) c;
          c = updatePeerRTO (c_peerRTO s) current c
      in (ended, if c_option s = segmentOptionClose \<or> c_cmd s = commandTerminate
                then signalWrite (signalRead c) else c))"

text \<open>The loop over the segments of a packet, until one belongs to another conversation.\<close>

fun input_loop ::
  "32 word \<Rightarrow> 32 word \<Rightarrow> segment list \<Rightarrow> bool \<Rightarrow> bool \<Rightarrow> conn \<Rightarrow> bool \<times> bool \<times> conn" where
  "input_loop current later [] wake ended c = (wake, ended, c)"
| "input_loop current later (seg # segs) wake ended c =
     (if conversation seg \<noteq> k_conv c then (wake, ended, c)
      else case seg of
        DataSeg s \<Rightarrow> input_loop current later segs True ended (input_data later s c)
      | AckSeg s \<Rightarrow> (let (w, c) = input_ack current later s c
                     in input_loop current later segs (wake \<or> w) ended c)
      | CmdSeg s \<Rightarrow> (let (t, c) = input_cmd current later s c
                     in input_loop current later segs wake (ended \<or> t) c))"

definition conn_Input :: "32 word \<Rightarrow> 32 word \<Rightarrow> segment list \<Rightarrow> conn \<Rightarrow> conn" where
  "conn_Input current later segments c =
     (if segments = [] then c
      else if k_state c = StateTerminated then c
      else
        let (wake, ended, c) =
              input_loop current later segments False False (c\<lparr>k_lastIncoming := current\<rparr>);
            c = (if wake then wakeFlush c else c)
        in if ended then terminate later c else c)"

end
