(* ===== verification/KcpFlush.thy ===== *)
theory KcpFlush
  imports KcpConn
begin

text \<open>
  What an mKCP connection sends (\<open>transport/mkcp/conn.go\<close>, from \<open>flush\<close> on): the acknowledgements that
  are due, the segments of the window that were not sent or whose time is over, a ping, and the state
  changes that depend on time. \<open>writeSegments\<close> tries every segment up to five times.
\<close>

section \<open>Acknowledgements\<close>

text \<open>The close option while this side is ready to close.\<close>

definition close_option :: "conn \<Rightarrow> segmentOption" where
  "close_option c = (if k_state c = StateReadyToClose then segmentOptionClose else 0)"

definition newAckSegment :: "conn \<Rightarrow> ackSegment" where
  "newAckSegment c = \<lparr>a_conv = k_conv c, a_option = close_option c,
     a_receivingWindow = k_recvNext c + recv_flight (k_cfg c),
     a_receivingNext = k_recvNext c, a_timestamp = 0, a_numberList = []\<rparr>"

definition pingSegment :: "command \<Rightarrow> 32 word \<Rightarrow> conn \<Rightarrow> segment \<times> conn" where
  "pingSegment cmd current c =
     (CmdSeg \<lparr>c_conv = k_conv c, c_cmd = cmd, c_option = close_option c,
        c_sendingNext = k_firstUnacked c, c_receivingNext = k_recvNext c, c_peerRTO = k_rto c\<rparr>,
      c\<lparr>k_lastPing := current\<rparr>)"

text \<open>The loop over \<open>ackList\<close>: the items as it leaves them, the acknowledgement under construction, the
  finished ones, the candidates, and \<open>ackDirty\<close>. It changes nothing else of the connection.\<close>

fun ack_items ::
  "conn \<Rightarrow> 32 word \<Rightarrow> ackItem list \<Rightarrow> ackSegment \<Rightarrow> segment list \<Rightarrow> 32 word list \<Rightarrow> bool \<Rightarrow>
     ackItem list \<times> ackSegment \<times> segment list \<times> 32 word list \<times> bool" where
  "ack_items c current [] ack segments candidates dirty = ([], ack, segments, candidates, dirty)"
| "ack_items c current (item # items) ack segments candidates dirty =
     (if i_nextFlush item > current then
        let (items, r) = ack_items c current items ack segments
              (if length candidates < 128 then candidates @ [i_number item] else candidates) dirty
        in (item # items, r)
      else
        let ack = ack\<lparr>a_numberList := a_numberList ack @ [i_number item]\<rparr>;
            ack = (if i_timestamp item - a_timestamp ack < 0x7fffffff
                   then ack\<lparr>a_timestamp := i_timestamp item\<rparr> else ack);
            timeout = (if k_rto c div 2 < 20 then 20 else k_rto c div 2);
            item = item\<lparr>i_nextFlush := current + timeout\<rparr>;
            (items, r) =
              (if length (a_numberList ack) = 128
               then ack_items c current items (newAckSegment c) (segments @ [AckSeg ack]) candidates False
               else ack_items c current items ack segments candidates dirty)
        in (item # items, r))"

text \<open>The loop over the candidates stops at 128 numbers.\<close>

definition add_candidates :: "32 word list \<Rightarrow> ackSegment \<Rightarrow> ackSegment" where
  "add_candidates candidates ack =
     ack\<lparr>a_numberList := a_numberList ack @ take (128 - length (a_numberList ack)) candidates\<rparr>"

definition flushAcks :: "32 word \<Rightarrow> conn \<Rightarrow> segment list \<times> conn" where
  "flushAcks current c =
     (if k_ackList c = [] then ([], c)
      else
        let (items, ack, segments, candidates, dirty) =
              ack_items c current (k_ackList c) (newAckSegment c) [] [] (k_ackDirty c);
            c = c\<lparr>k_ackList := items, k_ackDirty := dirty\<rparr>
        in if dirty \<or> a_numberList ack \<noteq> []
           then (segments @ [AckSeg (add_candidates candidates ack)], c\<lparr>k_ackDirty := False\<rparr>)
           else (segments, c))"

section \<open>Data\<close>

definition onPacketLoss :: "32 word \<Rightarrow> conn \<Rightarrow> conn" where
  "onPacketLoss lossRate c =
     (if k_rto c = 0 then c
      else
        let cw = k_controlWindow c;
            cw = (if lossRate \<ge> 15 then 3 * cw div 4
                  else if lossRate \<le> 5 then cw + cw div 4 else cw);
            cw = (if cw < 16 then 16 else cw);
            limit = 2 * send_flight (k_cfg c)
        in c\<lparr>k_controlWindow := (if cw > limit then limit else cw)\<rparr>)"

text \<open>The number of segments one flush may send.\<close>

definition congestion_window :: "conn \<Rightarrow> 32 word" where
  "congestion_window c =
     (let cwnd = send_flight (k_cfg c);
          remoteWindow = k_remoteRecvWin c - k_firstUnacked c;
          cwnd = (if cwnd > remoteWindow then remoteWindow else cwnd);
          cwnd = (if k_Congestion (k_cfg c) \<and> cwnd > k_controlWindow c
                  then k_controlWindow c else cwnd)
      in cwnd * 20)"

text \<open>A segment as it is sent.\<close>

definition stamp :: "conn \<Rightarrow> 32 word \<Rightarrow> dataSegment \<Rightarrow> dataSegment" where
  "stamp c current seg = seg\<lparr>d_conv := k_conv c, d_timestamp := current,
     d_sendingNext := k_firstUnacked c, d_option := close_option c,
     d_transmit := d_transmit seg + 1,
     d_timeout := current +
       (if k_rto c < cfg_tti (k_cfg c) then cfg_tti (k_cfg c) else k_rto c)\<rparr>"

text \<open>The loop over the window: the window as it leaves it, what it sends, and the counters \<open>lost\<close>,
  \<open>inFlight\<close> and \<open>totalInFlightSize\<close>.\<close>

fun send_loop ::
  "conn \<Rightarrow> 32 word \<Rightarrow> 32 word \<Rightarrow> dataSegment list \<Rightarrow> 32 word \<Rightarrow> 32 word \<Rightarrow> 32 word \<Rightarrow>
     dataSegment list \<times> dataSegment list \<times> 32 word \<times> 32 word \<times> 32 word" where
  "send_loop c current cwnd [] lost inFlight tot = ([], [], lost, inFlight, tot)"
| "send_loop c current cwnd (seg # segs) lost inFlight tot =
     (if current - d_timeout seg \<ge> 0x7fffffff then
        let (segs, r) = send_loop c current cwnd segs lost inFlight tot in (seg # segs, r)
      else
        let tot = (if d_transmit seg = 0 then tot + 1 else tot);
            lost = (if d_transmit seg = 0 then lost else lost + 1);
            sent = stamp c current seg;
            inFlight = inFlight + 1
        in if inFlight \<ge> cwnd then (sent # segs, [sent], lost, inFlight, tot)
           else let (segs, out, r) = send_loop c current cwnd segs lost inFlight tot
                in (sent # segs, sent # out, r))"

definition flushSend :: "32 word \<Rightarrow> conn \<Rightarrow> segment list \<times> conn" where
  "flushSend current c =
     (if k_sendWindow c = [] then
        if k_firstUnackedWasUpdated c then
          let (ping, c) = pingSegment commandPing current (c\<lparr>k_firstUnackedWasUpdated := False\<rparr>)
          in ([ping], c)
        else ([], c)
      else
        let (window, out, lost, inFlight, tot) =
              send_loop c current (congestion_window c) (k_sendWindow c) 0 0 (k_totalInFlightSize c);
            c = c\<lparr>k_sendWindow := window, k_totalInFlightSize := tot\<rparr>;
            c = (if k_Congestion (k_cfg c) \<and> inFlight > 0 \<and> tot \<noteq> 0
                 then onPacketLoss (lost * 100 div tot) c else c)
        in (map DataSeg out, c\<lparr>k_firstUnackedWasUpdated := False\<rparr>))"

section \<open>Flush\<close>

text \<open>The part under the mutex: the segments to write, whether to terminate after that.\<close>

definition flush_locked :: "32 word \<Rightarrow> 32 word \<Rightarrow> conn \<Rightarrow> segment list \<times> bool \<times> conn" where
  "flush_locked current later c =
     (if k_state c = StateTerminated then ([], False, c)
      else
        let c = (if k_state c = StateActive \<and> current - k_lastIncoming c \<ge> 30000
                 then setState StateReadyToClose later c else c);
            c = (if k_state c = StateReadyToClose \<and> k_sendWindow c = []
                 then setState StateTerminating later c else c)
        in if k_state c = StateTerminating then
             let (ping, c) = pingSegment commandTerminate current c
             in if current - k_stateBegin c > 8000
                then ([ping], True, setState StateTerminated later c)
                else ([ping], False, c)
           else
             let c = (if k_state c = StatePeerTerminating \<and> current - k_stateBegin c > 4000
                      then setState StateTerminating later c else c);
                 c = (if k_state c = StateReadyToClose \<and> current - k_stateBegin c > 15000
                      then setState StateTerminating later c else c);
                 (acks, c) = flushAcks current c;
                 (data, c) = flushSend current c;
                 (pings, c) =
                   (if current - k_lastPing c \<ge> 3000
                    then let (ping, c) = pingSegment commandPing current c in ([ping], c)
                    else ([], c))
             in (acks @ data @ pings, k_state c = StateTerminated, c))"

text \<open>The attempts to write one segment: \<open>io i\<close> is the nonce of the \<open>i\<close>-th write of this flush and
  whether it succeeds. Every attempt serializes the segment again.\<close>

fun write_attempts ::
  "nat \<Rightarrow> (nat \<Rightarrow> byte list \<times> bool) \<Rightarrow> nat \<Rightarrow> segment \<Rightarrow> packetWriter \<Rightarrow>
     (byte list list \<times> nat \<times> packetWriter) outcome" where
  "write_attempts 0 io i seg w = Ret ([], i, w)"
| "write_attempts (Suc k) io i seg w =
     obind (writeSegment w (fst (io i)) seg) (\<lambda>(p, w).
       if snd (io i) then Ret ([p], i + 1, w) else write_attempts k io (i + 1) seg w)"

fun writeSegments ::
  "(nat \<Rightarrow> byte list \<times> bool) \<Rightarrow> nat \<Rightarrow> segment list \<Rightarrow> packetWriter \<Rightarrow>
     (byte list list \<times> packetWriter) outcome" where
  "writeSegments io i [] w = Ret ([], w)"
| "writeSegments io i (seg # segs) w =
     obind (write_attempts 5 io i seg w) (\<lambda>(ps, i, w).
       obind (writeSegments io i segs w) (\<lambda>(qs, w). Ret (ps @ qs, w)))"

definition conn_flush ::
  "32 word \<Rightarrow> 32 word \<Rightarrow> (nat \<Rightarrow> byte list \<times> bool) \<Rightarrow> conn \<Rightarrow> (byte list list \<times> conn) outcome" where
  "conn_flush current later io c =
     (let (segments, ended, c) = flush_locked current later c in
      obind (writeSegments io 0 segments (k_writer c)) (\<lambda>(packets, w).
        let c = c\<lparr>k_writer := w\<rparr> in
        Ret (packets, if ended then terminate later c else c)))"

end
