(* ===== verification/KcpState.thy ===== *)
theory KcpState
  imports KcpFlush
begin

text \<open>
  The life of one mKCP connection, whatever the application, the peer and the clock do: what one call may
  do to its state and to the waiting readers and writers.
\<close>

section \<open>Steps of a connection\<close>

text \<open>Every call that changes a connection, with any segments from the network and any time.\<close>

inductive conn_step :: "conn \<Rightarrow> conn \<Rightarrow> bool" where
  step_Read: "conn_step c (snd (conn_Read n c))"
| step_Write: "conn_step c (snd (write_payload p c))"
| step_Close: "conn_step c (snd (conn_Close later c))"
| step_SetReadDeadline: "conn_step c (snd (SetReadDeadline t c))"
| step_SetWriteDeadline: "conn_step c (snd (SetWriteDeadline t c))"
| step_Input: "conn_step c (conn_Input current later segments c)"
| step_flush: "conn_flush current later io c = Ret (packets, c') \<Longrightarrow> conn_step c c'"
| step_terminate: "conn_step c (terminate later c)"

inductive_cases conn_step_cases: "conn_step c c'"

text \<open>The order of the states; two of them exclude each other.\<close>

fun phase :: "connState \<Rightarrow> nat" where
  "phase StateActive = 0"
| "phase StateReadyToClose = 1"
| "phase StatePeerClosed = 1"
| "phase StatePeerTerminating = 2"
| "phase StateTerminating = 3"
| "phase StateTerminated = 4"

text \<open>When a call of \<open>Read\<close> and of \<open>Write\<close> would not wait.\<close>

definition can_read :: "conn \<Rightarrow> bool" where
  "can_read c \<longleftrightarrow> k_readBuf c \<noteq> [] \<or> k_state c \<in> {StateReadyToClose, StateTerminating, StateTerminated}"

definition can_write :: "conn \<Rightarrow> bool" where
  "can_write c \<longleftrightarrow> k_state c \<noteq> StateActive \<or>
     word_of_nat (length (k_sendWindow c)) \<le> sendingBufferSize (k_cfg c)"

text \<open>What every step respects: a preorder, so it is proved for the parts of the methods.\<close>

definition evolves :: "conn \<Rightarrow> conn \<Rightarrow> bool" where
  "evolves c c' \<longleftrightarrow> k_cfg c' = k_cfg c \<and> k_conv c' = k_conv c \<and> k_mss c' = k_mss c \<and>
     wire_alike (k_writer c) (k_writer c') \<and>
     (k_state c' = k_state c \<or> phase (k_state c) < phase (k_state c')) \<and>
     k_readNotify c \<le> k_readNotify c' \<and> k_writeNotify c \<le> k_writeNotify c' \<and>
     (k_readNotify c' = k_readNotify c \<longrightarrow> can_read c' \<longrightarrow> can_read c) \<and>
     (k_writeNotify c' = k_writeNotify c \<longrightarrow> can_write c' \<longrightarrow> can_write c)"

lemma evolves_refl [simp, intro]: "evolves c c"
  by (simp add: evolves_def)

lemma evolves_trans: "evolves c d \<Longrightarrow> evolves d e \<Longrightarrow> evolves c e"
  by (auto simp: evolves_def intro: wire_alike_trans)

text \<open>Changes that neither wake anybody nor have to.\<close>

definition quiet :: "conn \<Rightarrow> conn \<Rightarrow> bool" where
  "quiet c c' \<longleftrightarrow> k_cfg c' = k_cfg c \<and> k_conv c' = k_conv c \<and> k_mss c' = k_mss c \<and>
     k_writer c' = k_writer c \<and>
     k_state c' = k_state c \<and> k_readNotify c' = k_readNotify c \<and> k_writeNotify c' = k_writeNotify c \<and>
     (k_readBuf c' \<noteq> [] \<longrightarrow> k_readBuf c \<noteq> []) \<and>
     length (k_sendWindow c') = length (k_sendWindow c)"

lemma quiet_evolves: "quiet c c' \<Longrightarrow> evolves c c'"
  by (auto simp: quiet_def evolves_def can_read_def can_write_def)

text \<open>Changes of one kind that wake the ones they concern.\<close>

lemma evolves_signals [simp]:
  "evolves c (signalRead c)" "evolves c (signalWrite c)" "evolves c (wakeFlush c)"
  by (auto simp: signalRead_def signalWrite_def wakeFlush_def evolves_def can_read_def can_write_def)

lemma evolves_setState:
  "phase (k_state c) < phase s \<Longrightarrow> evolves c (setState s later c)"
  by (cases s; cases "k_state c")
    (auto simp: setState_def signalRead_def signalWrite_def evolves_def can_read_def can_write_def Let_def)

lemma setState_state [simp]: "k_state (setState s later c) = s"
  by (cases s) (auto simp: setState_def signalRead_def signalWrite_def Let_def)

lemma setState_same: "k_state c = s \<Longrightarrow> setState s later c = c"
  by (simp add: setState_def)

lemma evolves_setState_end: "evolves c (setState StateTerminated later c)"
  using evolves_setState[of c StateTerminated later] setState_same[of c StateTerminated later]
  by (cases "k_state c") simp_all

lemma evolves_terminate: "evolves c (terminate later c)"
proof -
  let ?d = "signalWrite (signalRead (setState StateTerminated later c))"
  have "evolves c ?d"
    by (rule evolves_trans[OF evolves_trans[OF evolves_setState_end]]) (rule evolves_signals)+
  moreover have "quiet ?d (?d\<lparr>k_done := True\<rparr>)" by (simp add: quiet_def)
  ultimately have "evolves c (?d\<lparr>k_done := True\<rparr>)" using quiet_evolves evolves_trans by blast
  then show ?thesis by (simp add: terminate_def)
qed

lemma evolves_handleOption: "evolves c (handleOption opt later c)"
  using evolves_setState[of c StateTerminating later] evolves_setState[of c StatePeerClosed later]
  by (auto simp: handleOption_def split: connState.split)

lemma deliver_loop_spec:
  "deliver_loop d c = (d', c') \<Longrightarrow>
     k_cfg c' = k_cfg c \<and> k_conv c' = k_conv c \<and> k_mss c' = k_mss c \<and> k_state c' = k_state c \<and>
     k_writer c' = k_writer c \<and> k_readNotify c' = k_readNotify c \<and> k_writeNotify c' = k_writeNotify c \<and>
     k_sendWindow c' = k_sendWindow c \<and> (d \<longrightarrow> d') \<and> (\<not> d' \<longrightarrow> c' = c)"
proof (induction d c arbitrary: d' c' rule: deliver_loop.induct)
  case (1 d c)
  show ?case
  proof (cases "k_recvCache c (k_recvNext c)")
    case None
    with "1.prems" show ?thesis by (simp add: deliver_loop.simps[of d c])
  next
    case (Some seg)
    with "1.prems" "1.IH"[OF Some] show ?thesis by (simp add: deliver_loop.simps[of d c])
  qed
qed

lemma evolves_deliver: "evolves c (deliver c)"
proof -
  obtain d c' where d: "deliver_loop False c = (d, c')" by (cases "deliver_loop False c")
  from deliver_loop_spec[OF this] show ?thesis
    by (auto simp: deliver_def d signalRead_def evolves_def can_write_def)
qed

lemma quiet_processSendingNext: "quiet c (processSendingNext next c)"
  by (simp add: processSendingNext_def Let_def quiet_def)

lemma quiet_findFirstUnacked: "quiet c (findFirstUnacked c)"
  by (simp add: findFirstUnacked_def Let_def quiet_def)

lemma evolves_processReceivingNext: "evolves c (processReceivingNext next c)"
proof (cases "\<exists>seg \<in> set (k_sendWindow c). d_number seg < next")
  case True
  then show ?thesis
    by (simp add: processReceivingNext_def findFirstUnacked_def Let_def signalWrite_def evolves_def
        can_read_def)
next
  case False
  then have "filter (\<lambda>seg. \<not> d_number seg < next) (k_sendWindow c) = k_sendWindow c"
    by (simp add: filter_id_conv)
  with False show ?thesis
    using quiet_evolves[OF quiet_findFirstUnacked[of c]] by (simp add: processReceivingNext_def Let_def)
qed

lemma evolves_processAck: "evolves c (snd (processAck number c))"
  by (auto simp: processAck_def findFirstUnacked_def Let_def signalWrite_def evolves_def can_read_def
      split: option.split)

lemma length_fast_ack_loop [simp]: "length (fast_ack_loop n r segs) = length segs"
  by (induction segs) auto

lemma quiet_handleFastAck: "quiet c (handleFastAck n c)"
  by (simp add: handleFastAck_def Let_def quiet_def)

lemma quiet_updateRTT: "quiet c (updateRTT rtt t c)"
  by (simp add: updateRTT_def Let_def quiet_def)

lemma quiet_updatePeerRTO: "quiet c (updatePeerRTO r t c)"
  by (simp add: updatePeerRTO_def quiet_def)

lemmas quiet_parts = quiet_processSendingNext quiet_findFirstUnacked quiet_handleFastAck
  quiet_updateRTT quiet_updatePeerRTO

lemmas evolves_parts = evolves_handleOption evolves_deliver evolves_processReceivingNext
  evolves_processAck evolves_signals evolves_terminate quiet_parts[THEN quiet_evolves]

text \<open>One more part after what was done so far.\<close>

lemmas evolves_after = evolves_parts[THEN evolves_trans[rotated]]

lemma quiet_after: "evolves b c \<Longrightarrow> quiet c d \<Longrightarrow> evolves b d"
  using quiet_evolves evolves_trans by blast

lemma evolves_input_data: "evolves c (input_data later s c)"
proof -
  define d where "d = processSendingNext (d_sendingNext s) (handleOption (d_option s) later c)"
  define e where "e = (if d_number s - k_recvNext d < recv_flight (k_cfg d) then
      d\<lparr>k_ackList := k_ackList d @ [\<lparr>i_number = d_number s, i_timestamp = d_timestamp s,
            i_nextFlush = 0\<rparr>], k_ackDirty := True,
        k_recvCache := (if k_recvCache d (d_number s) = None
                        then (k_recvCache d)(d_number s := Some s) else k_recvCache d)\<rparr> else d)"
  have "evolves c d" unfolding d_def by (intro evolves_after evolves_refl)
  then have "evolves c e" by (rule quiet_after) (simp add: e_def quiet_def)
  then have "evolves c (deliver e)" by (rule evolves_after)
  then show ?thesis unfolding input_data_def Let_def e_def d_def .
qed

lemma evolves_ack_loop:
  "ack_loop ns m r c = (m', r', c') \<Longrightarrow> evolves c c'"
proof (induction ns m r c rule: ack_loop.induct)
  case (2 n ns m r c)
  obtain r0 d where p: "processAck n c = (r0, d)" by (cases "processAck n c")
  with evolves_processAck[of c n] have "evolves c d" by simp
  moreover have "evolves d c'" using 2 p by (auto split: if_splits)
  ultimately show ?case by (rule evolves_trans)
qed simp

lemma evolves_input_ack: "evolves c (snd (input_ack current later s c))"
proof -
  define d where "d = handleOption (a_option s) later c"
  define e where "e = (if a_receivingWindow s > k_remoteRecvWin d
      then d\<lparr>k_remoteRecvWin := a_receivingWindow s\<rparr> else d)"
  define f where "f = processReceivingNext (a_receivingNext s) e"
  obtain m r g where l: "ack_loop (a_numberList s) 0 False f = (m, r, g)"
    by (cases "ack_loop (a_numberList s) 0 False f")
  have "evolves c d" unfolding d_def by (intro evolves_after evolves_refl)
  then have "evolves c e" by (rule quiet_after) (simp add: e_def quiet_def)
  then have f: "evolves c f" unfolding f_def by (rule evolves_after)
  moreover from f have g: "evolves c g" by (rule evolves_trans) (rule evolves_ack_loop[OF l])
  moreover from g have "evolves c (handleFastAck m g)" "evolves c (updateRTT x y (handleFastAck m g))"
    for x y by (auto intro!: evolves_after)
  ultimately show ?thesis
    by (simp add: input_ack_def d_def[symmetric] e_def[symmetric] f_def[symmetric] l Let_def)
qed

lemma evolves_input_cmd: "evolves c (snd (input_cmd current later s c))"
proof -
  define d where "d = handleOption (c_option s) later c"
  define e where "e = (if c_cmd s = commandTerminate then
               (case k_state d of
                  StateActive \<Rightarrow> (False, setState StatePeerTerminating later d)
                | StatePeerClosed \<Rightarrow> (False, setState StatePeerTerminating later d)
                | StateReadyToClose \<Rightarrow> (False, setState StateTerminating later d)
                | StateTerminating \<Rightarrow> (True, setState StateTerminated later d)
                | _ \<Rightarrow> (False, d))
             else (False, d))"
  obtain t f where e: "e = (t, f)" by (cases e)
  have "evolves d (snd e)"
    using evolves_setState[of d] by (auto simp: e_def split: connState.split)
  moreover have "evolves c d" unfolding d_def by (intro evolves_after evolves_refl)
  ultimately have "evolves c f" using evolves_trans e by auto
  then show ?thesis
    by (auto simp: input_cmd_def d_def[symmetric] e_def[symmetric] e Let_def intro!: evolves_after)
qed

lemma evolves_input_loop:
  "input_loop current later segs w t c = (w', t', c') \<Longrightarrow> evolves c c'"
proof (induction current later segs w t c rule: input_loop.induct)
  case (2 current later seg segs w t c)
  show ?case
  proof (cases "conversation seg = k_conv c")
    case True
    have a: "evolves c (input_data later x c)" "evolves c (snd (input_ack current later y c))"
      "evolves c (snd (input_cmd current later z c))" for x y z
      by (simp_all add: evolves_input_data evolves_input_ack evolves_input_cmd)
    show ?thesis
    proof (cases seg)
      case (DataSeg x)
      with 2 True a(1)[of x] show ?thesis by (auto intro: evolves_trans)
    next
      case (AckSeg y)
      with 2 True a(2)[of y] show ?thesis by (auto intro: evolves_trans split: prod.splits)
    next
      case (CmdSeg z)
      with 2 True a(3)[of z] show ?thesis by (auto intro: evolves_trans split: prod.splits)
    qed
  qed (use 2 in simp)
qed simp

lemma evolves_Input: "evolves c (conn_Input current later segments c)"
proof -
  let ?c = "c\<lparr>k_lastIncoming := current\<rparr>"
  obtain w t d where l: "input_loop current later segments False False ?c = (w, t, d)"
    by (cases "input_loop current later segments False False ?c")
  have "quiet c ?c" by (simp add: quiet_def)
  then have "evolves c d" using evolves_input_loop[OF l] quiet_evolves evolves_trans by blast
  then show ?thesis by (auto simp: conn_Input_def l Let_def intro!: evolves_after)
qed

end
