(* ===== verification/KcpLife.thy ===== *)
theory KcpLife
  imports KcpState
begin

text \<open>
  The states of an mKCP connection in time: what a flush may change, the order of the states over any
  sequence of calls, and the wake-ups.
\<close>

section \<open>Flush\<close>

lemma pingSegment_keeps:
  "snd (pingSegment cmd t c) = c\<lparr>k_lastPing := t\<rparr>"
  by (simp add: pingSegment_def)

lemma length_send_loop:
  "send_loop c t w segs l i n = (segs', r) \<Longrightarrow> length segs' = length segs"
proof (induction segs arbitrary: l i n segs' r)
  case (Cons seg segs)
  obtain a1 r1 where a: "send_loop c t w segs l i n = (a1, r1)"
    by (cases "send_loop c t w segs l i n")
  obtain a2 out r2 where b: "send_loop c t w segs (if d_transmit seg = 0 then l else l + 1) (i + 1)
      (if d_transmit seg = 0 then n + 1 else n) = (a2, out, r2)"
    by (cases "send_loop c t w segs (if d_transmit seg = 0 then l else l + 1) (i + 1)
      (if d_transmit seg = 0 then n + 1 else n)")
  from Cons.prems Cons.IH[OF a] Cons.IH[OF b] show ?case
    by (auto simp: a b Let_def split: if_splits)
qed simp

lemma quiet_onPacketLoss: "quiet c (onPacketLoss r c)"
  by (simp add: onPacketLoss_def Let_def quiet_def)

lemma quiet_flushAcks: "quiet c (snd (flushAcks t c))"
  by (auto simp: flushAcks_def Let_def quiet_def split: prod.split)

lemma quiet_trans: "quiet c d \<Longrightarrow> quiet d e \<Longrightarrow> quiet c e"
  by (auto simp: quiet_def)

lemma quiet_flushSend: "quiet c (snd (flushSend t c))"
proof (cases "k_sendWindow c = []")
  case True
  then show ?thesis by (simp add: flushSend_def pingSegment_def quiet_def)
next
  case False
  obtain w out l i n where s:
    "send_loop c t (congestion_window c) (k_sendWindow c) 0 0 (k_totalInFlightSize c) = (w, out, l, i, n)"
    by (cases "send_loop c t (congestion_window c) (k_sendWindow c) 0 0 (k_totalInFlightSize c)") auto
  let ?d = "c\<lparr>k_sendWindow := w, k_totalInFlightSize := n\<rparr>"
  have d: "quiet c ?d" using length_send_loop[OF s] by (simp add: quiet_def)
  have q: "quiet e (e\<lparr>k_firstUnackedWasUpdated := False\<rparr>)" for e by (simp add: quiet_def)
  show ?thesis
  proof (cases "k_Congestion (k_cfg ?d) \<and> i > 0 \<and> n \<noteq> 0")
    case True
    then show ?thesis
      using quiet_trans[OF quiet_trans[OF d quiet_onPacketLoss] q, of "l * 100 div n"] False
      by (simp add: flushSend_def s Let_def)
  next
    case no: False
    then show ?thesis using quiet_trans[OF d q] False by (auto simp add: flushSend_def s Let_def)
  qed
qed

text \<open>The last part of a flush, after the state changes.\<close>

definition flush_segments :: "32 word \<Rightarrow> conn \<Rightarrow> segment list \<times> conn" where
  "flush_segments t c =
     (let (acks, c) = flushAcks t c; (data, c) = flushSend t c;
          (pings, c) = (if t - k_lastPing c \<ge> 3000
                        then let (ping, c) = pingSegment commandPing t c in ([ping], c) else ([], c))
      in (acks @ data @ pings, c))"

lemma quiet_flush_segments: "quiet c (snd (flush_segments t c))"
proof -
  obtain a d where a: "flushAcks t c = (a, d)" by (cases "flushAcks t c")
  obtain b e where b: "flushSend t d = (b, e)" by (cases "flushSend t d")
  have "quiet c e" using quiet_flushAcks[of c t] quiet_flushSend[of d t] a b quiet_trans by simp
  moreover have "quiet e (e\<lparr>k_lastPing := t\<rparr>)" by (simp add: quiet_def)
  ultimately show ?thesis
    by (auto simp: flush_segments_def a b Let_def pingSegment_def intro: quiet_trans)
qed

text \<open>The state changes of a flush.\<close>

definition flush_idle :: "32 word \<Rightarrow> 32 word \<Rightarrow> conn \<Rightarrow> conn" where
  "flush_idle t later c =
     (let c = (if k_state c = StateActive \<and> t - k_lastIncoming c \<ge> 30000
               then setState StateReadyToClose later c else c)
      in if k_state c = StateReadyToClose \<and> k_sendWindow c = []
         then setState StateTerminating later c else c)"

definition flush_late :: "32 word \<Rightarrow> 32 word \<Rightarrow> conn \<Rightarrow> conn" where
  "flush_late t later c =
     (let c = (if k_state c = StatePeerTerminating \<and> t - k_stateBegin c > 4000
               then setState StateTerminating later c else c)
      in if k_state c = StateReadyToClose \<and> t - k_stateBegin c > 15000
         then setState StateTerminating later c else c)"

lemma flush_locked_alt:
  "flush_locked t later c =
     (if k_state c = StateTerminated then ([], False, c)
      else
        let c = flush_idle t later c in
        if k_state c = StateTerminating then
          let (ping, c) = pingSegment commandTerminate t c
          in if t - k_stateBegin c > 8000
             then ([ping], True, setState StateTerminated later c) else ([ping], False, c)
        else
          let c = flush_late t later c; (segs, c) = flush_segments t c
          in (segs, k_state c = StateTerminated, c))"
  by (simp add: flush_locked_def flush_idle_def flush_late_def flush_segments_def Let_def
      split: prod.split)

lemma evolves_flush_idle: "evolves c (flush_idle t later c)"
proof -
  have "evolves c (if k_state c = StateActive \<and> t - k_lastIncoming c \<ge> 30000
               then setState StateReadyToClose later c else c)" (is "evolves c ?d")
    by (auto intro: evolves_setState)
  moreover have "evolves ?d (if k_state ?d = StateReadyToClose \<and> k_sendWindow ?d = []
         then setState StateTerminating later ?d else ?d)"
    using evolves_setState[of ?d StateTerminating later] by simp
  ultimately show ?thesis unfolding flush_idle_def Let_def by (rule evolves_trans)
qed

lemma evolves_flush_late: "evolves c (flush_late t later c)"
proof -
  have "evolves c (if k_state c = StatePeerTerminating \<and> t - k_stateBegin c > 4000
               then setState StateTerminating later c else c)" (is "evolves c ?d")
    by (auto intro: evolves_setState)
  moreover have "evolves ?d (if k_state ?d = StateReadyToClose \<and> t - k_stateBegin ?d > 15000
         then setState StateTerminating later ?d else ?d)"
    using evolves_setState[of ?d StateTerminating later] by simp
  ultimately show ?thesis unfolding flush_late_def Let_def by (rule evolves_trans)
qed

lemma evolves_flush_locked: "evolves c (snd (snd (flush_locked t later c)))"
proof -
  let ?c = "flush_idle t later c"
  have q: "quiet ?c (?c\<lparr>k_lastPing := t\<rparr>)" by (simp add: quiet_def)
  have p: "evolves c (?c\<lparr>k_lastPing := t\<rparr>)"
    using quiet_after[OF evolves_flush_idle q] .
  have s: "evolves c (snd (flush_segments t (flush_late t later ?c)))"
    using quiet_after[OF evolves_trans[OF evolves_flush_idle evolves_flush_late] quiet_flush_segments] .
  show ?thesis
    using p s evolves_trans[OF p evolves_setState_end]
    by (simp add: flush_locked_alt pingSegment_def Let_def split_beta)
qed

text \<open>Writing: the packets are packets of the segments, and with nonces of the right size there is no
  panic.\<close>

definition packet_of ::
  "(nat \<Rightarrow> byte list \<times> bool) \<Rightarrow> packetWriter \<Rightarrow> segment \<Rightarrow> byte list \<Rightarrow> bool" where
  "packet_of io w s p \<longleftrightarrow> (\<exists>v i v'. wire_alike w v \<and> writeSegment v (fst (io i)) s = Ret (p, v'))"

lemma packet_of_alike: "wire_alike w v \<Longrightarrow> packet_of io v s p \<Longrightarrow> packet_of io w s p"
  unfolding packet_of_def using wire_alike_trans by blast

lemma write_attempts_spec:
  "write_attempts k io i s w = Ret (ps, j, w') \<Longrightarrow>
     wire_alike w w' \<and> (\<forall>p \<in> set ps. packet_of io w s p)"
proof (induction k arbitrary: i w)
  case (Suc k)
  then obtain p v where p: "writeSegment w (fst (io i)) s = Ret (p, v)"
    by (auto simp: outcome_simps)
  then have "wire_alike w v" "packet_of io w s p"
    using writeSegment_alike packet_of_def wire_alike_refl by blast+
  with Suc p show ?case
    using Suc.IH[of "i + 1" v] by (auto split: if_splits intro: wire_alike_trans packet_of_alike)
qed simp

lemma writeSegments_spec:
  "writeSegments io i segs w = Ret (ps, w') \<Longrightarrow>
     wire_alike w w' \<and> (\<forall>p \<in> set ps. \<exists>s \<in> set segs. packet_of io w s p)"
proof (induction segs arbitrary: i w ps)
  case (Cons s segs)
  then obtain qs j v rs where 1: "write_attempts 5 io i s w = Ret (qs, j, v)"
    and 2: "writeSegments io j segs v = Ret (rs, w')" and "ps = qs @ rs"
    by (auto simp: outcome_simps)
  moreover from write_attempts_spec[OF 1] Cons.IH[OF 2]
  have "wire_alike w v" "wire_alike v w'" "\<forall>p \<in> set qs. packet_of io w s p"
    "\<forall>p \<in> set rs. \<exists>s \<in> set segs. packet_of io v s p" by auto
  ultimately show ?case using wire_alike_trans packet_of_alike[of w v io] by fastforce
qed simp

lemma write_attempts_ends:
  "secure w \<Longrightarrow> \<forall>i. nonce_for w (fst (io i)) \<Longrightarrow> \<exists>r. write_attempts k io i s w = Ret r"
proof (induction k arbitrary: i w)
  case (Suc k)
  obtain p v where p: "writeSegment w (fst (io i)) s = Ret (p, v)"
    using writeSegment_parts[of w "fst (io i)" s] Suc.prems by auto
  with writeSegment_alike[OF p] Suc.prems have "secure v" "\<forall>i. nonce_for v (fst (io i))"
    by (simp_all add: wire_alike_secure wire_alike_nonce)
  with p Suc.IH show ?case by auto
qed simp

lemma writeSegments_ends:
  "secure w \<Longrightarrow> \<forall>i. nonce_for w (fst (io i)) \<Longrightarrow> \<exists>r. writeSegments io i segs w = Ret r"
proof (induction segs arbitrary: i w)
  case (Cons s segs)
  obtain qs j v where 1: "write_attempts 5 io i s w = Ret (qs, j, v)"
    using write_attempts_ends[OF Cons.prems, of 5 i s] by auto
  then have "wire_alike w v" using write_attempts_spec[OF 1] by simp
  with Cons.prems have "secure v" "\<forall>i. nonce_for v (fst (io i))"
    by (auto simp: wire_alike_secure wire_alike_nonce)
  from Cons.IH[OF this, of j] 1 show ?case by (auto simp del: write_attempts.simps)
qed simp

text \<open>A flush in its two parts.\<close>

lemma flush_parts:
  assumes "conn_flush t later io c = Ret (packets, c')"
  obtains segs ended d w where "flush_locked t later c = (segs, ended, d)"
    and "c' = (if ended then terminate later (d\<lparr>k_writer := w\<rparr>) else d\<lparr>k_writer := w\<rparr>)"
    and "wire_alike (k_writer d) w" and "\<forall>p \<in> set packets. \<exists>s \<in> set segs. packet_of io (k_writer d) s p"
proof -
  obtain segs ended d where l: "flush_locked t later c = (segs, ended, d)"
    by (cases "flush_locked t later c") auto
  with assms obtain w where w: "writeSegments io 0 segs (k_writer d) = Ret (packets, w)"
    and c': "c' = (if ended then terminate later (d\<lparr>k_writer := w\<rparr>) else d\<lparr>k_writer := w\<rparr>)"
    by (auto simp: conn_flush_def Let_def outcome_simps)
  with writeSegments_spec[OF w] that[OF l c'] show thesis by blast
qed

lemma evolves_flush:
  assumes "conn_flush t later io c = Ret (packets, c')"
  shows "evolves c c'"
  using assms
proof (rule flush_parts)
  fix segs ended d w
  assume l: "flush_locked t later c = (segs, ended, d)"
    and c': "c' = (if ended then terminate later (d\<lparr>k_writer := w\<rparr>) else d\<lparr>k_writer := w\<rparr>)"
    and w: "wire_alike (k_writer d) w"
  have "evolves c d" using evolves_flush_locked[of c t later] l by simp
  moreover have "evolves d (d\<lparr>k_writer := w\<rparr>)"
    using w by (simp add: evolves_def can_read_def can_write_def)
  ultimately have "evolves c (d\<lparr>k_writer := w\<rparr>)" by (rule evolves_trans)
  then show ?thesis by (auto simp: c' intro: evolves_after)
qed

lemma flush_ends:
  assumes "secure (k_writer c)" "\<forall>i. nonce_for (k_writer c) (fst (io i))"
  shows "\<exists>packets c'. conn_flush t later io c = Ret (packets, c')"
proof -
  obtain segs ended d where l: "flush_locked t later c = (segs, ended, d)"
    by (cases "flush_locked t later c") auto
  have "wire_alike (k_writer c) (k_writer d)"
    using evolves_flush_locked[of c t later] l by (simp add: evolves_def)
  with assms have "secure (k_writer d)" "\<forall>i. nonce_for (k_writer d) (fst (io i))"
    by (simp_all add: wire_alike_secure wire_alike_nonce)
  from writeSegments_ends[OF this, of 0 segs] l show ?thesis by (auto simp: conn_flush_def Let_def)
qed

section \<open>All steps\<close>

lemma quiet_read: "evolves c (c\<lparr>k_readBuf := drop n (k_readBuf c)\<rparr>)" if "k_readBuf c \<noteq> []"
  using that by (auto simp: evolves_def can_read_def can_write_def)

lemma evolves_Read: "evolves c (snd (conn_Read n c))"
  by (auto simp: conn_Read_def intro!: evolves_after quiet_read)

lemma evolves_write_payload: "evolves c (snd (write_payload p c))"
  by (auto simp: write_payload_def signalWrite_def wakeFlush_def evolves_def can_read_def)

lemma evolves_Close: "evolves c (snd (conn_Close later c))"
proof -
  have "evolves c (setState s later c)" if "phase (k_state c) < phase s" for s
    by (rule evolves_setState[OF that])
  then show ?thesis by (auto simp: conn_Close_def split: connState.split intro!: evolves_after)
qed

lemma evolves_deadlines:
  "evolves c (snd (SetReadDeadline t c))" "evolves c (snd (SetWriteDeadline t c))"
  by (auto simp: SetReadDeadline_def SetWriteDeadline_def signalRead_def signalWrite_def evolves_def
      can_read_def can_write_def)

lemma step_evolves: "conn_step c c' \<Longrightarrow> evolves c c'"
  by (induction rule: conn_step.induct)
    (simp_all add: evolves_Read evolves_write_payload evolves_Close evolves_deadlines evolves_Input
      evolves_flush evolves_terminate)

lemma steps_evolve: "conn_step\<^sup>*\<^sup>* c c' \<Longrightarrow> evolves c c'"
  by (induction rule: rtranclp_induct) (auto intro: evolves_trans step_evolves)

text \<open>
  C6. The states of a connection are ordered: over any sequence of calls and whatever arrives, it stays
  in its state or moves to a later one, active before ready-to-close and peer-closed, which exclude each
  other, before peer-terminating, terminating and terminated. So its state changes at most four
  times, and a terminated connection stays terminated.
\<close>

theorem connection_states_ordered:
  "conn_step\<^sup>*\<^sup>* c c' \<Longrightarrow> k_state c' = k_state c \<or> phase (k_state c) < phase (k_state c')"
  using steps_evolve by (simp add: evolves_def)

text \<open>
  C7. No wake-up is lost: a call of \<open>Read\<close> that waits took the channel of its time; when a sequence of
  calls makes data or the end of the stream available, that channel has been closed, and likewise for a
  waiting \<open>Write\<close> and room in the window or a closed connection.
\<close>

theorem no_lost_wakeup:
  "conn_step\<^sup>*\<^sup>* c c' \<Longrightarrow>
     (\<not> can_read c \<and> can_read c' \<longrightarrow> k_readNotify c' \<noteq> k_readNotify c) \<and>
     (\<not> can_write c \<and> can_write c' \<longrightarrow> k_writeNotify c' \<noteq> k_writeNotify c)"
  using steps_evolve[of c c'] by (auto simp: evolves_def)

end
