(* ===== verification/KcpClose.thy ===== *)
theory KcpClose
  imports KcpLife
begin

text \<open>
  How an mKCP connection ends, and what \<open>Write\<close> takes.\<close>

section \<open>The end of a connection\<close>

text \<open>How long a state lasts before a flush leaves it.\<close>

fun state_limit :: "connState \<Rightarrow> 32 word" where
  "state_limit StateReadyToClose = 15000"
| "state_limit StatePeerTerminating = 4000"
| "state_limit _ = 8000"

lemma state_flush_segments: "flush_segments t c = (segs, d) \<Longrightarrow> k_state d = k_state c"
  using quiet_flush_segments[of c t] by (simp add: quiet_def)

lemma flush_state:
  assumes "conn_flush t later io c = Ret (packets, c')" "k_state c \<noteq> StateTerminated"
  shows "k_state c' =
    (let d = flush_idle t later c in
     if k_state d = StateTerminating
     then if t - k_stateBegin d > 8000 then StateTerminated else StateTerminating
     else k_state (flush_late t later d))"
proof -
  obtain segs e d where l: "flush_locked t later c = (segs, e, d)"
    by (cases "flush_locked t later c") auto
  with assms(1) obtain w where
    c': "c' = (if e then terminate later (d\<lparr>k_writer := w\<rparr>) else d\<lparr>k_writer := w\<rparr>)"
    by (auto simp: conn_flush_def Let_def outcome_simps)
  have "e \<longrightarrow> k_state d = StateTerminated"
    using l state_flush_segments
    by (auto simp: flush_locked_alt Let_def pingSegment_def split: if_splits prod.splits)
  then have "k_state c' = k_state d"
    by (simp add: c' terminate_def setState_same signalRead_def signalWrite_def)
  moreover have "k_state d = (let d = flush_idle t later c in
     if k_state d = StateTerminating
     then if t - k_stateBegin d > 8000 then StateTerminated else StateTerminating
     else k_state (flush_late t later d))"
    using l assms(2) state_flush_segments
    by (auto simp: flush_locked_alt Let_def pingSegment_def split: if_splits prod.splits)
  ultimately show ?thesis by simp
qed

lemma flush_leaves_state:
  assumes "conn_flush t later io c = Ret (packets, c')"
    and "k_state c \<in> {StateReadyToClose, StatePeerTerminating, StateTerminating}"
    and "state_limit (k_state c) < t - k_stateBegin c"
  shows "phase (k_state c) < phase (k_state c')" "3 \<le> phase (k_state c')"
  using flush_state[OF assms(1)] assms(2,3)
  by (auto simp: flush_idle_def flush_late_def Let_def split: if_splits)

text \<open>
  C8. A connection that is closing ends, whatever the peer and the application do: a flush later than 15
  seconds after it became ready to close, or 4 seconds after the peer announced its end, moves it to
  terminating or further, and any flush later than 8 seconds after that finds it terminated.
\<close>

theorem closing_connection_ends:
  assumes "k_state c \<in> {StateReadyToClose, StatePeerTerminating, StateTerminating}"
    and "conn_flush t later io c = Ret (packets, c1)" "state_limit (k_state c) < t - k_stateBegin c"
    and "conn_step\<^sup>*\<^sup>* c1 c2"
    and "conn_flush t' later' io' c2 = Ret (packets', c3)" "8000 < t' - k_stateBegin c2"
  shows "k_state c3 = StateTerminated"
proof -
  have "3 \<le> phase (k_state c1)" by (rule flush_leaves_state[OF assms(2,1,3)])
  with steps_evolve[OF assms(4)] have c2: "3 \<le> phase (k_state c2)" by (auto simp: evolves_def)
  show ?thesis
  proof (cases "k_state c2 = StateTerminated")
    case True
    then have "phase (k_state c3) \<ge> 4"
      using evolves_flush[OF assms(5)] by (auto simp: evolves_def)
    then show ?thesis by (cases "k_state c3") auto
  next
    case False
    with c2 have s: "k_state c2 = StateTerminating" by (cases "k_state c2") auto
    then have "3 < phase (k_state c3)" using flush_leaves_state(1)[OF assms(5)] assms(6) by simp
    then show ?thesis by (cases "k_state c3") auto
  qed
qed

definition example_config :: kconfig where
  "example_config = \<lparr>k_MTU = 0, k_TTI = 0, k_UplinkCapacity = 0, k_DownlinkCapacity = 0,
     k_Congestion = False, k_WriteBuffer = 0, k_ReadBuffer = 0, k_Seed = '''', k_Header = ''''\<rparr>"

definition plain_writer :: packetWriter where
  "plain_writer = \<lparr>pw_security = None, pw_header = None\<rparr>"

definition example_conn :: conn where
  "example_conn = (case newConn 7 plain_writer example_config of Ret c \<Rightarrow> c)"

lemma example_flight: "in_flight 5 example_config = Ret 194" "in_flight 20 example_config = Ret 776"
  by (simp_all add: in_flight_def example_config_def cfg_mtu_def cfg_tti_def)

lemma newConn_fields:
  assumes "newConn conv w cfg = Ret c"
  shows "k_cfg c = cfg" "k_writer c = w" "k_conv c = conv" "k_mss c = conn_mss cfg w"
    "k_state c = StateActive" "k_stateBegin c = 0" "k_readBuf c = []" "k_recvCache c = (\<lambda>_. None)"
    "k_recvNext c = 0" "k_ackList c = []" "k_sendWindow c = []" "k_sendNext c = 0"
    "k_firstUnacked c = 0" "k_readNotify c = 0" "k_readDeadline c = None" "k_srtt c = 0"
    "k_rttVariation c = 0" "k_minRtt c = cfg_tti cfg" "k_controlWindow c = send_flight cfg"
    "k_lastIncoming c = 0" "k_rto c = 100"
  using assms by (auto simp: newConn_def outcome_simps send_flight_def)

lemma newConn_example: "newConn 7 plain_writer example_config = Ret example_conn"
proof -
  have "cfg_uplinkCapacity example_config = 5"
    by (simp add: cfg_uplinkCapacity_def example_config_def)
  then have "\<exists>x. newConn 7 plain_writer example_config = Ret x"
    by (simp add: newConn_def sendingInFlightSize_def example_flight)
  then show ?thesis by (auto simp: example_conn_def)
qed

lemmas example_fields = newConn_fields[OF newConn_example]

lemma example_mss: "k_mss example_conn = 1332"
  by (simp add: example_fields conn_mss_def pw_overhead_def plain_writer_def
      dataSegmentOverhead_def example_config_def cfg_mtu_def)

lemma plain_secure [simp]: "secure plain_writer" "nonce_for plain_writer n"
  by (simp_all add: secure_def nonce_for_def plain_writer_def)

theorem closing_connection_ends_witness:
  "\<exists>p c1 t q c3. conn_flush 20000 20000 (\<lambda>_. ([], True)) (snd (conn_Close 10 example_conn)) = Ret (p, c1) \<and>
     conn_flush t t (\<lambda>_. ([], True)) c1 = Ret (q, c3) \<and> k_state c3 = StateTerminated"
proof -
  let ?io = "\<lambda>_ :: nat. ([] :: byte list, True)"
  let ?c = "snd (conn_Close 10 example_conn)"
  have c: "k_state ?c = StateReadyToClose" "k_stateBegin ?c = 10" "k_writer ?c = plain_writer"
    by (simp_all add: conn_Close_def example_fields setState_def signalRead_def signalWrite_def
        wakeFlush_def Let_def)
  obtain p c1 where 1: "conn_flush 20000 20000 ?io ?c = Ret (p, c1)"
    using flush_ends[of ?c ?io 20000 20000] c(3) by auto
  let ?t = "k_stateBegin c1 + 9000"
  have w: "wire_alike plain_writer (k_writer c1)"
    using evolves_flush[OF 1] c(3) by (simp add: evolves_def)
  then have "secure (k_writer c1)" "\<forall>i. nonce_for (k_writer c1) (fst (?io i))"
    by (simp_all add: wire_alike_secure wire_alike_nonce)
  then obtain q c3 where 3: "conn_flush ?t ?t ?io c1 = Ret (q, c3)"
    using flush_ends[of c1 ?io ?t ?t] by blast
  then have "k_state c3 = StateTerminated"
    by (intro closing_connection_ends[OF _ 1 _ rtranclp.rtrancl_refl 3]) (simp_all add: c)
  with 1 3 show ?thesis by blast
qed

lemma example_close_step: "conn_step\<^sup>*\<^sup>* example_conn (snd (conn_Close 10 example_conn))"
  by (intro r_into_rtranclp step_Close)

theorem connection_states_ordered_witness:
  "phase (k_state example_conn) < phase (k_state (snd (conn_Close 10 example_conn)))"
  using connection_states_ordered[OF example_close_step]
  by (simp add: conn_Close_def example_fields setState_def signalRead_def signalWrite_def
      wakeFlush_def Let_def)

theorem no_lost_wakeup_witness:
  "\<not> can_read example_conn \<and> can_read (snd (conn_Close 10 example_conn)) \<and>
   k_readNotify (snd (conn_Close 10 example_conn)) \<noteq> k_readNotify example_conn"
proof -
  have "\<not> can_read example_conn" "can_read (snd (conn_Close 10 example_conn))"
    by (simp_all add: can_read_def conn_Close_def example_fields setState_def signalRead_def
        signalWrite_def wakeFlush_def Let_def)
  with no_lost_wakeup[OF example_close_step]
  show ?thesis by blast
qed

text \<open>The clock is read again when a state begins. A flush that read the time before the
  millisecond changed finds the new state begun in its future, and the difference wraps around: the
  connection ends at once instead of announcing its end for 8 seconds.\<close>

lemma linger_cut_short:
  assumes "k_state c = StateReadyToClose" "k_sendWindow c = []"
  shows "k_state (snd (snd (flush_locked t (t + 1) c))) = StateTerminated"
    and "k_state (snd (snd (flush_locked t t c))) = StateTerminating"
  using assms
  by (simp_all add: flush_locked_alt flush_idle_def setState_def signalRead_def signalWrite_def
      pingSegment_def Let_def)

text \<open>
  A connection whose peer has closed is never given up: no flush leaves the state, however long
  nothing arrives; when its data is read, \<open>Read\<close> waits instead of reporting the end of the stream, and
  no deadline can be set any more.
\<close>

theorem half_closed_waits:
  assumes "k_state c = StatePeerClosed"
  shows "(\<forall>t later io packets c'. conn_flush t later io c = Ret (packets, c') \<longrightarrow>
            k_state c' = StatePeerClosed) \<and>
         (k_readBuf c = [] \<longrightarrow>
            conn_Read n c = (ReadWait (k_readNotify c) (k_readDeadline c), c)) \<and>
         \<not> fst (SetReadDeadline d c)"
  using assms flush_state[of _ _ _ c]
  by (auto simp: flush_idle_def flush_late_def Let_def conn_Read_def SetReadDeadline_def)

theorem half_closed_waits_witness:
  "k_state (handleOption segmentOptionClose 5 example_conn) = StatePeerClosed \<and>
   conn_Read 9 (handleOption segmentOptionClose 5 example_conn) =
     (ReadWait 0 None, handleOption segmentOptionClose 5 example_conn)"
proof -
  let ?c = "handleOption segmentOptionClose 5 example_conn"
  have c: "k_state ?c = StatePeerClosed" "k_readBuf ?c = []" "k_readNotify ?c = 0" "k_readDeadline ?c = None"
    by (simp_all add: handleOption_def example_fields setState_def segmentOptionClose_def
        signalWrite_def Let_def)
  with half_closed_waits[OF c(1), of 9 None] show ?thesis by simp
qed

section \<open>Write\<close>

text \<open>The segments of payloads, numbered from \<open>n\<close>.\<close>

fun fresh_segments :: "32 word \<Rightarrow> byte list list \<Rightarrow> dataSegment list" where
  "fresh_segments n [] = []"
| "fresh_segments n (p # ps) = \<lparr>d_conv = 0, d_option = 0, d_timestamp = 0, d_number = n,
     d_sendingNext = 0, d_payload = p, d_timeout = 0, d_transmit = 0\<rparr> # fresh_segments (n + 1) ps"

definition appended :: "byte list list \<Rightarrow> conn \<Rightarrow> conn \<Rightarrow> bool" where
  "appended ps c c' \<longleftrightarrow> k_sendWindow c' = k_sendWindow c @ fresh_segments (k_sendNext c) ps \<and>
     k_sendNext c' = k_sendNext c + word_of_nat (length ps) \<and> k_mss c' = k_mss c"

lemma write_payload_taken:
  "write_payload p c = (WriteTaken, d) \<Longrightarrow> appended ps d c' \<Longrightarrow> appended (p # ps) c c'"
  by (auto simp: write_payload_def appended_def signalWrite_def wakeFlush_def split: if_splits)

lemma write_payload_not_taken: "write_payload p c = (r, d) \<Longrightarrow> r \<noteq> WriteTaken \<Longrightarrow> d = c"
  by (auto simp: write_payload_def split: if_splits)

lemma write_loop_takes:
  assumes "0 < k_mss c" "written \<le> length b" "length b - written \<le> fuel"
  shows "\<exists>n r c' ps. write_loop fuel b written c = Ret (n, r, c') \<and> written \<le> n \<and> n \<le> length b \<and>
     (r = WriteTaken \<longrightarrow> n = length b) \<and> appended ps c c' \<and>
     concat ps = take (n - written) (drop written b) \<and> (\<forall>p \<in> set ps. p \<noteq> [] \<and> length p \<le> k_mss c)"
  using assms
proof (induction fuel arbitrary: written c)
  case 0
  then show ?case
    by (subst write_loop.simps) (auto simp: appended_def intro!: exI[of _ "[]"])
next
  case (Suc fuel)
  show ?case
  proof (cases "written < length b")
    case False
    with Suc.prems show ?thesis
      by (subst write_loop.simps) (auto simp: appended_def intro!: exI[of _ "[]"])
  next
    case True
    define e where "e = (if written + k_mss c > length b then length b else written + k_mss c)"
    define p where "p = take (e - written) (drop written b)"
    have e: "written < e" "e \<le> length b" "e - written \<le> k_mss c"
      using True Suc.prems(1) by (auto simp: e_def)
    then have p: "p \<noteq> []" "length p \<le> k_mss c" by (auto simp: p_def)
    obtain r d where w: "write_payload p c = (r, d)" by (cases "write_payload p c")
    show ?thesis
    proof (cases "r = WriteTaken")
      case True
      have d: "k_mss d = k_mss c"
        using w True by (auto simp: write_payload_def signalWrite_def wakeFlush_def split: if_splits)
      have "0 < k_mss d" "e \<le> length b" "length b - e \<le> fuel" using Suc.prems e d by simp_all
      from Suc.IH[OF this] obtain n r' c' ps where
        l: "write_loop fuel b e d = Ret (n, r', c')" and n: "e \<le> n" "n \<le> length b"
        and r': "r' = WriteTaken \<longrightarrow> n = length b" and a: "appended ps d c'"
        and ps: "concat ps = take (n - e) (drop e b)" "\<forall>p \<in> set ps. p \<noteq> [] \<and> length p \<le> k_mss d"
        by blast
      have "write_loop (Suc fuel) b written c = Ret (n, r', c')"
        using \<open>written < length b\<close> w True l
        by (subst write_loop.simps) (simp add: e_def[symmetric] p_def[symmetric] Let_def)
      moreover have "appended (p # ps) c c'" using write_payload_taken[OF _ a] w True by simp
      moreover have "concat (p # ps) = take (n - written) (drop written b)"
      proof -
        have "drop e b = drop (e - written) (drop written b)" using e by simp
        moreover have "n - written = (e - written) + (n - e)" using e n by simp
        ultimately show ?thesis by (simp add: ps p_def take_add)
      qed
      ultimately show ?thesis using n r' ps(2) p d e by fastforce
    next
      case False
      then have "write_loop (Suc fuel) b written c = Ret (written, r, c)"
        using \<open>written < length b\<close> w write_payload_not_taken[OF w False]
        by (subst write_loop.simps)
          (auto simp: e_def[symmetric] p_def[symmetric] Let_def split: write_result.split)
      with False Suc.prems show ?thesis
        by (auto simp: appended_def intro!: exI[of _ "[]"])
    qed
  qed
qed

text \<open>
  C10. \<open>Write\<close> returns or waits, and the bytes it has taken by then are the concatenation of the payloads
  that it appended to the send window, in order, none of them empty or longer than the segment size;
  when it ends without waiting on an open connection it has taken the whole buffer.
\<close>

theorem write_takes_prefix:
  assumes "0 < k_mss c"
  shows "\<exists>n r c' ps. conn_Write b c = Ret (n, r, c') \<and> n \<le> length b \<and>
     (r = WriteTaken \<longrightarrow> n = length b) \<and> concat ps = take n b \<and>
     k_sendWindow c' = k_sendWindow c @ fresh_segments (k_sendNext c) ps \<and>
     k_sendNext c' = k_sendNext c + word_of_nat (length ps) \<and>
     (\<forall>p \<in> set ps. p \<noteq> [] \<and> length p \<le> k_mss c)"
proof (cases "b = []")
  case True
  then show ?thesis by (auto simp: conn_Write_def intro!: exI[of _ "[]"])
next
  case False
  with write_loop_takes[OF assms, of 0 b "length b"] show ?thesis
    by (auto simp: conn_Write_def appended_def)
qed

theorem write_takes_prefix_witness:
  "\<exists>n r c'. conn_Write [1, 2, 3] example_conn = Ret (n, r, c') \<and> n \<le> 3"
  using write_takes_prefix[of example_conn "[1, 2, 3]"] by (auto simp: example_mss)

end
