(* ===== verification/KcpDeliver.thy ===== *)
theory KcpDeliver
  imports KcpClose
begin

text \<open>
  The two halves of an mKCP connection: what every method may do to the send window and to the receive
  buffers. A segment leaves the window of an open connection only when the peer has received it; the
  receive buffers hold the payloads that were written, in order. The theory of the stream puts the two
  connections together.
\<close>

section \<open>The sender\<close>

definition open_state :: "conn \<Rightarrow> bool" where
  "open_state c \<longleftrightarrow> k_state c \<in> {StateActive, StateReadyToClose}"

text \<open>The numbers and payloads in the window.\<close>

definition window_keys :: "conn \<Rightarrow> (32 word \<times> byte list) set" where
  "window_keys c = (\<lambda>s. (d_number s, d_payload s)) ` set (k_sendWindow c)"

abbreviation keys_list :: "conn \<Rightarrow> (32 word \<times> byte list) list" where
  "keys_list c \<equiv> map (\<lambda>s. (d_number s, d_payload s)) (k_sendWindow c)"

definition ack_numbers :: "conn \<Rightarrow> 32 word set" where
  "ack_numbers c = i_number ` set (k_ackList c)"

text \<open>A change that drops from the window only what satisfies \<open>got\<close>, unless it leaves the open states,
  and that adds nothing to the receive buffers.\<close>

definition harmless :: "(32 word \<Rightarrow> bool) \<Rightarrow> conn \<Rightarrow> conn \<Rightarrow> bool" where
  "harmless got c c' \<longleftrightarrow> k_sendNext c' = k_sendNext c \<and> window_keys c' \<subseteq> window_keys c \<and>
     subseq (keys_list c') (keys_list c) \<and>
     (open_state c' \<longrightarrow> open_state c \<and> (\<forall>k \<in> window_keys c - window_keys c'. got (fst k))) \<and>
     k_readBuf c' = k_readBuf c \<and> k_recvCache c' = k_recvCache c \<and> k_recvNext c' = k_recvNext c \<and>
     ack_numbers c' \<subseteq> ack_numbers c"

lemma harmless_refl [simp, intro]: "harmless got c c"
  by (simp add: harmless_def)

lemma harmless_trans: "harmless got c d \<Longrightarrow> harmless got d e \<Longrightarrow> harmless got c e"
proof -
  assume a: "harmless got c d" "harmless got d e"
  then have "subseq (keys_list e) (keys_list c)"
    unfolding harmless_def using subseq_order.order_trans by blast
  moreover have "window_keys e \<subseteq> window_keys c" "ack_numbers e \<subseteq> ack_numbers c"
    using a unfolding harmless_def by (meson order_trans)+
  moreover have "open_state c \<and> (\<forall>k \<in> window_keys c - window_keys e. got (fst k))" if "open_state e"
  proof -
    from a(2) that have "open_state d" "\<forall>k \<in> window_keys d - window_keys e. got (fst k)"
      unfolding harmless_def by blast+
    moreover from a(1) this(1) have "open_state c" "\<forall>k \<in> window_keys c - window_keys d. got (fst k)"
      unfolding harmless_def by blast+
    ultimately show ?thesis by (metis DiffD1 DiffD2 DiffI)
  qed
  ultimately show "harmless got c e" using a by (simp add: harmless_def)
qed

text \<open>Changes that keep all of this.\<close>

definition untouched :: "conn \<Rightarrow> conn \<Rightarrow> bool" where
  "untouched c c' \<longleftrightarrow> k_sendNext c' = k_sendNext c \<and> window_keys c' = window_keys c \<and>
     keys_list c' = keys_list c \<and> open_state c' = open_state c \<and> k_readBuf c' = k_readBuf c \<and>
     k_recvCache c' = k_recvCache c \<and> k_recvNext c' = k_recvNext c \<and> k_ackList c' = k_ackList c"

lemma untouched_harmless: "untouched c c' \<Longrightarrow> harmless got c c'"
  by (auto simp: untouched_def harmless_def ack_numbers_def)

lemma harmless_untouched: "harmless got b c \<Longrightarrow> untouched c d \<Longrightarrow> harmless got b d"
  using untouched_harmless harmless_trans by blast

lemma untouched_signals [simp]:
  "untouched c (signalRead c)" "untouched c (signalWrite c)" "untouched c (wakeFlush c)"
  by (simp_all add: untouched_def signalRead_def signalWrite_def wakeFlush_def window_keys_def
      open_state_def)

lemma setState_fields:
  "k_sendNext (setState s later c) = k_sendNext c" "k_readBuf (setState s later c) = k_readBuf c"
  "k_recvCache (setState s later c) = k_recvCache c" "k_recvNext (setState s later c) = k_recvNext c"
  "k_ackList (setState s later c) = k_ackList c"
  "k_sendWindow (setState s later c) =
     (if k_state c = s \<or> s = StateActive \<or> s = StateReadyToClose then k_sendWindow c else [])"
  by (simp_all add: setState_def signalRead_def signalWrite_def Let_def split: connState.split)

lemma harmless_setState:
  assumes "phase (k_state c) < phase s"
  shows "harmless got c (setState s later c)"
proof (cases "s = StateReadyToClose")
  case True
  with assms have "k_state c = StateActive" by (cases "k_state c") auto
  with True show ?thesis
    by (simp add: harmless_def window_keys_def open_state_def ack_numbers_def setState_fields)
next
  case False
  with assms have "s \<noteq> StateActive" "k_state c \<noteq> s" by (cases s; auto)+
  with False show ?thesis
    by (simp add: harmless_def window_keys_def open_state_def ack_numbers_def setState_fields)
qed

lemma harmless_setState_end: "harmless got c (setState StateTerminated later c)"
  using harmless_setState[of c StateTerminated] setState_same[of c StateTerminated later]
  by (cases "k_state c") simp_all

lemma untouched_done: "untouched d (d\<lparr>k_done := b\<rparr>)"
  by (simp add: untouched_def window_keys_def open_state_def)

text \<open>One more such change after what was done so far.\<close>

lemmas untouched_after = untouched_signals[THEN harmless_untouched[rotated]]
  untouched_done[THEN harmless_untouched[rotated]]

lemma harmless_terminate: "harmless got c (terminate later c)"
  by (auto simp: terminate_def intro!: untouched_after harmless_setState_end)

lemma harmless_handleOption: "harmless got c (handleOption opt later c)"
  using harmless_setState[of c StateTerminating] harmless_setState[of c StatePeerClosed]
  by (auto simp: handleOption_def split: connState.split)

lemma harmless_processSendingNext: "harmless got c (processSendingNext next c)"
  by (auto simp: processSendingNext_def Let_def harmless_def window_keys_def open_state_def
      ack_numbers_def)

lemma untouched_findFirstUnacked: "untouched c (findFirstUnacked c)"
  by (simp add: findFirstUnacked_def Let_def untouched_def window_keys_def open_state_def)

lemmas find_after = untouched_findFirstUnacked[THEN harmless_untouched[rotated]]

lemma harmless_window:
  assumes "\<forall>s \<in> set ws. (d_number s, d_payload s) \<in> window_keys c"
    and "\<forall>s \<in> set (k_sendWindow c). (d_number s, d_payload s) \<in> (\<lambda>s. (d_number s, d_payload s)) ` set ws
           \<or> got (d_number s)"
    and "subseq ws (k_sendWindow c)"
  shows "harmless got c (c\<lparr>k_sendWindow := ws\<rparr>)"
  using assms by (auto simp: harmless_def window_keys_def open_state_def ack_numbers_def subseq_map)

lemma harmless_processReceivingNext:
  assumes "\<forall>n < next. got n"
  shows "harmless got c (processReceivingNext next c)"
proof -
  let ?c = "c\<lparr>k_sendWindow := filter (\<lambda>seg. \<not> d_number seg < next) (k_sendWindow c)\<rparr>"
  have "harmless got c ?c"
    by (rule harmless_window) (use assms in \<open>auto simp: window_keys_def image_iff\<close>)
  then have f: "harmless got c (findFirstUnacked ?c)" by (rule find_after)
  moreover from f have "harmless got c (signalWrite (findFirstUnacked ?c))" by (rule untouched_after)
  ultimately show ?thesis unfolding processReceivingNext_def Let_def by (simp only: split: if_split) blast
qed

lemma remove_number_keys:
  "remove_number n ws = Some vs \<Longrightarrow>
     set vs \<subseteq> set ws \<and> (\<forall>s \<in> set ws. s \<in> set vs \<or> d_number s = n) \<and> subseq vs ws"
  by (induction ws arbitrary: vs) (auto split: if_splits)

lemma harmless_processAck:
  assumes "got n"
  shows "harmless got c (snd (processAck n c))"
proof (cases "remove_number n (k_sendWindow c)")
  case (Some ws)
  let ?d = "c\<lparr>k_sendWindow := ws\<rparr>"
  let ?e = "c\<lparr>k_totalInFlightSize := (if k_totalInFlightSize c > 0 then k_totalInFlightSize c - 1
                                     else k_totalInFlightSize c), k_sendWindow := ws\<rparr>"
  have "harmless got c ?d"
    by (rule harmless_window)
      (use assms remove_number_keys[OF Some] in \<open>auto simp: window_keys_def\<close>)
  moreover have "untouched ?d ?e" by (simp add: untouched_def window_keys_def open_state_def)
  ultimately have "harmless got c ?e" by (rule harmless_untouched)
  then have "harmless got c (signalWrite (findFirstUnacked ?e))" by (intro untouched_after find_after)
  then show ?thesis by (simp add: processAck_def Some)
qed (simp add: processAck_def)

lemma fast_ack_keys:
  "(\<lambda>s. (d_number s, d_payload s)) ` set (fast_ack_loop n r ws) =
   (\<lambda>s. (d_number s, d_payload s)) ` set ws"
  by (induction ws) auto

lemma fast_ack_keys_list:
  "map (\<lambda>s. (d_number s, d_payload s)) (fast_ack_loop n r ws) = map (\<lambda>s. (d_number s, d_payload s)) ws"
  by (induction ws) auto

lemma untouched_handleFastAck: "untouched c (handleFastAck n c)"
  by (simp add: handleFastAck_def Let_def untouched_def window_keys_def open_state_def fast_ack_keys
      fast_ack_keys_list)

lemma untouched_rtt: "untouched c (updateRTT r t c)" "untouched c (updatePeerRTO r t c)"
  by (simp_all add: updateRTT_def updatePeerRTO_def Let_def untouched_def window_keys_def
      open_state_def)

lemmas rtt_after = untouched_handleFastAck[THEN harmless_untouched[rotated]]
  untouched_rtt[THEN harmless_untouched[rotated]]

lemma harmless_ack_loop:
  assumes "ack_loop ns m r c = (m', r', c')" "\<forall>n \<in> set ns. got n"
  shows "harmless got c c'"
  using assms
proof (induction ns m r c rule: ack_loop.induct)
  case (2 n ns m r c)
  obtain r0 d where p: "processAck n c = (r0, d)" by (cases "processAck n c")
  with harmless_processAck[of got n c] "2.prems" have "harmless got c d" by simp
  moreover have "harmless got d c'" using 2 p by (auto split: if_splits)
  ultimately show ?case by (rule harmless_trans)
qed simp

text \<open>What a segment says about the side that sent it: \<open>got\<close> holds for the numbers it has received.\<close>

fun acks_only :: "(32 word \<Rightarrow> bool) \<Rightarrow> segment \<Rightarrow> bool" where
  "acks_only got (DataSeg s) \<longleftrightarrow> True"
| "acks_only got (AckSeg s) \<longleftrightarrow>
     (\<forall>n < a_receivingNext s. got n) \<and> (\<forall>n \<in> set (a_numberList s). got n)"
| "acks_only got (CmdSeg s) \<longleftrightarrow> (\<forall>n < c_receivingNext s. got n)"

lemma harmless_input_ack:
  assumes "acks_only got (AckSeg s)"
  shows "harmless got c (snd (input_ack current later s c))"
proof -
  define d where "d = handleOption (a_option s) later c"
  define e where "e = (if a_receivingWindow s > k_remoteRecvWin d
      then d\<lparr>k_remoteRecvWin := a_receivingWindow s\<rparr> else d)"
  define f where "f = processReceivingNext (a_receivingNext s) e"
  obtain m r g where l: "ack_loop (a_numberList s) 0 False f = (m, r, g)"
    by (cases "ack_loop (a_numberList s) 0 False f")
  have "harmless got c d" by (simp add: d_def harmless_handleOption)
  moreover have "untouched d e" by (simp add: e_def untouched_def window_keys_def open_state_def)
  moreover have "harmless got e f" using assms by (simp add: f_def harmless_processReceivingNext)
  ultimately have f: "harmless got c f" using harmless_trans harmless_untouched by blast
  moreover have "harmless got f g" using harmless_ack_loop[OF l] assms by simp
  ultimately have g: "harmless got c g" by (rule harmless_trans)
  then have "harmless got c (handleFastAck m g)" "harmless got c (updateRTT x y (handleFastAck m g))"
    for x y by (intro rtt_after; assumption)+
  with f g show ?thesis
    by (simp add: input_ack_def d_def[symmetric] e_def[symmetric] f_def[symmetric] l Let_def)
qed

lemma harmless_input_cmd:
  assumes "acks_only got (CmdSeg s)"
  shows "harmless got c (snd (input_cmd current later s c))"
proof -
  define d where "d = handleOption (c_option s) later c"
  define e where "e = (if c_cmd s = commandTerminate then
               (case k_state d of
                  StateActive \<Rightarrow> (False, setState StatePeerTerminating later d)
                | StatePeerClosed \<Rightarrow> (False, setState StatePeerTerminating later d)
                | StateReadyToClose \<Rightarrow> (False, setState StateTerminating later d)
                | StateTerminating \<Rightarrow> (True, setState StateTerminated later d)
                | _ \<Rightarrow> (False, d))
             else (False, d))"
  obtain t f where e: "e = (t, f)" by (cases e)
  have "harmless got d (snd e)"
    using harmless_setState[of d] by (auto simp: e_def split: connState.split)
  moreover have "harmless got c d" unfolding d_def by (rule harmless_handleOption)
  ultimately have "harmless got c f" using harmless_trans e by auto
  then have "harmless got c (processReceivingNext (c_receivingNext s) f)"
    using harmless_processReceivingNext[of "c_receivingNext s" got f] assms harmless_trans by simp
  then have g: "harmless got c (updatePeerRTO x y (processSendingNext u
      (processReceivingNext (c_receivingNext s) f)))" for x y u
    by (rule harmless_trans[THEN rtt_after(3)]) (rule harmless_processSendingNext)
  then have "harmless got c (signalWrite (signalRead (updatePeerRTO x y (processSendingNext u
      (processReceivingNext (c_receivingNext s) f)))))" for x y u
    by (intro untouched_after g)
  with g show ?thesis
    by (simp add: input_cmd_def d_def[symmetric] e_def[symmetric] e Let_def)
qed

end
