(* ===== verification/KcpReceive.thy ===== *)
theory KcpReceive
  imports KcpDeliver
begin

text \<open>
  The receiving half of an mKCP connection, and what a flush puts on the wire. \<open>W\<close> is the list of
  payloads that the peer has written, a segment with number \<open>n\<close> carries the \<open>n\<close>-th of them; \<open>G\<close> is what
  the application has read.
\<close>

section \<open>The receiver\<close>

definition wf_data :: "byte list list \<Rightarrow> 32 word \<Rightarrow> byte list \<Rightarrow> bool" where
  "wf_data W n p \<longleftrightarrow> unat n < length W \<and> p = W ! unat n"

lemma wf_data_append: "wf_data W n p \<Longrightarrow> wf_data (W @ V) n p"
  by (simp add: wf_data_def nth_append)

definition received :: "conn \<Rightarrow> 32 word \<Rightarrow> bool" where
  "received c n \<longleftrightarrow> n < k_recvNext c \<or> k_recvCache c n \<noteq> None"

text \<open>The invariant but for its last part, which holds after each delivery.\<close>

definition recv_parts :: "byte list list \<Rightarrow> byte list \<Rightarrow> conn \<Rightarrow> bool" where
  "recv_parts W G c \<longleftrightarrow>
     (\<forall>n s. k_recvCache c n = Some s \<longrightarrow> wf_data W n (d_payload s)) \<and>
     unat (k_recvNext c) \<le> length W \<and>
     G @ k_readBuf c = concat (take (unat (k_recvNext c)) W) \<and>
     (\<forall>n \<in> ack_numbers c. received c n)"

definition recv_inv :: "byte list list \<Rightarrow> byte list \<Rightarrow> conn \<Rightarrow> bool" where
  "recv_inv W G c \<longleftrightarrow> recv_parts W G c \<and> k_recvCache c (k_recvNext c) = None"

text \<open>What the two halves have to do with each other.\<close>

definition same_sender :: "conn \<Rightarrow> conn \<Rightarrow> bool" where
  "same_sender c c' \<longleftrightarrow> k_sendNext c' = k_sendNext c \<and> k_sendWindow c' = k_sendWindow c \<and>
     k_state c' = k_state c"

definition receives_more :: "conn \<Rightarrow> conn \<Rightarrow> bool" where
  "receives_more c c' \<longleftrightarrow> k_recvNext c \<le> k_recvNext c' \<and> (\<forall>n. received c n \<longrightarrow> received c' n)"

lemma receives_more_refl [simp]: "receives_more c c"
  by (simp add: receives_more_def)

lemma receives_more_trans: "receives_more c d \<Longrightarrow> receives_more d e \<Longrightarrow> receives_more c e"
  by (auto simp: receives_more_def)

lemma word_suc:
  fixes n :: "32 word"
  assumes "unat n < m" "m < 4294967296"
  shows "unat (n + 1) = unat n + 1" "k < n + 1 \<longleftrightarrow> k < n \<or> k = n"
proof -
  show u: "unat (n + 1) = unat n + 1"
    using assms by (simp add: unat_word_ariths(1))
  show "k < n + 1 \<longleftrightarrow> k < n \<or> k = n"
    unfolding word_less_nat_alt u by (auto simp: less_Suc_eq dest: unsigned_word_eqI)
qed

lemma deliver_loop_inv:
  assumes "deliver_loop d c = (d', c')" "recv_parts W G c" "length W < 4294967296"
  shows "recv_inv W G c' \<and> receives_more c c' \<and> same_sender c c'"
  using assms
proof (induction d c arbitrary: d' c' rule: deliver_loop.induct)
  case (1 d c)
  show ?case
  proof (cases "k_recvCache c (k_recvNext c)")
    case None
    with "1.prems" show ?thesis
      by (simp add: deliver_loop.simps[of d c] recv_inv_def same_sender_def)
  next
    case (Some seg)
    let ?c = "c\<lparr>k_recvCache := (k_recvCache c)(k_recvNext c := None),
      k_recvNext := k_recvNext c + 1, k_readBuf := k_readBuf c @ d_payload seg\<rparr>"
    from "1.prems"(2) Some have w: "wf_data W (k_recvNext c) (d_payload seg)"
      by (simp add: recv_parts_def)
    then have lt: "unat (k_recvNext c) < length W" by (simp add: wf_data_def)
    note suc = word_suc[OF lt "1.prems"(3)]
    have r: "received ?c n" if "received c n" for n
      using that by (auto simp: received_def suc(2))
    have "recv_parts W G ?c"
      using "1.prems"(2) w lt r
      by (auto simp: recv_parts_def suc(1) wf_data_def take_Suc_conv_app_nth ack_numbers_def)
    moreover have "deliver_loop True ?c = (d', c')"
      using "1.prems"(1) Some by (simp add: deliver_loop.simps[of d c])
    ultimately have "recv_inv W G c' \<and> receives_more ?c c' \<and> same_sender ?c c'"
      using "1.IH"[OF Some] "1.prems"(3) by blast
    moreover have "receives_more c ?c" using r suc(2)[of "k_recvNext c"] by (simp add: receives_more_def)
    ultimately show ?thesis
      using receives_more_trans by (auto simp: same_sender_def)
  qed
qed

lemma recv_parts_cong:
  assumes "k_readBuf c' = k_readBuf c" "k_recvCache c' = k_recvCache c" "k_recvNext c' = k_recvNext c"
    "ack_numbers c' \<subseteq> ack_numbers c"
  shows "recv_parts W G c \<Longrightarrow> recv_parts W G c'" "recv_inv W G c \<Longrightarrow> recv_inv W G c'"
    "receives_more c c'" "received c' = received c"
  using assms by (auto simp: recv_parts_def recv_inv_def receives_more_def received_def fun_eq_iff)

lemma deliver_inv:
  assumes "recv_parts W G c" "length W < 4294967296"
  shows "recv_inv W G (deliver c)" "receives_more c (deliver c)" "same_sender c (deliver c)"
proof -
  obtain d c' where d: "deliver_loop False c = (d, c')" by (cases "deliver_loop False c")
  note i = deliver_loop_inv[OF d assms]
  note s = recv_parts_cong[of "signalRead c'" c']
  have "deliver c = (if d then signalRead c' else c')" by (simp add: deliver_def d)
  with i s show "recv_inv W G (deliver c)" "receives_more c (deliver c)" "same_sender c (deliver c)"
    by (auto simp: signalRead_def same_sender_def ack_numbers_def intro: receives_more_trans)
qed

text \<open>A data segment is stored when its number is in the window, and acknowledged.\<close>

definition store_data :: "dataSegment \<Rightarrow> conn \<Rightarrow> conn" where
  "store_data s c =
     (if d_number s - k_recvNext c < recv_flight (k_cfg c) then
        c\<lparr>k_ackList := k_ackList c @ [\<lparr>i_number = d_number s,
              i_timestamp = d_timestamp s, i_nextFlush = 0\<rparr>],
          k_ackDirty := True,
          k_recvCache := (if k_recvCache c (d_number s) = None
                          then (k_recvCache c)(d_number s := Some s)
                          else k_recvCache c)\<rparr>
      else c)"

lemma input_data_alt:
  "input_data later s c =
     deliver (store_data s (processSendingNext (d_sendingNext s) (handleOption (d_option s) later c)))"
  by (simp only: input_data_def store_data_def Let_def)

lemma store_data_inv:
  assumes "recv_parts W G c" "wf_data W (d_number s) (d_payload s)"
  shows "recv_parts W G (store_data s c)" "receives_more c (store_data s c)"
    "same_sender c (store_data s c)"
  using assms
  by (auto simp: store_data_def recv_parts_def receives_more_def received_def same_sender_def
      ack_numbers_def)

lemma input_data_inv:
  assumes "recv_inv W G c" "wf_data W (d_number s) (d_payload s)" "length W < 4294967296"
  obtains d where "harmless got c d" "same_sender d (input_data later s c)"
    "recv_inv W G (input_data later s c)" "receives_more c (input_data later s c)"
proof
  let ?d = "processSendingNext (d_sendingNext s) (handleOption (d_option s) later c)"
  let ?e = "store_data s ?d"
  show h: "harmless got c ?d" for got
    using harmless_handleOption harmless_processSendingNext harmless_trans by blast
  have "recv_parts W G c" using assms(1) by (simp add: recv_inv_def)
  then have d: "recv_parts W G ?d" "receives_more c ?d"
    using recv_parts_cong[of ?d c] h[of "\<lambda>_. True"] by (simp_all add: harmless_def)
  note e = store_data_inv[OF d(1) assms(2)]
  note f = deliver_inv[OF e(1) assms(3)]
  show "recv_inv W G (input_data later s c)" unfolding input_data_alt by (rule f(1))
  show "same_sender ?d (input_data later s c)"
    unfolding input_data_alt using e(3) f(3) by (auto simp: same_sender_def)
  show "receives_more c (input_data later s c)"
    unfolding input_data_alt using d(2) e(2) f(2) receives_more_trans by blast
qed

section \<open>What a flush sends\<close>

text \<open>An acknowledgement of \<open>c\<close>: it reports what \<open>c\<close> has received, and fits its length byte.\<close>

definition ack_of :: "conn \<Rightarrow> ackSegment \<Rightarrow> bool" where
  "ack_of c a \<longleftrightarrow> a_conv a = k_conv c \<and> a_receivingNext a = k_recvNext c \<and>
     set (a_numberList a) \<subseteq> ack_numbers c \<and> length (a_numberList a) \<le> 128"

fun sent_of :: "conn \<Rightarrow> segment \<Rightarrow> bool" where
  "sent_of c (DataSeg s) \<longleftrightarrow> d_conv s = k_conv c \<and> (d_number s, d_payload s) \<in> window_keys c"
| "sent_of c (AckSeg a) \<longleftrightarrow> ack_of c a"
| "sent_of c (CmdSeg s) \<longleftrightarrow> c_conv s = k_conv c \<and> c_receivingNext s = k_recvNext c \<and>
     c_cmd s \<in> {commandTerminate, commandPing}"

lemma ack_of_new [simp]: "ack_of c (newAckSegment c)" "a_numberList (newAckSegment c) = []"
  by (simp_all add: ack_of_def newAckSegment_def)

lemma ack_items_spec:
  assumes "ack_items c t items ack segs cands dirty = (items', ack', segs', cands', dirty')"
    and "ack_of c ack" "length (a_numberList ack) < 128" "set cands \<subseteq> ack_numbers c"
    and "i_number ` set items \<subseteq> ack_numbers c" "\<forall>s \<in> set segs. sent_of c s \<and> (\<exists>a. s = AckSeg a)"
  shows "map i_number items' = map i_number items \<and> ack_of c ack' \<and> length (a_numberList ack') < 128 \<and>
     set cands' \<subseteq> ack_numbers c \<and> (\<forall>s \<in> set segs'. sent_of c s \<and> (\<exists>a. s = AckSeg a)) \<and>
     (dirty \<or> segs \<noteq> [] \<longrightarrow> dirty' \<or> segs' \<noteq> [])"
  using assms
proof (induction items arbitrary: ack segs cands dirty items' ack' segs' cands' dirty')
  case (Cons item items)
  define ack1 where "ack1 = (let ack = ack\<lparr>a_numberList := a_numberList ack @ [i_number item]\<rparr> in
     if i_timestamp item - a_timestamp ack < 0x7fffffff
     then ack\<lparr>a_timestamp := i_timestamp item\<rparr> else ack)"
  have a1: "ack_of c ack1" "a_numberList ack1 = a_numberList ack @ [i_number item]"
    using Cons.prems(2,3,5) by (auto simp: ack1_def ack_of_def Let_def)
  have n: "i_number item \<in> ack_numbers c" "i_number ` set items \<subseteq> ack_numbers c"
    using Cons.prems(5) by auto
  show ?case
  proof (cases "i_nextFlush item > t")
    case True
    let ?cands = "if length cands < 128 then cands @ [i_number item] else cands"
    obtain xs r where l: "ack_items c t items ack segs ?cands dirty = (xs, r)"
      by (cases "ack_items c t items ack segs ?cands dirty")
    with Cons.prems(1) True have r: "items' = item # xs" "r = (ack', segs', cands', dirty')"
      by simp_all
    have "set ?cands \<subseteq> ack_numbers c" using Cons.prems(4) n(1) by auto
    from Cons.IH[OF l[unfolded r(2)] Cons.prems(2,3) this n(2) Cons.prems(6)] r(1) show ?thesis
      by simp
  next
    case no: False
    show ?thesis
    proof (cases "length (a_numberList ack1) = 128")
      case True
      let ?segs = "segs @ [AckSeg ack1]"
      obtain xs r where l: "ack_items c t items (newAckSegment c) ?segs cands False = (xs, r)"
        by (cases "ack_items c t items (newAckSegment c) ?segs cands False")
      with Cons.prems(1) no True have r: "r = (ack', segs', cands', dirty')"
        "map i_number items' = i_number item # map i_number xs"
        by (auto simp: ack1_def Let_def)
      have s: "\<forall>s \<in> set ?segs. sent_of c s \<and> (\<exists>a. s = AckSeg a)" using Cons.prems(6) a1(1) by auto
      from Cons.IH[OF l[unfolded r(1)] ack_of_new(1) _ Cons.prems(4) n(2) s] r(2) show ?thesis
        by simp
    next
      case False
      obtain xs r where l: "ack_items c t items ack1 segs cands dirty = (xs, r)"
        by (cases "ack_items c t items ack1 segs cands dirty")
      with Cons.prems(1) no False have r: "r = (ack', segs', cands', dirty')"
        "map i_number items' = i_number item # map i_number xs"
        by (auto simp: ack1_def Let_def)
      have "length (a_numberList ack1) < 128" using a1(2) Cons.prems(3) False by simp
      from Cons.IH[OF l[unfolded r(1)] a1(1) this Cons.prems(4) n(2) Cons.prems(6)] r(2) show ?thesis
        by simp
    qed
  qed
qed simp

lemma flushAcks_spec:
  assumes "flushAcks t c = (segs, c')"
  shows "\<forall>s \<in> set segs. sent_of c s \<and> (\<exists>a. s = AckSeg a)" "ack_numbers c' = ack_numbers c"
    "k_sendNext c' = k_sendNext c" "k_sendWindow c' = k_sendWindow c" "k_state c' = k_state c"
    "k_readBuf c' = k_readBuf c" "k_recvCache c' = k_recvCache c" "k_recvNext c' = k_recvNext c"
    "k_conv c' = k_conv c" "k_rto c' = k_rto c" "k_cfg c' = k_cfg c" "k_firstUnacked c' = k_firstUnacked c"
    "k_ackList c \<noteq> [] \<and> k_ackDirty c \<longrightarrow> segs \<noteq> []"
proof -
  obtain items ack sg cands dirty where l:
    "ack_items c t (k_ackList c) (newAckSegment c) [] [] (k_ackDirty c) = (items, ack, sg, cands, dirty)"
    by (metis prod.exhaust)
  have spec: "map i_number items = map i_number (k_ackList c)" "ack_of c ack"
    "length (a_numberList ack) < 128" "set cands \<subseteq> ack_numbers c"
    "\<forall>s \<in> set sg. sent_of c s \<and> (\<exists>a. s = AckSeg a)" "k_ackDirty c \<longrightarrow> dirty \<or> sg \<noteq> []"
    using ack_items_spec[OF l] by (auto simp: ack_numbers_def)
  have "i_number ` set items = ack_numbers c"
    using spec(1) by (metis ack_numbers_def image_set)
  moreover have "ack_of c (add_candidates cands ack)"
    using spec(2-4) set_take_subset[of "128 - length (a_numberList ack)" cands]
    by (auto simp: add_candidates_def ack_of_def)
  ultimately show "\<forall>s \<in> set segs. sent_of c s \<and> (\<exists>a. s = AckSeg a)" "ack_numbers c' = ack_numbers c"
    "k_sendNext c' = k_sendNext c" "k_sendWindow c' = k_sendWindow c" "k_state c' = k_state c"
    "k_readBuf c' = k_readBuf c" "k_recvCache c' = k_recvCache c" "k_recvNext c' = k_recvNext c"
    "k_conv c' = k_conv c" "k_rto c' = k_rto c" "k_cfg c' = k_cfg c" "k_firstUnacked c' = k_firstUnacked c"
    "k_ackList c \<noteq> [] \<and> k_ackDirty c \<longrightarrow> segs \<noteq> []"
    using assms spec(5,6)
    by (auto simp: flushAcks_def l Let_def ack_numbers_def split: if_splits)
qed

end
