(* ===== verification/KcpSend.thy ===== *)
theory KcpSend
  imports KcpReceive
begin

text \<open>What a flush of an mKCP connection does to its two halves, and that its packets are read.\<close>

lemma sent_of_mono:
  assumes "window_keys c' \<subseteq> window_keys c" "k_recvNext c' = k_recvNext c" "k_conv c' = k_conv c"
    "ack_numbers c' \<subseteq> ack_numbers c" "sent_of c' s"
  shows "sent_of c s"
  using assms by (cases s) (auto simp: ack_of_def)

definition keys_of :: "dataSegment list \<Rightarrow> (32 word \<times> byte list) set" where
  "keys_of ws = (\<lambda>s. (d_number s, d_payload s)) ` set ws"

lemma keys_of_Cons [simp]: "keys_of (s # ws) = insert (d_number s, d_payload s) (keys_of ws)"
  and keys_of_Nil [simp]: "keys_of [] = {}"
  by (simp_all add: keys_of_def)

lemma window_keys_of: "window_keys c = keys_of (k_sendWindow c)"
  by (simp add: window_keys_def keys_of_def)

lemma send_loop_spec:
  assumes "send_loop c t w ws l i n = (vs, out, r)"
  shows "map (\<lambda>s. (d_number s, d_payload s)) vs = map (\<lambda>s. (d_number s, d_payload s)) ws"
    and "\<forall>s \<in> set out. d_conv s = k_conv c \<and>
           (d_number s, d_payload s) \<in> keys_of ws"
    and "ws \<noteq> [] \<and> t - d_timeout (hd ws) < 0x7fffffff \<longrightarrow> out \<noteq> [] \<and> hd out = stamp c t (hd ws)"
proof -
  have "map (\<lambda>s. (d_number s, d_payload s)) vs = map (\<lambda>s. (d_number s, d_payload s)) ws \<and>
     (\<forall>s \<in> set out. d_conv s = k_conv c \<and>
        (d_number s, d_payload s) \<in> keys_of ws) \<and>
     (ws \<noteq> [] \<and> t - d_timeout (hd ws) < 0x7fffffff \<longrightarrow> out \<noteq> [] \<and> hd out = stamp c t (hd ws))"
    using assms
  proof (induction ws arbitrary: l i n vs out r)
    case (Cons seg ws)
    have st: "d_number (stamp c t seg) = d_number seg" "d_payload (stamp c t seg) = d_payload seg"
      "d_conv (stamp c t seg) = k_conv c" by (simp_all add: stamp_def)
    show ?case
    proof (cases "t - d_timeout seg \<ge> 0x7fffffff")
      case True
      obtain xs os q where x: "send_loop c t w ws l i n = (xs, os, q)"
        by (cases "send_loop c t w ws l i n") auto
      with Cons.prems True Cons.IH[OF x] show ?thesis by auto
    next
      case no: False
      let ?n = "if d_transmit seg = 0 then n + 1 else n"
      let ?l = "if d_transmit seg = 0 then l else l + 1"
      obtain xs os q where x: "send_loop c t w ws ?l (i + 1) ?n = (xs, os, q)"
        by (cases "send_loop c t w ws ?l (i + 1) ?n") auto
      show ?thesis
      proof (cases "i + 1 \<ge> w")
        case True
        with no Cons.prems st show ?thesis by (auto simp: Let_def)
      next
        case False
        with no Cons.prems x st Cons.IH[OF x] show ?thesis by (auto simp: Let_def)
      qed
    qed
  qed simp
  then show "map (\<lambda>s. (d_number s, d_payload s)) vs = map (\<lambda>s. (d_number s, d_payload s)) ws"
    and "\<forall>s \<in> set out. d_conv s = k_conv c \<and>
           (d_number s, d_payload s) \<in> keys_of ws"
    and "ws \<noteq> [] \<and> t - d_timeout (hd ws) < 0x7fffffff \<longrightarrow> out \<noteq> [] \<and> hd out = stamp c t (hd ws)"
    by auto
qed

lemma onPacketLoss_keeps: "\<exists>x. onPacketLoss r c = c\<lparr>k_controlWindow := x\<rparr>"
  by (cases "k_rto c = 0") (auto simp: onPacketLoss_def Let_def intro: exI[of _ "k_controlWindow c"])

lemma flushSend_spec:
  assumes "flushSend t c = (segs, c')"
  shows "\<forall>s \<in> set segs. sent_of c s" "untouched c c'" "k_conv c' = k_conv c" "k_cfg c' = k_cfg c"
    "k_rto c' = k_rto c"
    "k_sendWindow c \<noteq> [] \<and> t - d_timeout (hd (k_sendWindow c)) < 0x7fffffff \<longrightarrow>
       DataSeg (stamp c t (hd (k_sendWindow c))) \<in> set segs"
proof -
  have "(\<forall>s \<in> set segs. sent_of c s) \<and> untouched c c' \<and> k_conv c' = k_conv c \<and> k_cfg c' = k_cfg c \<and>
    k_rto c' = k_rto c \<and>
    (k_sendWindow c \<noteq> [] \<and> t - d_timeout (hd (k_sendWindow c)) < 0x7fffffff \<longrightarrow>
       DataSeg (stamp c t (hd (k_sendWindow c))) \<in> set segs)"
  proof (cases "k_sendWindow c = []")
    case True
    with assms show ?thesis
      by (auto simp: flushSend_def pingSegment_def untouched_def window_keys_def open_state_def
          split: if_splits)
  next
    case False
    obtain ws out l i n where s:
      "send_loop c t (congestion_window c) (k_sendWindow c) 0 0 (k_totalInFlightSize c) = (ws, out, l, i, n)"
      by (metis prod.exhaust)
    note spec = send_loop_spec[OF s]
    let ?d = "c\<lparr>k_sendWindow := ws, k_totalInFlightSize := n\<rparr>"
    obtain x where x: "onPacketLoss (l * 100 div n) ?d = ?d\<lparr>k_controlWindow := x\<rparr>"
      using onPacketLoss_keeps by blast
    from assms False s x have segs: "segs = map DataSeg out"
      and c': "c' = ?d\<lparr>k_firstUnackedWasUpdated := False\<rparr> \<or>
               c' = ?d\<lparr>k_controlWindow := x, k_firstUnackedWasUpdated := False\<rparr>"
      by (auto simp: flushSend_def Let_def split: if_splits)
    have "\<forall>s \<in> set segs. sent_of c s" using spec(2) by (auto simp: segs window_keys_of)
    moreover have "untouched c c'"
    proof -
      have "keys_of ws = keys_of (k_sendWindow c)"
        using arg_cong[OF spec(1), of set] by (simp add: keys_of_def)
      with c' show ?thesis
        by (elim disjE) (simp_all add: untouched_def window_keys_of open_state_def spec(1))
    qed
    moreover have "k_sendWindow c \<noteq> [] \<and> t - d_timeout (hd (k_sendWindow c)) < 0x7fffffff \<longrightarrow>
       DataSeg (stamp c t (hd (k_sendWindow c))) \<in> set segs"
      unfolding segs set_map using spec(3) by (metis hd_in_set imageI)
    ultimately show ?thesis using c' by auto
  qed
  then show "\<forall>s \<in> set segs. sent_of c s" "untouched c c'" "k_conv c' = k_conv c"
    "k_cfg c' = k_cfg c" "k_rto c' = k_rto c"
    "k_sendWindow c \<noteq> [] \<and> t - d_timeout (hd (k_sendWindow c)) < 0x7fffffff \<longrightarrow>
       DataSeg (stamp c t (hd (k_sendWindow c))) \<in> set segs" by blast+
qed

text \<open>The segments of a flush, and the state it leaves.\<close>

lemma flush_segments_spec:
  assumes "flush_segments t c = (segs, c')"
  shows "\<forall>s \<in> set segs. sent_of c s" "harmless got c c'" "k_conv c' = k_conv c"
    "k_recvNext c' = k_recvNext c" "ack_numbers c' = ack_numbers c"
    "k_ackList c \<noteq> [] \<and> k_ackDirty c \<longrightarrow> (\<exists>a. AckSeg a \<in> set segs)"
    "k_sendWindow c \<noteq> [] \<and> t - d_timeout (hd (k_sendWindow c)) < 0x7fffffff \<longrightarrow>
       DataSeg (stamp c t (hd (k_sendWindow c))) \<in> set segs"
proof -
  obtain a d where a: "flushAcks t c = (a, d)" by (cases "flushAcks t c")
  obtain b e where b: "flushSend t d = (b, e)" by (cases "flushSend t d")
  note A = flushAcks_spec[OF a] and B = flushSend_spec[OF b]
  let ?p = "fst (pingSegment commandPing t e)"
  have c': "c' = e \<or> c' = e\<lparr>k_lastPing := t\<rparr>"
    and segs: "segs = a @ b \<or> segs = a @ b @ [?p]"
    using assms by (auto simp: flush_segments_def a b Let_def pingSegment_def split: if_splits)
  have w: "window_keys d = window_keys c" using A by (simp add: window_keys_def)
  have "\<forall>s \<in> set a. sent_of c s" using A(1) by blast
  moreover have "\<forall>s \<in> set b. sent_of c s"
    using B(1) sent_of_mono[of d c] w A by auto
  moreover have "sent_of c ?p"
    using A B by (auto simp: pingSegment_def untouched_def)
  ultimately show "\<forall>s \<in> set segs. sent_of c s" using segs by auto
  have "harmless got c d"
    using A by (auto simp: harmless_def window_keys_def open_state_def)
  then have h: "harmless got c e" using B(2) by (rule harmless_untouched)
  moreover have "untouched e (e\<lparr>k_lastPing := t\<rparr>)"
    by (simp add: untouched_def window_keys_def open_state_def)
  ultimately have "harmless got c (e\<lparr>k_lastPing := t\<rparr>)" by (rule harmless_untouched)
  with h c' show "harmless got c c'" by auto
  have "ack_numbers e = ack_numbers d" using B(2) by (simp add: untouched_def ack_numbers_def)
  then show "ack_numbers c' = ack_numbers c" using c' A(2) by (auto simp: ack_numbers_def)
  show "k_conv c' = k_conv c" "k_recvNext c' = k_recvNext c"
    using c' A B by (auto simp: untouched_def)
  show "k_ackList c \<noteq> [] \<and> k_ackDirty c \<longrightarrow> (\<exists>a. AckSeg a \<in> set segs)"
    using A(1,13) segs by (metis Un_iff last_in_set set_append)
  have "stamp d t = stamp c t"
    using A by (simp add: stamp_def fun_eq_iff close_option_def)
  then show "k_sendWindow c \<noteq> [] \<and> t - d_timeout (hd (k_sendWindow c)) < 0x7fffffff \<longrightarrow>
       DataSeg (stamp c t (hd (k_sendWindow c))) \<in> set segs"
    using B(6) A(4) segs by auto
qed

lemma harmless_flush_idle: "harmless got c (flush_idle t later c)"
proof -
  have "harmless got c (if k_state c = StateActive \<and> t - k_lastIncoming c \<ge> 30000
               then setState StateReadyToClose later c else c)" (is "harmless got c ?d")
    by (auto intro: harmless_setState)
  moreover have "harmless got ?d (if k_state ?d = StateReadyToClose \<and> k_sendWindow ?d = []
         then setState StateTerminating later ?d else ?d)"
    using harmless_setState[of ?d StateTerminating got later] by simp
  ultimately show ?thesis unfolding flush_idle_def Let_def by (rule harmless_trans)
qed

lemma harmless_flush_late: "harmless got c (flush_late t later c)"
proof -
  have "harmless got c (if k_state c = StatePeerTerminating \<and> t - k_stateBegin c > 4000
               then setState StateTerminating later c else c)" (is "harmless got c ?d")
    by (auto intro: harmless_setState)
  moreover have "harmless got ?d (if k_state ?d = StateReadyToClose \<and> t - k_stateBegin ?d > 15000
         then setState StateTerminating later ?d else ?d)"
    using harmless_setState[of ?d StateTerminating got later] by simp
  ultimately show ?thesis unfolding flush_late_def Let_def by (rule harmless_trans)
qed

lemma conv_flush_parts:
  "k_conv (flush_idle t later c) = k_conv c" "k_conv (flush_late t later c) = k_conv c"
  "k_ackList (flush_idle t later c) = k_ackList c" "k_ackList (flush_late t later c) = k_ackList c"
  "k_ackDirty (flush_idle t later c) = k_ackDirty c" "k_ackDirty (flush_late t later c) = k_ackDirty c"
  using evolves_flush_idle[of c t later] evolves_flush_late[of c t later]
  by (auto simp: evolves_def flush_idle_def flush_late_def setState_def signalRead_def
      signalWrite_def Let_def)

lemma flush_locked_spec:
  assumes "flush_locked t later c = (segs, ended, d)"
  shows "\<forall>s \<in> set segs. sent_of c s" "harmless got c d"
proof -
  define e where "e = flush_idle t later c"
  define f where "f = flush_late t later e"
  have e: "harmless got c e" "k_conv e = k_conv c" for got
    unfolding e_def by (simp_all add: harmless_flush_idle conv_flush_parts)
  have f: "harmless got c f" "k_conv f = k_conv c" for got
    unfolding f_def using harmless_trans[OF e(1) harmless_flush_late] e(2)
    by (simp_all add: conv_flush_parts)
  obtain sg g where g: "flush_segments t f = (sg, g)" by (cases "flush_segments t f")
  note G = flush_segments_spec[OF g]
  have p: "untouched e (e\<lparr>k_lastPing := t\<rparr>)"
    by (simp add: untouched_def window_keys_def open_state_def)
  have "\<forall>s \<in> set sg. sent_of c s"
    using G(1) f sent_of_mono[of f c] by (auto simp: harmless_def)
  moreover have "sent_of c (fst (pingSegment commandTerminate t e))"
    using e by (auto simp: pingSegment_def harmless_def)
  ultimately show "\<forall>s \<in> set segs. sent_of c s"
    using assms
    by (auto simp: flush_locked_alt e_def[symmetric] f_def[symmetric] g Let_def pingSegment_def
        split: if_splits)
  show "harmless got c d"
    using assms harmless_trans[OF f(1) G(2)] harmless_untouched[OF e(1) p]
      harmless_trans[OF harmless_untouched[OF e(1) p] harmless_setState_end]
    by (auto simp: flush_locked_alt e_def[symmetric] f_def[symmetric] g Let_def pingSegment_def
        split: if_splits)
qed

end
