(* ===== verification/KcpStream.thy ===== *)
theory KcpStream
  imports KcpSend
begin

text \<open>
  Two mKCP connections and the network between them. The network keeps every datagram that was ever
  sent, and delivers any of them at any time: it loses, duplicates, delays and reorders, but does not
  invent. Writers, readers, the flush loops and the clocks act in any order.
\<close>

section \<open>The two sides\<close>

datatype side = Client | Server

fun peer :: "side \<Rightarrow> side" where
  "peer Client = Server"
| "peer Server = Client"

lemma peer_peer [simp]: "peer (peer s) = s" "peer s \<noteq> s" "s \<noteq> peer s" "x \<noteq> s \<longleftrightarrow> x = peer s"
  by (cases s; cases x; simp)+

text \<open>\<open>w_net s\<close> are the datagrams sent to \<open>s\<close>, \<open>w_written s\<close> the payloads that the calls of \<open>Write\<close>
  at \<open>s\<close> have appended, and \<open>w_got s\<close> the bytes that the calls of \<open>Read\<close> have returned.\<close>

record kworld =
  w_conn :: "side \<Rightarrow> conn"
  w_reader :: "side \<Rightarrow> packetReader"
  w_net :: "side \<Rightarrow> byte list set"
  w_written :: "side \<Rightarrow> byte list list"
  w_got :: "side \<Rightarrow> byte list"

inductive kcp_step :: "kworld \<Rightarrow> kworld \<Rightarrow> bool" where
  kcp_Write: "write_payload p (w_conn w s) = (WriteTaken, c) \<Longrightarrow> length p \<le> k_mss (w_conn w s) \<Longrightarrow>
     kcp_step w (w\<lparr>w_conn := (w_conn w)(s := c), w_written := (w_written w)(s := w_written w s @ [p])\<rparr>)"
| kcp_Read: "conn_Read n (w_conn w s) = (ReadBytes bs, c) \<Longrightarrow>
     kcp_step w (w\<lparr>w_conn := (w_conn w)(s := c), w_got := (w_got w)(s := w_got w s @ bs)\<rparr>)"
| kcp_Close: "kcp_step w (w\<lparr>w_conn := (w_conn w)(s := snd (conn_Close later (w_conn w s)))\<rparr>)"
| kcp_ReadDeadline: "kcp_step w (w\<lparr>w_conn := (w_conn w)(s := snd (SetReadDeadline t (w_conn w s)))\<rparr>)"
| kcp_WriteDeadline: "kcp_step w (w\<lparr>w_conn := (w_conn w)(s := snd (SetWriteDeadline t (w_conn w s)))\<rparr>)"
| kcp_terminate: "kcp_step w (w\<lparr>w_conn := (w_conn w)(s := terminate later (w_conn w s))\<rparr>)"
| kcp_Input: "p \<in> w_net w s \<Longrightarrow> packet_read (w_reader w s) p = Ret segs \<Longrightarrow>
     kcp_step w (w\<lparr>w_conn := (w_conn w)(s := conn_Input current later segs (w_conn w s))\<rparr>)"
| kcp_flush: "conn_flush current later io (w_conn w s) = Ret (packets, c) \<Longrightarrow>
     \<forall>i. nonce_for (k_writer (w_conn w s)) (fst (io i)) \<Longrightarrow>
     kcp_step w (w\<lparr>w_conn := (w_conn w)(s := c),
       w_net := (w_net w)(peer s := w_net w (peer s) \<union> set packets)\<rparr>)"

text \<open>The start: two new connections whose readers understand each other, with an MTU that fits a
  datagram.\<close>

definition kcp_start :: "kworld \<Rightarrow> bool" where
  "kcp_start w \<longleftrightarrow> (\<forall>s. w_net w s = {} \<and> w_written w s = [] \<and> w_got w s = [] \<and>
     (\<exists>conv wr cfg. newConn conv wr cfg = Ret (w_conn w s) \<and> cfg_mtu cfg < 65536 \<and> secure wr \<and>
        reads_from (w_reader w (peer s)) wr))"

section \<open>The invariant\<close>

definition sender_ok :: "byte list list \<Rightarrow> (32 word \<Rightarrow> bool) \<Rightarrow> conn \<Rightarrow> bool" where
  "sender_ok W got c \<longleftrightarrow> k_sendNext c = word_of_nat (length W) \<and>
     (\<forall>(n, p) \<in> window_keys c. wf_data W n p) \<and>
     sorted_wrt (<) (map d_number (k_sendWindow c)) \<and>
     (open_state c \<longrightarrow> (\<forall>k < length W. got (word_of_nat k) \<or> word_of_nat k \<in> fst ` window_keys c))"

definition carries :: "byte list list \<Rightarrow> conn \<Rightarrow> segment \<Rightarrow> bool" where
  "carries W c seg \<longleftrightarrow> acks_only (received c) seg \<and>
     (case seg of DataSeg s \<Rightarrow> wf_data W (d_number s) (d_payload s) | _ \<Rightarrow> True)"

definition packets_ok :: "kworld \<Rightarrow> side \<Rightarrow> bool" where
  "packets_ok w s \<longleftrightarrow> (\<forall>p \<in> w_net w (peer s). \<exists>seg. packet_read (w_reader w (peer s)) p = Ret [seg] \<and>
     carries (w_written w s) (w_conn w s) seg)"

text \<open>The link from \<open>s\<close> to its peer.\<close>

definition link :: "kworld \<Rightarrow> side \<Rightarrow> bool" where
  "link w s \<longleftrightarrow>
     k_mss (w_conn w s) + 18 < 65536 \<and> recv_flight (k_cfg (w_conn w s)) \<noteq> 0 \<and> secure (k_writer (w_conn w s)) \<and>
     reads_from (w_reader w (peer s)) (k_writer (w_conn w s)) \<and>
     (\<forall>p \<in> set (w_written w s). length p \<le> k_mss (w_conn w s)) \<and>
     sender_ok (w_written w s) (received (w_conn w (peer s))) (w_conn w s) \<and>
     recv_inv (w_written w s) (w_got w (peer s)) (w_conn w (peer s)) \<and>
     packets_ok w s"

lemma acks_only_more: "receives_more c c' \<Longrightarrow> acks_only (received c) seg \<Longrightarrow> acks_only (received c') seg"
  by (cases seg) (auto simp: receives_more_def)

lemma carries_more: "receives_more c c' \<Longrightarrow> carries W c seg \<Longrightarrow> carries (W @ V) c' seg"
  by (cases seg) (auto simp: carries_def acks_only_more wf_data_append receives_more_def)

lemma sender_ok_more: "sender_ok W got c \<Longrightarrow> (\<And>n. got n \<Longrightarrow> got' n) \<Longrightarrow> sender_ok W got' c"
  by (auto simp: sender_ok_def)

lemma sorted_wrt_subseq: "subseq xs ys \<Longrightarrow> sorted_wrt P ys \<Longrightarrow> sorted_wrt P xs"
  by (induction rule: list_emb.induct) (auto dest: list_emb_set)

lemma sender_ok_harmless:
  assumes "sender_ok W got c" "harmless got c c'"
  shows "sender_ok W got c'"
  unfolding sender_ok_def
proof (intro conjI impI allI)
  show "k_sendNext c' = word_of_nat (length W)" "\<forall>(n, p) \<in> window_keys c'. wf_data W n p"
    using assms by (auto simp: sender_ok_def harmless_def)
  have "subseq (map d_number (k_sendWindow c')) (map d_number (k_sendWindow c))"
    using assms(2) subseq_map[of "keys_list c'" "keys_list c" fst]
    by (simp add: harmless_def comp_def)
  then show "sorted_wrt (<) (map d_number (k_sendWindow c'))"
    using assms(1) sorted_wrt_subseq by (auto simp: sender_ok_def)
  fix k assume o: "open_state c'" and k: "k < length W"
  then have "open_state c" using assms(2) by (auto simp: harmless_def)
  with assms(1) k have "got (word_of_nat k) \<or> word_of_nat k \<in> fst ` window_keys c"
    by (auto simp: sender_ok_def)
  then show "got (word_of_nat k) \<or> word_of_nat k \<in> fst ` window_keys c'"
  proof
    assume "word_of_nat k \<in> fst ` window_keys c"
    then obtain p where p: "(word_of_nat k, p) \<in> window_keys c" by auto
    have "\<forall>k \<in> window_keys c - window_keys c'. got (fst k)"
      using assms(2) o by (simp add: harmless_def)
    with p show ?thesis by (cases "(word_of_nat k, p) \<in> window_keys c'") force+
  qed simp
qed

lemma sender_ok_same: "same_sender c c' \<Longrightarrow> sender_ok W got c \<Longrightarrow> sender_ok W got c'"
  by (simp add: sender_ok_def same_sender_def window_keys_def open_state_def)

lemma recv_harmless:
  assumes "harmless got c c'"
  shows "recv_inv W G c \<Longrightarrow> recv_inv W G c'" "receives_more c c'" "received c' = received c"
  using recv_parts_cong[of c' c] assms by (auto simp: harmless_def)

text \<open>What a step keeps, and that a side never forgets what it has received.\<close>

definition linked :: "kworld \<Rightarrow> kworld \<Rightarrow> side \<Rightarrow> bool" where
  "linked w w' x \<longleftrightarrow> link w' x \<and> receives_more (w_conn w x) (w_conn w' x) \<and>
     evolves (w_conn w x) (w_conn w' x) \<and> w_reader w' = w_reader w"

text \<open>A step of one side keeps both links.\<close>

lemma link_update:
  assumes "\<forall>x. link w x" and ev: "evolves (w_conn w s) c'"
    and sd: "sender_ok (w_written w s @ V) (received (w_conn w (peer s))) c'"
    and V: "\<forall>p \<in> set V. length p \<le> k_mss (w_conn w s)"
    and rc: "recv_inv (w_written w (peer s)) G c'" and mr: "receives_more (w_conn w s) c'"
    and P: "\<forall>p \<in> P. \<exists>seg. packet_read (w_reader w (peer s)) p = Ret [seg] \<and>
              carries (w_written w s @ V) c' seg"
  shows "linked w (w\<lparr>w_conn := (w_conn w)(s := c'), w_written := (w_written w)(s := w_written w s @ V),
      w_got := (w_got w)(s := G), w_net := (w_net w)(peer s := w_net w (peer s) \<union> P)\<rparr>) x"
proof -
  let ?w = "w\<lparr>w_conn := (w_conn w)(s := c'), w_written := (w_written w)(s := w_written w s @ V),
      w_got := (w_got w)(s := G), w_net := (w_net w)(peer s := w_net w (peer s) \<union> P)\<rparr>"
  have s: "link w s" and p: "link w (peer s)" using assms(1) by blast+
  have e: "k_mss c' = k_mss (w_conn w s)" "k_cfg c' = k_cfg (w_conn w s)" "wire_alike (k_writer (w_conn w s)) (k_writer c')"
    using ev by (simp_all add: evolves_def)
  have "packets_ok ?w s"
    using s P carries_more[OF mr] by (auto simp: link_def packets_ok_def)
  moreover have "packets_ok ?w (peer s)"
    using p by (simp add: link_def packets_ok_def)
  moreover have "recv_inv (w_written w s @ V) (w_got w (peer s)) (w_conn w (peer s))"
    using s unfolding link_def recv_inv_def recv_parts_def
    by (auto intro: wf_data_append)
  moreover have "sender_ok (w_written w (peer s)) (received c') (w_conn w (peer s))"
    using p mr by (auto simp: link_def receives_more_def elim: sender_ok_more)
  ultimately have "link ?w s" "link ?w (peer s)"
    using s p sd V rc e by (auto simp: link_def wire_alike_secure wire_alike_reads)
  then show ?thesis using mr ev by (cases "x = s") (auto simp: linked_def)
qed

section \<open>The invariant is kept\<close>

abbreviation bounded :: "kworld \<Rightarrow> bool" where
  "bounded w \<equiv> \<forall>s. length (w_written w s) < 4294967296"

text \<open>A segment that arrives.\<close>

lemma Input_segment:
  assumes S: "sender_ok W got c" and R: "recv_inv V G c" and len: "length V < 4294967296"
    and seg: "carries V b seg" "received b = got"
  shows "sender_ok W got (conn_Input current later [seg] c) \<and>
    recv_inv V G (conn_Input current later [seg] c) \<and>
    receives_more c (conn_Input current later [seg] c)"
proof -
  define c0 where "c0 = c\<lparr>k_lastIncoming := current\<rparr>"
  have "untouched c c0" by (simp add: c0_def untouched_def window_keys_def open_state_def)
  then have h0: "harmless got c c0" by (rule untouched_harmless)
  have i0: "sender_ok W got c0" "recv_inv V G c0" "receives_more c c0"
    using sender_ok_harmless[OF S h0] recv_harmless[OF h0] R by blast+
  obtain wake ended d where l: "input_loop current later [seg] False False c0 = (wake, ended, d)"
    by (cases "input_loop current later [seg] False False c0")
  have acks: "acks_only got seg" using seg by (simp add: carries_def)
  have d: "sender_ok W got d \<and> recv_inv V G d \<and> receives_more c d"
  proof (cases "conversation seg = k_conv c0")
    case False
    with l i0 show ?thesis by simp
  next
    case True
    show ?thesis
    proof (cases seg)
      case (DataSeg s)
      with seg(1) have "wf_data V (d_number s) (d_payload s)" by (simp add: carries_def)
      from input_data_inv[OF i0(2) this len, where later = later and got = got] obtain e where
        e: "harmless got c0 e" "same_sender e (input_data later s c0)"
          "recv_inv V G (input_data later s c0)" "receives_more c0 (input_data later s c0)"
        by metis
      moreover have "d = input_data later s c0" using l True DataSeg by simp
      ultimately show ?thesis
        using sender_ok_same[OF e(2) sender_ok_harmless[OF i0(1) e(1)]] i0(3) receives_more_trans
        by blast
    next
      case (AckSeg a)
      then have "harmless got c0 d"
        using l True harmless_input_ack[of got a c0 current later] acks by (auto split: prod.splits)
      then show ?thesis
        using i0 sender_ok_harmless recv_harmless receives_more_trans by blast
    next
      case (CmdSeg a)
      then have "harmless got c0 d"
        using l True harmless_input_cmd[of got a c0 current later] acks by (auto split: prod.splits)
      then show ?thesis
        using i0 sender_ok_harmless recv_harmless receives_more_trans by blast
    qed
  qed
  have "harmless got d (if ended then terminate later (if wake then wakeFlush d else d)
      else if wake then wakeFlush d else d)" (is "harmless got d ?e")
    by (auto intro!: harmless_trans[OF _ harmless_terminate] untouched_after)
  then have "sender_ok W got ?e \<and> recv_inv V G ?e \<and> receives_more c ?e"
    using d sender_ok_harmless recv_harmless receives_more_trans by blast
  moreover have "conn_Input current later [seg] c = (if k_state c = StateTerminated then c else ?e)"
    using l by (simp add: conn_Input_def c0_def Let_def)
  ultimately show ?thesis using S R by simp
qed

text \<open>The packets of a flush.\<close>

lemma flush_packet_read:
  assumes w: "wire_alike wr wr'" "packet_of io wr' s p" "\<forall>i. nonce_for wr (fst (io i))" "secure wr"
      "reads_from r wr"
    and c: "sent_of c s" "sender_ok W got c" "\<forall>p \<in> set W. length p + 18 < 65536" "recv_inv V G c"
  shows "packet_read r p = Ret [on_wire s]" "carries W c (on_wire s)"
proof -
  have fits: "wire_ok s \<and> byteSize s < 65536 \<and> carries W c (on_wire s)"
  proof (cases s)
    case (DataSeg d)
    with c(1,2) have "wf_data W (d_number d) (d_payload d)" by (auto simp: sender_ok_def)
    moreover from this c(3) have "length (d_payload d) + 18 < 65536"
      by (simp add: wf_data_def)
    ultimately show ?thesis using DataSeg by (simp add: carries_def dataSegmentOverhead_def)
  next
    case (AckSeg a)
    with c(1,4) show ?thesis
      by (auto simp: carries_def ack_of_def received_def[of c] recv_inv_def recv_parts_def)
  next
    case (CmdSeg m)
    with c(1) show ?thesis by (auto simp: carries_def received_def command_defs)
  qed
  from w(2) obtain v i v' where v: "wire_alike wr' v" "writeSegment v (fst (io i)) s = Ret (p, v')"
    by (auto simp: packet_of_def)
  have a: "wire_alike wr v" using w(1) v(1) by (rule wire_alike_trans)
  have "reads_from r v" "secure v" "nonce_for v (fst (io i))"
    using w a by (simp_all add: wire_alike_secure wire_alike_nonce wire_alike_reads)
  from written_packet_read[OF this] fits v(2) show "packet_read r p = Ret [on_wire s]" by fastforce
  from fits show "carries W c (on_wire s)" by simp
qed

lemma flush_packet:
  assumes w: "wire_alike wr wr'" "packet_of io wr' s p" "\<forall>i. nonce_for wr (fst (io i))" "secure wr"
      "reads_from r wr"
    and c: "sent_of c s" "sender_ok W got c" "\<forall>p \<in> set W. length p + 18 < 65536"
      "recv_inv V G c" "receives_more c c'"
  shows "\<exists>seg. packet_read r p = Ret [seg] \<and> carries W c' seg"
  using flush_packet_read[OF w c(1-4)] carries_more[OF c(5), of W "on_wire s" "[]"] by auto

lemma link_same:
  assumes "\<forall>x. link w x" "evolves (w_conn w s) c'"
    and "harmless (received (w_conn w (peer s))) (w_conn w s) c'"
  shows "linked w (w\<lparr>w_conn := (w_conn w)(s := c')\<rparr>) x"
proof -
  have s: "link w s" and p: "link w (peer s)" using assms(1) by blast+
  have "sender_ok (w_written w s @ []) (received (w_conn w (peer s))) c'"
    using s sender_ok_harmless[OF _ assms(3)] by (simp add: link_def)
  moreover have "recv_inv (w_written w (peer s)) (w_got w s) c'" "receives_more (w_conn w s) c'"
    using p recv_harmless[OF assms(3)] by (simp_all add: link_def)
  ultimately show ?thesis
    using link_update[OF assms(1,2), of "[]" "w_got w s" "{}"] by (simp add: fun_upd_idem)
qed

lemma harmless_Close: "harmless got c (snd (conn_Close later c))"
proof -
  have "harmless got c (setState s later c)" if "phase (k_state c) < phase s" for s
    by (rule harmless_setState[OF that])
  then show ?thesis
    by (auto simp: conn_Close_def split: connState.split
        intro!: untouched_after harmless_trans[OF _ harmless_terminate])
qed

lemma harmless_deadlines:
  "harmless got c (snd (SetReadDeadline t c))" "harmless got c (snd (SetWriteDeadline t c))"
  by (auto simp: SetReadDeadline_def SetWriteDeadline_def signalRead_def signalWrite_def harmless_def
      window_keys_def open_state_def ack_numbers_def)

lemma sender_ok_write:
  assumes "write_payload p c = (WriteTaken, c')" "sender_ok W got c" "length (W @ [p]) < 4294967296"
  shows "sender_ok (W @ [p]) got c'"
proof -
  have n: "unat (word_of_nat (length W) :: 32 word) = length W"
    using assms(3) by (simp add: unsigned_of_nat take_bit_nat_eq_self_iff)
  have c': "k_sendNext c' = k_sendNext c + 1"
      "window_keys c' = insert (k_sendNext c, p) (window_keys c)" "open_state c' = open_state c"
    using assms(1)
    by (auto simp: write_payload_def signalWrite_def wakeFlush_def window_keys_def open_state_def
        split: if_splits)
  have k: "k_sendNext c = word_of_nat (length W)" using assms(2) by (simp add: sender_ok_def)
  have "d_number x < k_sendNext c" if "x \<in> set (k_sendWindow c)" for x
  proof -
    have "wf_data W (d_number x) (d_payload x)"
      using assms(2) that by (force simp: sender_ok_def window_keys_def)
    then show ?thesis by (simp add: wf_data_def word_less_nat_alt k n)
  qed
  then have "sorted_wrt (<) (map d_number (k_sendWindow c'))"
    using assms(1,2)
    by (auto simp: write_payload_def signalWrite_def wakeFlush_def sender_ok_def sorted_wrt_append
        split: if_splits)
  with assms(2) k n show ?thesis
    by (auto simp: sender_ok_def c' less_Suc_eq wf_data_append wf_data_def[of "W @ [p]"]
        wf_data_def[of W] nth_append add.commute)
qed

lemma step_links:
  assumes "kcp_step w w'" "\<forall>x. link w x" "bounded w'"
  shows "\<forall>x. linked w w' x"
  using assms
proof (cases rule: kcp_step.cases)
  case (kcp_Write p s c)
  have s: "link w s" and q: "link w (peer s)" using assms(2) by blast+
  have len: "length (w_written w s @ [p]) < 4294967296"
    using spec[OF assms(3), of s] kcp_Write(1) by simp
  have "sender_ok (w_written w s @ [p]) (received (w_conn w (peer s))) c"
    using sender_ok_write[OF kcp_Write(2) _ len] s by (simp add: link_def)
  moreover have "recv_inv (w_written w (peer s)) (w_got w s) c \<and> receives_more (w_conn w s) c"
    using q recv_parts_cong[of c "w_conn w s"] kcp_Write(2)
    by (auto simp: link_def write_payload_def signalWrite_def wakeFlush_def ack_numbers_def
        split: if_splits)
  ultimately show ?thesis
    using link_update[OF assms(2), of s c "[p]" "w_got w s" "{}"]
      evolves_write_payload[of "w_conn w s" p] kcp_Write
    by (simp add: fun_upd_idem)
next
  case (kcp_Read n s bs c)
  have s: "link w s" and q: "link w (peer s)" using assms(2) by blast+
  have c: "c = wakeFlush ((w_conn w s)\<lparr>k_readBuf := drop n (k_readBuf (w_conn w s))\<rparr>)"
    and bs: "bs = take n (k_readBuf (w_conn w s))"
    using kcp_Read(2) by (auto simp: conn_Read_def split: if_splits)
  have "same_sender (w_conn w s) c" by (simp add: c same_sender_def wakeFlush_def)
  then have "sender_ok (w_written w s @ []) (received (w_conn w (peer s))) c"
    using s sender_ok_same by (simp add: link_def)
  moreover have "recv_inv (w_written w (peer s)) (w_got w s @ bs) c \<and> receives_more (w_conn w s) c"
    using q by (auto simp: link_def recv_inv_def recv_parts_def c bs wakeFlush_def ack_numbers_def
        received_def receives_more_def)
  ultimately show ?thesis
    using link_update[OF assms(2), of s c "[]" "w_got w s @ bs" "{}"]
      evolves_Read[of "w_conn w s" n] kcp_Read
    by (simp add: fun_upd_idem)
next
  case (kcp_Close s later)
  then show ?thesis using link_same[OF assms(2) evolves_Close harmless_Close] by simp
next
  case (kcp_ReadDeadline s t)
  then show ?thesis using link_same[OF assms(2) evolves_deadlines(1) harmless_deadlines(1)] by simp
next
  case (kcp_WriteDeadline s t)
  then show ?thesis using link_same[OF assms(2) evolves_deadlines(2) harmless_deadlines(2)] by simp
next
  case (kcp_terminate s later)
  then show ?thesis using link_same[OF assms(2) evolves_terminate harmless_terminate] by simp
next
  case (kcp_Input p s segs current later)
  have s: "link w s" and q: "link w (peer s)" using assms(2) by blast+
  have "\<exists>seg. packet_read (w_reader w s) p = Ret [seg] \<and>
      carries (w_written w (peer s)) (w_conn w (peer s)) seg"
    using q kcp_Input(2) by (simp add: link_def packets_ok_def)
  then obtain seg where seg: "segs = [seg]"
      "carries (w_written w (peer s)) (w_conn w (peer s)) seg"
    using kcp_Input(3) by auto
  have len: "length (w_written w (peer s)) < 4294967296"
    using spec[OF assms(3), of "peer s"] kcp_Input(1) by simp
  let ?c = "conn_Input current later segs (w_conn w s)"
  have "sender_ok (w_written w s @ []) (received (w_conn w (peer s))) ?c \<and>
      recv_inv (w_written w (peer s)) (w_got w s) ?c \<and> receives_more (w_conn w s) ?c"
    using Input_segment[OF _ _ len seg(2) refl, of "w_written w s" "w_conn w s" "w_got w s"] s q
    unfolding seg(1) link_def by simp
  then show ?thesis
    using link_update[OF assms(2) evolves_Input, of s "[]" current later segs "w_got w s" "{}"] kcp_Input
    by (simp add: fun_upd_idem)
next
  case (kcp_flush current later io s packets c)
  have s: "link w s" and q: "link w (peer s)" using assms(2) by blast+
  let ?c = "w_conn w s" and ?got = "received (w_conn w (peer s))"
  obtain segs ended d wr where l: "flush_locked current later ?c = (segs, ended, d)"
    and c: "c = (if ended then terminate later (d\<lparr>k_writer := wr\<rparr>) else d\<lparr>k_writer := wr\<rparr>)"
    and p: "\<forall>p \<in> set packets. \<exists>s \<in> set segs. packet_of io (k_writer d) s p"
    using kcp_flush(2) by (rule flush_parts)
  have "untouched d (d\<lparr>k_writer := wr\<rparr>)"
    by (simp add: untouched_def window_keys_def open_state_def)
  then have "harmless ?got ?c (d\<lparr>k_writer := wr\<rparr>)"
    using flush_locked_spec(2)[OF l] harmless_untouched by blast
  then have h: "harmless ?got ?c c"
    by (auto simp: c intro: harmless_trans[OF _ harmless_terminate])
  have so: "sender_ok (w_written w s) ?got ?c" using s by (simp add: link_def)
  have ri: "recv_inv (w_written w (peer s)) (w_got w s) ?c" using q by (simp add: link_def)
  have wd: "wire_alike (k_writer ?c) (k_writer d)"
    using evolves_flush_locked[of ?c current later] l by (simp add: evolves_def)
  have fits: "\<forall>p \<in> set (w_written w s). length p + 18 < 65536"
    using s by (fastforce simp: link_def)
  have P: "\<exists>seg. packet_read (w_reader w (peer s)) p' = Ret [seg] \<and>
      carries (w_written w s @ []) c seg" if p': "p' \<in> set packets" for p'
  proof -
    obtain sg where sg: "sg \<in> set segs" "packet_of io (k_writer d) sg p'" using p p' by blast
    have "sent_of ?c sg" using flush_locked_spec(1)[OF l] sg(1) by blast
    then show ?thesis
      using flush_packet[OF wd sg(2) kcp_flush(3) _ _ _ so fits ri recv_harmless(2)[OF h]] s
      by (simp add: link_def)
  qed
  have "sender_ok (w_written w s @ []) ?got c" using sender_ok_harmless[OF so h] by simp
  then show ?thesis
    using link_update[OF assms(2) evolves_flush[OF kcp_flush(2)], of "[]" "w_got w s" "set packets"]
      recv_harmless[OF h] ri P kcp_flush(1)
    by (simp add: fun_upd_idem)
qed

end
