(* ===== verification/KcpGuarantees.thy ===== *)
theory KcpGuarantees
  imports KcpStream
begin

text \<open>
  What two mKCP connections promise to the applications that use them: the stream arrives in order and
  unchanged, an empty send window means that everything has arrived, and the oldest segment gets
  through when its datagrams do.
\<close>

lemma step_written_longer: "kcp_step w w' \<Longrightarrow> length (w_written w s) \<le> length (w_written w' s)"
  by (induction rule: kcp_step.induct) auto

lemma written_grows:
  assumes "kcp_step\<^sup>*\<^sup>* w w'"
  obtains V where "w_written w' s = w_written w s @ V"
proof -
  have "prefix (w_written w s) (w_written w' s)"
    using assms
  proof (induction rule: rtranclp_induct)
    case (step v w')
    have "prefix (w_written v s) (w_written w' s)"
      using step.hyps(2) by (induction rule: kcp_step.induct) auto
    with step.IH show ?case by (rule prefix_order.trans)
  qed simp
  with that show thesis by (auto simp: prefix_def)
qed

lemma newConn_flight:
  assumes "newConn conv wr cfg = Ret c"
  shows "8 \<le> recv_flight cfg"
proof -
  have "1000 div cfg_tti cfg \<noteq> 0"
    using assms by (auto simp: newConn_def outcome_simps sendingInFlightSize_def in_flight_def
        split: if_splits)
  then show ?thesis
    by (simp add: recv_flight_def receivingInFlightSize_def in_flight_def Let_def not_less)
qed

lemma start_links: "kcp_start w \<Longrightarrow> \<forall>x. link w x"
proof
  fix s
  assume st: "kcp_start w"
  then have s: "\<exists>conv wr cfg. newConn conv wr cfg = Ret (w_conn w s) \<and> cfg_mtu cfg < 65536 \<and>
      secure wr \<and> reads_from (w_reader w (peer s)) wr"
    and p: "\<exists>conv wr cfg. newConn conv wr cfg = Ret (w_conn w (peer s))"
    unfolding kcp_start_def by blast+
  from s obtain conv wr cfg where
    n: "newConn conv wr cfg = Ret (w_conn w s)" "cfg_mtu cfg < 65536" "secure wr"
      "reads_from (w_reader w (peer s)) wr" by blast
  from p obtain conv' wr' cfg' where p: "newConn conv' wr' cfg' = Ret (w_conn w (peer s))" by blast
  have e: "w_net w (peer s) = {}" "w_written w s = []" "w_got w (peer s) = []"
    using st by (simp_all add: kcp_start_def)
  have "uint (cfg_mtu cfg) < 65536" using n(2) by (simp add: word_less_def)
  then have "k_mss (w_conn w s) + 18 < 65536"
    by (auto simp: newConn_fields[OF n(1)] conn_mss_def Let_def dataSegmentOverhead_def)
  moreover have "recv_flight (k_cfg (w_conn w s)) \<noteq> 0"
    using newConn_flight[OF n(1)] by (auto simp: newConn_fields[OF n(1)])
  ultimately show "link w s"
    using n(3,4) e newConn_fields[OF p] newConn_fields[OF n(1)]
    by (simp add: link_def sender_ok_def recv_inv_def recv_parts_def packets_ok_def window_keys_def
        ack_numbers_def)
qed

lemma reachable_links:
  assumes "kcp_step\<^sup>*\<^sup>* w0 w" "kcp_start w0" "bounded w"
  shows "\<forall>x. link w x"
  using assms
proof (induction rule: rtranclp_induct)
  case base
  then show ?case using start_links by blast
next
  case (step w w')
  have "bounded w" using step.prems(2) step_written_longer[OF step.hyps(2)] order.strict_trans1 by blast
  with step have "\<forall>x. linked w w' x" using step_links by blast
  then show ?case by (simp add: linked_def)
qed

lemma reachable_linked:
  assumes "kcp_step\<^sup>*\<^sup>* w w'" "\<forall>x. link w x" "bounded w'"
  shows "\<forall>x. linked w w' x"
  using assms
proof (induction rule: rtranclp_induct)
  case base
  then show ?case by (simp add: linked_def)
next
  case (step v w')
  have "bounded v" using step.prems(2) step_written_longer[OF step.hyps(2)] order.strict_trans1 by blast
  with step have v: "\<forall>x. linked w v x" by blast
  then have "\<forall>x. linked v w' x" using step_links step by (auto simp: linked_def)
  with v show ?case using receives_more_trans evolves_trans unfolding linked_def by metis
qed

text \<open>
  C1. The bytes that one application reads are a prefix of the bytes that the other has written, in
  their order, whatever the network drops, repeats or reorders and however the calls on both sides
  interleave, as long as fewer than \<open>2 ^ 32\<close> segments are written in each direction.
\<close>

theorem stream_in_order:
  assumes "kcp_step\<^sup>*\<^sup>* w0 w" "kcp_start w0" "\<forall>s. length (w_written w s) < 4294967296"
  shows "prefix (w_got w s) (concat (w_written w (peer s)))"
proof -
  have "link w (peer s)" using reachable_links[OF assms] by blast
  then have g: "w_got w s @ k_readBuf (w_conn w s) =
      concat (take (unat (k_recvNext (w_conn w s))) (w_written w (peer s)))"
    by (simp add: link_def recv_inv_def recv_parts_def)
  have "concat (w_written w (peer s)) = concat (take (unat (k_recvNext (w_conn w s))) (w_written w (peer s)))
      @ concat (drop (unat (k_recvNext (w_conn w s))) (w_written w (peer s)))"
    by (metis append_take_drop_id concat_append)
  with g show ?thesis by (metis append.assoc prefixI)
qed

text \<open>
  C2. When the send window of a connection is empty while it is active or ready to close, the other
  application has read, or finds in its read buffer, every byte that was written. This is the point at
  which a closing connection stops to wait: it never gives up data for the sake of closing before its
  time limit.
\<close>

theorem empty_window_all_arrived:
  assumes "kcp_step\<^sup>*\<^sup>* w0 w" "kcp_start w0" "\<forall>s. length (w_written w s) < 4294967296"
    and "k_state (w_conn w s) \<in> {StateActive, StateReadyToClose}" "k_sendWindow (w_conn w s) = []"
  shows "w_got w (peer s) @ k_readBuf (w_conn w (peer s)) = concat (w_written w s)"
proof -
  let ?R = "w_conn w (peer s)" and ?W = "w_written w s"
  have l: "link w s" using reachable_links[OF assms(1-3)] by blast
  have all: "received ?R (word_of_nat k)" if "k < length ?W" for k
    using l assms(4,5) that by (auto simp: link_def sender_ok_def open_state_def window_keys_def)
  have r: "unat (k_recvNext ?R) \<le> length ?W" "k_recvCache ?R (k_recvNext ?R) = None"
    using l by (simp_all add: link_def recv_inv_def recv_parts_def)
  have "\<not> unat (k_recvNext ?R) < length ?W"
  proof
    assume "unat (k_recvNext ?R) < length ?W"
    from all[OF this] r(2) show False by (simp add: received_def)
  qed
  with r(1) have "unat (k_recvNext ?R) = length ?W" by simp
  with l show ?thesis by (simp add: link_def recv_inv_def recv_parts_def)
qed

section \<open>Progress\<close>

lemma writeSegments_all:
  "writeSegments io i segs w = Ret (ps, w') \<Longrightarrow> \<forall>i. snd (io i) \<Longrightarrow> s \<in> set segs \<Longrightarrow>
     \<exists>p \<in> set ps. packet_of io w s p"
proof (induction segs arbitrary: i w ps)
  case (Cons x segs)
  have five: "(5 :: nat) = Suc 4" by simp
  have "write_attempts 5 io i x w =
      obind (writeSegment w (fst (io i)) x) (\<lambda>(p, v). Ret ([p], i + 1, v))"
    using Cons.prems(2) by (simp only: five write_attempts.simps) simp
  with Cons.prems(1) obtain p v qs where x: "writeSegment w (fst (io i)) x = Ret (p, v)"
    and r: "writeSegments io (i + 1) segs v = Ret (qs, w')" and ps: "ps = p # qs"
    by (auto simp: outcome_simps)
  show ?case
  proof (cases "s = x")
    case True
    with x ps show ?thesis by (auto simp: packet_of_def intro: wire_alike_refl)
  next
    case False
    with Cons.IH[OF r Cons.prems(2)] Cons.prems(3) obtain q where
      q: "q \<in> set qs" "packet_of io v s q" by auto
    then have "packet_of io w s q"
      using packet_of_alike writeSegment_alike[OF x] by blast
    with q ps show ?thesis by auto
  qed
qed simp

lemma flush_all:
  assumes "conn_flush t later io c = Ret (ps, c')" "\<forall>i. snd (io i)"
    and "s \<in> set (fst (flush_locked t later c))"
  shows "\<exists>wr p. wire_alike (k_writer c) wr \<and> p \<in> set ps \<and> packet_of io wr s p"
proof -
  obtain segs e d where l: "flush_locked t later c = (segs, e, d)"
    by (cases "flush_locked t later c") auto
  with assms(1) obtain wr where "writeSegments io 0 segs (k_writer d) = Ret (ps, wr)"
    by (auto simp: conn_flush_def Let_def outcome_simps)
  moreover have "wire_alike (k_writer c) (k_writer d)"
    using evolves_flush_locked[of c t later] l by (simp add: evolves_def)
  moreover have "s \<in> set segs" using assms(3) l by simp
  ultimately show ?thesis using writeSegments_all[of io 0 segs "k_writer d" ps wr s] assms(2) by blast
qed

text \<open>A segment of a flush reaches the other side as a packet.\<close>

lemma flush_reaches:
  assumes "\<forall>x. link w x" "conn_flush t later io (w_conn w s) = Ret (ps, c')"
    and "\<forall>i. nonce_for (k_writer (w_conn w s)) (fst (io i)) \<and> snd (io i)"
    and "seg \<in> set (fst (flush_locked t later (w_conn w s)))"
  shows "\<exists>p \<in> set ps. packet_read (w_reader w (peer s)) p = Ret [on_wire seg]"
    and "carries (w_written w s) (w_conn w s) (on_wire seg)"
proof -
  have s: "link w s" and q: "link w (peer s)" using assms(1) by blast+
  obtain wr p where d: "wire_alike (k_writer (w_conn w s)) wr" "p \<in> set ps"
      "packet_of io wr seg p"
    using flush_all[OF assms(2) _ assms(4)] assms(3) by blast
  obtain segs e d' where l: "flush_locked t later (w_conn w s) = (segs, e, d')"
    by (cases "flush_locked t later (w_conn w s)") auto
  have st: "sent_of (w_conn w s) seg" using flush_locked_spec(1)[OF l] assms(4) l by simp
  have fits: "\<forall>p \<in> set (w_written w s). length p + 18 < 65536" using s by (fastforce simp: link_def)
  have n: "\<forall>i. nonce_for (k_writer (w_conn w s)) (fst (io i))" using assms(3) by blast
  from s have so: "secure (k_writer (w_conn w s))"
      "reads_from (w_reader w (peer s)) (k_writer (w_conn w s))"
      "sender_ok (w_written w s) (received (w_conn w (peer s))) (w_conn w s)"
    by (simp_all add: link_def)
  have ri: "recv_inv (w_written w (peer s)) (w_got w s) (w_conn w s)" using q by (simp add: link_def)
  note c = flush_packet_read[OF d(1,3) n so(1,2) st so(3) fits ri]
  with d(2) show "\<exists>p \<in> set ps. packet_read (w_reader w (peer s)) p = Ret [on_wire seg]" by blast
  from c(2) show "carries (w_written w s) (w_conn w s) (on_wire seg)" .
qed

text \<open>Everything before the head of the window has been received.\<close>

lemma head_is_next:
  assumes "link w s" "open_state (w_conn w s)" "k_sendWindow (w_conn w s) = seg # segs"
    and "length (w_written w s) < 4294967296"
  shows "\<forall>n < d_number seg. received (w_conn w (peer s)) n"
proof (intro allI impI)
  fix n
  assume n: "n < d_number seg"
  have so: "sender_ok (w_written w s) (received (w_conn w (peer s))) (w_conn w s)"
    using assms(1) by (simp add: link_def)
  have "(d_number seg, d_payload seg) \<in> window_keys (w_conn w s)"
    by (simp add: window_keys_def assms(3))
  with so have "unat (d_number seg) < length (w_written w s)"
    unfolding sender_ok_def wf_data_def by fast
  with n have "unat n < length (w_written w s)" by (simp add: word_less_nat_alt)
  with so assms(2) have "received (w_conn w (peer s)) (word_of_nat (unat n)) \<or>
      word_of_nat (unat n) \<in> fst ` window_keys (w_conn w s)"
    unfolding sender_ok_def by blast
  moreover have "n \<notin> fst ` window_keys (w_conn w s)"
  proof
    assume "n \<in> fst ` window_keys (w_conn w s)"
    then have "n \<in> set (map d_number (k_sendWindow (w_conn w s)))" by (auto simp: window_keys_def)
    moreover have "sorted_wrt (<) (map d_number (k_sendWindow (w_conn w s)))"
      using so by (simp add: sender_ok_def)
    ultimately show False using n assms(3) by auto
  qed
  ultimately show "received (w_conn w (peer s)) n" by simp
qed

lemma received_all_below:
  assumes "recv_inv W G c" "\<forall>k < n. received c k"
  shows "n \<le> k_recvNext c"
proof (rule ccontr)
  assume "\<not> n \<le> k_recvNext c"
  then have "received c (k_recvNext c)" using assms(2) by simp
  with assms(1) show False by (simp add: received_def recv_inv_def)
qed

text \<open>A data segment whose number is due is taken.\<close>

lemma input_takes:
  assumes "recv_inv W G c" "wf_data W (d_number d) (d_payload d)" "length W < 4294967296"
    and "d_number d \<le> k_recvNext c" "recv_flight (k_cfg c) \<noteq> 0"
  shows "d_number d < k_recvNext (input_data later d c)"
proof -
  let ?e = "processSendingNext (d_sendingNext d) (handleOption (d_option d) later c)"
  have h: "harmless (\<lambda>_. True) c ?e"
    using harmless_handleOption harmless_processSendingNext harmless_trans by blast
  then have n: "k_recvNext ?e = k_recvNext c" by (simp add: harmless_def)
  have cfg: "k_cfg ?e = k_cfg c"
    using evolves_after(5) evolves_handleOption
    by (metis evolves_def evolves_trans quiet_evolves quiet_processSendingNext)
  have e: "recv_parts W G ?e" using recv_harmless(1)[OF h assms(1)] by (simp add: recv_inv_def)
  note st = store_data_inv[OF e assms(2)]
  note dl = deliver_inv[OF st(1) assms(3)]
  have eq: "input_data later d c = deliver (store_data d ?e)" by (rule input_data_alt)
  have le: "k_recvNext c \<le> k_recvNext (input_data later d c)"
    unfolding eq using st(2) dl(2) n by (auto simp: receives_more_def)
  show ?thesis
  proof (cases "d_number d = k_recvNext c")
    case True
    then have "received (store_data d ?e) (d_number d)"
      using n cfg assms(5) by (simp add: store_data_def received_def word_gt_0)
    then have "received (input_data later d c) (d_number d)"
      unfolding eq using dl(2) by (simp add: receives_more_def)
    moreover have "k_recvCache (input_data later d c) (k_recvNext (input_data later d c)) = None"
      using dl(1) unfolding eq by (simp add: recv_inv_def)
    ultimately show ?thesis using le True by (cases "d_number d = k_recvNext (input_data later d c)")
        (auto simp: received_def)
  next
    case False
    with assms(4) le show ?thesis by auto
  qed
qed

lemma flush_has_data:
  assumes "k_state c = StateActive" "t - k_lastIncoming c < 30000" "k_sendWindow c = seg # segs"
    and "t - d_timeout seg < 0x7fffffff"
  shows "DataSeg (stamp c t seg) \<in> set (fst (flush_locked t later c))"
proof -
  have "flush_idle t later c = c" "flush_late t later c = c"
    using assms(1,2) by (simp_all add: flush_idle_def flush_late_def not_le)
  moreover obtain sg g where g: "flush_segments t c = (sg, g)" by (cases "flush_segments t c")
  ultimately have "fst (flush_locked t later c) = sg"
    using assms(1) by (simp add: flush_locked_alt Let_def)
  with flush_segments_spec(7)[OF g] assms(3,4) show ?thesis by simp
qed

text \<open>
  C3. The oldest unacknowledged segment is never stuck, whatever the windows are: when it is due, a
  flush of an active connection sends it, even into an empty receive window, and as soon as one of its
  datagrams is delivered, now or after any further steps of both sides, the receiver has taken it and
  everything before it.
\<close>

theorem oldest_segment_gets_through:
  assumes "kcp_step\<^sup>*\<^sup>* w0 w" "kcp_start w0"
    and "k_state (w_conn w s) = StateActive" "t - k_lastIncoming (w_conn w s) < 30000"
    and "k_sendWindow (w_conn w s) = seg # segs" "t - d_timeout seg < 0x7fffffff"
    and "conn_flush t later io (w_conn w s) = Ret (ps, c')"
    and "\<forall>i. nonce_for (k_writer (w_conn w s)) (fst (io i)) \<and> snd (io i)"
    and "k_conv (w_conn w (peer s)) = k_conv (w_conn w s)" "\<forall>s. length (w_written w s) < 4294967296"
  shows "\<exists>p \<in> set ps. \<exists>x. packet_read (w_reader w (peer s)) p = Ret x \<and>
     (\<forall>w' t' later'. kcp_step\<^sup>*\<^sup>* w w' \<and> (\<forall>s. length (w_written w' s) < 4294967296) \<and>
        k_state (w_conn w' (peer s)) \<noteq> StateTerminated \<longrightarrow>
        d_number seg < k_recvNext (conn_Input t' later' x (w_conn w' (peer s))))"
proof -
  let ?d = "DataSeg (stamp (w_conn w s) t seg)"
  have links: "\<forall>x. link w x" using reachable_links[OF assms(1,2,10)] .
  have sent: "?d \<in> set (fst (flush_locked t later (w_conn w s)))"
    using flush_has_data assms(3-6) by blast
  obtain p where p: "p \<in> set ps" "packet_read (w_reader w (peer s)) p = Ret [on_wire ?d]"
    using flush_reaches(1)[OF links assms(7,8) sent] by blast
  obtain d where d: "on_wire ?d = DataSeg d" "d_number d = d_number seg" "d_conv d = k_conv (w_conn w s)"
    by (simp add: stamp_def)
  have wf: "wf_data (w_written w s) (d_number d) (d_payload d)"
    using flush_reaches(2)[OF links assms(7,8) sent] d(1) by (auto simp: carries_def)
  have below: "\<forall>n < d_number seg. received (w_conn w (peer s)) n"
    using head_is_next[of w s seg segs] links assms(3,5,10) by (simp add: open_state_def)
  have "d_number seg < k_recvNext (conn_Input t' later' [on_wire ?d] (w_conn w' (peer s)))"
    if w': "kcp_step\<^sup>*\<^sup>* w w'" "bounded w'" "k_state (w_conn w' (peer s)) \<noteq> StateTerminated"
    for w' t' later'
  proof -
    let ?R = "w_conn w' (peer s)"
    let ?S = "?R\<lparr>k_lastIncoming := t'\<rparr>"
    have l: "linked w w' s" "linked w w' (peer s)" using reachable_linked[OF w'(1) links w'(2)] by blast+
    have fl: "recv_flight (k_cfg ?R) \<noteq> 0" using l(2) unfolding linked_def link_def by blast
    have ri: "recv_inv (w_written w' s) (w_got w' (peer s)) ?R"
      using l(1) unfolding linked_def link_def by blast
    have more: "receives_more (w_conn w (peer s)) ?R" and cv: "k_conv ?R = k_conv (w_conn w s)"
      using l(2) assms(9) by (simp_all add: linked_def evolves_def)
    have ri0: "recv_inv (w_written w' s) (w_got w' (peer s)) ?S"
      using recv_parts_cong(2)[of ?S ?R] ri by (simp add: ack_numbers_def)
    have "d_number d \<le> k_recvNext ?S"
      using received_all_below[OF ri] below more d(2) by (simp add: receives_more_def)
    moreover have "wf_data (w_written w' s) (d_number d) (d_payload d)"
      using written_grows[OF w'(1), of s] wf wf_data_append by metis
    ultimately have "d_number d < k_recvNext (input_data later' d ?S)"
      using input_takes[OF ri0] w'(2) fl by simp
    then show ?thesis
      using w'(3) cv d by (simp add: conn_Input_def Let_def wakeFlush_def)
  qed
  with p show ?thesis by blast
qed

text \<open>Every flush later than three seconds after the last ping tells the peer how far this side is.\<close>

lemma flushSend_ping:
  "flushSend t c = (segs, c') \<Longrightarrow> k_lastPing c' = k_lastPing c \<or> (\<exists>m. CmdSeg m \<in> set segs)"
proof (cases "k_sendWindow c = []")
  case False
  assume f: "flushSend t c = (segs, c')"
  have "k_lastPing (onPacketLoss r d) = k_lastPing d" for r d
    by (simp add: onPacketLoss_def Let_def)
  with f False show ?thesis
    by (auto simp: flushSend_def Let_def split: prod.splits if_splits)
qed (auto simp: flushSend_def pingSegment_def split: if_splits)

lemma flush_segments_ping:
  assumes "flush_segments t c = (segs, c')" "3000 \<le> t - k_lastPing c"
  shows "\<exists>m. CmdSeg m \<in> set segs"
proof -
  obtain a d where a: "flushAcks t c = (a, d)" by (cases "flushAcks t c")
  obtain b e where b: "flushSend t d = (b, e)" by (cases "flushSend t d")
  have "k_lastPing d = k_lastPing c"
    using a by (auto simp: flushAcks_def Let_def split: prod.splits if_splits)
  then have "k_lastPing e = k_lastPing c \<or> (\<exists>m. CmdSeg m \<in> set b)" using flushSend_ping[OF b] by simp
  moreover have "segs = a @ b @ (if 3000 \<le> t - k_lastPing e
      then [fst (pingSegment commandPing t e)] else [])"
    using assms(1) by (auto simp: flush_segments_def a b Let_def pingSegment_def split: if_splits)
  moreover have "\<exists>m. fst (pingSegment commandPing t e) = CmdSeg m" by (simp add: pingSegment_def)
  ultimately show ?thesis
    using assms(2) by (cases "k_lastPing e = k_lastPing c") auto
qed

lemma flush_has_ping:
  assumes "k_state c \<noteq> StateTerminated" "3000 \<le> t - k_lastPing c"
  obtains m where "CmdSeg m \<in> set (fst (flush_locked t later c))"
proof -
  let ?e = "flush_late t later (flush_idle t later c)"
  have "k_lastPing ?e = k_lastPing c"
    by (simp add: flush_idle_def flush_late_def setState_def signalRead_def signalWrite_def Let_def)
  then obtain sg g m where "flush_segments t ?e = (sg, g)" "CmdSeg m \<in> set sg"
    using flush_segments_ping[of t ?e] assms(2) by (metis surj_pair)
  then have "\<exists>m. CmdSeg m \<in> set (fst (flush_locked t later c))"
    using assms(1) by (auto simp: flush_locked_alt pingSegment_def Let_def)
  with that show thesis by blast
qed

text \<open>What such a segment does to a send window.\<close>

lemma window_processReceivingNext:
  "window_keys (processReceivingNext next c) =
     {k \<in> window_keys c. \<not> fst k < next}"
  by (auto simp: processReceivingNext_def findFirstUnacked_def signalWrite_def window_keys_def Let_def)

lemma input_cmd_clears:
  assumes "k \<in> window_keys (snd (input_cmd current later m c))"
  shows "\<not> fst k < c_receivingNext m"
proof -
  obtain d t where "(t, d) = (let c = handleOption (c_option m) later c in
            if c_cmd m = commandTerminate then
               (case k_state c of
                  StateActive \<Rightarrow> (False, setState StatePeerTerminating later c)
                | StatePeerClosed \<Rightarrow> (False, setState StatePeerTerminating later c)
                | StateReadyToClose \<Rightarrow> (False, setState StateTerminating later c)
                | StateTerminating \<Rightarrow> (True, setState StateTerminated later c)
                | _ \<Rightarrow> (False, c))
             else (False, c))"
    by (metis surj_pair)
  note d = this[symmetric, unfolded Let_def]
  let ?p = "processReceivingNext (c_receivingNext m) d"
  let ?q = "updatePeerRTO (c_peerRTO m) current (processSendingNext (c_sendingNext m) ?p)"
  have q: "harmless (\<lambda>_. True) ?p ?q" "harmless (\<lambda>_. True) ?p (signalWrite (signalRead ?q))"
    by (intro untouched_after rtt_after harmless_processSendingNext)+
  have "snd (input_cmd current later m c) = ?q \<or>
      snd (input_cmd current later m c) = signalWrite (signalRead ?q)"
    by (simp add: input_cmd_def Let_def d)
  with q have "window_keys (snd (input_cmd current later m c)) \<subseteq> window_keys ?p"
    by (auto simp: harmless_def)
  with assms show ?thesis by (auto simp: window_processReceivingNext)
qed

lemma Input_cmd_clears:
  assumes "k_state c \<noteq> StateTerminated" "c_conv m = k_conv c"
    and "k \<in> window_keys (conn_Input current later [CmdSeg m] c)"
  shows "\<not> fst k < c_receivingNext m"
proof -
  let ?c = "c\<lparr>k_lastIncoming := current\<rparr>"
  obtain e d where d: "input_cmd current later m ?c = (e, d)" by (cases "input_cmd current later m ?c")
  have "conn_Input current later [CmdSeg m] c = (if e then terminate later d else d)"
    using assms(1,2) d by (simp add: conn_Input_def Let_def)
  moreover have "window_keys (terminate later d) \<subseteq> window_keys d"
    using harmless_terminate[of "\<lambda>_. True" d later] by (simp add: harmless_def)
  ultimately have "k \<in> window_keys (snd (input_cmd current later m ?c))"
    using assms(3) d by (auto split: if_splits)
  then show ?thesis by (rule input_cmd_clears)
qed

text \<open>
  C4. What a side has received leaves the window of its peer, even when every acknowledgement was
  lost: a flush later than three seconds after the last ping of a connection that is not terminated
  sends a segment that, whenever it is delivered, removes from the peer's window everything that this
  side had received in order at the time of the flush.
\<close>

theorem received_leaves_window:
  assumes "kcp_step\<^sup>*\<^sup>* w0 w" "kcp_start w0" "\<forall>s. length (w_written w s) < 4294967296"
    and "k_state (w_conn w s) \<noteq> StateTerminated" "3000 \<le> t - k_lastPing (w_conn w s)"
    and "conn_flush t later io (w_conn w s) = Ret (ps, c')"
    and "\<forall>i. nonce_for (k_writer (w_conn w s)) (fst (io i)) \<and> snd (io i)"
  shows "\<exists>p \<in> set ps. \<exists>x. packet_read (w_reader w (peer s)) p = Ret x \<and>
     (\<forall>c t' later' seg. k_conv c = k_conv (w_conn w s) \<and> k_state c \<noteq> StateTerminated \<and>
        seg \<in> set (k_sendWindow (conn_Input t' later' x c)) \<longrightarrow>
        \<not> d_number seg < k_recvNext (w_conn w s))"
proof -
  have links: "\<forall>x. link w x" using reachable_links[OF assms(1-3)] .
  obtain m where m: "CmdSeg m \<in> set (fst (flush_locked t later (w_conn w s)))"
    using flush_has_ping[OF assms(4,5)] by blast
  obtain p where p: "p \<in> set ps" "packet_read (w_reader w (peer s)) p = Ret [CmdSeg m]"
    using flush_reaches(1)[OF links assms(6,7) m] by auto
  obtain segs e d where l: "flush_locked t later (w_conn w s) = (segs, e, d)"
    by (cases "flush_locked t later (w_conn w s)") auto
  have "sent_of (w_conn w s) (CmdSeg m)" using flush_locked_spec(1)[OF l] m l by (metis fst_conv)
  then have f: "c_conv m = k_conv (w_conn w s)" "c_receivingNext m = k_recvNext (w_conn w s)" by simp_all
  have "\<not> d_number seg < k_recvNext (w_conn w s)"
    if "k_conv c = k_conv (w_conn w s)" "k_state c \<noteq> StateTerminated"
      "seg \<in> set (k_sendWindow (conn_Input t' later' [CmdSeg m] c))" for c t' later' seg
  proof -
    have "(d_number seg, d_payload seg) \<in> window_keys (conn_Input t' later' [CmdSeg m] c)"
      using that(3) by (auto simp: window_keys_def)
    from Input_cmd_clears[OF that(2) _ this] f that(1) show ?thesis by simp
  qed
  with p show ?thesis by blast
qed

end
