(* ===== verification/KcpExample.thy ===== *)
theory KcpExample
  imports KcpGuarantees
begin

text \<open>
  An exchange between two mKCP connections, step by step: the client writes three bytes, its flush sends
  them, the server takes the datagram and reads the bytes. The theorems on the stream are applied to
  the worlds on this way.
\<close>

definition plain_reader :: packetReader where
  "plain_reader = \<lparr>pr_security = None, pr_header = None\<rparr>"

definition example_world :: kworld where
  "example_world = \<lparr>w_conn = (\<lambda>_. example_conn), w_reader = (\<lambda>_. plain_reader), w_net = (\<lambda>_. {}),
     w_written = (\<lambda>_. []), w_got = (\<lambda>_. [])\<rparr>"

abbreviation always :: "nat \<Rightarrow> byte list \<times> bool" where
  "always \<equiv> \<lambda>_. ([], True)"

lemma example_start: "kcp_start example_world"
proof -
  have "cfg_mtu example_config = 1350" by (simp add: cfg_mtu_def example_config_def)
  moreover have "reads_from plain_reader plain_writer"
    by (simp add: reads_from_def plain_reader_def plain_writer_def)
  ultimately have "newConn 7 plain_writer example_config = Ret example_conn \<and>
      cfg_mtu example_config < 65536 \<and> secure plain_writer \<and> reads_from plain_reader plain_writer"
    using newConn_example by simp
  then show ?thesis unfolding kcp_start_def example_world_def by (simp only: kworld.simps) blast
qed

text \<open>The client writes three bytes.\<close>

definition example_written :: conn where
  "example_written = snd (write_payload [1, 2, 3] example_conn)"

definition written_world :: kworld where
  "written_world = example_world\<lparr>w_conn := (\<lambda>_. example_conn)(Client := example_written),
     w_written := (\<lambda>_. [])(Client := [[1, 2, 3]])\<rparr>"

lemma example_written:
  "write_payload [1, 2, 3] example_conn = (WriteTaken, example_written)"
  "k_state example_written = StateActive" "k_lastIncoming example_written = 0"
  "k_conv example_written = 7" "k_writer example_written = plain_writer"
  "k_sendWindow example_written = [\<lparr>d_conv = 0, d_option = 0, d_timestamp = 0, d_number = 0,
     d_sendingNext = 0, d_payload = [1, 2, 3], d_timeout = 0, d_transmit = 0\<rparr>]"
  by (simp_all add: example_written_def write_payload_def example_fields wakeFlush_def signalWrite_def
      sendingBufferSize_def)

lemma written_reached: "kcp_step example_world written_world"
  using kcp_Write[of "[1, 2, 3]" example_world Client example_written] example_written(1)
  by (simp add: example_world_def written_world_def example_mss)

lemma written_reached_star: "kcp_step\<^sup>*\<^sup>* example_world written_world"
  by (rule r_into_rtranclp) (rule written_reached)

lemma written_world_simps:
  "w_conn written_world Client = example_written" "w_conn written_world Server = example_conn"
  "w_written written_world Client = [[1, 2, 3]]" "w_written written_world Server = []"
  "w_reader written_world s = plain_reader" "w_got written_world s = []"
  by (simp_all add: written_world_def example_world_def)

lemma written_bounded: "\<forall>s. length (w_written written_world s) < 4294967296"
proof
  show "length (w_written written_world s) < 4294967296" for s
    by (cases s) (simp_all add: written_world_simps)
qed

lemma written_links: "\<forall>x. link written_world x"
  using reachable_links[OF _ example_start written_bounded] written_reached by blast

lemma example_flush:
  "\<exists>ps c. conn_flush t later always example_written = Ret (ps, c)"
  "\<forall>i. nonce_for (k_writer example_written) (fst (always i)) \<and> snd (always i)"
  using flush_ends[of example_written always t later] by (simp_all add: example_written)

text \<open>A flush of the client, whose datagram the server takes, and the server reads.\<close>

lemma example_taken:
  assumes "d_number d = 0" "d_conv d = 7" "d_payload d = [1, 2, 3]"
  shows "0 < k_recvNext (conn_Input 200 200 [DataSeg d] example_conn)"
proof -
  let ?c = "example_conn\<lparr>k_lastIncoming := 200\<rparr>"
  have "link written_world Client" using written_links by blast
  then have "recv_inv [[1, 2, 3]] [] example_conn" by (simp add: link_def written_world_simps)
  then have "recv_inv [[1, 2, 3]] [] ?c"
    using recv_parts_cong(2)[of ?c example_conn] by (simp add: ack_numbers_def)
  moreover have "recv_flight (k_cfg ?c) \<noteq> 0"
    using newConn_flight[OF newConn_example] by (auto simp: example_fields)
  ultimately have "d_number d < k_recvNext (input_data 200 d ?c)"
    using input_takes[of "[[1, 2, 3]]" "[]" ?c d 200] assms by (simp add: wf_data_def)
  then show ?thesis
    using assms by (simp add: conn_Input_def Let_def wakeFlush_def example_fields)
qed

lemma example_exchange:
  "\<exists>w. kcp_step\<^sup>*\<^sup>* example_world w \<and> (\<forall>s. length (w_written w s) < 4294967296) \<and>
     w_got w Server = [1, 2, 3] \<and> w_written w Client = [[1, 2, 3]]"
proof -
  obtain ps c where f: "conn_flush 100 100 always example_written = Ret (ps, c)"
    using example_flush(1) by blast
  let ?seg = "hd (k_sendWindow example_written)"
  let ?d = "DataSeg (stamp example_written 100 ?seg)"
  have "?d \<in> set (fst (flush_locked 100 100 example_written))"
    by (rule flush_has_data) (simp_all add: example_written)
  then obtain p where p: "p \<in> set ps" "packet_read plain_reader p = Ret [on_wire ?d]"
    using flush_reaches(1)[OF written_links, of 100 100 always Client ps c ?d] f example_flush(2)
    by (auto simp: written_world_simps)
  define w2 where "w2 = written_world\<lparr>w_conn := (w_conn written_world)(Client := c),
    w_net := (w_net written_world)(Server := w_net written_world Server \<union> set ps)\<rparr>"
  have 2: "kcp_step written_world w2"
    using kcp_flush[of 100 100 always written_world Client ps c] f example_flush(2)
    by (simp add: w2_def written_world_simps)
  define c3 where "c3 = conn_Input 200 200 [on_wire ?d] example_conn"
  define w3 where "w3 = w2\<lparr>w_conn := (w_conn w2)(Server := c3)\<rparr>"
  have w2: "w_conn w2 Server = example_conn" "p \<in> w_net w2 Server" "w_reader w2 Server = plain_reader"
    using p(1) by (simp_all add: w2_def written_world_simps)
  have 3: "kcp_step w2 w3"
    using kcp_Input[of p w2 Server "[on_wire ?d]" 200 200] p(2) w2 by (simp add: w3_def c3_def)
  have r3: "kcp_step\<^sup>*\<^sup>* example_world w3" using written_reached 2 3 by auto
  have b3: "\<forall>s. length (w_written w3 s) < 4294967296"
    using written_bounded by (simp add: w3_def w2_def)
  have 0: "0 < k_recvNext c3"
    unfolding c3_def on_wire.simps by (rule example_taken) (simp_all add: stamp_def example_written)
  have "link w3 Client" using reachable_links[OF r3 example_start b3] by blast
  then have l: "unat (k_recvNext c3) \<le> 1" "k_readBuf c3 = concat (take (unat (k_recvNext c3)) [[1, 2, 3]])"
    by (simp_all add: link_def recv_inv_def recv_parts_def w3_def w2_def written_world_simps)
  moreover have "unat (k_recvNext c3) \<noteq> 0" using 0 by (simp add: unat_eq_0 word_gt_0)
  ultimately have "unat (k_recvNext c3) = 1" by linarith
  with l(2) have buf: "k_readBuf c3 = [1, 2, 3]" by simp
  then obtain c4 where c4: "conn_Read 10 c3 = (ReadBytes [1, 2, 3], c4)"
    by (simp add: conn_Read_def)
  define w4 where "w4 = w3\<lparr>w_conn := (w_conn w3)(Server := c4),
    w_got := (w_got w3)(Server := w_got w3 Server @ [1, 2, 3])\<rparr>"
  have "kcp_step w3 w4"
    using kcp_Read[of 10 w3 Server "[1, 2, 3]" c4] c4 by (simp add: w4_def w3_def)
  moreover have "w_got w4 Server = [1, 2, 3]" "w_written w4 = w_written w3"
    by (simp_all add: w4_def w3_def w2_def written_world_simps)
  moreover have "w_written w3 Client = [[1, 2, 3]]" by (simp add: w3_def w2_def written_world_simps)
  ultimately show ?thesis using r3 b3 by (metis rtranclp.rtrancl_into_rtrancl)
qed

section \<open>Applications\<close>

theorem stream_in_order_witness:
  "\<exists>w :: kworld. w_got w Server = [1, 2, 3] \<and> prefix (w_got w Server) (concat (w_written w Client))"
proof -
  obtain w where w: "kcp_step\<^sup>*\<^sup>* example_world w" "\<forall>s. length (w_written w s) < 4294967296"
    "w_got w Server = [1, 2, 3]" using example_exchange by blast
  have "prefix (w_got w Server) (concat (w_written w (peer Server)))"
    by (rule stream_in_order[OF w(1) example_start w(2)])
  with w(3) show ?thesis unfolding peer.simps by blast
qed

theorem empty_window_all_arrived_witness:
  "w_got written_world Client @ k_readBuf (w_conn written_world Client) =
     concat (w_written written_world Server)"
  using empty_window_all_arrived[OF written_reached_star example_start written_bounded,
      of Server]
  by (simp add: written_world_simps example_fields)

theorem oldest_segment_gets_through_witness:
  "\<exists>ps c p x. conn_flush 100 100 always example_written = Ret (ps, c) \<and> p \<in> set ps \<and>
     packet_read plain_reader p = Ret x \<and> 0 < k_recvNext (conn_Input 200 200 x example_conn)"
proof -
  obtain ps c where f: "conn_flush 100 100 always example_written = Ret (ps, c)"
    using example_flush(1) by blast
  have "k_conv (w_conn written_world (peer Client)) = k_conv (w_conn written_world Client)"
    by (simp add: written_world_simps example_written example_fields)
  from oldest_segment_gets_through[OF written_reached_star example_start,
      of Client 100 _ "[]" 100 always ps c] f this written_bounded
  have "\<exists>p \<in> set ps. \<exists>x. packet_read plain_reader p = Ret x \<and>
     (\<forall>w' t' later'. kcp_step\<^sup>*\<^sup>* written_world w' \<and> (\<forall>s. length (w_written w' s) < 4294967296) \<and>
        k_state (w_conn w' Server) \<noteq> StateTerminated \<longrightarrow>
        0 < k_recvNext (conn_Input t' later' x (w_conn w' Server)))"
    by (simp add: written_world_simps example_written)
  then obtain p x where "p \<in> set ps" "packet_read plain_reader p = Ret x"
    "0 < k_recvNext (conn_Input 200 200 x (w_conn written_world Server))"
    using written_bounded by (auto simp: written_world_simps example_fields)
  with f show ?thesis by (auto simp: written_world_simps)
qed

theorem received_leaves_window_witness:
  "\<exists>ps c. conn_flush 5000 5000 always example_written = Ret (ps, c) \<and>
     (\<exists>p \<in> set ps. \<exists>x. packet_read plain_reader p = Ret x)"
proof -
  obtain ps c where f: "conn_flush 5000 5000 always example_written = Ret (ps, c)"
    using example_flush(1) by blast
  have "k_lastPing c = 0" if "newConn conv wr cfg = Ret c" for conv wr cfg c
    using that by (auto simp: newConn_def outcome_simps)
  then have "k_lastPing example_conn = 0" using newConn_example by blast
  then have "k_lastPing example_written = 0"
    by (simp add: example_written_def write_payload_def wakeFlush_def signalWrite_def example_fields)
  from received_leaves_window[OF written_reached_star example_start written_bounded,
      of Client 5000 5000 always ps c] f this
  have "\<exists>p \<in> set ps. \<exists>x. packet_read plain_reader p = Ret x"
    by (auto simp: written_world_simps example_written)
  with f show ?thesis by blast
qed

end
