(* ===== verification/KcpBounds.thy ===== *)
theory KcpBounds
  imports KcpReceive
begin

text \<open>
  Numbers of mKCP: the round-trip estimate and the congestion window stay in their bounds without an
  overflow, when a configuration makes \<open>newConn\<close> panic, and where the 32-bit arithmetic goes wrong.
\<close>

section \<open>Words as numbers\<close>

lemma unat_mult_small:
  "unat (a :: 32 word) * unat b < 4294967296 \<Longrightarrow> unat (a * b) = unat a * unat b"
  by (simp add: unat_word_ariths(2))

lemma unat_add_small:
  "unat (a :: 32 word) + unat b < 4294967296 \<Longrightarrow> unat (a + b) = unat a + unat b"
  by (simp add: unat_word_ariths(1))

section \<open>Round-trip estimate and congestion window\<close>

definition congestion_ok :: "conn \<Rightarrow> bool" where
  "congestion_ok c \<longleftrightarrow> unat (k_minRtt c) \<le> 1000 \<and> unat (k_srtt c) \<le> 9999 \<and>
     unat (k_rttVariation c) \<le> 9999 \<and> 8 \<le> unat (send_flight (k_cfg c)) \<and>
     unat (send_flight (k_cfg c)) < 536870912 \<and> 8 \<le> unat (k_controlWindow c) \<and>
     unat (k_controlWindow c) \<le> 2 * unat (send_flight (k_cfg c))"

text \<open>Changes that do not concern it.\<close>

definition same_numbers :: "conn \<Rightarrow> conn \<Rightarrow> bool" where
  "same_numbers c c' \<longleftrightarrow> k_minRtt c' = k_minRtt c \<and> k_srtt c' = k_srtt c \<and>
     k_rttVariation c' = k_rttVariation c \<and> k_cfg c' = k_cfg c \<and> k_controlWindow c' = k_controlWindow c"

lemma same_numbers_ok: "same_numbers c c' \<Longrightarrow> congestion_ok c \<Longrightarrow> congestion_ok c'"
  by (simp add: same_numbers_def congestion_ok_def)

lemma same_numbers_trans: "same_numbers c d \<Longrightarrow> same_numbers d e \<Longrightarrow> same_numbers c e"
  by (simp add: same_numbers_def)

lemma same_numbers_parts [simp]:
  "same_numbers c (signalRead c)" "same_numbers c (signalWrite c)" "same_numbers c (wakeFlush c)"
  "same_numbers c (setState s later c)" "same_numbers c (findFirstUnacked c)"
  "same_numbers c (processSendingNext n c)" "same_numbers c (updatePeerRTO r t c)"
  "same_numbers c (handleFastAck n c)"
  by (simp_all add: signalRead_def signalWrite_def wakeFlush_def setState_def findFirstUnacked_def
      processSendingNext_def updatePeerRTO_def handleFastAck_def same_numbers_def Let_def
      split: connState.split)

lemma same_numbers_refl [simp]: "same_numbers c c"
  by (simp add: same_numbers_def)

lemmas numbers_after = same_numbers_parts[THEN same_numbers_trans[rotated]]

lemma numbers_terminate: "same_numbers c (terminate later c)"
  by (simp add: terminate_def signalRead_def signalWrite_def setState_def same_numbers_def Let_def
      split: connState.split)

lemma numbers_handleOption: "same_numbers c (handleOption opt later c)"
  by (simp add: handleOption_def split: connState.split)

lemma numbers_processReceivingNext: "same_numbers c (processReceivingNext n c)"
  by (simp add: processReceivingNext_def findFirstUnacked_def signalWrite_def same_numbers_def Let_def)

lemma numbers_processAck: "same_numbers c (snd (processAck n c))"
  by (simp add: processAck_def findFirstUnacked_def signalWrite_def same_numbers_def Let_def
      split: option.split)

lemma numbers_deliver_loop: "deliver_loop b c = (d, c') \<Longrightarrow> same_numbers c c'"
proof (induction b c arbitrary: d c' rule: deliver_loop.induct)
  case (1 b c)
  show ?case
  proof (cases "k_recvCache c (k_recvNext c)")
    case None
    with "1.prems" show ?thesis by (simp add: deliver_loop.simps[of b c])
  next
    case (Some seg)
    with "1.prems" "1.IH"[OF Some] show ?thesis
      by (simp add: deliver_loop.simps[of b c] same_numbers_def)
  qed
qed

lemma numbers_deliver: "same_numbers c (deliver c)"
proof -
  obtain d c' where d: "deliver_loop False c = (d, c')" by (cases "deliver_loop False c")
  from numbers_deliver_loop[OF this] show ?thesis
    by (auto simp: deliver_def d intro: same_numbers_trans)
qed

lemma numbers_ack_loop: "ack_loop ns m r c = (m', r', c') \<Longrightarrow> same_numbers c c'"
proof (induction ns m r c rule: ack_loop.induct)
  case (2 n ns m r c)
  obtain r0 d where p: "processAck n c = (r0, d)" by (cases "processAck n c")
  with numbers_processAck[of c n] have "same_numbers c d" by simp
  moreover have "same_numbers d c'" using 2 p by (auto split: if_splits)
  ultimately show ?case by (rule same_numbers_trans)
qed simp

text \<open>One update of the estimate, as numbers.\<close>

lemma updateRTT_bounds:
  assumes "congestion_ok c" "unat rtt \<le> 9999"
  shows "congestion_ok (updateRTT rtt current c)" "unat (k_rto (updateRTT rtt current c)) \<le> 12500"
proof -
  define var where "var = (if k_srtt c = 0 then rtt div 2
    else (3 * k_rttVariation c + (if k_srtt c > rtt then k_srtt c - rtt else rtt - k_srtt c)) div 4)"
  define srtt where "srtt = (if k_srtt c = 0 then rtt
    else let s = (7 * k_srtt c + rtt) div 8 in if s < k_minRtt c then k_minRtt c else s)"
  define rto where "rto = (if k_minRtt c < 4 * var then srtt + 4 * var else srtt + var)"
  have ok: "unat (k_minRtt c) \<le> 1000" "unat (k_srtt c) \<le> 9999" "unat (k_rttVariation c) \<le> 9999"
    using assms(1) by (simp_all add: congestion_ok_def)
  have r: "\<not> rtt > 0x7fffffff" using assms(2) by (simp add: word_less_nat_alt)
  let ?c = "updateRTT rtt current c"
  have c: "k_rttVariation ?c = var" "k_srtt ?c = srtt"
    "k_rto ?c = (if rto > 10000 then 10000 else rto) * 5 div 4"
    "k_minRtt ?c = k_minRtt c" "k_cfg ?c = k_cfg c" "k_controlWindow ?c = k_controlWindow c"
    using r by (simp_all add: updateRTT_def Let_def var_def srtt_def rto_def)
  have "unat (if k_srtt c > rtt then k_srtt c - rtt else rtt - k_srtt c) \<le> 9999"
    using ok(2) assms(2) by (auto simp: word_less_nat_alt unat_sub_if')
  moreover have "unat (3 * k_rttVariation c) = 3 * unat (k_rttVariation c)"
    using unat_mult_small[of 3 "k_rttVariation c"] ok(3) by simp
  ultimately have "unat (3 * k_rttVariation c +
      (if k_srtt c > rtt then k_srtt c - rtt else rtt - k_srtt c)) \<le> 39996"
    using ok(3) by (subst unat_add_small) auto
  then have v: "unat var \<le> 9999"
    using assms(2) by (auto simp: var_def unat_div)
  have "unat (7 * k_srtt c) = 7 * unat (k_srtt c)"
    using unat_mult_small[of 7 "k_srtt c"] ok(2) by simp
  then have "unat (7 * k_srtt c + rtt) \<le> 79992"
    using ok(2) assms(2) by (subst unat_add_small) auto
  then have s: "unat srtt \<le> 9999"
    using assms(2) ok(1) by (auto simp: srtt_def Let_def unat_div)
  show "congestion_ok ?c" using assms(1) v s by (simp add: congestion_ok_def c)
  have "unat (if rto > 10000 then 10000 else rto) \<le> 10000"
    by (auto simp: word_less_nat_alt not_less)
  then have "unat ((if rto > 10000 then 10000 else rto) * 5) \<le> 50000"
    by (subst unat_mult_small) auto
  then show "unat (k_rto ?c) \<le> 12500" unfolding c(3) by (simp add: unat_div)
qed

text \<open>The new congestion window, as numbers: three quarters after a loss of 15 percent, five quarters
  below five percent, between 16 and twice the flight size.\<close>

lemma onPacketLoss_window:
  assumes "congestion_ok c" "k_rto c \<noteq> 0"
  shows "unat (k_controlWindow (onPacketLoss r c)) =
     (let C = unat (k_controlWindow c);
          n = (if 15 \<le> unat r then 3 * C div 4 else if unat r \<le> 5 then C + C div 4 else C)
      in min (2 * unat (send_flight (k_cfg c))) (max 16 n))"
proof -
  let ?f = "send_flight (k_cfg c)" and ?C = "k_controlWindow c"
  define cw where "cw = (if r \<ge> 15 then 3 * ?C div 4 else if r \<le> 5 then ?C + ?C div 4 else ?C)"
  define cw1 where "cw1 = (if cw < 16 then 16 else cw)"
  have f: "unat ?f < 536870912" and C: "unat ?C \<le> 2 * unat ?f"
    using assms(1) by (simp_all add: congestion_ok_def)
  have f2: "unat (2 * ?f) = 2 * unat ?f" using unat_mult_small[of 2 ?f] f by simp
  have "unat (3 * ?C) = 3 * unat ?C" using unat_mult_small[of 3 ?C] f C by simp
  moreover have "unat (?C + ?C div 4) = unat ?C + unat ?C div 4"
    using unat_add_small[of ?C "?C div 4"] f C by (simp add: unat_div)
  ultimately have cw: "unat cw = (if 15 \<le> unat r then 3 * unat ?C div 4
      else if unat r \<le> 5 then unat ?C + unat ?C div 4 else unat ?C)"
    by (simp add: cw_def unat_div word_le_nat_alt)
  then have cw1: "unat cw1 = max 16 (unat cw)" by (simp add: cw1_def word_less_nat_alt max_def)
  have "k_controlWindow (onPacketLoss r c) = (if cw1 > 2 * ?f then 2 * ?f else cw1)"
    using assms(2) by (simp add: onPacketLoss_def cw1_def cw_def Let_def)
  then have "unat (k_controlWindow (onPacketLoss r c)) = min (2 * unat ?f) (unat cw1)"
    by (simp add: word_less_nat_alt f2 min_def)
  then show ?thesis by (simp add: cw1 cw Let_def)
qed

lemma onPacketLoss_bounds:
  assumes "congestion_ok c"
  shows "congestion_ok (onPacketLoss r c)"
proof (cases "k_rto c = 0")
  case False
  obtain x where x: "onPacketLoss r c = c\<lparr>k_controlWindow := x\<rparr>"
    using False by (simp add: onPacketLoss_def Let_def)
  then have "unat x = unat (k_controlWindow (onPacketLoss r c))" by simp
  also have "\<dots> \<ge> 8 \<and> \<dots> \<le> 2 * unat (send_flight (k_cfg c))"
    unfolding onPacketLoss_window[OF assms False] using assms by (simp add: congestion_ok_def Let_def)
  finally show ?thesis using assms by (simp add: x congestion_ok_def)
qed (use assms in \<open>simp add: onPacketLoss_def\<close>)

section \<open>Along every step\<close>

lemma congestion_input_data:
  assumes "congestion_ok c"
  shows "congestion_ok (input_data later s c)"
proof -
  let ?d = "processSendingNext (d_sendingNext s) (handleOption (d_option s) later c)"
  have "same_numbers c ?d" by (intro numbers_after numbers_handleOption)
  moreover have "same_numbers ?d (store_data s ?d)" by (simp add: store_data_def same_numbers_def)
  ultimately have "same_numbers c (deliver (store_data s ?d))"
    using numbers_deliver same_numbers_trans by blast
  then show ?thesis unfolding input_data_alt using assms same_numbers_ok by blast
qed

lemma congestion_input_ack: "congestion_ok c \<Longrightarrow> congestion_ok (snd (input_ack current later s c))"
proof -
  define d where "d = handleOption (a_option s) later c"
  define e where "e = (if a_receivingWindow s > k_remoteRecvWin d
      then d\<lparr>k_remoteRecvWin := a_receivingWindow s\<rparr> else d)"
  define f where "f = processReceivingNext (a_receivingNext s) e"
  obtain m r g where l: "ack_loop (a_numberList s) 0 False f = (m, r, g)"
    by (cases "ack_loop (a_numberList s) 0 False f")
  assume ok: "congestion_ok c"
  have "same_numbers c d" unfolding d_def by (rule numbers_handleOption)
  moreover have "same_numbers d e" by (simp add: e_def same_numbers_def)
  moreover have "same_numbers e f" unfolding f_def by (rule numbers_processReceivingNext)
  ultimately have f: "same_numbers c f" using same_numbers_trans by blast
  then have g: "same_numbers c g" using numbers_ack_loop[OF l] same_numbers_trans by blast
  then have h: "same_numbers c (handleFastAck m g)" by (rule numbers_after)
  have "congestion_ok (updateRTT (current - a_timestamp s) current (handleFastAck m g))"
    if "current - a_timestamp s < 10000"
    using updateRTT_bounds(1)[OF same_numbers_ok[OF h ok]] that by (simp add: word_less_nat_alt)
  with f g h ok show ?thesis
    by (simp add: input_ack_def d_def[symmetric] e_def[symmetric] f_def[symmetric] l Let_def
        same_numbers_ok)
qed

lemma congestion_input_cmd:
  assumes "congestion_ok c"
  shows "congestion_ok (snd (input_cmd current later m c))"
proof -
  define d where "d = handleOption (c_option m) later c"
  define e where "e = (if c_cmd m = commandTerminate then
               (case k_state d of
                  StateActive \<Rightarrow> (False, setState StatePeerTerminating later d)
                | StatePeerClosed \<Rightarrow> (False, setState StatePeerTerminating later d)
                | StateReadyToClose \<Rightarrow> (False, setState StateTerminating later d)
                | StateTerminating \<Rightarrow> (True, setState StateTerminated later d)
                | _ \<Rightarrow> (False, d))
             else (False, d))"
  obtain t f where e: "e = (t, f)" by (cases e)
  have "same_numbers d (snd e)" by (simp add: e_def split: connState.split)
  moreover have "same_numbers c d" unfolding d_def by (rule numbers_handleOption)
  ultimately have "same_numbers c f" using same_numbers_trans e by auto
  then have p: "same_numbers c (processReceivingNext (c_receivingNext m) f)"
    using numbers_processReceivingNext same_numbers_trans by blast
  let ?q = "updatePeerRTO (c_peerRTO m) current (processSendingNext (c_sendingNext m)
      (processReceivingNext (c_receivingNext m) f))"
  have "same_numbers c ?q" "same_numbers c (signalWrite (signalRead ?q))"
    by (intro numbers_after p)+
  then have "congestion_ok ?q" "congestion_ok (signalWrite (signalRead ?q))"
    using same_numbers_ok assms by blast+
  then show ?thesis
    by (simp add: input_cmd_def d_def[symmetric] e_def[symmetric] e Let_def)
qed

lemma congestion_input_loop:
  "input_loop current later segs w t c = (w', t', c') \<Longrightarrow> congestion_ok c \<Longrightarrow> congestion_ok c'"
proof (induction current later segs w t c rule: input_loop.induct)
  case (2 current later seg segs w t c)
  show ?case
  proof (cases "conversation seg = k_conv c")
    case True
    show ?thesis
    proof (cases seg)
      case (DataSeg x)
      with 2 True show ?thesis by (simp add: congestion_input_data)
    next
      case (AckSeg y)
      with 2 True congestion_input_ack[of c current later y] show ?thesis
        by (simp split: prod.splits)
    next
      case (CmdSeg z)
      with 2 True congestion_input_cmd[of c current later z] show ?thesis
        by (simp split: prod.splits)
    qed
  qed (use 2 in simp)
qed simp

lemma congestion_Input: "congestion_ok c \<Longrightarrow> congestion_ok (conn_Input current later segs c)"
proof -
  let ?c = "c\<lparr>k_lastIncoming := current\<rparr>"
  obtain w t d where l: "input_loop current later segs False False ?c = (w, t, d)"
    by (cases "input_loop current later segs False False ?c")
  assume ok: "congestion_ok c"
  then have "congestion_ok ?c" by (simp add: congestion_ok_def)
  with congestion_input_loop[OF l] have d: "congestion_ok d" by blast
  then have "congestion_ok (if w then wakeFlush d else d)"
    using same_numbers_ok[OF same_numbers_parts(3)] by simp
  then show ?thesis
    using ok same_numbers_ok[OF numbers_terminate] by (simp add: conn_Input_def l Let_def)
qed

lemma congestion_flushSend:
  assumes "congestion_ok c" "flushSend t c = (segs, c')"
  shows "congestion_ok c'"
proof (cases "k_sendWindow c = []")
  case True
  with assms show ?thesis
    by (auto simp: flushSend_def pingSegment_def congestion_ok_def split: if_splits)
next
  case False
  obtain ws out l i n where s:
    "send_loop c t (congestion_window c) (k_sendWindow c) 0 0 (k_totalInFlightSize c) = (ws, out, l, i, n)"
    by (metis prod.exhaust)
  let ?d = "c\<lparr>k_sendWindow := ws, k_totalInFlightSize := n\<rparr>"
  have "congestion_ok ?d" using assms(1) by (simp add: congestion_ok_def)
  then have "congestion_ok (onPacketLoss r ?d)" for r by (rule onPacketLoss_bounds)
  moreover have "congestion_ok (e\<lparr>k_firstUnackedWasUpdated := b\<rparr>) = congestion_ok e" for e b
    by (simp add: congestion_ok_def)
  moreover have "c' = (if k_Congestion (k_cfg ?d) \<and> i > 0 \<and> n \<noteq> 0
      then onPacketLoss (l * 100 div n) ?d else ?d)\<lparr>k_firstUnackedWasUpdated := False\<rparr>"
    using assms(2) False by (simp add: flushSend_def s Let_def)
  ultimately show ?thesis using \<open>congestion_ok ?d\<close> by simp
qed

lemma congestion_flush_segments:
  "congestion_ok c \<Longrightarrow> congestion_ok (snd (flush_segments t c))"
proof -
  assume ok: "congestion_ok c"
  obtain a d where a: "flushAcks t c = (a, d)" by (cases "flushAcks t c")
  obtain b e where b: "flushSend t d = (b, e)" by (cases "flushSend t d")
  have "same_numbers c d"
    using a by (auto simp: flushAcks_def Let_def same_numbers_def split: prod.splits if_splits)
  with ok b have "congestion_ok e" using congestion_flushSend same_numbers_ok by blast
  moreover have "congestion_ok (e\<lparr>k_lastPing := t\<rparr>) = congestion_ok e"
    by (simp add: congestion_ok_def)
  ultimately show ?thesis by (simp add: flush_segments_def a b Let_def pingSegment_def)
qed

lemma congestion_flush:
  assumes "conn_flush t later io c = Ret (ps, c')" "congestion_ok c"
  shows "congestion_ok c'"
  using assms(1)
proof (rule flush_parts)
  fix segs ended d w
  assume l: "flush_locked t later c = (segs, ended, d)"
    and c': "c' = (if ended then terminate later (d\<lparr>k_writer := w\<rparr>) else d\<lparr>k_writer := w\<rparr>)"
  have "same_numbers c (flush_idle t later c)"
    unfolding flush_idle_def Let_def by (simp add: numbers_after)
  then have i: "congestion_ok (flush_idle t later c)" using same_numbers_ok assms(2) by blast
  have "same_numbers (flush_idle t later c) (flush_late t later (flush_idle t later c))"
    by (simp add: flush_late_def Let_def numbers_after)
  with i have "congestion_ok (flush_late t later (flush_idle t later c))" using same_numbers_ok by blast
  then have s: "congestion_ok (snd (flush_segments t (flush_late t later (flush_idle t later c))))"
    by (rule congestion_flush_segments)
  have p: "congestion_ok ((flush_idle t later c)\<lparr>k_lastPing := t\<rparr>)"
    using i by (simp add: congestion_ok_def)
  have q: "congestion_ok (setState StateTerminated later ((flush_idle t later c)\<lparr>k_lastPing := t\<rparr>))"
    using same_numbers_ok[OF same_numbers_parts(4) p] .
  have "congestion_ok (snd (snd (flush_locked t later c)))"
    using p q s assms(2) by (simp add: flush_locked_alt Let_def pingSegment_def split_beta)
  then have "congestion_ok (d\<lparr>k_writer := w\<rparr>)" using l by (simp add: congestion_ok_def)
  then show ?thesis using same_numbers_ok[OF numbers_terminate] by (auto simp: c')
qed

lemma congestion_step:
  assumes "conn_step c c'" "congestion_ok c"
  shows "congestion_ok c'"
  using assms
proof (induction rule: conn_step.induct)
  case (step_Read c n)
  then show ?case by (simp add: conn_Read_def wakeFlush_def congestion_ok_def)
next
  case (step_Write c p)
  then show ?case by (simp add: write_payload_def wakeFlush_def signalWrite_def congestion_ok_def)
next
  case (step_Close c later)
  have "same_numbers c (snd (conn_Close later c))"
    by (auto simp: conn_Close_def split: connState.split
        intro!: numbers_after same_numbers_trans[OF _ numbers_terminate])
  with step_Close show ?case using same_numbers_ok by blast
next
  case (step_SetReadDeadline c t)
  then show ?case by (simp add: SetReadDeadline_def signalRead_def congestion_ok_def)
next
  case (step_SetWriteDeadline c t)
  then show ?case by (simp add: SetWriteDeadline_def signalWrite_def congestion_ok_def)
next
  case (step_Input c current later segments)
  then show ?case by (rule congestion_Input[rotated -1])
next
  case (step_flush c current later io packets c')
  then show ?case using congestion_flush by blast
next
  case (step_terminate c later)
  then show ?case using same_numbers_ok numbers_terminate by blast
qed

section \<open>Configurations\<close>

lemma div_eq_0: "(1000 :: 32 word) div b = 0 \<longleftrightarrow> b = 0 \<or> 1000 < b"
proof -
  have "(1000 :: 32 word) div b = 0 \<longleftrightarrow> unat (1000 :: 32 word) div unat b = 0"
    by (metis unat_div unat_0_iff)
  also have "\<dots> \<longleftrightarrow> b = 0 \<or> 1000 < b"
    by (auto simp: div_eq_0_iff word_less_nat_alt unat_eq_0)
  finally show ?thesis .
qed

text \<open>The interval between two flushes may be configured freely, but above one second no connection can
  be made.\<close>

lemma new_connection_panics_iff:
  "(\<exists>m. newConn conv w cfg = Panic m) \<longleftrightarrow> 1000 < cfg_tti cfg"
  "(\<exists>c. newConn conv w cfg = Ret c) \<longleftrightarrow> cfg_tti cfg \<le> 1000"
proof -
  have "cfg_tti cfg \<noteq> 0" by (simp add: cfg_tti_def)
  then show "(\<exists>m. newConn conv w cfg = Panic m) \<longleftrightarrow> 1000 < cfg_tti cfg"
    "(\<exists>c. newConn conv w cfg = Ret c) \<longleftrightarrow> cfg_tti cfg \<le> 1000"
    by (auto simp: newConn_def sendingInFlightSize_def in_flight_def div_eq_0 Let_def not_less)
qed

lemma new_congestion_ok:
  assumes "newConn conv w cfg = Ret c" "unat (send_flight cfg) < 536870912"
  shows "congestion_ok c"
proof -
  have "cfg_tti cfg \<le> 1000" using new_connection_panics_iff(2)[of conv w cfg] assms(1) by blast
  then have "unat (cfg_tti cfg) \<le> 1000" by (simp add: word_le_nat_alt)
  moreover have "8 \<le> unat (send_flight cfg)"
    using assms(1)
    by (auto simp: newConn_def outcome_simps sendingInFlightSize_def in_flight_def send_flight_def
        Let_def word_less_nat_alt split: if_splits)
  ultimately show ?thesis
    using assms(2) by (simp add: congestion_ok_def newConn_fields[OF assms(1)])
qed


lemma send_flight_example: "send_flight example_config = 194"
  by (simp add: send_flight_def sendingInFlightSize_def cfg_uplinkCapacity_def in_flight_def
      example_config_def cfg_mtu_def cfg_tti_def)


section \<open>Where the arithmetic goes wrong\<close>

text \<open>A capacity of 4096 MB/s or more wraps around to a small flight size.\<close>

lemma capacity_overflows:
  "in_flight 4095 example_config = Ret 159034" "in_flight 4096 example_config = Ret 8"
  by (simp_all add: in_flight_def example_config_def cfg_mtu_def cfg_tti_def)

text \<open>The timeout that the peer announces is taken as it is, also far above the bound of the
  measured one.\<close>

lemma peer_timeout_unbounded:
  "rto \<noteq> 0 \<Longrightarrow> 3000 \<le> t - k_rtoUpdated c \<Longrightarrow> k_rto (updatePeerRTO rto t c) = rto"
  by (auto simp: updatePeerRTO_def dest: leD)

text \<open>A new segment has the timeout 0, which lies in the future once the clock of the connection has
  passed \<open>2 ^ 31\<close> milliseconds: after 24 days no flush sends new data.\<close>

lemma fresh_segments_stuck:
  assumes "\<forall>seg \<in> set ws. d_timeout seg = 0" "0x7fffffff \<le> t"
  shows "send_loop c t w ws l i n = (ws, [], l, i, n)"
  using assms(1) by (induction ws) (use assms(2) in auto)

text \<open>A cumulative acknowledgement removes segments without taking them off the count of segments in
  flight, by which the loss rate is divided.\<close>

lemma cumulative_ack_keeps_count:
  "k_totalInFlightSize (processReceivingNext n c) = k_totalInFlightSize c"
  by (simp add: processReceivingNext_def findFirstUnacked_def signalWrite_def Let_def)

text \<open>The segment size leaves no room for the nonce: a full packet is longer than the MTU by its
  size.\<close>

lemma full_packet_exceeds_mtu:
  assumes "secure w" "nonce_for w nonce" "writeSegment w nonce (DataSeg d) = Ret (p, w')"
    and "length (d_payload d) = conn_mss cfg w" "pw_security w = Some a"
    and "576 + pw_overhead w + 18 \<le> unat (cfg_mtu cfg)"
  shows "length p = unat (cfg_mtu cfg) + aead_nonce a"
proof -
  have "conn_mss cfg w + pw_overhead w + 18 = unat (cfg_mtu cfg)"
  proof -
    obtain k where k: "uint (cfg_mtu cfg) = int k"
      using zero_le_imp_eq_int[OF unsigned_greater_eq] by blast
    then have u: "unat (cfg_mtu cfg) = k" by (simp add: unat_eq_nat_uint)
    have "594 + pw_overhead w \<le> k" using assms(6) u by simp
    then show ?thesis unfolding conn_mss_def Let_def dataSegmentOverhead_def k u by auto
  qed
  with packet_length[OF assms(1-3)] assms(4,5) show ?thesis by (simp add: dataSegmentOverhead_def)
qed

end
